(* ===== verification/Vcodec_Prelude.thy ===== *)
theory Vcodec_Prelude
  imports Complex_Main "HOL-Library.Word" "HOL-Library.List_Lexorder"
begin

text \<open>
  Shared vocabulary of the development: the machine types, characters and octets, decimal
  text as \<^verbatim>\<open>std::to_string\<close> prints it, \<^verbatim>\<open>std::lexicographical_compare\<close> on octet strings,
  and big-endian octet groups.
  \<^item> a \<^verbatim>\<open>std::byte\<close> is an \<open>8 word\<close>, a \<^verbatim>\<open>std::uint64_t\<close> a \<open>64 word\<close>; a \<^verbatim>\<open>char\<close> of a
    \<^verbatim>\<open>std::string\<close> is a \<open>char\<close>, which also has 256 values;
  \<^item> a \<^verbatim>\<open>std::size_t\<close> that counts octets of a buffer in memory is a \<open>nat\<close>;
  \<^item> \<open>codec_simps\<close> collects the equations the component proofs rewrite with.
\<close>

unbundle bit_operations_syntax

named_theorems codec_simps \<open>rewrite rules shared by the component proofs\<close>

type_synonym byte = "8 word"
type_synonym bytes = "byte list"
type_synonym u8 = "8 word"
type_synonym u16 = "16 word"
type_synonym u32 = "32 word"
type_synonym u64 = "64 word"

section \<open>Characters and octets\<close>

text \<open>\<^verbatim>\<open>static_cast<unsigned char>(c)\<close> and back: both types have 256 values.\<close>

definition uchar :: "char \<Rightarrow> byte" where
  "uchar c = of_nat (of_char c)"

definition chr :: "byte \<Rightarrow> char" where
  "chr b = char_of (unat b)"

definition string_of_bytes :: "bytes \<Rightarrow> string" where
  "string_of_bytes bs = map chr bs"

definition bytes_of_string :: "string \<Rightarrow> bytes" where
  "bytes_of_string s = map uchar s"

lemma unat_byte_less [simp]: "unat (b :: byte) < 256"
  using unsigned_less [of b, where ?'a = nat] by simp

lemma unat_uchar [simp]: "unat (uchar c) = of_char c"
  by (simp add: uchar_def unsigned_of_nat take_bit_eq_mod)

lemma chr_uchar [simp]: "chr (uchar c) = c"
  by (simp add: chr_def)

lemma uchar_chr [simp]: "uchar (chr b) = b"
proof -
  have "unat (uchar (chr b)) = unat b"
    by (simp add: chr_def of_char_of)
  then show ?thesis by (simp add: word_unat_eq_iff)
qed

lemma uchar_eq_iff [simp]: "uchar c = uchar d \<longleftrightarrow> c = d"
  by (metis chr_uchar)

lemma chr_eq_iff [simp]: "chr a = chr b \<longleftrightarrow> a = b"
  by (metis uchar_chr)

lemma string_bytes_inverse [simp]:
  "string_of_bytes (bytes_of_string s) = s"
  "bytes_of_string (string_of_bytes bs) = bs"
  by (simp_all add: string_of_bytes_def bytes_of_string_def comp_def)

lemma length_string_bytes [simp]:
  "length (string_of_bytes bs) = length bs"
  "length (bytes_of_string s) = length s"
  by (simp_all add: string_of_bytes_def bytes_of_string_def)

lemma bytes_of_string_eq_iff [simp]: "bytes_of_string s = bytes_of_string t \<longleftrightarrow> s = t"
  by (metis string_bytes_inverse(1))

text \<open>A property of all 256 octets is checked by evaluation on the list of their values.\<close>

lemma byte_exhaustive:
  assumes "\<forall>n\<in>set [0..<256]. P (of_nat n :: byte)"
  shows "P b"
proof -
  have "P (of_nat (unat b) :: byte)"
    using assms by (rule bspec) simp
  then show ?thesis by simp
qed

text \<open>Octets are equal when their eight bits are.\<close>

lemma bit_byte_high [simp]: "8 \<le> n \<Longrightarrow> \<not> bit (b :: byte) n"
  using bit_imp_le_length [of b n] by auto

lemma byte_eqI:
  fixes x y :: byte
  assumes "bit x 0 = bit y 0" "bit x 1 = bit y 1" "bit x 2 = bit y 2" "bit x 3 = bit y 3"
    "bit x 4 = bit y 4" "bit x 5 = bit y 5" "bit x 6 = bit y 6" "bit x 7 = bit y 7"
  shows "x = y"
proof (rule bit_word_eqI)
  fix n
  assume "n < LENGTH(8)"
  then have "n = 0 \<or> n = 1 \<or> n = 2 \<or> n = 3 \<or> n = 4 \<or> n = 5 \<or> n = 6 \<or> n = 7"
    by auto
  with assms show "bit x n = bit y n"
    by (elim disjE) simp_all
qed

section \<open>Decimal text\<close>

text \<open>\<^verbatim>\<open>std::to_string\<close> and \<^verbatim>\<open>std::to_chars\<close> on integers: no leading zeros, a minus sign for
  negative values.\<close>

definition digit_char :: "int \<Rightarrow> char" where
  "digit_char d = char_of (48 + nat d)"

function dec_digits :: "int \<Rightarrow> string" where
  "dec_digits n = (if n < 10 then [digit_char n] else dec_digits (n div 10) @ [digit_char (n mod 10)])"
  by auto
termination
  by (relation "measure nat") auto

declare dec_digits.simps [simp del]

definition dec_nat :: "nat \<Rightarrow> string" where
  "dec_nat n = dec_digits (int n)"

definition dec_u64 :: "u64 \<Rightarrow> string" where
  "dec_u64 u = dec_digits (uint u)"

definition dec_int :: "int \<Rightarrow> string" where
  "dec_int i = (if i < 0 then CHR ''-'' # dec_digits (- i) else dec_digits i)"

lemma dec_digits_nonempty [simp]: "dec_digits n \<noteq> []"
  by (subst dec_digits.simps) simp

section \<open>Lexicographic comparison\<close>

text \<open>\<^verbatim>\<open>std::lexicographical_compare\<close> on octets. It is the strict order of the library's
  lexicographic order on lists, so the library's \<^const>\<open>sort_key\<close> is \<^verbatim>\<open>std::stable_sort\<close> with
  this comparison on a key.\<close>

fun lex_less :: "bytes \<Rightarrow> bytes \<Rightarrow> bool" where
  "lex_less [] [] = False"
| "lex_less [] (y # ys) = True"
| "lex_less (x # xs) [] = False"
| "lex_less (x # xs) (y # ys) = (if x < y then True else if y < x then False else lex_less xs ys)"

lemma lex_less_iff [simp]: "lex_less xs ys \<longleftrightarrow> xs < ys"
  by (induction xs ys rule: lex_less.induct) auto

section \<open>Big-endian octet groups\<close>

text \<open>\<open>be_bytes n x\<close> is the loop of \<^verbatim>\<open>make_head\<close>'s \<^verbatim>\<open>be\<close> and of the writer's \<^verbatim>\<open>be16/be32/be64\<close>
  (shift counts \<open>8 * (n - 1), \<dots>, 0\<close>); \<open>be_value\<close> is the reading loop of \<^verbatim>\<open>parse_head\<close>.\<close>

fun be_bytes :: "nat \<Rightarrow> u64 \<Rightarrow> bytes" where
  "be_bytes 0 x = []"
| "be_bytes (Suc k) x = ucast (drop_bit (8 * k) x AND 0xFF) # be_bytes k x"

definition be_value :: "bytes \<Rightarrow> u64" where
  "be_value bs = foldl (\<lambda>v b. push_bit 8 v OR ucast b) 0 bs"

text \<open>The number an octet group denotes, as mathematics.\<close>

definition be_nat :: "bytes \<Rightarrow> nat" where
  "be_nat bs = foldl (\<lambda>v b. v * 256 + unat b) 0 bs"

lemma be_nat_Nil [simp]: "be_nat [] = 0"
  by (simp add: be_nat_def)

lemma be_nat_snoc [simp]: "be_nat (bs @ [b]) = be_nat bs * 256 + unat b"
  by (simp add: be_nat_def)

lemma foldl_be_nat:
  "foldl (\<lambda>v b. v * 256 + unat b) a bs = a * 256 ^ length bs + be_nat (bs :: bytes)"
proof (induction bs arbitrary: a rule: rev_induct)
  case Nil
  then show ?case by simp
next
  case (snoc b bs)
  have "foldl (\<lambda>v b. v * 256 + unat b) a (bs @ [b]) = (a * 256 ^ length bs + be_nat bs) * 256 + unat b"
    by (simp only: foldl_append foldl_Cons foldl_Nil snoc)
  then show ?case by (simp add: algebra_simps)
qed

lemma be_nat_Cons: "be_nat (b # bs) = unat b * 256 ^ length bs + be_nat bs"
proof -
  have "be_nat (b # bs) = foldl (\<lambda>v b. v * 256 + unat b) (unat b) bs"
    by (simp add: be_nat_def)
  then show ?thesis
    by (simp only: foldl_be_nat)
qed

lemma be_nat_less: "be_nat bs < 256 ^ length bs"
proof (induction bs rule: rev_induct)
  case (snoc b bs)
  have "be_nat bs * 256 + unat b < Suc (be_nat bs) * 256"
    using unat_byte_less [of b] by simp
  also have "\<dots> \<le> 256 ^ length bs * 256"
    using snoc by (simp add: Suc_le_eq)
  finally show ?case by (simp add: mult.commute)
qed simp

lemma length_be_bytes [simp]: "length (be_bytes n x) = n"
  by (induction n) simp_all

lemma unat_ucast_byte [codec_simps]: "unat (ucast b :: u64) = unat (b :: byte)"
proof -
  have "unat b < 2 ^ 64"
    by (rule order.strict_trans [OF unat_byte_less]) simp
  then show ?thesis
    using unsigned_ucast_eq [of b, where ?'a = nat and ?'c = 64] by (simp add: take_bit_eq_mod)
qed

lemma unat_ucast_u8: "unat (ucast (v :: u64) :: byte) = unat v mod 256"
  using unsigned_ucast_eq [of v, where ?'a = nat and ?'c = 8] by (simp add: take_bit_eq_mod)

text \<open>Within eight octets the shifting loop does not lose a bit.\<close>

lemma push_or_byte:
  fixes v :: u64 and b :: byte
  assumes "unat v < 2 ^ 56"
  shows "unat (push_bit 8 v OR ucast b) = unat v * 256 + unat b"
proof -
  have dis: "push_bit 8 v AND ucast b = 0"
    by (rule bit_word_eqI) (auto simp: bit_simps dest: bit_imp_le_length)
  have "push_bit 8 v OR ucast b = push_bit 8 v + ucast b"
    by (rule disjunctive_add_eq_or [symmetric]) (rule dis)
  also have "\<dots> = v * 256 + ucast b"
    by (simp add: push_bit_eq_mult mult.commute)
  finally have eq: "push_bit 8 v OR ucast b = v * 256 + ucast b" .
  have "unat (v * 256 + ucast b) = (unat v * 256 + unat b) mod 2 ^ 64"
    by (simp add: unat_word_ariths unat_ucast_byte mod_simps)
  also have "\<dots> = unat v * 256 + unat b"
  proof (rule mod_less)
    have "unat v < 72057594037927936"
      using assms by simp
    then have "unat v * 256 + unat b < 18446744073709551616"
      using unat_byte_less [of b] by linarith
    then show "unat v * 256 + unat b < 2 ^ 64" by simp
  qed
  finally show ?thesis
    by (simp only: eq)
qed

lemma unat_be_value:
  assumes "length bs \<le> 8"
  shows "unat (be_value bs) = be_nat bs"
  using assms
proof (induction bs rule: rev_induct)
  case Nil
  then show ?case by (simp add: be_value_def)
next
  case (snoc b bs)
  then have len: "length bs \<le> 7" and IH: "unat (be_value bs) = be_nat bs"
    by simp_all
  have "be_nat bs < 256 ^ 7"
    using be_nat_less [of bs] power_increasing [OF len, of "256 :: nat"] by simp
  then have "unat (be_value bs) < 2 ^ 56"
    using IH by simp
  then have "unat (push_bit 8 (be_value bs) OR ucast b) = be_nat bs * 256 + unat b"
    by (simp add: push_or_byte IH)
  then show ?case
    by (simp add: be_value_def)
qed

lemma be_nat_be_bytes: "be_nat (be_bytes n x) = unat x mod 256 ^ n"
proof (induction n)
  case 0
  then show ?case by simp
next
  case (Suc k)
  have "drop_bit (8 * k) x AND 0xFF = take_bit 8 (drop_bit (8 * k) x)"
    by (simp add: take_bit_eq_mask mask_numeral)
  moreover have "unat (drop_bit (8 * k) x) = unat x div 256 ^ k"
    unfolding unat_drop_bit_eq by (simp add: drop_bit_eq_div power_mult)
  ultimately have "unat (ucast (drop_bit (8 * k) x AND 0xFF) :: byte) = unat x div 256 ^ k mod 256"
    by (simp only: unsigned_ucast_eq unsigned_take_bit_eq) (simp add: take_bit_eq_mod)
  then show ?case
    using Suc mod_mult2_eq [of "unat x" "256 ^ k" 256]
    by (simp add: be_nat_Cons algebra_simps)
qed

lemma be_value_be_bytes:
  assumes "n \<le> 8" "unat x < 256 ^ n"
  shows "be_value (be_bytes n x) = x"
proof -
  have "unat (be_value (be_bytes n x)) = unat x"
    using assms by (simp add: unat_be_value be_nat_be_bytes)
  then show ?thesis by (simp add: word_unat_eq_iff)
qed

text \<open>On groups of one length the lexicographic order is the numeric order, and a group is
  determined by its number.\<close>

lemma be_nat_order:
  assumes "length xs = length ys"
  shows "xs < ys \<longleftrightarrow> be_nat xs < be_nat ys"
  using assms
proof (induction xs ys rule: list_induct2)
  case Nil
  then show ?case by simp
next
  case (Cons x xs y ys)
  have bx: "be_nat xs < 256 ^ length ys" and byy: "be_nat ys < 256 ^ length ys"
    using be_nat_less [of xs] be_nat_less [of ys] Cons.hyps by simp_all
  consider "x < y" | "x = y" | "y < x" by force
  then show ?case
  proof cases
    case 1
    then have "Suc (unat x) \<le> unat y" by (simp add: word_less_nat_alt Suc_le_eq)
    then have "Suc (unat x) * 256 ^ length ys \<le> unat y * 256 ^ length ys" by (rule mult_le_mono1)
    with 1 bx Cons.hyps show ?thesis by (simp add: be_nat_Cons)
  next
    case 2
    with Cons show ?thesis by (simp add: be_nat_Cons)
  next
    case 3
    then have "Suc (unat y) \<le> unat x" by (simp add: word_less_nat_alt Suc_le_eq)
    then have "Suc (unat y) * 256 ^ length ys \<le> unat x * 256 ^ length ys" by (rule mult_le_mono1)
    with 3 byy Cons.hyps show ?thesis by (auto simp: be_nat_Cons)
  qed
qed

lemma be_nat_inject:
  assumes "length xs = length ys" "be_nat xs = be_nat ys"
  shows "xs = ys"
proof -
  have "\<not> xs < ys" "\<not> ys < xs"
    using assms by (simp_all add: be_nat_order)
  then show ?thesis by (meson linorder_less_linear)
qed

end
