(* ===== verification/Vcodec_Error.thy ===== *)
theory Vcodec_Error
  imports Vcodec_Prelude
begin

text \<open>
  \<^verbatim>\<open>src/include/vcodec/error.hpp\<close>: error codes, the structured error with its member path, and
  the one-line renderer. A path is collected leaf first while a failure unwinds and is reversed
  once by \<open>finalize\<close>; at most 16 steps are kept. The record \<open>error\<close> has the fields of
  \<^verbatim>\<open>error::impl\<close>; the \<^verbatim>\<open>owned\<close> strings are storage only, a step holds its text itself.
\<close>

section \<open>Codes\<close>

datatype errc =
    unexpected_token | unterminated_string | invalid_escape | invalid_utf8
  | invalid_number | trailing_content | depth_exceeded | truncated
  | type_mismatch | missing_field | unknown_field | duplicate_key
  | out_of_range | unknown_enumerator | no_variant_alternative | missing_tag
  | escape_in_borrowed_string | non_text_key
  | malformed_item | unsupported_simple_value
  | tag_mismatch
  | non_deterministic | indefinite_in_borrowed_string

text \<open>The enumeration order, which \<^verbatim>\<open>c <= errc::truncated\<close> refers to.\<close>

definition errc_order :: "errc list" where
  "errc_order = [unexpected_token, unterminated_string, invalid_escape, invalid_utf8,
    invalid_number, trailing_content, depth_exceeded, truncated,
    type_mismatch, missing_field, unknown_field, duplicate_key,
    out_of_range, unknown_enumerator, no_variant_alternative, missing_tag,
    escape_in_borrowed_string, non_text_key,
    malformed_item, unsupported_simple_value,
    tag_mismatch,
    non_deterministic, indefinite_in_borrowed_string]"

fun index_in :: "'a \<Rightarrow> 'a list \<Rightarrow> nat" where
  "index_in x [] = 0"
| "index_in x (y # ys) = (if x = y then 0 else Suc (index_in x ys))"

definition errc_value :: "errc \<Rightarrow> nat" where
  "errc_value c = index_in c errc_order"

definition is_syntax_error :: "errc \<Rightarrow> bool" where
  "is_syntax_error c \<longleftrightarrow>
     errc_value c \<le> errc_value truncated \<or> c = malformed_item \<or> c = unsupported_simple_value"

fun errc_to_string :: "errc \<Rightarrow> string" where
  "errc_to_string unexpected_token = ''unexpected_token''"
| "errc_to_string unterminated_string = ''unterminated_string''"
| "errc_to_string invalid_escape = ''invalid_escape''"
| "errc_to_string invalid_utf8 = ''invalid_utf8''"
| "errc_to_string invalid_number = ''invalid_number''"
| "errc_to_string trailing_content = ''trailing_content''"
| "errc_to_string depth_exceeded = ''depth_exceeded''"
| "errc_to_string truncated = ''truncated''"
| "errc_to_string type_mismatch = ''type_mismatch''"
| "errc_to_string missing_field = ''missing_field''"
| "errc_to_string unknown_field = ''unknown_field''"
| "errc_to_string duplicate_key = ''duplicate_key''"
| "errc_to_string out_of_range = ''out_of_range''"
| "errc_to_string unknown_enumerator = ''unknown_enumerator''"
| "errc_to_string no_variant_alternative = ''no_variant_alternative''"
| "errc_to_string missing_tag = ''missing_tag''"
| "errc_to_string escape_in_borrowed_string = ''escape_in_borrowed_string''"
| "errc_to_string non_text_key = ''non_text_key''"
| "errc_to_string malformed_item = ''malformed_item''"
| "errc_to_string unsupported_simple_value = ''unsupported_simple_value''"
| "errc_to_string tag_mismatch = ''tag_mismatch''"
| "errc_to_string non_deterministic = ''non_deterministic''"
| "errc_to_string indefinite_in_borrowed_string = ''indefinite_in_borrowed_string''"

section \<open>The error value\<close>

record line_col =
  line :: nat
  column :: nat

datatype path_step =
    step_member string
  | step_index u64
  | step_key_text string
  | step_key_int u64

definition max_path_steps :: nat where
  "max_path_steps = 16"

record error =
  code :: errc
  offset :: nat
  length_of :: nat
  position :: "line_col option"
  container_offset :: "nat option"
  steps :: "path_step list"
  path_truncated :: bool
  finalized :: bool
  deny_unknown :: bool
  detail :: string
  expected :: string
  found :: string
  context_of :: string
  suggestion :: string
  candidates :: "string list"

definition mk_error :: "errc \<Rightarrow> nat \<Rightarrow> error" where
  "mk_error c off = \<lparr>code = c, offset = off, length_of = 0, position = None,
     container_offset = None, steps = [], path_truncated = False, finalized = False,
     deny_unknown = False, detail = [], expected = [], found = [], context_of = [],
     suggestion = [], candidates = []\<rparr>"

subsection \<open>Builders\<close>

definition with_length :: "nat \<Rightarrow> error \<Rightarrow> error" where
  "with_length n e = e\<lparr>length_of := n\<rparr>"
definition with_position :: "line_col \<Rightarrow> error \<Rightarrow> error" where
  "with_position lc e = e\<lparr>position := Some lc\<rparr>"
definition with_detail :: "string \<Rightarrow> error \<Rightarrow> error" where
  "with_detail s e = e\<lparr>detail := s\<rparr>"
definition with_expected :: "string \<Rightarrow> error \<Rightarrow> error" where
  "with_expected s e = e\<lparr>expected := s\<rparr>"
definition with_found :: "string \<Rightarrow> error \<Rightarrow> error" where
  "with_found s e = e\<lparr>found := s\<rparr>"
definition with_context :: "string \<Rightarrow> error \<Rightarrow> error" where
  "with_context s e = e\<lparr>context_of := s\<rparr>"
definition with_suggestion :: "string \<Rightarrow> error \<Rightarrow> error" where
  "with_suggestion s e = e\<lparr>suggestion := s\<rparr>"
definition with_candidate :: "string \<Rightarrow> error \<Rightarrow> error" where
  "with_candidate s e = e\<lparr>candidates := candidates e @ [s]\<rparr>"
definition with_container_offset :: "nat \<Rightarrow> error \<Rightarrow> error" where
  "with_container_offset n e = e\<lparr>container_offset := Some n\<rparr>"
definition with_deny_unknown :: "error \<Rightarrow> error" where
  "with_deny_unknown e = e\<lparr>deny_unknown := True\<rparr>"

lemmas error_builder_defs =
  mk_error_def with_length_def with_position_def with_detail_def with_expected_def
  with_found_def with_context_def with_suggestion_def with_candidate_def
  with_container_offset_def with_deny_unknown_def

lemma code_builders [simp, codec_simps]:
  "code (mk_error c n) = c"
  "code (with_length k e) = code e"
  "code (with_position lc e) = code e"
  "code (with_detail s e) = code e"
  "code (with_expected s e) = code e"
  "code (with_found s e) = code e"
  "code (with_context s e) = code e"
  "code (with_suggestion s e) = code e"
  "code (with_candidate s e) = code e"
  "code (with_container_offset k e) = code e"
  "code (with_deny_unknown e) = code e"
  by (simp_all add: error_builder_defs)

lemma offset_builders [simp, codec_simps]:
  "offset (mk_error c n) = n"
  "offset (with_length k e) = offset e"
  "offset (with_position lc e) = offset e"
  "offset (with_detail s e) = offset e"
  "offset (with_expected s e) = offset e"
  "offset (with_found s e) = offset e"
  "offset (with_context s e) = offset e"
  "offset (with_suggestion s e) = offset e"
  "offset (with_candidate s e) = offset e"
  "offset (with_container_offset k e) = offset e"
  "offset (with_deny_unknown e) = offset e"
  by (simp_all add: error_builder_defs)

subsection \<open>The path\<close>

text \<open>\<^verbatim>\<open>error::push\<close>: before \<open>finalize\<close> a step is appended unless 16 are there already; after
  it, a late step goes to the front and pushes the oldest front step out.\<close>

definition push :: "path_step \<Rightarrow> error \<Rightarrow> error" where
  "push s e =
     (if finalized e then
        (let e1 = (if max_path_steps \<le> length (steps e)
                   then e\<lparr>path_truncated := True, steps := tl (steps e)\<rparr> else e)
         in e1\<lparr>steps := s # steps e1\<rparr>)
      else if max_path_steps \<le> length (steps e) then e\<lparr>path_truncated := True\<rparr>
      else e\<lparr>steps := steps e @ [s]\<rparr>)"

definition push_member :: "string \<Rightarrow> error \<Rightarrow> error" where
  "push_member ident e = push (step_member ident) e"
definition push_index :: "u64 \<Rightarrow> error \<Rightarrow> error" where
  "push_index i e = push (step_index i) e"
definition push_key_text :: "string \<Rightarrow> error \<Rightarrow> error" where
  "push_key_text k e = push (step_key_text k) e"
definition push_key_int :: "u64 \<Rightarrow> error \<Rightarrow> error" where
  "push_key_int k e = push (step_key_int k) e"

definition finalize :: "error \<Rightarrow> error" where
  "finalize e = (if finalized e then e else e\<lparr>steps := rev (steps e), finalized := True\<rparr>)"

type_synonym 'a result = "error + 'a"
type_synonym status = "error + unit"

section \<open>Encode-side failures\<close>

text \<open>\<^verbatim>\<open>encode_error\<close> is thrown; the writers return it in the left summand. Its \<open>push\<close> has no
  late form.\<close>

record encode_error =
  ee_code :: errc
  ee_message :: string
  ee_steps :: "path_step list"
  ee_truncated :: bool
  ee_finalized :: bool

type_synonym 'a encoded = "encode_error + 'a"

definition mk_encode_error :: "errc \<Rightarrow> string \<Rightarrow> encode_error" where
  "mk_encode_error c msg = \<lparr>ee_code = c, ee_message = msg, ee_steps = [], ee_truncated = False,
     ee_finalized = False\<rparr>"

definition ee_push :: "path_step \<Rightarrow> encode_error \<Rightarrow> encode_error" where
  "ee_push s e = (if max_path_steps \<le> length (ee_steps e) then e\<lparr>ee_truncated := True\<rparr>
                  else e\<lparr>ee_steps := ee_steps e @ [s]\<rparr>)"

definition ee_finalize :: "encode_error \<Rightarrow> encode_error" where
  "ee_finalize e = (if ee_finalized e then e
                    else e\<lparr>ee_steps := rev (ee_steps e), ee_finalized := True\<rparr>)"

section \<open>Rendering\<close>

definition isalnum :: "byte \<Rightarrow> bool" where
  "isalnum c \<longleftrightarrow> (48 \<le> c \<and> c \<le> 57) \<or> (65 \<le> c \<and> c \<le> 90) \<or> (97 \<le> c \<and> c \<le> 122)"

definition plain_key :: "string \<Rightarrow> bool" where
  "plain_key k \<longleftrightarrow> k \<noteq> [] \<and>
     list_all (\<lambda>c. isalnum (uchar c) \<or> c = CHR ''_'' \<or> c = CHR ''-'') k"

definition ellipsis :: string where
  "ellipsis = [CHR 0xE2, CHR 0x80, CHR 0xA6]"

fun render_step :: "path_step \<Rightarrow> string" where
  "render_step (step_member n) = ''.'' @ n"
| "render_step (step_index i) = ''['' @ dec_u64 i @ '']''"
| "render_step (step_key_int i) = ''['' @ dec_u64 i @ '']''"
| "render_step (step_key_text k) =
     (if plain_key k then ''.'' @ k else ''['' @ [CHR 0x22] @ k @ [CHR 0x22] @ '']'')"

definition render_path :: "path_step list \<Rightarrow> bool \<Rightarrow> string" where
  "render_path ss trunc =
     ''$'' @ (if trunc then ''.'' @ ellipsis @ ''[truncated]'' else []) @ concat (map render_step ss)"

definition quoted :: "string \<Rightarrow> string" where
  "quoted s = [CHR 0x27] @ s @ [CHR 0x27]"

definition headline :: "error \<Rightarrow> string" where
  "headline e = (case code e of
     unexpected_token \<Rightarrow>
       (if detail e = [] then ''unexpected token'' else ''unexpected token '' @ quoted (detail e))
       @ (if expected e \<noteq> [] then '', expected '' @ expected e else [])
   | unterminated_string \<Rightarrow> ''unterminated string''
   | invalid_escape \<Rightarrow>
       (if detail e = [] then ''invalid escape sequence''
        else ''invalid escape sequence '' @ quoted (detail e))
   | invalid_utf8 \<Rightarrow> ''invalid UTF-8''
   | invalid_number \<Rightarrow>
       (if detail e = [] then ''invalid number'' else ''invalid number '' @ quoted (detail e))
   | trailing_content \<Rightarrow> ''trailing content after value''
   | depth_exceeded \<Rightarrow>
       ''nesting depth exceeds '' @ (if detail e = [] then ''the limit'' else detail e)
   | truncated \<Rightarrow> ''unexpected end of input''
   | type_mismatch \<Rightarrow> ''expected '' @ expected e @ '', found '' @ found e
   | missing_field \<Rightarrow>
       ''missing required field '' @ quoted (detail e)
       @ (if expected e \<noteq> [] then '' (key '' @ expected e @ '')'' else [])
   | unknown_field \<Rightarrow> ''unknown field '' @ quoted (detail e)
   | duplicate_key \<Rightarrow> ''duplicate key '' @ quoted (detail e)
   | out_of_range \<Rightarrow> ''value '' @ detail e @ '' out of range for '' @ context_of e
   | unknown_enumerator \<Rightarrow> quoted (detail e) @ '' is not a valid '' @ context_of e
   | no_variant_alternative \<Rightarrow> quoted (detail e) @ '' is not an alternative of '' @ context_of e
   | missing_tag \<Rightarrow> ''missing discriminator '' @ quoted (detail e)
   | escape_in_borrowed_string \<Rightarrow>
       ''string contains escapes but '' @ context_of e @ '' borrows from the input''
   | non_text_key \<Rightarrow> ''expected text key, found '' @ found e
   | malformed_item \<Rightarrow>
       (if detail e = [] then ''malformed item'' else ''malformed item: '' @ detail e)
   | unsupported_simple_value \<Rightarrow>
       ''unsupported simple value'' @ (if detail e \<noteq> [] then '' '' @ detail e else [])
   | tag_mismatch \<Rightarrow>
       ''tag mismatch'' @ (if context_of e \<noteq> [] then '' on '' @ quoted (context_of e) else [])
   | non_deterministic \<Rightarrow>
       ''non-deterministic encoding'' @ (if detail e \<noteq> [] then '': '' @ detail e else [])
   | indefinite_in_borrowed_string \<Rightarrow>
       ''indefinite-length string but '' @ context_of e @ '' borrows from the input'')"

definition render_terse :: "error \<Rightarrow> string" where
  "render_terse e = ''error: '' @ headline e @ '' at '' @ render_path (steps e) (path_truncated e)
     @ '' (byte offset '' @ dec_nat (offset e) @ '')''"

section \<open>Lemmas\<close>

lemma code_push [simp, codec_simps]: "code (push s e) = code e"
  by (simp add: push_def Let_def)

lemma code_finalize [simp, codec_simps]: "code (finalize e) = code e"
  by (simp add: finalize_def)

definition path_ok :: "error \<Rightarrow> bool" where
  "path_ok e \<longleftrightarrow> length (steps e) \<le> max_path_steps
     \<and> (path_truncated e \<longrightarrow> length (steps e) = max_path_steps)"

lemma path_ok_mk_error [simp]: "path_ok (mk_error c n)"
  by (simp add: path_ok_def mk_error_def max_path_steps_def)

lemma path_ok_push [simp]: "path_ok e \<Longrightarrow> path_ok (push s e)"
  by (auto simp: path_ok_def push_def Let_def max_path_steps_def)

lemma path_ok_finalize [simp]: "path_ok e \<Longrightarrow> path_ok (finalize e)"
  by (auto simp: path_ok_def finalize_def)

text \<open>The steps of an unwinding failure are the first 16 pushed; the flag records the rest.\<close>

lemma push_unfinalized:
  assumes "\<not> finalized e" "steps e = take max_path_steps ss" "path_truncated e = (max_path_steps < length ss)"
  shows "\<not> finalized (push s e)" "steps (push s e) = take max_path_steps (ss @ [s])"
    "path_truncated (push s e) = (max_path_steps < length (ss @ [s]))"
  using assms by (auto simp: push_def)

lemma fold_push_unfinalized:
  assumes "\<not> finalized e" "steps e = take max_path_steps ss" "path_truncated e = (max_path_steps < length ss)"
  shows "\<not> finalized (fold push ps e) \<and> steps (fold push ps e) = take max_path_steps (ss @ ps)
    \<and> path_truncated (fold push ps e) = (max_path_steps < length (ss @ ps))"
  using assms
proof (induction ps arbitrary: e ss)
  case Nil
  then show ?case by simp
next
  case (Cons p ps)
  from Cons.IH [OF push_unfinalized [OF Cons.prems]] show ?case
    by simp
qed

section \<open>Properties\<close>

text \<open>C21. Unwinding builds the path: if the frames of a failure push the steps \<open>ps\<close>, leaf first,
  then after \<open>finalize\<close> the error's path is the innermost 16 of them, root first, and the truncation
  flag is set exactly when there were more than 16. A second \<open>finalize\<close> changes nothing.\<close>

theorem unwind_path:
  "let e = finalize (fold push ps (mk_error c off)) in
     steps e = rev (take 16 ps) \<and> path_truncated e = (16 < length ps)
     \<and> code e = c \<and> offset e = off \<and> finalize e = e"
proof -
  let ?e = "fold push ps (mk_error c off)"
  have "\<not> finalized ?e \<and> steps ?e = take max_path_steps ([] @ ps)
      \<and> path_truncated ?e = (max_path_steps < length ([] @ ps))"
    by (rule fold_push_unfinalized) (simp_all add: mk_error_def max_path_steps_def)
  moreover have "code ?e = c" "offset ?e = off"
    by (induction ps rule: rev_induct) (auto simp: push_def Let_def)
  ultimately show ?thesis
    by (simp add: finalize_def max_path_steps_def Let_def)
qed

end
