(* ===== verification/Vcodec_Lower.thy ===== *)
theory Vcodec_Lower
  imports Vcodec_Prelude
begin

text \<open>
  \<^verbatim>\<open>src/include/vcodec/core/lower.hpp\<close>, first part: base64, base64url and hex lowerings of byte
  strings, and UTF-8 validation. An output parameter that is appended to is returned as the new
  list, together with the boolean the function returns.
\<close>

section \<open>Definitions: base64 and hex\<close>

definition b64_std :: string where
  "b64_std = ''ABCDEFGHIJKLMNOPQRSTUVWXYZabcdefghijklmnopqrstuvwxyz0123456789+/''"
definition b64_url :: string where
  "b64_url = ''ABCDEFGHIJKLMNOPQRSTUVWXYZabcdefghijklmnopqrstuvwxyz0123456789-_''"
definition hex_digits :: string where
  "hex_digits = ''0123456789abcdef''"

definition ord_int :: "char \<Rightarrow> int" where
  "ord_int c = of_char c"

definition in_range :: "char \<Rightarrow> char \<Rightarrow> char \<Rightarrow> bool" where
  "in_range c lo hi \<longleftrightarrow> ord_int lo \<le> ord_int c \<and> ord_int c \<le> ord_int hi"

definition b64_value :: "char \<Rightarrow> bool \<Rightarrow> int" where
  "b64_value c url =
     (if in_range c CHR ''A'' CHR ''Z'' then ord_int c - ord_int CHR ''A''
      else if in_range c CHR ''a'' CHR ''z'' then ord_int c - ord_int CHR ''a'' + 26
      else if in_range c CHR ''0'' CHR ''9'' then ord_int c - ord_int CHR ''0'' + 52
      else if url then (if c = CHR ''-'' then 62 else if c = CHR ''_'' then 63 else -1)
      else (if c = CHR ''+'' then 62 else if c = CHR ''/'' then 63 else -1))"

definition hex_value :: "char \<Rightarrow> int" where
  "hex_value c =
     (if in_range c CHR ''0'' CHR ''9'' then ord_int c - ord_int CHR ''0''
      else if in_range c CHR ''a'' CHR ''f'' then ord_int c - ord_int CHR ''a'' + 10
      else if in_range c CHR ''A'' CHR ''F'' then ord_int c - ord_int CHR ''A'' + 10
      else -1)"

text \<open>Six bits of a 24-bit group.\<close>

definition sextet :: "u32 \<Rightarrow> nat \<Rightarrow> nat" where
  "sextet v k = unat (drop_bit k v AND 63)"

fun base64_groups :: "string \<Rightarrow> bool \<Rightarrow> bytes \<Rightarrow> string" where
  "base64_groups tbl url (a # b # c # rest) =
     (let v = push_bit 16 (ucast a :: u32) OR push_bit 8 (ucast b) OR ucast c
      in [tbl ! sextet v 18, tbl ! sextet v 12, tbl ! sextet v 6, tbl ! sextet v 0]
         @ base64_groups tbl url rest)"
| "base64_groups tbl url [a] =
     (let v = push_bit 16 (ucast a :: u32)
      in [tbl ! sextet v 18, tbl ! sextet v 12] @ (if \<not> url then ''=='' else []))"
| "base64_groups tbl url [a, b] =
     (let v = push_bit 16 (ucast a :: u32) OR push_bit 8 (ucast b)
      in [tbl ! sextet v 18, tbl ! sextet v 12, tbl ! sextet v 6] @ (if \<not> url then ''='' else []))"
| "base64_groups tbl url [] = []"

definition base64_encode :: "bytes \<Rightarrow> string \<Rightarrow> bool \<Rightarrow> string" where
  "base64_encode inp out url = out @ base64_groups (if url then b64_url else b64_std) url inp"

text \<open>The decoding loop: \<open>acc\<close> is a 32-bit shift register, \<open>bits\<close> the number of undelivered
  bits in it.\<close>

fun base64_loop :: "bool \<Rightarrow> string \<Rightarrow> u32 \<Rightarrow> nat \<Rightarrow> bytes \<Rightarrow> bool \<times> bytes" where
  "base64_loop url [] acc bits out = (True, out)"
| "base64_loop url (c # cs) acc bits out =
     (let v = b64_value c url in
      if v < 0 then (False, out)
      else
        let acc' = push_bit 6 acc OR word_of_int v; bits' = bits + 6 in
        if 8 \<le> bits' then
          base64_loop url cs acc' (bits' - 8) (out @ [ucast (drop_bit (bits' - 8) acc' AND 0xFF)])
        else base64_loop url cs acc' bits' out)"

definition strip_padding :: "string \<Rightarrow> string" where
  "strip_padding s = rev (dropWhile (\<lambda>c. c = CHR ''='') (rev s))"

definition base64_decode :: "string \<Rightarrow> bytes \<Rightarrow> bool \<Rightarrow> bool \<times> bytes" where
  "base64_decode inp out url =
     (let s = strip_padding inp in
      if length s mod 4 = 1 then (False, out) else base64_loop url s 0 0 out)"

definition hex_encode :: "bytes \<Rightarrow> string \<Rightarrow> string" where
  "hex_encode inp out =
     out @ concat (map (\<lambda>b. [hex_digits ! unat (drop_bit 4 b), hex_digits ! unat (b AND 15)]) inp)"

fun hex_loop :: "string \<Rightarrow> bytes \<Rightarrow> bool \<times> bytes" where
  "hex_loop (h # l # rest) out =
     (let hi = hex_value h; lo = hex_value l in
      if hi < 0 \<or> lo < 0 then (False, out)
      else hex_loop rest (out @ [push_bit 4 (word_of_int hi) OR word_of_int lo]))"
| "hex_loop _ out = (True, out)"

definition hex_decode :: "string \<Rightarrow> bytes \<Rightarrow> bool \<times> bytes" where
  "hex_decode inp out = (if length inp mod 2 \<noteq> 0 then (False, out) else hex_loop inp out)"

section \<open>Definitions: UTF-8\<close>

text \<open>\<^verbatim>\<open>validate_utf8\<close> returns \<^verbatim>\<open>utf8_npos\<close> (\<open>None\<close>) or the offset of the first bad sequence.\<close>

definition cont_at :: "string \<Rightarrow> nat \<Rightarrow> bool" where
  "cont_at s k \<longleftrightarrow> k < length s \<and> uchar (s ! k) AND 0xC0 = 0x80"

function validate_utf8_from :: "string \<Rightarrow> nat \<Rightarrow> nat option" where
  "validate_utf8_from s i =
     (if length s \<le> i then None
      else
        let c = uchar (s ! i) in
        if c < 0x80 then validate_utf8_from s (i + 1)
        else if 0xC2 \<le> c \<and> c \<le> 0xDF then
          (if \<not> cont_at s (i + 1) then Some i else validate_utf8_from s (i + 2))
        else if 0xE0 \<le> c \<and> c \<le> 0xEF then
          (if \<not> cont_at s (i + 1) \<or> \<not> cont_at s (i + 2) then Some i
           else let c1 = uchar (s ! (i + 1)) in
             if c = 0xE0 \<and> c1 < 0xA0 then Some i
             else if c = 0xED \<and> 0xA0 \<le> c1 then Some i
             else validate_utf8_from s (i + 3))
        else if 0xF0 \<le> c \<and> c \<le> 0xF4 then
          (if \<not> cont_at s (i + 1) \<or> \<not> cont_at s (i + 2) \<or> \<not> cont_at s (i + 3) then Some i
           else let c1 = uchar (s ! (i + 1)) in
             if c = 0xF0 \<and> c1 < 0x90 then Some i
             else if c = 0xF4 \<and> 0x90 \<le> c1 then Some i
             else validate_utf8_from s (i + 4))
        else Some i)"
  by pat_completeness auto
termination
  by (relation "measure (\<lambda>(s, i). length s - i)") auto

declare validate_utf8_from.simps [simp del]

definition validate_utf8 :: "string \<Rightarrow> nat option" where
  "validate_utf8 s = validate_utf8_from s 0"

text \<open>RFC 3629 as a reference: a scalar value and its octets. \<open>append_utf8\<close> is the JSON reader's
  encoder (\<^verbatim>\<open>json/read.hpp\<close>), which appends to its scratch string.\<close>

definition scalar_value :: "nat \<Rightarrow> bool" where
  "scalar_value cp \<longleftrightarrow> cp < 0xD800 \<or> 0xE000 \<le> cp \<and> cp \<le> 0x10FFFF"

definition utf8_octets :: "nat \<Rightarrow> nat list" where
  "utf8_octets cp =
     (if cp < 0x80 then [cp]
      else if cp < 0x800 then [0xC0 + cp div 64, 0x80 + cp mod 64]
      else if cp < 0x10000 then [0xE0 + cp div 4096, 0x80 + cp div 64 mod 64, 0x80 + cp mod 64]
      else [0xF0 + cp div 262144, 0x80 + cp div 4096 mod 64, 0x80 + cp div 64 mod 64, 0x80 + cp mod 64])"

definition well_formed_utf8 :: "string \<Rightarrow> bool" where
  "well_formed_utf8 s \<longleftrightarrow>
     (\<exists>cps. list_all scalar_value cps \<and> map of_char s = concat (map utf8_octets cps))"

definition append_utf8 :: "string \<Rightarrow> u32 \<Rightarrow> string" where
  "append_utf8 scratch cp = scratch @
     (if cp < 0x80 then [chr (ucast cp)]
      else if cp < 0x800 then [chr (ucast (0xC0 OR drop_bit 6 cp)), chr (ucast (0x80 OR (cp AND 0x3F)))]
      else if cp < 0x10000 then
        [chr (ucast (0xE0 OR drop_bit 12 cp)), chr (ucast (0x80 OR (drop_bit 6 cp AND 0x3F))),
         chr (ucast (0x80 OR (cp AND 0x3F)))]
      else
        [chr (ucast (0xF0 OR drop_bit 18 cp)), chr (ucast (0x80 OR (drop_bit 12 cp AND 0x3F))),
         chr (ucast (0x80 OR (drop_bit 6 cp AND 0x3F))), chr (ucast (0x80 OR (cp AND 0x3F)))])"

section \<open>Lemmas: alphabets\<close>

lemma b64_value_table_check:
  "\<forall>n\<in>set [0..<64]. b64_value (b64_std ! n) False = int n \<and> b64_value (b64_url ! n) True = int n"
  by code_simp

definition b64_table :: "bool \<Rightarrow> string" where
  "b64_table url = (if url then b64_url else b64_std)"

lemma b64_value_table: "n < 64 \<Longrightarrow> b64_value (b64_table url ! n) url = int n"
  using b64_value_table_check by (auto simp: b64_table_def)

lemma b64_no_padding_check:
  "CHR ''='' \<notin> set b64_std \<and> CHR ''='' \<notin> set b64_url \<and> length b64_std = 64 \<and> length b64_url = 64"
  by code_simp

lemma b64_table_nth_neq: "n < 64 \<Longrightarrow> b64_table url ! n \<noteq> CHR ''=''"
  using b64_no_padding_check by (metis b64_table_def nth_mem)

lemma sextet_less [simp]: "sextet v k < 64"
proof -
  have "sextet v k = unat (take_bit 6 (drop_bit k v))"
    by (simp add: sextet_def take_bit_eq_mask mask_numeral)
  also have "\<dots> = take_bit 6 (unat (drop_bit k v))"
    by (rule unsigned_take_bit_eq)
  also have "\<dots> < 2 ^ 6"
    by (rule take_bit_nat_less_exp)
  finally show ?thesis by simp
qed

lemma word_of_sextet [simp]: "word_of_nat (sextet v k) = drop_bit k v AND 63"
  by (simp add: sextet_def)

lemma b64_sextet [simp]:
  "b64_value (b64_table url ! sextet v k) url = int (sextet v k)"
  "b64_table url ! sextet v k \<noteq> CHR ''=''"
  by (simp_all add: b64_value_table b64_table_nth_neq)

section \<open>Lemmas: the base64 shift register\<close>

lemma and63 [simp]: "x AND 63 = take_bit 6 x" for x :: u32
  by (simp add: take_bit_eq_mask mask_numeral)

lemma and255 [simp]: "x AND 0xFF = take_bit 8 x" for x :: u32
  by (simp add: take_bit_eq_mask mask_numeral)

lemma base64_loop_sextet:
  "base64_loop url (b64_table url ! sextet v k # cs) acc bits out =
     (let acc' = push_bit 6 acc OR take_bit 6 (drop_bit k v) in
      if 2 \<le> bits then base64_loop url cs acc' (bits - 2) (out @ [ucast (drop_bit (bits - 2) acc' AND 0xFF)])
      else base64_loop url cs acc' (bits + 6) out)"
  by (simp add: Let_def)

lemma group_octets:
  fixes a b c :: byte and acc v :: u32
  assumes "v = push_bit 16 (ucast a) OR push_bit 8 (ucast b) OR ucast c"
  shows "(ucast (take_bit 8 (drop_bit 4 (push_bit 6 (push_bit 6 acc OR take_bit 6 (drop_bit 18 v))
            OR take_bit 6 (drop_bit 12 v)))) :: byte) = a"
    "(ucast (take_bit 8 (drop_bit 2 (push_bit 6 (push_bit 6 acc OR take_bit 6 (drop_bit 12 v))
            OR take_bit 6 (drop_bit 6 v)))) :: byte) = b"
    "(ucast (take_bit 8 (push_bit 6 (push_bit 6 acc OR take_bit 6 (drop_bit 6 v))
            OR take_bit 6 v)) :: byte) = c"
  unfolding assms by (rule byte_eqI; simp add: bit_simps)+


lemma base64_loop_group:
  fixes a b c :: byte
  defines "v \<equiv> push_bit 16 (ucast a :: u32) OR push_bit 8 (ucast b) OR ucast c"
  shows "base64_loop url (b64_table url ! sextet v 18 # b64_table url ! sextet v 12
      # b64_table url ! sextet v 6 # b64_table url ! sextet v 0 # cs) acc 0 out
    = base64_loop url cs (push_bit 6 (push_bit 6 (push_bit 6 (push_bit 6 acc OR take_bit 6 (drop_bit 18 v))
        OR take_bit 6 (drop_bit 12 v)) OR take_bit 6 (drop_bit 6 v)) OR take_bit 6 v) 0 (out @ [a, b, c])"
  by (simp add: base64_loop_sextet Let_def group_octets [OF meta_eq_to_obj_eq [OF v_def]]
      del: take_bit_or drop_bit_or push_bit_or base64_loop.simps(2))

lemma base64_loop_tail1:
  fixes a :: byte
  defines "v \<equiv> push_bit 16 (ucast a :: u32)"
  shows "base64_loop url [b64_table url ! sextet v 18, b64_table url ! sextet v 12] acc 0 out = (True, out @ [a])"
proof -
  have "v = push_bit 16 (ucast a) OR push_bit 8 (ucast (0 :: byte)) OR ucast (0 :: byte)"
    by (simp add: v_def)
  from group_octets(1) [OF this] show ?thesis
    by (simp add: base64_loop_sextet Let_def del: take_bit_or drop_bit_or push_bit_or base64_loop.simps(2))
qed

lemma base64_loop_tail2:
  fixes a b :: byte
  defines "v \<equiv> push_bit 16 (ucast a :: u32) OR push_bit 8 (ucast b)"
  shows "base64_loop url [b64_table url ! sextet v 18, b64_table url ! sextet v 12, b64_table url ! sextet v 6] acc 0 out
    = (True, out @ [a, b])"
proof -
  have "v = push_bit 16 (ucast a) OR push_bit 8 (ucast b) OR ucast (0 :: byte)"
    by (simp add: v_def)
  from group_octets(1,2) [OF this] show ?thesis
    by (simp add: base64_loop_sextet Let_def del: take_bit_or drop_bit_or push_bit_or base64_loop.simps(2))
qed

text \<open>The padded form is the unpadded one followed by padding, and the unpadded one has none.\<close>

lemma base64_groups_padding:
  "\<exists>pad. set pad \<subseteq> {CHR ''=''} \<and> base64_groups tbl url bs = base64_groups tbl True bs @ pad"
proof (induction tbl url bs rule: base64_groups.induct)
  case (1 tbl url a b c rest)
  then show ?case by (auto simp: Let_def)
next
  case (2 tbl url a)
  then show ?case by (intro exI [of _ "if url then [] else ''==''"]) (simp add: Let_def)
next
  case (3 tbl url a b)
  then show ?case by (intro exI [of _ "if url then [] else ''=''"]) (simp add: Let_def)
qed simp

lemma base64_groups_no_padding: "CHR ''='' \<notin> set (base64_groups (b64_table url) True bs)"
  by (induction "b64_table url" True bs rule: base64_groups.induct)
    (auto simp: Let_def b64_sextet(2) [symmetric] dest!: sym [of "CHR ''=''"])

lemma length_base64_groups: "length (base64_groups tbl True bs) = (4 * length bs + 2) div 3"
proof (induction tbl True bs rule: base64_groups.induct)
  case (1 tbl a b c rest)
  then show ?case by (simp add: Let_def)
qed (simp_all add: Let_def)

lemma strip_padding_append:
  assumes "set pad \<subseteq> {CHR ''=''}" "CHR ''='' \<notin> set s"
  shows "strip_padding (s @ pad) = s"
proof -
  have "dropWhile (\<lambda>c. c = CHR ''='') (rev pad @ rev s) = dropWhile (\<lambda>c. c = CHR ''='') (rev s)"
    using assms(1) by (intro dropWhile_append2) auto
  also have "\<dots> = rev s"
    using assms(2) by (subst dropWhile_eq_self_iff) (metis hd_in_set set_rev)
  finally show ?thesis by (simp add: strip_padding_def)
qed

lemma base64_loop_groups:
  "base64_loop url (base64_groups (b64_table url) True bs) acc 0 out = (True, out @ bs)"
proof (induction "b64_table url" True bs arbitrary: acc out rule: base64_groups.induct)
  case (1 a b c rest)
  then show ?case
    using base64_loop_group [of url a b c "base64_groups (b64_table url) True rest" acc out]
    by (simp add: Let_def del: take_bit_or drop_bit_or push_bit_or base64_loop.simps(2))
next
  case (2 a)
  then show ?case
    using base64_loop_tail1 [of url a acc out]
    by (simp add: Let_def del: take_bit_or drop_bit_or push_bit_or base64_loop.simps(2))
next
  case (3 a b)
  then show ?case
    using base64_loop_tail2 [of url a b acc out]
    by (simp add: Let_def del: take_bit_or drop_bit_or push_bit_or base64_loop.simps(2))
qed simp

section \<open>Lemmas: which base64 texts are accepted\<close>

lemma base64_loop_accepts: "fst (base64_loop url s acc bits out) \<longleftrightarrow> (\<forall>c\<in>set s. 0 \<le> b64_value c url)"
  by (induction url s acc bits out rule: base64_loop.induct) (auto simp: Let_def)

lemma base64_loop_length:
  "bits < 8 \<Longrightarrow> fst (base64_loop url s acc bits out)
    \<Longrightarrow> length (snd (base64_loop url s acc bits out)) = length out + (bits + 6 * length s) div 8"
proof (induction url s acc bits out rule: base64_loop.induct)
  case (2 url c cs acc bits out)
  then show ?case
    by (auto simp: Let_def split: if_splits)
qed simp

section \<open>Lemmas: hex\<close>

lemma hex_value_digit_check: "\<forall>n\<in>set [0..<16]. hex_value (hex_digits ! n) = int n"
  by code_simp

lemma hex_octet:
  fixes b :: byte
  shows "hex_value (hex_digits ! unat (drop_bit 4 b)) = int (unat (drop_bit 4 b))"
    "hex_value (hex_digits ! unat (b AND 15)) = int (unat (b AND 15))"
    "push_bit 4 (drop_bit 4 b) OR (b AND 15) = b"
proof -
  have "unat (drop_bit 4 b) < 16"
    unfolding unat_drop_bit_eq using unat_byte_less [of b] by (simp add: drop_bit_eq_div less_mult_imp_div_less)
  moreover have "unat (b AND 15) \<le> unat (15 :: byte)"
    by (rule word_and_le1 [THEN word_le_nat_alt [THEN iffD1]])
  ultimately show "hex_value (hex_digits ! unat (drop_bit 4 b)) = int (unat (drop_bit 4 b))"
    "hex_value (hex_digits ! unat (b AND 15)) = int (unat (b AND 15))"
    using hex_value_digit_check by (auto simp: less_eq_Suc_le [symmetric])
  have "b AND 15 = take_bit 4 b"
    by (simp add: take_bit_eq_mask mask_numeral)
  then show "push_bit 4 (drop_bit 4 b) OR (b AND 15) = b"
    by (simp only:) (rule byte_eqI; simp add: bit_simps)
qed

lemma hex_loop_digits:
  "hex_loop (concat (map (\<lambda>b. [hex_digits ! unat (drop_bit 4 b), hex_digits ! unat (b AND 15)]) bs)) out
    = (True, out @ bs)"
proof (induction bs arbitrary: out)
  case (Cons b bs)
  with hex_octet [of b] show ?case
    by (simp add: Let_def)
qed simp

lemma length_hex_digits:
  "length (concat (map (\<lambda>b. [f b, g b]) bs)) = 2 * length bs"
  by (induction bs) simp_all


section \<open>Lemmas: UTF-8\<close>

lemma of_char_chr [simp]: "(of_char (chr b) :: nat) = unat b"
  by (metis unat_uchar uchar_chr)

lemma push_bit_drop_bit_0x80: "push_bit 6 (drop_bit 6 (0x80 :: byte)) = 0x80"
  by simp

lemma cont_octet: "b AND 0xC0 = 0x80 \<longleftrightarrow> 128 \<le> unat b \<and> unat b < 192" for b :: byte
proof -
  have "b AND 0xC0 = push_bit 6 (drop_bit 6 b)"
    by (rule byte_eqI) (simp_all add: bit_simps)
  moreover have "drop_bit 6 (b AND 0xC0) = drop_bit 6 b"
    by (rule byte_eqI) (simp_all add: bit_simps)
  ultimately have "b AND 0xC0 = 0x80 \<longleftrightarrow> drop_bit 6 b = drop_bit 6 0x80"
    by (metis push_bit_drop_bit_0x80)
  also have "\<dots> \<longleftrightarrow> unat b div 64 = 2"
    unfolding word_unat_eq_iff unat_drop_bit_eq by (simp add: drop_bit_eq_div)
  also have "\<dots> \<longleftrightarrow> 128 \<le> unat b \<and> unat b < 192"
    using div_nat_eqI [of 64 2 "unat b"] div_mult_mod_eq [of "unat b" 64] mod_less_divisor [of 64 "unat b"] by auto
  finally show ?thesis .
qed

text \<open>One round of the loop on the octets that are left: the length of the sequence it accepts.\<close>

definition cont_octet_at :: "nat list \<Rightarrow> nat \<Rightarrow> bool" where
  "cont_octet_at xs k \<longleftrightarrow> k < length xs \<and> 128 \<le> xs ! k \<and> xs ! k < 192"

definition utf8_step :: "nat list \<Rightarrow> nat option" where
  "utf8_step xs =
     (let c = xs ! 0 in
      if c < 0x80 then Some 1
      else if 0xC2 \<le> c \<and> c \<le> 0xDF then (if cont_octet_at xs 1 then Some 2 else None)
      else if 0xE0 \<le> c \<and> c \<le> 0xEF then
        (if cont_octet_at xs 1 \<and> cont_octet_at xs 2 \<and> \<not> (c = 0xE0 \<and> xs ! 1 < 0xA0)
            \<and> \<not> (c = 0xED \<and> 0xA0 \<le> xs ! 1) then Some 3 else None)
      else if 0xF0 \<le> c \<and> c \<le> 0xF4 then
        (if cont_octet_at xs 1 \<and> cont_octet_at xs 2 \<and> cont_octet_at xs 3
            \<and> \<not> (c = 0xF0 \<and> xs ! 1 < 0x90) \<and> \<not> (c = 0xF4 \<and> 0x90 \<le> xs ! 1) then Some 4 else None)
      else None)"

lemma cont_at_octet: "cont_at s (i + k) \<longleftrightarrow> cont_octet_at (map of_char (drop i s)) k"
  by (auto simp: cont_at_def cont_octet_at_def cont_octet)

lemma validate_utf8_from_step:
  "validate_utf8_from s i =
     (if length s \<le> i then None
      else case utf8_step (map of_char (drop i s)) of None \<Rightarrow> Some i | Some k \<Rightarrow> validate_utf8_from s (i + k))"
proof (cases "length s \<le> i")
  case True
  then show ?thesis by (simp add: validate_utf8_from.simps)
next
  case False
  define xs where "xs = map (of_char :: char \<Rightarrow> nat) (drop i s)"
  have x0: "unat (uchar (s ! i)) = xs ! 0"
    using False by (simp add: xs_def)
  have c: "cont_at s (i + k) \<longleftrightarrow> cont_octet_at xs k" for k
    by (simp add: xs_def cont_at_octet)
  have x1: "unat (uchar (s ! (i + 1))) = xs ! 1" if "cont_octet_at xs 1"
    using False that by (simp add: xs_def cont_octet_at_def)
  show ?thesis
    unfolding validate_utf8_from.simps [of s i] xs_def [symmetric] utf8_step_def Let_def
    using False x0 x1 c [of 1] c [of 2] c [of 3]
    by (auto simp: word_less_nat_alt word_le_nat_alt word_unat_eq_iff)
qed

text \<open>The loop accepts exactly the encodings of scalar values: the arithmetic of the four
  widths.\<close>

lemma digits64:
  fixes q x :: nat
  assumes "x < 64"
  shows "(q * 64 + x) div 64 = q" "(q * 64 + x) mod 64 = x" "(q * 64 + x) div 4096 = q div 64"
    "(q * 64 + x) div 262144 = q div 4096"
proof -
  show d: "(q * 64 + x) div 64 = q" "(q * 64 + x) mod 64 = x"
    using assms by simp_all
  have "(q * 64 + x) div 4096 = (q * 64 + x) div 64 div 64"
    "(q * 64 + x) div 262144 = (q * 64 + x) div 64 div 4096"
    by (simp_all add: div_mult2_eq [symmetric])
  with d show "(q * 64 + x) div 4096 = q div 64" "(q * 64 + x) div 262144 = q div 4096"
    by simp_all
qed

lemma utf8_step_complete:
  assumes "scalar_value cp"
  shows "utf8_step (utf8_octets cp @ ys) = Some (length (utf8_octets cp))"
proof -
  consider "cp < 0x80" | "0x80 \<le> cp" "cp < 0x800" | "0x800 \<le> cp" "cp < 0x10000"
    | "0x10000 \<le> cp" "cp \<le> 0x10FFFF"
    using assms by (fastforce simp: scalar_value_def)
  then show ?thesis
  proof cases
    case 1
    then show ?thesis by (simp add: utf8_octets_def utf8_step_def)
  next
    case 2
    then have "2 \<le> cp div 64" "cp div 64 < 32" by auto
    with 2 show ?thesis
      by (simp add: utf8_octets_def utf8_step_def cont_octet_at_def)
  next
    case 3
    define q a b where "q = cp div 64" and "a = cp div 4096" and "b = cp div 64 mod 64"
    have ab: "a = q div 64" "b = q mod 64"
      by (simp_all add: a_def b_def q_def div_mult2_eq [symmetric])
    have "32 \<le> q" "q < 1024" "q < 864 \<or> 896 \<le> q"
      using 3 assms by (auto simp: q_def scalar_value_def)
    moreover have "q = 64 * a + b" "b < 64"
      by (simp_all add: ab)
    ultimately have "a < 16" "a = 0 \<Longrightarrow> 32 \<le> b" "a = 13 \<Longrightarrow> b < 32" "b < 64"
      by linarith+
    with 3 show ?thesis
      by (auto simp: utf8_octets_def utf8_step_def cont_octet_at_def simp flip: a_def b_def)
  next
    case 4
    define q a b where "q = cp div 4096" and "a = cp div 262144" and "b = cp div 4096 mod 64"
    have ab: "a = q div 64" "b = q mod 64"
      by (simp_all add: a_def b_def q_def div_mult2_eq [symmetric])
    have "16 \<le> q" "q < 272"
      using 4 by (auto simp: q_def)
    moreover have "q = 64 * a + b" "b < 64"
      by (simp_all add: ab)
    ultimately have "a \<le> 4" "a = 0 \<Longrightarrow> 16 \<le> b" "a = 4 \<Longrightarrow> b < 16" "b < 64"
      by linarith+
    with 4 show ?thesis
      by (auto simp: utf8_octets_def utf8_step_def cont_octet_at_def simp flip: a_def b_def)
  qed
qed

lemma utf8_step_sound:
  assumes "utf8_step xs = Some k" "xs \<noteq> []"
  obtains cp where "scalar_value cp" "take k xs = utf8_octets cp" "k = length (utf8_octets cp)"
proof -
  obtain c r where xs: "xs = c # r"
    using assms(2) by (cases xs) auto
  consider "c < 0x80" "k = 1" | "0xC2 \<le> c" "c \<le> 0xDF" "k = 2" "cont_octet_at xs 1"
    | "0xE0 \<le> c" "c \<le> 0xEF" "k = 3" "cont_octet_at xs 1" "cont_octet_at xs 2"
      "c = 0xE0 \<longrightarrow> 0xA0 \<le> xs ! 1" "c = 0xED \<longrightarrow> xs ! 1 < 0xA0"
    | "0xF0 \<le> c" "c \<le> 0xF4" "k = 4" "cont_octet_at xs 1" "cont_octet_at xs 2" "cont_octet_at xs 3"
      "c = 0xF0 \<longrightarrow> 0x90 \<le> xs ! 1" "c = 0xF4 \<longrightarrow> xs ! 1 < 0x90"
    using assms(1) by (auto simp: utf8_step_def Let_def xs not_less split: if_splits)
  then show thesis
  proof cases
    case 1
    then show thesis
      using that [of c] by (simp add: scalar_value_def utf8_octets_def xs)
  next
    case 2
    then obtain c1 r1 where r: "r = c1 # r1"
      by (cases r) (auto simp: xs cont_octet_at_def)
    obtain a x1 where n: "c = 0xC0 + a" "c1 = 0x80 + x1" "x1 < 64" "2 \<le> a" "a < 32"
      using 2 by (intro that [of "c - 0xC0" "c1 - 0x80"]) (auto simp: xs r cont_octet_at_def)
    show thesis
      by (rule that [of "a * 64 + x1"])
        (use n 2 in \<open>auto simp: xs r scalar_value_def utf8_octets_def\<close>)
  next
    case 3
    then obtain c1 c2 r1 where r: "r = c1 # c2 # r1"
      by (cases r; cases "tl r") (auto simp: xs cont_octet_at_def)
    obtain a x1 x2 where n: "c = 0xE0 + a" "c1 = 0x80 + x1" "c2 = 0x80 + x2" "x1 < 64" "x2 < 64" "a < 16"
      using 3 by (intro that [of "c - 0xE0" "c1 - 0x80" "c2 - 0x80"]) (auto simp: xs r cont_octet_at_def)
    have "a = 0 \<Longrightarrow> 32 \<le> x1" "a = 13 \<Longrightarrow> x1 < 32"
      using 3 n by (auto simp: xs r)
    moreover have "a = 0 \<or> 1 \<le> a \<and> a \<le> 12 \<or> a = 13 \<or> 14 \<le> a"
      by linarith
    ultimately have "scalar_value (a * 4096 + x1 * 64 + x2)" "0x800 \<le> a * 4096 + x1 * 64 + x2"
      using n(4-6) unfolding scalar_value_def by linarith+
    moreover have "(a * 4096 + x1 * 64 + x2) div 4096 = a" "(a * 4096 + x1 * 64 + x2) div 64 mod 64 = x1"
      "(a * 4096 + x1 * 64 + x2) mod 64 = x2"
      using digits64 [of x2 "a * 64 + x1"] digits64 [of x1 a] n by (simp_all add: algebra_simps)
    ultimately show thesis
      using n 3 by (intro that [of "a * 4096 + x1 * 64 + x2"]) (auto simp: xs r utf8_octets_def)
  next
    case 4
    then obtain c1 c2 c3 r1 where r: "r = c1 # c2 # c3 # r1"
      by (cases r; cases "tl r"; cases "tl (tl r)") (auto simp: xs cont_octet_at_def)
    obtain a x1 x2 x3 where n: "c = 0xF0 + a" "c1 = 0x80 + x1" "c2 = 0x80 + x2" "c3 = 0x80 + x3"
      "x1 < 64" "x2 < 64" "x3 < 64" "a \<le> 4"
      using 4 by (intro that [of "c - 0xF0" "c1 - 0x80" "c2 - 0x80" "c3 - 0x80"])
        (auto simp: xs r cont_octet_at_def)
    define cp where "cp = a * 262144 + x1 * 4096 + x2 * 64 + x3"
    have "a = 0 \<Longrightarrow> 16 \<le> x1" "a = 4 \<Longrightarrow> x1 < 16"
      using 4 n by (auto simp: xs r)
    moreover have "a = 0 \<or> 1 \<le> a \<and> a \<le> 3 \<or> a = 4"
      using n(8) by linarith
    ultimately have "scalar_value cp" "0x10000 \<le> cp"
      using n(5-8) unfolding scalar_value_def cp_def by linarith+
    moreover have "cp div 262144 = a" "cp div 4096 mod 64 = x1" "cp div 64 mod 64 = x2" "cp mod 64 = x3"
      using digits64 [of x3 "(a * 64 + x1) * 64 + x2"] digits64 [of x2 "a * 64 + x1"] digits64 [of x1 a] n
      by (simp_all add: cp_def algebra_simps)
    ultimately show thesis
      using n 4 by (intro that [of cp]) (auto simp: xs r utf8_octets_def)
  qed
qed


lemma utf8_octets_nonempty [simp]: "utf8_octets cp \<noteq> []" "0 < length (utf8_octets cp)"
  by (simp_all add: utf8_octets_def)

lemma well_formed_utf8_Nil [simp]: "well_formed_utf8 []"
  by (simp add: well_formed_utf8_def exI [of _ "[]"])

lemma well_formed_utf8_append:
  assumes "well_formed_utf8 s" "well_formed_utf8 t"
  shows "well_formed_utf8 (s @ t)"
proof -
  from assms obtain cps cps' where "list_all scalar_value (cps @ cps')"
    "map of_char (s @ t) = concat (map utf8_octets (cps @ cps'))"
    by (auto simp: well_formed_utf8_def)
  then show ?thesis unfolding well_formed_utf8_def by blast
qed

lemma well_formed_utf8_one:
  "scalar_value cp \<Longrightarrow> map of_char s = utf8_octets cp \<Longrightarrow> well_formed_utf8 s"
  unfolding well_formed_utf8_def by (intro exI [of _ "[cp]"]) simp

text \<open>No scalar value's encoding stands at the front.\<close>

definition bad_utf8_start :: "string \<Rightarrow> bool" where
  "bad_utf8_start s \<longleftrightarrow>
     (\<forall>cp t. scalar_value cp \<longrightarrow> map of_char s \<noteq> utf8_octets cp @ map of_char (t :: string))"

lemma map_of_char_append_split:
  assumes "map of_char s = xs @ (ys :: nat list)"
  shows "map of_char (take (length xs) s) = xs" "map of_char (drop (length xs) s) = ys"
  using assms by (simp_all add: take_map [symmetric] drop_map [symmetric])

lemma well_formed_utf8_cases:
  assumes "well_formed_utf8 s" "s \<noteq> []"
  obtains cp cps where "scalar_value cp" "list_all scalar_value cps"
    "map of_char s = utf8_octets cp @ concat (map utf8_octets cps)"
proof -
  from assms(1) obtain cps where c: "list_all scalar_value cps" "map of_char s = concat (map utf8_octets cps)"
    by (auto simp: well_formed_utf8_def)
  with assms(2) obtain cp cps' where "cps = cp # cps'"
    by (cases cps) auto
  with c show thesis by (intro that [of cp cps']) simp_all
qed

lemma utf8_stuck:
  assumes "utf8_step (map of_char s) = None" "s \<noteq> []"
  shows "bad_utf8_start s" "\<not> well_formed_utf8 s"
proof -
  show "bad_utf8_start s"
    unfolding bad_utf8_start_def using assms(1) utf8_step_complete by (metis option.distinct(1))
  show "\<not> well_formed_utf8 s"
    using assms utf8_step_complete by (metis well_formed_utf8_cases option.distinct(1))
qed

lemma utf8_advance:
  assumes "utf8_step (map of_char s) = Some k" "s \<noteq> []"
  shows "0 < k" "k \<le> length s" "well_formed_utf8 (take k s)"
    "well_formed_utf8 s \<longleftrightarrow> well_formed_utf8 (drop k s)"
proof -
  obtain cp where cp: "scalar_value cp" "take k (map of_char s) = utf8_octets cp" "k = length (utf8_octets cp)"
    using utf8_step_sound [OF assms(1)] assms(2) by blast
  show "0 < k" "k \<le> length s"
    using cp(3) arg_cong [OF cp(2), of length] by auto
  show front: "well_formed_utf8 (take k s)"
    using cp by (intro well_formed_utf8_one [of cp]) (simp_all add: take_map)
  show "well_formed_utf8 s \<longleftrightarrow> well_formed_utf8 (drop k s)"
  proof
    assume "well_formed_utf8 (drop k s)"
    with front have "well_formed_utf8 (take k s @ drop k s)"
      by (rule well_formed_utf8_append)
    then show "well_formed_utf8 s" by simp
  next
    assume "well_formed_utf8 s"
    then obtain cp' cps where w: "scalar_value cp'" "list_all scalar_value cps"
      "map of_char s = utf8_octets cp' @ concat (map utf8_octets cps)"
      using assms(2) by (rule well_formed_utf8_cases)
    then have "k = length (utf8_octets cp')"
      using assms(1) utf8_step_complete [of cp'] by simp
    with w(2) map_of_char_append_split(2) [OF w(3)] show "well_formed_utf8 (drop k s)"
      unfolding well_formed_utf8_def by auto
  qed
qed

lemma validate_utf8_from_iff:
  assumes "i \<le> length s"
  shows "(validate_utf8_from s i = None \<longleftrightarrow> well_formed_utf8 (drop i s)) \<and>
    (\<forall>j. validate_utf8_from s i = Some j \<longrightarrow>
       i \<le> j \<and> j < length s \<and> well_formed_utf8 (take (j - i) (drop i s)) \<and> bad_utf8_start (drop j s))"
  using assms
proof (induction "length s - i" arbitrary: i rule: less_induct)
  case less
  show ?case
  proof (cases "length s \<le> i")
    case True
    then show ?thesis by (simp add: validate_utf8_from_step [of s i])
  next
    case False
    then have ne: "drop i s \<noteq> []" by simp
    show ?thesis
    proof (cases "utf8_step (map of_char (drop i s))")
      case None
      with False utf8_stuck [OF None ne] show ?thesis
        by (simp add: validate_utf8_from_step [of s i])
    next
      case (Some k)
      note adv = utf8_advance [OF Some ne]
      have step: "validate_utf8_from s i = validate_utf8_from s (i + k)"
        using Some False by (simp add: validate_utf8_from_step [of s i])
      have IH: "(validate_utf8_from s (i + k) = None \<longleftrightarrow> well_formed_utf8 (drop (i + k) s)) \<and>
        (\<forall>j. validate_utf8_from s (i + k) = Some j \<longrightarrow> i + k \<le> j \<and> j < length s
          \<and> well_formed_utf8 (take (j - (i + k)) (drop (i + k) s)) \<and> bad_utf8_start (drop j s))"
        using less.hyps [of "i + k"] adv(1,2) False by auto
      have "well_formed_utf8 (take (j - i) (drop i s))"
        if "i + k \<le> j" "well_formed_utf8 (take (j - (i + k)) (drop (i + k) s))" for j
      proof -
        have "take (j - i) (drop i s) = take k (drop i s) @ take (j - (i + k)) (drop (i + k) s)"
          using that(1) take_add [of k "j - (i + k)" "drop i s"] by (simp add: add.commute)
        with adv(3) that(2) show ?thesis by (simp add: well_formed_utf8_append)
      qed
      with IH step adv(1,4) show ?thesis by (auto simp: add.commute)
    qed
  qed
qed

lemma validate_utf8_None_iff: "validate_utf8 s = None \<longleftrightarrow> well_formed_utf8 s"
  using validate_utf8_from_iff [of 0 s] by (simp add: validate_utf8_def)

subsection \<open>The encoder\<close>

text \<open>An octet with a fixed high part and a low part of \<open>k\<close> bits.\<close>

lemma unat_or_disjoint:
  fixes hi lo :: byte
  assumes "hi AND lo = 0" "unat hi + unat lo < 256"
  shows "unat (hi OR lo) = unat hi + unat lo"
proof -
  have "hi OR lo = hi + lo"
    using assms(1) by (rule disjunctive_add_eq_or [symmetric])
  then show ?thesis
    using assms(2) by (simp add: unat_word_ariths)
qed

lemma unat_ucast_take_bit:
  fixes w :: u32
  assumes "k \<le> 8"
  shows "unat (ucast (take_bit k w) :: byte) = unat w mod 2 ^ k"
proof -
  have "unat (ucast (take_bit k w) :: byte) = take_bit 8 (take_bit k (unat w))"
    using unsigned_ucast_eq [of "take_bit k w", where ?'a = nat and ?'c = 8] by (simp add: unsigned_take_bit_eq)
  also have "\<dots> = unat w mod 2 ^ k"
    using assms by (simp only: take_bit_take_bit min_absorb2) (simp add: take_bit_eq_mod)
  finally show ?thesis .
qed

lemma octet_parts:
  fixes w :: u32
  shows "unat (ucast (0x80 OR take_bit 6 w) :: byte) = 128 + unat w mod 64"
    "unat (ucast (0xC0 OR take_bit 5 w) :: byte) = 192 + unat w mod 32"
    "unat (ucast (0xE0 OR take_bit 4 w) :: byte) = 224 + unat w mod 16"
    "unat (ucast (0xF0 OR take_bit 3 w) :: byte) = 240 + unat w mod 8"
proof -
  have split: "(ucast (hi OR lo) :: byte) = ucast hi OR ucast lo" for hi lo :: u32
    by (rule byte_eqI) (simp_all add: bit_simps)
  have "(0x80 :: byte) AND ucast (take_bit 6 w) = 0" "(0xC0 :: byte) AND ucast (take_bit 5 w) = 0"
    "(0xE0 :: byte) AND ucast (take_bit 4 w) = 0" "(0xF0 :: byte) AND ucast (take_bit 3 w) = 0"
    by (rule byte_eqI; simp add: bit_simps)+
  then show "unat (ucast (0x80 OR take_bit 6 w) :: byte) = 128 + unat w mod 64"
    "unat (ucast (0xC0 OR take_bit 5 w) :: byte) = 192 + unat w mod 32"
    "unat (ucast (0xE0 OR take_bit 4 w) :: byte) = 224 + unat w mod 16"
    "unat (ucast (0xF0 OR take_bit 3 w) :: byte) = 240 + unat w mod 8"
    by (simp_all only: split unat_or_disjoint unat_ucast_take_bit) 
      (simp_all add: unat_or_disjoint unat_ucast_take_bit)
qed

lemma take_bit_small:
  fixes w :: u32
  assumes "unat w < 2 ^ k"
  shows "take_bit k w = w"
proof -
  have "unat (take_bit k w) = take_bit k (unat w)"
    by (rule unsigned_take_bit_eq)
  also have "\<dots> = unat w"
    using assms by (rule take_bit_nat_eq_self)
  finally show ?thesis by (simp only: word_unat_eq_iff)
qed

lemma unat_drop6:
  fixes w :: u32
  shows "unat (drop_bit 6 w) = unat w div 64" "unat (drop_bit 12 w) = unat w div 4096"
    "unat (drop_bit 18 w) = unat w div 262144"
  unfolding unat_drop_bit_eq by (simp_all add: drop_bit_eq_div)

lemma append_utf8_octets:
  assumes "unat cp < 0x200000"
  shows "map of_char (append_utf8 scratch cp) = map of_char scratch @ utf8_octets (unat cp)"
proof -
  have "unat (ucast (0xC0 OR drop_bit 6 cp) :: byte) = 192 + unat cp div 64" if "unat cp < 0x800"
  proof -
    have u: "unat (drop_bit 6 cp) < 32" unfolding unat_drop6 using that by simp
    then have "take_bit 5 (drop_bit 6 cp) = drop_bit 6 cp" by (intro take_bit_small) simp
    with octet_parts(2) [of "drop_bit 6 cp"] u show ?thesis by (simp only: mod_less unat_drop6)
  qed
  moreover have "unat (ucast (0xE0 OR drop_bit 12 cp) :: byte) = 224 + unat cp div 4096" if "unat cp < 0x10000"
  proof -
    have u: "unat (drop_bit 12 cp) < 16" unfolding unat_drop6 using that by simp
    then have "take_bit 4 (drop_bit 12 cp) = drop_bit 12 cp" by (intro take_bit_small) simp
    with octet_parts(3) [of "drop_bit 12 cp"] u show ?thesis by (simp only: mod_less unat_drop6)
  qed
  moreover have "unat (ucast (0xF0 OR drop_bit 18 cp) :: byte) = 240 + unat cp div 262144"
  proof -
    have u: "unat (drop_bit 18 cp) < 8" unfolding unat_drop6 using assms by simp
    then have "take_bit 3 (drop_bit 18 cp) = drop_bit 18 cp" by (intro take_bit_small) simp
    with octet_parts(4) [of "drop_bit 18 cp"] u show ?thesis by (simp only: mod_less unat_drop6)
  qed
  moreover have "unat (ucast cp :: byte) = unat cp" if "unat cp < 0x80"
    using that unat_ucast_take_bit [of 8 cp] take_bit_small [of cp 8] by simp
  ultimately show ?thesis
    using octet_parts(1) [of cp] octet_parts(1) [of "drop_bit 6 cp"] octet_parts(1) [of "drop_bit 12 cp"]
    by (simp add: append_utf8_def utf8_octets_def word_less_nat_alt unat_drop6)
qed

section \<open>Properties\<close>

text \<open>C19. UTF-8 validation is exact (RFC 3629): \<open>validate_utf8\<close> reports no error exactly when the
  string is a concatenation of encodings of Unicode scalar values (no overlong forms, no
  surrogates, nothing above U+10FFFF). Otherwise the offset it returns lies in the string,
  everything before it is well formed, and no scalar value's encoding starts there.\<close>

theorem validate_utf8_exact:
  "(validate_utf8 s = None \<longleftrightarrow> well_formed_utf8 s) \<and>
   (\<forall>j. validate_utf8 s = Some j \<longrightarrow>
      j < length s \<and> well_formed_utf8 (take j s) \<and> bad_utf8_start (drop j s))"
  using validate_utf8_from_iff [of 0 s] by (simp add: validate_utf8_def)

theorem validate_utf8_exact_witness:
  "validate_utf8 [CHR ''a'', CHR 0xC3, CHR ''b''] = Some 1
   \<and> well_formed_utf8 (take 1 [CHR ''a'', CHR 0xC3, CHR ''b''])"
proof -
  have "validate_utf8 [CHR ''a'', CHR 0xC3, CHR ''b''] = Some 1" by code_simp
  with validate_utf8_exact [of "[CHR ''a'', CHR 0xC3, CHR ''b'']"] show ?thesis by blast
qed

text \<open>C20. base64 round trip: decoding an encoded byte string, in either alphabet, succeeds and
  appends exactly the original octets, whatever was in the output before.\<close>

theorem base64_round_trip:
  "base64_decode (base64_encode bs [] url) out url = (True, out @ bs)"
proof -
  obtain pad where pad: "set pad \<subseteq> {CHR ''=''}"
    "base64_groups (b64_table url) url bs = base64_groups (b64_table url) True bs @ pad"
    using base64_groups_padding by blast
  have "strip_padding (base64_encode bs [] url) = base64_groups (b64_table url) True bs"
    using pad strip_padding_append [OF pad(1) base64_groups_no_padding [of url bs]]
    by (simp add: base64_encode_def b64_table_def)
  moreover have "(4 * length bs + 2) div 3 mod 4 \<noteq> 1"
    by presburger
  ultimately show ?thesis
    by (simp add: base64_decode_def Let_def length_base64_groups base64_loop_groups)
qed

text \<open>What \<open>base64_decode\<close> accepts: after trailing \<open>=\<close> signs are removed, every character must
  be in the chosen alphabet and the length must not be 1 modulo 4; then three octets come out of
  every four characters, rounded down.\<close>

theorem base64_decode_accepts:
  "(fst (base64_decode s out url) \<longleftrightarrow>
      length (strip_padding s) mod 4 \<noteq> 1 \<and> (\<forall>c\<in>set (strip_padding s). b64_value c url \<noteq> -1)) \<and>
   (fst (base64_decode s out url) \<longrightarrow>
      length (snd (base64_decode s out url)) = length out + 3 * length (strip_padding s) div 4)"
proof -
  have "b64_value c url \<noteq> -1 \<longleftrightarrow> 0 \<le> b64_value c url" for c
    by (simp add: b64_value_def in_range_def)
  then show ?thesis
    using base64_loop_length [of 0 url "strip_padding s" 0 out]
    by (simp add: base64_decode_def Let_def base64_loop_accepts div_mult_mult1 [of 2 "3 * _" 4, simplified])
qed

theorem base64_decode_accepts_witness:
  "fst (base64_decode ''AQI='' [] False) \<and> length (snd (base64_decode ''AQI='' [] False)) = 2"
proof -
  have "fst (base64_decode ''AQI='' [] False)" by code_simp
  moreover from this base64_decode_accepts [of "''AQI=''" "[]" False]
  have "length (snd (base64_decode ''AQI='' [] False)) = 3 * length (strip_padding ''AQI='') div 4" by simp
  moreover have "3 * length (strip_padding ''AQI='') div 4 = 2" by code_simp
  ultimately show ?thesis by simp
qed

text \<open>hex round trip: two digits per octet, and decoding gives the octets back.\<close>

theorem hex_round_trip:
  "hex_decode (hex_encode bs []) out = (True, out @ bs) \<and> length (hex_encode bs []) = 2 * length bs"
  by (simp add: hex_decode_def hex_encode_def hex_loop_digits length_hex_digits)

end
