(* ===== verification/Vcodec_Float.thy ===== *)
theory Vcodec_Float
  imports Vcodec_Prelude
begin

text \<open>
  \<^verbatim>\<open>src/include/vcodec/core/lower.hpp\<close>, second part: the IEEE 754 binary16 conversions behind
  CBOR's preferred float serialization. A \<^verbatim>\<open>double\<close> is its 64-bit pattern, a \<^verbatim>\<open>float\<close> its 32-bit
  pattern, a half its 16-bit pattern. What the source computes with finite doubles (\<^verbatim>\<open>frexp\<close>,
  \<^verbatim>\<open>ldexp\<close>, products with powers of two, \<^verbatim>\<open>floor\<close>, comparisons) is exact and is computed on
  dyadic numbers \<open>m * 2 ^ e\<close> with integers \<open>m\<close> (not negative) and \<open>e\<close>; the one inexact operation,
  the addition in \<^verbatim>\<open>to_half_rounded\<close>, is rounded where the hardware rounds it. Conversions between
  formats are round-to-nearest-even, \<open>round_mag\<close>; a NaN keeps its sign and the leading payload
  bits and becomes quiet.
\<close>

section \<open>Formats and dyadic numbers\<close>

datatype fp = Half | Single | Double

fun man_bits :: "fp \<Rightarrow> nat" where
  "man_bits Half = 10" | "man_bits Single = 23" | "man_bits Double = 52"

fun exp_bits :: "fp \<Rightarrow> nat" where
  "exp_bits Half = 5" | "exp_bits Single = 8" | "exp_bits Double = 11"

text \<open>Exponent of the smallest normal number, and the magnitude code of infinity (a magnitude code
  is the pattern without the sign bit).\<close>

fun emin :: "fp \<Rightarrow> int" where
  "emin Half = -14" | "emin Single = -126" | "emin Double = -1022"

definition inf_code :: "fp \<Rightarrow> int" where
  "inf_code F = (2 ^ exp_bits F - 1) * 2 ^ man_bits F"

definition mag_sig :: "fp \<Rightarrow> int \<Rightarrow> int" where
  "mag_sig F c = (if c < 2 ^ man_bits F then c else 2 ^ man_bits F + c mod 2 ^ man_bits F)"

definition mag_exp :: "fp \<Rightarrow> int \<Rightarrow> int" where
  "mag_exp F c = emin F - int (man_bits F) + (if c < 2 ^ man_bits F then 0 else c div 2 ^ man_bits F - 1)"

definition dy :: "int \<Rightarrow> int \<Rightarrow> real" where
  "dy m e = of_int m * 2 powi e"

definition mag_value :: "fp \<Rightarrow> int \<Rightarrow> real" where
  "mag_value F c = dy (mag_sig F c) (mag_exp F c)"

fun bit_len :: "int \<Rightarrow> nat" where
  "bit_len n = (if n \<le> 0 then 0 else Suc (bit_len (n div 2)))"

declare bit_len.simps [simp del]

definition dy_floor :: "int \<Rightarrow> int \<Rightarrow> int" where
  "dy_floor m e = (if 0 \<le> e then m * 2 ^ nat e else m div 2 ^ nat (- e))"

definition dy_is_int :: "int \<Rightarrow> int \<Rightarrow> bool" where
  "dy_is_int m e \<longleftrightarrow> 0 \<le> e \<or> m mod 2 ^ nat (- e) = 0"

definition dy_less :: "int \<Rightarrow> int \<Rightarrow> int \<Rightarrow> bool" where
  "dy_less n m e \<longleftrightarrow> (if 0 \<le> e then n < m * 2 ^ nat e else n * 2 ^ nat (- e) < m)"

definition dy_le :: "int \<Rightarrow> int \<Rightarrow> int \<Rightarrow> bool" where
  "dy_le n m e \<longleftrightarrow> (if 0 \<le> e then n \<le> m * 2 ^ nat e else n * 2 ^ nat (- e) \<le> m)"

text \<open>\<open>m / 2 ^ k\<close> to the nearest integer, ties to even.\<close>

definition rne :: "int \<Rightarrow> nat \<Rightarrow> int" where
  "rne m k = (let q = m div 2 ^ k; r = m mod 2 ^ k in
     if 2 ^ k < 2 * r \<or> (2 * r = 2 ^ k \<and> odd q) then q + 1 else q)"

definition dy_rne :: "int \<Rightarrow> int \<Rightarrow> int" where
  "dy_rne m e = (if 0 \<le> e then m * 2 ^ nat e else rne m (nat (- e)))"

text \<open>The magnitude code nearest to \<open>m * 2 ^ e\<close>: the exponent is that of the number, or the
  least one; a carry out of the significand moves to the next exponent by itself.\<close>

definition round_mag :: "fp \<Rightarrow> int \<Rightarrow> int \<Rightarrow> int" where
  "round_mag F m e =
     (if m = 0 then 0
      else let x = max (int (bit_len m) - 1 + e) (emin F)
           in min (inf_code F) ((x - emin F) * 2 ^ man_bits F + dy_rne m (e - (x - int (man_bits F)))))"

section \<open>Doubles\<close>

definition d_neg :: "u64 \<Rightarrow> bool" where "d_neg d = bit d 63"
definition d_mag :: "u64 \<Rightarrow> int" where "d_mag d = uint (take_bit 63 d)"
definition mk_double :: "bool \<Rightarrow> int \<Rightarrow> u64" where
  "mk_double s c = (if s then 0x8000000000000000 else 0) OR of_int c"

definition is_nan :: "u64 \<Rightarrow> bool" where "is_nan d \<longleftrightarrow> inf_code Double < d_mag d"
definition is_inf :: "u64 \<Rightarrow> bool" where "is_inf d \<longleftrightarrow> d_mag d = inf_code Double"
definition is_finite :: "u64 \<Rightarrow> bool" where "is_finite d \<longleftrightarrow> d_mag d < inf_code Double"

text \<open>The comparison \<open>==\<close> of two doubles that are not NaN.\<close>

definition d_eq :: "u64 \<Rightarrow> u64 \<Rightarrow> bool" where
  "d_eq a b \<longleftrightarrow> \<not> is_nan a \<and> \<not> is_nan b \<and> (a = b \<or> d_mag a = 0 \<and> d_mag b = 0)"

definition d_sig :: "u64 \<Rightarrow> int" where "d_sig d = mag_sig Double (d_mag d)"
definition d_exp :: "u64 \<Rightarrow> int" where "d_exp d = mag_exp Double (d_mag d)"

text \<open>\<^verbatim>\<open>static_cast<float>(d)\<close> and \<^verbatim>\<open>static_cast<double>(f)\<close>, and an unsigned integer as a double.\<close>

definition to_float :: "u64 \<Rightarrow> u32" where
  "to_float d = (if d_neg d then 0x80000000 else 0) OR
     (if is_nan d then 0x7FC00000 OR ucast (drop_bit 29 (d AND 0x000FFFFFFFFFFFFF))
      else if is_inf d then 0x7F800000
      else of_int (round_mag Single (d_sig d) (d_exp d)))"

definition f_mag :: "u32 \<Rightarrow> int" where "f_mag f = uint (take_bit 31 f)"

definition from_float :: "u32 \<Rightarrow> u64" where
  "from_float f = (if bit f 31 then 0x8000000000000000 else 0) OR
     (if inf_code Single < f_mag f
      then 0x7FF8000000000000 OR push_bit 29 (ucast (f AND 0x007FFFFF))
      else if f_mag f = inf_code Single then 0x7FF0000000000000
      else of_int (round_mag Double (mag_sig Single (f_mag f)) (mag_exp Single (f_mag f))))"

definition double_of_u64 :: "u64 \<Rightarrow> u64" where
  "double_of_u64 v = mk_double False (round_mag Double (uint v) 0)"

text \<open>\<^verbatim>\<open>-1.0 - x\<close> for the double \<open>x\<close> of an unsigned integer: the exact sum of magnitudes, rounded.\<close>

definition minus_one_minus :: "u64 \<Rightarrow> u64" where
  "minus_one_minus x = mk_double True
     (if 0 \<le> d_exp x then round_mag Double (d_sig x * 2 ^ nat (d_exp x) + 1) 0
      else round_mag Double (d_sig x + 2 ^ nat (- d_exp x)) (d_exp x))"

section \<open>Binary16\<close>

definition from_half :: "u16 \<Rightarrow> u64" where
  "from_half h =
     (let sign = drop_bit 15 h AND 1; ex = drop_bit 10 h AND 0x1F; mant = h AND 0x3FF;
          v = (if ex = 0 then mk_double False (round_mag Double (uint mant) (-24))
               else if ex = 31 then (if mant \<noteq> 0 then 0x7FF8000000000000 else 0x7FF0000000000000)
               else mk_double False (round_mag Double (uint mant + 1024) (uint ex - 25)))
      in if sign \<noteq> 0 then v XOR 0x8000000000000000 else v)"

definition to_half :: "u64 \<Rightarrow> u16 option" where
  "to_half d =
     (if is_nan d then Some 0x7E00
      else
        let sign = (if d_neg d then 0x8000 else 0 :: u16) in
        if is_inf d then Some (sign OR 0x7C00)
        else if d_mag d = 0 then Some sign
        else if dy_less 65504 (d_sig d) (d_exp d) then None
        else
          let m = d_sig d; ex = int (bit_len m) + d_exp d; e = ex - 1 + 15 in
          if 1 \<le> e then
            (let sc = 11 - int (bit_len m) in
             if \<not> dy_is_int m sc then None
             else Some (sign OR push_bit 10 (of_int e) OR of_int (dy_floor m sc - 1024)))
          else
            (let sc = d_exp d + 24 in
             if \<not> dy_is_int m sc \<or> dy_le 1024 m sc then None
             else Some (sign OR of_int (dy_floor m sc))))"

text \<open>\<open>round42 m e\<close> is \<open>m * 2 ^ e\<close> rounded to a multiple of \<open>2 ^ -42\<close>, in units of it: the sum of
  1024 and a number below 1024 has exponent 10, so a double keeps 42 bits of its fraction.\<close>

definition round42 :: "int \<Rightarrow> int \<Rightarrow> int" where
  "round42 m e = dy_rne m (e + 42)"

definition to_half_rounded :: "u64 \<Rightarrow> u16" where
  "to_half_rounded d =
     (case to_half d of Some h \<Rightarrow> h
      | None \<Rightarrow>
        let sign = (if d_neg d then 0x8000 else 0 :: u16); m = d_sig d in
        if dy_le 65520 m (d_exp d) then sign OR 0x7C00
        else
          let e = int (bit_len m) + d_exp d - 1 + 15;
              (sm, se) = (if 1 \<le> e then (m, 11 - int (bit_len m))
                          else (1024 * 2 ^ 42 + round42 m (d_exp d + 24), -42));
              ee = (if 1 \<le> e then e else 0);
              fl = dy_floor sm se;
              up = se < 0 \<and>
                   (let r = sm mod 2 ^ nat (- se) in
                    2 ^ nat (- se) < 2 * r \<or> (2 * r = 2 ^ nat (- se) \<and> odd fl));
              mant = (if up then fl + 1 else fl)
          in
          if ee = 0 then
            (let mant' = mant - 1024 in
             if 1024 \<le> mant' then sign OR push_bit 10 1 OR of_int ((mant' - 1024) mod 1024)
             else sign OR of_int (mant' mod 1024))
          else if 2048 \<le> mant then
            (if 31 \<le> ee + 1 then sign OR 0x7C00
             else sign OR push_bit 10 (of_int (ee + 1)) OR of_int ((mant - 1024) mod 1024))
          else sign OR push_bit 10 (of_int ee) OR of_int (mant mod 1024))"

definition fits_single :: "u64 \<Rightarrow> bool" where
  "fits_single d \<longleftrightarrow> is_nan d \<or> d_eq (from_float (to_float d)) d"

section \<open>Lemmas: dyadic numbers\<close>

lemma bit_len_bounds: "0 < m \<Longrightarrow> 0 < bit_len m \<and> 2 ^ (bit_len m - 1) \<le> m \<and> m < 2 ^ bit_len m"
proof (induction m rule: bit_len.induct)
  case (1 m)
  show ?case
  proof (cases "m = 1")
    case True
    then show ?thesis by (simp add: bit_len.simps)
  next
    case False
    with 1 have IH: "0 < bit_len (m div 2)" "2 ^ (bit_len (m div 2) - 1) \<le> m div 2" "m div 2 < 2 ^ bit_len (m div 2)"
      by simp_all
    obtain k where k: "bit_len (m div 2) = Suc k" using IH(1) by (cases "bit_len (m div 2)") simp_all
    have "bit_len m = Suc (Suc k)" using 1(2) k by (subst bit_len.simps) simp
    moreover have "2 * 2 ^ k \<le> m" "m < 2 * (2 * 2 ^ k)" using IH k by simp_all
    ultimately show ?thesis by simp
  qed
qed

lemma bit_len_pos [simp]: "0 < m \<Longrightarrow> 0 < bit_len m"
  using bit_len_bounds by blast

lemma bit_len_eqI:
  assumes "2 ^ k \<le> m" "m < 2 ^ Suc k"
  shows "bit_len m = Suc k"
proof -
  have pos: "0 < m" using assms(1) by (rule less_le_trans [rotated]) simp
  note b = bit_len_bounds [OF pos]
  have "(2 :: int) ^ k < 2 ^ bit_len m" using assms(1) b by linarith
  then have "k < bit_len m" by simp
  moreover have "(2 :: int) ^ (bit_len m - 1) < 2 ^ Suc k" using assms(2) b by linarith
  then have "bit_len m - 1 < Suc k" by (subst (asm) power_strict_increasing_iff) simp_all
  ultimately show ?thesis using b by linarith
qed

lemma bit_len_mult [simp]:
  assumes "0 < m"
  shows "bit_len (m * 2 ^ k) = bit_len m + k"
proof -
  note b = bit_len_bounds [OF assms]
  have "2 ^ (bit_len m - 1) * 2 ^ k \<le> m * 2 ^ k" "m * 2 ^ k < 2 ^ bit_len m * 2 ^ k"
    using b by simp_all
  then have "bit_len (m * 2 ^ k) = Suc (bit_len m - 1 + k)"
    using b by (intro bit_len_eqI) (simp_all add: power_add [symmetric] Suc_diff_le)
  then show ?thesis using b by simp
qed

lemma bit_len_less: "0 < m \<Longrightarrow> m < 2 ^ k \<Longrightarrow> bit_len m \<le> k"
proof -
  assume "0 < m" "m < 2 ^ k"
  then have "(2 :: int) ^ (bit_len m - 1) < 2 ^ k" using bit_len_bounds [of m] by linarith
  then have "bit_len m - 1 < k" by simp
  then show ?thesis by simp
qed

lemma powi_nat: "0 \<le> e \<Longrightarrow> (2 :: real) powi e = 2 ^ nat e"
  by (simp add: power_int_def)

lemma powi_pos [simp]: "0 < (2 :: real) powi e"
  by simp

lemma dy_shift: "dy (m * 2 ^ k) e = dy m (e + int k)"
  by (simp add: dy_def power_int_add)

lemma dy_eqD:
  assumes "dy m e = dy m' e'" "e' \<le> e"
  shows "m' = m * 2 ^ nat (e - e')"
proof -
  have "dy m e = dy (m * 2 ^ nat (e - e')) e'"
    using assms(2) by (simp add: dy_shift)
  with assms(1) have "real_of_int m' = real_of_int (m * 2 ^ nat (e - e'))"
    by (simp add: dy_def)
  then show ?thesis by (simp only: of_int_eq_iff)
qed

lemma rne_shift: "rne (m * 2 ^ k) (j + k) = rne m j"
proof -
  have "m * 2 ^ k div 2 ^ (j + k) = m div 2 ^ j"
    by (simp add: power_add)
  moreover have "m * 2 ^ k mod 2 ^ (j + k) = (m mod 2 ^ j) * 2 ^ k"
    by (simp add: power_add mult_mod_left)
  moreover have "(2 :: int) ^ (j + k) < 2 * (r * 2 ^ k) \<longleftrightarrow> 2 ^ j < 2 * r" for r :: int
    by (simp add: power_add flip: mult.assoc)
  moreover have "2 * (r * 2 ^ k) = (2 :: int) ^ (j + k) \<longleftrightarrow> 2 * r = 2 ^ j" for r :: int
    by (simp add: power_add flip: mult.assoc)
  ultimately show ?thesis by (simp add: rne_def Let_def)
qed

lemma rne_exact: "rne (m * 2 ^ k) k = m"
  by (simp add: rne_def Let_def)

lemma dy_rne_shift: "dy_rne (m * 2 ^ k) e = dy_rne m (e + int k)"
proof -
  consider "0 \<le> e" | "e < 0" "0 \<le> e + int k" | "e + int k < 0" by linarith
  then show ?thesis
  proof cases
    case 1
    then show ?thesis by (simp add: dy_rne_def nat_add_distrib power_add mult_ac)
  next
    case 2
    then have "k = nat (e + int k) + nat (- e)" by linarith
    then have "m * 2 ^ k = m * 2 ^ nat (e + int k) * 2 ^ nat (- e)" by (metis mult.assoc power_add)
    then have "rne (m * 2 ^ k) (nat (- e)) = m * 2 ^ nat (e + int k)" by (simp only: rne_exact)
    with 2 show ?thesis by (simp add: dy_rne_def)
  next
    case 3
    then have "nat (- e) = nat (- (e + int k)) + k" by linarith
    with 3 show ?thesis by (simp add: dy_rne_def rne_shift)
  qed
qed

text \<open>Rounding looks at the number only, not at how it is written.\<close>

lemma round_mag_shift: "0 \<le> m \<Longrightarrow> round_mag F (m * 2 ^ k) e = round_mag F m (e + int k)"
proof (cases "m = 0")
  case False
  assume "0 \<le> m"
  with False have "int (bit_len (m * 2 ^ k)) - 1 + e = int (bit_len m) - 1 + (e + int k)"
    by simp
  moreover have "e - y + int k = e + int k - y" for y by simp
  ultimately show ?thesis
    using False by (simp only: round_mag_def dy_rne_shift mult_eq_0_iff power_not_zero Let_def) simp
qed (simp add: round_mag_def)

lemma round_mag_cong:
  assumes "dy m e = dy m' e'" "0 \<le> m" "0 \<le> m'"
  shows "round_mag F m e = round_mag F m' e'"
proof (cases "e' \<le> e")
  case True
  with assms show ?thesis
    using dy_eqD [OF assms(1) True] round_mag_shift [of m F "nat (e - e')" e'] by simp
next
  case False
  with assms show ?thesis
    using dy_eqD [OF assms(1) [symmetric]] round_mag_shift [of m' F "nat (e' - e)" e] by simp
qed

section \<open>Lemmas: magnitude codes\<close>

lemma mag_sig_nonneg [simp]: "0 \<le> c \<Longrightarrow> 0 \<le> mag_sig F c"
  by (simp add: mag_sig_def)

lemma mag_sig_pos: "0 < c \<Longrightarrow> 0 < mag_sig F c"
  by (simp add: mag_sig_def add_pos_nonneg)

lemma round_mag_code:
  assumes "0 \<le> c" "c < inf_code F"
  shows "round_mag F (mag_sig F c) (mag_exp F c) = c"
proof -
  define t where "t = man_bits F"
  consider "c = 0" | "0 < c" "c < 2 ^ t" | "2 ^ t \<le> c" using assms(1) by linarith
  then show ?thesis
  proof cases
    case 1
    then show ?thesis by (simp add: round_mag_def mag_sig_def)
  next
    case 2
    then have "int (bit_len c) - 1 + (emin F - int t) \<le> emin F"
      using bit_len_less [of c t] by simp
    with 2 assms show ?thesis
      by (simp add: round_mag_def mag_sig_def mag_exp_def t_def [symmetric] dy_rne_def max_def)
  next
    case 3
    define f where "f = c div 2 ^ t"
    have f: "1 \<le> f" using 3 by (simp add: f_def int_one_le_iff_zero_less pos_imp_zdiv_pos_iff)
    have "c mod 2 ^ t < 2 ^ t" by simp
    then have "bit_len (2 ^ t + c mod 2 ^ t) = Suc t"
      by (intro bit_len_eqI) simp_all
    moreover have "(f - 1) * 2 ^ t + (2 ^ t + c mod 2 ^ t) = c"
      using div_mult_mod_eq [of c "2 ^ t"] by (simp add: f_def algebra_simps)
    moreover have "0 < 2 ^ t + c mod 2 ^ t" by (simp add: add_pos_nonneg)
    ultimately show ?thesis
      using 3 f assms by (simp add: round_mag_def mag_sig_def mag_exp_def t_def [symmetric]
          f_def [symmetric] dy_rne_def)
  qed
qed

lemma mag_value_inj:
  assumes "mag_value F c = mag_value F c'" "0 \<le> c" "c < inf_code F" "0 \<le> c'" "c' < inf_code F"
  shows "c = c'"
  using assms round_mag_cong [of "mag_sig F c" "mag_exp F c" "mag_sig F c'" "mag_exp F c'" F]
  by (simp add: mag_value_def round_mag_code)

text \<open>A code from its two parts: \<open>n\<close> is a significand, \<open>g\<close> the exponent above the least one.\<close>

lemma mag_parts:
  assumes "0 \<le> g" "0 \<le> n" "n < 2 ^ Suc (man_bits F)" "g = 0 \<or> 2 ^ man_bits F \<le> n"
  shows "mag_sig F (g * 2 ^ man_bits F + n) = n"
    "mag_exp F (g * 2 ^ man_bits F + n) = emin F - int (man_bits F) + g"
proof -
  define t where "t = man_bits F"
  have "mag_sig F (g * 2 ^ t + n) = n \<and> mag_exp F (g * 2 ^ t + n) = emin F - int t + g"
  proof (cases "2 ^ t \<le> n")
    case True
    define r where "r = n - 2 ^ t"
    have r: "0 \<le> r" "r < 2 ^ t" using True assms(3) by (simp_all add: r_def t_def)
    have eq: "g * 2 ^ t + n = (g + 1) * 2 ^ t + r" by (simp add: r_def algebra_simps)
    have "(g * 2 ^ t + n) div 2 ^ t = g + 1" "(g * 2 ^ t + n) mod 2 ^ t = r"
      unfolding eq using r by (simp_all add: div_pos_pos_trivial)
    moreover have "\<not> g * 2 ^ t + n < 2 ^ t" using True assms(1) by (simp add: not_less add_increasing)
    ultimately show ?thesis
      by (simp add: mag_sig_def mag_exp_def t_def [symmetric] r_def)
  next
    case False
    with assms have "g = 0" by (auto simp: t_def)
    with False show ?thesis by (simp add: mag_sig_def mag_exp_def t_def [symmetric])
  qed
  then show "mag_sig F (g * 2 ^ man_bits F + n) = n"
    "mag_exp F (g * 2 ^ man_bits F + n) = emin F - int (man_bits F) + g"
    by (simp_all add: t_def)
qed

text \<open>A number with no more significant bits than the format has, inside its range, is converted
  exactly.\<close>

lemma round_mag_exact:
  assumes m: "0 < m" "m < 2 ^ Suc (man_bits F)" and e: "emin F - int (man_bits F) \<le> e"
    and top: "int (bit_len m) + e \<le> emin F + 2 ^ exp_bits F - 2" and two: "2 \<le> exp_bits F"
  shows "mag_value F (round_mag F m e) = dy m e" "0 < round_mag F m e" "round_mag F m e < inf_code F"
proof -
  define t x where "t = man_bits F" and "x = max (int (bit_len m) - 1 + e) (emin F)"
  define j g where "j = nat (e - (x - int t))" and "g = x - emin F"
  define n where "n = m * 2 ^ j"
  have bl: "int (bit_len m) \<le> int t + 1" using bit_len_less [OF m] by (simp add: t_def)
  have j: "int j = e - (x - int t)" using bl e by (auto simp: j_def x_def t_def)
  have g0: "0 \<le> g" by (simp add: g_def x_def)
  have n0: "0 < n" using m by (simp add: n_def)
  have bln: "bit_len n = bit_len m + j" using m by (simp add: n_def)
  have len: "int (bit_len n) \<le> int t + 1" using j by (simp add: bln x_def)
  have "(2 :: int) ^ bit_len n \<le> 2 ^ Suc t" using len by (intro power_increasing) simp_all
  then have n1: "n < 2 ^ Suc t" using bit_len_bounds [OF n0] by linarith
  have big: "g = 0 \<or> 2 ^ t \<le> n"
  proof (cases "g = 0")
    case False
    then have "x = int (bit_len m) - 1 + e" by (auto simp: g_def x_def max_def split: if_splits)
    then have "bit_len n = Suc t" using j bln by simp
    then show ?thesis using bit_len_bounds [OF n0] by simp
  qed simp
  have "(4 :: int) \<le> 2 ^ exp_bits F" using two power_increasing [of 2 "exp_bits F" "2 :: int"] by simp
  then have "g + 2 \<le> 2 ^ exp_bits F - 1" using top by (simp add: g_def x_def)
  then have "(g + 2) * 2 ^ t \<le> inf_code F" unfolding inf_code_def t_def by (rule mult_right_mono) simp
  then have lt: "g * 2 ^ t + n < inf_code F" using n1 by (simp add: algebra_simps)
  have "dy_rne m (e - (x - int t)) = n" by (simp only: j [symmetric]) (simp add: dy_rne_def n_def)
  then have code: "round_mag F m e = g * 2 ^ t + n"
    using m lt by (simp add: round_mag_def x_def [symmetric] t_def [symmetric] g_def)
  show "0 < round_mag F m e" "round_mag F m e < inf_code F"
    using lt n0 g0 by (simp_all add: code add_nonneg_pos)
  have "mag_value F (round_mag F m e) = dy n (emin F - int t + g)"
    using mag_parts [of g n F] g0 n0 n1 big by (simp add: mag_value_def code t_def)
  also have "\<dots> = dy m e" using j by (simp add: n_def dy_shift g_def)
  finally show "mag_value F (round_mag F m e) = dy m e" .
qed

section \<open>Lemmas: bit patterns\<close>

text \<open>A pattern is its sign bit and its magnitude code.\<close>

lemma uint_mod: "uint (take_bit n w) = uint w mod 2 ^ n" for w :: "'a::len word"
  by (simp only: unsigned_take_bit_eq) (simp add: take_bit_eq_mod)

lemma d_mag_bounds [simp]: "0 \<le> d_mag d" "d_mag d < 2 ^ 63"
  by (simp_all add: d_mag_def uint_mod)

lemma sign_or_word:
  fixes c :: int
  assumes "0 \<le> c" "c < 2 ^ n" "LENGTH('a::len) = Suc n"
  shows "bit ((if s then push_bit n 1 else 0) OR (of_int c :: 'a word)) n = s"
    "take_bit n ((if s then push_bit n 1 else 0) OR (of_int c :: 'a word)) = of_int c"
    "uint (of_int c :: 'a word) = c"
proof -
  have c: "take_bit n c = c" using assms by (simp add: take_bit_int_eq_self)
  have hi: "\<not> bit c k" if "n \<le> k" for k
    using c that by (metis bit_take_bit_iff not_le)
  show "bit ((if s then push_bit n 1 else 0) OR (of_int c :: 'a word)) n = s"
    using hi [of n] assms by (simp add: bit_simps)
  show "take_bit n ((if s then push_bit n 1 else 0) OR (of_int c :: 'a word)) = of_int c"
    by (rule bit_word_eqI) (use hi in \<open>auto simp: bit_simps intro: leI not_le_imp_less\<close>)
  have "take_bit (Suc n) c = c"
    using assms by (intro take_bit_int_eq_self) (simp_all add: power_strict_increasing)
  then show "uint (of_int c :: 'a word) = c" by (simp add: unsigned_of_int assms)
qed

lemma sign_split:
  fixes w :: "'a::len word"
  assumes "LENGTH('a) = Suc n"
  shows "(if bit w n then push_bit n 1 else 0) OR of_int (uint (take_bit n w)) = w"
  by (rule bit_word_eqI) (use assms in \<open>auto simp: bit_simps less_Suc_eq\<close>)

lemma push_bit_63: "(push_bit 63 1 :: u64) = 0x8000000000000000"
  by (simp add: push_bit_eq_mult)
lemma push_bit_15: "(push_bit 15 1 :: u16) = 0x8000"
  by (simp add: push_bit_eq_mult)
lemma push_bit_31: "(push_bit 31 1 :: u32) = 0x80000000"
  by (simp add: push_bit_eq_mult)

lemma mk_double_fields:
  assumes "0 \<le> c" "c < 2 ^ 63"
  shows "d_neg (mk_double s c) = s" "d_mag (mk_double s c) = c"
  using sign_or_word [where n = 63 and c = c and ?'a = 64] assms
  unfolding d_neg_def d_mag_def mk_double_def push_bit_63 [symmetric] by simp_all

lemma mk_double_split: "mk_double (d_neg d) (d_mag d) = d"
  using sign_split [of 63 d] unfolding d_neg_def d_mag_def mk_double_def push_bit_63 [symmetric] by simp

lemma mk_double_eq_iff:
  assumes "0 \<le> c" "c < 2 ^ 63"
  shows "mk_double s c = d \<longleftrightarrow> d_neg d = s \<and> d_mag d = c"
  using mk_double_fields [OF assms] mk_double_split [of d] by auto

definition h_neg :: "u16 \<Rightarrow> bool" where "h_neg h = bit h 15"
definition h_mag :: "u16 \<Rightarrow> int" where "h_mag h = uint (take_bit 15 h)"
definition mk_half :: "bool \<Rightarrow> int \<Rightarrow> u16" where
  "mk_half s c = (if s then 0x8000 else 0) OR of_int c"

lemma h_mag_bounds [simp]: "0 \<le> h_mag h" "h_mag h < 2 ^ 15"
  by (simp_all add: h_mag_def uint_mod)

lemma mk_half_fields:
  assumes "0 \<le> c" "c < 2 ^ 15"
  shows "h_neg (mk_half s c) = s" "h_mag (mk_half s c) = c"
  using sign_or_word [where n = 15 and c = c and ?'a = 16] assms
  unfolding h_neg_def h_mag_def mk_half_def push_bit_15 [symmetric] by simp_all

lemma mk_half_split: "mk_half (h_neg h) (h_mag h) = h"
  using sign_split [of 15 h] unfolding h_neg_def h_mag_def mk_half_def push_bit_15 [symmetric] by simp

lemma mk_half_eq_iff:
  assumes "0 \<le> c" "c < 2 ^ 15"
  shows "mk_half s c = h \<longleftrightarrow> h_neg h = s \<and> h_mag h = c"
  using mk_half_fields [OF assms] mk_half_split [of h] by auto

section \<open>Lemmas: binary16\<close>

lemma inf_codes [simp]:
  "inf_code Half = 31744" "inf_code Single = 2139095040" "inf_code Double = 9218868437227405312"
  by (simp_all add: inf_code_def)

lemma dy_less_iff: "dy_less n m e \<longleftrightarrow> of_int n < dy m e"
proof (cases "0 \<le> e")
  case True
  then have "dy m e = real_of_int (m * 2 ^ nat e)" by (simp add: dy_def powi_nat)
  with True show ?thesis by (simp only: dy_less_def of_int_less_iff) simp
next
  case False
  then have "dy m e = m / 2 ^ nat (- e)" by (simp add: dy_def power_int_def field_simps)
  with False show ?thesis
    by (simp add: dy_less_def pos_less_divide_eq) (metis of_int_less_iff of_int_mult of_int_numeral of_int_power)
qed

lemma dy_le_iff: "dy_le n m e \<longleftrightarrow> of_int n \<le> dy m e"
proof (cases "0 \<le> e")
  case True
  then have "dy m e = real_of_int (m * 2 ^ nat e)" by (simp add: dy_def powi_nat)
  with True show ?thesis by (simp only: dy_le_def of_int_le_iff) simp
next
  case False
  then have "dy m e = m / 2 ^ nat (- e)" by (simp add: dy_def power_int_def field_simps)
  with False show ?thesis
    by (simp add: dy_le_def pos_le_divide_eq) (metis of_int_le_iff of_int_mult of_int_numeral of_int_power)
qed

lemma dy_floor_int: "dy_is_int m e \<Longrightarrow> of_int (dy_floor m e) = dy m e"
proof (cases "0 \<le> e")
  case False
  assume "dy_is_int m e"
  with False have "m = m div 2 ^ nat (- e) * 2 ^ nat (- e)" by (auto simp: dy_is_int_def)
  then have "dy m e = dy (m div 2 ^ nat (- e)) 0"
    using False dy_shift [of "m div 2 ^ nat (- e)" "nat (- e)" e] by simp
  with False show ?thesis by (simp add: dy_floor_def dy_def)
qed (simp add: dy_floor_def dy_def powi_nat)

lemma dy_intD:
  assumes "dy m e = of_int k"
  shows "dy_is_int m e" "dy_floor m e = k"
proof -
  have "dy k 0 = dy m e" using assms by (simp add: dy_def)
  show int: "dy_is_int m e"
  proof (cases "0 \<le> e")
    case False
    then have "m = k * 2 ^ nat (0 - e)" using \<open>dy k 0 = dy m e\<close> by (intro dy_eqD) simp_all
    with False show ?thesis by (simp add: dy_is_int_def)
  qed (simp add: dy_is_int_def)
  have "real_of_int (dy_floor m e) = real_of_int k" using dy_floor_int [OF int] assms by simp
  then show "dy_floor m e = k" by simp
qed

lemma dy_mult_powi: "dy m e * 2 powi k = dy m (e + k)"
  by (simp add: dy_def power_int_add)

lemma dy_bit_len:
  assumes "0 < m"
  shows "2 powi (int (bit_len m) - 1 + e) \<le> dy m e" "dy m e < 2 powi (int (bit_len m) + e)"
proof -
  note b = bit_len_bounds [OF assms]
  have "real_of_int (2 ^ (bit_len m - 1)) \<le> real_of_int m" "real_of_int m < real_of_int (2 ^ bit_len m)"
    using b by (simp_all only: of_int_le_iff of_int_less_iff)
  then have "2 powi (int (bit_len m) - 1) \<le> real_of_int m" "real_of_int m < 2 powi int (bit_len m)"
    using b by (simp_all add: power_int_def nat_diff_distrib)
  then show "2 powi (int (bit_len m) - 1 + e) \<le> dy m e" "dy m e < 2 powi (int (bit_len m) + e)"
    by (simp_all add: dy_def power_int_add)
qed

lemma powi_less_iff: "(2 :: real) powi a < 2 powi b \<longleftrightarrow> a < b"
  by (meson linorder_not_less one_less_numeral_iff order_less_imp_le power_int_increasing
      power_int_strict_increasing semiring_norm(76))

lemma half_or:
  assumes "0 \<le> e" "e < 32" "0 \<le> r" "r < 1024"
  shows "push_bit 10 (of_int e :: u16) OR of_int r = of_int (e * 1024 + r)"
proof -
  have "take_bit 10 r = r" using assms by (intro take_bit_int_eq_self) simp_all
  then have "\<not> bit r k" if "10 \<le> k" for k
    using that by (metis bit_take_bit_iff not_le)
  then have "push_bit 10 (of_int e :: u16) AND of_int r = 0"
    by (intro bit_word_eqI) (auto simp: bit_simps)
  then have "push_bit 10 (of_int e :: u16) OR of_int r = push_bit 10 (of_int e) + of_int r"
    by (rule disjunctive_add_eq_or [symmetric])
  then show ?thesis by (simp add: push_bit_eq_mult)
qed

lemma uint_h_fields:
  "uint (drop_bit 10 h AND 0x1F :: u16) = h_mag h div 1024" "uint (h AND 0x3FF :: u16) = h_mag h mod 1024"
  "drop_bit 15 h AND 1 \<noteq> 0 \<longleftrightarrow> h_neg h"
proof -
  have "drop_bit 10 h AND 0x1F = take_bit 5 (drop_bit 10 h)" "h AND 0x3FF = take_bit 10 h"
    by (simp_all add: take_bit_eq_mask mask_numeral)
  moreover have "uint (drop_bit 10 h) = uint h div 1024"
    using take_bit_int_eq_self [of "uint h" 16] unsigned_less [of h, where ?'a = int]
    by (simp only: unsigned_drop_bit_eq) (simp add: drop_bit_eq_div)
  ultimately show "uint (drop_bit 10 h AND 0x1F :: u16) = h_mag h div 1024" "uint (h AND 0x3FF :: u16) = h_mag h mod 1024"
    unfolding h_mag_def using zmod_zmult2_eq [of 32 "uint h" 1024] by (simp_all only: uint_mod) simp_all
  show "drop_bit 15 h AND 1 \<noteq> 0 \<longleftrightarrow> h_neg h"
    by (simp add: h_neg_def bit_iff_odd_drop_bit and_one_eq odd_iff_mod_2_eq_one)
qed

lemma xor_or_high:
  "(\<And>k. n \<le> k \<Longrightarrow> \<not> bit c k) \<Longrightarrow> n < 64 \<Longrightarrow> of_int c XOR push_bit n 1 = push_bit n 1 OR (of_int c :: u64)"
  by (intro bit_word_eqI) (auto simp: bit_simps)

lemma xor_sign:
  assumes "0 \<le> c" "c < 2 ^ 63"
  shows "mk_double False c XOR 0x8000000000000000 = mk_double True c"
proof -
  have "take_bit 63 c = c" using assms by (simp add: take_bit_int_eq_self)
  then have "\<not> bit c k" if "63 \<le> k" for k
    using that by (metis bit_take_bit_iff not_le)
  then have "of_int c XOR push_bit 63 1 = push_bit 63 1 OR (of_int c :: u64)"
    by (intro xor_or_high) auto
  then show ?thesis by (simp add: mk_double_def push_bit_63)
qed

definition half_to_mag :: "int \<Rightarrow> int" where
  "half_to_mag c = (if c < inf_code Half then round_mag Double (mag_sig Half c) (mag_exp Half c)
     else if c = inf_code Half then inf_code Double else 0x7FF8000000000000)"

lemma half_to_mag_finite:
  assumes "0 \<le> c" "c < inf_code Half"
  shows "mag_value Double (half_to_mag c) = mag_value Half c" "0 \<le> half_to_mag c"
    "half_to_mag c < inf_code Double" "half_to_mag c = 0 \<longleftrightarrow> c = 0"
proof -
  have r: "mag_value Double (half_to_mag c) = mag_value Half c \<and> 0 < half_to_mag c \<and> half_to_mag c < inf_code Double"
    if "c \<noteq> 0"
  proof -
    have c: "0 < c" using that assms by simp
    have m: "0 < mag_sig Half c" "mag_sig Half c < 2 ^ 11"
      using c by (simp_all add: mag_sig_pos) (simp add: mag_sig_def)
    then have "bit_len (mag_sig Half c) \<le> 11" by (rule bit_len_less)
    moreover have "c div 1024 \<le> 30" using assms by simp
    moreover have "mag_exp Half c \<le> 6" "-24 \<le> mag_exp Half c"
      using c \<open>c div 1024 \<le> 30\<close> by (auto simp: mag_exp_def)
    moreover have "mag_sig Half c < 2 ^ Suc (man_bits Double)" using m(2) by simp
    ultimately show ?thesis
      using round_mag_exact [of "mag_sig Half c" Double "mag_exp Half c"] m assms(2)
      by (simp add: half_to_mag_def mag_value_def)
  qed
  moreover have "half_to_mag 0 = 0" by (simp add: half_to_mag_def round_mag_def mag_sig_def)
  moreover have "mag_value F 0 = 0" for F by (simp add: mag_value_def mag_sig_def dy_def)
  ultimately show "mag_value Double (half_to_mag c) = mag_value Half c" "0 \<le> half_to_mag c"
    "half_to_mag c < inf_code Double" "half_to_mag c = 0 \<longleftrightarrow> c = 0"
    by (cases "c = 0"; simp)+
qed

lemma half_to_mag_bounds: "0 \<le> c \<Longrightarrow> 0 \<le> half_to_mag c \<and> half_to_mag c < 2 ^ 63"
  using half_to_mag_finite(2,3) [of c] by (cases "c < inf_code Half") (auto simp: half_to_mag_def)

lemma from_half_eq: "from_half h = mk_double (h_neg h) (half_to_mag (h_mag h))"
proof -
  let ?c = "h_mag h"
  define f r where "f = ?c div 1024" and "r = ?c mod 1024"
  have c: "?c = f * 1024 + r" "0 \<le> r" "r < 1024" by (simp_all add: f_def r_def)
  have c0: "0 \<le> ?c" "?c < 32768" using h_mag_bounds [of h] by simp_all
  consider "f = 0" "?c < 1024" | "f \<noteq> 0" "f \<noteq> 31" "1024 \<le> ?c" "?c < 31744" | "f = 31" "r = 0" "?c = 31744"
    | "f = 31" "r \<noteq> 0" "31744 < ?c"
  proof -
    have "f = 0 \<or> 1 \<le> f \<and> f \<le> 30 \<or> f = 31" using c c0 by linarith
    moreover have "1 \<le> f \<Longrightarrow> f \<le> 30 \<Longrightarrow> 1024 \<le> ?c \<and> ?c < 31744" using c by linarith
    ultimately show thesis using that c by (cases "r = 0") fastforce+
  qed
  then have "(if f = 0 then mk_double False (round_mag Double r (-24))
       else if f = 31 then (if \<not> r = 0 then 0x7FF8000000000000 else 0x7FF0000000000000)
       else mk_double False (round_mag Double (r + 1024) (f - 25)))
     = mk_double False (half_to_mag ?c)"
  proof cases
    case 1
    then have "r = ?c" using c by simp
    with 1 show ?thesis by (simp add: half_to_mag_def mag_sig_def mag_exp_def)
  next
    case 2
    then show ?thesis
      by (simp add: half_to_mag_def mag_sig_def mag_exp_def f_def [symmetric] r_def [symmetric] add.commute)
  qed (simp_all add: half_to_mag_def mk_double_def)
  moreover have "drop_bit 10 h AND 0x1F = 0 \<longleftrightarrow> f = 0" "drop_bit 10 h AND 0x1F = 31 \<longleftrightarrow> f = 31"
    "h AND 0x3FF = 0 \<longleftrightarrow> r = 0"
    unfolding f_def r_def by (simp_all only: word_uint_eq_iff uint_h_fields) simp_all
  ultimately have "from_half h = (if h_neg h then mk_double False (half_to_mag ?c) XOR 0x8000000000000000
      else mk_double False (half_to_mag ?c))"
    by (simp only: from_half_def Let_def uint_h_fields f_def r_def)
  then show ?thesis
    using xor_sign [of "half_to_mag ?c"] half_to_mag_bounds [OF h_mag_bounds(1), of h] by simp
qed

text \<open>\<open>to_half\<close> on a finite nonzero double finds the half with the same value, if there is one.\<close>

lemma to_half_finite:
  assumes "is_finite d" "d_mag d \<noteq> 0"
  shows "to_half d = (let m = d_sig d; e = int (bit_len m) + d_exp d - 1 + 15 in
     if dy_less 65504 m (d_exp d) then None
     else if 1 \<le> e then
       (if dy_is_int m (11 - int (bit_len m))
        then Some (mk_half (d_neg d) ((e - 1) * 1024 + dy_floor m (11 - int (bit_len m)))) else None)
     else if dy_is_int m (d_exp d + 24) then Some (mk_half (d_neg d) (dy_floor m (d_exp d + 24))) else None)"
proof -
  define m e where "m = d_sig d" and "e = int (bit_len m) + d_exp d - 1 + 15"
  have nn: "\<not> is_nan d" "\<not> is_inf d" using assms by (auto simp: is_nan_def is_inf_def is_finite_def)
  have m: "0 < m"
    using mag_sig_pos [of "d_mag d" Double] assms(2) d_mag_bounds(1) [of d]
    unfolding m_def d_sig_def by linarith
  have top: "e \<le> 30" if "\<not> dy_less 65504 m (d_exp d)"
  proof -
    have "dy m (d_exp d) < 2 powi 16" using that by (simp add: dy_less_iff)
    then have "2 powi (int (bit_len m) - 1 + d_exp d) < (2 :: real) powi 16"
      using dy_bit_len(1) [OF m, of "d_exp d"] by (rule le_less_trans [rotated])
    then show ?thesis by (simp only: powi_less_iff) (simp add: e_def)
  qed
  have n: "1024 \<le> dy_floor m (11 - int (bit_len m)) \<and> dy_floor m (11 - int (bit_len m)) < 2048"
    if i: "dy_is_int m (11 - int (bit_len m))"
  proof -
    have "(1024 :: real) \<le> of_int (dy_floor m (11 - int (bit_len m)))" "of_int (dy_floor m (11 - int (bit_len m))) < (2048 :: real)"
      using dy_bit_len [OF m, of "11 - int (bit_len m)"] unfolding dy_floor_int [OF i] by simp_all
    then show ?thesis by linarith
  qed
  have normal: "(if d_neg d then 0x8000 else 0) OR push_bit 10 (of_int e) OR of_int (dy_floor m (11 - int (bit_len m)) - 1024)
      = mk_half (d_neg d) ((e - 1) * 1024 + dy_floor m (11 - int (bit_len m)))"
    if "1 \<le> e" "\<not> dy_less 65504 m (d_exp d)" "dy_is_int m (11 - int (bit_len m))"
  proof -
    have "(e - 1) * 1024 + dy_floor m (11 - int (bit_len m)) = e * 1024 + (dy_floor m (11 - int (bit_len m)) - 1024)"
      by simp
    moreover have "push_bit 10 (of_int e :: u16) OR of_int (dy_floor m (11 - int (bit_len m)) - 1024)
        = of_int (e * 1024 + (dy_floor m (11 - int (bit_len m)) - 1024))"
      using top n that by (intro half_or) simp_all
    ultimately show ?thesis by (simp only: mk_half_def or.assoc)
  qed
  have low: "\<not> dy_le 1024 m (d_exp d + 24)" if "\<not> 1 \<le> e"
  proof -
    have "int (bit_len m) + (d_exp d + 24) \<le> 10" using that by (simp add: e_def)
    then have "(2 :: real) powi (int (bit_len m) + (d_exp d + 24)) \<le> 2 powi 10" by (rule power_int_increasing) simp
    then have "dy m (d_exp d + 24) < 1024" using dy_bit_len(2) [OF m, of "d_exp d + 24"] by simp
    then show ?thesis by (simp add: dy_le_iff)
  qed
  have sub: "(if d_neg d then 0x8000 else 0) OR of_int k = mk_half (d_neg d) k" for k
    by (simp only: mk_half_def)
  show ?thesis
    by (simp only: to_half_def Let_def nn assms(2) if_False m_def [symmetric] e_def [symmetric] sub)
      (cases "dy_less 65504 m (d_exp d)"; cases "1 \<le> e"; cases "dy_is_int m (11 - int (bit_len m))";
        cases "dy_is_int m (d_exp d + 24)"; simp only: normal low simp_thms if_True if_False)
qed

lemma to_half_Some_iff:
  assumes "is_finite d" "d_mag d \<noteq> 0"
  shows "to_half d = Some h \<longleftrightarrow>
    (\<exists>c. 0 \<le> c \<and> c < inf_code Half \<and> mag_value Half c = mag_value Double (d_mag d) \<and> h = mk_half (d_neg d) c)"
    (is "_ \<longleftrightarrow> ?R")
proof -
  define m x where "m = d_sig d" and "x = d_exp d"
  define e where "e = int (bit_len m) + x - 1 + 15"
  have val: "mag_value Double (d_mag d) = dy m x" by (simp add: mag_value_def m_def x_def d_sig_def d_exp_def)
  have m: "0 < m"
    using mag_sig_pos [of "d_mag d" Double] assms(2) d_mag_bounds(1) [of d]
    unfolding m_def d_sig_def by linarith
  note lb = dy_bit_len [OF m]
  note th = to_half_finite [OF assms, folded m_def x_def, unfolded Let_def, folded e_def]
  show ?thesis
  proof
    assume S: "to_half d = Some h"
    then have le: "dy m x \<le> 65504" by (auto simp: th dy_less_iff split: if_splits)
    show ?R
    proof (cases "1 \<le> e")
      case True
      define n where "n = dy_floor m (11 - int (bit_len m))"
      have i: "dy_is_int m (11 - int (bit_len m))" and h: "h = mk_half (d_neg d) ((e - 1) * 1024 + n)"
        using S True le by (auto simp: th dy_less_iff n_def split: if_splits)
      have nv: "of_int n = dy m (11 - int (bit_len m))" using dy_floor_int [OF i] by (simp add: n_def)
      have "(1024 :: real) \<le> of_int n" "of_int n < (2048 :: real)" using lb [of "11 - int (bit_len m)"] by (simp_all add: nv)
      then have n: "1024 \<le> n" "n < 2048" by linarith+
      have "2 powi (int (bit_len m) - 1 + x) < (2 :: real) powi 16" using lb(1) [of x] le by (simp add: le_less_trans)
      then have e30: "e \<le> 30" by (simp only: powi_less_iff) (simp add: e_def)
      have "mag_value Half ((e - 1) * 1024 + n) = dy n (e - 25)"
        using mag_parts [of "e - 1" n Half] True n by (simp add: mag_value_def)
      also have "\<dots> = dy m (11 - int (bit_len m)) * 2 powi (e - 25)" by (simp only: nv [symmetric]) (simp add: dy_def)
      also have "\<dots> = dy m x" by (simp add: dy_mult_powi e_def)
      finally show ?thesis
        using h val n True e30 by (intro exI [of _ "(e - 1) * 1024 + n"]) simp
    next
      case False
      define n where "n = dy_floor m (x + 24)"
      have i: "dy_is_int m (x + 24)" and h: "h = mk_half (d_neg d) n"
        using S False le by (auto simp: th dy_less_iff n_def split: if_splits)
      have nv: "of_int n = dy m (x + 24)" using dy_floor_int [OF i] by (simp add: n_def)
      have "int (bit_len m) + (x + 24) \<le> 10" using False by (simp add: e_def)
      then have "(2 :: real) powi (int (bit_len m) + (x + 24)) \<le> 2 powi 10" by (rule power_int_increasing) simp
      then have "real_of_int n < 1024" "0 \<le> real_of_int n" using lb(2) [of "x + 24"] m by (simp_all add: nv) (simp add: dy_def)
      then have n: "0 \<le> n" "n < 1024" by linarith+
      have "mag_value Half n = dy n (- 24)"
        using mag_parts [of 0 n Half] n by (simp add: mag_value_def)
      also have "\<dots> = dy m (x + 24) * 2 powi (- 24)" by (simp only: nv [symmetric]) (simp add: dy_def)
      also have "\<dots> = dy m x" by (simp only: dy_mult_powi) simp
      finally show ?thesis using h val n by (intro exI [of _ n]) simp
    qed
  next
    assume ?R
    then obtain c where c: "0 \<le> c" "c < 31744" "mag_value Half c = dy m x" "h = mk_half (d_neg d) c"
      by (auto simp: val)
    define f r where "f = c div 1024" and "r = c mod 1024"
    have fr: "c = f * 1024 + r" "0 \<le> r" "r < 1024" by (simp_all add: f_def r_def)
    show "to_half d = Some h"
    proof (cases "c < 1024")
      case True
      then have v: "dy m x = dy c (- 24)" using c by (simp add: mag_value_def mag_sig_def mag_exp_def)
      have "dy m x < 2 powi (- 14)" using True by (simp only: v) (simp add: dy_def power_int_minus)
      then have "(2 :: real) powi (int (bit_len m) - 1 + x) < 2 powi (- 14)" using lb(1) [of x] by (rule le_less_trans [rotated])
      then have "\<not> 1 \<le> e" by (simp only: powi_less_iff) (simp add: e_def)
      moreover have "dy m (x + 24) = of_int c"
        by (simp only: dy_mult_powi [symmetric] v) (simp add: dy_def power_int_minus)
      moreover have "dy m x \<le> 65504" using \<open>dy m x < 2 powi (- 14)\<close> by (simp add: power_int_minus)
      ultimately show ?thesis using dy_intD [of m "x + 24" c] c by (simp add: th dy_less_iff)
    next
      case False
      then have f: "1 \<le> f" "f \<le> 30" using fr c by linarith+
      have v: "dy m x = dy (1024 + r) (f - 25)"
        using c False by (simp add: mag_value_def mag_sig_def mag_exp_def f_def r_def)
      have "bit_len (1024 + r) = 11" using fr bit_len_eqI [of 10 "1024 + r"] by simp
      then have "(2 :: real) powi (f - 15) \<le> dy m x" "dy m x < 2 powi (f - 14)"
        using dy_bit_len [of "1024 + r" "f - 25"] fr by (simp_all add: v)
      then have "(2 :: real) powi (f - 15) < 2 powi (int (bit_len m) + x)" "(2 :: real) powi (int (bit_len m) - 1 + x) < 2 powi (f - 14)"
        using lb [of x] by linarith+
      then have e: "e = f" by (simp only: powi_less_iff) (simp add: e_def)
      then have "x + (25 - f) = 11 - int (bit_len m)" by (simp add: e_def)
      then have "dy m (11 - int (bit_len m)) = dy m x * 2 powi (25 - f)" by (simp only: dy_mult_powi)
      also have "\<dots> = dy (1024 + r) 0" by (simp only: v dy_mult_powi) simp
      finally have i: "dy m (11 - int (bit_len m)) = of_int (1024 + r)" by (simp only: dy_def) simp
      have "(2 :: real) powi (f - 25) \<le> 2 powi 5" using f by (intro power_int_increasing) simp_all
      then have "dy m x \<le> 2047 * 2 powi 5" unfolding v unfolding dy_def using fr by (intro mult_mono) simp_all
      then have "dy m x \<le> 65504" by simp
      then show ?thesis using dy_intD [OF i] e f c fr by (simp add: th dy_less_iff algebra_simps)
    qed
  qed
qed

section \<open>Lemmas: binary32\<close>

definition f_neg :: "u32 \<Rightarrow> bool" where "f_neg f = bit f 31"
definition mk_float :: "bool \<Rightarrow> int \<Rightarrow> u32" where
  "mk_float s c = (if s then 0x80000000 else 0) OR of_int c"

lemma f_mag_bounds [simp]: "0 \<le> f_mag f" "f_mag f < 2 ^ 31"
  by (simp_all add: f_mag_def uint_mod)

lemma mk_float_fields:
  assumes "0 \<le> c" "c < 2 ^ 31"
  shows "f_neg (mk_float s c) = s" "f_mag (mk_float s c) = c"
  using sign_or_word [where n = 31 and c = c and ?'a = 32] assms
  unfolding f_neg_def f_mag_def mk_float_def push_bit_31 [symmetric] by simp_all

lemma mk_float_split: "mk_float (f_neg f) (f_mag f) = f"
  using sign_split [of 31 f] unfolding f_neg_def f_mag_def mk_float_def push_bit_31 [symmetric] by simp

text \<open>Outside NaN the conversions act on the magnitude code and keep the sign.\<close>

definition double_to_float_mag :: "int \<Rightarrow> int" where
  "double_to_float_mag c = (if c = inf_code Double then inf_code Single
     else round_mag Single (mag_sig Double c) (mag_exp Double c))"

definition float_to_double_mag :: "int \<Rightarrow> int" where
  "float_to_double_mag c = (if c = inf_code Single then inf_code Double
     else round_mag Double (mag_sig Single c) (mag_exp Single c))"

lemma to_float_eq: "\<not> is_nan d \<Longrightarrow> to_float d = mk_float (d_neg d) (double_to_float_mag (d_mag d))"
  by (simp add: to_float_def mk_float_def double_to_float_mag_def is_inf_def d_sig_def d_exp_def)

lemma from_float_eq:
  "f_mag f \<le> inf_code Single \<Longrightarrow> from_float f = mk_double (f_neg f) (float_to_double_mag (f_mag f))"
  by (simp add: from_float_def mk_double_def float_to_double_mag_def f_neg_def)

lemma round_mag_range: "0 \<le> m \<Longrightarrow> 0 \<le> round_mag F m e" "round_mag F m e \<le> inf_code F"
proof -
  show "0 \<le> round_mag F m e" if "0 \<le> m"
  proof -
    have "0 \<le> dy_rne m k" for k using that by (simp add: dy_rne_def rne_def Let_def pos_imp_zdiv_nonneg_iff)
    moreover have "0 \<le> inf_code F" by (cases F) simp_all
    ultimately show ?thesis by (simp add: round_mag_def Let_def)
  qed
  show "round_mag F m e \<le> inf_code F" by (cases F) (simp_all add: round_mag_def Let_def)
qed

lemma double_to_float_mag_range:
  assumes "0 \<le> c"
  shows "0 \<le> double_to_float_mag c" "double_to_float_mag c \<le> inf_code Single"
  using round_mag_range [where F = Single and m = "mag_sig Double c" and e = "mag_exp Double c"] assms
  by (simp_all add: double_to_float_mag_def)

lemma float_to_double_mag_finite:
  assumes "0 \<le> c" "c < inf_code Single"
  shows "mag_value Double (float_to_double_mag c) = mag_value Single c" "0 \<le> float_to_double_mag c"
    "float_to_double_mag c < inf_code Double"
proof -
  have "mag_value Double (float_to_double_mag c) = mag_value Single c \<and> 0 < float_to_double_mag c
      \<and> float_to_double_mag c < inf_code Double" if "c \<noteq> 0"
  proof -
    have c: "0 < c" using that assms by simp
    have m: "0 < mag_sig Single c" "mag_sig Single c < 2 ^ 24"
      using c by (simp_all add: mag_sig_pos) (simp add: mag_sig_def)
    then have "bit_len (mag_sig Single c) \<le> 24" by (rule bit_len_less)
    moreover have "c div 8388608 \<le> 254" using assms by simp
    moreover have "mag_exp Single c \<le> 104" "-149 \<le> mag_exp Single c"
      using c \<open>c div 8388608 \<le> 254\<close> by (auto simp: mag_exp_def)
    moreover have "mag_sig Single c < 2 ^ Suc (man_bits Double)" using m(2) by simp
    ultimately show ?thesis
      using round_mag_exact [of "mag_sig Single c" Double "mag_exp Single c"] m assms(2)
      by (simp add: float_to_double_mag_def mag_value_def)
  qed
  moreover have "float_to_double_mag 0 = 0" by (simp add: float_to_double_mag_def round_mag_def mag_sig_def)
  moreover have "mag_value F 0 = 0" for F by (simp add: mag_value_def mag_sig_def dy_def)
  ultimately show "mag_value Double (float_to_double_mag c) = mag_value Single c" "0 \<le> float_to_double_mag c"
    "float_to_double_mag c < inf_code Double"
    by (cases "c = 0"; simp)+
qed

lemma float_to_double_mag_range:
  assumes "0 \<le> c" "c \<le> inf_code Single"
  shows "0 \<le> float_to_double_mag c" "float_to_double_mag c \<le> inf_code Double"
proof -
  have "0 \<le> float_to_double_mag c \<and> float_to_double_mag c \<le> inf_code Double"
  proof (cases "c < inf_code Single")
    case True
    with float_to_double_mag_finite(2,3) [OF assms(1) True] show ?thesis by linarith
  next
    case False
    with assms(2) have "c = inf_code Single" by linarith
    then show ?thesis by (simp add: float_to_double_mag_def)
  qed
  then show "0 \<le> float_to_double_mag c" "float_to_double_mag c \<le> inf_code Double" by blast+
qed

lemma float_mag_inverse:
  assumes "0 \<le> c" "c \<le> inf_code Single"
  shows "double_to_float_mag (float_to_double_mag c) = c"
proof (cases "c < inf_code Single")
  case True
  let ?d = "float_to_double_mag c"
  have "round_mag Single (mag_sig Double ?d) (mag_exp Double ?d) = round_mag Single (mag_sig Single c) (mag_exp Single c)"
    using float_to_double_mag_finite [OF assms(1) True] assms(1)
    by (intro round_mag_cong) (simp_all add: mag_value_def)
  also have "\<dots> = c" using assms(1) True by (rule round_mag_code)
  finally show ?thesis using float_to_double_mag_finite(3) [OF assms(1) True] by (simp add: double_to_float_mag_def)
next
  case False
  with assms(2) have "c = inf_code Single" by linarith
  then show ?thesis by (simp add: double_to_float_mag_def float_to_double_mag_def)
qed

lemma from_to_float:
  assumes "\<not> is_nan d"
  shows "d_neg (from_float (to_float d)) = d_neg d"
    "d_mag (from_float (to_float d)) = float_to_double_mag (double_to_float_mag (d_mag d))"
    "\<not> is_nan (from_float (to_float d))"
proof -
  let ?c = "double_to_float_mag (d_mag d)"
  note r = double_to_float_mag_range [OF d_mag_bounds(1), of d]
  have f: "f_neg (to_float d) = d_neg d" "f_mag (to_float d) = ?c"
    using mk_float_fields [of ?c "d_neg d"] r by (simp_all add: to_float_eq [OF assms])
  then have "from_float (to_float d) = mk_double (d_neg d) (float_to_double_mag ?c)"
    using from_float_eq [of "to_float d"] r by simp
  then show "d_neg (from_float (to_float d)) = d_neg d"
    "d_mag (from_float (to_float d)) = float_to_double_mag ?c" "\<not> is_nan (from_float (to_float d))"
    using mk_double_fields [of "float_to_double_mag ?c" "d_neg d"] float_to_double_mag_range [OF r]
    by (simp_all add: is_nan_def)
qed

lemma fits_single_from_to:
  assumes "\<not> is_nan d"
  shows "fits_single d \<longleftrightarrow> from_float (to_float d) = d"
  using assms from_to_float [OF assms] mk_double_split [of d] mk_double_split [of "from_float (to_float d)"]
  by (auto simp: fits_single_def d_eq_def)

lemma from_float_nan:
  assumes "inf_code Single < f_mag f"
  shows "is_nan (from_float f)"
proof -
  define q :: u64 where "q = 0x7FF8000000000000"
  have "take_bit 63 q = q" by (simp add: q_def)
  moreover have "from_float f = (if bit f 31 then 0x8000000000000000 else 0) OR (q OR push_bit 29 (ucast (f AND 0x007FFFFF)))"
    using assms by (simp only: from_float_def q_def if_True)
  ultimately have "take_bit 63 (from_float f) = q OR (take_bit 63 (if bit f 31 then 0x8000000000000000 else 0)
      OR take_bit 63 (push_bit 29 (ucast (f AND 0x007FFFFF))))"
    by (simp only: take_bit_or or.left_commute)
  then have "q \<le> take_bit 63 (from_float f)" by (simp only: le_word_or2)
  then have "uint q \<le> d_mag (from_float f)" unfolding d_mag_def by (simp only: word_le_def)
  then show ?thesis by (simp add: is_nan_def q_def)
qed

section \<open>Lemmas: rounding to binary16\<close>

lemma dy_floor_bounds:
  assumes "0 < m"
  shows "of_int (dy_floor m e) \<le> dy m e" "dy m e < of_int (dy_floor m e) + 1"
proof -
  have "of_int (dy_floor m e) \<le> dy m e \<and> dy m e < of_int (dy_floor m e) + 1"
  proof (cases "0 \<le> e")
    case False
    then have "dy m e = of_int m / of_int (2 ^ nat (- e))" by (simp add: dy_def power_int_def field_simps)
    then have "\<lfloor>dy m e\<rfloor> = dy_floor m e" using False by (simp add: dy_floor_def floor_divide_of_int_eq del: of_int_power)
    then show ?thesis by linarith
  qed (simp add: dy_floor_def dy_def powi_nat)
  then show "of_int (dy_floor m e) \<le> dy m e" "dy m e < of_int (dy_floor m e) + 1" by blast+
qed

lemma dy_rne_floor: "dy_rne m e = dy_floor m e \<or> dy_rne m e = dy_floor m e + 1"
  by (simp add: dy_rne_def dy_floor_def rne_def Let_def)

lemma dy_rne_sig:
  assumes "0 < m"
  shows "1024 \<le> dy_rne m (11 - int (bit_len m))" "dy_rne m (11 - int (bit_len m)) \<le> 2048"
proof -
  let ?f = "dy_floor m (11 - int (bit_len m))"
  have "(1024 :: real) < of_int (?f + 1)" "of_int ?f < (2048 :: real)"
    using dy_bit_len [OF assms, of "11 - int (bit_len m)"] dy_floor_bounds [OF assms, of "11 - int (bit_len m)"]
    by simp_all
  then have "1024 \<le> ?f" "?f \<le> 2047" by linarith+
  then show "1024 \<le> dy_rne m (11 - int (bit_len m))" "dy_rne m (11 - int (bit_len m)) \<le> 2048"
    using dy_rne_floor [of m "11 - int (bit_len m)"] by auto
qed

lemma dy_rne_top:
  assumes "0 < m" "2047 + 1 / 2 \<le> dy m e"
  shows "2048 \<le> dy_rne m e"
proof (cases "2048 \<le> dy_floor m e")
  case True
  then show ?thesis using dy_rne_floor [of m e] by auto
next
  case False
  have e: "e < 0"
  proof (rule ccontr)
    assume "\<not> e < 0"
    then have "2047 + 1 / 2 \<le> real_of_int (dy_floor m e)" using assms(2) by (simp add: dy_floor_def dy_def powi_nat)
    with False show False by linarith
  qed
  define k where "k = nat (- e)"
  have "(2047 :: real) < of_int (dy_floor m e + 1)" using assms(2) dy_floor_bounds(2) [OF assms(1), of e] by simp
  with False have q: "m div 2 ^ k = 2047" using e by (simp add: dy_floor_def k_def)
  have "dy m e = of_int m / 2 ^ k" using e by (simp add: dy_def power_int_def k_def field_simps)
  then have "(2047 + 1 / 2) * 2 ^ k \<le> (of_int m :: real)" using assms(2) by (simp add: pos_le_divide_eq)
  then have "real_of_int (4095 * 2 ^ k) \<le> real_of_int (2 * m)" by simp
  then have "4095 * 2 ^ k \<le> 2 * m" by (simp only: of_int_le_iff)
  moreover have "m = 2047 * 2 ^ k + m mod 2 ^ k" using div_mult_mod_eq [of m "2 ^ k"] q by simp
  ultimately have "2 ^ k \<le> 2 * (m mod 2 ^ k)" by linarith
  then show ?thesis using e q by (auto simp: dy_rne_def rne_def Let_def k_def [symmetric])
qed

lemma rounded_overflow:
  assumes "0 < m" "dy_le 65520 m x" "e = int (bit_len m) + x - 1 + 15"
  shows "31744 \<le> (e - 1) * 1024 + dy_rne m (11 - int (bit_len m))"
proof -
  have v: "65520 \<le> dy m x" using assms(2) by (simp add: dy_le_iff)
  then have "(2 :: real) powi 15 < 2 powi (int (bit_len m) + x)" using dy_bit_len(2) [OF assms(1), of x] by simp
  then have "30 \<le> e" by (simp only: powi_less_iff) (simp add: assms(3))
  then consider "e = 30" | "31 \<le> e" by linarith
  then show ?thesis
  proof cases
    case 1
    then have "11 - int (bit_len m) = x + - 5" by (simp add: assms(3))
    then have "dy m (11 - int (bit_len m)) = dy m x * 2 powi (- 5)" by (simp only: dy_mult_powi)
    then have "2047 + 1 / 2 \<le> dy m (11 - int (bit_len m))" using v by (simp add: power_int_minus)
    from dy_rne_top [OF assms(1) this] 1 show ?thesis by simp
  next
    case 2
    then have "30 * 1024 \<le> (e - 1) * 1024" by (intro mult_right_mono) simp_all
    then show ?thesis using dy_rne_sig(1) [OF assms(1)] by simp
  qed
qed

lemma dy_rne_low:
  assumes "0 < m" "dy m e < 1024"
  shows "0 \<le> dy_rne m e" "dy_rne m e \<le> 1024"
proof -
  have "0 \<le> dy_floor m e" using assms(1) by (simp add: dy_floor_def pos_imp_zdiv_nonneg_iff)
  then show "0 \<le> dy_rne m e" using dy_rne_floor [of m e] by auto
  have "real_of_int (dy_floor m e) < 1024" using assms(2) dy_floor_bounds(1) [OF assms(1), of e] by linarith
  then have "dy_floor m e \<le> 1023" by linarith
  then show "dy_rne m e \<le> 1024" using dy_rne_floor [of m e] by auto
qed

text \<open>The significand after rounding, as the source computes it from floor and difference.\<close>

lemma rounded_significand:
  "(if se < 0 \<and> (let r = sm mod 2 ^ nat (- se) in
       2 ^ nat (- se) < 2 * r \<or> (2 * r = 2 ^ nat (- se) \<and> odd (dy_floor sm se)))
    then dy_floor sm se + 1 else dy_floor sm se) = dy_rne sm se"
  by (auto simp: dy_rne_def dy_floor_def rne_def Let_def)

lemma rounded_subnormal:
  assumes "dy_is_int m (x + 66)"
  shows "dy_rne (1024 * 2 ^ 42 + round42 m (x + 24)) (- 42) = 1024 + dy_rne m (x + 24)"
proof -
  have "dy_rne m (x + 66) = dy_floor m (x + 66)"
    using assms by (auto simp: dy_rne_def dy_floor_def dy_is_int_def rne_def)
  then have n: "round42 m (x + 24) = dy_floor m (x + 66)" by (simp add: round42_def add.assoc)
  have "dy_rne (dy_floor m (x + 66)) (- 42) = dy_rne m (x + 24)"
  proof (cases "0 \<le> x + 66")
    case True
    then show ?thesis
      using dy_rne_shift [of m "nat (x + 66)" "-42"] by (simp add: dy_floor_def add.commute)
  next
    case False
    then have "m = dy_floor m (x + 66) * 2 ^ nat (- (x + 66))"
      using assms by (auto simp: dy_is_int_def dy_floor_def)
    then show ?thesis
      using dy_rne_shift [of "dy_floor m (x + 66)" "nat (- (x + 66))" "x + 24"] False by simp
  qed
  moreover have "dy_rne (1024 * 2 ^ 42 + y) (- 42) = 1024 + dy_rne y (- 42)" for y
  proof -
    have "(1024 * 2 ^ 42 + y) div 2 ^ 42 = 1024 + y div 2 ^ 42" "(1024 * 2 ^ 42 + y) mod 2 ^ 42 = y mod (2 ^ 42 :: int)"
      by (simp_all only: div_mult_self3 mod_mult_self3) simp_all
    moreover have "odd (1024 + q) = odd q" for q :: int by simp
    ultimately show ?thesis
      by (simp only: dy_rne_def rne_def Let_def) simp
  qed
  ultimately show ?thesis by (simp only: n)
qed

text \<open>\<open>to_half_rounded\<close> with the rounded significand named.\<close>

lemma to_half_rounded_None:
  assumes "to_half d = None" "dy_is_int (d_sig d) (d_exp d + 66)"
  shows "to_half_rounded d = (let m = d_sig d; e = int (bit_len m) + d_exp d - 1 + 15 in
     if dy_le 65520 m (d_exp d) then mk_half (d_neg d) 0x7C00
     else if 1 \<le> e then
       (let n = dy_rne m (11 - int (bit_len m)) in
        if 2048 \<le> n then (if 31 \<le> e + 1 then mk_half (d_neg d) 0x7C00
          else (if d_neg d then 0x8000 else 0) OR push_bit 10 (of_int (e + 1)) OR of_int ((n - 1024) mod 1024))
        else (if d_neg d then 0x8000 else 0) OR push_bit 10 (of_int e) OR of_int (n mod 1024))
     else
       (let n = dy_rne m (d_exp d + 24) in
        if 1024 \<le> n then (if d_neg d then 0x8000 else 0) OR push_bit 10 1 OR of_int ((n - 1024) mod 1024)
        else mk_half (d_neg d) (n mod 1024)))"
proof -
  define m e where "m = d_sig d" and "e = int (bit_len m) + d_exp d - 1 + 15"
  have inf: "(if d_neg d then 0x8000 else 0) OR 0x7C00 = mk_half (d_neg d) 0x7C00" by (simp add: mk_half_def)
  have sub: "(if d_neg d then 0x8000 else 0) OR of_int k = mk_half (d_neg d) k" for k by (simp only: mk_half_def)
  have r: "dy_rne (1024 * 2 ^ 42 + round42 m (d_exp d + 24)) (- 42) - 1024 = dy_rne m (d_exp d + 24)"
    using rounded_subnormal assms(2) by (simp add: m_def)
  show ?thesis
  proof (cases "1 \<le> e")
    case True
    then have "e \<noteq> 0" by simp
    with True show ?thesis
      by (simp only: to_half_rounded_def assms(1) option.case Let_def m_def [symmetric] e_def [symmetric]
          inf if_True prod.case rounded_significand [unfolded Let_def] if_False)
  next
    case False
    then show ?thesis
      by (simp only: to_half_rounded_def assms(1) option.case Let_def m_def [symmetric] e_def [symmetric]
          inf if_False prod.case rounded_significand [unfolded Let_def] r sub simp_thms if_True)
  qed
qed

section \<open>Properties\<close>

lemma to_half_iff:
  assumes "\<not> is_nan d"
  shows "to_half d = Some h \<longleftrightarrow> from_half h = d"
proof -
  have c0: "0 \<le> h_mag h" by simp
  note b = half_to_mag_bounds [OF c0]
  have R: "from_half h = d \<longleftrightarrow> d_neg d = h_neg h \<and> d_mag d = half_to_mag (h_mag h)"
    using b by (simp add: from_half_eq mk_double_eq_iff)
  have fin: "half_to_mag (h_mag h) < inf_code Double \<longleftrightarrow> h_mag h < inf_code Half"
    using half_to_mag_finite(3) [OF c0] by (auto simp: half_to_mag_def)
  consider "is_finite d" "d_mag d \<noteq> 0" | "d_mag d = 0" | "is_inf d"
    using assms unfolding is_nan_def is_finite_def is_inf_def by (meson linorder_neqE_linordered_idom)
  then show ?thesis
  proof cases
    case 1
    have "(\<exists>c. 0 \<le> c \<and> c < inf_code Half \<and> mag_value Half c = mag_value Double (d_mag d) \<and> h = mk_half (d_neg d) c)
      \<longleftrightarrow> d_neg d = h_neg h \<and> h_mag h < inf_code Half \<and> mag_value Half (h_mag h) = mag_value Double (d_mag d)"
      (is "?E \<longleftrightarrow> ?P")
    proof
      assume ?E
      then obtain c where "0 \<le> c" "c < 2 ^ 15" "c < inf_code Half" "mag_value Half c = mag_value Double (d_mag d)"
        "h = mk_half (d_neg d) c" by auto
      with mk_half_fields [of c "d_neg d"] show ?P by simp
    next
      assume ?P
      with mk_half_split [of h] c0 show ?E by (intro exI [of _ "h_mag h"]) simp
    qed
    moreover have "mag_value Half (h_mag h) = mag_value Double (d_mag d) \<longleftrightarrow> d_mag d = half_to_mag (h_mag h)"
      if "h_mag h < inf_code Half"
      using half_to_mag_finite(1-3) [OF c0 that] mag_value_inj [of Double "half_to_mag (h_mag h)" "d_mag d"]
        1(1) [unfolded is_finite_def] d_mag_bounds(1) [of d] by metis
    moreover have "d_mag d \<noteq> half_to_mag (h_mag h)" if "\<not> h_mag h < inf_code Half"
      using fin 1(1) that by (metis is_finite_def)
    ultimately show ?thesis
      unfolding to_half_Some_iff [OF 1] R by blast
  next
    case 2
    then have "to_half d = Some (mk_half (d_neg d) 0)"
      by (simp add: to_half_def is_nan_def is_inf_def mk_half_def)
    moreover have "half_to_mag (h_mag h) = 0 \<longleftrightarrow> h_mag h = 0"
      using half_to_mag_finite(4) [OF c0] fin by (auto simp: half_to_mag_def)
    ultimately show ?thesis using R 2 mk_half_eq_iff [of 0 "d_neg d" h] by auto
  next
    case 3
    then have "to_half d = Some (mk_half (d_neg d) 0x7C00)"
      by (simp add: to_half_def is_nan_def is_inf_def mk_half_def Let_def)
    moreover have "half_to_mag (h_mag h) = inf_code Double \<longleftrightarrow> h_mag h = 0x7C00"
      using half_to_mag_finite(3) [OF c0] by (auto simp: half_to_mag_def)
    ultimately show ?thesis using R 3 mk_half_eq_iff [of "0x7C00" "d_neg d" h] by (auto simp: is_inf_def)
  qed
qed

text \<open>C22. Preferred half precision is exact: for a double that is not a NaN, \<open>to_half\<close> returns the half
  \<open>h\<close> exactly when \<open>from_half h\<close> is that double, bit for bit (so it returns nothing exactly when no
  half has the value, and the sign of zero is kept).\<close>

theorem to_half_exact:
  assumes "\<not> is_nan d"
  shows "to_half d = Some h \<longleftrightarrow> from_half h = d"
  by (rule to_half_iff [OF assms])

theorem to_half_exact_witness: "to_half 0xBFF8000000000000 = Some 0xBE00 \<longleftrightarrow> from_half 0xBE00 = 0xBFF8000000000000"
  by (rule to_half_exact) code_simp

text \<open>The single-precision test is exact: a double that is not a NaN passes \<open>fits_single\<close> exactly
  when it is the value of some \<^verbatim>\<open>float\<close>, and then narrowing and widening gives it back.\<close>

theorem fits_single_exact:
  assumes "\<not> is_nan d"
  shows "(fits_single d \<longleftrightarrow> (\<exists>f. from_float f = d)) \<and> (fits_single d \<longrightarrow> from_float (to_float d) = d)"
proof -
  have "from_float (to_float d) = d" if f: "from_float f = d" for f
  proof -
    have fin: "f_mag f \<le> inf_code Single"
      using from_float_nan [of f] assms f by force
    have d: "d_neg d = f_neg f" "d_mag d = float_to_double_mag (f_mag f)"
      using f from_float_eq [OF fin] float_to_double_mag_range [OF f_mag_bounds(1) fin]
        mk_double_fields [of "float_to_double_mag (f_mag f)" "f_neg f"] by simp_all
    then have "to_float d = f"
      using to_float_eq [OF assms] float_mag_inverse [OF f_mag_bounds(1) fin] mk_float_split [of f] by simp
    with f show ?thesis by simp
  qed
  then show ?thesis using fits_single_from_to [OF assms] by blast
qed

theorem fits_single_exact_witness: "fits_single 0x3FB99999A0000000 \<and> \<not> fits_single 0x3FB999999999999A
    \<and> from_float (to_float 0x3FB99999A0000000) = 0x3FB99999A0000000"
proof -
  have n: "\<not> is_nan 0x3FB99999A0000000" and s: "fits_single 0x3FB99999A0000000" "\<not> fits_single 0x3FB999999999999A"
    by code_simp+
  with fits_single_exact [OF n] show ?thesis by blast
qed

text \<open>C23. Pinned half precision rounds to nearest, ties to even: for a finite double that is a multiple
  of \<open>2 ^ -66\<close> (every double of magnitude \<open>2 ^ -14\<close> or more is), \<open>to_half_rounded\<close> returns the
  sign and the nearest half magnitude, infinity on overflow. The condition is needed: below
  \<open>2 ^ -14\<close> the source rounds twice.\<close>

theorem to_half_rounded_nearest:
  assumes fin: "is_finite d" and grid: "dy_is_int (d_sig d) (d_exp d + 66)"
  shows "to_half_rounded d = mk_half (d_neg d) (round_mag Half (d_sig d) (d_exp d))"
proof (cases "to_half d")
  case (Some h)
  show ?thesis
  proof (cases "d_mag d = 0")
    case True
    then have "h = mk_half (d_neg d) 0"
      using Some fin by (simp add: to_half_def is_nan_def is_inf_def is_finite_def mk_half_def)
    with Some True show ?thesis by (simp add: to_half_rounded_def d_sig_def mag_sig_def round_mag_def)
  next
    case False
    from Some obtain c where c: "0 \<le> c" "c < inf_code Half" "mag_value Half c = mag_value Double (d_mag d)"
      "h = mk_half (d_neg d) c" using to_half_Some_iff [OF fin False] by blast
    have "round_mag Half (d_sig d) (d_exp d) = c"
      using round_mag_cong [of "mag_sig Half c" "mag_exp Half c" "d_sig d" "d_exp d" Half] c
        round_mag_code [OF c(1,2)] by (simp add: mag_value_def d_sig_def d_exp_def)
    with Some c show ?thesis by (simp add: to_half_rounded_def)
  qed
next
  case None
  define m x e where "m = d_sig d" and "x = d_exp d" and "e = int (bit_len m) + x - 1 + 15"
  have "d_mag d \<noteq> 0" using None by (auto simp: to_half_def Let_def split: if_splits)
  then have m: "0 < m"
    using mag_sig_pos [of "d_mag d" Double] d_mag_bounds(1) [of d] unfolding m_def d_sig_def by linarith
  note th = to_half_rounded_None [OF None grid, folded m_def x_def, unfolded Let_def, folded e_def]
  have small: "e \<le> 30" if "\<not> dy_le 65520 m x"
  proof -
    have "dy m x < 2 powi 16" using that by (simp add: dy_le_iff)
    then have "2 powi (int (bit_len m) - 1 + x) < (2 :: real) powi 16"
      using dy_bit_len(1) [OF m, of x] by (rule le_less_trans [rotated])
    then show ?thesis by (simp only: powi_less_iff) (simp add: e_def)
  qed
  show ?thesis
  proof (cases "1 \<le> e")
    case True
    define n where "n = dy_rne m (11 - int (bit_len m))"
    have n: "1024 \<le> n" "n \<le> 2048" using dy_rne_sig [OF m] by (simp_all add: n_def)
    have R: "round_mag Half m x = min 31744 ((e - 1) * 1024 + n)"
    proof -
      have "max (int (bit_len m) - 1 + x) (emin Half) = e - 15" using True by (simp add: e_def)
      moreover have "x - (e - 15 - int (man_bits Half)) = 11 - int (bit_len m)" by (simp add: e_def)
      ultimately show ?thesis using m by (simp only: round_mag_def Let_def n_def) simp
    qed
    have top: "31744 \<le> (e - 1) * 1024 + n" if "dy_le 65520 m x"
      unfolding n_def using m that e_def by (rule rounded_overflow)
    have code: "(if d_neg d then 0x8000 else 0) OR push_bit 10 (of_int f) OR of_int r = mk_half (d_neg d) (f * 1024 + r)"
      if "0 \<le> f" "f < 32" "0 \<le> r" "r < 1024" for f r
      using half_or [OF that] by (simp only: mk_half_def or.assoc)
    have "to_half_rounded d = mk_half (d_neg d) (min 31744 ((e - 1) * 1024 + n))"
    proof (cases "dy_le 65520 m x")
      case True
      with top show ?thesis by (simp add: th)
    next
      case False
      note th' = th [unfolded n_def [symmetric], simplified False if_False]
      show ?thesis
      proof (cases "n = 2048")
        case True
        with th' \<open>1 \<le> e\<close> small [OF False] code [of "e + 1" 0] show ?thesis by (auto simp: add.commute)
      next
        case n2: False
        then have "n mod 1024 = n - 1024" using n mod_pos_pos_trivial [of "n - 1024" 1024] by simp
        then have "e * 1024 + n mod 1024 = min 31744 ((e - 1) * 1024 + n)"
          using n n2 small [OF False] by simp
        moreover have "to_half_rounded d = mk_half (d_neg d) (e * 1024 + n mod 1024)"
          using th' \<open>1 \<le> e\<close> small [OF False] code [of e "n mod 1024"] n n2 by simp
        ultimately show ?thesis by simp
      qed
    qed
    then show ?thesis by (simp add: R m_def [symmetric] x_def [symmetric])
  next
    case False
    define n where "n = dy_rne m (x + 24)"
    have R: "round_mag Half m x = min 31744 n"
      using m False by (simp add: round_mag_def e_def n_def max_def)
    have "int (bit_len m) + (x + 24) \<le> 10" using False by (simp add: e_def)
    then have "(2 :: real) powi (int (bit_len m) + (x + 24)) \<le> 2 powi 10" by (rule power_int_increasing) simp
    then have v: "dy m (x + 24) < 1024" using dy_bit_len(2) [OF m, of "x + 24"] by simp
    have n: "0 \<le> n" "n \<le> 1024" using dy_rne_low [OF m v] by (simp_all add: n_def)
    have "dy m x = dy m (x + 24) * 2 powi (- 24)" by (simp only: dy_mult_powi) simp
    also have "\<dots> < 1024" using v by (simp add: power_int_minus)
    finally have "\<not> dy_le 65520 m x" by (simp add: dy_le_iff)
    then have "to_half_rounded d = mk_half (d_neg d) n"
      using False n half_or [of 1 0] by (cases "n = 1024") (auto simp: th n_def [symmetric] mk_half_def or.assoc)
    then show ?thesis using R n by (simp add: m_def [symmetric] x_def [symmetric])
  qed
qed

theorem to_half_rounded_nearest_witness:
  "to_half_rounded 0xBFF0020000000000 = mk_half True (round_mag Half (d_sig 0xBFF0020000000000) (d_exp 0xBFF0020000000000))"
proof -
  have "is_finite 0xBFF0020000000000" "dy_is_int (d_sig 0xBFF0020000000000) (d_exp 0xBFF0020000000000 + 66)"
    "d_neg 0xBFF0020000000000 = True" by code_simp+
  with to_half_rounded_nearest [of "0xBFF0020000000000"] show ?thesis by simp
qed

text \<open>Double rounding in \<open>to_half_rounded\<close>: the double just above \<open>2 ^ -25\<close>, half of the smallest
  subnormal half, is nearest to that subnormal, but the source adds 1024 first, which rounds the
  excess away, and returns zero.\<close>

theorem to_half_rounded_double_rounding:
  "to_half_rounded 0x3E60000000000001 = 0
   \<and> round_mag Half (d_sig 0x3E60000000000001) (d_exp 0x3E60000000000001) = 1"
  by code_simp

end
