(* ===== verification/Cbor_Head.thy ===== *)
theory Cbor_Head
  imports Vcodec_Prelude
begin

text \<open>
  \<^verbatim>\<open>src/include/vcodec/cbor/head.hpp\<close>: CBOR item heads. A head is one initial byte (major type and
  additional information) and an argument of 0, 1, 2, 4 or 8 octets. \<open>make_head\<close> writes the
  shortest form; \<open>parse_head\<close> reads any form and reports it. An \<^verbatim>\<open>encoded_head\<close> (array and size) is
  the list of its used octets.
\<close>

section \<open>Data\<close>

datatype major =
    major_uint | major_nint | major_bytes | major_text
  | major_array | major_map | major_tag | major_simple

fun major_value :: "major \<Rightarrow> u8" where
  "major_value major_uint = 0"
| "major_value major_nint = 1"
| "major_value major_bytes = 2"
| "major_value major_text = 3"
| "major_value major_array = 4"
| "major_value major_map = 5"
| "major_value major_tag = 6"
| "major_value major_simple = 7"

text \<open>\<^verbatim>\<open>static_cast<major>(x)\<close> for a three-bit \<open>x\<close>.\<close>

definition major_of :: "u8 \<Rightarrow> major" where
  "major_of x =
     (if x = 0 then major_uint else if x = 1 then major_nint else if x = 2 then major_bytes
      else if x = 3 then major_text else if x = 4 then major_array else if x = 5 then major_map
      else if x = 6 then major_tag else major_simple)"

definition ai_indefinite :: u8 where "ai_indefinite = 31"
definition break_byte :: byte where "break_byte = 0xFF"

record parsed_head =
  mt :: major
  ai :: u8
  head_value :: u64
  indefinite :: bool
  head_length :: nat
  reserved :: bool
  is_break :: bool

definition empty_head :: parsed_head where
  "empty_head = \<lparr>mt = major_uint, ai = 0, head_value = 0, indefinite = False, head_length = 0,
     reserved = False, is_break = False\<rparr>"

section \<open>Encoding\<close>

definition make_head :: "major \<Rightarrow> u64 \<Rightarrow> bytes" where
  "make_head m v =
     (let mt8 = push_bit 5 (major_value m) in
      if v < 24 then [ucast ((ucast mt8 :: u64) OR v)]
      else if v \<le> 0xFF then (mt8 OR 24) # be_bytes 1 v
      else if v \<le> 0xFFFF then (mt8 OR 25) # be_bytes 2 v
      else if v \<le> 0xFFFFFFFF then (mt8 OR 26) # be_bytes 4 v
      else (mt8 OR 27) # be_bytes 8 v)"

definition make_indefinite_head :: "major \<Rightarrow> bytes" where
  "make_indefinite_head m = [push_bit 5 (major_value m) OR ai_indefinite]"

definition append_head :: "bytes \<Rightarrow> major \<Rightarrow> u64 \<Rightarrow> bytes" where
  "append_head out m v = out @ make_head m v"

text \<open>A \<^verbatim>\<open>std::int64_t\<close> is a \<open>64 word\<close> read with \<^const>\<open>sint\<close>; \<open>-1 - i\<close> is exact for negative
  \<open>i\<close>.\<close>

definition append_int :: "bytes \<Rightarrow> u64 \<Rightarrow> bytes" where
  "append_int out i =
     (if 0 \<le> sint i then append_head out major_uint i else append_head out major_nint (- 1 - i))"

definition encode_int_key :: "u64 \<Rightarrow> bytes" where
  "encode_int_key k = (if 0 \<le> sint k then make_head major_uint k else make_head major_nint (- 1 - k))"

definition encode_text_key :: "string \<Rightarrow> bytes" where
  "encode_text_key name = make_head major_text (of_nat (length name)) @ map uchar name"

section \<open>Decoding\<close>

definition shortest :: "parsed_head \<Rightarrow> bool" where
  "shortest h =
     (if indefinite h \<or> is_break h \<or> reserved h then False
      else if mt h = major_simple \<and> 25 \<le> ai h then True
      else if ai h < 24 then True
      else if ai h = 24 then 24 \<le> head_value h
      else if ai h = 25 then 0xFF < head_value h
      else if ai h = 26 then 0xFFFF < head_value h
      else 0xFFFFFFFF < head_value h)"

text \<open>Octets of the argument announced by the additional information 24 to 27.\<close>

definition arg_octets :: "u8 \<Rightarrow> nat" where
  "arg_octets a = (if a = 24 then 1 else if a = 25 then 2 else if a = 26 then 4 else 8)"

definition parse_head :: "bytes \<Rightarrow> nat \<Rightarrow> parsed_head" where
  "parse_head inp pos =
     (if length inp \<le> pos then empty_head
      else
        let ib = inp ! pos;
            h = empty_head\<lparr>mt := major_of (drop_bit 5 ib), ai := ib AND 31\<rparr>
        in
        if ib = break_byte then h\<lparr>is_break := True, head_length := 1\<rparr>
        else if ai h < 24 then h\<lparr>head_value := ucast (ai h), head_length := 1\<rparr>
        else if ai h = 31 then
          (let h' = h\<lparr>indefinite := True, head_length := 1\<rparr> in
           if mt h = major_uint \<or> mt h = major_nint \<or> mt h = major_tag
           then h'\<lparr>reserved := True\<rparr> else h')
        else if 28 \<le> ai h then h\<lparr>reserved := True, head_length := 1\<rparr>
        else
          let n = arg_octets (ai h) in
          if length inp < pos + 1 + n then h
          else h\<lparr>head_value := foldl (\<lambda>v i. push_bit 8 v OR ucast (inp ! (pos + 1 + i))) 0 [0..<n],
                 head_length := 1 + n\<rparr>)"

fun major_name :: "major \<Rightarrow> string" where
  "major_name major_uint = ''unsigned integer''"
| "major_name major_nint = ''negative integer''"
| "major_name major_bytes = ''byte string''"
| "major_name major_text = ''text string''"
| "major_name major_array = ''array''"
| "major_name major_map = ''map''"
| "major_name major_tag = ''tag''"
| "major_name major_simple = ''simple/float''"

definition tag_name :: "u64 \<Rightarrow> string" where
  "tag_name t =
     (if t = 0 then ''RFC 3339 string'' else if t = 1 then ''epoch datetime''
      else if t = 2 then ''positive bignum'' else if t = 3 then ''negative bignum''
      else if t = 4 then ''decimal fraction'' else if t = 5 then ''bigfloat''
      else if t = 21 then ''expected base64url'' else if t = 22 then ''expected base64''
      else if t = 23 then ''expected base16'' else if t = 24 then ''encoded CBOR''
      else if t = 32 then ''URI'' else if t = 33 then ''base64url'' else if t = 34 then ''base64''
      else if t = 36 then ''MIME message'' else if t = 55799 then ''self-described CBOR''
      else if 64 \<le> t \<and> t \<le> 87 then ''typed array'' else [])"

section \<open>The initial byte\<close>

definition lead :: "major \<Rightarrow> u8 \<Rightarrow> byte" where
  "lead m a = push_bit 5 (major_value m) OR a"

lemma lead_fields_check:
  "\<forall>n\<in>set [0..<32].
     (\<forall>m\<in>set [major_uint, major_nint, major_bytes, major_text, major_array, major_map, major_tag, major_simple].
        major_of (drop_bit 5 (lead m (of_nat n))) = m \<and> lead m (of_nat n) AND 31 = of_nat n
        \<and> (lead m (of_nat n) = break_byte \<longleftrightarrow> m = major_simple \<and> (of_nat n :: byte) = 31))"
  by code_simp

lemma lead_fields [simp, codec_simps]:
  assumes "a < 32"
  shows "major_of (drop_bit 5 (lead m a)) = m" "lead m a AND 31 = a"
    "lead m a = break_byte \<longleftrightarrow> m = major_simple \<and> a = 31"
proof -
  have "major_of (drop_bit 5 (lead m a)) = m \<and> lead m a AND 31 = a
      \<and> (lead m a = break_byte \<longleftrightarrow> m = major_simple \<and> a = 31)"
    using bspec [OF lead_fields_check, of "unat a"] assms by (cases m) (simp_all add: word_less_nat_alt)
  then show "major_of (drop_bit 5 (lead m a)) = m" "lead m a AND 31 = a"
    "lead m a = break_byte \<longleftrightarrow> m = major_simple \<and> a = 31"
    by blast+
qed

lemma lead_split_check:
  "\<forall>n\<in>set [0..<256]. lead (major_of (drop_bit 5 (of_nat n))) (of_nat n AND 31) = (of_nat n :: byte)
     \<and> (of_nat n :: byte) AND 31 < 32"
  by code_simp

lemma lead_split: "lead (major_of (drop_bit 5 b)) (b AND 31) = b" "b AND 31 < 32" for b :: byte
  using byte_exhaustive [OF lead_split_check, of b] by simp_all

lemma lead_order_check:
  "\<forall>n\<in>set [0..<32].
     (\<forall>m\<in>set [major_uint, major_nint, major_bytes, major_text, major_array, major_map, major_tag, major_simple].
        unat (lead m (of_nat n)) = 32 * unat (major_value m) + n)"
  by code_simp

lemma unat_lead:
  assumes "a < 32"
  shows "unat (lead m a) = 32 * unat (major_value m) + unat a"
  using bspec [OF lead_order_check, of "unat a"] assms by (cases m) (simp_all add: word_less_nat_alt)

lemma lead_less:
  assumes "a < 32" "b < 32"
  shows "lead m a < lead m b \<longleftrightarrow> a < b" "lead m a = lead m b \<longleftrightarrow> a = b"
  using assms by (simp_all add: word_less_nat_alt word_unat_eq_iff unat_lead)

text \<open>\<open>make_head\<close> by the width of its argument: the additional information and the octets after
  it.\<close>

definition head_ai :: "u64 \<Rightarrow> u8" where
  "head_ai v = (if v < 24 then ucast v else if v \<le> 0xFF then 24 else if v \<le> 0xFFFF then 25
     else if v \<le> 0xFFFFFFFF then 26 else 27)"

definition head_width :: "u64 \<Rightarrow> nat" where
  "head_width v = (if v < 24 then 0 else arg_octets (head_ai v))"

lemma small_ucast:
  assumes "v < (24 :: u64)"
  shows "unat (ucast v :: u8) = unat v" "(ucast v :: u8) < 24" "ucast (ucast v :: u8) = v"
proof -
  have v: "unat v < 24"
    using assms by (simp add: word_less_nat_alt)
  then show u: "unat (ucast v :: u8) = unat v"
    by (simp add: unat_ucast_u8)
  with v show "(ucast v :: u8) < 24"
    by (simp add: word_less_nat_alt)
  show "ucast (ucast v :: u8) = v"
    using u by (simp only: word_unat_eq_iff unat_ucast_byte)
qed

lemma head_ai_less: "head_ai v < 28"
proof (cases "v < 24")
  case True
  then show ?thesis
    using small_ucast [OF True] by (simp add: head_ai_def word_less_nat_alt)
qed (simp add: head_ai_def)

lemma head_ai_less32 [simp]: "head_ai v < 32"
  by (rule order.strict_trans [OF head_ai_less]) simp

lemma make_head_eq: "make_head m v = lead m (head_ai v) # be_bytes (head_width v) v"
proof -
  have "(ucast ((ucast (push_bit 5 (major_value m)) :: u64) OR v) :: u8) = lead m (ucast v)"
    unfolding lead_def by (rule bit_word_eqI) (auto simp: bit_simps)
  then show ?thesis
    by (simp add: make_head_def head_ai_def head_width_def arg_octets_def lead_def Let_def)
qed

lemma unat_bound_le: "v \<le> w \<Longrightarrow> unat v < Suc (unat w)" for v w :: u64
  by (simp add: word_le_nat_alt less_Suc_eq_le)

lemma head_width_fits: "24 \<le> v \<Longrightarrow> unat v < 256 ^ head_width v"
  using unat_bound_le [of v "0xFF"] unat_bound_le [of v "0xFFFF"] unat_bound_le [of v "0xFFFFFFFF"]
    unsigned_less [of v, where ?'a = nat]
  by (simp add: head_width_def head_ai_def arg_octets_def not_less [symmetric])

lemma head_width_le: "head_width v \<le> 8"
  by (simp add: head_width_def arg_octets_def)

lemma length_make_head [simp]: "length (make_head m v) = 1 + head_width v"
  by (simp add: make_head_eq)

lemma make_head_nonempty [simp]: "make_head m v \<noteq> []"
  by (simp add: make_head_eq)

lemma make_head_append_length: "1 \<le> length (make_head m v) \<and> length (make_head m v) \<le> 9"
  using head_width_le [of v] by simp

section \<open>Reading a head\<close>

lemma foldl_nth_be_value:
  assumes "pos + 1 + n \<le> length inp"
  shows "foldl (\<lambda>v i. push_bit 8 v OR ucast (inp ! (pos + 1 + i))) 0 [0..<n]
     = be_value (take n (drop (pos + 1) inp))"
proof -
  have "take n (drop (pos + 1) inp) = map (\<lambda>i. inp ! (pos + 1 + i)) [0..<n]"
    using assms by (intro nth_equalityI) simp_all
  then show ?thesis
    by (simp add: be_value_def foldl_map)
qed

text \<open>The head at a position depends on the octets from there on only.\<close>

lemma parse_head_drop: "parse_head inp pos = parse_head (drop pos inp) 0"
proof (cases "length inp \<le> pos")
  case True
  then show ?thesis by (simp add: parse_head_def)
next
  case False
  then have nth: "inp ! pos = drop pos inp ! 0"
    by simp
  have lt: "length inp < pos + 1 + n \<longleftrightarrow> length (drop pos inp) < 0 + 1 + n" for n
    using False by auto
  have fl: "foldl (\<lambda>v i. push_bit 8 v OR ucast (inp ! (pos + 1 + i))) (0 :: u64) [0..<n]
      = foldl (\<lambda>v i. push_bit 8 v OR ucast (drop pos inp ! (0 + 1 + i))) 0 [0..<n]"
    if "\<not> length inp < pos + 1 + n" for n
    using that by (intro foldl_cong) simp_all
  show ?thesis
    using False nth lt fl by (simp add: parse_head_def Let_def del: nth_drop length_drop)
qed

lemma parse_head_append: "parse_head (pre @ bs) (length pre) = parse_head bs 0"
  by (subst parse_head_drop) simp

lemma parse_head_lead:
  assumes "a < 28" "length arg = (if a < 24 then 0 else arg_octets a)"
  shows "parse_head (lead m a # arg @ rest) 0 =
    \<lparr>mt = m, ai = a, head_value = (if a < 24 then ucast a else be_value arg), indefinite = False,
     head_length = 1 + length arg, reserved = False, is_break = False\<rparr>"
proof -
  have a: "a < 32" "a \<noteq> 31" "\<not> 28 \<le> a"
    using assms(1) by (auto simp: word_less_nat_alt word_le_nat_alt)
  let ?n = "arg_octets a"
  have "foldl (\<lambda>v i. push_bit 8 v OR ucast ((lead m a # arg @ rest) ! (0 + 1 + i))) 0 [0..<?n]
      = be_value arg" if "\<not> a < 24"
    using that assms(2) by (subst foldl_nth_be_value) simp_all
  with a assms(2) show ?thesis
    by (simp add: parse_head_def Let_def empty_head_def)
qed

lemma parse_head_special:
  assumes "28 \<le> a" "a < 32" "lead m a \<noteq> break_byte"
  shows "parse_head (lead m a # rest) 0 =
    \<lparr>mt = m, ai = a, head_value = 0, indefinite = (a = 31), head_length = 1,
     reserved = (a \<noteq> 31 \<or> m = major_uint \<or> m = major_nint \<or> m = major_tag), is_break = False\<rparr>"
proof -
  have "\<not> a < 24"
    using assms(1) by (auto simp: word_less_nat_alt word_le_nat_alt)
  with assms show ?thesis
    by (auto simp: parse_head_def Let_def empty_head_def)
qed

lemma parse_make_head_aux:
  "parse_head (make_head m v @ rest) 0 =
    \<lparr>mt = m, ai = head_ai v, head_value = v, indefinite = False,
     head_length = length (make_head m v), reserved = False, is_break = False\<rparr>"
proof (cases "v < 24")
  case True
  with small_ucast [OF True] parse_head_lead [of "ucast v" "[]" m rest] show ?thesis
    by (simp add: make_head_eq head_ai_def head_width_def word_less_nat_alt)
next
  case False
  then have big: "\<not> head_ai v < 24" and w: "head_width v = arg_octets (head_ai v)"
    by (simp_all add: head_ai_def head_width_def)
  have "be_value (be_bytes (head_width v) v) = v"
    using False by (intro be_value_be_bytes head_width_le head_width_fits) (simp add: not_less)
  with big w parse_head_lead [OF head_ai_less [of v], of "be_bytes (head_width v) v" m rest] show ?thesis
    by (simp add: make_head_eq)
qed

lemma shortest_head_ai:
  "mt h = m \<Longrightarrow> ai h = head_ai v \<Longrightarrow> head_value h = v \<Longrightarrow> \<not> indefinite h \<Longrightarrow> \<not> reserved h
   \<Longrightarrow> \<not> is_break h \<Longrightarrow> shortest h"
  by (cases "v < 24") (auto simp: shortest_def head_ai_def small_ucast)

text \<open>The cases of a parsed head, by inversion of the definition.\<close>

lemma parse_head_cases:
  assumes "parse_head bs 0 = h" "head_length h \<noteq> 0"
  obtains (is_break_head) rest where "bs = break_byte # rest" "is_break h" "head_length h = 1"
      "\<not> indefinite h" "\<not> reserved h" "mt h = major_simple" "ai h = 31"
  | (argument) m a arg rest where "bs = lead m a # arg @ rest" "a < 28"
      "length arg = (if a < 24 then 0 else arg_octets a)"
      "h = \<lparr>mt = m, ai = a, head_value = (if a < 24 then ucast a else be_value arg),
        indefinite = False, head_length = 1 + length arg, reserved = False, is_break = False\<rparr>"
  | (special) m a rest where "bs = lead m a # rest" "28 \<le> a" "a < 32" "lead m a \<noteq> break_byte"
      "head_length h = 1" "mt h = m" "ai h = a" "head_value h = 0" "\<not> is_break h"
      "indefinite h \<longleftrightarrow> a = 31"
      "reserved h \<longleftrightarrow> a \<noteq> 31 \<or> m = major_uint \<or> m = major_nint \<or> m = major_tag"
proof -
  obtain b rest where bs: "bs = b # rest"
    using assms by (cases bs) (auto simp: parse_head_def empty_head_def)
  define m a where "m = major_of (drop_bit 5 b)" and "a = b AND 31"
  have b: "b = lead m a" and a: "a < 32"
    using lead_split [of b] by (simp_all add: m_def a_def)
  consider "b = break_byte" | "b \<noteq> break_byte" "a < 28" | "b \<noteq> break_byte" "28 \<le> a" by force
  then show thesis
  proof cases
    case 1
    then have "m = major_simple" "a = 31"
      using b a lead_fields(3) [of a m] by auto
    with 1 assms bs m_def a_def show thesis
      by (intro is_break_head) (auto simp: parse_head_def Let_def empty_head_def)
  next
    case 2
    define n where "n = (if a < 24 then 0 else arg_octets a)"
    have len: "n \<le> length rest"
    proof (rule ccontr)
      assume "\<not> n \<le> length rest"
      then have "\<not> a < 24" "length bs < 1 + arg_octets a"
        by (auto simp: n_def bs split: if_splits)
      moreover have "a \<noteq> 31" "\<not> 28 \<le> a"
        using 2 by auto
      ultimately have "head_length (parse_head bs 0) = 0"
        using 2 bs by (simp add: parse_head_def Let_def empty_head_def a_def)
      with assms show False by simp
    qed
    then have "bs = lead m a # take n rest @ drop n rest" "length (take n rest) = n"
      by (simp_all add: bs b)
    then show thesis
      using 2 parse_head_lead [of a "take n rest" m "drop n rest"] assms(1)
      by (intro argument [of m a "take n rest" "drop n rest"]) (simp_all add: n_def)
  next
    case 3
    then have "\<not> a < 24" by (auto simp: word_less_nat_alt word_le_nat_alt)
    then have "h = \<lparr>mt = m, ai = a, head_value = 0, indefinite = (a = 31), head_length = 1,
        reserved = (a \<noteq> 31 \<or> m = major_uint \<or> m = major_nint \<or> m = major_tag), is_break = False\<rparr>"
      using 3 a b assms(1) parse_head_special [of a m rest] by (simp add: bs)
    then show thesis
      using 3 a bs b by (intro special [of m a rest]) simp_all
  qed
qed

lemma parse_head_length_bound:
  "head_length (parse_head inp pos) \<noteq> 0 \<Longrightarrow> pos + head_length (parse_head inp pos) \<le> length inp"
proof -
  assume nz: "head_length (parse_head inp pos) \<noteq> 0"
  then have pos: "pos < length inp"
    by (cases "length inp \<le> pos") (auto simp: parse_head_def empty_head_def)
  define h where "h = parse_head (drop pos inp) 0"
  have "head_length h \<le> length (drop pos inp)"
  proof (cases rule: parse_head_cases [OF h_def [symmetric]])
    show "head_length h \<noteq> 0"
      using nz by (simp add: h_def parse_head_drop [of inp pos])
  qed simp_all
  with pos show ?thesis
    by (simp add: h_def parse_head_drop [of inp pos])
qed

text \<open>The value an argument of a given width denotes, bounded by the width.\<close>

lemma be_value_bound:
  assumes "length arg \<le> 8"
  shows "unat (be_value arg) < 256 ^ length arg"
  using assms be_nat_less [of arg] by (simp add: unat_be_value)

lemma shortest_make_head:
  assumes "length arg = (if a < 24 then 0 else arg_octets a)" "a < 28"
    "shortest \<lparr>mt = m, ai = a, head_value = (if a < 24 then ucast a else be_value arg),
        indefinite = False, head_length = 1 + length arg, reserved = False, is_break = False\<rparr>"
    "m \<noteq> major_simple"
  shows "make_head m (if a < 24 then ucast a else be_value arg) = lead m a # arg"
proof (cases "a < 24")
  case True
  have u: "unat (ucast a :: u64) = unat a"
    by (rule unat_ucast_byte)
  with True have lt: "(ucast a :: u64) < 24"
    by (simp add: word_less_nat_alt)
  have "(ucast (ucast a :: u64) :: u8) = a"
    using small_ucast(1) [OF lt] u by (simp only: word_unat_eq_iff)
  with True lt assms show ?thesis
    by (simp add: make_head_eq head_ai_def head_width_def)
next
  case False
  let ?v = "be_value arg"
  have len: "length arg = arg_octets a"
    using False assms by simp
  have "unat a \<in> {24, 25, 26, 27}"
    using False assms(2) by (auto simp: word_less_nat_alt)
  then have a: "a = 24 \<or> a = 25 \<or> a = 26 \<or> a = 27"
    by (auto simp: word_unat_eq_iff)
  have bnd: "unat ?v < 256 ^ arg_octets a"
    using be_value_bound [of arg] len by (simp add: arg_octets_def)
  have "head_ai ?v = a" "24 \<le> ?v"
    using a assms(3,4) bnd
    by (auto simp: head_ai_def shortest_def arg_octets_def word_less_nat_alt word_le_nat_alt)
  moreover have "be_bytes (arg_octets a) ?v = arg"
    using len bnd unat_be_value [of arg]
    by (intro be_nat_inject) (simp_all add: be_nat_be_bytes arg_octets_def)
  ultimately show ?thesis
    using False len by (simp add: make_head_eq head_width_def leD)
qed

text \<open>Arguments of the same major type: a longer form carries a larger argument.\<close>

lemma head_ai_mono: "v < w \<Longrightarrow> head_ai v < head_ai w \<or> head_ai v = head_ai w \<and> 24 \<le> v"
  by (auto simp: head_ai_def small_ucast word_less_nat_alt word_le_nat_alt not_less)

lemma make_head_less:
  assumes "v < w"
  shows "make_head m v < make_head m w"
proof -
  consider "head_ai v < head_ai w" | "head_ai v = head_ai w" "24 \<le> v"
    using head_ai_mono [OF assms] by blast
  then show ?thesis
  proof cases
    case 1
    then show ?thesis by (simp add: make_head_eq lead_less)
  next
    case 2
    then have "24 \<le> w" using assms by simp
    with 2 have width: "head_width w = head_width v" by (simp add: head_width_def leD)
    have "be_nat (be_bytes (head_width v) v) < be_nat (be_bytes (head_width v) w)"
      using assms head_width_fits [OF 2(2)] head_width_fits [OF \<open>24 \<le> w\<close>] width
      by (simp add: be_nat_be_bytes word_less_nat_alt)
    then have "be_bytes (head_width v) v < be_bytes (head_width v) w"
      by (simp add: be_nat_order)
    with 2 width show ?thesis by (simp add: make_head_eq)
  qed
qed

section \<open>Properties\<close>

text \<open>C16. Encode then decode: wherever in a buffer \<open>make_head m v\<close> stands, \<open>parse_head\<close> at that
  position returns the major type and the argument, consumes exactly the octets written, and
  reports an ordinary head (not a break, not reserved, not indefinite) in shortest form.\<close>

theorem parse_make_head:
  "let h = parse_head (pre @ make_head m v @ rest) (length pre) in
     mt h = m \<and> head_value h = v \<and> head_length h = length (make_head m v)
     \<and> \<not> indefinite h \<and> \<not> reserved h \<and> \<not> is_break h \<and> shortest h"
  by (simp add: parse_head_append parse_make_head_aux Let_def shortest_head_ai)

text \<open>C17. Shortest form is unique: when \<open>parse_head\<close> accepts a definite head of a major type other
  than simple/float and reports it as shortest, the octets it consumed are exactly what \<open>make_head\<close>
  writes for that major type and argument. (A head of major type 7 is not covered: the argument of a float is its
  payload, at the width it has.)\<close>

theorem shortest_head_unique:
  assumes "head_length (parse_head inp pos) \<noteq> 0" "shortest (parse_head inp pos)"
    "mt (parse_head inp pos) \<noteq> major_simple"
  shows "take (head_length (parse_head inp pos)) (drop pos inp)
     = make_head (mt (parse_head inp pos)) (head_value (parse_head inp pos))"
proof -
  define h where "h = parse_head (drop pos inp) 0"
  have h: "parse_head inp pos = h"
    by (simp add: h_def parse_head_drop [of inp pos])
  have nz: "head_length h \<noteq> 0" and sh: "shortest h" and ms: "mt h \<noteq> major_simple"
    using assms by (simp_all add: h)
  from h_def [symmetric] nz have "take (head_length h) (drop pos inp) = make_head (mt h) (head_value h)"
  proof (cases rule: parse_head_cases)
    case (argument m a arg rest)
    with sh ms have "make_head m (if a < 24 then ucast a else be_value arg) = lead m a # arg"
      by (intro shortest_make_head) simp_all
    with argument show ?thesis by simp
  qed (use sh in \<open>auto simp: shortest_def\<close>)
  then show ?thesis by (simp only: h)
qed

theorem shortest_head_unique_witness:
  "take 3 (drop 1 [0x00, 0x19, 0x01, 0x00, 0x07 :: byte]) = make_head major_uint 256"
  using shortest_head_unique [of "[0x00, 0x19, 0x01, 0x00, 0x07]" 1] by code_simp

text \<open>Canonical order is numeric order: for one major type, a smaller argument has the
  bytewise smaller shortest-form head. So sorting encoded unsigned keys sorts them by value.\<close>

theorem make_head_order: "make_head m v < make_head m w \<longleftrightarrow> v < w"
  using make_head_less [of v w m] make_head_less [of w v m] by (cases v w rule: linorder_cases) auto

text \<open>C18. A head never runs past the buffer: a nonzero length stays inside the input and is at
  most nine octets, and length zero, the caller's signal for truncation, means the position is at
  the end or the announced argument is cut off.\<close>

theorem parse_head_bounds:
  "(head_length (parse_head inp pos) \<noteq> 0 \<longrightarrow>
      pos + head_length (parse_head inp pos) \<le> length inp \<and> head_length (parse_head inp pos) \<le> 9)
   \<and> (head_length (parse_head inp pos) = 0 \<longleftrightarrow>
      length inp \<le> pos \<or> (24 \<le> inp ! pos AND 31 \<and> inp ! pos AND 31 \<le> 27
        \<and> length inp < pos + 1 + arg_octets (inp ! pos AND 31)))"
proof -
  have "head_length (parse_head inp pos) \<le> 9"
    by (simp add: parse_head_def Let_def empty_head_def arg_octets_def)
  moreover have "inp ! pos AND 31 \<noteq> 31 \<and> \<not> 28 \<le> inp ! pos AND 31 \<longleftrightarrow> inp ! pos AND 31 \<le> 27"
    by (auto simp: word_le_nat_alt word_unat_eq_iff)
  moreover have "inp ! pos = break_byte \<Longrightarrow> \<not> inp ! pos AND 31 \<le> 27"
    by (simp add: break_byte_def)
  ultimately show ?thesis
    using parse_head_length_bound [of inp pos]
    by (auto simp: parse_head_def Let_def empty_head_def not_less)
qed

theorem parse_head_bounds_witness:
  "1 + head_length (parse_head [0x00, 0x19, 0x01, 0x00] 1) \<le> 4"
  using parse_head_bounds [of "[0x00, 0x19, 0x01, 0x00]" 1] by code_simp

end
