(* ===== verification/Cbor_Options.thy ===== *)
theory Cbor_Options
  imports Vcodec_Prelude
begin

text \<open>
  The option structures: \<^verbatim>\<open>src/include/vcodec/options.hpp\<close> and
  \<^verbatim>\<open>src/include/vcodec/cbor/options.hpp\<close>. The template parameter \<^verbatim>\<open>Opts\<close> of the CBOR writer and
  reader is the argument \<open>opts\<close> of their operations.
\<close>

datatype duplicate_key_mode = last_wins | first_wins | duplicate_error

datatype error_mode = fail_fast | collect

datatype width = width_preferred | width_half | width_single | width_double

record cbor_options =
  o_deterministic :: bool
  o_indefinite :: bool
  o_floats :: width
  o_self_describe :: bool
  o_require_deterministic :: bool
  o_ignore_unknown_tags :: bool
  o_undefined_as_null :: bool
  o_accept_typed_arrays :: bool
  o_max_depth :: nat
  o_validate_utf8 :: bool
  o_duplicates :: duplicate_key_mode
  o_errors :: error_mode

definition default_options :: cbor_options where
  "default_options = \<lparr>o_deterministic = True, o_indefinite = False, o_floats = width_preferred,
     o_self_describe = False, o_require_deterministic = False, o_ignore_unknown_tags = True,
     o_undefined_as_null = True, o_accept_typed_arrays = True, o_max_depth = 256,
     o_validate_utf8 = True, o_duplicates = last_wins, o_errors = fail_fast\<rparr>"

definition with_type_determinism_encode :: "cbor_options \<Rightarrow> bool \<Rightarrow> cbor_options" where
  "with_type_determinism_encode opts det =
     (if det then opts\<lparr>o_deterministic := True, o_indefinite := False\<rparr> else opts)"

definition with_type_determinism :: "cbor_options \<Rightarrow> bool \<Rightarrow> cbor_options" where
  "with_type_determinism opts det = (if det then opts\<lparr>o_require_deterministic := True\<rparr> else opts)"

definition collecting :: "cbor_options \<Rightarrow> cbor_options" where
  "collecting opts = opts\<lparr>o_errors := collect\<rparr>"

text \<open>The assertion of the writer: indefinite lengths are not deterministic.\<close>

definition writer_options_ok :: "cbor_options \<Rightarrow> bool" where
  "writer_options_ok opts \<longleftrightarrow> \<not> (o_deterministic opts \<and> o_indefinite opts)"

end
