(* ===== verification/Cbor_Write.thy ===== *)
theory Cbor_Write
  imports Cbor_Head Cbor_Options Vcodec_Error Vcodec_Lower Vcodec_Float
begin

text \<open>
  \<^verbatim>\<open>src/include/vcodec/cbor/write.hpp\<close>: the CBOR sink. Its state is the output vector and a stack of
  open containers; under \<^verbatim>\<open>deterministic\<close> a map (to sort its entries) and an array of unknown
  length (to count its elements) are collected in the frame's body, and writing goes to the
  innermost buffered frame. The stack is a list with the innermost frame first. A throw of
  \<^verbatim>\<open>encode_error\<close> is the left summand; it ends the encoding.
\<close>

section \<open>State\<close>

record entry =
  e_start :: nat
  e_key_end :: nat

record frame =
  is_map :: bool
  buffered :: bool
  f_indefinite :: bool
  items :: nat
  body :: bytes
  entries :: "entry list"

record writer =
  out :: bytes
  frames :: "frame list"

definition new_frame :: "bool \<Rightarrow> bool \<Rightarrow> bool \<Rightarrow> frame" where
  "new_frame m b i = \<lparr>is_map = m, buffered = b, f_indefinite = i, items = 0, body = [], entries = []\<rparr>"

definition push_frame :: "bool \<Rightarrow> bool \<Rightarrow> bool \<Rightarrow> writer \<Rightarrow> writer" where
  "push_frame m b i w = w\<lparr>frames := new_frame m b i # frames w\<rparr>"

definition new_writer :: "bytes \<Rightarrow> writer" where
  "new_writer o0 = \<lparr>out = o0, frames = []\<rparr>"

section \<open>Output\<close>

text \<open>\<^verbatim>\<open>append\<close> to \<^verbatim>\<open>cur()\<close>: the body of the innermost buffered frame, or the output.\<close>

fun append_cur :: "bytes \<Rightarrow> frame list \<Rightarrow> bytes \<Rightarrow> frame list \<times> bytes" where
  "append_cur bs [] o0 = ([], o0 @ bs)"
| "append_cur bs (f # fs) o0 =
     (if buffered f then (f\<lparr>body := body f @ bs\<rparr> # fs, o0)
      else (case append_cur bs fs o0 of (fs', o1) \<Rightarrow> (f # fs', o1)))"

definition append :: "bytes \<Rightarrow> writer \<Rightarrow> writer" where
  "append bs w = (case append_cur bs (frames w) (out w) of (fs, o1) \<Rightarrow> w\<lparr>frames := fs, out := o1\<rparr>)"

definition put :: "byte \<Rightarrow> writer \<Rightarrow> writer" where
  "put b w = append [b] w"

definition head :: "major \<Rightarrow> u64 \<Rightarrow> writer \<Rightarrow> writer" where
  "head m v w = append (make_head m v) w"

definition item :: "writer \<Rightarrow> writer" where
  "item w = (case frames w of [] \<Rightarrow> w | f # fs \<Rightarrow> w\<lparr>frames := f\<lparr>items := items f + 1\<rparr> # fs\<rparr>)"

text \<open>Calling \<^verbatim>\<open>key_start\<close>, \<^verbatim>\<open>key_end\<close> or \<^verbatim>\<open>close\<close> with no open container is undefined in the source;
  here it leaves the state alone.\<close>

definition key_start :: "writer \<Rightarrow> writer" where
  "key_start w = (case frames w of [] \<Rightarrow> w
     | f # fs \<Rightarrow> if buffered f
         then w\<lparr>frames := f\<lparr>entries := entries f @ [\<lparr>e_start = length (body f), e_key_end = 0\<rparr>]\<rparr> # fs\<rparr> else w)"

definition key_end :: "writer \<Rightarrow> writer" where
  "key_end w = (case frames w of [] \<Rightarrow> w
     | f # fs \<Rightarrow> if buffered f
         then w\<lparr>frames := f\<lparr>entries := butlast (entries f) @ [last (entries f)\<lparr>e_key_end := length (body f)\<rparr>]\<rparr> # fs\<rparr>
         else w)"

definition depth_message :: "cbor_options \<Rightarrow> string" where
  "depth_message opts = ''nesting depth exceeds max_depth ('' @ dec_nat (o_max_depth opts)
     @ ''); a cycle through smart pointers is the usual cause''"

definition depth_throw :: "cbor_options \<Rightarrow> 'a encoded" where
  "depth_throw opts = Inl (mk_encode_error depth_exceeded (depth_message opts))"

definition open_container :: "cbor_options \<Rightarrow> major \<Rightarrow> nat option \<Rightarrow> bool \<Rightarrow> writer \<Rightarrow> writer encoded" where
  "open_container opts m n mp w =
     (if o_max_depth opts \<le> length (frames w) then depth_throw opts
      else if o_deterministic opts then
        (if mp \<or> n = None then Inr (push_frame mp True False w)
         else Inr (push_frame mp False False (head m (of_nat (the n)) w)))
      else if n \<noteq> None \<and> \<not> o_indefinite opts then
        Inr (push_frame mp False False (head m (of_nat (the n)) w))
      else Inr (push_frame mp False True (append (make_indefinite_head m) w)))"

text \<open>The slices of a buffered map's body, in order of insertion: start, end of key, end of entry.\<close>

record slice =
  s_start :: nat
  s_key_end :: nat
  s_end :: nat

definition slices_of :: "frame \<Rightarrow> slice list" where
  "slices_of f = map (\<lambda>i. \<lparr>s_start = e_start (entries f ! i), s_key_end = e_key_end (entries f ! i),
       s_end = (if i + 1 < length (entries f) then e_start (entries f ! (i + 1)) else length (body f))\<rparr>)
     [0..<length (entries f)]"

definition key_of :: "bytes \<Rightarrow> slice \<Rightarrow> bytes" where
  "key_of b s = take (s_key_end s - s_start s) (drop (s_start s) b)"

definition content_of :: "bytes \<Rightarrow> slice \<Rightarrow> bytes" where
  "content_of b s = take (s_end s - s_start s) (drop (s_start s) b)"

text \<open>\<^verbatim>\<open>std::stable_sort\<close> with \<^verbatim>\<open>std::lexicographical_compare\<close> of the keys is \<^const>\<open>sort_key\<close>; the
  loop then compares neighbours.\<close>

fun adjacent_equal :: "'a list \<Rightarrow> bool" where
  "adjacent_equal (x # y # ys) = (x = y \<or> adjacent_equal (y # ys))"
| "adjacent_equal _ = False"

definition duplicate_throw :: "'a encoded" where
  "duplicate_throw = Inl (mk_encode_error duplicate_key ''deterministic encoding forbids duplicate map keys'')"

definition close :: "writer \<Rightarrow> writer encoded" where
  "close w = (case frames w of [] \<Rightarrow> Inr w
     | f # fs \<Rightarrow>
       let w1 = w\<lparr>frames := fs\<rparr> in
       if f_indefinite f then Inr (put break_byte w1)
       else if \<not> buffered f then Inr w1
       else if is_map f then
         (let order = sort_key (key_of (body f)) (slices_of f) in
          if adjacent_equal (map (key_of (body f)) order) then duplicate_throw
          else Inr (fold (\<lambda>s. append (content_of (body f) s)) order (head major_map (of_nat (length order)) w1)))
       else Inr (append (body f) (head major_array (of_nat (items f)) w1)))"

section \<open>Scalars\<close>

definition check_utf8 :: "cbor_options \<Rightarrow> string \<Rightarrow> 'a \<Rightarrow> 'a encoded" where
  "check_utf8 opts t x = (if o_validate_utf8 opts then
       (case validate_utf8 t of None \<Rightarrow> Inr x
        | Some bad \<Rightarrow> Inl (mk_encode_error invalid_utf8 (''text string contains invalid UTF-8 at byte '' @ dec_nat bad)))
     else Inr x)"

text \<open>\<^verbatim>\<open>std::to_string(double)\<close> of a finite value: six decimals, rounded to nearest even.\<close>

definition six_digits :: "int \<Rightarrow> string" where
  "six_digits n = map (\<lambda>k. digit_char (n div 10 ^ k mod 10)) [5, 4, 3, 2, 1, 0]"

definition to_string_double :: "u64 \<Rightarrow> string" where
  "to_string_double d =
     (let n = dy_rne (d_sig d * 10 ^ 6) (d_exp d) in
      (if d_neg d then ''-'' else []) @ dec_digits (n div 10 ^ 6) @ ''.'' @ six_digits (n mod 10 ^ 6))"

definition be16 :: "u16 \<Rightarrow> bytes" where "be16 v = be_bytes 2 (ucast v)"
definition be32 :: "u32 \<Rightarrow> bytes" where "be32 v = be_bytes 4 (ucast v)"
definition be64 :: "u64 \<Rightarrow> bytes" where "be64 v = be_bytes 8 v"

text \<open>The largest finite float as a double, for the check of a pinned single width.\<close>

definition float_max :: int where "float_max = 0x47EFFFFFE0000000"

definition write_real :: "u64 \<Rightarrow> width \<Rightarrow> bytes encoded" where
  "write_real d wd = (case wd of
     width_preferred \<Rightarrow> Inr (case to_half d of Some h \<Rightarrow> 0xF9 # be16 h
       | None \<Rightarrow> if fits_single d then 0xFA # be32 (to_float d) else 0xFB # be64 d)
   | width_half \<Rightarrow> if is_finite d \<and> dy_le 65520 (d_sig d) (d_exp d)
       then Inl (mk_encode_error out_of_range (''value '' @ to_string_double d
         @ '' does not fit a half-precision float ([[=cbor::float_width(half)]])''))
       else Inr (0xF9 # be16 (to_half_rounded d))
   | width_single \<Rightarrow> if is_finite d \<and> float_max < d_mag d
       then Inl (mk_encode_error out_of_range (''value '' @ to_string_double d
         @ '' does not fit a single-precision float ([[=cbor::float_width(single)]])''))
       else Inr (0xFA # be32 (to_float d))
   | width_double \<Rightarrow> Inr (0xFB # be64 d))"

text \<open>\<^verbatim>\<open>chunk_size\<close> and the chunk loop of an indefinite-length string.\<close>

definition chunk_size :: nat where "chunk_size = 4096"

function chunks :: "major \<Rightarrow> bytes \<Rightarrow> bytes" where
  "chunks m [] = []"
| "chunks m (b # bs) = (let n = min chunk_size (length (b # bs)) in
     make_head m (of_nat n) @ take n (b # bs) @ chunks m (drop n (b # bs)))"
  by pat_completeness auto
termination
  by (relation "measure (\<lambda>(m, bs). length bs)") (auto simp: chunk_size_def)

section \<open>The sink interface\<close>

text \<open>One constructor per call of \<^verbatim>\<open>core::sink\<close> and of the hooks; \<open>ann\<close> is the member's
  \<^verbatim>\<open>[[=cbor::indefinite]]\<close> annotation. A typed array is given by its RFC 8746 tag and the
  memory image of its elements.\<close>

datatype sink_call =
    s_null
  | s_boolean bool
  | s_uint u64
  | s_sint u64
  | s_negative u64
  | s_real u64
  | s_real_width u64 width
  | s_text string
  | s_text_field bool string
  | s_bytes bytes
  | s_bytes_field bool bytes
  | s_begin_array "nat option"
  | s_begin_array_field bool "nat option"
  | s_end_array
  | s_begin_map "nat option"
  | s_begin_map_field bool "nat option"
  | s_begin_map_ordered "nat option"
  | s_end_map
  | s_key_text string
  | s_key_uint u64
  | s_key_sint u64
  | s_begin_key
  | s_end_key
  | s_tag u64
  | s_simple u8
  | s_write_range u64 bytes
  | s_prepared_text string
  | s_prepared_int u64

definition w_sint :: "u64 \<Rightarrow> writer \<Rightarrow> writer" where
  "w_sint i w = (if 0 \<le> sint i then head major_uint i w else head major_nint (- 1 - i) w)"

definition w_text :: "cbor_options \<Rightarrow> string \<Rightarrow> writer \<Rightarrow> writer encoded" where
  "w_text opts t w = (case check_utf8 opts t () of Inl e \<Rightarrow> Inl e
     | Inr _ \<Rightarrow> Inr (append (bytes_of_string t) (head major_text (of_nat (length t)) (item w))))"

definition w_bytes :: "bytes \<Rightarrow> writer \<Rightarrow> writer" where
  "w_bytes b w = append b (head major_bytes (of_nat (length b)) (item w))"

definition w_text_field :: "cbor_options \<Rightarrow> bool \<Rightarrow> string \<Rightarrow> writer \<Rightarrow> writer encoded" where
  "w_text_field opts ann t w =
     (if ann \<and> \<not> o_deterministic opts then
        (case check_utf8 opts t () of Inl e \<Rightarrow> Inl e
         | Inr _ \<Rightarrow> Inr (put break_byte (append (chunks major_text (bytes_of_string t)) (put 0x7F (item w)))))
      else w_text opts t w)"

definition w_bytes_field :: "cbor_options \<Rightarrow> bool \<Rightarrow> bytes \<Rightarrow> writer \<Rightarrow> writer" where
  "w_bytes_field opts ann b w =
     (if ann \<and> \<not> o_deterministic opts then put break_byte (append (chunks major_bytes b) (put 0x5F (item w)))
      else w_bytes b w)"

definition w_begin_map_ordered :: "cbor_options \<Rightarrow> nat option \<Rightarrow> writer \<Rightarrow> writer encoded" where
  "w_begin_map_ordered opts n w0 =
     (let w = item w0 in
      case n of
        Some k \<Rightarrow> if o_deterministic opts \<or> \<not> o_indefinite opts then
            (if o_max_depth opts \<le> length (frames w) then depth_throw opts
             else Inr (push_frame True False False (head major_map (of_nat k) w)))
          else open_container opts major_map n True w
      | None \<Rightarrow> open_container opts major_map n True w)"

definition w_key_text :: "cbor_options \<Rightarrow> string \<Rightarrow> writer \<Rightarrow> writer encoded" where
  "w_key_text opts k w = (case check_utf8 opts k () of Inl e \<Rightarrow> Inl e
     | Inr _ \<Rightarrow> Inr (key_end (append (bytes_of_string k) (head major_text (of_nat (length k)) (key_start w)))))"

definition w_simple :: "u8 \<Rightarrow> writer \<Rightarrow> writer encoded" where
  "w_simple v w =
     (if 20 \<le> v \<and> v \<le> 31 then
        Inl (mk_encode_error unsupported_simple_value
          (''simple value '' @ dec_digits (uint v) @ '' is reserved or has its own representation''))
      else Inr (if v < 24 then put (0xE0 OR v) (item w) else put v (put 0xF8 (item w))))"

definition w_write_range :: "u64 \<Rightarrow> bytes \<Rightarrow> writer \<Rightarrow> writer" where
  "w_write_range t raw w = append raw (head major_bytes (of_nat (length raw)) (head major_tag t (item w)))"

definition prepared_key :: "bytes \<Rightarrow> writer \<Rightarrow> writer" where
  "prepared_key blob w = key_end (append blob (key_start w))"

fun sink_step :: "cbor_options \<Rightarrow> sink_call \<Rightarrow> writer \<Rightarrow> writer encoded" where
  "sink_step opts s_null w = Inr (put 0xF6 (item w))"
| "sink_step opts (s_boolean b) w = Inr (put (if b then 0xF5 else 0xF4) (item w))"
| "sink_step opts (s_uint u) w = Inr (head major_uint u (item w))"
| "sink_step opts (s_sint i) w = Inr (w_sint i (item w))"
| "sink_step opts (s_negative n) w = Inr (head major_nint n (item w))"
| "sink_step opts (s_real d) w = (case write_real d (o_floats opts) of Inl e \<Rightarrow> Inl e | Inr bs \<Rightarrow> Inr (append bs (item w)))"
| "sink_step opts (s_real_width d wd) w = (case write_real d wd of Inl e \<Rightarrow> Inl e | Inr bs \<Rightarrow> Inr (append bs (item w)))"
| "sink_step opts (s_text t) w = w_text opts t w"
| "sink_step opts (s_text_field ann t) w = w_text_field opts ann t w"
| "sink_step opts (s_bytes b) w = Inr (w_bytes b w)"
| "sink_step opts (s_bytes_field ann b) w = Inr (w_bytes_field opts ann b w)"
| "sink_step opts (s_begin_array n) w = open_container opts major_array n False (item w)"
| "sink_step opts (s_begin_array_field ann n) w =
     open_container opts major_array (if ann \<and> \<not> o_deterministic opts then None else n) False (item w)"
| "sink_step opts s_end_array w = close w"
| "sink_step opts (s_begin_map n) w = open_container opts major_map n True (item w)"
| "sink_step opts (s_begin_map_field ann n) w =
     open_container opts major_map (if ann \<and> \<not> o_deterministic opts then None else n) True (item w)"
| "sink_step opts (s_begin_map_ordered n) w = w_begin_map_ordered opts n w"
| "sink_step opts s_end_map w = close w"
| "sink_step opts (s_key_text k) w = w_key_text opts k w"
| "sink_step opts (s_key_uint k) w = Inr (key_end (head major_uint k (key_start w)))"
| "sink_step opts (s_key_sint k) w = Inr (key_end (w_sint k (key_start w)))"
| "sink_step opts s_begin_key w = Inr (key_start w)"
| "sink_step opts s_end_key w = Inr (key_end w)"
| "sink_step opts (s_tag t) w = Inr (head major_tag t w)"
| "sink_step opts (s_simple v) w = w_simple v w"
| "sink_step opts (s_write_range t raw) w = Inr (w_write_range t raw w)"
| "sink_step opts (s_prepared_text name) w = Inr (prepared_key (encode_text_key name) w)"
| "sink_step opts (s_prepared_int k) w = Inr (prepared_key (encode_int_key k) w)"

text \<open>A sequence of calls, as \<^verbatim>\<open>core::encode\<close> issues them; the first throw ends it.\<close>

fun run_sink :: "cbor_options \<Rightarrow> sink_call list \<Rightarrow> writer \<Rightarrow> writer encoded" where
  "run_sink opts [] w = Inr w"
| "run_sink opts (c # cs) w = (case sink_step opts c w of Inl e \<Rightarrow> Inl e | Inr w' \<Rightarrow> run_sink opts cs w')"

definition self_describe_tag :: u64 where "self_describe_tag = 55799"

text \<open>\<^verbatim>\<open>encode_append\<close>: the type's determinism overrides the options, the self-describe tag comes
  first, then the calls.\<close>

definition encode_append :: "cbor_options \<Rightarrow> bool \<Rightarrow> bool \<Rightarrow> sink_call list \<Rightarrow> bytes \<Rightarrow> bytes encoded" where
  "encode_append opts det self calls o0 =
     (let opts' = with_type_determinism_encode opts det;
          o1 = (if o_self_describe opts' \<or> self then append_head o0 major_tag self_describe_tag else o0)
      in case run_sink opts' calls (new_writer o1) of Inl e \<Rightarrow> Inl e | Inr w \<Rightarrow> Inr (out w))"

end
