(* ===== verification/Cbor_Encode.thy ===== *)
theory Cbor_Encode
  imports Cbor_Write "HOL-Library.Multiset"
begin

text \<open>
  What the CBOR sink promises: an abstract data item, the calls that describe it, and a recursive
  reference encoder with its failures. The stack machine of \<open>Cbor_Write\<close> refines the reference: the
  calls of an item append exactly its encoding to the current buffer, or throw exactly its error.
\<close>

section \<open>Data items\<close>

text \<open>A run-time map announces its size or not; a struct's map is announced as ordered.\<close>

datatype map_kind = map_sized | map_unsized | map_ordered

datatype citem =
    CNull
  | CBool bool
  | CUint u64
  | CNint u64
  | CReal u64
  | CText string
  | CBytes bytes
  | CSimple u8
  | CTag u64 citem
  | CArray bool "citem list"
  | CMap map_kind "(citem \<times> citem) list"

fun begin_map_call :: "map_kind \<Rightarrow> nat \<Rightarrow> sink_call" where
  "begin_map_call map_sized n = s_begin_map (Some n)"
| "begin_map_call map_unsized n = s_begin_map None"
| "begin_map_call map_ordered n = s_begin_map_ordered (Some n)"

fun key_is_call :: "citem \<Rightarrow> sink_call option" where
  "key_is_call (CText t) = Some (s_key_text t)"
| "key_is_call (CUint u) = Some (s_key_uint u)"
| "key_is_call (CNint n) = (if sint (- 1 - n) < 0 then Some (s_key_sint (- 1 - n)) else None)"
| "key_is_call _ = None"

function (sequential) calls_of :: "citem \<Rightarrow> sink_call list"
  and calls_list :: "citem list \<Rightarrow> sink_call list"
  and calls_entries :: "(citem \<times> citem) list \<Rightarrow> sink_call list" where
  "calls_of CNull = [s_null]"
| "calls_of (CBool b) = [s_boolean b]"
| "calls_of (CUint u) = [s_uint u]"
| "calls_of (CNint n) = [s_negative n]"
| "calls_of (CReal d) = [s_real d]"
| "calls_of (CText t) = [s_text t]"
| "calls_of (CBytes b) = [s_bytes b]"
| "calls_of (CSimple v) = [s_simple v]"
| "calls_of (CTag t x) = s_tag t # calls_of x"
| "calls_of (CArray sized xs) =
     s_begin_array (if sized then Some (length xs) else None) # calls_list xs @ [s_end_array]"
| "calls_of (CMap kd es) = begin_map_call kd (length es) # calls_entries es @ [s_end_map]"
| "calls_list [] = []"
| "calls_list (x # xs) = calls_of x @ calls_list xs"
| "calls_entries [] = []"
| "calls_entries ((k, v) # es) =
     (case key_is_call k of Some c \<Rightarrow> [c] | None \<Rightarrow> s_begin_key # calls_of k @ [s_end_key])
     @ calls_of v @ calls_entries es"
  by pat_completeness auto
termination
  by (relation "measure (case_sum size (case_sum (size_list size) (size_list (size_prod size size))))") auto

section \<open>The reference encoder\<close>

definition pair_bytes :: "bytes \<times> bytes \<Rightarrow> bytes" where
  "pair_bytes kv = fst kv @ snd kv"

definition canonical_entries :: "(bytes \<times> bytes) list \<Rightarrow> (bytes \<times> bytes) list" where
  "canonical_entries kvs = sort_key fst kvs"

definition container :: "bool \<Rightarrow> major \<Rightarrow> nat \<Rightarrow> bytes \<Rightarrow> bytes" where
  "container definite m n payload =
     (if definite then make_head m (of_nat n) @ payload
      else make_indefinite_head m @ payload @ [break_byte])"

definition assemble_map :: "cbor_options \<Rightarrow> map_kind \<Rightarrow> (bytes \<times> bytes) list \<Rightarrow> bytes encoded" where
  "assemble_map opts kd kvs =
     (if o_deterministic opts \<and> kd \<noteq> map_ordered then
        (if \<not> distinct (map fst kvs) then duplicate_throw
         else Inr (container True major_map (length kvs) (concat (map pair_bytes (canonical_entries kvs)))))
      else Inr (container (o_deterministic opts \<or> kd \<noteq> map_unsized \<and> \<not> o_indefinite opts) major_map (length kvs)
        (concat (map pair_bytes kvs))))"

definition simple_bytes :: "u8 \<Rightarrow> bytes encoded" where
  "simple_bytes v =
     (if 20 \<le> v \<and> v \<le> 31 then
        Inl (mk_encode_error unsupported_simple_value
          (''simple value '' @ dec_digits (uint v) @ '' is reserved or has its own representation''))
      else Inr (if v < 24 then [0xE0 OR v] else [0xF8, v]))"

function (sequential) enc :: "cbor_options \<Rightarrow> nat \<Rightarrow> citem \<Rightarrow> bytes encoded"
  and enc_list :: "cbor_options \<Rightarrow> nat \<Rightarrow> citem list \<Rightarrow> bytes list encoded"
  and enc_entries :: "cbor_options \<Rightarrow> nat \<Rightarrow> (citem \<times> citem) list \<Rightarrow> (bytes \<times> bytes) list encoded" where
  "enc opts d CNull = Inr [0xF6]"
| "enc opts d (CBool b) = Inr [if b then 0xF5 else 0xF4]"
| "enc opts d (CUint u) = Inr (make_head major_uint u)"
| "enc opts d (CNint n) = Inr (make_head major_nint n)"
| "enc opts d (CReal r) = write_real r (o_floats opts)"
| "enc opts d (CText t) = check_utf8 opts t (make_head major_text (of_nat (length t)) @ bytes_of_string t)"
| "enc opts d (CBytes b) = Inr (make_head major_bytes (of_nat (length b)) @ b)"
| "enc opts d (CSimple v) = simple_bytes v"
| "enc opts d (CTag t x) =
     (case enc opts d x of Inl e \<Rightarrow> Inl e | Inr bs \<Rightarrow> Inr (make_head major_tag t @ bs))"
| "enc opts d (CArray sized xs) =
     (if o_max_depth opts \<le> d then depth_throw opts
      else case enc_list opts (Suc d) xs of Inl e \<Rightarrow> Inl e
        | Inr bss \<Rightarrow> Inr (container (o_deterministic opts \<or> sized \<and> \<not> o_indefinite opts) major_array (length xs) (concat bss)))"
| "enc opts d (CMap kd es) =
     (if o_max_depth opts \<le> d then depth_throw opts
      else case enc_entries opts (Suc d) es of Inl e \<Rightarrow> Inl e | Inr kvs \<Rightarrow> assemble_map opts kd kvs)"
| "enc_list opts d [] = Inr []"
| "enc_list opts d (x # xs) =
     (case enc opts d x of Inl e \<Rightarrow> Inl e
      | Inr b \<Rightarrow> (case enc_list opts d xs of Inl e \<Rightarrow> Inl e | Inr bs \<Rightarrow> Inr (b # bs)))"
| "enc_entries opts d [] = Inr []"
| "enc_entries opts d ((k, v) # es) =
     (case enc opts d k of Inl e \<Rightarrow> Inl e
      | Inr kb \<Rightarrow> (case enc opts d v of Inl e \<Rightarrow> Inl e
         | Inr vb \<Rightarrow> (case enc_entries opts d es of Inl e \<Rightarrow> Inl e | Inr kvs \<Rightarrow> Inr ((kb, vb) # kvs))))"
  by pat_completeness auto
termination
  by (relation "measure (case_sum (\<lambda>(_, _, x). size x) (case_sum (\<lambda>(_, _, xs). size_list size xs)
      (\<lambda>(_, _, es). size_list (size_prod size size) es)))") auto

section \<open>The stack of frames\<close>

definition with_frame :: "frame \<Rightarrow> writer \<Rightarrow> writer" where
  "with_frame f w = w\<lparr>frames := f # frames w\<rparr>"

lemma push_frame_with: "push_frame m b i w = with_frame (new_frame m b i) w"
  by (simp add: push_frame_def with_frame_def)

lemma append_append [simp]: "append b (append a w) = append (a @ b) w"
proof -
  have "append_cur b (fst (append_cur a fs o0)) (snd (append_cur a fs o0)) = append_cur (a @ b) fs o0" for fs o0
    by (induction a fs o0 rule: append_cur.induct) (auto split: prod.splits)
  then show ?thesis by (simp add: append_def split: prod.splits) (metis fst_conv snd_conv prod.inject)
qed

lemma append_Nil [simp]: "append [] w = w"
proof -
  have "append_cur [] fs o0 = (fs, o0)" for fs o0
    by (induction "[] :: bytes" fs o0 rule: append_cur.induct) auto
  then show ?thesis by (simp add: append_def)
qed

lemma length_frames_append [simp]: "length (frames (append bs w)) = length (frames w)"
proof -
  have "length (fst (append_cur bs fs o0)) = length fs" for fs o0
    by (induction bs fs o0 rule: append_cur.induct) (auto split: prod.splits)
  then show ?thesis by (simp add: append_def split: prod.splits) (metis fst_conv)
qed

lemma append_with_frame [simp]:
  "append bs (with_frame f w) =
     (if buffered f then with_frame (f\<lparr>body := body f @ bs\<rparr>) w else with_frame f (append bs w))"
  by (simp add: append_def with_frame_def split: prod.splits)

lemma item_with_frame [simp]: "item (with_frame f w) = with_frame (f\<lparr>items := items f + 1\<rparr>) w"
  by (simp add: item_def with_frame_def)

lemma length_frames_with_frame [simp]: "length (frames (with_frame f w)) = Suc (length (frames w))"
  by (simp add: with_frame_def)

lemma length_frames_item [simp]: "length (frames (item w)) = length (frames w)"
  by (simp add: item_def split: list.splits)

lemma writer_cases: "(frames w = [] \<Longrightarrow> P) \<Longrightarrow> (\<And>f v. w = with_frame f v \<Longrightarrow> P) \<Longrightarrow> P"
proof (cases "frames w")
  case (Cons f fs)
  then have "w = with_frame f (w\<lparr>frames := fs\<rparr>)" by (simp add: with_frame_def)
  then show "(\<And>f v. w = with_frame f v \<Longrightarrow> P) \<Longrightarrow> P" by blast
qed simp

lemma item_append [simp]: "item (append bs w) = append bs (item w)"
proof (rule writer_cases [of w])
  show "frames w = [] \<Longrightarrow> item (append bs w) = append bs (item w)" by (simp add: item_def append_def)
  show "w = with_frame f v \<Longrightarrow> item (append bs w) = append bs (item w)" for f v by (cases f) simp
qed

lemma head_append [simp]: "head m v w = append (make_head m v) w" "put b w = append [b] w"
  by (simp_all add: head_def put_def)

lemma key_start_with_frame [simp]:
  "key_start (with_frame f w) = (if buffered f
     then with_frame (f\<lparr>entries := entries f @ [\<lparr>e_start = length (body f), e_key_end = 0\<rparr>]\<rparr>) w else with_frame f w)"
  by (simp add: key_start_def with_frame_def)

lemma key_end_with_frame [simp]:
  "key_end (with_frame f w) = (if buffered f
     then with_frame (f\<lparr>entries := butlast (entries f) @ [last (entries f)\<lparr>e_key_end := length (body f)\<rparr>]\<rparr>) w
     else with_frame f w)"
  by (simp add: key_end_def with_frame_def)

lemma frames_out_with [simp]: "(with_frame f w)\<lparr>frames := frames w\<rparr> = w"
  by (simp add: with_frame_def)

lemma fold_append: "fold (\<lambda>x. append (g x)) xs w = append (concat (map g xs)) w"
  by (induction xs arbitrary: w) simp_all

lemma close_with_frame:
  "close (with_frame f w) =
     (if f_indefinite f then Inr (append [break_byte] w)
      else if \<not> buffered f then Inr w
      else if is_map f then
        (let order = sort_key (key_of (body f)) (slices_of f) in
         if adjacent_equal (map (key_of (body f)) order) then duplicate_throw
         else Inr (append (make_head major_map (of_nat (length order)) @ concat (map (content_of (body f)) order)) w))
      else Inr (append (make_head major_array (of_nat (items f)) @ body f) w))"
  by (simp add: close_def with_frame_def Let_def fold_append)

lemma run_sink_append: "run_sink opts (cs @ ds) w = (case run_sink opts cs w of Inl e \<Rightarrow> Inl e | Inr w' \<Rightarrow> run_sink opts ds w')"
  by (induction cs arbitrary: w) (auto split: sum.splits)

section \<open>Buffered maps\<close>

text \<open>The entry table of a buffered map: the offsets of its keys and values in the body.\<close>

fun entry_table :: "nat \<Rightarrow> (bytes \<times> bytes) list \<Rightarrow> entry list" where
  "entry_table n [] = []"
| "entry_table n ((k, v) # kvs) =
     \<lparr>e_start = n, e_key_end = n + length k\<rparr> # entry_table (n + length k + length v) kvs"

lemma length_entry_table [simp]: "length (entry_table n kvs) = length kvs"
  by (induction n kvs rule: entry_table.induct) simp_all

lemma nth_entry_table:
  "i < length kvs \<Longrightarrow> entry_table n kvs ! i =
     (let s = n + length (concat (map pair_bytes (take i kvs)))
      in \<lparr>e_start = s, e_key_end = s + length (fst (kvs ! i))\<rparr>)"
proof (induction n kvs arbitrary: i rule: entry_table.induct)
  case (2 n k v kvs)
  then show ?case by (cases i) (simp_all add: Let_def pair_bytes_def)
qed simp

lemma slices_of_table:
  assumes "body f = concat (map pair_bytes kvs)" "entries f = entry_table 0 kvs"
  shows "map (\<lambda>s. (key_of (body f) s, content_of (body f) s)) (slices_of f) = map (\<lambda>kv. (fst kv, pair_bytes kv)) kvs"
proof (rule nth_equalityI)
  show "length (map (\<lambda>s. (key_of (body f) s, content_of (body f) s)) (slices_of f))
      = length (map (\<lambda>kv. (fst kv, pair_bytes kv)) kvs)"
    by (simp add: slices_of_def assms)
next
  fix i assume "i < length (map (\<lambda>s. (key_of (body f) s, content_of (body f) s)) (slices_of f))"
  then have i: "i < length kvs" by (simp add: slices_of_def assms)
  have len: "length (slices_of f) = length kvs" by (simp add: slices_of_def assms)
  let ?pre = "concat (map pair_bytes (take i kvs))"
  let ?s = "slices_of f ! i"
  have kvs: "kvs = take i kvs @ kvs ! i # drop (Suc i) kvs" using i by (rule id_take_nth_drop)
  have bd: "body f = ?pre @ pair_bytes (kvs ! i) @ concat (map pair_bytes (drop (Suc i) kvs))"
    unfolding assms(1) by (subst kvs) simp
  have "s_start ?s = length ?pre \<and> s_key_end ?s = length ?pre + length (fst (kvs ! i))
      \<and> s_end ?s = length ?pre + length (pair_bytes (kvs ! i))"
  proof (cases "Suc i < length kvs")
    case True
    then show ?thesis using i
      by (simp add: slices_of_def assms(2) nth_entry_table Let_def take_Suc_conv_app_nth)
  next
    case False
    with i have "drop (Suc i) kvs = []" by simp
    with False i bd show ?thesis by (simp add: slices_of_def assms(2) nth_entry_table Let_def)
  qed
  then have st: "s_start ?s = length ?pre" "s_key_end ?s = length ?pre + length (fst (kvs ! i))"
    "s_end ?s = length ?pre + length (pair_bytes (kvs ! i))" by blast+
  have "key_of (body f) ?s = fst (kvs ! i)" "content_of (body f) ?s = pair_bytes (kvs ! i)"
    unfolding key_of_def content_of_def st bd by (simp_all add: pair_bytes_def)
  then show "map (\<lambda>s. (key_of (body f) s, content_of (body f) s)) (slices_of f) ! i
      = map (\<lambda>kv. (fst kv, pair_bytes kv)) kvs ! i"
    using i len by simp
qed

lemma map_insort_key: "map g (insort_key (\<lambda>x. h (g x)) x xs) = insort_key h (g x) (map g xs)"
  by (induction xs) simp_all

lemma map_sort_key: "map g (sort_key (\<lambda>x. h (g x)) xs) = sort_key h (map g xs)"
  by (induction xs) (simp_all add: map_insort_key)

lemma adjacent_equal_sorted: "sorted xs \<Longrightarrow> adjacent_equal xs \<longleftrightarrow> \<not> distinct xs"
proof (induction xs rule: adjacent_equal.induct)
  case (1 x y ys)
  then have "adjacent_equal (x # y # ys) \<longleftrightarrow> x = y \<or> \<not> distinct (y # ys)" by simp
  also have "\<dots> \<longleftrightarrow> \<not> distinct (x # y # ys)" using 1(2) by auto
  finally show ?case .
qed simp_all

lemma map_fst_canonical: "map fst (canonical_entries kvs) = sort (map fst kvs)"
  unfolding canonical_entries_def using map_sort_key [of fst "\<lambda>k. k" kvs] by simp

lemma length_canonical [simp]: "length (canonical_entries kvs) = length kvs"
  by (simp add: canonical_entries_def)

text \<open>Closing a buffered map writes the canonical entries, or throws on equal keys.\<close>

lemma close_buffered_map:
  assumes "body f = concat (map pair_bytes kvs)" "entries f = entry_table 0 kvs"
    "buffered f" "is_map f" "\<not> f_indefinite f"
  shows "close (with_frame f w) =
    (if \<not> distinct (map fst kvs) then duplicate_throw
     else Inr (append (container True major_map (length kvs) (concat (map pair_bytes (canonical_entries kvs)))) w))"
proof -
  let ?kc = "\<lambda>s. (key_of (body f) s, content_of (body f) s)"
  define order where "order = sort_key (key_of (body f)) (slices_of f)"
  have "map ?kc order = sort_key fst (map ?kc (slices_of f))"
    unfolding order_def using map_sort_key [of ?kc fst "slices_of f"] by simp
  also have "\<dots> = map (\<lambda>kv. (fst kv, pair_bytes kv)) (canonical_entries kvs)"
    unfolding slices_of_table [OF assms(1,2)] canonical_entries_def
    using map_sort_key [of "\<lambda>kv. (fst kv, pair_bytes kv)" fst kvs] by simp
  finally have m: "map ?kc order = map (\<lambda>kv. (fst kv, pair_bytes kv)) (canonical_entries kvs)" .
  from arg_cong [OF m, of "map fst"] have keys: "map (key_of (body f)) order = sort (map fst kvs)"
    by (simp add: comp_def map_fst_canonical [symmetric])
  from arg_cong [OF m, of "map snd"] have conts: "map (content_of (body f)) order = map pair_bytes (canonical_entries kvs)"
    by (simp add: comp_def)
  have "length order = length kvs" using arg_cong [OF m, of length] by simp
  with keys conts assms(3-5) show ?thesis
    by (simp add: close_with_frame order_def [symmetric] Let_def adjacent_equal_sorted container_def)
qed

section \<open>Refinement\<close>

fun key_items :: "citem \<Rightarrow> nat" where
  "key_items k = (case key_is_call k of Some _ \<Rightarrow> 0 | None \<Rightarrow> 1)"

declare key_items.simps [simp del]

definition entry_items :: "(citem \<times> citem) list \<Rightarrow> nat" where
  "entry_items es = sum_list (map (\<lambda>(k, v). Suc (key_items k)) es)"

definition bump :: "nat \<Rightarrow> writer \<Rightarrow> writer" where
  "bump n w = (item ^^ n) w"

text \<open>The state of a map's frame after some of its entries.\<close>

definition after_entries :: "nat \<Rightarrow> (bytes \<times> bytes) list \<Rightarrow> frame \<Rightarrow> frame" where
  "after_entries n kvs f = f\<lparr>items := items f + n, body := body f @ concat (map pair_bytes kvs),
     entries := entries f @ entry_table (length (body f)) kvs\<rparr>"

definition emit :: "bytes \<Rightarrow> writer \<Rightarrow> writer" where
  "emit bs w = append bs (item w)"

lemma emit_with_frame [simp]: "emit bs (with_frame f w) =
   (if buffered f then with_frame (f\<lparr>items := items f + 1, body := body f @ bs\<rparr>) w
    else with_frame (f\<lparr>items := items f + 1\<rparr>) (append bs w))"
  by (simp add: emit_def)

lemma length_frames_emit [simp]: "length (frames (emit bs w)) = length (frames w)"
  by (simp add: emit_def)

lemma after_entries_simps [simp]:
  "items (after_entries n kvs f) = items f + n"
  "body (after_entries n kvs f) = body f @ concat (map pair_bytes kvs)"
  "entries (after_entries n kvs f) = entries f @ entry_table (length (body f)) kvs"
  "is_map (after_entries n kvs f) = is_map f" "buffered (after_entries n kvs f) = buffered f"
  "f_indefinite (after_entries n kvs f) = f_indefinite f"
  by (simp_all add: after_entries_def)

lemma after_entries_Nil: "after_entries 0 [] f = f"
  by (cases f) (simp add: after_entries_def)

lemma after_entries_Cons:
  "after_entries n kvs (f\<lparr>items := items f + j, body := body f @ k @ v,
      entries := entries f @ [\<lparr>e_start = length (body f), e_key_end = length (body f) + length k\<rparr>]\<rparr>)
   = after_entries (j + n) ((k, v) # kvs) f"
  by (cases f) (simp add: after_entries_def pair_bytes_def add.assoc)

lemma run_sink_Cons: "run_sink opts (c # cs) w = (case sink_step opts c w of Inl e \<Rightarrow> Inl e | Inr w' \<Rightarrow> run_sink opts cs w')"
  by simp

text \<open>Opening a container, by the kind of the announcement.\<close>

lemma open_container_cases:
  "open_container opts m n mp w =
     (if o_max_depth opts \<le> length (frames w) then depth_throw opts
      else if o_deterministic opts \<and> (mp \<or> n = None) then Inr (with_frame (new_frame mp True False) w)
      else if n \<noteq> None \<and> (o_deterministic opts \<or> \<not> o_indefinite opts)
      then Inr (with_frame (new_frame mp False False) (append (make_head m (of_nat (the n))) w))
      else Inr (with_frame (new_frame mp False True) (append (make_indefinite_head m) w)))"
  by (auto simp: open_container_def push_frame_with)

lemma emit_append: "append b (emit a w) = emit (a @ b) w" "item (append a w) = emit a w"
  by (simp_all add: emit_def)

text \<open>What an item's calls do, given what they do to the parts of a container.\<close>

definition refines :: "cbor_options \<Rightarrow> citem \<Rightarrow> bool" where
  "refines opts x \<longleftrightarrow> (\<forall>w. run_sink opts (calls_of x) w =
     (case enc opts (length (frames w)) x of Inl e \<Rightarrow> Inl e | Inr bs \<Rightarrow> Inr (emit bs w)))"

definition refines_list :: "cbor_options \<Rightarrow> citem list \<Rightarrow> bool" where
  "refines_list opts xs \<longleftrightarrow> (\<forall>w. run_sink opts (calls_list xs) w =
     (case enc_list opts (length (frames w)) xs of Inl e \<Rightarrow> Inl e
      | Inr bss \<Rightarrow> Inr (append (concat bss) (bump (length xs) w))))"

definition refines_entries :: "cbor_options \<Rightarrow> (citem \<times> citem) list \<Rightarrow> bool" where
  "refines_entries opts es \<longleftrightarrow> (\<forall>f w. run_sink opts (calls_entries es) (with_frame f w) =
     (case enc_entries opts (Suc (length (frames w))) es of Inl e \<Rightarrow> Inl e
      | Inr kvs \<Rightarrow> Inr (if buffered f then with_frame (after_entries (entry_items es) kvs f) w
          else with_frame (f\<lparr>items := items f + entry_items es\<rparr>) (append (concat (map pair_bytes kvs)) w))))"

lemma bump_simps [simp]: "bump 0 w = w" "bump (Suc n) w = bump n (item w)"
  by (simp_all add: bump_def funpow_swap1)

lemma bump_append [simp]: "bump n (append bs w) = append bs (bump n w)"
  by (induction n arbitrary: w) simp_all

lemma bump_with_frame: "bump n (with_frame f w) = with_frame (f\<lparr>items := items f + n\<rparr>) w"
proof (induction n arbitrary: f)
  case 0
  then show ?case by (cases f) simp
next
  case (Suc n)
  then show ?case by (cases f) simp
qed

lemma refines_list_Cons:
  assumes "refines opts x" "refines_list opts xs"
  shows "refines_list opts (x # xs)"
  using assms by (simp add: refines_def refines_list_def run_sink_append emit_def split: sum.splits)

lemma refines_tag: "refines opts x \<Longrightarrow> refines opts (CTag t x)"
  by (simp add: refines_def emit_def split: sum.splits)

lemma refines_array:
  assumes "refines_list opts xs"
  shows "refines opts (CArray sized xs)"
  unfolding refines_def
proof
  fix w
  show "run_sink opts (calls_of (CArray sized xs)) w =
     (case enc opts (length (frames w)) (CArray sized xs) of Inl e \<Rightarrow> Inl e | Inr bs \<Rightarrow> Inr (emit bs w))"
    using assms unfolding refines_list_def
    by (auto simp: run_sink_append open_container_cases depth_throw_def bump_with_frame close_with_frame
        new_frame_def container_def emit_def split: sum.splits)
qed

text \<open>One entry: its key by \<^verbatim>\<open>key\<close> or between \<^verbatim>\<open>begin_key\<close> and \<^verbatim>\<open>end_key\<close>, then its value.\<close>

definition key_calls :: "citem \<Rightarrow> sink_call list" where
  "key_calls k = (case key_is_call k of Some c \<Rightarrow> [c] | None \<Rightarrow> s_begin_key # calls_of k @ [s_end_key])"

lemma refines_key:
  assumes "refines opts k"
  shows "run_sink opts (key_calls k) (with_frame f w) =
    (case enc opts (Suc (length (frames w))) k of Inl e \<Rightarrow> Inl e
     | Inr kb \<Rightarrow> Inr (if buffered f then with_frame (f\<lparr>items := items f + key_items k, body := body f @ kb,
           entries := entries f @ [\<lparr>e_start = length (body f), e_key_end = length (body f) + length kb\<rparr>]\<rparr>) w
         else with_frame (f\<lparr>items := items f + key_items k\<rparr>) (append kb w)))"
proof (cases "key_is_call k")
  case None
  have "run_sink opts (calls_of k) v = (case enc opts (length (frames v)) k of Inl e \<Rightarrow> Inl e | Inr bs \<Rightarrow> Inr (emit bs v))" for v
    using assms by (simp add: refines_def)
  with None show ?thesis
    by (cases f) (simp add: key_calls_def run_sink_append key_items.simps split: sum.splits)
next
  case (Some c)
  then show ?thesis
    by (cases k; cases f) (auto simp: key_calls_def key_items.simps w_key_text_def check_utf8_def w_sint_def
        split: option.splits if_splits)
qed

lemma refines_entries_Cons:
  assumes "refines opts k" "refines opts v" "refines_entries opts es"
  shows "refines_entries opts ((k, v) # es)"
  unfolding refines_entries_def
proof (intro allI)
  fix f w
  have v: "run_sink opts (calls_of v) u = (case enc opts (length (frames u)) v of Inl e \<Rightarrow> Inl e | Inr bs \<Rightarrow> Inr (emit bs u))" for u
    using assms(2) by (simp add: refines_def)
  have es: "run_sink opts (calls_entries es) (with_frame g u) =
     (case enc_entries opts (Suc (length (frames u))) es of Inl e \<Rightarrow> Inl e
      | Inr kvs \<Rightarrow> Inr (if buffered g then with_frame (after_entries (entry_items es) kvs g) u
          else with_frame (g\<lparr>items := items g + entry_items es\<rparr>) (append (concat (map pair_bytes kvs)) u)))" for g u
    using assms(3) by (simp add: refines_entries_def)
  have "calls_entries ((k, v) # es) = key_calls k @ calls_of v @ calls_entries es"
    by (simp add: key_calls_def)
  then show "run_sink opts (calls_entries ((k, v) # es)) (with_frame f w) =
     (case enc_entries opts (Suc (length (frames w))) ((k, v) # es) of Inl e \<Rightarrow> Inl e
      | Inr kvs \<Rightarrow> Inr (if buffered f then with_frame (after_entries (entry_items ((k, v) # es)) kvs f) w
          else with_frame (f\<lparr>items := items f + entry_items ((k, v) # es)\<rparr>) (append (concat (map pair_bytes kvs)) w)))"
    by (cases f) (simp add: run_sink_append refines_key [OF assms(1)] v es after_entries_def pair_bytes_def
        entry_items_def add.assoc split: sum.splits)
qed

lemma begin_map_step:
  "sink_step opts (begin_map_call kd n) w =
     (if o_max_depth opts \<le> length (frames w) then depth_throw opts
      else if o_deterministic opts \<and> kd \<noteq> map_ordered then Inr (with_frame (new_frame True True False) (item w))
      else if o_deterministic opts \<or> kd \<noteq> map_unsized \<and> \<not> o_indefinite opts
      then Inr (with_frame (new_frame True False False) (append (make_head major_map (of_nat n)) (item w)))
      else Inr (with_frame (new_frame True False True) (append (make_indefinite_head major_map) (item w))))"
  by (cases kd) (auto simp: open_container_cases w_begin_map_ordered_def Let_def push_frame_with)

lemma length_enc_entries: "enc_entries opts d es = Inr kvs \<Longrightarrow> length kvs = length es"
  by (induction es arbitrary: kvs) (auto split: sum.splits)

lemma buffered_new_frame: "buffered (new_frame m b i) = b"
  by (simp add: new_frame_def)

lemma refines_map:
  assumes "refines_entries opts es"
  shows "refines opts (CMap kd es)"
  unfolding refines_def
proof
  fix w
  have es: "run_sink opts (calls_entries es) (with_frame g u) =
     (case enc_entries opts (Suc (length (frames u))) es of Inl e \<Rightarrow> Inl e
      | Inr kvs \<Rightarrow> Inr (if buffered g then with_frame (after_entries (entry_items es) kvs g) u
          else with_frame (g\<lparr>items := items g + entry_items es\<rparr>) (append (concat (map pair_bytes kvs)) u)))" for g u
    using assms by (simp add: refines_entries_def)
  have buf: "close (with_frame (after_entries n kvs (new_frame True True False)) v) =
      (if \<not> distinct (map fst kvs) then duplicate_throw
       else Inr (append (container True major_map (length kvs) (concat (map pair_bytes (canonical_entries kvs)))) v))" for n kvs v
    by (rule close_buffered_map) (simp_all add: new_frame_def)
  have unbuf: "close (with_frame ((new_frame True False i)\<lparr>items := m\<rparr>) v) = Inr (if i then append [break_byte] v else v)" for i m v
    by (simp add: close_with_frame new_frame_def)
  show "run_sink opts (calls_of (CMap kd es)) w =
     (case enc opts (length (frames w)) (CMap kd es) of Inl e \<Rightarrow> Inl e | Inr bs \<Rightarrow> Inr (emit bs w))"
  proof (cases "enc_entries opts (Suc (length (frames w))) es")
    case (Inl e)
    then show ?thesis
      by (simp add: run_sink_append begin_map_step es depth_throw_def buffered_new_frame)
  next
    case (Inr kvs)
    then show ?thesis
      by (simp add: run_sink_append begin_map_step es depth_throw_def assemble_map_def container_def emit_def
          length_enc_entries [OF Inr] buf unbuf buffered_new_frame duplicate_throw_def)
  qed
qed

lemma refines_scalar:
  "refines opts CNull" "refines opts (CBool b)" "refines opts (CUint u)" "refines opts (CNint u)"
  "refines opts (CReal r)" "refines opts (CText t)" "refines opts (CBytes bs)" "refines opts (CSimple v)"
  by (simp_all add: refines_def emit_def w_text_def w_bytes_def check_utf8_def w_simple_def simple_bytes_def
      split: sum.splits option.splits)

lemma refines_Nil: "refines_list opts []" "refines_entries opts []"
  by (simp_all add: refines_list_def refines_entries_def entry_items_def after_entries_Nil)

lemma refines_all:
  "refines opts x" "refines_list opts xs" "refines_entries opts es"
proof (induction x and xs and es rule: calls_of_calls_list_calls_entries.induct)
  case (15 k v es)
  then show ?case by (cases "key_is_call k") (auto intro: refines_entries_Cons refines_scalar elim: key_is_call.elims)
qed (auto intro: refines_scalar refines_tag refines_array refines_map refines_list_Cons refines_Nil)

section \<open>Invariants of the stack\<close>

definition sink_ok :: "cbor_options \<Rightarrow> writer \<Rightarrow> bool" where
  "sink_ok opts w \<longleftrightarrow> length (frames w) \<le> o_max_depth opts
     \<and> (\<forall>f\<in>set (frames w). if o_deterministic opts then \<not> f_indefinite f else \<not> buffered f)"

lemma frames_append_flags:
  "map (\<lambda>f. (f_indefinite f, buffered f)) (frames (append bs w)) = map (\<lambda>f. (f_indefinite f, buffered f)) (frames w)"
proof -
  have "map (\<lambda>f. (f_indefinite f, buffered f)) (fst (append_cur bs fs o0)) = map (\<lambda>f. (f_indefinite f, buffered f)) fs" for fs o0
    by (induction bs fs o0 rule: append_cur.induct) (auto split: prod.splits)
  then show ?thesis by (simp add: append_def split: prod.splits) (metis fst_conv)
qed

lemma sink_ok_flags:
  "sink_ok opts w \<longleftrightarrow> length (frames w) \<le> o_max_depth opts
     \<and> (\<forall>(i, b)\<in>set (map (\<lambda>f. (f_indefinite f, buffered f)) (frames w)). if o_deterministic opts then \<not> i else \<not> b)"
  by (auto simp: sink_ok_def)

lemma sink_ok_append [simp]: "sink_ok opts (append bs w) = sink_ok opts w"
  by (simp only: sink_ok_flags frames_append_flags length_frames_append)

lemma sink_ok_item [simp]: "sink_ok opts (item w) = sink_ok opts w"
  by (auto simp: sink_ok_def item_def split: list.splits)

lemma sink_ok_key [simp]: "sink_ok opts (key_start w) = sink_ok opts w" "sink_ok opts (key_end w) = sink_ok opts w"
  by (auto simp: sink_ok_def key_start_def key_end_def split: list.splits)

lemma sink_ok_with_frame_iff:
  "sink_ok opts (with_frame f w) \<longleftrightarrow> Suc (length (frames w)) \<le> o_max_depth opts
     \<and> (if o_deterministic opts then \<not> f_indefinite f else \<not> buffered f) \<and> sink_ok opts w"
  by (auto simp: sink_ok_def with_frame_def)

lemma new_frame_flags [simp]: "f_indefinite (new_frame m b i) = i" "buffered (new_frame m b i) = b"
  by (simp_all add: new_frame_def)

lemma sink_ok_open: "sink_ok opts w \<Longrightarrow> open_container opts m n mp w = Inr w' \<Longrightarrow> sink_ok opts w'"
  by (auto simp: open_container_cases depth_throw_def sink_ok_with_frame_iff split: if_splits)

lemma sink_ok_close: "sink_ok opts w \<Longrightarrow> close w = Inr w' \<Longrightarrow> sink_ok opts w'"
  by (rule writer_cases [of w])
    (auto simp: close_with_frame close_def [of w] Let_def duplicate_throw_def sink_ok_with_frame_iff split: if_splits)

text \<open>Emitted octets stay: every operation extends the output.\<close>

definition extends :: "writer \<Rightarrow> writer \<Rightarrow> bool" where
  "extends w w' \<longleftrightarrow> (\<exists>bs. out w' = out w @ bs)"

lemma extends_refl [simp]: "extends w w"
  by (simp add: extends_def)

lemma extends_trans: "extends a b \<Longrightarrow> extends b c \<Longrightarrow> extends a c"
  by (auto simp: extends_def)

lemma extends_append [simp]: "extends w (append bs v) \<longleftrightarrow> extends w v \<or> (\<exists>cs. out (append bs v) = out w @ cs)"
  "extends w (append bs w)"
proof -
  have e: "\<exists>cs. snd (append_cur bs fs o0) = o0 @ cs" for fs o0
    by (induction bs fs o0 rule: append_cur.induct) (auto split: prod.splits)
  have "out (append bs v) = snd (append_cur bs (frames v) (out v))" for v
    by (simp add: append_def split: prod.splits)
  with e have ex: "\<exists>cs. out (append bs v) = out v @ cs" for v by metis
  show "extends w (append bs w)" using ex [of w] by (simp add: extends_def)
  show "extends w (append bs v) \<longleftrightarrow> extends w v \<or> (\<exists>cs. out (append bs v) = out w @ cs)"
    using ex [of v] by (auto simp: extends_def)
qed

lemma out_simps [simp]: "out (item w) = out w" "out (key_start w) = out w" "out (key_end w) = out w"
  "out (with_frame f w) = out w"
  by (auto simp: item_def key_start_def key_end_def with_frame_def split: list.splits)

lemma extends_out: "out v = out w \<Longrightarrow> extends w (append bs v)" "out v = out w \<Longrightarrow> extends w v"
  using extends_append(2) [of v bs] by (auto simp: extends_def)

lemma extends_open: "open_container opts m n mp w = Inr w' \<Longrightarrow> extends w w'"
  by (auto simp: open_container_cases depth_throw_def extends_def split: if_splits)
    (use extends_append(2) in \<open>auto simp: extends_def\<close>)

lemma extends_close: "close w = Inr w' \<Longrightarrow> extends w w'"
  by (rule writer_cases [of w])
    (auto simp: close_with_frame close_def [of w] Let_def duplicate_throw_def split: if_splits intro: extends_out)

lemma item_open:
  assumes "open_container opts m n mp (item w) = Inr w'"
  shows "sink_ok opts w \<Longrightarrow> sink_ok opts w'" "extends w w'"
  using sink_ok_open [OF _ assms] extends_open [OF assms] by (simp_all add: extends_def)

lemma extends_with_frame [simp]: "extends w (with_frame f v) = extends w v"
  by (simp add: extends_def)

lemma extends_ops [simp]: "extends w (append bs (item w))" "extends w (append bs (key_start w))"
  "extends w (item w)" "extends w (key_start w)"
  by (auto intro!: extends_out)

lemma extends_key_end [simp]: "extends w (key_end v) = extends w v"
  by (simp add: extends_def)

section \<open>Canonical order\<close>

lemma enc_entries_Inr_iff:
  "enc_entries opts d es = Inr kvs \<longleftrightarrow>
     (list_all2 (\<lambda>(k, v) (kb, vb). enc opts d k = Inr kb \<and> enc opts d v = Inr vb) es kvs)"
proof (induction es arbitrary: kvs)
  case Nil
  then show ?case by auto
next
  case (Cons e es)
  obtain k v where "e = (k, v)" by fastforce
  then show ?case by (cases kvs) (auto simp: Cons.IH [symmetric] split: sum.splits)
qed

lemma enc_entries_perm:
  assumes "enc_entries opts d es = Inr kvs" "mset es = mset es'"
  obtains kvs' where "enc_entries opts d es' = Inr kvs'" "mset kvs' = mset kvs"
proof -
  define g where "g = (\<lambda>(k, v). (projr (enc opts d k), projr (enc opts d v)))"
  have all: "\<forall>(k, v)\<in>set es. (\<exists>kb. enc opts d k = Inr kb) \<and> (\<exists>vb. enc opts d v = Inr vb)"
    and kvs: "kvs = map g es"
    using assms(1) unfolding enc_entries_Inr_iff
    by (induction es kvs rule: list_all2_induct) (auto simp: g_def)
  have "set es' = set es" using assms(2) by (metis set_mset_mset)
  with all have "list_all2 (\<lambda>(k, v) (kb, vb). enc opts d k = Inr kb \<and> enc opts d v = Inr vb) es' (map g es')"
    by (fastforce simp: list_all2_map2 g_def intro!: list.rel_refl_strong)
  then have "enc_entries opts d es' = Inr (map g es')" by (simp only: enc_entries_Inr_iff)
  moreover have "mset (map g es') = mset kvs" using assms(2) by (simp add: kvs)
  ultimately show thesis by (rule that)
qed

lemma filter_same_key: "distinct (map f xs) \<Longrightarrow> x \<in> set xs \<Longrightarrow> filter (\<lambda>y. f x = f y) xs = [x]"
proof (induction xs)
  case (Cons z xs)
  then show ?case by (cases "x = z") (auto simp: filter_empty_conv image_iff)
qed simp

text \<open>Sorting by a key that is injective on the list depends on its multiset only.\<close>

lemma canonical_perm:
  assumes "distinct (map fst kvs)" "mset kvs' = mset kvs"
  shows "canonical_entries kvs' = canonical_entries kvs" "distinct (map fst kvs')" "length kvs' = length kvs"
proof -
  have m: "mset (map fst kvs') = mset (map fst kvs)" using assms(2) by simp
  then show d: "distinct (map fst kvs')" using assms(1) by (metis mset_eq_imp_distinct_iff)
  show "length kvs' = length kvs" using assms(2) by (metis size_mset)
  have "distinct (map fst (sort_key fst kvs))" using assms(1) by (simp add: distinct_map)
  then have "filter (\<lambda>y. fst x = fst y) (sort_key fst kvs) = filter (\<lambda>y. fst x = fst y) kvs'" if "x \<in> set (sort_key fst kvs)" for x
    using filter_same_key [OF d, of x] filter_same_key [of fst "sort_key fst kvs" x] that mset_eq_setD [OF assms(2)] by simp
  then show "canonical_entries kvs' = canonical_entries kvs"
    unfolding canonical_entries_def using assms(2) by (intro properties_for_sort_key) simp_all
qed

lemma sink_step_ok:
  assumes "sink_step opts c w = Inr w'"
  shows "sink_ok opts w \<Longrightarrow> sink_ok opts w'" "extends w w'"
proof -
  have "(sink_ok opts w \<longrightarrow> sink_ok opts w') \<and> extends w w'"
    using assms
    by (cases c)
      (auto simp: w_sint_def w_text_def w_text_field_def w_bytes_def w_bytes_field_def w_key_text_def w_simple_def
        w_write_range_def prepared_key_def w_begin_map_ordered_def Let_def push_frame_with sink_ok_with_frame_iff
        depth_throw_def check_utf8_def
        simp del: extends_append(1)
        intro: sink_ok_close extends_close item_open
        split: if_splits sum.splits option.splits)
  then show "sink_ok opts w \<Longrightarrow> sink_ok opts w'" "extends w w'" by blast+
qed

lemma run_sink_ok:
  "run_sink opts cs w = Inr w' \<Longrightarrow> (sink_ok opts w \<longrightarrow> sink_ok opts w') \<and> extends w w'"
proof (induction cs arbitrary: w)
  case (Cons c cs)
  then obtain v where v: "sink_step opts c w = Inr v" "run_sink opts cs v = Inr w'" by (auto split: sum.splits)
  with Cons.IH [OF v(2)] sink_step_ok [OF v(1)] show ?case by (blast intro: extends_trans)
qed simp

section \<open>Properties\<close>

text \<open>C10. The sink refines the recursive encoder: for every data item, all options and any state of
  the writer (containers open or not, buffered or not), the calls that describe the item append
  exactly the reference encoding to the current buffer and count one item of the innermost
  container, or throw exactly the reference's error: nesting beyond \<^verbatim>\<open>max_depth\<close>, invalid UTF-8,
  duplicate keys under deterministic encoding, a value that does not fit a pinned float width, a
  reserved simple value. The order of the checks is the order of the calls.\<close>

theorem writer_refines:
  "run_sink opts (calls_of x) w =
     (case enc opts (length (frames w)) x of Inl e \<Rightarrow> Inl e | Inr bs \<Rightarrow> Inr (append bs (item w)))"
  using refines_all(1) [of opts x] unfolding refines_def emit_def by blast

text \<open>C12. The whole encoding: \<^verbatim>\<open>encode_append\<close> keeps what the output held, writes the self-describe tag
  when the options or the type ask for it, then the reference encoding under the options the type's
  determinism implies; on a failure it reports the reference's error.\<close>

theorem encode_append_correct:
  "encode_append opts det self (calls_of x) o0 =
     (case enc (with_type_determinism_encode opts det) 0 x of Inl e \<Rightarrow> Inl e
      | Inr bs \<Rightarrow> Inr (o0 @ (if o_self_describe opts \<or> self then [0xD9, 0xD9, 0xF7] else []) @ bs))"
proof -
  have tag: "make_head major_tag self_describe_tag = [0xD9, 0xD9, 0xF7]" by code_simp
  have sd: "o_self_describe (with_type_determinism_encode opts det) = o_self_describe opts"
    by (simp add: with_type_determinism_encode_def)
  show ?thesis
    using refines_all(1) [of "with_type_determinism_encode opts det" x]
    by (simp add: encode_append_def refines_def emit_def new_writer_def item_def append_def append_head_def tag sd Let_def
        split: sum.splits)
qed

text \<open>C14. Deterministic encoding does not depend on insertion order: if a run-time map encodes at all,
  every reordering of its entries encodes to the same octets.\<close>

theorem canonical_map_order:
  assumes "o_deterministic opts" "kd \<noteq> map_ordered" "mset es = mset es'"
    "run_sink opts (calls_of (CMap kd es)) w = Inr w'"
  shows "run_sink opts (calls_of (CMap kd es')) w = Inr w'"
proof -
  have R: "run_sink opts (calls_of y) w = (case enc opts (length (frames w)) y of Inl e \<Rightarrow> Inl e | Inr bs \<Rightarrow> Inr (emit bs w))" for y
    using refines_all(1) [of opts y] by (simp add: refines_def)
  from assms(4) obtain kvs where kvs: "enc_entries opts (Suc (length (frames w))) es = Inr kvs" "distinct (map fst kvs)"
    "\<not> o_max_depth opts \<le> length (frames w)"
    using assms(1,2) unfolding R
    by (auto simp: assemble_map_def depth_throw_def duplicate_throw_def split: sum.splits if_splits)
  from enc_entries_perm [OF kvs(1) assms(3)] obtain kvs' where
    kvs': "enc_entries opts (Suc (length (frames w))) es' = Inr kvs'" "mset kvs' = mset kvs" by blast
  have "canonical_entries kvs' = canonical_entries kvs" "distinct (map fst kvs')" "length kvs' = length kvs"
    using canonical_perm [OF kvs(2) kvs'(2)] by blast+
  with kvs kvs' assms show ?thesis unfolding R by (simp add: assemble_map_def)
qed

theorem canonical_map_order_witness:
  "run_sink default_options (calls_of (CMap map_sized [(CUint 2, CNull), (CText ''a'', CNull), (CUint 1, CBool True)])) (new_writer [])
   = Inr (new_writer [0xA3, 0x01, 0xF5, 0x02, 0xF6, 0x61, 0x61, 0xF6])"
proof (rule canonical_map_order)
  show "mset [(CUint 1, CBool True), (CUint 2, CNull), (CText ''a'', CNull)]
      = mset [(CUint 2, CNull), (CText ''a'', CNull), (CUint 1, CBool True)]" by simp
  show "run_sink default_options (calls_of (CMap map_sized [(CUint 1, CBool True), (CUint 2, CNull), (CText ''a'', CNull)])) (new_writer [])
      = Inr (new_writer [0xA3, 0x01, 0xF5, 0x02, 0xF6, 0x61, 0x61, 0xF6])" by code_simp
qed (simp_all add: default_options_def)

text \<open>C15. Invariant of the sink under every sequence of calls, matched or not: nesting never exceeds
  \<^verbatim>\<open>max_depth\<close>, deterministic mode never opens an indefinite container and non-deterministic mode
  never buffers, and octets already in the output are never changed.\<close>

theorem sink_invariant:
  assumes "run_sink opts cs w = Inr w'" "sink_ok opts w"
  shows "sink_ok opts w' \<and> (\<exists>bs. out w' = out w @ bs)"
  using run_sink_ok [OF assms(1)] assms(2) by (simp add: extends_def)

theorem sink_invariant_witness:
  "sink_ok default_options (with_frame (new_frame True True False) (new_writer []))"
proof -
  have run: "run_sink default_options [s_begin_map None] (new_writer [])
      = Inr (with_frame (new_frame True True False) (new_writer []))" by code_simp
  have "sink_ok default_options (new_writer [])" by (simp add: sink_ok_def new_writer_def)
  with sink_invariant [OF run] show ?thesis by blast
qed

end
