(* ===== verification/Core_Model.thy ===== *)
theory Core_Model
  imports Vcodec_Error
begin

text \<open>
  \<^verbatim>\<open>core/model.hpp\<close>: the data model both formats share, and the contracts of the reader concept on
  which the format-independent decoder relies. The concepts of the source give only signatures; the
  locales here state the laws behind them: what \<^verbatim>\<open>save\<close>, \<^verbatim>\<open>restore\<close> and \<^verbatim>\<open>skip_value\<close> keep and change.
  The CBOR and the JSON reader interpret them.
\<close>

datatype kind =
    kind_null | kind_boolean | kind_uint | kind_sint | kind_real | kind_text | kind_bytes
  | kind_array | kind_map | kind_tag | kind_undefined

fun kind_name :: "kind \<Rightarrow> string" where
  "kind_name kind_null = ''null''" | "kind_name kind_boolean = ''boolean''"
| "kind_name kind_uint = ''uint''" | "kind_name kind_sint = ''sint''"
| "kind_name kind_real = ''real''" | "kind_name kind_text = ''text''"
| "kind_name kind_bytes = ''bytes''" | "kind_name kind_array = ''array''"
| "kind_name kind_map = ''map''" | "kind_name kind_tag = ''tag''"
| "kind_name kind_undefined = ''undefined''"

record text_ref =
  t_text :: string
  t_borrowed :: bool
  t_raw_length :: nat

record bytes_ref =
  b_bytes :: bytes
  b_borrowed :: bool

section \<open>Saved positions\<close>

text \<open>\<^verbatim>\<open>pos_ | (depth_ << 48)\<close> and its inverse, the same in both readers.\<close>

definition pack_position :: "nat \<Rightarrow> nat \<Rightarrow> u64" where
  "pack_position p d = of_nat p OR push_bit 48 (of_nat d)"

definition unpack_pos :: "u64 \<Rightarrow> nat" where
  "unpack_pos s = unat (s AND (push_bit 48 1 - 1))"

definition unpack_depth :: "u64 \<Rightarrow> nat" where
  "unpack_depth s = unat (drop_bit 48 s)"

text \<open>A position and a depth can be packed when they fit 48 and 16 bits.\<close>

definition packable :: "nat \<Rightarrow> nat \<Rightarrow> bool" where
  "packable p d \<longleftrightarrow> p < 2 ^ 48 \<and> d < 2 ^ 16"

lemma unpack_pack:
  assumes "packable p d"
  shows "unpack_pos (pack_position p d) = p" "unpack_depth (pack_position p d) = d"
proof -
  have lt: "p < 2 ^ 48" "d < 2 ^ 16" using assms by (simp_all add: packable_def)
  have p: "take_bit 48 (of_nat p :: u64) = of_nat p" "drop_bit 48 (of_nat p :: u64) = 0"
    using lt(1) by (simp_all add: take_bit_eq_self_iff_drop_bit_eq_0 [symmetric] take_bit_of_nat take_bit_nat_eq_self)
  have d: "take_bit 48 (push_bit 48 (of_nat d :: u64)) = 0"
    by (rule bit_word_eqI) (simp add: bit_simps)
  have dd: "drop_bit 48 (push_bit 48 (of_nat d :: u64)) = of_nat d"
  proof -
    have "take_bit 16 (of_nat d :: u64) = of_nat d" using lt(2) by (simp add: take_bit_of_nat take_bit_nat_eq_self)
    moreover have "drop_bit 48 (push_bit 48 (of_nat d :: u64)) = take_bit 16 (of_nat d)"
      by (rule bit_word_eqI) (auto simp: bit_simps)
    ultimately show ?thesis by simp
  qed
  have "pack_position p d AND (push_bit 48 1 - 1) = take_bit 48 (pack_position p d)"
    by (simp add: take_bit_eq_mask mask_eq_exp_minus_1 push_bit_eq_mult)
  also have "\<dots> = of_nat p" by (simp add: pack_position_def take_bit_or p d)
  finally show "unpack_pos (pack_position p d) = p"
    using lt(1) by (simp add: unpack_pos_def unsigned_of_nat take_bit_nat_eq_self)
  have "drop_bit 48 (pack_position p d) = of_nat d" by (simp add: pack_position_def drop_bit_or p dd)
  then show "unpack_depth (pack_position p d) = d"
    using lt(2) by (simp add: unpack_depth_def unsigned_of_nat take_bit_nat_eq_self)
qed

section \<open>The contracts of a reader\<close>

text \<open>A reader that can be rewound: restoring a saved position gives back position and depth and
  touches nothing else.\<close>

locale rewindable =
  fixes rpos :: "'r \<Rightarrow> nat" and rdepth :: "'r \<Rightarrow> nat" and rlimit :: "'r \<Rightarrow> nat"
    and rsave :: "'r \<Rightarrow> u64" and rrestore :: "u64 \<Rightarrow> 'r \<Rightarrow> 'r"
  assumes save_pack: "rsave r = pack_position (rpos r) (rdepth r)"
    and restore_pos: "rpos (rrestore s r) = unpack_pos s"
    and restore_depth: "rdepth (rrestore s r) = unpack_depth s"
    and restore_limit: "rlimit (rrestore s r) = rlimit r"
begin

lemma restore_save:
  assumes "packable (rpos r) (rdepth r)"
  shows "rpos (rrestore (rsave r) r') = rpos r \<and> rdepth (rrestore (rsave r) r') = rdepth r
     \<and> rlimit (rrestore (rsave r) r') = rlimit r'"
  using unpack_pack [OF assms] by (simp add: save_pack restore_pos restore_depth restore_limit)

end

text \<open>A reader that validates: a skipped value consumes at least one octet, stays within the input
  and leaves the depth as it was.\<close>

locale validating = rewindable rpos rdepth rlimit rsave rrestore
  for rpos :: "'r \<Rightarrow> nat" and rdepth rlimit rsave rrestore +
  fixes rskip :: "'r \<Rightarrow> status \<times> 'r"
  assumes skip_progress: "rskip r = (Inr u, r') \<Longrightarrow> rpos r < rpos r'"
    and skip_limit: "rskip r = (Inr u, r') \<Longrightarrow> rpos r' \<le> rlimit r \<and> rlimit r' = rlimit r"
    and skip_depth: "rskip r = (Inr u, r') \<Longrightarrow> rdepth r' = rdepth r"
begin

text \<open>Skipping \<open>n\<close> values in a row, as the decoder does with the unknown part of a container.\<close>

fun skip_many :: "nat \<Rightarrow> 'r \<Rightarrow> status \<times> 'r" where
  "skip_many 0 r = (Inr (), r)"
| "skip_many (Suc n) r = (case rskip r of (Inl e, r') \<Rightarrow> (Inl e, r') | (Inr u, r') \<Rightarrow> skip_many n r')"

lemma skip_many_progress:
  "skip_many n r = (Inr u, r') \<Longrightarrow>
     rpos r + n \<le> rpos r' \<and> rlimit r' = rlimit r \<and> rdepth r' = rdepth r \<and> (n = 0 \<or> rpos r' \<le> rlimit r)"
proof (induction n r arbitrary: r' rule: skip_many.induct)
  case (2 n r)
  obtain u1 r1 where s: "rskip r = (Inr u1, r1)" "skip_many n r1 = (Inr u, r')"
    using 2(2) by (auto split: prod.splits sum.splits)
  from 2(1) [OF s(1) [symmetric] refl s(2)] skip_progress [OF s(1)] skip_limit [OF s(1)] skip_depth [OF s(1)]
    skip_limit [OF s(1)] s(2)
  show ?case by (cases n) auto
qed simp

text \<open>A look-ahead leaves no trace: skip, then rewind.\<close>

lemma look_ahead:
  assumes "packable (rpos r) (rdepth r)" "rskip r = (Inr u, r')"
  shows "rpos (rrestore (rsave r) r') = rpos r \<and> rdepth (rrestore (rsave r) r') = rdepth r
     \<and> rlimit (rrestore (rsave r) r') = rlimit r"
  using restore_save [OF assms(1), of r'] skip_limit [OF assms(2)] by simp

text \<open>More values than octets cannot be skipped.\<close>

lemma skip_many_bounded: "rlimit r - rpos r < n \<Longrightarrow> \<exists>e r'. skip_many n r = (Inl e, r')"
proof -
  assume n: "rlimit r - rpos r < n"
  obtain st r' where s: "skip_many n r = (st, r')" by (metis prod.exhaust)
  show ?thesis
  proof (cases st)
    case (Inl e)
    with s show ?thesis by blast
  next
    case (Inr u)
    with skip_many_progress [of n r u r'] s n show ?thesis by auto
  qed
qed

end

end
