(* ===== verification/Cbor_Read.thy ===== *)
theory Cbor_Read
  imports Core_Model Cbor_Head Cbor_Options Vcodec_Error Vcodec_Lower Vcodec_Float
begin

text \<open>
  \<^verbatim>\<open>src/include/vcodec/cbor/read.hpp\<close>: the type-directed CBOR reader. Its state is the input, the
  position, the nesting depth, the start of the current item, three scratch buffers, the collected
  errors and a pending error. An operation returns a result and the new state, also when it fails:
  a failure may have moved the position. A borrowed span is the list of its octets. Loops over the
  input are recursive functions whose measure is the remaining input.
\<close>

section \<open>State\<close>

record creader =
  r_in :: bytes
  r_pos :: nat
  r_depth :: nat
  r_start :: nat
  text_scratch :: bytes
  bytes_scratch :: bytes
  skip_scratch :: bytes
  r_collected :: "error list"
  r_pending :: "error option"

definition new_reader :: "bytes \<Rightarrow> creader" where
  "new_reader inp = \<lparr>r_in = inp, r_pos = 0, r_depth = 0, r_start = 0, text_scratch = [], bytes_scratch = [],
     skip_scratch = [], r_collected = [], r_pending = None\<rparr>"

type_synonym 'a read = "'a result \<times> creader"

definition r_size :: "creader \<Rightarrow> nat" where
  "r_size r = length (r_in r)"

definition r_advance :: "nat \<Rightarrow> creader \<Rightarrow> creader" where
  "r_advance n r = r\<lparr>r_pos := r_pos r + n\<rparr>"

text \<open>\<^verbatim>\<open>save\<close> packs position and depth into one word: 48 bits and 16 bits.\<close>

definition save :: "creader \<Rightarrow> u64" where
  "save r = of_nat (r_pos r) OR push_bit 48 (of_nat (r_depth r))"

definition restore :: "u64 \<Rightarrow> creader \<Rightarrow> creader" where
  "restore s r = r\<lparr>r_pos := unat (s AND (push_bit 48 1 - 1)), r_depth := unat (drop_bit 48 s)\<rparr>"

definition at_end :: "creader \<Rightarrow> bool" where
  "at_end r \<longleftrightarrow> r_size r \<le> r_pos r"

definition subspan :: "bytes \<Rightarrow> nat \<Rightarrow> nat \<Rightarrow> bytes" where
  "subspan bs p n = take n (drop p bs)"

section \<open>Diagnostics\<close>

definition int64_max :: u64 where "int64_max = 0x7FFFFFFFFFFFFFFF"

definition negative_text :: "u64 \<Rightarrow> string" where
  "negative_text n =
     (if n < int64_max then dec_int (- 1 - uint n)
      else if n = 0xFFFFFFFFFFFFFFFF then ''-18446744073709551616''
      else ''-'' @ dec_u64 (n + 1))"

definition named_tag :: "u64 \<Rightarrow> string" where
  "named_tag t = ''tag '' @ dec_u64 t @ (if tag_name t \<noteq> [] then '' ('' @ tag_name t @ '')'' else [])"

definition hex_diag :: "bytes \<Rightarrow> string" where
  "hex_diag key = ''h'' @ [CHR 0x27]
     @ concat (map (\<lambda>b. [hex_digits ! unat (drop_bit 4 b), hex_digits ! unat (b AND 15)]) key) @ [CHR 0x27]"

definition diag :: "bytes \<Rightarrow> string" where
  "diag key =
     (let h = parse_head key 0 in
      if head_length h \<noteq> 0 \<and> mt h = major_uint then dec_u64 (head_value h)
      else if head_length h \<noteq> 0 \<and> mt h = major_nint then negative_text (head_value h)
      else if head_length h \<noteq> 0 \<and> mt h = major_text
        then [CHR 0x22] @ string_of_bytes (drop (head_length h) key) @ [CHR 0x22]
      else hex_diag key)"

definition found_name :: "parsed_head \<Rightarrow> string" where
  "found_name h =
     (if mt h = major_simple then
        (if ai h = 20 \<or> ai h = 21 then ''boolean''
         else if ai h = 22 then ''null''
         else if ai h = 23 then ''undefined''
         else if 25 \<le> ai h \<and> ai h \<le> 27 then ''float''
         else ''simple value '' @ dec_u64 (head_value h))
      else major_name (mt h))"

text \<open>The length for the diagnostic: the sum wraps at 64 bits before the minimum is taken.\<close>

definition item_length :: "parsed_head \<Rightarrow> creader \<Rightarrow> nat" where
  "item_length h r =
     (if mt h = major_bytes \<or> mt h = major_text then
        (if indefinite h then head_length h
         else let s = of_nat (head_length h) + head_value h in
           if uint s < int (r_size r - r_pos r) then nat (uint s) else r_size r - r_pos r)
      else head_length h)"

definition type_error :: "string \<Rightarrow> parsed_head \<Rightarrow> creader \<Rightarrow> error" where
  "type_error expctd h r =
     with_length (item_length h r) (with_found (found_name h) (with_expected expctd (mk_error type_mismatch (r_pos r))))"

definition depth_error :: "cbor_options \<Rightarrow> creader \<Rightarrow> error" where
  "depth_error opts r = with_length 1 (with_detail (dec_nat (o_max_depth opts)) (mk_error depth_exceeded (r_pos r)))"

definition key_order_error :: "bytes \<Rightarrow> bytes \<Rightarrow> nat \<Rightarrow> error option" where
  "key_order_error cur prev start =
     (let less = lex_less cur prev; eq = (cur = prev) in
      if \<not> less \<and> \<not> eq then None
      else Some (with_length (length cur)
        (with_suggestion (''key '' @ diag cur @ (if eq then '' repeats'' else '' precedes key '' @ diag prev))
        (with_detail (if eq then ''duplicate map key'' else ''map keys out of canonical order'')
        (mk_error non_deterministic start)))))"

definition break_error :: "nat \<Rightarrow> error" where
  "break_error p = with_length 1 (with_detail ''break outside an indefinite-length item'' (mk_error malformed_item p))"

definition reserved_error :: "nat \<Rightarrow> error" where
  "reserved_error p = with_length 1 (with_detail ''reserved additional information'' (mk_error malformed_item p))"

definition simple_error :: "nat \<Rightarrow> error" where
  "simple_error p = with_length 2 (with_detail ''two-byte simple value below 32'' (mk_error malformed_item p))"

section \<open>Determinism checks\<close>

definition indefinite_error :: "parsed_head \<Rightarrow> nat \<Rightarrow> error" where
  "indefinite_error h p = with_length 1 (with_suggestion ''deterministic encoding requires definite lengths''
     (with_detail (''indefinite-length '' @ major_name (mt h)) (mk_error non_deterministic p)))"

definition shortest_length :: "u64 \<Rightarrow> nat" where
  "shortest_length v = (if v < 24 then 1 else if v \<le> 0xFF then 2 else if v \<le> 0xFFFF then 3
     else if v \<le> 0xFFFFFFFF then 5 else 9)"

definition check_head_deterministic :: "parsed_head \<Rightarrow> nat \<Rightarrow> error option" where
  "check_head_deterministic h p =
     (if indefinite h then Some (indefinite_error h p)
      else if \<not> shortest h \<and> mt h \<noteq> major_simple then
        (let v = (if mt h = major_nint then negative_text (head_value h) else dec_u64 (head_value h));
             need = shortest_length (head_value h)
         in Some (with_length (head_length h)
           (with_suggestion (''shortest form is '' @ dec_nat need @ (if need = 1 then '' byte'' else '' bytes''))
           (with_detail (''integer '' @ v @ '' encoded in '' @ dec_nat (head_length h) @ '' bytes'')
           (mk_error non_deterministic p)))))
      else None)"

definition float_length :: "u8 \<Rightarrow> nat" where
  "float_length a = 1 + (if a = 25 then 2 else if a = 26 then 4 else 8)"

definition float_name :: "u8 \<Rightarrow> string" where
  "float_name a = (if a = 25 then ''half'' else if a = 26 then ''single'' else ''double'')"

definition preferred_ai :: "u64 \<Rightarrow> u8" where
  "preferred_ai d = (if to_half d \<noteq> None then 25 else if fits_single d then 26 else 27)"

definition check_preferred_float :: "u64 \<Rightarrow> u8 \<Rightarrow> u64 \<Rightarrow> nat \<Rightarrow> error option" where
  "check_preferred_float d a raw p =
     (if is_nan d then
        (if a = 25 \<and> raw = 0x7E00 then None
         else Some (with_length (float_length a)
           (with_suggestion ''deterministic encoding uses the canonical half NaN''
           (with_detail ''NaN not encoded as f97e00'' (mk_error non_deterministic p)))))
      else
        let need = preferred_ai d in
        if a = need then None
        else Some (with_length (float_length a)
          (with_suggestion (''preferred form is '' @ float_name need)
          (with_detail (''float encoded as '' @ float_name a) (mk_error non_deterministic p)))))"

definition float_value :: "parsed_head \<Rightarrow> u64" where
  "float_value h = (if ai h = 25 then from_half (ucast (head_value h))
     else if ai h = 26 then from_float (ucast (head_value h)) else head_value h)"

section \<open>Heads of items\<close>

definition take_pending :: "creader \<Rightarrow> unit read" where
  "take_pending r = (case r_pending r of Some e \<Rightarrow> (Inl e, r\<lparr>r_pending := None\<rparr>) | None \<Rightarrow> (Inr (), r))"

definition error_if :: "bool \<Rightarrow> error option \<Rightarrow> error option" where
  "error_if b e = (if b then e else None)"

text \<open>The loop of \<^verbatim>\<open>item_head\<close> over ignorable tags: the head found and its position.\<close>

function item_head_from :: "cbor_options \<Rightarrow> string \<Rightarrow> bytes \<Rightarrow> nat \<Rightarrow> error + parsed_head \<times> nat" where
  "item_head_from opts expctd inp p =
     (if length inp \<le> p then Inl (with_expected expctd (mk_error truncated p))
      else
        let h = parse_head inp p in
        if head_length h = 0 then Inl (with_expected expctd (mk_error truncated p))
        else if is_break h then Inl (break_error p)
        else if reserved h then Inl (reserved_error p)
        else if mt h = major_tag then
          (if o_ignore_unknown_tags opts then item_head_from opts expctd inp (p + head_length h)
           else Inl (with_length (head_length h) (with_found (named_tag (head_value h))
             (with_expected ''no tag'' (mk_error tag_mismatch p)))))
        else if mt h = major_simple \<and> ai h = 24 \<and> head_value h < 32 then Inl (simple_error p)
        else case error_if (o_require_deterministic opts) (check_head_deterministic h p) of
            Some e \<Rightarrow> Inl e
          | None \<Rightarrow> Inr (h, p))"
  by pat_completeness auto
termination
  by (relation "measure (\<lambda>(opts, expctd, inp, p). length inp - p)") auto

declare item_head_from.simps [simp del]

definition item_head :: "cbor_options \<Rightarrow> string \<Rightarrow> creader \<Rightarrow> parsed_head read" where
  "item_head opts expctd r0 =
     (case take_pending r0 of
        (Inl e, r) \<Rightarrow> (Inl e, r)
      | (Inr _, r) \<Rightarrow> (case item_head_from opts expctd (r_in r) (r_pos r) of
            Inl e \<Rightarrow> (Inl e, r)
          | Inr (h, p) \<Rightarrow> (Inr h, r\<lparr>r_pos := p, r_start := p\<rparr>)))"

definition raw_head :: "creader \<Rightarrow> parsed_head read" where
  "raw_head r0 =
     (case take_pending r0 of
        (Inl e, r) \<Rightarrow> (Inl e, r)
      | (Inr _, r) \<Rightarrow>
          if r_size r \<le> r_pos r then (Inl (mk_error truncated (r_pos r)), r)
          else
            let h = parse_head (r_in r) (r_pos r) in
            if head_length h = 0 then (Inl (mk_error truncated (r_pos r)), r)
            else if reserved h then (Inl (reserved_error (r_pos r)), r)
            else if is_break h then (Inl (break_error (r_pos r)), r)
            else (Inr h, r))"

section \<open>Classification\<close>

function peek_from :: "cbor_options \<Rightarrow> bytes \<Rightarrow> nat \<Rightarrow> kind" where
  "peek_from opts inp p =
     (let h = parse_head inp p in
      if head_length h = 0 \<or> reserved h \<or> is_break h then kind_undefined
      else case mt h of
          major_tag \<Rightarrow> if o_ignore_unknown_tags opts then peek_from opts inp (p + head_length h) else kind_tag
        | major_uint \<Rightarrow> kind_uint
        | major_nint \<Rightarrow> kind_sint
        | major_bytes \<Rightarrow> kind_bytes
        | major_text \<Rightarrow> kind_text
        | major_array \<Rightarrow> kind_array
        | major_map \<Rightarrow> kind_map
        | major_simple \<Rightarrow>
            if ai h = 20 \<or> ai h = 21 then kind_boolean
            else if ai h = 22 then kind_null
            else if ai h = 23 then (if o_undefined_as_null opts then kind_null else kind_undefined)
            else if 25 \<le> ai h \<and> ai h \<le> 27 then kind_real
            else kind_undefined)"
  by pat_completeness auto
termination
proof (relation "measure (\<lambda>(opts, inp, p). Suc (length inp) - p)", goal_cases)
  case (2 opts inp p h)
  then have "p + head_length h \<le> length inp" using parse_head_length_bound [of inp p] by simp
  with 2 have "0 < head_length h" "p + head_length h \<le> length inp" by simp_all
  then show ?case by simp
qed simp

declare peek_from.simps [simp del]

definition peek :: "cbor_options \<Rightarrow> creader \<Rightarrow> kind" where
  "peek opts r = peek_from opts (r_in r) (r_pos r)"

section \<open>Scalars\<close>

definition consume :: "parsed_head \<Rightarrow> 'a \<Rightarrow> creader \<Rightarrow> 'a read" where
  "consume h x r = (Inr x, r_advance (head_length h) r)"

definition out_of_range_error :: "string \<Rightarrow> parsed_head \<Rightarrow> creader \<Rightarrow> error" where
  "out_of_range_error txt h r = with_length (head_length h) (with_detail txt (mk_error out_of_range (r_pos r)))"

definition expect_null :: "cbor_options \<Rightarrow> creader \<Rightarrow> unit read" where
  "expect_null opts r0 = (case item_head opts ''null'' r0 of
     (Inl e, r) \<Rightarrow> (Inl e, r)
   | (Inr h, r) \<Rightarrow>
       if mt h = major_simple \<and> (ai h = 22 \<or> o_undefined_as_null opts \<and> ai h = 23) then consume h () r
       else (Inl (type_error ''null'' h r), r))"

definition expect_boolean :: "cbor_options \<Rightarrow> creader \<Rightarrow> bool read" where
  "expect_boolean opts r0 = (case item_head opts ''boolean'' r0 of
     (Inl e, r) \<Rightarrow> (Inl e, r)
   | (Inr h, r) \<Rightarrow>
       if mt h = major_simple \<and> (ai h = 20 \<or> ai h = 21) then consume h (ai h = 21) r
       else (Inl (type_error ''boolean'' h r), r))"

definition expect_uint :: "cbor_options \<Rightarrow> creader \<Rightarrow> u64 read" where
  "expect_uint opts r0 = (case item_head opts ''unsigned integer'' r0 of
     (Inl e, r) \<Rightarrow> (Inl e, r)
   | (Inr h, r) \<Rightarrow>
       if mt h = major_uint then consume h (head_value h) r
       else if mt h = major_nint then (Inl (out_of_range_error (negative_text (head_value h)) h r), r)
       else (Inl (type_error ''unsigned integer'' h r), r))"

definition expect_sint :: "cbor_options \<Rightarrow> creader \<Rightarrow> u64 read" where
  "expect_sint opts r0 = (case item_head opts ''integer'' r0 of
     (Inl e, r) \<Rightarrow> (Inl e, r)
   | (Inr h, r) \<Rightarrow>
       if mt h = major_uint then
         (if int64_max < head_value h then (Inl (out_of_range_error (dec_u64 (head_value h)) h r), r)
          else consume h (head_value h) r)
       else if mt h = major_nint then
         (if int64_max < head_value h then (Inl (out_of_range_error (negative_text (head_value h)) h r), r)
          else consume h (- 1 - head_value h) r)
       else (Inl (type_error ''integer'' h r), r))"

definition expect_simple :: "cbor_options \<Rightarrow> creader \<Rightarrow> u8 read" where
  "expect_simple opts r0 = (case item_head opts ''simple value'' r0 of
     (Inl e, r) \<Rightarrow> (Inl e, r)
   | (Inr h, r) \<Rightarrow>
       if mt h \<noteq> major_simple \<or> 20 \<le> ai h \<and> ai h \<le> 23 \<or> 25 \<le> ai h \<and> ai h \<le> 27
       then (Inl (type_error ''simple value'' h r), r)
       else consume h (ucast (head_value h)) r)"

definition expect_nint :: "cbor_options \<Rightarrow> creader \<Rightarrow> u64 read" where
  "expect_nint opts r0 = (case item_head opts ''negative integer'' r0 of
     (Inl e, r) \<Rightarrow> (Inl e, r)
   | (Inr h, r) \<Rightarrow>
       if mt h \<noteq> major_nint then (Inl (type_error ''negative integer'' h r), r)
       else consume h (head_value h) r)"

definition expect_real :: "cbor_options \<Rightarrow> creader \<Rightarrow> u64 read" where
  "expect_real opts r0 = (case item_head opts ''float'' r0 of
     (Inl e, r) \<Rightarrow> (Inl e, r)
   | (Inr h, r) \<Rightarrow>
       if mt h = major_uint then consume h (double_of_u64 (head_value h)) r
       else if mt h = major_nint then consume h (minus_one_minus (double_of_u64 (head_value h))) r
       else if mt h = major_simple \<and> 25 \<le> ai h \<and> ai h \<le> 27 then
         (case error_if (o_require_deterministic opts) (check_preferred_float (float_value h) (ai h) (head_value h) (r_pos r)) of
            Some e \<Rightarrow> (Inl e, r)
          | None \<Rightarrow> consume h (float_value h) r)
       else (Inl (type_error ''float'' h r), r))"

section \<open>Strings\<close>

definition string_truncated :: "parsed_head \<Rightarrow> nat \<Rightarrow> error" where
  "string_truncated h p = with_length (head_length h)
     (with_expected (dec_u64 (head_value h) @ '' string bytes'') (mk_error truncated p))"

text \<open>\<^verbatim>\<open>h.value > in_.size() - pos_ - h.length\<close>: the announced octets are not there.\<close>

definition too_long :: "parsed_head \<Rightarrow> bytes \<Rightarrow> nat \<Rightarrow> bool" where
  "too_long h inp p \<longleftrightarrow> int (length inp - p - head_length h) < uint (head_value h)"

definition chunk_utf8_error :: "cbor_options \<Rightarrow> major \<Rightarrow> nat \<Rightarrow> bytes \<Rightarrow> error option" where
  "chunk_utf8_error opts m p0 spn = (if o_validate_utf8 opts \<and> m = major_text then
     map_option (\<lambda>bad. with_length 1 (mk_error invalid_utf8 (p0 + bad))) (validate_utf8 (string_of_bytes spn)) else None)"

text \<open>The chunk loop of an indefinite-length string: the position reached and the assembled octets,
  with the error if there is one. The reserved flag of a chunk's head is not looked at.\<close>

function read_chunks :: "cbor_options \<Rightarrow> major \<Rightarrow> bytes \<Rightarrow> nat \<Rightarrow> bytes \<Rightarrow> error option \<times> nat \<times> bytes" where
  "read_chunks opts m inp p acc =
     (if length inp \<le> p then (Some (with_expected ''string chunk or break'' (mk_error truncated p)), p, acc)
      else if inp ! p = break_byte then (None, p + 1, acc)
      else
        let c = parse_head inp p in
        if head_length c = 0 then (Some (mk_error truncated p), p, acc)
        else if mt c \<noteq> m \<or> indefinite c then
          (Some (with_length (head_length c)
            (with_detail ''indefinite-length string chunk must be a definite-length string of the same type''
            (mk_error malformed_item p))), p, acc)
        else if too_long c inp p then (Some (string_truncated c p), p, acc)
        else
          let spn = subspan inp (p + head_length c) (unat (head_value c)) in
          case chunk_utf8_error opts m (p + head_length c) spn of
            Some e \<Rightarrow> (Some e, p, acc)
          | None \<Rightarrow> read_chunks opts m inp (p + head_length c + unat (head_value c)) (acc @ spn))"
  by pat_completeness auto
termination
  by (relation "measure (\<lambda>(opts, m, inp, p, acc). length inp - p)") auto

declare read_chunks.simps [simp del]

text \<open>\<^verbatim>\<open>read_string\<close>: the octets, whether they were assembled in the scratch buffer, and the scratch
  buffer after the call (\<open>None\<close> when it was not touched).\<close>

definition read_string :: "cbor_options \<Rightarrow> parsed_head \<Rightarrow> major \<Rightarrow> creader \<Rightarrow> (bytes \<times> bool) read \<times> bytes option" where
  "read_string opts h m r =
     (if \<not> indefinite h then
        (if too_long h (r_in r) (r_pos r) then ((Inl (string_truncated h (r_pos r)), r), None)
         else ((Inr (subspan (r_in r) (r_pos r + head_length h) (unat (head_value h)), False),
                r_advance (head_length h + unat (head_value h)) r), None))
      else if o_require_deterministic opts then ((Inl (indefinite_error h (r_pos r)), r), None)
      else
        (case read_chunks opts m (r_in r) (r_pos r + head_length h) [] of
           (Some e, p, acc) \<Rightarrow> ((Inl e, r\<lparr>r_pos := p\<rparr>), Some acc)
         | (None, p, acc) \<Rightarrow> ((Inr (acc, True), r\<lparr>r_pos := p\<rparr>), Some acc)))"

definition expect_text :: "cbor_options \<Rightarrow> creader \<Rightarrow> text_ref read" where
  "expect_text opts r0 = (case item_head opts ''text string'' r0 of
     (Inl e, r) \<Rightarrow> (Inl e, r)
   | (Inr h, r) \<Rightarrow>
       if mt h \<noteq> major_text then (Inl (type_error ''text string'' h r), r)
       else (case read_string opts h major_text r of
           ((Inl e, r1), sc) \<Rightarrow> (Inl e, (case sc of Some s \<Rightarrow> r1\<lparr>text_scratch := s\<rparr> | None \<Rightarrow> r1))
         | ((Inr (bs, scratch), r1), sc) \<Rightarrow>
             let r2 = (case sc of Some s \<Rightarrow> r1\<lparr>text_scratch := s\<rparr> | None \<Rightarrow> r1) in
             case error_if (o_validate_utf8 opts) (map_option (\<lambda>bad. with_length 1
                 (mk_error invalid_utf8 (r_start r2 + (if scratch then 0 else head_length h + bad))))
                 (validate_utf8 (string_of_bytes bs))) of
               Some e \<Rightarrow> (Inl e, r2)
             | None \<Rightarrow> (Inr \<lparr>t_text = string_of_bytes bs, t_borrowed = \<not> scratch, t_raw_length = r_pos r2 - r_start r2\<rparr>, r2)))"

definition expect_bytes :: "cbor_options \<Rightarrow> creader \<Rightarrow> bytes_ref read" where
  "expect_bytes opts r0 = (case item_head opts ''byte string'' r0 of
     (Inl e, r) \<Rightarrow> (Inl e, r)
   | (Inr h, r) \<Rightarrow>
       if mt h \<noteq> major_bytes then (Inl (type_error ''byte string'' h r), r)
       else (case read_string opts h major_bytes r of
           ((Inl e, r1), sc) \<Rightarrow> (Inl e, (case sc of Some s \<Rightarrow> r1\<lparr>bytes_scratch := s\<rparr> | None \<Rightarrow> r1))
         | ((Inr (bs, scratch), r1), sc) \<Rightarrow>
             (Inr \<lparr>b_bytes = bs, b_borrowed = \<not> scratch\<rparr>, (case sc of Some s \<Rightarrow> r1\<lparr>bytes_scratch := s\<rparr> | None \<Rightarrow> r1))))"

record bignum_ref =
  negative :: bool
  magnitude :: bytes

definition expect_bignum :: "cbor_options \<Rightarrow> creader \<Rightarrow> bignum_ref read" where
  "expect_bignum opts r0 = (case raw_head r0 of
     (Inl e, r) \<Rightarrow> (Inl e, r)
   | (Inr h, r) \<Rightarrow>
       if mt h \<noteq> major_tag \<or> head_value h \<noteq> 2 \<and> head_value h \<noteq> 3 then
         (Inl (with_length (head_length h) (with_found (found_name h)
            (with_expected ''tag 2 or 3 (bignum)'' (mk_error tag_mismatch (r_pos r))))), r)
       else (case expect_bytes opts (r_advance (head_length h) r) of
           (Inl e, r1) \<Rightarrow> (Inl e, r1\<lparr>r_pos := r_pos r\<rparr>)
         | (Inr b, r1) \<Rightarrow> (Inr \<lparr>negative = (head_value h = 3), magnitude = b_bytes b\<rparr>, r1)))"

fun expect_tags :: "u64 list \<Rightarrow> creader \<Rightarrow> unit read" where
  "expect_tags [] r = (Inr (), r)"
| "expect_tags (t # ts) r0 = (case raw_head r0 of
     (Inl e, r) \<Rightarrow> (Inl e, r)
   | (Inr h, r) \<Rightarrow>
       if mt h \<noteq> major_tag \<or> head_value h \<noteq> t then
         (Inl (with_length (head_length h)
            (with_found (if mt h = major_tag then named_tag (head_value h) else ''no tag'')
            (with_expected (named_tag t) (mk_error tag_mismatch (r_pos r))))), r)
       else expect_tags ts (r_advance (head_length h) r))"

section \<open>The generic validator\<close>

record level =
  l_is_map :: bool
  l_remaining :: "u64 option"
  l_key_next :: bool
  l_key_start :: nat
  l_prev_start :: nat
  l_prev_end :: nat
  l_in_key :: bool
  l_have_prev :: bool

definition new_level :: "bool \<Rightarrow> u64 option \<Rightarrow> level" where
  "new_level mp n = \<lparr>l_is_map = mp, l_remaining = n, l_key_next = True, l_key_start = 0, l_prev_start = 0,
     l_prev_end = 0, l_in_key = False, l_have_prev = False\<rparr>"

text \<open>One iteration of the loop: it fails, returns, or goes round again with a new stack (innermost
  level first).\<close>

datatype skip_outcome = Skip_fail error creader | Skip_done creader | Skip_more "level list" creader

definition level_key_done :: "nat \<Rightarrow> level \<Rightarrow> level" where
  "level_key_done p lvl = lvl\<lparr>l_prev_start := l_key_start lvl, l_prev_end := p, l_have_prev := True, l_in_key := False\<rparr>"

definition level_key_error :: "cbor_options \<Rightarrow> bytes \<Rightarrow> nat \<Rightarrow> level \<Rightarrow> error option" where
  "level_key_error opts inp p lvl =
     (if o_require_deterministic opts \<and> l_is_map lvl \<and> l_key_next lvl \<and> l_have_prev lvl then
        key_order_error (subspan inp (l_key_start lvl) (p - l_key_start lvl))
          (subspan inp (l_prev_start lvl) (l_prev_end lvl - l_prev_start lvl)) (l_key_start lvl)
      else None)"

text \<open>The label \<^verbatim>\<open>item_done\<close>: an item of the innermost level is complete.\<close>

fun item_done :: "cbor_options \<Rightarrow> level list \<Rightarrow> creader \<Rightarrow> skip_outcome" where
  "item_done opts [] r = Skip_done r"
| "item_done opts (lvl # rest) r =
     (case level_key_error opts (r_in r) (r_pos r) lvl of
        Some e \<Rightarrow> Skip_fail e r
      | None \<Rightarrow>
          let t1 = (if o_require_deterministic opts \<and> l_is_map lvl \<and> l_key_next lvl then level_key_done (r_pos r) lvl else lvl);
              t2 = (if l_is_map t1 then t1\<lparr>l_key_next := \<not> l_key_next t1\<rparr> else t1)
          in case l_remaining t2 of
              None \<Rightarrow> Skip_more (t2 # rest) r
            | Some n \<Rightarrow> if n - 1 = 0 then item_done opts rest (r\<lparr>r_depth := r_depth r - 1\<rparr>)
                else Skip_more (t2\<lparr>l_remaining := Some (n - 1)\<rparr> # rest) r)"

definition mark_key :: "cbor_options \<Rightarrow> nat \<Rightarrow> level list \<Rightarrow> level list" where
  "mark_key opts p st = (case st of [] \<Rightarrow> [] | lvl # rest \<Rightarrow>
     if o_require_deterministic opts \<and> l_is_map lvl \<and> l_key_next lvl \<and> \<not> l_in_key lvl
     then lvl\<lparr>l_key_start := p, l_in_key := True\<rparr> # rest else st)"

definition skip_break :: "cbor_options \<Rightarrow> level list \<Rightarrow> creader \<Rightarrow> skip_outcome" where
  "skip_break opts st r = (case st of
     [] \<Rightarrow> Skip_fail (break_error (r_pos r)) r
   | lvl # rest \<Rightarrow>
       if l_remaining lvl \<noteq> None then Skip_fail (break_error (r_pos r)) r
       else if l_is_map lvl \<and> \<not> l_key_next lvl then
         Skip_fail (with_length 1 (with_detail ''break after a map key'' (mk_error malformed_item (r_pos r)))) r
       else item_done opts rest (r\<lparr>r_pos := r_pos r + 1, r_depth := r_depth r - 1\<rparr>))"

definition skip_string :: "cbor_options \<Rightarrow> parsed_head \<Rightarrow> level list \<Rightarrow> creader \<Rightarrow> skip_outcome" where
  "skip_string opts h st r =
     (case read_string opts h (mt h) r of
        ((Inl e, r1), sc) \<Rightarrow> Skip_fail e (case sc of Some s \<Rightarrow> r1\<lparr>skip_scratch := s\<rparr> | None \<Rightarrow> r1)
      | ((Inr (bs, scratch), r1), sc) \<Rightarrow>
          let r2 = (case sc of Some s \<Rightarrow> r1\<lparr>skip_scratch := s\<rparr> | None \<Rightarrow> r1) in
          case error_if (o_validate_utf8 opts \<and> mt h = major_text) (map_option (\<lambda>bad. with_length 1
              (mk_error invalid_utf8 (if scratch then r_pos r else r_pos r + head_length h + bad)))
              (validate_utf8 (string_of_bytes bs))) of
            Some e \<Rightarrow> Skip_fail e r2
          | None \<Rightarrow> item_done opts st r2)"

definition skip_tag :: "parsed_head \<Rightarrow> level list \<Rightarrow> creader \<Rightarrow> skip_outcome" where
  "skip_tag h st r0 =
     (let r = r_advance (head_length h) r0 in
      if r_size r \<le> r_pos r then Skip_fail (with_expected ''tagged item'' (mk_error truncated (r_pos r))) r
      else if r_in r ! r_pos r = break_byte then
        Skip_fail (with_length 1 (with_detail ''tag with no content'' (mk_error malformed_item (r_pos r)))) r
      else Skip_more st r)"

text \<open>The count of a map's items, \<^verbatim>\<open>h.value * 2\<close>, is computed in 64 bits.\<close>

definition skip_container :: "cbor_options \<Rightarrow> parsed_head \<Rightarrow> level list \<Rightarrow> creader \<Rightarrow> skip_outcome" where
  "skip_container opts h st r0 =
     (if o_max_depth opts \<le> r_depth r0 then Skip_fail (depth_error opts r0) r0
      else
        let r = (r_advance (head_length h) r0)\<lparr>r_depth := r_depth r0 + 1\<rparr> in
        if indefinite h then Skip_more (new_level (mt h = major_map) None # st) r
        else if head_value h = 0 then item_done opts st (r\<lparr>r_depth := r_depth r - 1\<rparr>)
        else Skip_more (new_level (mt h = major_map)
          (Some (if mt h = major_map then head_value h * 2 else head_value h)) # st) r)"

definition skip_simple :: "cbor_options \<Rightarrow> parsed_head \<Rightarrow> level list \<Rightarrow> creader \<Rightarrow> skip_outcome" where
  "skip_simple opts h st r =
     (if ai h = 24 \<and> head_value h < 32 then Skip_fail (simple_error (r_pos r)) r
      else case error_if (o_require_deterministic opts \<and> 25 \<le> ai h)
          (check_preferred_float (float_value h) (ai h) (head_value h) (r_pos r)) of
        Some e \<Rightarrow> Skip_fail e r
      | None \<Rightarrow> item_done opts st (r_advance (head_length h) r))"

definition skip_step :: "cbor_options \<Rightarrow> level list \<Rightarrow> creader \<Rightarrow> skip_outcome" where
  "skip_step opts st0 r =
     (if r_size r \<le> r_pos r then Skip_fail (mk_error truncated (r_pos r)) r
      else
        let st = mark_key opts (r_pos r) st0; h = parse_head (r_in r) (r_pos r) in
        if head_length h = 0 then Skip_fail (mk_error truncated (r_pos r)) r
        else if is_break h then skip_break opts st r
        else if reserved h then Skip_fail (reserved_error (r_pos r)) r
        else case error_if (o_require_deterministic opts) (check_head_deterministic h (r_pos r)) of
          Some e \<Rightarrow> Skip_fail e r
        | None \<Rightarrow>
          (case mt h of
             major_uint \<Rightarrow> item_done opts st (r_advance (head_length h) r)
           | major_nint \<Rightarrow> item_done opts st (r_advance (head_length h) r)
           | major_simple \<Rightarrow> skip_simple opts h st r
           | major_bytes \<Rightarrow> skip_string opts h st r
           | major_text \<Rightarrow> skip_string opts h st r
           | major_tag \<Rightarrow> skip_tag h st r
           | major_array \<Rightarrow> skip_container opts h st r
           | major_map \<Rightarrow> skip_container opts h st r))"

text \<open>Every iteration that goes round again has consumed input.\<close>

lemma r_advance_simps [simp]:
  "r_in (r_advance n r) = r_in r" "r_pos (r_advance n r) = r_pos r + n" "r_depth (r_advance n r) = r_depth r"
  "r_start (r_advance n r) = r_start r" "r_pending (r_advance n r) = r_pending r"
  "r_collected (r_advance n r) = r_collected r"
  by (simp_all add: r_advance_def)

fun outcome_reader :: "skip_outcome \<Rightarrow> creader" where
  "outcome_reader (Skip_fail e r) = r"
| "outcome_reader (Skip_done r) = r"
| "outcome_reader (Skip_more st r) = r"

lemma item_done_reader [simp]:
  "r_in (outcome_reader (item_done opts st r)) = r_in r" "r_pos (outcome_reader (item_done opts st r)) = r_pos r"
  by (induction opts st r rule: item_done.induct) (auto simp: Let_def split: option.splits)

lemma too_long_bound:
  "\<not> too_long h inp p \<Longrightarrow> p + head_length h \<le> length inp \<Longrightarrow> p + head_length h + unat (head_value h) \<le> length inp"
proof -
  assume "\<not> too_long h inp p" "p + head_length h \<le> length inp"
  then have "uint (head_value h) \<le> int (length inp - p - head_length h)" by (simp add: too_long_def)
  then have "unat (head_value h) \<le> length inp - p - head_length h" by (simp only: unat_eq_nat_uint nat_le_iff)
  with \<open>p + head_length h \<le> length inp\<close> show ?thesis by linarith
qed

lemma read_chunks_bounds:
  assumes "read_chunks opts m inp p acc = (e, p', acc')" "p \<le> length inp"
  shows "p \<le> p' \<and> p' \<le> length inp \<and> (e = None \<longrightarrow> p < p')"
  using assms
proof (induction opts m inp p acc arbitrary: e p' acc' rule: read_chunks.induct)
  case (1 opts m inp p acc)
  define c where "c = parse_head inp p"
  define spn where "spn = subspan inp (p + head_length c) (unat (head_value c))"
  show ?case
  proof (cases "\<not> length inp \<le> p \<and> inp ! p \<noteq> break_byte \<and> head_length c \<noteq> 0 \<and> mt c = m \<and> \<not> indefinite c
      \<and> \<not> too_long c inp p \<and> chunk_utf8_error opts m (p + head_length c) spn = None")
    case True
    then have rec: "read_chunks opts m inp (p + head_length c + unat (head_value c)) (acc @ spn) = (e, p', acc')"
      using 1(2) by (subst (asm) read_chunks.simps) (simp add: Let_def c_def [symmetric] spn_def [symmetric])
    have le: "p + head_length c + unat (head_value c) \<le> length inp"
      using True too_long_bound parse_head_length_bound [of inp p] unfolding c_def by blast
    have "p + head_length c + unat (head_value c) \<le> p' \<and> p' \<le> length inp \<and> (e = None \<longrightarrow> p + head_length c + unat (head_value c) < p')"
      using 1(1) [of c spn, OF _ _ c_def _ _ _ spn_def _ rec le] True by simp
    with True show ?thesis by linarith
  next
    case False
    have "read_chunks opts m inp p acc = (e, p', acc')" by (rule 1(2))
    then have "p' = p \<and> e \<noteq> None \<or> p' = p + 1 \<and> p < length inp"
      using False by (subst (asm) read_chunks.simps)
        (auto simp: Let_def c_def [symmetric] spn_def [symmetric] split: if_splits option.splits, metis)
    with 1(3) show ?thesis by auto
  qed
qed

lemma read_string_bounds:
  assumes "read_string opts h m r = ((res, r'), sc)" "r_pos r + head_length h \<le> r_size r"
  shows "r_in r' = r_in r \<and> r_depth r' = r_depth r \<and> r_pos r \<le> r_pos r' \<and> r_pos r' \<le> r_size r
    \<and> (\<forall>x. res = Inr x \<longrightarrow> r_pos r + head_length h \<le> r_pos r')"
  using assms read_chunks_bounds [of opts m "r_in r" "r_pos r + head_length h" "[]"] too_long_bound [of h "r_in r" "r_pos r"]
  by (auto simp: read_string_def r_size_def split: if_splits prod.splits option.splits)

definition progresses :: "creader \<Rightarrow> skip_outcome \<Rightarrow> bool" where
  "progresses r oc \<longleftrightarrow> r_in (outcome_reader oc) = r_in r
     \<and> (case oc of Skip_fail e r' \<Rightarrow> True
        | _ \<Rightarrow> r_pos r < r_pos (outcome_reader oc) \<and> r_pos (outcome_reader oc) \<le> r_size r)"

lemma progresses_fail [simp]: "progresses r (Skip_fail e r') \<longleftrightarrow> r_in r' = r_in r"
  by (simp add: progresses_def)

lemma progresses_more [simp]:
  "progresses r (Skip_more st r') \<longleftrightarrow> r_in r' = r_in r \<and> r_pos r < r_pos r' \<and> r_pos r' \<le> r_size r"
  by (simp add: progresses_def)

lemma progresses_item_done:
  "r_in r' = r_in r \<Longrightarrow> r_pos r < r_pos r' \<Longrightarrow> r_pos r' \<le> r_size r \<Longrightarrow> progresses r (item_done opts st r')"
  using item_done_reader [of opts st r'] by (cases "item_done opts st r'") (simp_all add: progresses_def)

lemma progresses_break:
  "r_pos r < r_size r \<Longrightarrow> progresses r (skip_break opts st r)"
  by (simp add: skip_break_def progresses_item_done split: list.splits)

lemma progresses_head:
  assumes "head_length h \<noteq> 0" "r_pos r + head_length h \<le> r_size r"
  shows "progresses r (item_done opts st (r_advance (head_length h) r))" "progresses r (skip_simple opts h st r)"
    "progresses r (skip_tag h st r)" "progresses r (skip_container opts h st r)"
  using assms
  by (simp_all add: progresses_item_done skip_simple_def skip_tag_def skip_container_def Let_def r_size_def split: option.splits)

lemma progresses_string:
  assumes "head_length h \<noteq> 0" "r_pos r + head_length h \<le> r_size r"
  shows "progresses r (skip_string opts h st r)"
proof -
  obtain res r1 sc where rs: "read_string opts h (mt h) r = ((res, r1), sc)" by (metis prod.exhaust)
  from read_string_bounds [OF rs assms(2)] assms(1) show ?thesis
    by (cases res; cases sc) (simp_all add: skip_string_def rs Let_def progresses_item_done split: option.splits prod.splits)
qed

lemma skip_step_progresses: "progresses r (skip_step opts st r)"
proof -
  define h where "h = parse_head (r_in r) (r_pos r)"
  have "head_length h \<noteq> 0 \<Longrightarrow> r_pos r + head_length h \<le> r_size r"
    using parse_head_length_bound by (simp add: h_def r_size_def)
  note ph = progresses_head [OF _ this] progresses_string [OF _ this]
  show ?thesis
    unfolding skip_step_def Let_def h_def [symmetric]
    by (simp add: ph progresses_break split: major.splits option.splits)
qed

lemma skip_step_progress:
  assumes "skip_step opts st r = Skip_more st' r'"
  shows "r_in r' = r_in r \<and> r_pos r < r_pos r' \<and> r_pos r' \<le> r_size r"
  using skip_step_progresses [of r opts st] by (simp add: assms)

function skip_loop :: "cbor_options \<Rightarrow> level list \<Rightarrow> creader \<Rightarrow> unit read" where
  "skip_loop opts st r = (case skip_step opts st r of
     Skip_fail e r' \<Rightarrow> (Inl e, r')
   | Skip_done r' \<Rightarrow> (Inr (), r')
   | Skip_more st' r' \<Rightarrow> skip_loop opts st' r')"
  by pat_completeness auto
termination
proof (relation "measure (\<lambda>(opts, st, r). r_size r - r_pos r)", goal_cases)
  case (2 opts st r st' r')
  from skip_step_progress [OF this] show ?case by (auto simp: r_size_def intro: diff_less_mono2)
qed simp

declare skip_loop.simps [simp del]

definition skip_value :: "cbor_options \<Rightarrow> creader \<Rightarrow> unit read" where
  "skip_value opts r = skip_loop opts [] r"

section \<open>Containers\<close>

definition enter :: "cbor_options \<Rightarrow> creader \<Rightarrow> unit read" where
  "enter opts r = (if o_max_depth opts \<le> r_depth r then (Inl (depth_error opts r), r)
     else (Inr (), r\<lparr>r_depth := r_depth r + 1\<rparr>))"

text \<open>A cursor holds the count that remains, \<open>None\<close> for an indefinite container; a map cursor also
  the extent of the previous key.\<close>

record map_cursor =
  c_remaining :: "u64 option"
  c_prev_start :: nat
  c_prev_end :: nat
  c_have_prev :: bool

definition expect_array :: "cbor_options \<Rightarrow> creader \<Rightarrow> u64 option read" where
  "expect_array opts r0 = (case item_head opts ''array'' r0 of
     (Inl e, r) \<Rightarrow> (Inl e, r)
   | (Inr h, r) \<Rightarrow>
       if mt h \<noteq> major_array then (Inl (type_error ''array'' h r), r)
       else (case enter opts r of
           (Inl e, r1) \<Rightarrow> (Inl e, r1)
         | (Inr _, r1) \<Rightarrow> (Inr (if indefinite h then None else Some (head_value h)), r_advance (head_length h) r1)))"

definition expect_map :: "cbor_options \<Rightarrow> creader \<Rightarrow> map_cursor read" where
  "expect_map opts r0 = (case item_head opts ''map'' r0 of
     (Inl e, r) \<Rightarrow> (Inl e, r)
   | (Inr h, r) \<Rightarrow>
       if mt h \<noteq> major_map then (Inl (type_error ''map'' h r), r)
       else (case enter opts r of
           (Inl e, r1) \<Rightarrow> (Inl e, r1)
         | (Inr _, r1) \<Rightarrow> (Inr \<lparr>c_remaining = (if indefinite h then None else Some (head_value h)),
               c_prev_start = 0, c_prev_end = 0, c_have_prev = False\<rparr>, r_advance (head_length h) r1)))"

definition leave :: "creader \<Rightarrow> creader" where
  "leave r = r\<lparr>r_depth := r_depth r - 1\<rparr>"

definition seq_next :: "u64 option \<Rightarrow> creader \<Rightarrow> (bool \<times> u64 option) read" where
  "seq_next c r = (case c of
     Some n \<Rightarrow>
       if n = 0 then (Inr (False, Some n), leave r)
       else if r_size r \<le> r_pos r then (Inl (with_expected ''array element'' (mk_error truncated (r_pos r))), r)
       else (Inr (True, Some (n - 1)), r)
   | None \<Rightarrow>
       if r_size r \<le> r_pos r then (Inl (with_expected ''array element or break'' (mk_error truncated (r_pos r))), r)
       else if r_in r ! r_pos r = break_byte then (Inr (False, None), leave (r_advance 1 r))
       else (Inr (True, None), r))"

definition check_key_order :: "bytes \<Rightarrow> nat \<Rightarrow> nat \<Rightarrow> map_cursor \<Rightarrow> error option \<times> map_cursor" where
  "check_key_order inp start stop c =
     ((if c_have_prev c then key_order_error (subspan inp start (stop - start))
         (subspan inp (c_prev_start c) (c_prev_end c - c_prev_start c)) start else None),
      c\<lparr>c_prev_start := start, c_prev_end := stop, c_have_prev := True\<rparr>)"

text \<open>\<^verbatim>\<open>key_ahead\<close> validates the key over a saved position; only the skip scratch buffer survives it.\<close>

definition key_ahead :: "cbor_options \<Rightarrow> map_cursor \<Rightarrow> creader \<Rightarrow> (bool \<times> map_cursor) read" where
  "key_ahead opts c r =
     (if o_require_deterministic opts then
        (case skip_value opts r of
           (res, r1) \<Rightarrow>
             let r2 = restore (save r) r1 in
             case res of
               Inl _ \<Rightarrow> (Inr (True, c), r2)
             | Inr _ \<Rightarrow> (case check_key_order (r_in r) (r_pos r) (r_pos r1) c of
                   (Some e, c1) \<Rightarrow> (Inl e, r2)
                 | (None, c1) \<Rightarrow> (Inr (True, c1), r2)))
      else (Inr (True, c), r))"

definition map_next :: "cbor_options \<Rightarrow> map_cursor \<Rightarrow> creader \<Rightarrow> (bool \<times> map_cursor) read" where
  "map_next opts c r = (case c_remaining c of
     Some n \<Rightarrow>
       if n = 0 then (Inr (False, c), leave r)
       else if r_size r \<le> r_pos r then (Inl (with_expected ''map key'' (mk_error truncated (r_pos r))), r)
       else key_ahead opts (c\<lparr>c_remaining := Some (n - 1)\<rparr>) r
   | None \<Rightarrow>
       if r_size r \<le> r_pos r then (Inl (with_expected ''map key or break'' (mk_error truncated (r_pos r))), r)
       else if r_in r ! r_pos r = break_byte then (Inr (False, c), leave (r_advance 1 r))
       else key_ahead opts c r)"

section \<open>Top level\<close>

definition finish :: "creader \<Rightarrow> unit read" where
  "finish r = (if r_pos r < r_size r then (Inl (with_length 1 (mk_error trailing_content (r_pos r))), r) else (Inr (), r))"

definition self_described :: u64 where "self_described = 55799"

definition start :: "creader \<Rightarrow> creader" where
  "start r = (let h = parse_head (r_in r) (r_pos r) in
     if head_length h \<noteq> 0 \<and> mt h = major_tag \<and> head_value h = self_described then r_advance (head_length h) r else r)"

section \<open>RFC 8746 typed arrays\<close>

text \<open>An element type of a numeric range. An element is its memory image as an unsigned number, in the
  low bits of a 64-bit word. The machine is little-endian.\<close>

datatype num_type = n_int bool nat | n_float | n_double

fun n_size :: "num_type \<Rightarrow> nat" where
  "n_size (n_int s k) = k" | "n_size n_float = 4" | "n_size n_double = 8"

fun is_float_type :: "num_type \<Rightarrow> bool" where
  "is_float_type (n_int s k) = False" | "is_float_type n_float = True" | "is_float_type n_double = True"

definition native_little :: bool where "native_little = True"

fun typed_array_tag :: "num_type \<Rightarrow> u64" where
  "typed_array_tag n_float = (if native_little then 85 else 81)"
| "typed_array_tag n_double = (if native_little then 86 else 82)"
| "typed_array_tag (n_int True k) =
     (if k = 1 then 72 else if k = 2 then (if native_little then 77 else 73)
      else if k = 4 then (if native_little then 78 else 74) else (if native_little then 79 else 75))"
| "typed_array_tag (n_int False k) =
     (if k = 1 then 64 else if k = 2 then (if native_little then 69 else 65)
      else if k = 4 then (if native_little then 70 else 66) else (if native_little then 71 else 67))"

text \<open>The fields a tag encodes: float, little-endian, size, signed.\<close>

definition ta_float :: "u64 \<Rightarrow> bool" where "ta_float tag \<longleftrightarrow> 80 \<le> tag"
definition ta_little :: "u64 \<Rightarrow> bool" where
  "ta_little tag \<longleftrightarrow> (if ta_float tag then 84 \<le> tag else tag AND 4 \<noteq> 0)"
definition ta_size :: "u64 \<Rightarrow> nat" where
  "ta_size tag = (if ta_float tag then 2 * 2 ^ unat (tag - (if ta_little tag then 84 else 80))
     else 2 ^ unat (tag AND 3))"
definition ta_signed :: "u64 \<Rightarrow> bool" where "ta_signed tag \<longleftrightarrow> \<not> ta_float tag \<and> 72 \<le> tag"

definition read_word :: "bool \<Rightarrow> nat \<Rightarrow> bytes \<Rightarrow> nat \<Rightarrow> u64" where
  "read_word little esize bs i =
     foldl (\<lambda>w b. w OR push_bit (8 * (if little then b else esize - 1 - b)) (ucast (bs ! (i * esize + b)))) 0 [0..<esize]"

definition n_min :: "num_type \<Rightarrow> int" where
  "n_min E = (case E of n_int True k \<Rightarrow> - (2 ^ (8 * k - 1)) | _ \<Rightarrow> 0)"
definition n_max :: "num_type \<Rightarrow> int" where
  "n_max E = (case E of n_int True k \<Rightarrow> 2 ^ (8 * k - 1) - 1 | n_int False k \<Rightarrow> 2 ^ (8 * k) - 1 | _ \<Rightarrow> 0)"

definition sign_extend :: "nat \<Rightarrow> u64 \<Rightarrow> u64" where
  "sign_extend esize w =
     (let sign_bit = push_bit (8 * esize - 1) 1 in
      if w AND sign_bit \<noteq> 0 then w OR NOT (push_bit 1 sign_bit - 1) else w)"

text \<open>An integer as a float or a double, and a double as an element of a floating range.\<close>

definition real_of_integer :: "num_type \<Rightarrow> int \<Rightarrow> u64" where
  "real_of_integer E i = (case E of
     n_float \<Rightarrow> ucast ((if i < 0 then 0x80000000 else 0) OR of_int (round_mag Single \<bar>i\<bar> 0) :: u32)
   | _ \<Rightarrow> mk_double (i < 0) (round_mag Double \<bar>i\<bar> 0))"

definition real_of_double :: "num_type \<Rightarrow> u64 \<Rightarrow> u64" where
  "real_of_double E d = (case E of n_float \<Rightarrow> ucast (to_float d) | _ \<Rightarrow> d)"

definition word_to_double :: "nat \<Rightarrow> u64 \<Rightarrow> u64" where
  "word_to_double esize w = (if esize = 2 then from_half (ucast w) else if esize = 4 then from_float (ucast w) else w)"

definition range_error :: "string \<Rightarrow> string \<Rightarrow> nat \<Rightarrow> error" where
  "range_error txt display p = with_context display (with_detail txt (mk_error out_of_range p))"

text \<open>One element: the word read from the array, converted to the element type.\<close>

definition convert_element :: "num_type \<Rightarrow> string \<Rightarrow> u64 \<Rightarrow> nat \<Rightarrow> u64 \<Rightarrow> error + u64" where
  "convert_element E display tag p w =
     (if ta_float tag then
        (if is_float_type E then Inr (real_of_double E (word_to_double (ta_size tag) w))
         else Inl (with_found ''float typed array'' (with_expected ''integer typed array'' (mk_error type_mismatch p))))
      else if ta_signed tag then
        (let sv = sint (sign_extend (ta_size tag) w) in
         if is_float_type E then Inr (real_of_integer E sv)
         else if sv < n_min E \<or> (0 < sv \<and> n_max E < sv) then Inl (range_error (dec_int sv) display p)
         else Inr (take_bit (8 * n_size E) (of_int sv)))
      else
        (if is_float_type E then Inr (real_of_integer E (uint w))
         else if n_max E < uint w then Inl (range_error (dec_u64 w) display p)
         else Inr (take_bit (8 * n_size E) w)))"

fun convert_loop :: "num_type \<Rightarrow> string \<Rightarrow> u64 \<Rightarrow> nat \<Rightarrow> bytes \<Rightarrow> nat list \<Rightarrow> u64 list \<Rightarrow> status \<times> u64 list" where
  "convert_loop E display tag p bs [] dst = (Inr (), dst)"
| "convert_loop E display tag p bs (i # is) dst =
     (case convert_element E display tag p (read_word (ta_little tag) (ta_size tag) bs i) of
        Inl e \<Rightarrow> (Inl e, dst)
      | Inr v \<Rightarrow> convert_loop E display tag p bs is (dst[i := v]))"

text \<open>\<open>dst\<close> is the range before the call; \<open>resizable\<close> tells a container that can grow from an array.\<close>

definition typed_array_into :: "num_type \<Rightarrow> string \<Rightarrow> bool \<Rightarrow> u64 \<Rightarrow> bytes \<Rightarrow> u64 list \<Rightarrow> nat \<Rightarrow> status \<times> u64 list" where
  "typed_array_into E display resizable tag bs dst0 p =
     (let esize = ta_size tag in
      if ta_float tag \<and> esize = 16 then
        (Inl (with_found ''float128 typed array'' (with_expected ''typed array of a supported width'' (mk_error type_mismatch p))), dst0)
      else if length bs mod esize \<noteq> 0 then
        (Inl (with_detail ''typed array length is not a multiple of the element size'' (mk_error malformed_item p)), dst0)
      else
        let n = length bs div esize in
        if \<not> resizable \<and> length dst0 \<noteq> n then
          (Inl (with_found (''array of '' @ dec_nat n @ '' elements'')
             (with_expected (''array of '' @ dec_nat (length dst0) @ '' elements'') (mk_error type_mismatch p))), dst0)
        else
          let dst = (if resizable then replicate n 0 else dst0) in
          if ta_float tag = is_float_type E \<and> esize = n_size E \<and> ta_little tag = native_little
             \<and> (ta_float tag \<or> ta_signed tag = (case E of n_int s k \<Rightarrow> s | _ \<Rightarrow> True)) then
            (Inr (), map (read_word native_little esize bs) [0..<n])
          else convert_loop E display tag p bs [0..<n] dst)"

definition read_range :: "cbor_options \<Rightarrow> num_type \<Rightarrow> string \<Rightarrow> bool \<Rightarrow> u64 list \<Rightarrow> creader \<Rightarrow> bool read \<times> u64 list" where
  "read_range opts E display resizable dst r0 =
     (if \<not> o_accept_typed_arrays opts then ((Inr False, r0), dst)
      else (case raw_head r0 of
          (Inl e, r) \<Rightarrow> ((Inl e, r), dst)
        | (Inr h, r) \<Rightarrow>
            if mt h \<noteq> major_tag \<or> head_value h < 64 \<or> 87 < head_value h \<or> head_value h = 76 then ((Inr False, r), dst)
            else (case expect_bytes opts (r_advance (head_length h) r) of
                (Inl e, r1) \<Rightarrow> ((Inl e, r1\<lparr>r_pos := r_pos r\<rparr>), dst)
              | (Inr b, r1) \<Rightarrow> (case typed_array_into E display resizable (head_value h) (b_bytes b) dst (r_pos r) of
                    (Inl e, dst1) \<Rightarrow> ((Inl e, r1), dst1)
                  | (Inr _, dst1) \<Rightarrow> ((Inr True, r1), dst1)))))"

section \<open>Decoding entry points\<close>

text \<open>The decode engine \<^verbatim>\<open>core::decode\<close> is an argument: it reads a value into the target. \<open>det\<close> is the
  type's determinism, \<open>tname\<close> its schema name.\<close>

definition annotate_type_determinism :: "bool \<Rightarrow> string \<Rightarrow> error \<Rightarrow> error" where
  "annotate_type_determinism det tname e =
     (if det \<and> code e = non_deterministic
      then with_suggestion (suggestion e @ ''; '' @ tname @ '' is declared [[=cbor::deterministic]]'') e else e)"

type_synonym 't engine = "cbor_options \<Rightarrow> 't \<Rightarrow> creader \<Rightarrow> (status \<times> 't) \<times> creader"

definition run_engine :: "'t engine \<Rightarrow> cbor_options \<Rightarrow> 't \<Rightarrow> bytes \<Rightarrow> (status \<times> 't) \<times> creader" where
  "run_engine eng opts out0 inp =
     (case eng opts out0 (start (new_reader inp)) of
        ((Inl e, v), r) \<Rightarrow> ((Inl e, v), r)
      | ((Inr _, v), r) \<Rightarrow> (case take_pending r of (st, r1) \<Rightarrow> ((st, v), r1)))"

definition decode_into :: "'t engine \<Rightarrow> cbor_options \<Rightarrow> bool \<Rightarrow> string \<Rightarrow> 't \<Rightarrow> bytes \<Rightarrow> status \<times> 't" where
  "decode_into eng opts0 det tname out0 inp =
     (let opts = with_type_determinism opts0 det in
      case run_engine eng opts out0 inp of
        ((Inl e, v), r) \<Rightarrow> (Inl (annotate_type_determinism det tname (finalize e)), v)
      | ((Inr _, v), r) \<Rightarrow>
          if o_errors opts = collect \<and> r_collected r \<noteq> [] then (Inl (hd (r_collected r)), v)
          else (fst (finish r), v))"

definition decode :: "'t engine \<Rightarrow> cbor_options \<Rightarrow> bool \<Rightarrow> string \<Rightarrow> 't \<Rightarrow> bytes \<Rightarrow> 't result" where
  "decode eng opts det tname out0 inp =
     (case decode_into eng opts det tname out0 inp of (Inl e, v) \<Rightarrow> Inl e | (Inr _, v) \<Rightarrow> Inr v)"

definition decode_all :: "'t engine \<Rightarrow> cbor_options \<Rightarrow> bool \<Rightarrow> string \<Rightarrow> 't \<Rightarrow> bytes \<Rightarrow> 't \<times> error list" where
  "decode_all eng opts0 det tname out0 inp =
     (let opts = collecting (with_type_determinism opts0 det) in
      case run_engine eng opts out0 inp of
        ((st, v), r) \<Rightarrow>
          let errs = map (annotate_type_determinism det tname) (r_collected r) in
          case st of
            Inl e \<Rightarrow> (v, errs @ [annotate_type_determinism det tname (finalize e)])
          | Inr _ \<Rightarrow> (case finish r of (Inl f, _) \<Rightarrow> (v, errs @ [f]) | (Inr _, _) \<Rightarrow> (v, errs)))"

end
