(* ===== verification/Cbor_Validate.thy ===== *)
theory Cbor_Validate
  imports Cbor_Read
begin

text \<open>
  What the generic validator \<open>skip_value\<close> accepts: a grammar of encoded CBOR items, by extent. The
  validator is a loop over an explicit stack of levels; the grammar is recursive. The flag \<open>strict\<close>
  selects RFC 8949 as written; without it two deviations of the code are admitted: a chunk of an
  indefinite-length string may have a reserved head, and a map that announces more than \<open>2 ^ 63\<close>
  entries is read as one of \<open>2 ^ 63\<close> entries less, because twice the number is reduced modulo \<open>2 ^ 64\<close>.
\<close>

section \<open>The grammar\<close>

definition head_ok :: "cbor_options \<Rightarrow> parsed_head \<Rightarrow> nat \<Rightarrow> bool" where
  "head_ok opts h p \<longleftrightarrow> head_length h \<noteq> 0 \<and> \<not> is_break h \<and> \<not> reserved h
     \<and> (o_require_deterministic opts \<longrightarrow> check_head_deterministic h p = None)"

definition text_ok :: "cbor_options \<Rightarrow> major \<Rightarrow> bytes \<Rightarrow> bool" where
  "text_ok opts m bs \<longleftrightarrow> (o_validate_utf8 opts \<and> m = major_text \<longrightarrow> well_formed_utf8 (string_of_bytes bs))"

text \<open>\<open>chunks_at strict opts m inp p q\<close>: chunks of major type \<open>m\<close> from \<open>p\<close>, closed by the break that
  ends at \<open>q\<close>.\<close>

inductive chunks_at :: "bool \<Rightarrow> cbor_options \<Rightarrow> major \<Rightarrow> bytes \<Rightarrow> nat \<Rightarrow> nat \<Rightarrow> bool"
  for strict opts m inp where
  chunks_break: "p < length inp \<Longrightarrow> inp ! p = break_byte \<Longrightarrow> chunks_at strict opts m inp p (p + 1)"
| chunks_more: "p < length inp \<Longrightarrow> inp ! p \<noteq> break_byte \<Longrightarrow> c = parse_head inp p \<Longrightarrow> head_length c \<noteq> 0 \<Longrightarrow> mt c = m
    \<Longrightarrow> \<not> indefinite c \<Longrightarrow> (strict \<Longrightarrow> \<not> reserved c) \<Longrightarrow> \<not> too_long c inp p
    \<Longrightarrow> text_ok opts m (subspan inp (p + head_length c) (unat (head_value c)))
    \<Longrightarrow> chunks_at strict opts m inp (p + head_length c + unat (head_value c)) q
    \<Longrightarrow> chunks_at strict opts m inp p q"

inductive string_at :: "bool \<Rightarrow> cbor_options \<Rightarrow> parsed_head \<Rightarrow> bytes \<Rightarrow> nat \<Rightarrow> nat \<Rightarrow> bool"
  for strict opts h inp p where
  string_definite: "\<not> indefinite h \<Longrightarrow> \<not> too_long h inp p
    \<Longrightarrow> text_ok opts (mt h) (subspan inp (p + head_length h) (unat (head_value h)))
    \<Longrightarrow> string_at strict opts h inp p (p + head_length h + unat (head_value h))"
| string_chunked: "indefinite h \<Longrightarrow> \<not> o_require_deterministic opts
    \<Longrightarrow> chunks_at strict opts (mt h) inp (p + head_length h) q \<Longrightarrow> string_at strict opts h inp p q"

definition simple_ok :: "cbor_options \<Rightarrow> parsed_head \<Rightarrow> nat \<Rightarrow> bool" where
  "simple_ok opts h p \<longleftrightarrow> \<not> (ai h = 24 \<and> head_value h < 32)
     \<and> (o_require_deterministic opts \<and> 25 \<le> ai h \<longrightarrow> check_preferred_float (float_value h) (ai h) (head_value h) p = None)"

text \<open>The number of elements or entries a container announces; \<open>None\<close> for an indefinite one.\<close>

definition array_count :: "parsed_head \<Rightarrow> nat option" where
  "array_count h = (if indefinite h then None else Some (unat (head_value h)))"

definition map_count :: "bool \<Rightarrow> parsed_head \<Rightarrow> nat option" where
  "map_count strict h = (if indefinite h then None
     else Some (let n = unat (head_value h) in if strict \<or> n \<le> 2 ^ 63 then n else n - 2 ^ 63))"

definition pred_count :: "nat option \<Rightarrow> nat option" where
  "pred_count n = map_option (\<lambda>k. k - 1) n"

definition key_after :: "cbor_options \<Rightarrow> bytes option \<Rightarrow> bytes \<Rightarrow> bool" where
  "key_after opts prev key \<longleftrightarrow> (o_require_deterministic opts \<longrightarrow> (\<forall>b. prev = Some b \<longrightarrow> b < key))"

text \<open>\<open>item_at strict opts inp d p q\<close>: an item at nesting depth \<open>d\<close> from \<open>p\<close> to \<open>q\<close>; \<open>seq_at\<close> the
  elements of an array, \<open>entries_at\<close> the entries of a map after the key \<open>prev\<close>.\<close>

inductive item_at :: "bool \<Rightarrow> cbor_options \<Rightarrow> bytes \<Rightarrow> nat \<Rightarrow> nat \<Rightarrow> nat \<Rightarrow> bool"
  and seq_at :: "bool \<Rightarrow> cbor_options \<Rightarrow> bytes \<Rightarrow> nat \<Rightarrow> nat option \<Rightarrow> nat \<Rightarrow> nat \<Rightarrow> bool"
  and entries_at :: "bool \<Rightarrow> cbor_options \<Rightarrow> bytes \<Rightarrow> nat \<Rightarrow> bytes option \<Rightarrow> nat option \<Rightarrow> nat \<Rightarrow> nat \<Rightarrow> bool"
  for strict opts inp where
  item_int: "h = parse_head inp p \<Longrightarrow> head_ok opts h p \<Longrightarrow> mt h = major_uint \<or> mt h = major_nint
    \<Longrightarrow> item_at strict opts inp d p (p + head_length h)"
| item_simple: "h = parse_head inp p \<Longrightarrow> head_ok opts h p \<Longrightarrow> mt h = major_simple \<Longrightarrow> simple_ok opts h p
    \<Longrightarrow> item_at strict opts inp d p (p + head_length h)"
| item_string: "h = parse_head inp p \<Longrightarrow> head_ok opts h p \<Longrightarrow> mt h = major_bytes \<or> mt h = major_text
    \<Longrightarrow> string_at strict opts h inp p q \<Longrightarrow> item_at strict opts inp d p q"
| item_tag: "h = parse_head inp p \<Longrightarrow> head_ok opts h p \<Longrightarrow> mt h = major_tag
    \<Longrightarrow> item_at strict opts inp d (p + head_length h) q \<Longrightarrow> item_at strict opts inp d p q"
| item_array: "h = parse_head inp p \<Longrightarrow> head_ok opts h p \<Longrightarrow> mt h = major_array \<Longrightarrow> d < o_max_depth opts
    \<Longrightarrow> seq_at strict opts inp (Suc d) (array_count h) (p + head_length h) q \<Longrightarrow> item_at strict opts inp d p q"
| item_map: "h = parse_head inp p \<Longrightarrow> head_ok opts h p \<Longrightarrow> mt h = major_map \<Longrightarrow> d < o_max_depth opts
    \<Longrightarrow> entries_at strict opts inp (Suc d) None (map_count strict h) (p + head_length h) q
    \<Longrightarrow> item_at strict opts inp d p q"
| seq_end: "seq_at strict opts inp d (Some 0) p p"
| seq_break: "p < length inp \<Longrightarrow> inp ! p = break_byte \<Longrightarrow> seq_at strict opts inp d None p (p + 1)"
| seq_more: "n \<noteq> Some 0 \<Longrightarrow> item_at strict opts inp d p p1 \<Longrightarrow> seq_at strict opts inp d (pred_count n) p1 q
    \<Longrightarrow> seq_at strict opts inp d n p q"
| entries_end: "entries_at strict opts inp d prev (Some 0) p p"
| entries_break: "p < length inp \<Longrightarrow> inp ! p = break_byte \<Longrightarrow> entries_at strict opts inp d prev None p (p + 1)"
| entries_more: "n \<noteq> Some 0 \<Longrightarrow> item_at strict opts inp d p p1 \<Longrightarrow> item_at strict opts inp d p1 p2
    \<Longrightarrow> key_after opts prev (subspan inp p (p1 - p))
    \<Longrightarrow> entries_at strict opts inp d (Some (subspan inp p (p1 - p))) (pred_count n) p2 q
    \<Longrightarrow> entries_at strict opts inp d prev n p q"

inductive_cases chunks_atE: "chunks_at strict opts m inp p q"
inductive_cases seq_end_cases: "seq_at strict opts inp d (Some 0) p q"
inductive_cases entries_end_cases: "entries_at strict opts inp d prev (Some 0) p q"

section \<open>Strings\<close>

lemma text_ok_chunk: "chunk_utf8_error opts m p bs = None \<longleftrightarrow> text_ok opts m bs"
  by (auto simp: text_ok_def chunk_utf8_error_def validate_utf8_None_iff)

lemma text_ok_append: "text_ok opts m a \<Longrightarrow> text_ok opts m b \<Longrightarrow> text_ok opts m (a @ b)"
  by (auto simp: text_ok_def string_of_bytes_def well_formed_utf8_append)

lemma chunks_read:
  assumes "chunks_at strict opts m inp p q"
  shows "\<exists>bs. read_chunks opts m inp p acc = (None, q, acc @ bs) \<and> text_ok opts m bs"
  using assms
proof (induction arbitrary: acc rule: chunks_at.induct)
  case (chunks_break p)
  then show ?case
    by (subst read_chunks.simps) (simp add: text_ok_def string_of_bytes_def)
next
  case (chunks_more p c q)
  define spn where "spn = subspan inp (p + head_length c) (unat (head_value c))"
  obtain bs where bs: "read_chunks opts m inp (p + head_length c + unat (head_value c)) (acc @ spn) = (None, q, (acc @ spn) @ bs)"
    "text_ok opts m bs" using chunks_more.IH by blast
  have "chunk_utf8_error opts m (p + head_length c) spn = None" using chunks_more.hyps by (simp add: text_ok_chunk spn_def)
  then have "read_chunks opts m inp p acc = (None, q, (acc @ spn) @ bs)"
    using chunks_more.hyps bs(1) by (subst read_chunks.simps) (simp add: Let_def spn_def)
  moreover have "text_ok opts m (spn @ bs)" using bs(2) chunks_more.hyps by (simp add: text_ok_append spn_def)
  ultimately show ?case by auto
qed

lemma read_chunks_sound:
  assumes "read_chunks opts m inp p acc = (None, q, acc')"
  shows "chunks_at False opts m inp p q"
  using assms
proof (induction opts m inp p acc arbitrary: q acc' rule: read_chunks.induct)
  case (1 opts m inp p acc)
  define c where "c = parse_head inp p"
  define spn where "spn = subspan inp (p + head_length c) (unat (head_value c))"
  have run: "read_chunks opts m inp p acc = (None, q, acc')" by (rule 1(2))
  show ?case
  proof (cases "inp ! p = break_byte")
    case True
    with run have "p < length inp" "q = p + 1"
      by (subst (asm) read_chunks.simps, simp add: not_le split: if_splits)+
    with True chunks_break [of p inp] show ?thesis by simp
  next
    case False
    with run have side: "p < length inp" "head_length c \<noteq> 0" "mt c = m" "\<not> indefinite c" "\<not> too_long c inp p"
      "chunk_utf8_error opts m (p + head_length c) spn = None"
      "read_chunks opts m inp (p + head_length c + unat (head_value c)) (acc @ spn) = (None, q, acc')"
      by (subst (asm) read_chunks.simps, simp add: Let_def c_def [symmetric] spn_def [symmetric] not_le
          split: if_splits option.splits)+
    have "chunks_at False opts m inp (p + head_length c + unat (head_value c)) q"
      by (rule 1(1) [of c spn]) (use side False c_def spn_def in simp_all)
    then show ?thesis
      by (rule chunks_more [rotated -1]) (use side False in \<open>simp_all add: c_def spn_def text_ok_chunk\<close>)
  qed
qed

section \<open>Resuming the loop\<close>

definition resume :: "cbor_options \<Rightarrow> skip_outcome \<Rightarrow> unit read" where
  "resume opts oc = (case oc of Skip_fail e r \<Rightarrow> (Inl e, r) | Skip_done r \<Rightarrow> (Inr (), r) | Skip_more st r \<Rightarrow> skip_loop opts st r)"

lemma skip_loop_resume: "skip_loop opts st r = resume opts (skip_step opts st r)"
  by (subst skip_loop.simps) (simp add: resume_def)

lemma resume_simps [simp]:
  "resume opts (Skip_fail e r) = (Inl e, r)" "resume opts (Skip_done r) = (Inr (), r)"
  "resume opts (Skip_more st r) = skip_loop opts st r"
  by (simp_all add: resume_def)

text \<open>The reader moved to another position; validation also overwrites the skip scratch buffer.\<close>

definition moved :: "nat \<Rightarrow> bytes \<Rightarrow> creader \<Rightarrow> creader" where
  "moved q sc r = r\<lparr>r_pos := q, skip_scratch := sc\<rparr>"

lemma moved_simps [simp]:
  "r_in (moved q sc r) = r_in r" "r_pos (moved q sc r) = q" "r_depth (moved q sc r) = r_depth r"
  "r_size (moved q sc r) = r_size r"
  "moved q' sc' (moved q sc r) = moved q' sc' r"
  "(moved q sc r)\<lparr>r_depth := d\<rparr> = moved q sc (r\<lparr>r_depth := d\<rparr>)"
  by (simp_all add: moved_def r_size_def)

lemma advance_moved: "r_advance n r = moved (r_pos r + n) (skip_scratch r) r"
  by (cases r) (simp add: moved_def r_advance_def)

text \<open>\<open>reads\<close> says that from a reader at \<open>p\<close> the loop does exactly what it does after the item that
  ends at \<open>q\<close>.\<close>

definition item_read :: "cbor_options \<Rightarrow> level list \<Rightarrow> creader \<Rightarrow> nat \<Rightarrow> bool" where
  "item_read opts st r q \<longleftrightarrow>
     (\<exists>sc. skip_loop opts st r = resume opts (item_done opts (mark_key opts (r_pos r) st) (moved q sc r)))"

lemma item_readI:
  "skip_step opts st r = item_done opts (mark_key opts (r_pos r) st) (moved q sc r) \<Longrightarrow> item_read opts st r q"
  unfolding item_read_def by (rule exI [of _ sc]) (simp add: skip_loop_resume)

lemma head_ok_bound:
  "head_ok opts (parse_head inp p) p \<Longrightarrow> p < length inp \<and> p + head_length (parse_head inp p) \<le> length inp"
  using parse_head_length_bound [of inp p] by (auto simp: head_ok_def)

text \<open>The head of an item, past the checks common to all.\<close>

lemma skip_step_head:
  assumes "h = parse_head (r_in r) (r_pos r)" "head_ok opts h (r_pos r)"
  shows "skip_step opts st r =
    (let s = mark_key opts (r_pos r) st in
     case mt h of major_uint \<Rightarrow> item_done opts s (r_advance (head_length h) r)
     | major_nint \<Rightarrow> item_done opts s (r_advance (head_length h) r)
     | major_simple \<Rightarrow> skip_simple opts h s r | major_bytes \<Rightarrow> skip_string opts h s r
     | major_text \<Rightarrow> skip_string opts h s r | major_tag \<Rightarrow> skip_tag h s r
     | major_array \<Rightarrow> skip_container opts h s r | major_map \<Rightarrow> skip_container opts h s r)"
proof -
  have "\<not> r_size r \<le> r_pos r" using head_ok_bound [of opts "r_in r" "r_pos r"] assms by (simp add: r_size_def)
  moreover have "error_if (o_require_deterministic opts) (check_head_deterministic h (r_pos r)) = None"
    using assms(2) by (simp add: error_if_def head_ok_def)
  ultimately show ?thesis
    using assms(2) unfolding skip_step_def Let_def assms(1) [symmetric] by (simp add: head_ok_def)
qed

text \<open>Conversely, an iteration that does not fail and is not at a break has seen such a head.\<close>

lemma skip_step_not_ok:
  assumes "\<not> head_ok opts (parse_head (r_in r) (r_pos r)) (r_pos r)" "\<not> is_break (parse_head (r_in r) (r_pos r))"
  shows "\<exists>e r'. skip_step opts st r = Skip_fail e r'"
  using assms by (auto simp: skip_step_def Let_def head_ok_def error_if_def split: option.splits)

lemma skip_string_at:
  assumes "string_at strict opts h inp p q" "r_in r = inp" "r_pos r = p"
  shows "\<exists>sc. skip_string opts h st r = item_done opts st (moved q sc r)"
  using assms(1)
proof cases
  case string_definite
  have "skip_string opts h st r = item_done opts st (r_advance (head_length h + unat (head_value h)) r)"
    using string_definite(2-4) assms(2,3)
    by (auto simp: skip_string_def read_string_def text_ok_def error_if_def validate_utf8_None_iff [symmetric])
  then show ?thesis using string_definite(1) assms(3) by (auto simp: advance_moved add.assoc)
next
  case string_chunked
  obtain bs where bs: "read_chunks opts (mt h) inp (p + head_length h) [] = (None, q, bs)" "text_ok opts (mt h) bs"
    using chunks_read [OF string_chunked(3), of "[]"] by auto
  have "skip_string opts h st r = item_done opts st (moved q bs r)"
    using string_chunked(1,2) bs assms(2,3)
    by (auto simp: skip_string_def read_string_def text_ok_def error_if_def validate_utf8_None_iff [symmetric] moved_def)
  then show ?thesis by blast
qed

lemma mark_key_array [simp]: "\<not> l_is_map lv \<Longrightarrow> mark_key opts p (lv # st) = lv # st"
  by (simp add: mark_key_def)

section \<open>Completeness\<close>

definition count_fits :: "nat option \<Rightarrow> bool" where
  "count_fits n \<longleftrightarrow> (\<forall>k. n = Some k \<longrightarrow> k < 2 ^ 64)"

definition array_level :: "nat option \<Rightarrow> level \<Rightarrow> bool" where
  "array_level n lv \<longleftrightarrow> \<not> l_is_map lv \<and> l_remaining lv = map_option of_nat n"

lemma of_nat_pred: "0 < n \<Longrightarrow> (of_nat n :: u64) - 1 = of_nat (n - 1)"
  by (simp add: of_nat_diff)

lemma unat_u64_less: "unat (w :: u64) < 2 ^ 64"
  using unsigned_less [of w, where ?'a = nat] by simp

lemma of_nat_u64_eq_0: "n < 2 ^ 64 \<Longrightarrow> (of_nat n :: u64) = 0 \<longleftrightarrow> n = 0"
proof
  assume n: "n < 2 ^ 64" and z: "(of_nat n :: u64) = 0"
  have "unat (of_nat n :: u64) = n" using n by (simp add: unsigned_of_nat take_bit_eq_mod)
  then show "n = 0" unfolding z by simp
qed simp

text \<open>An element of an array is complete: the count goes down, and at zero the array is.\<close>

lemma item_done_plain:
  "\<not> l_is_map lv \<Longrightarrow> item_done opts (lv # st) r =
     (case l_remaining lv of None \<Rightarrow> Skip_more (lv # st) r
      | Some n \<Rightarrow> if n - 1 = 0 then item_done opts st (r\<lparr>r_depth := r_depth r - 1\<rparr>)
          else Skip_more (lv\<lparr>l_remaining := Some (n - 1)\<rparr> # st) r)"
  by (simp add: level_key_error_def)

lemma item_done_array:
  assumes "array_level n lv" "n \<noteq> Some 0" "count_fits n"
  shows "item_done opts (lv # st) r =
    (if pred_count n = Some 0 then item_done opts st (r\<lparr>r_depth := r_depth r - 1\<rparr>)
     else Skip_more (lv\<lparr>l_remaining := map_option of_nat (pred_count n)\<rparr> # st) r)"
proof -
  have m: "\<not> l_is_map lv" and rem: "l_remaining lv = map_option of_nat n" using assms(1) by (simp_all add: array_level_def)
  show ?thesis
  proof (cases n)
    case None
    then have "lv\<lparr>l_remaining := None\<rparr> = lv" using rem by (cases lv) simp
    with None rem show ?thesis by (simp add: item_done_plain [OF m] pred_count_def del: item_done.simps)
  next
    case (Some k)
    with assms have k: "0 < k" "k < 2 ^ 64" by (simp_all add: count_fits_def)
    have z: "(of_nat (k - 1) :: u64) = 0 \<longleftrightarrow> k - 1 = 0"
      using k(2) by (intro of_nat_u64_eq_0) simp
    have "item_done opts (lv # st) r = (if (of_nat (k - 1) :: u64) = 0 then item_done opts st (r\<lparr>r_depth := r_depth r - 1\<rparr>)
        else Skip_more (lv\<lparr>l_remaining := Some (of_nat (k - 1))\<rparr> # st) r)"
      unfolding item_done_plain [OF m] rem Some option.map option.case of_nat_pred [OF k(1)] ..
    then show ?thesis unfolding z Some pred_count_def option.map option.inject .
  qed
qed

lemma array_level_pred: "array_level n lv \<Longrightarrow> array_level (pred_count n) (lv\<lparr>l_remaining := map_option of_nat (pred_count n)\<rparr>)"
  by (simp add: array_level_def)

lemma count_fits_pred: "count_fits n \<Longrightarrow> count_fits (pred_count n)"
  by (auto simp: count_fits_def pred_count_def)

text \<open>The entries of a map: the level between entries.\<close>

definition entry_level :: "cbor_options \<Rightarrow> bytes \<Rightarrow> bytes option \<Rightarrow> nat option \<Rightarrow> level \<Rightarrow> bool" where
  "entry_level opts inp prev n lv \<longleftrightarrow> l_is_map lv \<and> l_key_next lv \<and> \<not> l_in_key lv
     \<and> l_remaining lv = map_option (\<lambda>k. of_nat (2 * k)) n
     \<and> (o_require_deterministic opts \<longrightarrow> l_have_prev lv = (prev \<noteq> None)
        \<and> (\<forall>b. prev = Some b \<longrightarrow> b = subspan inp (l_prev_start lv) (l_prev_end lv - l_prev_start lv)))"

definition pairs_fit :: "nat option \<Rightarrow> bool" where
  "pairs_fit n \<longleftrightarrow> (\<forall>k. n = Some k \<longrightarrow> 2 * k \<le> 2 ^ 64)"

text \<open>The level after the key that ends at \<open>p1\<close>, and after the value.\<close>

definition after_key :: "cbor_options \<Rightarrow> nat \<Rightarrow> nat \<Rightarrow> level \<Rightarrow> level" where
  "after_key opts p p1 lv =
     (let l1 = (if o_require_deterministic opts
        then lv\<lparr>l_key_start := p, l_prev_start := p, l_prev_end := p1, l_have_prev := True, l_in_key := False\<rparr> else lv)
      in l1\<lparr>l_key_next := False, l_remaining := map_option (\<lambda>n. n - 1) (l_remaining lv)\<rparr>)"

definition after_value :: "cbor_options \<Rightarrow> nat \<Rightarrow> nat \<Rightarrow> level \<Rightarrow> level" where
  "after_value opts p p1 lv = (after_key opts p p1 lv)\<lparr>l_key_next := True,
     l_remaining := map_option (\<lambda>n. n - 2) (l_remaining lv)\<rparr>"

lemma key_order_ok: "key_order_error cur prev p = None \<longleftrightarrow> prev < cur"
  by (auto simp: key_order_error_def Let_def)

lemma marked_level:
  assumes "entry_level opts inp prev n lv"
  shows "mark_key opts p (lv # st) =
    (if o_require_deterministic opts then lv\<lparr>l_key_start := p, l_in_key := True\<rparr> else lv) # st"
  using assms by (simp add: mark_key_def entry_level_def)

lemma item_done_key:
  assumes "entry_level opts inp prev n lv" "n \<noteq> Some 0" "pairs_fit n" "r_in r = inp"
  shows "item_done opts (mark_key opts p (lv # st)) r =
    (if key_after opts prev (subspan inp p (r_pos r - p)) then Skip_more (after_key opts p (r_pos r) lv # st) r
     else item_done opts (mark_key opts p (lv # st)) r)"
    "\<not> key_after opts prev (subspan inp p (r_pos r - p)) \<Longrightarrow> \<exists>e. item_done opts (mark_key opts p (lv # st)) r = Skip_fail e r"
proof -
  let ?lv = "if o_require_deterministic opts then lv\<lparr>l_key_start := p, l_in_key := True\<rparr> else lv"
  have err: "level_key_error opts inp (r_pos r) ?lv = None \<longleftrightarrow> key_after opts prev (subspan inp p (r_pos r - p))"
    using assms(1) by (cases prev) (auto simp: level_key_error_def entry_level_def key_after_def key_order_ok)
  have rem: "(of_nat (2 * k) :: u64) - 1 \<noteq> 0" if "n = Some k" for k
  proof -
    have k: "0 < 2 * k" "2 * k \<le> 2 ^ 64" using that assms(2,3) by (auto simp: pairs_fit_def)
    have "2 * k - 1 \<noteq> 0" using k(1) by (cases k) simp_all
    with k show ?thesis unfolding of_nat_pred [OF k(1)] by (subst of_nat_u64_eq_0) simp_all
  qed
  show "\<not> key_after opts prev (subspan inp p (r_pos r - p)) \<Longrightarrow> \<exists>e. item_done opts (mark_key opts p (lv # st)) r = Skip_fail e r"
    using err assms(4) by (auto simp: marked_level [OF assms(1)])
  show "item_done opts (mark_key opts p (lv # st)) r =
    (if key_after opts prev (subspan inp p (r_pos r - p)) then Skip_more (after_key opts p (r_pos r) lv # st) r
     else item_done opts (mark_key opts p (lv # st)) r)"
  proof (cases "key_after opts prev (subspan inp p (r_pos r - p))")
    case True
    then have e: "level_key_error opts (r_in r) (r_pos r) ?lv = None" using err assms(4) by simp
    have lv: "l_is_map lv" "l_key_next lv" "l_remaining lv = map_option (\<lambda>k. of_nat (2 * k)) n"
      using assms(1) by (simp_all add: entry_level_def)
    have "item_done opts (?lv # st) r = Skip_more (after_key opts p (r_pos r) lv # st) r"
    proof (cases n)
      case None
      with e lv show ?thesis by (cases lv) (simp add: after_key_def level_key_done_def)
    next
      case (Some k)
      have "l_remaining lv = Some (of_nat (2 * k))" using lv(3) Some by simp
      with e lv(1,2) rem [OF Some] show ?thesis
        by (cases lv) (simp add: after_key_def level_key_done_def del: of_nat_mult)
    qed
    then show ?thesis using True by (simp only: marked_level [OF assms(1)] if_True)
  qed simp
qed

lemma mark_key_value: "entry_level opts inp prev n lv \<Longrightarrow> mark_key opts p (after_key opts p' p1 lv # st) = after_key opts p' p1 lv # st"
  by (simp add: mark_key_def after_key_def Let_def)

lemma item_done_value:
  assumes "entry_level opts inp prev n lv" "n \<noteq> Some 0" "pairs_fit n"
  shows "item_done opts (after_key opts p p1 lv # st) r =
    (if pred_count n = Some 0 then item_done opts st (r\<lparr>r_depth := r_depth r - 1\<rparr>)
     else Skip_more (after_value opts p p1 lv # st) r)"
proof -
  have lv: "l_is_map lv" "l_remaining lv = map_option (\<lambda>k. of_nat (2 * k)) n"
    using assms(1) by (simp_all add: entry_level_def)
  have err: "level_key_error opts (r_in r) (r_pos r) (after_key opts p p1 lv) = None"
    by (simp add: level_key_error_def after_key_def Let_def)
  have fld: "l_is_map (after_key opts p p1 lv)" "\<not> l_key_next (after_key opts p p1 lv)"
    "l_remaining (after_key opts p p1 lv) = map_option (\<lambda>k. of_nat (2 * k) - 1) n"
    using lv by (auto simp: after_key_def Let_def option.map_comp comp_def)
  have upd: "(after_key opts p p1 lv)\<lparr>l_key_next := True, l_remaining := x\<rparr> = (after_value opts p p1 lv)\<lparr>l_remaining := x\<rparr>" for x
    by (simp add: after_value_def)
  show ?thesis
  proof (cases n)
    case None
    then have "l_remaining (after_key opts p p1 lv) = None" "after_value opts p p1 lv = (after_key opts p p1 lv)\<lparr>l_key_next := True\<rparr>"
      using fld lv by (simp_all add: after_value_def after_key_def Let_def)
    with None err fld show ?thesis by (simp add: pred_count_def)
  next
    case (Some k)
    have k: "0 < 2 * k" "2 * k \<le> 2 ^ 64" "1 < 2 * k" using Some assms(2,3) by (auto simp: pairs_fit_def)
    have w: "(of_nat (2 * k) :: u64) - 1 - 1 = of_nat (2 * k - 2)"
      using k by (simp add: of_nat_diff)
    have "(of_nat (2 * k - 2) :: u64) = 0 \<longleftrightarrow> 2 * k - 2 = 0" using k by (intro of_nat_u64_eq_0) simp
    then have z: "(of_nat (2 * k) :: u64) - 1 - 1 = 0 \<longleftrightarrow> k - 1 = 0" unfolding w by auto
    have "after_value opts p p1 lv = (after_key opts p p1 lv)\<lparr>l_key_next := True, l_remaining := Some (of_nat (2 * k) - 1 - 1)\<rparr>"
      using lv Some by (simp add: after_value_def)
    with Some err fld z show ?thesis by (simp add: pred_count_def del: of_nat_mult)
  qed
qed

lemma entry_level_next:
  assumes "entry_level opts inp prev n lv" "n \<noteq> Some 0"
  shows "entry_level opts inp (Some (subspan inp p (p1 - p))) (pred_count n) (after_value opts p p1 lv)"
proof -
  have "(of_nat (2 * k) :: u64) - 2 = of_nat (2 * (k - 1))" if "0 < k" for k
    using that by (simp add: of_nat_diff algebra_simps)
  with assms show ?thesis
    by (cases n) (auto simp: entry_level_def after_value_def after_key_def Let_def pred_count_def simp del: of_nat_mult)
qed

lemma pairs_fit_pred: "pairs_fit n \<Longrightarrow> pairs_fit (pred_count n)"
  by (auto simp: pairs_fit_def pred_count_def)

text \<open>A container is entered with the count its head announces.\<close>

lemma map_count_level:
  assumes "\<not> indefinite h"
  shows "\<exists>k. map_count False h = Some k \<and> head_value h * 2 = of_nat (2 * k) \<and> 2 * k \<le> 2 ^ 64 \<and> (k = 0 \<longleftrightarrow> head_value h = 0)"
proof -
  define n where "n = unat (head_value h)"
  have v: "head_value h = of_nat n" by (simp add: n_def)
  have lt: "n < 2 ^ 64" unfolding n_def by (rule unat_u64_less)
  have z: "head_value h = 0 \<longleftrightarrow> n = 0" by (simp add: n_def unat_eq_zero)
  show ?thesis
  proof (cases "n \<le> 2 ^ 63")
    case True
    have "head_value h * 2 = of_nat (2 * n)" unfolding v by (simp add: mult.commute)
    moreover have "map_count False h = Some n" using True assms by (simp add: map_count_def n_def [symmetric])
    ultimately show ?thesis using True z by (intro exI [of _ n]) simp
  next
    case False
    have "(of_nat (2 * n) :: u64) = of_nat (2 * (n - 2 ^ 63) + 2 ^ 64)"
      using False by (intro arg_cong [where f = of_nat]) simp
    also have "\<dots> = of_nat (2 * (n - 2 ^ 63))"
      by (simp only: of_nat_add of_nat_power) simp
    finally have "head_value h * 2 = of_nat (2 * (n - 2 ^ 63))" unfolding v by (simp add: mult.commute)
    moreover have "map_count False h = Some (n - 2 ^ 63)" using False assms by (simp add: map_count_def n_def [symmetric])
    moreover have "2 * (n - 2 ^ 63) \<le> 2 ^ 64" "n - 2 ^ 63 \<noteq> 0" "n \<noteq> 0" using False lt by simp_all
    ultimately show ?thesis using z by (intro exI [of _ "n - 2 ^ 63"]) simp
  qed
qed

lemma skip_container_array:
  assumes "mt h = major_array" "r_depth r < o_max_depth opts"
  obtains (empty) "array_count h = Some 0"
      "skip_container opts h st r = item_done opts st (moved (r_pos r + head_length h) (skip_scratch r) r)"
  | (enter) lv where "array_count h \<noteq> Some 0" "array_level (array_count h) lv" "count_fits (array_count h)"
      "skip_container opts h st r = Skip_more (lv # st) (moved (r_pos r + head_length h) (skip_scratch r) (r\<lparr>r_depth := Suc (r_depth r)\<rparr>))"
proof -
  have fits: "count_fits (array_count h)" using unat_u64_less [of "head_value h"] by (simp add: count_fits_def array_count_def)
  show ?thesis
  proof (cases "array_count h = Some 0")
    case True
    then show ?thesis using assms
      by (intro empty) (auto simp: skip_container_def array_count_def advance_moved unat_eq_zero split: if_splits)
  next
    case False
    then show ?thesis using assms fits
      by (intro enter [of "new_level False (map_option of_nat (array_count h))"])
        (auto simp: skip_container_def array_count_def advance_moved unat_eq_zero new_level_def array_level_def split: if_splits)
  qed
qed

lemma skip_container_map:
  assumes "mt h = major_map" "r_depth r < o_max_depth opts"
  obtains (empty) "map_count False h = Some 0"
      "skip_container opts h st r = item_done opts st (moved (r_pos r + head_length h) (skip_scratch r) r)"
  | (enter) lv where "map_count False h \<noteq> Some 0" "\<And>inp. entry_level opts inp None (map_count False h) lv" "pairs_fit (map_count False h)"
      "skip_container opts h st r = Skip_more (lv # st) (moved (r_pos r + head_length h) (skip_scratch r) (r\<lparr>r_depth := Suc (r_depth r)\<rparr>))"
proof (cases "indefinite h")
  case True
  then have "map_count False h = None" by (simp add: map_count_def)
  with True assms show ?thesis
    by (intro enter [of "new_level True None"])
      (auto simp: skip_container_def advance_moved new_level_def entry_level_def pairs_fit_def)
next
  case False
  from map_count_level [OF False] obtain k where
    k: "map_count False h = Some k" "head_value h * 2 = of_nat (2 * k)" "2 * k \<le> 2 ^ 64" "k = 0 \<longleftrightarrow> head_value h = 0" by blast
  show ?thesis
  proof (cases "k = 0")
    case True
    then show ?thesis using assms k False by (intro empty) (auto simp: skip_container_def advance_moved)
  next
    case nz: False
    have "entry_level opts inp None (map_count False h) (new_level True (Some (of_nat (2 * k))))" for inp
      by (simp add: entry_level_def new_level_def k(1) del: of_nat_mult)
    with nz False assms k show ?thesis
      by (intro enter [of "new_level True (Some (of_nat (2 * k)))"])
        (auto simp: skip_container_def advance_moved pairs_fit_def simp del: of_nat_mult)
  qed
qed

lemma parse_head_break:
  "p < length inp \<Longrightarrow> inp ! p = break_byte \<Longrightarrow> is_break (parse_head inp p) \<and> head_length (parse_head inp p) = 1"
  by (simp add: parse_head_def Let_def)

lemma is_break_at: "is_break (parse_head inp p) \<Longrightarrow> p < length inp \<and> inp ! p = break_byte"
  by (auto simp: parse_head_def Let_def empty_head_def split: if_splits)

lemma skip_step_break:
  "r_pos r < r_size r \<Longrightarrow> r_in r ! r_pos r = break_byte
   \<Longrightarrow> skip_step opts st r = skip_break opts (mark_key opts (r_pos r) st) r"
  using parse_head_break [of "r_pos r" "r_in r"] by (simp add: skip_step_def Let_def r_size_def)

lemma mark_key_twice [simp]: "mark_key opts p' (mark_key opts p st) = mark_key opts p st"
  by (auto simp: mark_key_def split: list.splits)

text \<open>\<open>closes\<close>: from inside a container the loop does what it does after the container that ends at
  \<open>q\<close>.\<close>

definition closes :: "cbor_options \<Rightarrow> level \<Rightarrow> level list \<Rightarrow> creader \<Rightarrow> nat \<Rightarrow> bool" where
  "closes opts lv st r q \<longleftrightarrow>
     (\<exists>sc. skip_loop opts (lv # st) r = resume opts (item_done opts st (moved q sc (r\<lparr>r_depth := r_depth r - 1\<rparr>))))"

lemma closes_break:
  assumes "r_pos r < r_size r" "r_in r ! r_pos r = break_byte" "l_remaining lv = None" "\<not> l_is_map lv \<or> l_key_next lv"
  shows "closes opts lv st r (r_pos r + 1)"
proof -
  obtain lv' where lv': "mark_key opts (r_pos r) (lv # st) = lv' # st" "l_remaining lv' = None" "\<not> l_is_map lv' \<or> l_key_next lv'"
    using assms(3,4) by (cases "o_require_deterministic opts \<and> l_is_map lv \<and> l_key_next lv \<and> \<not> l_in_key lv")
      (auto simp: mark_key_def)
  have "skip_step opts (lv # st) r = item_done opts st (r\<lparr>r_pos := r_pos r + 1, r_depth := r_depth r - 1\<rparr>)"
    using lv' by (auto simp: skip_step_break [OF assms(1,2)] skip_break_def)
  also have "r\<lparr>r_pos := r_pos r + 1, r_depth := r_depth r - 1\<rparr> = moved (r_pos r + 1) (skip_scratch r) (r\<lparr>r_depth := r_depth r - 1\<rparr>)"
    by (cases r) (simp add: moved_def)
  finally show ?thesis unfolding closes_def skip_loop_resume by metis
qed

lemma closes_moved:
  "closes opts lv st (moved p sc r) q \<Longrightarrow> skip_loop opts st0 r0 = skip_loop opts (lv # st) (moved p sc r)
   \<Longrightarrow> \<exists>sc. skip_loop opts st0 r0 = resume opts (item_done opts st (moved q sc (r\<lparr>r_depth := r_depth r - 1\<rparr>)))"
  by (auto simp: closes_def)

lemma item_read_enter:
  assumes "skip_step opts st r = Skip_more (lv # mark_key opts (r_pos r) st) (moved p sc (r\<lparr>r_depth := Suc (r_depth r)\<rparr>))"
    "closes opts lv (mark_key opts (r_pos r) st) (moved p sc (r\<lparr>r_depth := Suc (r_depth r)\<rparr>)) q"
  shows "item_read opts st r q"
  using assms closes_moved [OF assms(2), of st r] by (simp add: item_read_def skip_loop_resume [of opts st r])

text \<open>One element of an array, then the rest.\<close>

lemma closes_element:
  assumes "array_level n lv" "n \<noteq> Some 0" "count_fits n" "item_read opts (lv # st) r p1"
    "pred_count n = Some 0 \<Longrightarrow> q = p1"
    "\<And>lv' sc. pred_count n \<noteq> Some 0 \<Longrightarrow> array_level (pred_count n) lv' \<Longrightarrow> closes opts lv' st (moved p1 sc r) q"
  shows "closes opts lv st r q"
proof -
  obtain sc where sc: "skip_loop opts (lv # st) r = resume opts (item_done opts (lv # st) (moved p1 sc r))"
    using assms(1,4) by (auto simp: item_read_def array_level_def)
  show ?thesis
  proof (cases "pred_count n = Some 0")
    case True
    then show ?thesis using sc assms(5) unfolding closes_def item_done_array [OF assms(1-3)] by auto
  next
    case False
    let ?lv = "lv\<lparr>l_remaining := map_option of_nat (pred_count n)\<rparr>"
    have "skip_loop opts (lv # st) r = skip_loop opts (?lv # st) (moved p1 sc r)"
      using sc False unfolding item_done_array [OF assms(1-3)] by simp
    with closes_moved [OF assms(6) [OF False array_level_pred [OF assms(1)]]] show ?thesis
      unfolding closes_def .
  qed
qed

text \<open>One entry of a map, then the rest.\<close>

lemma closes_entry:
  assumes "entry_level opts inp prev n lv" "n \<noteq> Some 0" "pairs_fit n" "r_in r = inp" "r_pos r = p"
    "item_read opts (lv # st) r p1" "key_after opts prev (subspan inp p (p1 - p))"
    "\<And>lv' sc. item_read opts (lv' # st) (moved p1 sc r) p2"
    "pred_count n = Some 0 \<Longrightarrow> q = p2"
    "\<And>lv' sc. pred_count n \<noteq> Some 0 \<Longrightarrow> entry_level opts inp (Some (subspan inp p (p1 - p))) (pred_count n) lv'
      \<Longrightarrow> closes opts lv' st (moved p2 sc r) q"
  shows "closes opts lv st r q"
proof -
  obtain sc where "skip_loop opts (lv # st) r = resume opts (item_done opts (mark_key opts p (lv # st)) (moved p1 sc r))"
    using assms(5,6) by (auto simp: item_read_def)
  with item_done_key(1) [OF assms(1-3), of "moved p1 sc r" p] assms(4,7)
  have key: "skip_loop opts (lv # st) r = skip_loop opts (after_key opts p p1 lv # st) (moved p1 sc r)" by simp
  obtain sc2 where val: "skip_loop opts (after_key opts p p1 lv # st) (moved p1 sc r)
      = resume opts (item_done opts (after_key opts p p1 lv # st) (moved p2 sc2 r))"
    using assms(8) [of "after_key opts p p1 lv" sc] mark_key_value [OF assms(1)] by (auto simp: item_read_def)
  show ?thesis
  proof (cases "pred_count n = Some 0")
    case True
    then show ?thesis using key val assms(9) unfolding closes_def item_done_value [OF assms(1-3)] by auto
  next
    case False
    have "skip_loop opts (lv # st) r = skip_loop opts (after_value opts p p1 lv # st) (moved p2 sc2 r)"
      using key val False unfolding item_done_value [OF assms(1-3)] by simp
    with closes_moved [OF assms(10) [OF False entry_level_next [OF assms(1,2)]]] show ?thesis
      unfolding closes_def .
  qed
qed

lemma head_ok_not_break: "head_ok opts (parse_head inp p) p \<Longrightarrow> p < length inp \<and> inp ! p \<noteq> break_byte"
  using head_ok_bound [of opts inp p] parse_head_break [of p inp] unfolding head_ok_def by argo

lemma skip_simple_ok:
  "simple_ok opts h (r_pos r) \<Longrightarrow> skip_simple opts h st r = item_done opts st (moved (r_pos r + head_length h) (skip_scratch r) r)"
  by (auto simp: skip_simple_def simple_ok_def error_if_def advance_moved)

lemma item_complete:
  "item_at strict opts inp d p q \<Longrightarrow> \<not> strict \<Longrightarrow>
     (\<forall>st r. r_in r = inp \<longrightarrow> r_pos r = p \<longrightarrow> r_depth r = d \<longrightarrow> item_read opts st r q)"
  and seq_complete: "seq_at strict opts inp d n p q \<Longrightarrow> \<not> strict \<Longrightarrow>
     (\<forall>lv st r. array_level n lv \<longrightarrow> count_fits n \<longrightarrow> n \<noteq> Some 0 \<longrightarrow> r_in r = inp \<longrightarrow> r_pos r = p \<longrightarrow> r_depth r = d
        \<longrightarrow> closes opts lv st r q)"
  and entries_complete: "entries_at strict opts inp d prev n p q \<Longrightarrow> \<not> strict \<Longrightarrow>
     (\<forall>lv st r. entry_level opts inp prev n lv \<longrightarrow> pairs_fit n \<longrightarrow> n \<noteq> Some 0 \<longrightarrow> r_in r = inp \<longrightarrow> r_pos r = p \<longrightarrow> r_depth r = d
        \<longrightarrow> closes opts lv st r q)"
proof (induction rule: item_at_seq_at_entries_at.inducts)
  case (item_int h p d)
  then show ?case
    by (auto simp: skip_step_head advance_moved intro!: item_readI)
next
  case (item_simple h p d)
  then show ?case
    by (auto simp: skip_step_head skip_simple_ok intro!: item_readI)
next
  case (item_string h p q d)
  have "item_read opts st r q" if "r_in r = inp" "r_pos r = p" for st r
    using skip_string_at [OF item_string(3) that, of "mark_key opts p st"] item_string(1,2,4) that
    by (auto simp: skip_step_head intro: item_readI)
  then show ?case by blast
next
  case (item_tag h p d q)
  have "item_read opts st r q" if r: "r_in r = inp" "r_pos r = p" "r_depth r = d" for st r
  proof -
    let ?r = "r_advance (head_length h) r"
    have "head_ok opts (parse_head inp (p + head_length h)) (p + head_length h)"
      using item_tag(3) by (cases rule: item_at.cases) simp_all
    then have "p + head_length h < length inp" "inp ! (p + head_length h) \<noteq> break_byte"
      by (rule head_ok_not_break [THEN conjunct1], rule head_ok_not_break [THEN conjunct2])
    then have "skip_step opts st r = Skip_more (mark_key opts p st) ?r"
      using item_tag(1,2,5) r by (simp add: skip_step_head skip_tag_def Let_def r_size_def)
    moreover have "item_read opts (mark_key opts p st) ?r q"
      using item_tag(4) [OF item_tag(6), rule_format, of ?r] r by simp
    ultimately show ?thesis
      using r by (auto simp: item_read_def skip_loop_resume [of opts st r] advance_moved)
  qed
  then show ?case by blast
next
  case (item_array h p d q)
  have "item_read opts st r q" if r: "r_in r = inp" "r_pos r = p" "r_depth r = d" for st r
  proof -
    let ?st = "mark_key opts (r_pos r) st"
    have step: "skip_step opts st r = skip_container opts h ?st r"
      using item_array(1,2,6) r by (simp add: skip_step_head)
    have d: "r_depth r < o_max_depth opts" using item_array(3) r by simp
    from item_array(6) d show ?thesis
    proof (cases rule: skip_container_array [where st = ?st])
      case empty
      then show ?thesis using step item_array(4) r by (auto elim: seq_end_cases intro!: item_readI)
    next
      case (enter lv)
      show ?thesis
        by (rule item_read_enter) (use step enter r item_array(5) [OF item_array(7)] in auto)
    qed
  qed
  then show ?case by blast
next
  case (item_map h p d q)
  have "item_read opts st r q" if r: "r_in r = inp" "r_pos r = p" "r_depth r = d" for st r
  proof -
    let ?st = "mark_key opts (r_pos r) st"
    have step: "skip_step opts st r = skip_container opts h ?st r"
      using item_map(1,2,6) r by (simp add: skip_step_head)
    have d: "r_depth r < o_max_depth opts" using item_map(3) r by simp
    from item_map(6) d show ?thesis
    proof (cases rule: skip_container_map [where st = ?st])
      case empty
      then show ?thesis using step item_map(4) item_map(7) r by (auto elim: entries_end_cases intro!: item_readI)
    next
      case (enter lv)
      show ?thesis
        by (rule item_read_enter) (use step enter r item_map(5) [OF item_map(7)] item_map(7) in auto)
    qed
  qed
  then show ?case by blast
next
  case (seq_end d p)
  then show ?case by simp
next
  case (seq_break p d)
  then show ?case
    using closes_break by (auto simp: array_level_def r_size_def)
next
  case (seq_more n d p p1 q)
  have last: "pred_count n = Some 0 \<Longrightarrow> q = p1" using seq_more(4) by (auto elim: seq_end_cases)
  have "closes opts lv st r q" if "array_level n lv" "count_fits n" "r_in r = inp" "r_pos r = p" "r_depth r = d" for lv st r
    by (rule closes_element [OF that(1) seq_more(1) that(2)])
      (use that seq_more(3,5) [OF seq_more(6)] last count_fits_pred in auto)
  then show ?case by blast
next
  case (entries_end d prev p)
  then show ?case by simp
next
  case (entries_break p d prev)
  then show ?case
    using closes_break by (auto simp: entry_level_def r_size_def)
next
  case (entries_more n d p p1 p2 prev q)
  have last: "pred_count n = Some 0 \<Longrightarrow> q = p2" using entries_more(7) by (auto elim: entries_end_cases)
  have "closes opts lv st r q" if "entry_level opts inp prev n lv" "pairs_fit n" "r_in r = inp" "r_pos r = p" "r_depth r = d" for lv st r
    by (rule closes_entry [OF that(1) entries_more(1) that(2-4) _ entries_more(6)])
      (use that entries_more(3,5,8) [OF entries_more(9)] last pairs_fit_pred in auto)
  then show ?case by blast
qed

section \<open>Extents\<close>

lemma chunks_at_bounds: "chunks_at strict opts m inp p q \<Longrightarrow> p < q \<and> q \<le> length inp"
proof (induction rule: chunks_at.induct)
  case (chunks_more p c q)
  then show ?case by linarith
qed simp

lemma string_at_bounds:
  assumes "string_at strict opts h inp p q" "h = parse_head inp p" "head_ok opts h p"
  shows "p < q \<and> q \<le> length inp"
proof -
  have h: "head_length h \<noteq> 0" "p + head_length h \<le> length inp"
    using assms(2,3) head_ok_bound [of opts inp p] by (auto simp: head_ok_def)
  from assms(1) show ?thesis
  proof cases
    case string_definite
    with h too_long_bound [of h inp p] show ?thesis by linarith
  next
    case string_chunked
    with h chunks_at_bounds [of strict opts "mt h" inp "p + head_length h" q] show ?thesis by linarith
  qed
qed

lemma item_at_bounds: "item_at strict opts inp d p q \<Longrightarrow> p < q \<and> q \<le> length inp"
  and seq_at_bounds: "seq_at strict opts inp d n p q \<Longrightarrow> p \<le> length inp \<Longrightarrow> p \<le> q \<and> q \<le> length inp"
  and entries_at_bounds: "entries_at strict opts inp d prev n p q \<Longrightarrow> p \<le> length inp \<Longrightarrow>
    p \<le> q \<and> q \<le> length inp \<and> (\<forall>k. n = Some k \<longrightarrow> p + 2 * k \<le> q)"
proof (induction rule: item_at_seq_at_entries_at.inducts)
  case (item_string h p q d)
  then show ?case using string_at_bounds by blast
next
  case (entries_more n d p p1 p2 prev q)
  then show ?case by (cases n) (auto simp: pred_count_def)
qed (use head_ok_bound in \<open>fastforce simp: head_ok_def\<close>)+

section \<open>Soundness\<close>

definition loop_fails :: "cbor_options \<Rightarrow> level list \<Rightarrow> creader \<Rightarrow> bool" where
  "loop_fails opts st r \<longleftrightarrow> (\<exists>e r'. skip_loop opts st r = (Inl e, r'))"

lemma loop_failsI: "skip_step opts st r = Skip_fail e r' \<Longrightarrow> loop_fails opts st r"
  by (simp add: loop_fails_def skip_loop_resume)

definition item_sound :: "cbor_options \<Rightarrow> bytes \<Rightarrow> nat \<Rightarrow> bool" where
  "item_sound opts inp p \<longleftrightarrow> (\<forall>st r. r_in r = inp \<longrightarrow> r_pos r = p \<longrightarrow> loop_fails opts st r
     \<or> (\<exists>q. item_at False opts inp (r_depth r) p q) \<or> (is_break (parse_head inp p) \<and> (st = [] \<longrightarrow> loop_fails opts st r)))"

definition seq_sound :: "cbor_options \<Rightarrow> bytes \<Rightarrow> nat \<Rightarrow> bool" where
  "seq_sound opts inp p \<longleftrightarrow> (\<forall>n lv st r. array_level n lv \<longrightarrow> count_fits n \<longrightarrow> n \<noteq> Some 0 \<longrightarrow> r_in r = inp \<longrightarrow> r_pos r = p
     \<longrightarrow> loop_fails opts (lv # st) r \<or> (\<exists>q. seq_at False opts inp (r_depth r) n p q))"

definition entries_sound :: "cbor_options \<Rightarrow> bytes \<Rightarrow> nat \<Rightarrow> bool" where
  "entries_sound opts inp p \<longleftrightarrow> (\<forall>prev n lv st r. entry_level opts inp prev n lv \<longrightarrow> pairs_fit n \<longrightarrow> n \<noteq> Some 0 \<longrightarrow> r_in r = inp
     \<longrightarrow> r_pos r = p \<longrightarrow> loop_fails opts (lv # st) r \<or> (\<exists>q. entries_at False opts inp (r_depth r) prev n p q))"

lemmas sound_defs = item_sound_def seq_sound_def entries_sound_def

lemma item_soundD:
  "item_sound opts inp p \<Longrightarrow> r_in r = inp \<Longrightarrow> r_pos r = p \<Longrightarrow> \<not> is_break (parse_head inp p)
   \<Longrightarrow> loop_fails opts st r \<or> (\<exists>q. item_at False opts inp (r_depth r) p q)"
  unfolding sound_defs by blast

lemma seq_soundD:
  "seq_sound opts inp p \<Longrightarrow> array_level n lv \<Longrightarrow> count_fits n \<Longrightarrow> n \<noteq> Some 0 \<Longrightarrow> r_in r = inp \<Longrightarrow> r_pos r = p
   \<Longrightarrow> loop_fails opts (lv # st) r \<or> (\<exists>q. seq_at False opts inp (r_depth r) n p q)"
  unfolding sound_defs by blast

lemma entries_soundD:
  "entries_sound opts inp p \<Longrightarrow> entry_level opts inp prev n lv \<Longrightarrow> pairs_fit n \<Longrightarrow> n \<noteq> Some 0 \<Longrightarrow> r_in r = inp \<Longrightarrow> r_pos r = p
   \<Longrightarrow> loop_fails opts (lv # st) r \<or> (\<exists>q. entries_at False opts inp (r_depth r) prev n p q)"
  unfolding sound_defs by blast

lemma skip_string_sound:
  assumes "r_in r = inp" "r_pos r = p"
  shows "(\<exists>e r'. skip_string opts h st r = Skip_fail e r') \<or> (\<exists>q. string_at False opts h inp p q)"
proof (cases "indefinite h")
  case True
  obtain e q bs where rc: "read_chunks opts (mt h) inp (p + head_length h) [] = (e, q, bs)" by (metis prod.exhaust)
  show ?thesis
  proof (cases "e = None \<and> \<not> o_require_deterministic opts")
    case yes: True
    then show ?thesis using True rc read_chunks_sound string_chunked by blast
  next
    case False
    then show ?thesis using True rc assms by (auto simp: skip_string_def read_string_def split: option.splits)
  qed
next
  case False
  show ?thesis
  proof (cases "\<not> too_long h inp p \<and> text_ok opts (mt h) (subspan inp (p + head_length h) (unat (head_value h)))")
    case True
    then show ?thesis using False string_definite by blast
  next
    case no: False
    then show ?thesis using False assms
      by (auto simp: skip_string_def read_string_def text_ok_def error_if_def validate_utf8_None_iff [symmetric] split: option.splits)
  qed
qed

lemma fails_step: "skip_step opts st r = Skip_more st' r' \<Longrightarrow> loop_fails opts st r \<longleftrightarrow> loop_fails opts st' r'"
  by (simp add: loop_fails_def skip_loop_resume [of opts st r])

lemma skip_tag_sound:
  assumes "r_in r = inp" "r_pos r = p" "h = parse_head inp p" "head_ok opts h p" "mt h = major_tag"
    "item_sound opts inp (p + head_length h)"
  shows "loop_fails opts st r \<or> (\<exists>q. item_at False opts inp (r_depth r) p q)"
proof -
  let ?st = "mark_key opts p st" and ?r = "r_advance (head_length h) r"
  have step: "skip_step opts st r = skip_tag h ?st r" using assms(1-5) by (simp add: skip_step_head)
  show ?thesis
  proof (cases "skip_tag h ?st r = Skip_more ?st ?r")
    case True
    then have nb: "\<not> is_break (parse_head inp (p + head_length h))"
      using is_break_at [of inp "p + head_length h"] assms(1,2) by (auto simp: skip_tag_def Let_def r_size_def split: if_splits)
    have "loop_fails opts ?st ?r \<or> (\<exists>q. item_at False opts inp (r_depth ?r) (p + head_length h) q)"
      by (rule item_soundD [OF assms(6) _ _ nb]) (use assms(1,2) in simp_all)
    then show ?thesis using fails_step [OF step [unfolded True]] item_tag [OF assms(3-5)] by auto
  next
    case False
    then have "\<exists>e r'. skip_tag h ?st r = Skip_fail e r'" by (auto simp: skip_tag_def Let_def split: if_splits)
    then show ?thesis using loop_failsI step by metis
  qed
qed

lemma skip_array_sound:
  assumes "r_in r = inp" "r_pos r = p" "h = parse_head inp p" "head_ok opts h p" "mt h = major_array"
    "seq_sound opts inp (p + head_length h)"
  shows "loop_fails opts st r \<or> (\<exists>q. item_at False opts inp (r_depth r) p q)"
proof -
  let ?st = "mark_key opts p st"
  have step: "skip_step opts st r = skip_container opts h ?st r" using assms(1-5) by (simp add: skip_step_head)
  show ?thesis
  proof (cases "r_depth r < o_max_depth opts")
    case d: True
    from assms(5) d show ?thesis
    proof (cases rule: skip_container_array [where st = ?st])
      case empty
      then show ?thesis using item_array [OF assms(3-5) d] seq_end by metis
    next
      case (enter lv)
      let ?r = "moved (r_pos r + head_length h) (skip_scratch r) (r\<lparr>r_depth := Suc (r_depth r)\<rparr>)"
      have "loop_fails opts (lv # ?st) ?r \<or> (\<exists>q. seq_at False opts inp (Suc (r_depth r)) (array_count h) (p + head_length h) q)"
        using seq_soundD [OF assms(6) enter(2,3,1), of ?r] assms(1,2) by simp
      then show ?thesis using fails_step [OF step [unfolded enter(4)]] item_array [OF assms(3-5) d] by auto
    qed
  next
    case False
    then show ?thesis using step by (auto simp: skip_container_def intro: loop_failsI)
  qed
qed

lemma skip_map_sound:
  assumes "r_in r = inp" "r_pos r = p" "h = parse_head inp p" "head_ok opts h p" "mt h = major_map"
    "entries_sound opts inp (p + head_length h)"
  shows "loop_fails opts st r \<or> (\<exists>q. item_at False opts inp (r_depth r) p q)"
proof -
  let ?st = "mark_key opts p st"
  have step: "skip_step opts st r = skip_container opts h ?st r" using assms(1-5) by (simp add: skip_step_head)
  show ?thesis
  proof (cases "r_depth r < o_max_depth opts")
    case d: True
    from assms(5) d show ?thesis
    proof (cases rule: skip_container_map [where st = ?st])
      case empty
      then show ?thesis using item_map [OF assms(3-5) d, of False] entries_end by metis
    next
      case (enter lv)
      let ?r = "moved (r_pos r + head_length h) (skip_scratch r) (r\<lparr>r_depth := Suc (r_depth r)\<rparr>)"
      have "loop_fails opts (lv # ?st) ?r \<or> (\<exists>q. entries_at False opts inp (Suc (r_depth r)) None (map_count False h) (p + head_length h) q)"
        using entries_soundD [OF assms(6) enter(2,3,1), of ?r] assms(1,2) by simp
      then show ?thesis using fails_step [OF step [unfolded enter(4)]] item_map [OF assms(3-5) d] by auto
    qed
  next
    case False
    then show ?thesis using step by (auto simp: skip_container_def intro: loop_failsI)
  qed
qed

lemma item_sound_step:
  assumes "\<And>p'. p < p' \<Longrightarrow> item_sound opts inp p' \<and> seq_sound opts inp p' \<and> entries_sound opts inp p'"
  shows "item_sound opts inp p"
  unfolding item_sound_def
proof (intro allI impI)
  fix st :: "level list" and r :: creader
  assume r: "r_in r = inp" "r_pos r = p"
  define h where h: "h = parse_head inp p"
  let ?goal = "loop_fails opts st r \<or> (\<exists>q. item_at False opts inp (r_depth r) p q)"
  let ?st = "mark_key opts p st"
  show "loop_fails opts st r \<or> (\<exists>q. item_at False opts inp (r_depth r) p q)
     \<or> is_break (parse_head inp p) \<and> (st = [] \<longrightarrow> loop_fails opts st r)"
  proof (cases "is_break h")
    case True
    then have "p < length inp" "inp ! p = break_byte" using is_break_at h by blast+
    then have "st = [] \<Longrightarrow> loop_fails opts st r"
      using skip_step_break [of r opts st] r by (auto simp: r_size_def mark_key_def skip_break_def intro: loop_failsI)
    with True h show ?thesis by blast
  next
    case nb: False
    have ?goal
    proof (cases "head_ok opts h p")
      case False
      then show ?thesis using skip_step_not_ok [of opts r st] nb r h by (auto intro: loop_failsI)
    next
      case ok: True
      have lt: "p < p + head_length h" using ok by (simp add: head_ok_def)
      note sub = assms [OF lt]
      have step: "mt h = major_simple \<Longrightarrow> skip_step opts st r = skip_simple opts h ?st r"
        "mt h = major_bytes \<or> mt h = major_text \<Longrightarrow> skip_step opts st r = skip_string opts h ?st r"
        using r h ok by (auto simp: skip_step_head)
      consider "mt h = major_uint \<or> mt h = major_nint" | "mt h = major_simple" | "mt h = major_bytes \<or> mt h = major_text"
        | "mt h = major_tag" | "mt h = major_array" | "mt h = major_map" by (cases "mt h") auto
      then show ?thesis
      proof cases
        case 1
        then show ?thesis using item_int [OF h ok] by blast
      next
        case 2
        then show ?thesis using item_simple [OF h ok 2] step(1) r
          by (cases "simple_ok opts h p")
            (auto simp: skip_simple_def simple_ok_def error_if_def split: if_splits option.splits intro: loop_failsI)
      next
        case 3
        then show ?thesis using item_string [OF h ok 3] step(2) skip_string_sound [OF r, of opts h ?st] by (metis loop_failsI)
      qed (use skip_tag_sound [OF r h ok] skip_array_sound [OF r h ok] skip_map_sound [OF r h ok] sub in blast)+
    qed
    then show ?thesis by blast
  qed
qed

text \<open>Inside a container: a break, or an item and what follows it.\<close>

lemma fails_break:
  assumes "r_pos r < r_size r" "r_in r ! r_pos r = break_byte" "l_remaining lv \<noteq> None \<or> l_is_map lv \<and> \<not> l_key_next lv"
  shows "loop_fails opts (lv # st) r"
proof -
  obtain lv' where "mark_key opts (r_pos r) (lv # st) = lv' # st" "l_remaining lv' \<noteq> None \<or> l_is_map lv' \<and> \<not> l_key_next lv'"
    using assms(3) by (cases "o_require_deterministic opts \<and> l_is_map lv \<and> l_key_next lv \<and> \<not> l_in_key lv")
      (auto simp: mark_key_def)
  then have "\<exists>e r'. skip_step opts (lv # st) r = Skip_fail e r'"
    by (auto simp: skip_step_break [OF assms(1,2)] skip_break_def)
  then show ?thesis using loop_failsI by blast
qed

lemma item_readD:
  "item_at False opts (r_in r) (r_depth r) (r_pos r) q \<Longrightarrow> item_read opts st r q"
  using item_complete by blast

lemma seq_sound_step:
  assumes "item_sound opts inp p" "\<And>p'. p < p' \<Longrightarrow> seq_sound opts inp p'"
  shows "seq_sound opts inp p"
  unfolding seq_sound_def
proof (intro allI impI)
  fix n :: "nat option" and lv :: level and st :: "level list" and r :: creader
  assume lv: "array_level n lv" "count_fits n" "n \<noteq> Some 0" and r: "r_in r = inp" "r_pos r = p"
  show "loop_fails opts (lv # st) r \<or> (\<exists>q. seq_at False opts inp (r_depth r) n p q)"
  proof (cases "is_break (parse_head inp p)")
    case True
    then have b: "p < length inp" "inp ! p = break_byte" using is_break_at by blast+
    show ?thesis
    proof (cases n)
      case None
      then show ?thesis using seq_break [OF b] by blast
    next
      case (Some k)
      then show ?thesis using fails_break [of r lv opts st] b r lv(1) by (simp add: r_size_def array_level_def)
    qed
  next
    case False
    from item_soundD [OF assms(1) r False, of "lv # st"] show ?thesis
    proof
      assume "\<exists>p1. item_at False opts inp (r_depth r) p p1"
      then obtain p1 where it: "item_at False opts inp (r_depth r) p p1" ..
      have lt: "p < p1" using item_at_bounds [OF it] by blast
      obtain sc where sc: "skip_loop opts (lv # st) r = resume opts (item_done opts (lv # st) (moved p1 sc r))"
        using item_readD [of opts r p1 "lv # st"] it r lv(1) by (auto simp: item_read_def array_level_def)
      show ?thesis
      proof (cases "pred_count n = Some 0")
        case True
        then show ?thesis using seq_more [OF lv(3) it, of p1] seq_end by metis
      next
        case False
        let ?lv = "lv\<lparr>l_remaining := map_option of_nat (pred_count n)\<rparr>"
        have "loop_fails opts (lv # st) r \<longleftrightarrow> loop_fails opts (?lv # st) (moved p1 sc r)"
          using sc False unfolding loop_fails_def item_done_array [OF lv(1,3,2)] by simp
        moreover have "loop_fails opts (?lv # st) (moved p1 sc r) \<or> (\<exists>q. seq_at False opts inp (r_depth r) (pred_count n) p1 q)"
          using seq_soundD [OF assms(2) [OF lt] array_level_pred [OF lv(1)] count_fits_pred [OF lv(2)] False, of "moved p1 sc r"] r
          by simp
        ultimately show ?thesis using seq_more [OF lv(3) it] by blast
      qed
    qed blast
  qed
qed

text \<open>After the key of an entry: the order of the keys, then the value and the entries that follow.\<close>

lemma entry_after_key:
  assumes lv: "entry_level opts inp prev n lv" "pairs_fit n" "n \<noteq> Some 0" and r: "r_in r = inp" "r_pos r = p"
    and sub: "\<And>p'. p < p' \<Longrightarrow> item_sound opts inp p' \<and> entries_sound opts inp p'"
    and key: "\<exists>p1. p < p1 \<and> item_at False opts inp (r_depth r) p p1 \<and> item_read opts (lv # st) r p1"
  shows "loop_fails opts (lv # st) r \<or> (\<exists>q. entries_at False opts inp (r_depth r) prev n p q)"
proof -
  obtain p1 where it: "item_at False opts inp (r_depth r) p p1" and lt: "p < p1" and rd: "item_read opts (lv # st) r p1"
    using key by blast
  obtain sc where sc: "skip_loop opts (lv # st) r = resume opts (item_done opts (mark_key opts p (lv # st)) (moved p1 sc r))"
    using rd r by (auto simp: item_read_def)
  let ?lk = "after_key opts p p1 lv" and ?key = "subspan inp p (p1 - p)"
  show ?thesis
  proof (cases "key_after opts prev ?key")
    case False
    obtain e where "item_done opts (mark_key opts p (lv # st)) (moved p1 sc r) = Skip_fail e (moved p1 sc r)"
      using item_done_key(2) [OF lv(1,3,2), of "moved p1 sc r" p st] False r by auto
    with sc show ?thesis by (simp add: loop_fails_def)
  next
    case True
    with item_done_key(1) [OF lv(1,3,2), of "moved p1 sc r" p st] sc r
    have l1: "skip_loop opts (lv # st) r = skip_loop opts (?lk # st) (moved p1 sc r)" by simp
    have kn: "l_is_map ?lk" "\<not> l_key_next ?lk" using lv(1) by (simp_all add: after_key_def entry_level_def Let_def)
    show ?thesis
    proof (cases "is_break (parse_head inp p1)")
      case b: True
      then have "loop_fails opts (?lk # st) (moved p1 sc r)"
        using is_break_at [of inp p1] kn r by (intro fails_break) (simp_all add: r_size_def)
      then show ?thesis using l1 by (simp add: loop_fails_def)
    next
      case nb: False
      have "loop_fails opts (?lk # st) (moved p1 sc r) \<or> (\<exists>p2. item_at False opts inp (r_depth r) p1 p2)"
        using item_soundD [of opts inp p1 "moved p1 sc r" "?lk # st"] sub [OF lt] nb r by simp
      then show ?thesis
      proof
        assume "\<exists>p2. item_at False opts inp (r_depth r) p1 p2"
        then obtain p2 where it2: "item_at False opts inp (r_depth r) p1 p2" ..
        have lt2: "p < p2" using item_at_bounds [OF it2] lt by linarith
        have "item_read opts (?lk # st) (moved p1 sc r) p2" using item_readD [of opts "moved p1 sc r" p2] it2 r by simp
        then obtain sc2 where l2: "skip_loop opts (?lk # st) (moved p1 sc r) = resume opts (item_done opts (?lk # st) (moved p2 sc2 r))"
          using mark_key_value [OF lv(1)] by (auto simp: item_read_def)
        note more = entries_more [OF lv(3) it it2 True]
        show ?thesis
        proof (cases "pred_count n = Some 0")
          case True
          then show ?thesis using more [of p2] entries_end by metis
        next
          case False
          let ?lv = "after_value opts p p1 lv"
          have "loop_fails opts (lv # st) r \<longleftrightarrow> loop_fails opts (?lv # st) (moved p2 sc2 r)"
            using l1 l2 False unfolding loop_fails_def item_done_value [OF lv(1,3,2)] by simp
          moreover have "loop_fails opts (?lv # st) (moved p2 sc2 r) \<or> (\<exists>q. entries_at False opts inp (r_depth r) (Some ?key) (pred_count n) p2 q)"
            using entries_soundD [OF conjunct2 [OF sub [OF lt2]] entry_level_next [OF lv(1,3)] pairs_fit_pred [OF lv(2)] False, of "moved p2 sc2 r"] r
            by simp
          ultimately show ?thesis using more by blast
        qed
      qed (use l1 in \<open>simp add: loop_fails_def\<close>)
    qed
  qed
qed

lemma entries_sound_step:
  assumes "item_sound opts inp p" "\<And>p'. p < p' \<Longrightarrow> item_sound opts inp p' \<and> entries_sound opts inp p'"
  shows "entries_sound opts inp p"
  unfolding entries_sound_def
proof (intro allI impI)
  fix prev :: "bytes option" and n :: "nat option" and lv :: level and st :: "level list" and r :: creader
  assume lv: "entry_level opts inp prev n lv" "pairs_fit n" "n \<noteq> Some 0" and r: "r_in r = inp" "r_pos r = p"
  show "loop_fails opts (lv # st) r \<or> (\<exists>q. entries_at False opts inp (r_depth r) prev n p q)"
  proof (cases "is_break (parse_head inp p)")
    case True
    then have b: "p < length inp" "inp ! p = break_byte" using is_break_at by blast+
    show ?thesis
    proof (cases n)
      case None
      then show ?thesis using entries_break [OF b] by blast
    next
      case (Some k)
      then show ?thesis using fails_break [of r lv opts st] b r lv(1) by (simp add: r_size_def entry_level_def)
    qed
  next
    case False
    from item_soundD [OF assms(1) r False, of "lv # st"] show ?thesis
    proof
      assume "\<exists>p1. item_at False opts inp (r_depth r) p p1"
      then obtain p1 where it: "item_at False opts inp (r_depth r) p p1" ..
      then have "\<exists>p1. p < p1 \<and> item_at False opts inp (r_depth r) p p1 \<and> item_read opts (lv # st) r p1"
        using item_at_bounds item_readD [of opts r _ "lv # st"] r by metis
      then show ?thesis using entry_after_key [OF lv r] assms(2) by blast
    qed blast
  qed
qed

lemma all_sound: "item_sound opts inp p \<and> seq_sound opts inp p \<and> entries_sound opts inp p"
proof (induction "length inp - p" arbitrary: p rule: less_induct)
  case less
  show ?case
  proof (cases "p < length inp")
    case True
    then have sub: "item_sound opts inp p' \<and> seq_sound opts inp p' \<and> entries_sound opts inp p'" if "p < p'" for p'
      using less that by (metis diff_less_mono2)
    have "item_sound opts inp p" by (rule item_sound_step) (use sub in blast)
    with seq_sound_step [of opts inp p] entries_sound_step [of opts inp p] sub show ?thesis by blast
  next
    case False
    then have "loop_fails opts st r" if "r_in r = inp" "r_pos r = p" for st r
      using that by (intro loop_failsI) (simp add: skip_step_def r_size_def)
    then show ?thesis unfolding sound_defs by blast
  qed
qed

section \<open>What the validator accepts\<close>

lemma skip_value_at:
  "item_at False opts (r_in r) (r_depth r) (r_pos r) q \<Longrightarrow> \<exists>sc. skip_value opts r = (Inr (), moved q sc r)"
  using item_readD [of opts r q "[]"] by (auto simp: item_read_def skip_value_def mark_key_def)

lemma skip_value_fails:
  assumes "\<not> (\<exists>q. item_at False opts (r_in r) (r_depth r) (r_pos r) q)"
  shows "\<exists>e r'. skip_value opts r = (Inl e, r')"
  using all_sound [of opts "r_in r" "r_pos r"] assms unfolding item_sound_def skip_value_def loop_fails_def by blast

lemma chunks_at_relaxed: "chunks_at strict opts m inp p q \<Longrightarrow> chunks_at False opts m inp p q"
  by (induction rule: chunks_at.induct) (auto intro: chunks_at.intros simp del: One_nat_def)

lemma string_at_relaxed: "string_at strict opts h inp p q \<Longrightarrow> string_at False opts h inp p q"
  by (auto elim!: string_at.cases intro: string_at.intros chunks_at_relaxed)

lemma item_at_relaxed: "item_at strict opts inp d p q \<Longrightarrow> length inp \<le> 2 ^ 64 \<Longrightarrow> item_at False opts inp d p q"
  and seq_at_relaxed: "seq_at strict opts inp d n p q \<Longrightarrow> length inp \<le> 2 ^ 64 \<Longrightarrow> seq_at False opts inp d n p q"
  and entries_at_relaxed: "entries_at strict opts inp d prev n p q \<Longrightarrow> length inp \<le> 2 ^ 64 \<Longrightarrow> entries_at False opts inp d prev n p q"
proof (induction rule: item_at_seq_at_entries_at.inducts)
  case (item_map h p d q)
  have "p + head_length h \<le> length inp" using item_map(1,2) head_ok_bound by blast
  then have "unat (head_value h) \<le> 2 ^ 63" if "\<not> indefinite h" "strict"
    using entries_at_bounds [OF item_map(4)] that item_map(7) by (simp add: map_count_def)
  then have "map_count False h = map_count strict h" by (auto simp: map_count_def Let_def)
  then show ?case using item_map by (auto intro: item_at_seq_at_entries_at.intros)
qed (auto intro: item_at_seq_at_entries_at.intros string_at_relaxed simp del: One_nat_def)

text \<open>C11. The iterative validator accepts exactly the items of the grammar, with the nesting limit counted
  from the current depth: on success it stands at the end of the item with its depth restored and its
  input unchanged; it fails exactly when no item starts at the position.\<close>

theorem skip_value_exact:
  "case skip_value opts r of
     (Inr u, r') \<Rightarrow> item_at False opts (r_in r) (r_depth r) (r_pos r) (r_pos r') \<and> r_pos r' \<le> r_size r
       \<and> (\<exists>sc. r' = r\<lparr>r_pos := r_pos r', skip_scratch := sc\<rparr>)
   | (Inl e, r') \<Rightarrow> \<not> (\<exists>q. item_at False opts (r_in r) (r_depth r) (r_pos r) q)"
proof (cases "\<exists>q. item_at False opts (r_in r) (r_depth r) (r_pos r) q")
  case True
  then obtain q sc where q: "item_at False opts (r_in r) (r_depth r) (r_pos r) q" "skip_value opts r = (Inr (), moved q sc r)"
    using skip_value_at by metis
  moreover have "q \<le> r_size r" using item_at_bounds [OF q(1)] by (simp add: r_size_def)
  moreover have "\<exists>sc'. moved q sc r = r\<lparr>r_pos := q, skip_scratch := sc'\<rparr>" by (auto simp: moved_def)
  ultimately show ?thesis by simp
next
  case False
  then show ?thesis using skip_value_fails [OF False] by auto
qed

text \<open>C13. Every well-formed RFC 8949 item within the reader's limits is accepted and consumed to its end, with the depth
  restored. The grammar is \<open>item_at True\<close>: definite counts at face value, no reserved additional information, containers
  nested below \<^verbatim>\<open>max_depth\<close> counted from the reader's depth, text valid UTF-8 where the options check it, and heads, floats
  and key order in deterministic form where the options require it.\<close>

theorem skip_value_accepts_wellformed:
  assumes "item_at True opts (r_in r) (r_depth r) (r_pos r) q" "r_size r \<le> 2 ^ 64"
  shows "fst (skip_value opts r) = Inr () \<and> r_pos (snd (skip_value opts r)) = q \<and> r_depth (snd (skip_value opts r)) = r_depth r"
  using skip_value_at [OF item_at_relaxed [OF assms(1)]] assms(2) by (auto simp: r_size_def)

theorem skip_value_accepts_wellformed_witness:
  "fst (skip_value default_options (new_reader [0x81, 0x01])) = Inr ()
   \<and> r_pos (snd (skip_value default_options (new_reader [0x81, 0x01]))) = 2"
proof -
  let ?i = "[0x81, 0x01] :: bytes"
  have h0: "mt (parse_head ?i 0) = major_array" "head_length (parse_head ?i 0) = 1" "array_count (parse_head ?i 0) = Some 1"
    "head_ok default_options (parse_head ?i 0) 0" and
    h1: "mt (parse_head ?i 1) = major_uint" "head_length (parse_head ?i 1) = 1" "head_ok default_options (parse_head ?i 1) 1" and
    d: "0 < o_max_depth default_options"
    by code_simp+
  have "item_at True default_options ?i 1 1 2"
    using item_int [OF refl h1(3), of True 1] h1(1,2) by (simp add: numeral_2_eq_2)
  then have "seq_at True default_options ?i (Suc 0) (Some 1) 1 2"
    using seq_more [of "Some 1" True default_options ?i 1 1 2 2] by (simp add: pred_count_def seq_end)
  then have it: "item_at True default_options ?i 0 0 2"
    using item_array [OF refl h0(4,1) d, of True 2] h0(2,3) by simp
  from skip_value_accepts_wellformed [of default_options "new_reader ?i" 2] it show ?thesis
    by (simp add: new_reader_def r_size_def)
qed

text \<open>The count of a map is doubled in 64 bits: a map head announcing \<open>2 ^ 63 + 1\<close> entries, followed by
  one entry, is accepted as a complete item, although no well-formed item starts there.\<close>

theorem skip_value_map_count_wraps:
  "skip_value default_options (new_reader [0xbb, 0x80, 0, 0, 0, 0, 0, 0, 1, 1, 2]) =
     (Inr (), (new_reader [0xbb, 0x80, 0, 0, 0, 0, 0, 0, 1, 1, 2])\<lparr>r_pos := 11\<rparr>)
   \<and> \<not> (\<exists>q. item_at True default_options [0xbb, 0x80, 0, 0, 0, 0, 0, 0, 1, 1, 2] 0 0 q)"
proof
  let ?i = "[0xbb, 0x80, 0, 0, 0, 0, 0, 0, 1, 1, 2] :: bytes"
  show "skip_value default_options (new_reader ?i) = (Inr (), (new_reader ?i)\<lparr>r_pos := 11\<rparr>)" by code_simp
  have h: "mt (parse_head ?i 0) = major_map" "head_length (parse_head ?i 0) = 9" "\<not> indefinite (parse_head ?i 0)"
    "head_value (parse_head ?i 0) = 9223372036854775809"
    by code_simp+
  show "\<not> (\<exists>q. item_at True default_options ?i 0 0 q)"
  proof
    assume "\<exists>q. item_at True default_options ?i 0 0 q"
    then obtain q where "item_at True default_options ?i 0 0 q" ..
    then have "entries_at True default_options ?i 1 None (map_count True (parse_head ?i 0)) 9 q"
      by (cases rule: item_at.cases) (use h in simp_all)
    from entries_at_bounds [OF this] h(3,4) show False by (simp add: map_count_def) linarith
  qed
qed

text \<open>A chunk of an indefinite-length byte string whose head has the reserved additional information 28
  is accepted as an empty chunk, although no well-formed item starts there.\<close>

theorem skip_value_reserved_chunk:
  "skip_value default_options (new_reader [0x5f, 0x5c, 0xff]) = (Inr (), (new_reader [0x5f, 0x5c, 0xff])\<lparr>r_pos := 3\<rparr>)
   \<and> \<not> (\<exists>q. item_at True default_options [0x5f, 0x5c, 0xff] 0 0 q)"
proof
  let ?i = "[0x5f, 0x5c, 0xff] :: bytes"
  show "skip_value default_options (new_reader ?i) = (Inr (), (new_reader ?i)\<lparr>r_pos := 3\<rparr>)" by code_simp
  have h: "mt (parse_head ?i 0) = major_bytes" "head_length (parse_head ?i 0) = 1" "indefinite (parse_head ?i 0)"
    "reserved (parse_head ?i 1)" "?i ! 1 \<noteq> break_byte"
    by code_simp+
  show "\<not> (\<exists>q. item_at True default_options ?i 0 0 q)"
  proof
    assume "\<exists>q. item_at True default_options ?i 0 0 q"
    then obtain q where "item_at True default_options ?i 0 0 q" ..
    then have "string_at True default_options (parse_head ?i 0) ?i 0 q"
      by (cases rule: item_at.cases) (use h in simp_all)
    then have "chunks_at True default_options major_bytes ?i 1 q"
      by (cases rule: string_at.cases) (use h in simp_all)
    then show False by (cases rule: chunks_at.cases) (use h in simp_all)
  qed
qed

section \<open>The reader contract\<close>

lemma skip_value_okD:
  assumes "skip_value opts r = (Inr u, r')"
  shows "\<exists>q sc. item_at False opts (r_in r) (r_depth r) (r_pos r) q \<and> r' = moved q sc r"
proof (rule ccontr)
  assume no: "\<not> ?thesis"
  have "\<exists>e r''. skip_value opts r = (Inl e, r'')"
    by (rule skip_value_fails) (use no skip_value_at [of opts r] assms in auto)
  with assms show False by simp
qed

interpretation cbor: validating r_pos r_depth r_size save restore "skip_value opts" for opts
proof unfold_locales
  fix r r' :: creader and s :: u64 and u :: unit
  show "save r = pack_position (r_pos r) (r_depth r)" by (simp add: save_def pack_position_def)
  show "r_pos (restore s r) = unpack_pos s" "r_depth (restore s r) = unpack_depth s" "r_size (restore s r) = r_size r"
    by (simp_all add: restore_def unpack_pos_def unpack_depth_def r_size_def)
  assume sk: "skip_value opts r = (Inr u, r')"
  obtain q sc where q: "item_at False opts (r_in r) (r_depth r) (r_pos r) q" "r' = moved q sc r"
    using skip_value_okD [OF sk] by blast
  show "r_pos r < r_pos r'" "r_pos r' \<le> r_size r \<and> r_size r' = r_size r" "r_depth r' = r_depth r"
    using item_at_bounds [OF q(1)] q(2) by (simp_all add: r_size_def)
qed

end
