(* ===== verification/Fixed_String.thy ===== *)
theory Fixed_String
  imports Vcodec_Prelude
begin

text \<open>
  \<^verbatim>\<open>core/fixed_string.hpp\<close>: the fixed-capacity buffer in which the library builds text at compile
  time (keys, diagnostics). The buffer is its used part; the capacity is kept beside it. Appending past
  the capacity drops characters silently, so the correctness of every client rests on a capacity bound.
\<close>

record fixed_string =
  fs_cap :: nat
  fs_view :: string

definition fs_empty :: "nat \<Rightarrow> fixed_string" where
  "fs_empty N = \<lparr>fs_cap = N, fs_view = ''''\<rparr>"

definition fs_size :: "fixed_string \<Rightarrow> nat" where
  "fs_size b = length (fs_view b)"

definition fs_truncated :: "fixed_string \<Rightarrow> bool" where
  "fs_truncated b \<longleftrightarrow> fs_size b = fs_cap b"

definition fs_clear :: "fixed_string \<Rightarrow> fixed_string" where
  "fs_clear b = b\<lparr>fs_view := ''''\<rparr>"

definition fs_append_char :: "char \<Rightarrow> fixed_string \<Rightarrow> fixed_string" where
  "fs_append_char c b = (if fs_size b < fs_cap b then b\<lparr>fs_view := fs_view b @ [c]\<rparr> else b)"

definition fs_append :: "string \<Rightarrow> fixed_string \<Rightarrow> fixed_string" where
  "fs_append s b = fold fs_append_char s b"

definition fs_of :: "nat \<Rightarrow> string \<Rightarrow> fixed_string" where
  "fs_of N s = fs_append s (fs_empty N)"

text \<open>\<^verbatim>\<open>append_int\<close> for a \<open>w\<close>-bit integer type: the magnitude in the unsigned type of that width, its
  digits collected least significant first in a 24-character buffer, then appended in reverse.\<close>

function int_digits_rev :: "int \<Rightarrow> string" where
  "int_digits_rev u = digit_char (u mod 10) # (if u div 10 \<le> 0 then [] else int_digits_rev (u div 10))"
  by auto
termination
  by (relation "measure nat") auto

declare int_digits_rev.simps [simp del]

definition int_magnitude :: "nat \<Rightarrow> int \<Rightarrow> int" where
  "int_magnitude w v = (if v < 0 then (0 - v mod 2 ^ w) mod 2 ^ w else v mod 2 ^ w)"

definition fs_append_int :: "nat \<Rightarrow> int \<Rightarrow> fixed_string \<Rightarrow> fixed_string" where
  "fs_append_int w v b = fs_append (rev (int_digits_rev (int_magnitude w v)))
     (if v < 0 then fs_append_char (CHR ''-'') b else b)"

definition fs_ok :: "fixed_string \<Rightarrow> bool" where
  "fs_ok b \<longleftrightarrow> fs_size b \<le> fs_cap b"

lemma fs_ok_ops [simp]:
  "fs_ok (fs_empty N)" "fs_ok b \<Longrightarrow> fs_ok (fs_clear b)" "fs_ok b \<Longrightarrow> fs_ok (fs_append_char c b)"
  by (simp_all add: fs_ok_def fs_empty_def fs_clear_def fs_append_char_def fs_size_def)

lemma fs_cap_ops [simp]:
  "fs_cap (fs_empty N) = N" "fs_cap (fs_append_char c b) = fs_cap b" "fs_cap (fs_append s b) = fs_cap b"
proof -
  show c: "fs_cap (fs_append_char c b) = fs_cap b" for c b by (simp add: fs_append_char_def)
  show "fs_cap (fs_append s b) = fs_cap b"
    unfolding fs_append_def by (induction s arbitrary: b) (simp_all add: c)
qed (simp add: fs_empty_def)

lemma fs_view_append:
  assumes "fs_ok b"
  shows "fs_view (fs_append s b) = take (fs_cap b) (fs_view b @ s)"
  using assms
proof (induction s arbitrary: b)
  case Nil
  then show ?case by (simp add: fs_append_def fs_ok_def fs_size_def)
next
  case (Cons c s)
  have "fs_view (fs_append (c # s) b) = take (fs_cap b) (fs_view (fs_append_char c b) @ s)"
    using Cons.IH [of "fs_append_char c b"] Cons.prems by (simp add: fs_append_def)
  then show ?case
    using Cons.prems by (auto simp: fs_append_char_def fs_ok_def fs_size_def take_Cons' Suc_diff_Suc)
qed

lemma fs_ok_append [simp]: "fs_ok b \<Longrightarrow> fs_ok (fs_append s b)"
  by (simp add: fs_ok_def [of "fs_append s b"] fs_size_def fs_view_append)

lemma fs_append_fits:
  assumes "fs_ok b" "fs_size b + length s \<le> fs_cap b"
  shows "fs_append s b = b\<lparr>fs_view := fs_view b @ s\<rparr>"
proof (rule fixed_string.equality)
  show "fs_view (fs_append s b) = fs_view (b\<lparr>fs_view := fs_view b @ s\<rparr>)"
    using fs_view_append [OF assms(1), of s] assms(2) by (simp add: fs_size_def)
qed simp_all

lemma fs_append_append: "fs_append (s @ t) b = fs_append t (fs_append s b)"
  by (simp add: fs_append_def)

lemma fs_append_single: "fs_append_char c b = fs_append [c] b"
  by (simp add: fs_append_def)

lemma int_digits_rev: "0 \<le> u \<Longrightarrow> rev (int_digits_rev u) = dec_digits u"
proof (induction u rule: int_digits_rev.induct)
  case (1 u)
  show ?case
  proof (cases "u < 10")
    case True
    with 1 have "u div 10 = 0" "u mod 10 = u" by simp_all
    with True show ?thesis by (simp add: int_digits_rev.simps [of u] dec_digits.simps [of u])
  next
    case False
    then have "\<not> u div 10 \<le> 0" by (simp add: not_le pos_imp_zdiv_pos_iff)
    with 1 False show ?thesis by (simp add: int_digits_rev.simps [of u] dec_digits.simps [of u])
  qed
qed

lemma int_magnitude_abs:
  assumes "- (2 ^ (w - 1)) \<le> v" "v < 2 ^ w" "0 < w"
  shows "int_magnitude w v = \<bar>v\<bar>"
proof (cases "v < 0")
  case True
  have "(2 :: int) ^ (w - 1) < 2 ^ w" using assms(3) by simp
  with assms(1) True have "- v < 2 ^ w" "0 < - v" by linarith+
  have "(0 - v mod 2 ^ w) mod 2 ^ w = (- v) mod 2 ^ w" by (simp add: mod_minus_eq)
  also have "\<dots> = - v" using \<open>- v < 2 ^ w\<close> \<open>0 < - v\<close> by (intro mod_pos_pos_trivial) simp_all
  finally show ?thesis using True by (simp add: int_magnitude_def)
next
  case False
  then show ?thesis using assms(2) by (simp add: int_magnitude_def)
qed

lemma length_dec_digits: "0 \<le> n \<Longrightarrow> n < 10 ^ k \<Longrightarrow> 0 < k \<Longrightarrow> length (dec_digits n) \<le> k"
proof (induction n arbitrary: k rule: dec_digits.induct)
  case (1 n)
  show ?case
  proof (cases "n < 10")
    case True
    then show ?thesis using 1(4) by (simp add: dec_digits.simps [of n])
  next
    case False
    obtain j where k: "k = Suc j" "0 < j"
      using 1(3,4) False by (cases k; cases "k - 1") auto
    have "n div 10 < 10 ^ j" using 1(3) k by simp
    with 1(1) [OF False, of j] 1(2) False k show ?thesis by (simp add: dec_digits.simps [of n] pos_imp_zdiv_nonneg_iff)
  qed
qed

text \<open>Appending an integer of any type of at most 64 bits writes its decimal text, cut off at the
  capacity, and never leaves the 24-character digit buffer.\<close>

theorem fs_append_int_decimal:
  assumes "fs_ok b" "0 < w" "w \<le> 64" "- (2 ^ (w - 1)) \<le> v" "v < 2 ^ w"
  shows "fs_view (fs_append_int w v b) = take (fs_cap b) (fs_view b @ dec_int v)
     \<and> fs_ok (fs_append_int w v b) \<and> length (int_digits_rev (int_magnitude w v)) \<le> 20"
proof -
  have m: "int_magnitude w v = \<bar>v\<bar>" by (rule int_magnitude_abs) (use assms in auto)
  have "\<bar>v\<bar> < 10 ^ 20"
  proof -
    have "(2 :: int) ^ w \<le> 2 ^ 64" "(2 :: int) ^ (w - 1) \<le> 2 ^ 64" using assms(2,3) by (intro power_increasing; simp)+
    with assms(4,5) show ?thesis by simp
  qed
  then have len: "length (int_digits_rev \<bar>v\<bar>) \<le> 20"
    using length_dec_digits [of "\<bar>v\<bar>" 20] int_digits_rev [of "\<bar>v\<bar>"] length_rev [of "int_digits_rev \<bar>v\<bar>"] by simp
  have ap: "fs_append_int w v b = fs_append (dec_int v) b"
    by (auto simp: fs_append_int_def m int_digits_rev dec_int_def fs_append_single fs_append_append [symmetric])
  show ?thesis using assms(1) len by (simp add: ap m fs_view_append)
qed

theorem fs_append_int_decimal_witness:
  "fs_view (fs_append_int 64 (- 9223372036854775808) (fs_empty 24)) = ''-9223372036854775808''"
proof -
  have "take 24 (dec_int (- 9223372036854775808)) = ''-9223372036854775808''" by code_simp
  with fs_append_int_decimal [of "fs_empty 24" 64 "- 9223372036854775808"] show ?thesis by (simp add: fs_empty_def fs_ok_def fs_size_def)
qed

end
