(* ===== verification/Json_Escape.thy ===== *)
theory Json_Escape
  imports Vcodec_Error Vcodec_Lower Fixed_String
begin

text \<open>
  \<^verbatim>\<open>json/escape.hpp\<close>: JSON string escaping at run time (\<open>write_string\<close>, which copies runs of clean
  characters in one go) and at compile time (\<open>prepared_key_blob\<close>, which builds a quoted key in a
  buffer of fixed capacity).
\<close>

definition hex_upper :: string where
  "hex_upper = ''0123456789ABCDEF''"

definition needs_escape :: "char \<Rightarrow> bool" where
  "needs_escape c \<longleftrightarrow> uchar c < 0x20 \<or> c = CHR 0x22 \<or> c = CHR 0x5C"

definition escape_text :: "char \<Rightarrow> string" where
  "escape_text c =
     (if c = CHR 0x22 then [CHR 0x5C, CHR 0x22]
      else if c = CHR 0x5C then [CHR 0x5C, CHR 0x5C]
      else if c = CHR 0x08 then [CHR 0x5C, CHR ''b'']
      else if c = CHR 0x0C then [CHR 0x5C, CHR ''f'']
      else if c = CHR 0x0A then [CHR 0x5C, CHR ''n'']
      else if c = CHR 0x0D then [CHR 0x5C, CHR ''r'']
      else if c = CHR 0x09 then [CHR 0x5C, CHR ''t'']
      else [CHR 0x5C, CHR ''u'', CHR ''0'', CHR ''0'',
            hex_upper ! unat (drop_bit 4 (uchar c)), hex_upper ! unat (uchar c AND 15)])"

definition put_escape :: "string \<Rightarrow> char \<Rightarrow> string" where
  "put_escape out c = out @ escape_text c"

text \<open>The loop of \<open>write_string\<close>: \<open>run\<close> is where the pending run of clean characters starts.\<close>

function escape_loop :: "string \<Rightarrow> nat \<Rightarrow> nat \<Rightarrow> string \<Rightarrow> string" where
  "escape_loop s i run out =
     (if i < length s then
        (if needs_escape (s ! i) then
           escape_loop s (i + 1) (i + 1)
             (put_escape (if run < i then out @ take (i - run) (drop run s) else out) (s ! i))
         else escape_loop s (i + 1) run out)
      else (if run < length s then out @ take (length s - run) (drop run s) else out))"
  by auto
termination
  by (relation "measure (\<lambda>(s, i, run, out). length s - i)") auto

declare escape_loop.simps [simp del]

definition write_string :: "bool \<Rightarrow> string \<Rightarrow> string \<Rightarrow> string encoded" where
  "write_string validate out s =
     (case (if validate then validate_utf8 s else None) of
        Some bad \<Rightarrow> Inl (mk_encode_error invalid_utf8 (''string contains invalid UTF-8 at byte '' @ dec_nat bad))
      | None \<Rightarrow> Inr (escape_loop s 0 0 (out @ [CHR 0x22]) @ [CHR 0x22]))"

definition blob_char :: "char \<Rightarrow> fixed_string \<Rightarrow> fixed_string" where
  "blob_char c b = (if needs_escape c then fs_append (escape_text c) b else fs_append_char c b)"

definition prepared_key_blob :: "nat \<Rightarrow> string \<Rightarrow> bool \<Rightarrow> fixed_string" where
  "prepared_key_blob N name pretty =
     (let b = fs_append [CHR 0x22, CHR '':''] (fold blob_char name (fs_append_char (CHR 0x22) (fs_empty N)))
      in if pretty then fs_append_char (CHR '' '') b else b)"

section \<open>Escaping character by character\<close>

definition escaped :: "char \<Rightarrow> string" where
  "escaped c = (if needs_escape c then escape_text c else [c])"

definition quoted :: "string \<Rightarrow> string" where
  "quoted s = CHR 0x22 # concat (map escaped s) @ [CHR 0x22]"

lemma concat_singletons: "(\<And>x. x \<in> set xs \<Longrightarrow> f x = [x]) \<Longrightarrow> concat (map f xs) = xs"
  by (induction xs) simp_all

text \<open>Copying runs is escaping character by character.\<close>

lemma escape_loop_runs:
  assumes "run \<le> i" "i \<le> length s" "\<forall>k. run \<le> k \<longrightarrow> k < i \<longrightarrow> \<not> needs_escape (s ! k)"
  shows "escape_loop s i run out = out @ concat (map escaped (drop run s))"
  using assms
proof (induction s i run out rule: escape_loop.induct)
  case (1 s i run out)
  have clean: "concat (map escaped (take (i - run) (drop run s))) = take (i - run) (drop run s)"
  proof -
    have "escaped c = [c]" if "c \<in> set (take (i - run) (drop run s))" for c
    proof -
      from that obtain k where "k < length (take (i - run) (drop run s))" "take (i - run) (drop run s) ! k = c"
        by (metis in_set_conv_nth)
      then show ?thesis using 1(5) 1(4) by (auto simp: escaped_def)
    qed
    then show ?thesis by (rule concat_singletons)
  qed
  have split: "drop run s = take (i - run) (drop run s) @ drop i s"
    using 1(3) by (metis append_take_drop_id drop_drop le_add_diff_inverse2)
  show ?case
  proof (cases "i < length s")
    case False
    with 1(4) have "i = length s" by simp
    then show ?thesis using clean 1(3) by (subst escape_loop.simps) auto
  next
    case True
    then have di: "drop i s = s ! i # drop (i + 1) s" by (simp add: Cons_nth_drop_Suc)
    show ?thesis
    proof (cases "needs_escape (s ! i)")
      case esc: True
      let ?out = "put_escape (if run < i then out @ take (i - run) (drop run s) else out) (s ! i)"
      have "escape_loop s i run out = escape_loop s (i + 1) (i + 1) ?out"
        using True esc by (subst escape_loop.simps) simp
      also have "\<dots> = ?out @ concat (map escaped (drop (i + 1) s))"
        using 1(1) [OF True esc] True by simp
      also have "?out = out @ take (i - run) (drop run s) @ escaped (s ! i)"
        using esc by (simp add: put_escape_def escaped_def)
      finally have "escape_loop s i run out = out @ take (i - run) (drop run s) @ concat (map escaped (drop i s))"
        by (simp add: di)
      then show ?thesis using clean by (subst split) simp
    next
      case noesc: False
      have "escape_loop s i run out = escape_loop s (i + 1) run out"
        using True noesc by (subst escape_loop.simps) simp
      also have "\<dots> = out @ concat (map escaped (drop run s))"
        by (rule 1(2) [OF True noesc]) (use 1(3,5) True noesc in \<open>auto simp: less_Suc_eq\<close>)
      finally show ?thesis .
    qed
  qed
qed

lemma write_string_quoted:
  "write_string validate out s =
     (if validate \<and> \<not> well_formed_utf8 s
      then Inl (mk_encode_error invalid_utf8 (''string contains invalid UTF-8 at byte '' @ dec_nat (the (validate_utf8 s))))
      else Inr (out @ quoted s))"
  using escape_loop_runs [of 0 0 s] validate_utf8_None_iff [of s]
  by (auto simp: write_string_def quoted_def split: option.splits)

lemma length_escape_text: "length (escape_text c) \<le> 6"
  by (simp add: escape_text_def)

lemma length_concat_escaped: "length (concat (map escaped s)) \<le> 6 * length s"
proof (induction s)
  case (Cons c s)
  have "length (escaped c) \<le> 6" using length_escape_text [of c] by (simp add: escaped_def)
  with Cons show ?case by simp
qed simp

lemma blob_char_escaped: "blob_char c b = fs_append (escaped c) b"
  by (simp add: blob_char_def escaped_def fs_append_single)

lemma fold_blob_char: "fold blob_char s b = fs_append (concat (map escaped s)) b"
  by (induction s arbitrary: b) (simp_all add: blob_char_escaped fs_append_append, simp add: fs_append_def)

lemma prepared_key_blob_eq:
  "prepared_key_blob (length name * 6 + 8) name pretty =
     (fs_empty (length name * 6 + 8))\<lparr>fs_view := quoted name @ '':'' @ (if pretty then '' '' else '''')\<rparr>"
proof -
  let ?N = "length name * 6 + 8"
  let ?s = "CHR 0x22 # concat (map escaped name) @ [CHR 0x22, CHR '':''] @ (if pretty then '' '' else '''')"
  have "prepared_key_blob ?N name pretty = fs_append ?s (fs_empty ?N)"
    by (simp add: prepared_key_blob_def fold_blob_char fs_append_single fs_append_append [symmetric] Let_def)
  also have "\<dots> = (fs_empty ?N)\<lparr>fs_view := ?s\<rparr>"
    using length_concat_escaped [of name] by (subst fs_append_fits) (auto simp: fs_size_def fs_empty_def fs_ok_def)
  finally show ?thesis by (simp add: quoted_def)
qed

lemma prepared_key_view:
  "fs_view (prepared_key_blob (length name * 6 + 8) name pretty) = quoted name @ '':'' @ (if pretty then '' '' else '''')"
  by (simp add: prepared_key_blob_eq)

text \<open>C31. The compile-time key and the run-time string agree: the blob of a name, built with the capacity
  the writer asks for (six characters per character and eight more), is never truncated and is the
  quoted string \<open>write_string\<close> produces, with the colon and, when pretty-printing, a space.\<close>

theorem prepared_key_agrees:
  "fs_view (prepared_key_blob (length name * 6 + 8) name pretty) =
     quoted name @ '':'' @ (if pretty then '' '' else '''') \<and>
   \<not> fs_truncated (prepared_key_blob (length name * 6 + 8) name pretty) \<and>
   write_string False out name = Inr (out @ quoted name)"
  using length_concat_escaped [of name]
  by (auto simp: prepared_key_blob_eq fs_truncated_def fs_size_def fs_empty_def quoted_def write_string_quoted)

end
