(* ===== verification/Vcodec_Decimal.thy ===== *)
theory Vcodec_Decimal
  imports Vcodec_Float
begin

text \<open>
  \<^verbatim>\<open>std::from_chars\<close> and \<^verbatim>\<open>std::to_chars\<close> on doubles, as \<^verbatim>\<open>json/number.hpp\<close> uses them. Reading rounds the
  exact decimal value to nearest, ties to even, and reports a value that rounds to infinity, or a
  nonzero value that rounds to zero, as out of range. Writing produces the shortest text, in fixed or
  scientific notation, that reads back as the same double; of equally short texts the closest one, and
  fixed notation when both are equally long.
\<close>

section \<open>Decimal literals\<close>

definition digit_val :: "char \<Rightarrow> int" where
  "digit_val c = int (of_char c) - 48"

definition is_digit :: "char \<Rightarrow> bool" where
  "is_digit c \<longleftrightarrow> (48 :: nat) \<le> of_char c \<and> (of_char c :: nat) \<le> 57"

definition digits_value :: "string \<Rightarrow> int" where
  "digits_value s = foldl (\<lambda>v c. v * 10 + digit_val c) 0 s"

text \<open>A literal \<open>[-]digits[.digits][(e|E)[+|-]digits]\<close> as sign, digits and power of ten.\<close>

definition literal_parts :: "string \<Rightarrow> bool \<times> int \<times> int" where
  "literal_parts s =
     (let neg = (s \<noteq> [] \<and> hd s = CHR ''-'');
          s1 = (if neg then tl s else s);
          ip = takeWhile is_digit s1; s2 = dropWhile is_digit s1;
          fp = (if s2 \<noteq> [] \<and> hd s2 = CHR ''.'' then takeWhile is_digit (tl s2) else []);
          s3 = (if s2 \<noteq> [] \<and> hd s2 = CHR ''.'' then dropWhile is_digit (tl s2) else s2);
          s4 = (if s3 \<noteq> [] \<and> (hd s3 = CHR ''e'' \<or> hd s3 = CHR ''E'') then tl s3 else []);
          eneg = (s4 \<noteq> [] \<and> hd s4 = CHR ''-'');
          s5 = (if s4 \<noteq> [] \<and> (hd s4 = CHR ''-'' \<or> hd s4 = CHR ''+'') then tl s4 else s4);
          ex = digits_value (takeWhile is_digit s5)
      in (neg, digits_value (ip @ fp), (if eneg then - ex else ex) - int (length fp)))"

text \<open>The magnitude code nearest to \<open>m * 10 ^ e\<close>. A negative power is a quotient: the quotient scaled by
  \<open>2 ^ 1100\<close>, with one more bit that says whether the division left a remainder, rounds like the exact
  value because every point halfway between two doubles is a multiple of \<open>2 ^ -1075\<close>.\<close>

definition decimal_scale :: nat where
  "decimal_scale = 1100"

definition round_decimal :: "int \<Rightarrow> int \<Rightarrow> int" where
  "round_decimal m e =
     (if 0 \<le> e then round_mag Double (m * 10 ^ nat e) 0
      else let num = m * 2 ^ decimal_scale; den = 10 ^ nat (- e)
           in round_mag Double (2 * (num div den) + (if num mod den = 0 then 0 else 1)) (- int decimal_scale - 1))"

text \<open>\<open>None\<close> is \<^verbatim>\<open>std::errc::result_out_of_range\<close>.\<close>

definition from_chars_double :: "string \<Rightarrow> u64 option" where
  "from_chars_double s =
     (case literal_parts s of (neg, m, e) \<Rightarrow>
        let c = round_decimal m e in
        if c = inf_code Double \<or> (c = 0 \<and> m \<noteq> 0) then None else Some (mk_double neg c))"

section \<open>Shortest text\<close>

text \<open>A finite magnitude as a quotient of integers.\<close>

definition mag_num :: "int \<Rightarrow> int" where
  "mag_num c = (if 0 \<le> mag_exp Double c then mag_sig Double c * 2 ^ nat (mag_exp Double c) else mag_sig Double c)"

definition mag_den :: "int \<Rightarrow> int" where
  "mag_den c = (if 0 \<le> mag_exp Double c then 1 else 2 ^ nat (- mag_exp Double c))"

text \<open>The exponent of the leading decimal digit of \<open>num / den\<close>.\<close>

function dec_exp_down :: "int \<Rightarrow> int \<Rightarrow> int \<Rightarrow> int" where
  "dec_exp_down num den k = (if num \<le> 0 \<or> den \<le> num then - k else dec_exp_down (num * 10) den (k + 1))"
  by auto
termination
  by (relation "measure (\<lambda>(num, den, k). nat (den - num))") auto

declare dec_exp_down.simps [simp del]

definition dec_exp :: "int \<Rightarrow> int \<Rightarrow> int" where
  "dec_exp num den = (if den \<le> num then int (length (dec_digits (num div den))) - 1 else dec_exp_down num den 0)"

text \<open>\<open>num / den / 10 ^ s\<close> as a quotient.\<close>

definition scaled :: "int \<Rightarrow> int \<Rightarrow> int \<Rightarrow> int \<times> int" where
  "scaled num den s = (if 0 \<le> s then (num, den * 10 ^ nat s) else (num * 10 ^ nat (- s), den))"

text \<open>The decimal of \<open>n\<close> digits that reads back as \<open>c\<close>: one of the two neighbours of the value, the
  closer one when both do.\<close>

definition short_candidate :: "int \<Rightarrow> nat \<Rightarrow> (int \<times> int) option" where
  "short_candidate c n =
     (let num = mag_num c; den = mag_den c; s = dec_exp num den - int n + 1 in
      case scaled num den s of (a, b) \<Rightarrow>
        let lo = a div b; r = a mod b;
            ok_lo = (round_decimal lo s = c); ok_hi = (round_decimal (lo + 1) s = c)
        in if ok_lo \<and> (\<not> ok_hi \<or> 2 * r < b \<or> (2 * r = b \<and> even lo)) then Some (lo, s)
           else if ok_hi then Some (lo + 1, s) else None)"

definition exact_decimal :: "int \<Rightarrow> int \<times> int" where
  "exact_decimal c = (mag_num c * 10 ^ decimal_scale div mag_den c, - int decimal_scale)"

fun shortest_from :: "int \<Rightarrow> nat \<Rightarrow> nat \<Rightarrow> int \<times> int" where
  "shortest_from c n 0 = exact_decimal c"
| "shortest_from c n (Suc fuel) = (case short_candidate c n of Some p \<Rightarrow> p | None \<Rightarrow> shortest_from c (Suc n) fuel)"

text \<open>Seventeen digits always suffice for a binary64; the search is given twenty rounds and ends with
  the exact decimal expansion, so that the definition needs no such fact.\<close>

definition shortest_decimal :: "int \<Rightarrow> int \<times> int" where
  "shortest_decimal c = shortest_from c 1 20"

definition strip_zeros :: "string \<Rightarrow> string" where
  "strip_zeros ds = rev (dropWhile (\<lambda>c. c = CHR ''0'') (rev ds))"

definition pad2 :: "string \<Rightarrow> string" where
  "pad2 s = (if length s < 2 then CHR ''0'' # s else s)"

definition scientific :: "string \<Rightarrow> int \<Rightarrow> string" where
  "scientific ds E = hd ds # (if tl ds = [] then [] else CHR ''.'' # tl ds)
     @ CHR ''e'' # (if E < 0 then CHR ''-'' else CHR ''+'') # pad2 (dec_digits \<bar>E\<bar>)"

definition fixed_text :: "int \<Rightarrow> string \<Rightarrow> int \<Rightarrow> string" where
  "fixed_text c ds E =
     (if int (length ds) \<le> E + 1 then
        (if mag_num c mod mag_den c = 0 then dec_digits (mag_num c div mag_den c)
         else ds @ replicate (nat (E + 1) - length ds) (CHR ''0''))
      else if 0 \<le> E then take (nat (E + 1)) ds @ CHR ''.'' # drop (nat (E + 1)) ds
      else CHR ''0'' # CHR ''.'' # replicate (nat (- E - 1)) (CHR ''0'') @ ds)"

definition magnitude_text :: "int \<Rightarrow> string" where
  "magnitude_text c =
     (case shortest_decimal c of (m, s) \<Rightarrow>
        let all = dec_digits m; ds = strip_zeros all; E = s + int (length all) - 1;
            fx = fixed_text c ds E; sc = scientific ds E
        in if length fx \<le> length sc then fx else sc)"

text \<open>For a finite double.\<close>

definition to_chars_double :: "u64 \<Rightarrow> string" where
  "to_chars_double d = (if d_neg d then ''-'' else '''') @ (if d_mag d = 0 then ''0'' else magnitude_text (d_mag d))"

section \<open>Rounding depends only on the value\<close>

definition dec_value :: "int \<Rightarrow> int \<Rightarrow> real" where
  "dec_value m e = of_int m * 10 powi e"

definition round_value :: "real \<Rightarrow> int" where
  "round_value v = (let x = v * 2 ^ decimal_scale in
     round_mag Double (2 * \<lfloor>x\<rfloor> + (if x = of_int \<lfloor>x\<rfloor> then 0 else 1)) (- int decimal_scale - 1))"

lemma dy_double_scale: "dy (2 * n) (- int S - 1) = of_int n / 2 ^ S"
  by (simp add: dy_def power_int_diff power_int_minus divide_simps)

lemma round_decimal_value:
  assumes "0 \<le> m"
  shows "round_decimal m e = round_value (dec_value m e)"
proof (cases "0 \<le> e")
  case True
  have v: "dec_value m e = of_int (m * 10 ^ nat e)" using True by (simp add: dec_value_def power_int_def)
  have x: "dec_value m e * 2 ^ decimal_scale = of_int (m * 10 ^ nat e * 2 ^ decimal_scale)" unfolding v by simp
  have "round_mag Double (2 * (m * 10 ^ nat e * 2 ^ decimal_scale)) (- int decimal_scale - 1) = round_mag Double (m * 10 ^ nat e) 0"
  proof (rule round_mag_cong)
    show "dy (2 * (m * 10 ^ nat e * 2 ^ decimal_scale)) (- int decimal_scale - 1) = dy (m * 10 ^ nat e) 0"
      unfolding dy_double_scale by (simp add: dy_def)
  qed (use assms in simp_all)
  then show ?thesis unfolding round_value_def x Let_def floor_of_int using True by (simp add: round_decimal_def)
next
  case False
  define num den where "num = m * 2 ^ decimal_scale" and "den = (10 :: int) ^ nat (- e)"
  have den: "0 < den" by (simp add: den_def)
  have "dec_value m e = of_int m / of_int den"
    using False by (simp add: dec_value_def den_def power_int_def divide_simps)
  then have x: "dec_value m e * 2 ^ decimal_scale = of_int num / of_int den" by (simp add: num_def)
  have fl: "\<lfloor>of_int num / of_int den :: real\<rfloor> = num div den" by (rule floor_divide_of_int_eq)
  have int: "(of_int num / of_int den :: real) = of_int (num div den) \<longleftrightarrow> num mod den = 0"
  proof -
    have "(of_int num / of_int den :: real) = of_int (num div den) \<longleftrightarrow> of_int num = (of_int (num div den * den) :: real)"
      using den by (simp add: divide_simps)
    also have "\<dots> \<longleftrightarrow> num = num div den * den" by (simp only: of_int_eq_iff)
    also have "\<dots> \<longleftrightarrow> num mod den = 0" using div_mult_mod_eq [of num den] by (intro iffI; linarith)
    finally show ?thesis .
  qed
  show ?thesis
    unfolding round_value_def x Let_def fl int using False
    by (simp add: round_decimal_def num_def [symmetric] den_def [symmetric])
qed

lemma round_decimal_cong:
  "0 \<le> m \<Longrightarrow> 0 \<le> m' \<Longrightarrow> dec_value m e = dec_value m' e' \<Longrightarrow> round_decimal m e = round_decimal m' e'"
  by (simp add: round_decimal_value)

lemma mag_exp_lower: "0 \<le> c \<Longrightarrow> -1074 \<le> mag_exp Double c"
  using pos_imp_zdiv_pos_iff [of "2 ^ 52" c] by (auto simp: mag_exp_def not_less)

lemma round_decimal_exact:
  assumes "0 \<le> m" "dec_value m e = mag_value Double c" "0 \<le> c" "c < inf_code Double"
  shows "round_decimal m e = c"
proof -
  define k where "k = nat (mag_exp Double c + int decimal_scale)"
  have k: "int k = mag_exp Double c + int decimal_scale" using mag_exp_lower [OF assms(3)] by (simp add: k_def decimal_scale_def)
  have x: "mag_value Double c * 2 ^ decimal_scale = of_int (mag_sig Double c * 2 ^ k)"
  proof -
    have "mag_value Double c * 2 ^ decimal_scale = of_int (mag_sig Double c) * (2 powi mag_exp Double c * 2 powi int decimal_scale)"
      by (simp add: mag_value_def dy_def)
    also have "(2 :: real) powi mag_exp Double c * 2 powi int decimal_scale = 2 powi int k"
      by (simp add: k power_int_add)
    finally show ?thesis by simp
  qed
  have "round_mag Double (2 * (mag_sig Double c * 2 ^ k)) (- int decimal_scale - 1) = round_mag Double (mag_sig Double c) (mag_exp Double c)"
  proof (rule round_mag_cong)
    show "dy (2 * (mag_sig Double c * 2 ^ k)) (- int decimal_scale - 1) = dy (mag_sig Double c) (mag_exp Double c)"
      unfolding dy_double_scale x [symmetric] by (simp add: mag_value_def)
  qed (use mag_sig_nonneg [of c Double] assms(3) in simp_all)
  also have "\<dots> = c" by (rule round_mag_code [OF assms(3,4)])
  finally show ?thesis
    unfolding round_decimal_value [OF assms(1)] assms(2) round_value_def Let_def x floor_of_int by simp
qed

lemma round_decimal_zero [simp]: "round_decimal 0 e = 0"
  by (simp add: round_decimal_def round_mag_def)

section \<open>The search\<close>

lemma mag_ratio: "of_int (mag_num c) / of_int (mag_den c) = mag_value Double c" "0 < mag_den c"
  by (auto simp: mag_num_def mag_den_def mag_value_def dy_def power_int_def divide_simps)

lemma mag_num_nonneg: "0 \<le> c \<Longrightarrow> 0 \<le> mag_num c"
  using mag_sig_nonneg [of c Double] by (simp add: mag_num_def)

lemma exact_decimal_value:
  assumes "0 \<le> c"
  shows "case exact_decimal c of (m, s) \<Rightarrow> 0 \<le> m \<and> dec_value m s = mag_value Double c"
proof -
  define N where "N = mag_num c * 10 ^ decimal_scale"
  have "mag_den c dvd 10 ^ decimal_scale"
  proof (cases "0 \<le> mag_exp Double c")
    case False
    define k where "k = nat (- mag_exp Double c)"
    have "k \<le> decimal_scale" using mag_exp_lower [OF assms] by (simp add: k_def decimal_scale_def)
    then have "(2 :: int) ^ k dvd 2 ^ decimal_scale" by (rule le_imp_power_dvd)
    also have "\<dots> dvd 10 ^ decimal_scale" by (rule dvd_power_same) simp
    finally show ?thesis using False by (simp add: mag_den_def k_def)
  qed (simp add: mag_den_def)
  then have "mag_den c dvd N" by (simp add: N_def)
  then have "of_int (N div mag_den c) = (of_int N / of_int (mag_den c) :: real)" by (rule real_of_int_div)
  also have "\<dots> = mag_value Double c * 10 ^ decimal_scale"
    unfolding mag_ratio(1) [of c, symmetric] by (simp add: N_def)
  finally have "dec_value (N div mag_den c) (- int decimal_scale) = mag_value Double c"
    by (simp add: dec_value_def power_int_minus)
  moreover have "0 \<le> N div mag_den c"
    using mag_num_nonneg [OF assms] mag_ratio(2) [of c] by (simp add: N_def pos_imp_zdiv_nonneg_iff)
  ultimately show ?thesis by (simp add: exact_decimal_def N_def)
qed

lemma short_candidate_sound:
  assumes "short_candidate c n = Some (m, s)" "0 \<le> c"
  shows "0 \<le> m \<and> round_decimal m s = c"
proof -
  define num den where "num = mag_num c" and "den = mag_den c"
  obtain a b where ab: "scaled num den (dec_exp num den - int n + 1) = (a, b)" by (metis prod.exhaust)
  have "0 \<le> num" "0 < den" using mag_num_nonneg [OF assms(2)] mag_ratio(2) [of c] by (simp_all add: num_def den_def)
  then have "0 \<le> a" "0 < b" using ab by (auto simp: scaled_def split: if_splits)
  then have "0 \<le> a div b" by (simp add: pos_imp_zdiv_nonneg_iff)
  with assms(1) ab show ?thesis
    unfolding short_candidate_def num_def [symmetric] den_def [symmetric] Let_def ab
    by (auto simp: Let_def split: if_splits)
qed

lemma shortest_from_sound:
  assumes "0 \<le> c" "c < inf_code Double"
  shows "case shortest_from c n fuel of (m, s) \<Rightarrow> 0 \<le> m \<and> round_decimal m s = c"
  using assms
proof (induction c n fuel rule: shortest_from.induct)
  case (1 c n)
  then show ?case
    using exact_decimal_value [of c] round_decimal_exact by (auto split: prod.splits)
next
  case (2 c n fuel)
  then show ?case
    using short_candidate_sound [of c n] by (auto split: option.splits prod.splits)
qed

lemma shortest_decimal_sound:
  assumes "0 < c" "c < inf_code Double" "shortest_decimal c = (m, s)"
  shows "0 < m" "round_decimal m s = c"
proof -
  have "0 \<le> m \<and> round_decimal m s = c"
    using shortest_from_sound [of c 1 20] assms by (simp add: shortest_decimal_def)
  with assms(1) show "0 < m" "round_decimal m s = c" by (cases "m = 0"; auto)+
qed

section \<open>Digits\<close>

lemma digit_char [simp]:
  assumes "0 \<le> d" "d < 10"
  shows "digit_val (digit_char d) = d" "is_digit (digit_char d)" "digit_char d = CHR ''0'' \<longleftrightarrow> d = 0"
proof -
  have c: "of_char (digit_char d) = 48 + nat d" using assms by (simp add: digit_char_def of_char_of)
  show "digit_val (digit_char d) = d" "is_digit (digit_char d)"
    using c assms by (simp_all add: digit_val_def is_digit_def)
  have "digit_char d = CHR ''0'' \<longleftrightarrow> of_char (digit_char d) = (of_char (CHR ''0'') :: nat)" by (simp only: of_char_eq_iff)
  then show "digit_char d = CHR ''0'' \<longleftrightarrow> d = 0" using c assms by simp
qed

lemma digits_value_Nil [simp]: "digits_value [] = 0"
  by (simp add: digits_value_def)

lemma digits_value_snoc [simp]: "digits_value (s @ [c]) = digits_value s * 10 + digit_val c"
  by (simp add: digits_value_def)

lemma digits_value_append: "digits_value (s @ t) = digits_value s * 10 ^ length t + digits_value t"
proof (induction t rule: rev_induct)
  case (snoc c t)
  then show ?case
    by (simp only: append_assoc [symmetric] digits_value_snoc) (simp add: algebra_simps)
qed simp

lemma digits_value_zeros [simp]: "digits_value (replicate k (CHR ''0'')) = 0"
proof (induction k)
  case (Suc k)
  then show ?case using digits_value_append [of "[CHR ''0'']" "replicate k (CHR ''0'')"]
    by (simp add: digits_value_def digit_val_def)
qed simp

lemma digits_value_nonneg: "list_all is_digit s \<Longrightarrow> 0 \<le> digits_value s"
proof (induction s rule: rev_induct)
  case (snoc c s)
  then show ?case by (simp add: digit_val_def is_digit_def)
qed simp

lemma digits_value_dec: "0 \<le> n \<Longrightarrow> digits_value (dec_digits n) = n"
proof (induction n rule: dec_digits.induct)
  case (1 n)
  then show ?case
    by (cases "n < 10") (simp_all add: dec_digits.simps [of n] digits_value_def [of "[_]"])
qed

lemma dec_digits_digits: "0 \<le> n \<Longrightarrow> list_all is_digit (dec_digits n)"
proof (induction n rule: dec_digits.induct)
  case (1 n)
  then show ?case by (cases "n < 10") (simp_all add: dec_digits.simps [of n])
qed

lemma dec_digits_leading: "0 < n \<Longrightarrow> hd (dec_digits n) \<noteq> CHR ''0''"
proof (induction n rule: dec_digits.induct)
  case (1 n)
  then show ?case
    by (cases "n < 10") (simp_all add: dec_digits.simps [of n] pos_imp_zdiv_pos_iff)
qed

section \<open>The grammar of literals\<close>

text \<open>Fraction and exponent are optional; an exponent is its marker, its sign (possibly absent) and its
  digits.\<close>

type_synonym exponent = "char \<times> string \<times> string"

definition frac_text :: "string option \<Rightarrow> string" where
  "frac_text f = (case f of None \<Rightarrow> [] | Some ds \<Rightarrow> CHR ''.'' # ds)"

definition exp_text :: "exponent option \<Rightarrow> string" where
  "exp_text x = (case x of None \<Rightarrow> [] | Some (mk, sg, ds) \<Rightarrow> mk # sg @ ds)"

definition lit_text :: "bool \<Rightarrow> string \<Rightarrow> string option \<Rightarrow> exponent option \<Rightarrow> string" where
  "lit_text neg ip f x = (if neg then ''-'' else '''') @ ip @ frac_text f @ exp_text x"

definition digit_string :: "string \<Rightarrow> bool" where
  "digit_string s \<longleftrightarrow> s \<noteq> [] \<and> list_all is_digit s"

definition exp_ok :: "exponent \<Rightarrow> bool" where
  "exp_ok x \<longleftrightarrow> (case x of (mk, sg, ds) \<Rightarrow> (mk = CHR ''e'' \<or> mk = CHR ''E'') \<and> (sg = '''' \<or> sg = ''+'' \<or> sg = ''-'') \<and> digit_string ds)"

definition lit_ok :: "string \<Rightarrow> string option \<Rightarrow> exponent option \<Rightarrow> bool" where
  "lit_ok ip f x \<longleftrightarrow> digit_string ip \<and> pred_option digit_string f \<and> pred_option exp_ok x"

definition exp_value :: "exponent option \<Rightarrow> int" where
  "exp_value x = (case x of None \<Rightarrow> 0 | Some (mk, sg, ds) \<Rightarrow> if sg = ''-'' then - digits_value ds else digits_value ds)"

definition frac_digits :: "string option \<Rightarrow> string" where
  "frac_digits f = (case f of None \<Rightarrow> [] | Some ds \<Rightarrow> ds)"

lemma not_digit [simp]:
  "\<not> is_digit (CHR ''-'')" "\<not> is_digit (CHR ''+'')" "\<not> is_digit (CHR ''.'')" "\<not> is_digit (CHR ''e'')" "\<not> is_digit (CHR ''E'')"
  by (simp_all add: is_digit_def)

lemma span_digits:
  assumes "list_all is_digit ds" "rest = [] \<or> \<not> is_digit (hd rest)"
  shows "takeWhile is_digit (ds @ rest) = ds" "dropWhile is_digit (ds @ rest) = rest"
proof -
  have "takeWhile is_digit rest = []" "dropWhile is_digit rest = rest" using assms(2) by (cases rest; simp)+
  with assms(1) show "takeWhile is_digit (ds @ rest) = ds" "dropWhile is_digit (ds @ rest) = rest"
    by (simp_all add: list_all_iff takeWhile_append2 dropWhile_append2)
qed

lemma span_digits_end: "list_all is_digit ds \<Longrightarrow> takeWhile is_digit ds = ds" "list_all is_digit ds \<Longrightarrow> dropWhile is_digit ds = []"
  using span_digits [of ds "[]"] by simp_all

lemma digit_string_hd: "digit_string s \<Longrightarrow> is_digit (hd s)"
  by (cases s) (simp_all add: digit_string_def)

lemma frac_split:
  assumes "pred_option digit_string f" "r = [] \<or> \<not> is_digit (hd r) \<and> hd r \<noteq> CHR ''.''"
  shows "(if frac_text f @ r \<noteq> [] \<and> hd (frac_text f @ r) = CHR ''.'' then takeWhile is_digit (tl (frac_text f @ r)) else []) = frac_digits f"
    "(if frac_text f @ r \<noteq> [] \<and> hd (frac_text f @ r) = CHR ''.'' then dropWhile is_digit (tl (frac_text f @ r)) else frac_text f @ r) = r"
  using assms span_digits [of "the f" r]
  by (cases f; cases r; simp add: frac_text_def frac_digits_def digit_string_def)+

lemma exp_split:
  assumes "pred_option exp_ok x"
  defines "s4 \<equiv> (if exp_text x \<noteq> [] \<and> (hd (exp_text x) = CHR ''e'' \<or> hd (exp_text x) = CHR ''E'') then tl (exp_text x) else [])"
  defines "s5 \<equiv> (if s4 \<noteq> [] \<and> (hd s4 = CHR ''-'' \<or> hd s4 = CHR ''+'') then tl s4 else s4)"
  shows "(if s4 \<noteq> [] \<and> hd s4 = CHR ''-'' then - digits_value (takeWhile is_digit s5) else digits_value (takeWhile is_digit s5)) = exp_value x"
proof (cases x)
  case None
  then show ?thesis by (simp add: s5_def s4_def exp_text_def exp_value_def)
next
  case (Some y)
  obtain mk sg ds where y: "y = (mk, sg, ds)" by (cases y)
  have ok: "mk = CHR ''e'' \<or> mk = CHR ''E''" "sg = '''' \<or> sg = ''+'' \<or> sg = ''-''" "digit_string ds"
    using assms(1) by (simp_all add: Some y exp_ok_def)
  have s4: "s4 = sg @ ds" using ok(1) by (auto simp: s4_def Some y exp_text_def)
  have "is_digit (hd ds)" "ds \<noteq> []" using ok(3) digit_string_hd by (auto simp: digit_string_def)
  then have "hd ds \<noteq> CHR ''-''" "hd ds \<noteq> CHR ''+''" by auto
  with ok(2,3) show ?thesis
    by (auto simp: s5_def s4 exp_value_def Some y digit_string_def span_digits_end)
qed

lemma literal_parts_lit:
  assumes "lit_ok ip f x"
  shows "literal_parts (lit_text neg ip f x) = (neg, digits_value (ip @ frac_digits f), exp_value x - int (length (frac_digits f)))"
proof -
  have ok: "digit_string ip" "pred_option digit_string f" "pred_option exp_ok x" using assms by (simp_all add: lit_ok_def)
  have ip: "ip \<noteq> []" "list_all is_digit ip" "hd ip \<noteq> CHR ''-''"
    using ok(1) digit_string_hd [OF ok(1)] by (auto simp: digit_string_def)
  have r: "exp_text x = [] \<or> \<not> is_digit (hd (exp_text x)) \<and> hd (exp_text x) \<noteq> CHR ''.''"
    using ok(3) by (cases x) (auto simp: exp_text_def exp_ok_def)
  have r2: "frac_text f @ exp_text x = [] \<or> \<not> is_digit (hd (frac_text f @ exp_text x))"
    using r by (cases f) (auto simp: frac_text_def)
  have neg: "(lit_text neg ip f x \<noteq> [] \<and> hd (lit_text neg ip f x) = CHR ''-'') = neg"
    "(if neg then tl (lit_text neg ip f x) else lit_text neg ip f x) = ip @ frac_text f @ exp_text x"
    using ip by (auto simp: lit_text_def)
  show ?thesis
    unfolding literal_parts_def Let_def neg span_digits [OF ip(2) r2] frac_split [OF ok(2) r]
    using exp_split [OF ok(3)] by simp
qed

section \<open>The text of a double reads back\<close>

text \<open>\<open>reads_as c t\<close>: \<open>t\<close> is an unsigned literal without superfluous leading zeros whose value rounds to
  \<open>c\<close>.\<close>

definition reads_as :: "int \<Rightarrow> string \<Rightarrow> bool" where
  "reads_as c t \<longleftrightarrow> (\<exists>ip f x. t = lit_text False ip f x \<and> lit_ok ip f x \<and> (length ip = 1 \<or> hd ip \<noteq> CHR ''0'')
     \<and> round_decimal (digits_value (ip @ frac_digits f)) (exp_value x - int (length (frac_digits f))) = c)"

lemma strip_zeros_split: "\<exists>z. ds = strip_zeros ds @ replicate z (CHR ''0'')"
proof -
  let ?P = "\<lambda>c. c = CHR ''0''"
  have "rev ds = takeWhile ?P (rev ds) @ dropWhile ?P (rev ds)" by simp
  moreover have "takeWhile ?P (rev ds) = replicate (length (takeWhile ?P (rev ds))) (CHR ''0'')"
    by (rule replicate_eqI [symmetric, THEN sym]) (auto dest: set_takeWhileD)
  ultimately have "rev ds = replicate (length (takeWhile ?P (rev ds))) (CHR ''0'') @ dropWhile ?P (rev ds)" by simp
  then have "rev (rev ds) = strip_zeros ds @ replicate (length (takeWhile ?P (rev ds))) (CHR ''0'')"
    unfolding strip_zeros_def by (metis rev_append rev_replicate)
  then show ?thesis by auto
qed

text \<open>What the formatting functions are given: the significant digits, the position \<open>E\<close> of the leading
  one, and the double they stand for.\<close>

definition shown :: "int \<Rightarrow> string \<Rightarrow> int \<Rightarrow> bool" where
  "shown c ds E \<longleftrightarrow> digit_string ds \<and> hd ds \<noteq> CHR ''0'' \<and> round_decimal (digits_value ds) (E + 1 - int (length ds)) = c"

lemma shown_shortest:
  assumes "0 < c" "c < inf_code Double" "shortest_decimal c = (m, s)"
  shows "shown c (strip_zeros (dec_digits m)) (s + int (length (dec_digits m)) - 1)"
proof -
  define ds where "ds = strip_zeros (dec_digits m)"
  note m = shortest_decimal_sound [OF assms]
  obtain z where z: "dec_digits m = ds @ replicate z (CHR ''0'')" using strip_zeros_split ds_def by blast
  have lead: "hd (dec_digits m) \<noteq> CHR ''0''" by (rule dec_digits_leading [OF m(1)])
  have ne: "ds \<noteq> []" using z lead by (cases z) auto
  have dg: "list_all is_digit ds" using dec_digits_digits [of m] m(1) z by simp
  have v: "m = digits_value ds * 10 ^ z"
    using digits_value_dec [of m] m(1) z by (simp add: digits_value_append)
  have "round_decimal (digits_value ds) (s + int z) = round_decimal m s"
    by (rule round_decimal_cong) (use digits_value_nonneg [OF dg] m(1) in \<open>simp_all add: v dec_value_def power_int_add\<close>)
  with m(2) ne dg lead z show ?thesis
    unfolding ds_def [symmetric] by (simp add: shown_def digit_string_def algebra_simps)
qed

lemma digits_value_pad2: "digits_value (pad2 s) = digits_value s"
  using digits_value_append [of "[CHR ''0'']" s] by (simp add: pad2_def digits_value_def digit_val_def)

lemma scientific_reads:
  assumes "shown c ds E"
  shows "reads_as c (scientific ds E)"
proof -
  have ds: "ds \<noteq> []" "list_all is_digit ds" and r: "round_decimal (digits_value ds) (E + 1 - int (length ds)) = c"
    using assms by (simp_all add: shown_def digit_string_def)
  obtain d dt where d: "ds = d # dt" using ds(1) by (cases ds) simp_all
  define f where "f = (if dt = [] then None else Some dt)"
  define ex where "ex = pad2 (dec_digits \<bar>E\<bar>)"
  define x where "x = Some (CHR ''e'', if E < 0 then ''-'' else ''+'', ex)"
  have ex: "digit_string ex" "digits_value ex = \<bar>E\<bar>"
    using dec_digits_digits [of "\<bar>E\<bar>"] by (simp_all add: ex_def digit_string_def digits_value_pad2 digits_value_dec)
      (simp add: pad2_def is_digit_def)
  have "scientific ds E = lit_text False [d] f x"
    by (simp add: scientific_def d lit_text_def frac_text_def f_def exp_text_def x_def ex_def)
  moreover have "lit_ok [d] f x" using ds d ex(1) by (simp add: lit_ok_def digit_string_def f_def x_def exp_ok_def)
  moreover have "frac_digits f = dt" by (simp add: f_def frac_digits_def)
  moreover have "exp_value x = E" using ex(2) by (simp add: x_def exp_value_def)
  ultimately show ?thesis using r d unfolding reads_as_def by (intro exI [of _ "[d]"] exI [of _ f] exI [of _ x]) simp
qed

lemma digits_reads:
  assumes "digit_string t" "hd t \<noteq> CHR ''0''" "round_decimal (digits_value t) 0 = c"
  shows "reads_as c t"
  unfolding reads_as_def
  by (intro exI [of _ t] exI [of _ None])
    (use assms in \<open>simp add: lit_text_def frac_text_def exp_text_def lit_ok_def frac_digits_def exp_value_def\<close>)

lemma fixed_point_reads:
  assumes "digit_string a" "digit_string b" "length a = 1 \<or> hd a \<noteq> CHR ''0''"
    "round_decimal (digits_value (a @ b)) (- int (length b)) = c"
  shows "reads_as c (a @ CHR ''.'' # b)"
  unfolding reads_as_def
  by (intro exI [of _ a] exI [of _ "Some b"] exI [of _ None])
    (use assms in \<open>simp add: lit_text_def frac_text_def exp_text_def lit_ok_def frac_digits_def exp_value_def\<close>)

lemma mag_value_pos: "0 < c \<Longrightarrow> 0 < mag_value Double c"
proof -
  assume "0 < c"
  then have "0 < mag_sig Double c" by (simp add: mag_sig_def add_pos_nonneg)
  then show ?thesis by (simp add: mag_value_def dy_def)
qed

lemma fixed_text_reads:
  assumes "shown c ds E" "0 < c" "c < inf_code Double"
  shows "reads_as c (fixed_text c ds E)"
proof -
  have ds: "ds \<noteq> []" "list_all is_digit ds" "hd ds \<noteq> CHR ''0''" and r: "round_decimal (digits_value ds) (E + 1 - int (length ds)) = c"
    using assms(1) by (simp_all add: shown_def digit_string_def)
  have zeros: "list_all is_digit (replicate k (CHR ''0''))" for k by (simp add: list_all_iff is_digit_def)
  consider (big) "int (length ds) \<le> E + 1" | (mid) "E + 1 < int (length ds)" "0 \<le> E" | (small) "E < 0" by linarith
  then show ?thesis
  proof cases
    case big
    show ?thesis
    proof (cases "mag_num c mod mag_den c = 0")
      case True
      define n where "n = mag_num c div mag_den c"
      have "mag_den c dvd mag_num c" using True by (simp add: dvd_eq_mod_eq_0)
      then have "of_int n = mag_value Double c" using mag_ratio(1) [of c] by (simp add: n_def real_of_int_div)
      then have v: "dec_value n 0 = mag_value Double c" "0 < n"
        using mag_value_pos [OF assms(2)] by (simp add: dec_value_def, metis of_int_0_less_iff)
      have "reads_as c (dec_digits n)"
        by (rule digits_reads)
          (use v assms round_decimal_exact dec_digits_digits [of n] dec_digits_leading [of n] in \<open>simp_all add: digit_string_def digits_value_dec\<close>)
      then show ?thesis using big True by (simp add: fixed_text_def n_def)
    next
      case False
      define k where "k = nat (E + 1) - length ds"
      have k: "int k = E + 1 - int (length ds)" using big by (simp add: k_def)
      have "round_decimal (digits_value ds * 10 ^ k) 0 = round_decimal (digits_value ds) (int k)"
        by (rule round_decimal_cong) (use digits_value_nonneg [OF ds(2)] in \<open>simp_all add: dec_value_def\<close>)
      then have "reads_as c (ds @ replicate k (CHR ''0''))"
        using r k ds zeros by (intro digits_reads) (simp_all add: digit_string_def digits_value_append)
      then show ?thesis using big False by (simp add: fixed_text_def k_def)
    qed
  next
    case mid
    define a b where "a = take (nat (E + 1)) ds" and "b = drop (nat (E + 1)) ds"
    have ab: "ds = a @ b" "int (length b) = int (length ds) - (E + 1)" "b \<noteq> []" "a \<noteq> []"
      using mid ds(1) by (simp_all add: a_def b_def)
    have dg: "digit_string a" "digit_string b" "hd a \<noteq> CHR ''0''"
      using ab ds by (auto simp: digit_string_def)
    have "round_decimal (digits_value (a @ b)) (- int (length b)) = c"
      using r unfolding ab(1) [symmetric] ab(2) by simp
    then have "reads_as c (a @ CHR ''.'' # b)"
      using dg by (intro fixed_point_reads) simp_all
    then show ?thesis using mid by (simp add: fixed_text_def a_def b_def)
  next
    case small
    define b where "b = replicate (nat (- E - 1)) (CHR ''0'') @ ds"
    have b: "digits_value (CHR ''0'' # b) = digits_value ds" "int (length b) = int (length ds) - (E + 1)"
      using small digits_value_append [of "[CHR ''0'']" b]
      by (simp_all add: b_def digits_value_append) (simp add: digits_value_def digit_val_def)
    have "digits_value ([CHR ''0''] @ b) = digits_value ds" "- int (length b) = E + 1 - int (length ds)"
      using b by simp_all
    then have "round_decimal (digits_value ([CHR ''0''] @ b)) (- int (length b)) = c" using r by (simp only:)
    then have "reads_as c ([CHR ''0''] @ CHR ''.'' # b)"
      by (intro fixed_point_reads) (use ds zeros in \<open>simp_all add: digit_string_def b_def is_digit_def\<close>)
    moreover have "\<not> int (length ds) \<le> E + 1" using small ds(1) by (cases ds) auto
    ultimately show ?thesis using small by (simp add: fixed_text_def b_def)
  qed
qed

lemma magnitude_text_reads:
  assumes "0 < c" "c < inf_code Double"
  shows "reads_as c (magnitude_text c)"
proof -
  obtain m s where ms: "shortest_decimal c = (m, s)" by (metis prod.exhaust)
  note sh = shown_shortest [OF assms ms]
  show ?thesis using fixed_text_reads [OF sh assms] scientific_reads [OF sh] by (simp add: magnitude_text_def ms Let_def)
qed

text \<open>The shortest decimal text of a finite double reads back as the same double, the sign of zero
  included.\<close>

lemma from_to_chars:
  assumes "is_finite d"
  shows "from_chars_double (to_chars_double d) = Some d"
proof (cases "d_mag d = 0")
  case True
  have "literal_parts (lit_text (d_neg d) ''0'' None None) = (d_neg d, 0, 0)"
    by (subst literal_parts_lit) (simp_all add: lit_ok_def digit_string_def is_digit_def frac_digits_def exp_value_def digits_value_def digit_val_def)
  moreover have "to_chars_double d = lit_text (d_neg d) ''0'' None None"
    using True by (simp add: to_chars_double_def lit_text_def frac_text_def exp_text_def)
  moreover have "mk_double (d_neg d) 0 = d" using mk_double_split [of d] True by simp
  moreover have "inf_code Double \<noteq> 0" by (simp add: inf_code_def)
  ultimately show ?thesis by (simp add: from_chars_double_def)
next
  case False
  have "0 < d_mag d" using False d_mag_bounds(1) [of d] by linarith
  with assms have c: "0 < d_mag d" "d_mag d < inf_code Double" by (simp_all add: is_finite_def)
  from magnitude_text_reads [OF c] obtain ip f x where t: "magnitude_text (d_mag d) = lit_text False ip f x" "lit_ok ip f x"
    "round_decimal (digits_value (ip @ frac_digits f)) (exp_value x - int (length (frac_digits f))) = d_mag d"
    by (auto simp: reads_as_def)
  have "to_chars_double d = lit_text (d_neg d) ip f x"
    using False t(1) by (simp add: to_chars_double_def lit_text_def)
  with t c show ?thesis
    by (simp add: from_chars_double_def literal_parts_lit [OF t(2)] mk_double_split)
qed

end
