(* ===== verification/Json_Number.thy ===== *)
theory Json_Number
  imports Core_Model Vcodec_Decimal
begin

text \<open>
  \<^verbatim>\<open>json/number.hpp\<close>: writing numbers, and \<open>scan_number\<close>, the strict RFC 8259 scanner that classifies a
  literal as unsigned, signed or real. A double is its 64-bit pattern.
\<close>

definition write_uint :: "string \<Rightarrow> u64 \<Rightarrow> string" where
  "write_uint out u = out @ dec_u64 u"

definition write_sint :: "string \<Rightarrow> int \<Rightarrow> string" where
  "write_sint out i = out @ dec_int i"

definition write_real_json :: "string \<Rightarrow> u64 \<Rightarrow> string" where
  "write_real_json out d = out @ (if is_finite d then to_chars_double d else ''null'')"

record number_scan =
  ns_kind :: kind
  ns_length :: nat
  ns_u :: u64
  ns_i :: int
  ns_d :: u64
  ns_error :: errc
  ns_overflow :: bool

definition no_number :: number_scan where
  "no_number = \<lparr>ns_kind = kind_undefined, ns_length = 0, ns_u = 0, ns_i = 0, ns_d = 0, ns_error = invalid_number,
     ns_overflow = False\<rparr>"

text \<open>\<^verbatim>\<open>while (i < n && s[i] >= '0' && s[i] <= '9') ++i;\<close>\<close>

function skip_digits :: "string \<Rightarrow> nat \<Rightarrow> nat" where
  "skip_digits s i = (if i < length s \<and> is_digit (s ! i) then skip_digits s (i + 1) else i)"
  by auto
termination
  by (relation "measure (\<lambda>(s, i). length s - i)") auto

declare skip_digits.simps [simp del]

definition scan_int_part :: "string \<Rightarrow> nat \<Rightarrow> nat option" where
  "scan_int_part s i =
     (if s ! i = CHR ''0'' then
        (if i + 1 < length s \<and> is_digit (s ! (i + 1)) then None else Some (i + 1))
      else if is_digit (s ! i) then Some (skip_digits s i)
      else None)"

definition scan_frac_part :: "string \<Rightarrow> nat \<Rightarrow> (nat \<times> bool) option" where
  "scan_frac_part s i =
     (if i < length s \<and> s ! i = CHR ''.'' then
        (if length s \<le> i + 1 \<or> \<not> is_digit (s ! (i + 1)) then None else Some (skip_digits s (i + 1), True))
      else Some (i, False))"

definition scan_exp_part :: "string \<Rightarrow> nat \<Rightarrow> (nat \<times> bool) option" where
  "scan_exp_part s i =
     (if i < length s \<and> (s ! i = CHR ''e'' \<or> s ! i = CHR ''E'') then
        (let j = (if i + 1 < length s \<and> (s ! (i + 1) = CHR ''+'' \<or> s ! (i + 1) = CHR ''-'') then i + 2 else i + 1) in
         if length s \<le> j \<or> \<not> is_digit (s ! j) then None else Some (skip_digits s j, True))
      else Some (i, False))"

text \<open>The digits of an integer literal in 64 bits; \<open>None\<close> on overflow.\<close>

fun int_loop :: "string \<Rightarrow> u64 \<Rightarrow> u64 option" where
  "int_loop [] v = Some v"
| "int_loop (c # cs) v =
     (let d = word_of_int (digit_val c) in
      if (0xFFFFFFFFFFFFFFFF - d) div 10 < v then None else int_loop cs (v * 10 + d))"

text \<open>The approximate decimal exponent of a literal whose value is out of range.\<close>

definition int_digit_count :: "string \<Rightarrow> int" where
  "int_digit_count ds = int (length (dropWhile (\<lambda>c. c = CHR ''0'') ds))"

definition capped_exponent :: "string \<Rightarrow> int" where
  "capped_exponent ds = foldl (\<lambda>v c. if v < 100000 then v * 10 + digit_val c else v) 0 ds"

definition approx_magnitude :: "string \<Rightarrow> int" where
  "approx_magnitude lit =
     (let s1 = (if lit \<noteq> [] \<and> hd lit = CHR ''-'' then tl lit else lit);
          ip = takeWhile is_digit s1; s2 = dropWhile is_digit s1;
          s3 = (if s2 \<noteq> [] \<and> hd s2 = CHR ''.'' then dropWhile is_digit (tl s2) else s2);
          ex = (if s3 \<noteq> [] \<and> (hd s3 = CHR ''e'' \<or> hd s3 = CHR ''E'') then
                 (let s4 = tl s3; eneg = (s4 \<noteq> [] \<and> hd s4 = CHR ''-'');
                      s5 = (if s4 \<noteq> [] \<and> (hd s4 = CHR ''+'' \<or> hd s4 = CHR ''-'') then tl s4 else s4);
                      v = capped_exponent (takeWhile is_digit s5)
                  in if eneg then - v else v)
               else 0)
      in int_digit_count ip - 1 + ex)"

text \<open>The value of a literal read as a real.\<close>

definition scan_real :: "string \<Rightarrow> bool \<Rightarrow> number_scan \<Rightarrow> number_scan" where
  "scan_real lit neg r =
     (case from_chars_double lit of
        Some d \<Rightarrow> r\<lparr>ns_d := d, ns_kind := kind_real\<rparr>
      | None \<Rightarrow>
          if 0 < approx_magnitude lit then r\<lparr>ns_error := out_of_range, ns_kind := kind_undefined\<rparr>
          else r\<lparr>ns_d := (if neg then 0x8000000000000000 else 0), ns_kind := kind_real\<rparr>)"

definition scan_value :: "string \<Rightarrow> bool \<Rightarrow> bool \<Rightarrow> number_scan" where
  "scan_value lit neg is_real =
     (let r = no_number\<lparr>ns_length := length lit\<rparr> in
      if is_real then scan_real lit neg r
      else case int_loop (if neg then tl lit else lit) 0 of
          Some v \<Rightarrow>
            if \<not> neg then r\<lparr>ns_kind := kind_uint, ns_u := v\<rparr>
            else if v \<le> 0x7FFFFFFFFFFFFFFF + 1 then
              r\<lparr>ns_kind := kind_sint, ns_i := (if v = 0x7FFFFFFFFFFFFFFF + 1 then - 9223372036854775808 else - sint v)\<rparr>
            else scan_real lit neg (r\<lparr>ns_overflow := True\<rparr>)
        | None \<Rightarrow> scan_real lit neg (r\<lparr>ns_overflow := True\<rparr>))"

definition scan_number :: "string \<Rightarrow> number_scan" where
  "scan_number s =
     (let neg = (s \<noteq> [] \<and> s ! 0 = CHR ''-''); i = (if neg then 1 else 0) in
      if length s \<le> i then no_number
      else case scan_int_part s i of None \<Rightarrow> no_number
        | Some i1 \<Rightarrow>
          (case scan_frac_part s i1 of None \<Rightarrow> no_number
           | Some (i2, fr) \<Rightarrow>
             (case scan_exp_part s i2 of None \<Rightarrow> no_number
              | Some (i3, er) \<Rightarrow> scan_value (take i3 s) neg (fr \<or> er))))"

section \<open>The grammar\<close>

text \<open>RFC 8259: no superfluous leading zeros. \<open>ends_literal f x r\<close>: \<open>r\<close> does not continue a literal with the fraction
  \<open>f\<close> and the exponent \<open>x\<close>: it does not start with a digit, nor with an exponent mark unless there is an exponent, nor with
  a point unless there is a fraction or an exponent. \<open>stops r\<close>: \<open>r\<close> continues no literal.\<close>

definition json_literal :: "string \<Rightarrow> string option \<Rightarrow> exponent option \<Rightarrow> bool" where
  "json_literal ip f x \<longleftrightarrow> lit_ok ip f x \<and> (length ip = 1 \<or> hd ip \<noteq> CHR ''0'')"

definition no_digit :: "string \<Rightarrow> bool" where
  "no_digit r \<longleftrightarrow> r = [] \<or> \<not> is_digit (hd r)"

definition stops :: "string \<Rightarrow> bool" where
  "stops r \<longleftrightarrow> no_digit r \<and> (r \<noteq> [] \<longrightarrow> hd r \<noteq> CHR ''.'' \<and> hd r \<noteq> CHR ''e'' \<and> hd r \<noteq> CHR ''E'')"

definition ends_literal :: "string option \<Rightarrow> exponent option \<Rightarrow> string \<Rightarrow> bool" where
  "ends_literal f x r \<longleftrightarrow> no_digit r \<and> (r \<noteq> [] \<longrightarrow> (x = None \<longrightarrow> hd r \<noteq> CHR ''e'' \<and> hd r \<noteq> CHR ''E'')
     \<and> (f = None \<and> x = None \<longrightarrow> hd r \<noteq> CHR ''.''))"

lemma stops_ends: "stops r \<Longrightarrow> ends_literal f x r"
  by (simp add: stops_def ends_literal_def)

lemma skip_digits_takeWhile: "skip_digits s i = i + length (takeWhile is_digit (drop i s))"
proof (induction s i rule: skip_digits.induct)
  case (1 s i)
  show ?case
  proof (cases "i < length s \<and> is_digit (s ! i)")
    case True
    then have "drop i s = s ! i # drop (i + 1) s" by (simp add: Cons_nth_drop_Suc)
    with 1 True show ?thesis by (subst skip_digits.simps) simp
  next
    case False
    then have "takeWhile is_digit (drop i s) = []"
      by (cases "i < length s") (simp_all add: Cons_nth_drop_Suc [symmetric])
    with False show ?thesis by (subst skip_digits.simps) auto
  qed
qed

lemma nth_at: "(pre @ t) ! length pre = hd t" if "t \<noteq> []" for pre t :: string
  using that by (simp add: nth_append hd_conv_nth)

lemma takeWhile_prefix:
  "\<exists>r. t = takeWhile P t @ r \<and> (r = [] \<or> \<not> P (hd r))"
  using takeWhile_dropWhile_id [of P t] hd_dropWhile [of P t] by metis

lemma scan_int_part_complete:
  assumes "digit_string ip" "length ip = 1 \<or> hd ip \<noteq> CHR ''0''" "no_digit r"
  shows "scan_int_part (pre @ ip @ r) (length pre) = Some (length pre + length ip)"
proof -
  obtain d ds where ip: "ip = d # ds" "is_digit d" "list_all is_digit ds"
    using assms(1) by (cases ip) (auto simp: digit_string_def)
  have tw: "takeWhile is_digit (ip @ r) = ip"
    using assms(1,3) span_digits by (simp add: digit_string_def no_digit_def)
  show ?thesis
  proof (cases "d = CHR ''0''")
    case True
    then have "ds = []" using assms(2) ip by simp
    with True ip assms(3) show ?thesis by (cases r) (auto simp: scan_int_part_def nth_append no_digit_def)
  next
    case False
    with ip tw show ?thesis by (simp add: scan_int_part_def nth_append skip_digits_takeWhile)
  qed
qed

lemma scan_int_part_sound:
  assumes "scan_int_part (pre @ t) (length pre) = Some j" "t \<noteq> []"
  obtains ip r where "t = ip @ r" "digit_string ip" "length ip = 1 \<or> hd ip \<noteq> CHR ''0''" "no_digit r" "j = length pre + length ip"
proof -
  obtain d t' where t: "t = d # t'" using assms(2) by (cases t) auto
  show thesis
  proof (cases "d = CHR ''0''")
    case True
    then show thesis
      using that [of "[d]" t'] assms(1) t by (cases t') (auto simp: scan_int_part_def nth_append digit_string_def no_digit_def is_digit_def split: if_splits)
  next
    case False
    obtain r where r: "t = takeWhile is_digit t @ r" "r = [] \<or> \<not> is_digit (hd r)" using takeWhile_prefix by metis
    have d: "is_digit d" "j = length pre + length (takeWhile is_digit t)"
      using assms(1) False t by (auto simp: scan_int_part_def nth_append skip_digits_takeWhile split: if_splits)
    have "list_all is_digit (takeWhile is_digit t)" by (auto simp: list_all_iff dest: set_takeWhileD)
    with that [of "takeWhile is_digit t" r] r d False t show thesis by (simp add: digit_string_def no_digit_def)
  qed
qed

lemma scan_frac_part_complete:
  assumes "pred_option digit_string f" "no_digit r" "f = None \<longrightarrow> r = [] \<or> hd r \<noteq> CHR ''.''"
  shows "scan_frac_part (pre @ frac_text f @ r) (length pre) = Some (length pre + length (frac_text f), f \<noteq> None)"
proof (cases f)
  case None
  then show ?thesis using assms(3) by (cases r) (auto simp: scan_frac_part_def frac_text_def nth_append)
next
  case (Some ds)
  obtain d dt where ds: "ds = d # dt" "is_digit d" "list_all is_digit ds"
    using assms(1) Some by (cases ds) (auto simp: digit_string_def)
  have "takeWhile is_digit (ds @ r) = ds" using ds(3) assms(2) span_digits by (simp add: no_digit_def)
  then show ?thesis using ds Some by (simp add: scan_frac_part_def frac_text_def nth_append skip_digits_takeWhile)
qed

lemma scan_frac_part_sound:
  assumes "scan_frac_part (pre @ t) (length pre) = Some (j, b)" "no_digit t"
  obtains f r where "t = frac_text f @ r" "pred_option digit_string f" "no_digit r" "f = None \<longrightarrow> r = [] \<or> hd r \<noteq> CHR ''.''"
    "j = length pre + length (frac_text f)" "b = (f \<noteq> None)"
proof (cases "t \<noteq> [] \<and> hd t = CHR ''.''")
  case True
  then obtain t' where t: "t = CHR ''.'' # t'" by (cases t) auto
  obtain r where r: "t' = takeWhile is_digit t' @ r" "r = [] \<or> \<not> is_digit (hd r)" using takeWhile_prefix by metis
  have d: "t' \<noteq> []" "is_digit (hd t')" "j = length pre + 1 + length (takeWhile is_digit t')" "b"
    using assms(1) t by (cases t'; auto simp: scan_frac_part_def nth_append skip_digits_takeWhile split: if_splits)+
  have ne: "takeWhile is_digit t' \<noteq> []" using d(1,2) by (cases t') auto
  have "list_all is_digit (takeWhile is_digit t')" by (auto simp: list_all_iff dest: set_takeWhileD)
  with that [of "Some (takeWhile is_digit t')" r] r d t ne show thesis
    by (simp add: frac_text_def digit_string_def no_digit_def)
next
  case False
  then have "j = length pre" "\<not> b" using assms(1) by (cases t; auto simp: scan_frac_part_def nth_append split: if_splits)+
  with that [of None t] False assms(2) show thesis by (auto simp: frac_text_def)
qed

lemma scan_exp_part_complete:
  assumes "pred_option exp_ok x" "no_digit r" "x = None \<longrightarrow> r = [] \<or> (hd r \<noteq> CHR ''e'' \<and> hd r \<noteq> CHR ''E'')"
  shows "scan_exp_part (pre @ exp_text x @ r) (length pre) = Some (length pre + length (exp_text x), x \<noteq> None)"
proof (cases x)
  case None
  then show ?thesis using assms(3) by (cases r) (auto simp: scan_exp_part_def exp_text_def nth_append)
next
  case (Some y)
  obtain mk sg ds where y: "y = (mk, sg, ds)" by (cases y)
  have ok: "mk = CHR ''e'' \<or> mk = CHR ''E''" "sg = '''' \<or> sg = ''+'' \<or> sg = ''-''" "digit_string ds"
    using assms(1) by (simp_all add: Some y exp_ok_def)
  obtain d dt where ds: "ds = d # dt" "is_digit d" "list_all is_digit ds"
    using ok(3) by (cases ds) (auto simp: digit_string_def)
  have nd: "d \<noteq> CHR ''+''" "d \<noteq> CHR ''-''" using ds(2) by auto
  have "takeWhile is_digit (ds @ r) = ds" using ds(3) assms(2) span_digits by (simp add: no_digit_def)
  then show ?thesis using ok(1,2) ds nd Some y
    by (auto simp: scan_exp_part_def exp_text_def nth_append skip_digits_takeWhile numeral_2_eq_2)
qed

lemma scan_exp_part_sound:
  assumes "scan_exp_part (pre @ t) (length pre) = Some (j, b)" "no_digit t"
  obtains x r where "t = exp_text x @ r" "pred_option exp_ok x" "no_digit r" "j = length pre + length (exp_text x)" "b = (x \<noteq> None)"
    "x = None \<longrightarrow> r = [] \<or> (hd r \<noteq> CHR ''e'' \<and> hd r \<noteq> CHR ''E'')"
proof (cases "t \<noteq> [] \<and> (hd t = CHR ''e'' \<or> hd t = CHR ''E'')")
  case True
  then obtain mk t' where t: "t = mk # t'" "mk = CHR ''e'' \<or> mk = CHR ''E''" by (cases t) auto
  define sg where "sg = (if t' \<noteq> [] \<and> (hd t' = CHR ''+'' \<or> hd t' = CHR ''-'') then [hd t'] else [])"
  define u where "u = drop (length sg) t'"
  have tu: "t' = sg @ u" by (cases t') (auto simp: sg_def u_def)
  have sg: "sg = '''' \<or> sg = ''+'' \<or> sg = ''-''" by (auto simp: sg_def)
  obtain r where r: "u = takeWhile is_digit u @ r" "r = [] \<or> \<not> is_digit (hd r)" using takeWhile_prefix by metis
  have "scan_exp_part (pre @ t) (length pre) =
      (if u = [] \<or> \<not> is_digit (hd u) then None else Some (length pre + 1 + length sg + length (takeWhile is_digit u), True))"
    using t(2) unfolding t(1) tu
    by (cases t'; cases u) (auto simp: scan_exp_part_def nth_append skip_digits_takeWhile sg_def u_def numeral_2_eq_2 split: if_splits)
  with assms(1) have d: "u \<noteq> []" "is_digit (hd u)" "j = length pre + 1 + length sg + length (takeWhile is_digit u)" "b"
    by (auto split: if_splits)
  have ne: "takeWhile is_digit u \<noteq> []" using d(1,2) by (cases u) auto
  have dg: "list_all is_digit (takeWhile is_digit u)" by (auto simp: list_all_iff dest: set_takeWhileD)
  show thesis
  proof (rule that [of "Some (mk, sg, takeWhile is_digit u)" r])
    show "t = exp_text (Some (mk, sg, takeWhile is_digit u)) @ r" using t(1) tu r(1) by (simp add: exp_text_def)
  qed (use d ne dg sg t(2) r(2) in \<open>simp_all add: exp_ok_def digit_string_def no_digit_def exp_text_def\<close>)
next
  case False
  then have "j = length pre" "\<not> b" using assms(1) by (cases t; auto simp: scan_exp_part_def nth_append split: if_splits)+
  with that [of None t] assms(2) False show thesis by (auto simp: exp_text_def)
qed

lemma no_digit_exp: "pred_option exp_ok x \<Longrightarrow> no_digit r \<Longrightarrow> no_digit (exp_text x @ r)"
  by (cases x) (auto simp: exp_text_def exp_ok_def no_digit_def)

lemma no_digit_frac: "no_digit r \<Longrightarrow> no_digit (frac_text f @ r)"
  by (cases f) (auto simp: frac_text_def no_digit_def)

definition sign_text :: "bool \<Rightarrow> string" where
  "sign_text neg = (if neg then ''-'' else '''')"

text \<open>A literal followed by something that does not continue it is scanned whole.\<close>

lemma scan_number_literal:
  assumes "json_literal ip f x" "ends_literal f x rest"
  shows "scan_number (lit_text neg ip f x @ rest) = scan_value (lit_text neg ip f x) neg (f \<noteq> None \<or> x \<noteq> None)"
proof -
  define s where "s = lit_text neg ip f x @ rest"
  have ok: "digit_string ip" "pred_option digit_string f" "pred_option exp_ok x" "length ip = 1 \<or> hd ip \<noteq> CHR ''0''"
    using assms(1) by (simp_all add: json_literal_def lit_ok_def)
  have r: "no_digit rest" using assms(2) by (simp add: ends_literal_def)
  have sp: "s = sign_text neg @ ip @ (frac_text f @ exp_text x @ rest)"
    "s = (sign_text neg @ ip) @ frac_text f @ (exp_text x @ rest)"
    "s = (sign_text neg @ ip @ frac_text f) @ exp_text x @ rest"
    by (simp_all add: s_def lit_text_def sign_text_def)
  have ip: "ip \<noteq> []" "hd ip \<noteq> CHR ''-''" using ok(1) digit_string_hd [OF ok(1)] by (auto simp: digit_string_def)
  have s: "s = CHR ''-'' # ip @ frac_text f @ exp_text x @ rest" if neg using that by (simp add: s_def lit_text_def)
  have s': "s = ip @ frac_text f @ exp_text x @ rest" if "\<not> neg" using that by (simp add: s_def lit_text_def)
  have neg: "(s \<noteq> [] \<and> s ! 0 = CHR ''-'') = neg"
  proof (cases neg)
    case False
    obtain d ds where "ip = d # ds" using ip(1) by (cases ip) auto
    with False s' ip(2) show ?thesis by simp
  qed (use s in simp)
  have i: "(if neg then 1 else 0) = length (sign_text neg)" by (simp add: sign_text_def)
  have len: "\<not> length s \<le> length (sign_text neg)" using ip(1) by (simp add: sp(1))
  have 1: "scan_int_part s (length (sign_text neg)) = Some (length (sign_text neg @ ip))"
    unfolding sp(1) using scan_int_part_complete [OF ok(1,4)] no_digit_frac no_digit_exp [OF ok(3) r] by simp
  have "f = None \<longrightarrow> exp_text x @ rest = [] \<or> hd (exp_text x @ rest) \<noteq> CHR ''.''"
    using ok(3) assms(2) by (cases x) (auto simp: exp_text_def exp_ok_def ends_literal_def)
  then have 2: "scan_frac_part s (length (sign_text neg @ ip)) = Some (length (sign_text neg @ ip @ frac_text f), f \<noteq> None)"
    unfolding sp(2) using scan_frac_part_complete [OF ok(2) no_digit_exp [OF ok(3) r]] by (metis length_append add.assoc)
  have 3: "scan_exp_part s (length (sign_text neg @ ip @ frac_text f))
      = Some (length (sign_text neg @ ip @ frac_text f @ exp_text x), x \<noteq> None)"
  proof -
    have "x = None \<longrightarrow> rest = [] \<or> (hd rest \<noteq> CHR ''e'' \<and> hd rest \<noteq> CHR ''E'')" using assms(2) by (auto simp: ends_literal_def)
    from scan_exp_part_complete [OF ok(3) r this, of "sign_text neg @ ip @ frac_text f"] show ?thesis
      unfolding sp(3) by (simp add: add.assoc)
  qed
  have 4: "take (length (sign_text neg @ ip @ frac_text f @ exp_text x)) s = lit_text neg ip f x"
    by (simp add: s_def lit_text_def sign_text_def)
  show ?thesis
    unfolding s_def [symmetric] scan_number_def Let_def neg i using len by (simp only: if_False 1 2 3 4 option.case prod.case)
qed

text \<open>Conversely, whatever is not rejected is a literal, scanned whole.\<close>

lemma scan_number_cases:
  obtains (none) "scan_number s = no_number"
  | (some) neg ip f x rest where "s = lit_text neg ip f x @ rest" "json_literal ip f x"
      "scan_number s = scan_value (lit_text neg ip f x) neg (f \<noteq> None \<or> x \<noteq> None)" "ends_literal f x rest"
proof (cases "scan_number s = no_number")
  case True
  then show thesis by (rule none)
next
  case False
  define neg where "neg = (s \<noteq> [] \<and> s ! 0 = CHR ''-'')"
  define t where "t = drop (length (sign_text neg)) s"
  have i: "(if neg then 1 else 0) = length (sign_text neg)" by (simp add: sign_text_def)
  have s: "s = sign_text neg @ t" by (cases s) (auto simp: t_def sign_text_def neg_def)
  have sn: "scan_number s = (if length s \<le> length (sign_text neg) then no_number
      else case scan_int_part s (length (sign_text neg)) of None \<Rightarrow> no_number
        | Some i1 \<Rightarrow>
          (case scan_frac_part s i1 of None \<Rightarrow> no_number
           | Some (i2, fr) \<Rightarrow>
             (case scan_exp_part s i2 of None \<Rightarrow> no_number
              | Some (i3, er) \<Rightarrow> scan_value (take i3 s) neg (fr \<or> er))))"
    unfolding scan_number_def Let_def neg_def [symmetric] i ..
  with False obtain i1 i2 fr i3 er where
    len: "\<not> length s \<le> length (sign_text neg)" and p1: "scan_int_part s (length (sign_text neg)) = Some i1"
    and p2: "scan_frac_part s i1 = Some (i2, fr)" and p3: "scan_exp_part s i2 = Some (i3, er)"
    by (auto split: if_splits option.splits prod.splits)
  have "t \<noteq> []" using len s by auto
  with p1 s obtain ip r1 where ip: "t = ip @ r1" "digit_string ip" "length ip = 1 \<or> hd ip \<noteq> CHR ''0''" "no_digit r1"
    "i1 = length (sign_text neg) + length ip" using scan_int_part_sound [of "sign_text neg" t i1] by metis
  have s2: "s = (sign_text neg @ ip) @ r1" "i1 = length (sign_text neg @ ip)" using s ip by simp_all
  obtain f r2 where f: "r1 = frac_text f @ r2" "pred_option digit_string f" "no_digit r2"
    "i2 = length (sign_text neg @ ip) + length (frac_text f)" "fr = (f \<noteq> None)" "f = None \<longrightarrow> r2 = [] \<or> hd r2 \<noteq> CHR ''.''"
    using scan_frac_part_sound [of "sign_text neg @ ip" r1 i2 fr] p2 ip(4) unfolding s2 by metis
  have s3: "s = (sign_text neg @ ip @ frac_text f) @ r2" "i2 = length (sign_text neg @ ip @ frac_text f)" using s2 f by simp_all
  obtain x r3 where x: "r2 = exp_text x @ r3" "pred_option exp_ok x"
    "i3 = length (sign_text neg @ ip @ frac_text f) + length (exp_text x)" "er = (x \<noteq> None)"
    and ends: "no_digit r3" "x = None \<longrightarrow> r3 = [] \<or> (hd r3 \<noteq> CHR ''e'' \<and> hd r3 \<noteq> CHR ''E'')"
    using scan_exp_part_sound [of "sign_text neg @ ip @ frac_text f" r2 i3 er] p3 f(3) unfolding s3 by metis
  have lt: "s = lit_text neg ip f x @ r3" using s3 x by (simp add: lit_text_def sign_text_def)
  have "i3 = length (lit_text neg ip f x)" using x(3) by (simp add: lit_text_def sign_text_def)
  then have "take i3 s = lit_text neg ip f x" using lt by simp
  with sn len p1 p2 p3 x(4) f(5) have "scan_number s = scan_value (lit_text neg ip f x) neg (f \<noteq> None \<or> x \<noteq> None)" by simp
  moreover have "ends_literal f x r3"
    using ends f(6) x(1) by (auto simp: ends_literal_def exp_text_def)
  ultimately show thesis using lt ip f x by (intro some) (simp_all add: json_literal_def lit_ok_def)
qed

section \<open>Integers\<close>

text \<open>The overflow test of the digit loop is exact: it fails exactly when the number does not fit 64
  bits.\<close>

lemma int_loop_exact:
  assumes "list_all is_digit ds"
  shows "int_loop ds v = (let n = uint v * 10 ^ length ds + digits_value ds in if n < 2 ^ 64 then Some (word_of_int n) else None)"
  using assms
proof (induction ds v rule: int_loop.induct)
  case (1 v)
  have "uint v < 2 ^ 64" using uint_lt2p [of v] by simp
  then show ?case by (simp add: Let_def)
next
  case (2 c cs v)
  define d where "d = digit_val c"
  have d: "0 \<le> d" "d < 10" using 2(2) by (simp_all add: d_def digit_val_def is_digit_def)
  have ud: "uint (word_of_int d :: u64) = d" using d by (simp add: uint_word_of_int)
  have v64: "uint v < 2 ^ 64" using uint_lt2p [of v] by simp
  have dv: "digits_value (c # cs) = d * 10 ^ length cs + digits_value cs"
    using digits_value_append [of "[c]" cs] by (simp add: digits_value_def d_def)
  have nn: "0 \<le> digits_value cs" using 2(2) digits_value_nonneg by simp
  have sub: "uint ((0xFFFFFFFFFFFFFFFF :: u64) - word_of_int d) = 0xFFFFFFFFFFFFFFFF - d"
    using d ud by (subst uint_sub_lem [THEN iffD1]) simp_all
  have le: "(0xFFFFFFFFFFFFFFFF - word_of_int d) div 10 < v \<longleftrightarrow> (0xFFFFFFFFFFFFFFFF - d) div 10 < uint v"
    by (simp add: word_less_def uint_div sub)
  also have "\<dots> \<longleftrightarrow> 2 ^ 64 \<le> uint v * 10 + d" by (simp, linarith)
  finally have over: "(0xFFFFFFFFFFFFFFFF - word_of_int d) div 10 < v \<longleftrightarrow> 2 ^ 64 \<le> uint v * 10 + d" .
  show ?case
  proof (cases "2 ^ 64 \<le> uint v * 10 + d")
    case True
    define X where "X = uint v * 10 + d"
    have "uint v * 10 ^ length (c # cs) + digits_value (c # cs) = X * 10 ^ length cs + digits_value cs"
      by (simp add: dv X_def algebra_simps)
    moreover have "X * 1 \<le> X * 10 ^ length cs" using d by (intro mult_left_mono) (simp_all add: X_def)
    ultimately have "2 ^ 64 \<le> uint v * 10 ^ length (c # cs) + digits_value (c # cs)"
      using True nn unfolding X_def [symmetric] by linarith
    then show ?thesis using True over by (simp add: d_def [symmetric] Let_def not_less)
  next
    case False
    have uv: "uint (v * 10 + word_of_int d) = uint v * 10 + d"
      using False d by (simp add: uint_word_ariths ud mod_simps)
    have "int_loop (c # cs) v = int_loop cs (v * 10 + word_of_int d)"
      using False over by (simp add: d_def [symmetric])
    also have "\<dots> = (let n = (uint v * 10 + d) * 10 ^ length cs + digits_value cs in if n < 2 ^ 64 then Some (word_of_int n) else None)"
      using 2(1) [of "word_of_int d"] 2(2) over False uv by (simp add: d_def)
    finally show ?thesis by (simp add: dv algebra_simps)
  qed
qed

lemma json_literal_dec: "0 \<le> n \<Longrightarrow> json_literal (dec_digits n) None None"
proof -
  assume n: "0 \<le> n"
  have "length (dec_digits n) = 1 \<or> hd (dec_digits n) \<noteq> CHR ''0''"
    using dec_digits_leading [of n] n by (cases "n = 0") (simp_all add: dec_digits.simps [of 0])
  then show ?thesis using dec_digits_digits [OF n] by (simp add: json_literal_def lit_ok_def digit_string_def)
qed

lemma dec_int_lit: "dec_int i = lit_text (i < 0) (dec_digits \<bar>i\<bar>) None None"
  by (simp add: dec_int_def lit_text_def frac_text_def exp_text_def)

text \<open>The length reported is that of the literal.\<close>

lemma ns_length_scan_real [simp]: "ns_length (scan_real l b r) = ns_length r"
  by (simp add: scan_real_def split: option.splits)

lemma ns_length_scan_value [simp]: "ns_length (scan_value l b re) = length l"
  by (simp add: scan_value_def Let_def split: option.splits)

lemma scan_number_length: "ns_length (scan_number s) \<le> length s"
proof (cases rule: scan_number_cases [of s])
  case (some neg ip f x rest)
  then have "ns_length (scan_number s) = length (lit_text neg ip f x)" by simp
  with some(1) show ?thesis by simp
qed (simp add: no_number_def)

lemma scan_number_defined:
  assumes "ns_kind (scan_number s) \<noteq> kind_undefined"
  shows "0 < ns_length (scan_number s)"
proof (cases rule: scan_number_cases [of s])
  case (some neg ip f x rest)
  then have "ip \<noteq> []" by (simp add: json_literal_def lit_ok_def digit_string_def)
  with some(3) show ?thesis by (simp add: lit_text_def)
qed (use assms in \<open>simp add: no_number_def\<close>)


lemma approx_magnitude_lit:
  assumes "lit_ok ip f x"
  shows "approx_magnitude (lit_text neg ip f x) = int_digit_count ip - 1
    + (case x of None \<Rightarrow> 0 | Some (mk, sg, ds) \<Rightarrow> if sg = ''-'' then - capped_exponent ds else capped_exponent ds)"
proof -
  have ok: "digit_string ip" "pred_option digit_string f" "pred_option exp_ok x" using assms by (simp_all add: lit_ok_def)
  have ip: "ip \<noteq> []" "list_all is_digit ip" "hd ip \<noteq> CHR ''-''"
    using ok(1) digit_string_hd [OF ok(1)] by (auto simp: digit_string_def)
  have r: "exp_text x = [] \<or> \<not> is_digit (hd (exp_text x)) \<and> hd (exp_text x) \<noteq> CHR ''.''"
    using ok(3) by (cases x) (auto simp: exp_text_def exp_ok_def)
  have r2: "frac_text f @ exp_text x = [] \<or> \<not> is_digit (hd (frac_text f @ exp_text x))"
    using r by (cases f) (auto simp: frac_text_def)
  have neg: "(if lit_text neg ip f x \<noteq> [] \<and> hd (lit_text neg ip f x) = CHR ''-'' then tl (lit_text neg ip f x) else lit_text neg ip f x)
      = ip @ frac_text f @ exp_text x"
    using ip by (auto simp: lit_text_def)
  show ?thesis
  proof (cases x)
    case None
    have ex: "exp_text x = []" by (simp add: None exp_text_def)
    show ?thesis
      unfolding approx_magnitude_def Let_def neg span_digits [OF ip(2) r2] frac_split(2) [OF ok(2) r] unfolding ex None
      by (simp add: exp_text_def)
  next
    case (Some y)
    obtain mk sg ds where y: "y = (mk, sg, ds)" by (cases y)
    have e: "mk = CHR ''e'' \<or> mk = CHR ''E''" "sg = '''' \<or> sg = ''+'' \<or> sg = ''-''" "ds \<noteq> []" "list_all is_digit ds"
      using ok(3) by (simp_all add: Some y exp_ok_def digit_string_def)
    have "is_digit (hd ds)" using e(3,4) by (cases ds) auto
    then have hd: "hd ds \<noteq> CHR ''-''" "hd ds \<noteq> CHR ''+''" by auto
    have ex: "exp_text x = mk # sg @ ds" by (simp add: Some y exp_text_def)
    from e(1,2) show ?thesis
      unfolding approx_magnitude_def Let_def neg span_digits [OF ip(2) r2] frac_split(2) [OF ok(2) r] unfolding ex Some y
      by (elim disjE) (simp_all add: exp_text_def hd e(3) span_digits_end [OF e(4)])
  qed
qed

section \<open>Strictness\<close>

text \<open>C27. The scanner accepts exactly the number grammar of RFC 8259, by longest match: a literal with nothing behind it
  that continues it is scanned in full, whatever follows; and a number is reported invalid exactly when no such literal
  starts the input, so \<^verbatim>\<open>01\<close>, \<^verbatim>\<open>1.x\<close> and \<^verbatim>\<open>1e\<close> are rejected.\<close>

theorem scan_number_grammar:
  "(json_literal ip f x \<and> ends_literal f x rest \<longrightarrow>
      scan_number (lit_text neg ip f x @ rest) = scan_value (lit_text neg ip f x) neg (f \<noteq> None \<or> x \<noteq> None))
   \<and> (scan_number s = no_number \<longleftrightarrow>
      \<not> (\<exists>neg ip f x rest. s = lit_text neg ip f x @ rest \<and> json_literal ip f x \<and> ends_literal f x rest))"
proof (intro conjI impI)
  have "scan_value l n re \<noteq> no_number" if "l \<noteq> []" for l n re
  proof
    assume "scan_value l n re = no_number"
    then have "ns_length (scan_value l n re) = ns_length no_number" by (simp only:)
    with that show False by (simp add: no_number_def)
  qed
  moreover have "lit_text neg ip f x \<noteq> []" if "json_literal ip f x" for neg ip f x
    using that by (auto simp: json_literal_def lit_ok_def digit_string_def lit_text_def)
  ultimately show "scan_number s = no_number \<longleftrightarrow>
      \<not> (\<exists>neg ip f x rest. s = lit_text neg ip f x @ rest \<and> json_literal ip f x \<and> ends_literal f x rest)"
    using scan_number_literal by (cases rule: scan_number_cases [of s]) metis+
qed (use scan_number_literal in blast)

theorem scan_number_grammar_witness:
  "scan_number ''-1.5e3]'' = scan_value ''-1.5e3'' True True"
proof -
  have "json_literal ''1'' (Some ''5'') (Some (CHR ''e'', '''', ''3''))"
    by (simp add: json_literal_def lit_ok_def digit_string_def exp_ok_def is_digit_def)
  moreover have "ends_literal (Some ''5'') (Some (CHR ''e'', '''', ''3'')) '']''"
    by (simp add: ends_literal_def no_digit_def is_digit_def)
  ultimately show ?thesis
    using scan_number_grammar [of "''1''" "Some ''5''" "Some (CHR ''e'', '''', ''3'')" "'']''" True "[]"]
    by (simp add: lit_text_def frac_text_def exp_text_def)
qed

section \<open>Integer literals\<close>

lemma out_of_range_digits:
  assumes "9 < \<bar>i\<bar>"
  shows "0 < approx_magnitude (dec_int i)"
proof -
  have ok: "json_literal (dec_digits \<bar>i\<bar>) None None" by (rule json_literal_dec) simp
  obtain c cs where ds: "dec_digits \<bar>i\<bar> = c # cs"
    using ok by (cases "dec_digits \<bar>i\<bar>") (auto simp: json_literal_def lit_ok_def digit_string_def)
  have c: "is_digit c" using ok by (simp add: ds json_literal_def lit_ok_def digit_string_def)
  have cs: "cs \<noteq> []"
  proof
    assume "cs = []"
    then have "digits_value (dec_digits \<bar>i\<bar>) = digit_val c" by (simp add: ds digits_value_def)
    with c assms show False by (simp add: digits_value_dec is_digit_def digit_val_def)
  qed
  have "c \<noteq> CHR ''0''" using ok cs by (simp add: ds json_literal_def)
  then show ?thesis
    using cs ok approx_magnitude_lit [of "dec_digits \<bar>i\<bar>" None None "i < 0"]
    by (simp add: dec_int_lit json_literal_def int_digit_count_def ds)
qed

text \<open>C28. Integer literals are classified by their value, with no wrap-around: the decimal text of an integer between
  \<open>-2 ^ 63\<close> and \<open>2 ^ 64 - 1\<close>, followed by anything that does not continue the literal, is scanned in full as that
  integer, unsigned when it is not negative and signed when it is, \<^verbatim>\<open>-0\<close> being the signed zero integer; an integer
  outside that range is scanned in full with the overflow flag, as the real number \<^verbatim>\<open>from_chars\<close> makes of it, or as out
  of range where it makes none.\<close>

theorem scan_number_integer:
  assumes "stops rest"
  shows "(0 \<le> i \<and> i < 2 ^ 64 \<longrightarrow> scan_number (dec_int i @ rest) = no_number\<lparr>ns_kind := kind_uint, ns_length := length (dec_int i), ns_u := word_of_int i\<rparr>)
    \<and> (- (2 ^ 63) \<le> i \<and> i < 0 \<longrightarrow> scan_number (dec_int i @ rest) = no_number\<lparr>ns_kind := kind_sint, ns_length := length (dec_int i), ns_i := i\<rparr>)
    \<and> (i < - (2 ^ 63) \<or> 2 ^ 64 \<le> i \<longrightarrow> scan_number (dec_int i @ rest) =
         (case from_chars_double (dec_int i) of
            Some d \<Rightarrow> no_number\<lparr>ns_kind := kind_real, ns_length := length (dec_int i), ns_d := d, ns_overflow := True\<rparr>
          | None \<Rightarrow> no_number\<lparr>ns_length := length (dec_int i), ns_error := out_of_range, ns_overflow := True\<rparr>))
    \<and> scan_number (''-0'' @ rest) = no_number\<lparr>ns_kind := kind_sint, ns_length := 2, ns_i := 0\<rparr>"
proof -
  have "scan_number (dec_int i @ rest) = scan_value (dec_int i) (i < 0) False"
    unfolding dec_int_lit using scan_number_literal [OF json_literal_dec stops_ends [OF assms], of "\<bar>i\<bar>" "i < 0"] by simp
  moreover have "(if i < 0 then tl (dec_int i) else dec_int i) = dec_digits \<bar>i\<bar>" by (simp add: dec_int_def)
  moreover have loop: "int_loop (dec_digits \<bar>i\<bar>) 0 = (if \<bar>i\<bar> < 2 ^ 64 then Some (word_of_int \<bar>i\<bar>) else None)"
    using int_loop_exact [of "dec_digits \<bar>i\<bar>" 0] dec_digits_digits [of "\<bar>i\<bar>"] by (simp add: digits_value_dec Let_def)
  ultimately have sv: "scan_number (dec_int i @ rest) =
     (let r = no_number\<lparr>ns_length := length (dec_int i)\<rparr>; v = word_of_int \<bar>i\<bar> in
      if \<bar>i\<bar> < 2 ^ 64 then
        (if \<not> i < 0 then r\<lparr>ns_kind := kind_uint, ns_u := v\<rparr>
         else if v \<le> 0x7FFFFFFFFFFFFFFF + 1 then
           r\<lparr>ns_kind := kind_sint, ns_i := (if v = 0x7FFFFFFFFFFFFFFF + 1 then - 9223372036854775808 else - sint v)\<rparr>
         else scan_real (dec_int i) (i < 0) (r\<lparr>ns_overflow := True\<rparr>))
      else scan_real (dec_int i) (i < 0) (r\<lparr>ns_overflow := True\<rparr>))"
    by (simp add: scan_value_def Let_def)
  have over: "scan_real (dec_int i) (i < 0) (no_number\<lparr>ns_length := length (dec_int i), ns_overflow := True\<rparr>) =
      (case from_chars_double (dec_int i) of
         Some d \<Rightarrow> no_number\<lparr>ns_kind := kind_real, ns_length := length (dec_int i), ns_d := d, ns_overflow := True\<rparr>
       | None \<Rightarrow> no_number\<lparr>ns_length := length (dec_int i), ns_error := out_of_range, ns_overflow := True\<rparr>)" if "9 < \<bar>i\<bar>"
    using out_of_range_digits [OF that] by (simp add: scan_real_def no_number_def split: option.split)
  have word: "uint (word_of_int \<bar>i\<bar> :: u64) = \<bar>i\<bar>" if "\<bar>i\<bar> < 2 ^ 64" using that by (simp add: uint_word_of_int)
  have neg: "(word_of_int \<bar>i\<bar> :: u64) \<le> 0x7FFFFFFFFFFFFFFF + 1 \<longleftrightarrow> \<bar>i\<bar> \<le> 2 ^ 63"
    "(word_of_int \<bar>i\<bar> :: u64) = 0x7FFFFFFFFFFFFFFF + 1 \<longleftrightarrow> \<bar>i\<bar> = 2 ^ 63" if "\<bar>i\<bar> < 2 ^ 64"
    using word [OF that] by (simp_all add: word_le_def word_uint_eq_iff)
  have sgn: "sint (word_of_int \<bar>i\<bar> :: u64) = \<bar>i\<bar>" if "\<bar>i\<bar> < 2 ^ 63"
    using that by (simp add: signed_take_bit_int_eq_self sint_sbintrunc')
  show ?thesis
  proof (intro conjI impI)
    assume "0 \<le> i \<and> i < 2 ^ 64"
    then show "scan_number (dec_int i @ rest) = no_number\<lparr>ns_kind := kind_uint, ns_length := length (dec_int i), ns_u := word_of_int i\<rparr>"
      by (simp add: sv no_number_def)
  next
    assume i: "- (2 ^ 63) \<le> i \<and> i < 0"
    then have b: "\<bar>i\<bar> < 2 ^ 64" "\<bar>i\<bar> \<le> 2 ^ 63" by simp_all
    show "scan_number (dec_int i @ rest) = no_number\<lparr>ns_kind := kind_sint, ns_length := length (dec_int i), ns_i := i\<rparr>"
      using i b neg [OF b(1)] sgn by (cases "\<bar>i\<bar> = 2 ^ 63") (simp_all add: sv no_number_def)
  next
    assume i: "i < - (2 ^ 63) \<or> 2 ^ 64 \<le> i"
    then have big: "9 < \<bar>i\<bar>" by auto
    have "\<bar>i\<bar> < 2 ^ 64 \<Longrightarrow> i < 0 \<and> \<not> (word_of_int \<bar>i\<bar> :: u64) \<le> 0x7FFFFFFFFFFFFFFF + 1"
      using i neg(1) by auto
    then show "scan_number (dec_int i @ rest) =
        (case from_chars_double (dec_int i) of
           Some d \<Rightarrow> no_number\<lparr>ns_kind := kind_real, ns_length := length (dec_int i), ns_d := d, ns_overflow := True\<rparr>
         | None \<Rightarrow> no_number\<lparr>ns_length := length (dec_int i), ns_error := out_of_range, ns_overflow := True\<rparr>)"
      unfolding over [OF big, symmetric] sv Let_def by auto
  next
    have "json_literal ''0'' None None" by (simp add: json_literal_def lit_ok_def digit_string_def is_digit_def)
    from scan_number_literal [OF this stops_ends [OF assms], of True]
    show "scan_number (''-0'' @ rest) = no_number\<lparr>ns_kind := kind_sint, ns_length := 2, ns_i := 0\<rparr>"
      by (simp add: lit_text_def frac_text_def exp_text_def scan_value_def no_number_def digit_val_def)
  qed
qed

theorem scan_number_integer_witness:
  "scan_number ''-9223372036854775808,'' = no_number\<lparr>ns_kind := kind_sint, ns_length := 20, ns_i := - 9223372036854775808\<rparr>"
proof -
  have "dec_int (- 9223372036854775808) = ''-9223372036854775808''" by code_simp
  with scan_number_integer [of "'',''" "- 9223372036854775808"] show ?thesis
    by (simp add: stops_def no_digit_def is_digit_def)
qed

text \<open>The out-of-range estimate looks only at the digits before the point and the exponent. The literal
  \<open>0.\<close> followed by 400 zeros and \<open>1e10\<close> is far below the smallest double, yet it is reported out of range,
  as if it overflowed, where an underflow is meant to read as zero; without the exponent the same literal
  does read as zero.\<close>

theorem scan_number_underflow_estimate:
  "let lit = \<lambda>e. lit_text False ''0'' (Some (replicate 400 (CHR ''0'') @ ''1'')) e; big = Some (CHR ''e'', '''', ''10'') in
   ns_error (scan_number (lit big)) = out_of_range \<and> ns_kind (scan_number (lit big)) = kind_undefined
   \<and> ns_kind (scan_number (lit None)) = kind_real \<and> ns_d (scan_number (lit None)) = 0"
proof -
  define f where "f = Some (replicate 400 (CHR ''0'') @ ''1'')"
  define big where "big = Some (CHR ''e'', '''' :: string, ''10'')"
  have f: "pred_option digit_string f" "length (frac_digits f) = 401" "digits_value (''0'' @ frac_digits f) = 1"
    using digits_value_append [of "''0''" "frac_digits f"] digits_value_append [of "replicate 400 (CHR ''0'')" "''1''"]
    by (simp_all add: f_def digit_string_def list_all_iff is_digit_def frac_digits_def digits_value_def [of "''0''"]
        digits_value_def [of "''1''"] digit_val_def)
  have ok: "json_literal ''0'' f None" "json_literal ''0'' f big"
    using f(1) by (simp_all add: json_literal_def lit_ok_def big_def exp_ok_def digit_string_def is_digit_def)
  have lo: "lit_ok ''0'' f None" "lit_ok ''0'' f big" using ok by (simp_all add: json_literal_def)
  have st: "stops []" by (simp add: stops_def no_digit_def)
  have zero: "round_decimal 1 (- 391) = 0" "round_decimal 1 (- 401) = 0" by code_simp+
  have ev: "digits_value ''10'' = 10" "capped_exponent ''10'' = 10" by code_simp+
  have none: "from_chars_double (lit_text False ''0'' f big) = None" "from_chars_double (lit_text False ''0'' f None) = None"
    using f(2,3) zero ev by (simp_all only: from_chars_double_def literal_parts_lit [OF lo(1)] literal_parts_lit [OF lo(2)])
      (simp_all add: exp_value_def big_def)
  have am: "approx_magnitude (lit_text False ''0'' f big) = 9" "approx_magnitude (lit_text False ''0'' f None) = -1"
    using ev by (simp_all only: approx_magnitude_lit [OF lo(1)] approx_magnitude_lit [OF lo(2)])
      (simp_all add: big_def int_digit_count_def)
  have sn: "scan_number (lit_text False ''0'' f e) = scan_real (lit_text False ''0'' f e) False (no_number\<lparr>ns_length := length (lit_text False ''0'' f e)\<rparr>)"
    if "json_literal ''0'' f e" for e
    using scan_number_literal [OF that stops_ends [OF st], of False] by (simp add: scan_value_def Let_def f_def)
  show ?thesis
    unfolding Let_def f_def [symmetric] big_def [symmetric] sn [OF ok(1)] sn [OF ok(2)]
    by (simp add: scan_real_def none am no_number_def)
qed

end
