(* ===== verification/Json_Write.thy ===== *)
theory Json_Write
  imports Cbor_Options Json_Escape Json_Number
begin

text \<open>
  \<^verbatim>\<open>json/write.hpp\<close> and \<^verbatim>\<open>json/options.hpp\<close>: the JSON sink. Its state is the output, the nesting depth,
  the flag that a key has just been written, and for every depth whether the next value is the first of
  its container. A sink is driven by a sequence of calls; the engine that issues them is a parameter.
  \<open>jtext\<close> is the reference: the text of a value, by recursion on the value. The lemmas show that the
  stateful sink produces that text.
\<close>

record json_options =
  jo_pretty :: bool
  jo_indent :: nat
  jo_max_depth :: nat
  jo_validate_utf8 :: bool
  jo_duplicates :: duplicate_key_mode
  jo_errors :: error_mode

definition json_defaults :: json_options where
  "json_defaults = \<lparr>jo_pretty = False, jo_indent = 2, jo_max_depth = 256, jo_validate_utf8 = True,
     jo_duplicates = last_wins, jo_errors = fail_fast\<rparr>"

datatype bytes_encoding = enc_base64 | enc_base64url | enc_hex

section \<open>The sink\<close>

record jwriter =
  jw_out :: string
  jw_depth :: nat
  jw_after_key :: bool
  jw_first :: "bool list"

definition new_jwriter :: "json_options \<Rightarrow> string \<Rightarrow> jwriter" where
  "new_jwriter opts out = \<lparr>jw_out = out, jw_depth = 0, jw_after_key = False, jw_first = replicate (jo_max_depth opts + 2) False\<rparr>"

definition jw_put :: "string \<Rightarrow> jwriter \<Rightarrow> jwriter" where
  "jw_put s w = w\<lparr>jw_out := jw_out w @ s\<rparr>"

definition newline_text :: "json_options \<Rightarrow> nat \<Rightarrow> string" where
  "newline_text opts d = CHR 0x0A # replicate (d * jo_indent opts) (CHR '' '')"

definition newline :: "json_options \<Rightarrow> jwriter \<Rightarrow> jwriter" where
  "newline opts w = jw_put (newline_text opts (jw_depth w)) w"

definition before_value :: "json_options \<Rightarrow> jwriter \<Rightarrow> jwriter" where
  "before_value opts w =
     (if jw_after_key w then w\<lparr>jw_after_key := False\<rparr>
      else if jw_depth w = 0 then w
      else
        let w1 = (if jw_first w ! jw_depth w then w\<lparr>jw_first := (jw_first w)[jw_depth w := False]\<rparr> else jw_put '','' w)
        in if jo_pretty opts then newline opts w1 else w1)"

definition json_depth_error :: "json_options \<Rightarrow> encode_error" where
  "json_depth_error opts = mk_encode_error depth_exceeded
     (''nesting depth exceeds max_depth ('' @ dec_nat (jo_max_depth opts) @ ''); a cycle through smart pointers is the usual cause'')"

definition jw_open :: "json_options \<Rightarrow> char \<Rightarrow> jwriter \<Rightarrow> jwriter encoded" where
  "jw_open opts c w0 =
     (let w = before_value opts w0 in
      if jo_max_depth opts \<le> jw_depth w then Inl (json_depth_error opts)
      else
        let w1 = (jw_put [c] w)\<lparr>jw_depth := jw_depth w + 1\<rparr>
        in Inr (w1\<lparr>jw_first := (jw_first w1)[jw_depth w1 := True]\<rparr>))"

text \<open>The depth is a \<^verbatim>\<open>size_t\<close>: closing with nothing open wraps it.\<close>

definition jw_close :: "json_options \<Rightarrow> char \<Rightarrow> jwriter \<Rightarrow> jwriter" where
  "jw_close opts c w =
     (let emp = jw_first w ! jw_depth w;
          w1 = w\<lparr>jw_depth := (if jw_depth w = 0 then 2 ^ 64 - 1 else jw_depth w - 1)\<rparr>;
          w2 = (if jo_pretty opts \<and> \<not> emp then newline opts w1 else w1)
      in jw_put [c] w2)"

definition bytes_text :: "bytes_encoding \<Rightarrow> bytes \<Rightarrow> string \<Rightarrow> string" where
  "bytes_text enc b out = (case enc of
     enc_base64 \<Rightarrow> base64_encode b out False | enc_base64url \<Rightarrow> base64_encode b out True | enc_hex \<Rightarrow> hex_encode b out)"

definition jw_bytes :: "json_options \<Rightarrow> bytes_encoding \<Rightarrow> bytes \<Rightarrow> jwriter \<Rightarrow> jwriter" where
  "jw_bytes opts enc b w0 =
     (let w = jw_put [CHR 0x22] (before_value opts w0) in jw_put [CHR 0x22] (w\<lparr>jw_out := bytes_text enc b (jw_out w)\<rparr>))"

definition jw_string :: "json_options \<Rightarrow> string \<Rightarrow> jwriter \<Rightarrow> jwriter encoded" where
  "jw_string opts s w = (case write_string (jo_validate_utf8 opts) (jw_out w) s of
     Inl e \<Rightarrow> Inl e | Inr t \<Rightarrow> Inr (w\<lparr>jw_out := t\<rparr>))"

definition colon_text :: "json_options \<Rightarrow> string" where
  "colon_text opts = (if jo_pretty opts then '': '' else '':'')"

definition after_key_text :: "json_options \<Rightarrow> jwriter \<Rightarrow> jwriter" where
  "after_key_text opts w = (jw_put (colon_text opts) w)\<lparr>jw_after_key := True\<rparr>"

definition jw_key_text :: "json_options \<Rightarrow> string \<Rightarrow> jwriter \<Rightarrow> jwriter encoded" where
  "jw_key_text opts k w = (case jw_string opts k (before_value opts w) of
     Inl e \<Rightarrow> Inl e | Inr w1 \<Rightarrow> Inr (after_key_text opts w1))"

definition jw_quoted :: "string \<Rightarrow> jwriter \<Rightarrow> jwriter" where
  "jw_quoted t w = jw_put [CHR 0x22] (jw_put t (jw_put [CHR 0x22] w))"

definition jw_prepared_key :: "json_options \<Rightarrow> string \<Rightarrow> jwriter \<Rightarrow> jwriter" where
  "jw_prepared_key opts name w =
     (jw_put (fs_view (prepared_key_blob (length name * 6 + 8) name (jo_pretty opts))) (before_value opts w))\<lparr>jw_after_key := True\<rparr>"

datatype jcall =
    JC_null | JC_boolean bool | JC_uint u64 | JC_sint int | JC_real u64 | JC_text string
  | JC_bytes bytes_encoding bytes | JC_uint_field bool u64 | JC_sint_field bool int
  | JC_begin_array | JC_end_array | JC_begin_map | JC_end_map
  | JC_key string | JC_key_uint u64 | JC_key_sint int | JC_prepared_key string | JC_tag u64

fun jsink_step :: "json_options \<Rightarrow> jcall \<Rightarrow> jwriter \<Rightarrow> jwriter encoded" where
  "jsink_step opts JC_null w = Inr (jw_put ''null'' (before_value opts w))"
| "jsink_step opts (JC_boolean b) w = Inr (jw_put (if b then ''true'' else ''false'') (before_value opts w))"
| "jsink_step opts (JC_uint u) w = (let w1 = before_value opts w in Inr (w1\<lparr>jw_out := write_uint (jw_out w1) u\<rparr>))"
| "jsink_step opts (JC_sint i) w = (let w1 = before_value opts w in Inr (w1\<lparr>jw_out := write_sint (jw_out w1) i\<rparr>))"
| "jsink_step opts (JC_real d) w = (let w1 = before_value opts w in Inr (w1\<lparr>jw_out := write_real_json (jw_out w1) d\<rparr>))"
| "jsink_step opts (JC_text t) w = jw_string opts t (before_value opts w)"
| "jsink_step opts (JC_bytes enc b) w = Inr (jw_bytes opts enc b w)"
| "jsink_step opts (JC_uint_field as_string u) w =
     (if as_string then Inr (jw_quoted (dec_u64 u) (before_value opts w))
      else (let w1 = before_value opts w in Inr (w1\<lparr>jw_out := write_uint (jw_out w1) u\<rparr>)))"
| "jsink_step opts (JC_sint_field as_string i) w =
     (if as_string then Inr (jw_quoted (dec_int i) (before_value opts w))
      else (let w1 = before_value opts w in Inr (w1\<lparr>jw_out := write_sint (jw_out w1) i\<rparr>)))"
| "jsink_step opts JC_begin_array w = jw_open opts (CHR ''['') w"
| "jsink_step opts JC_end_array w = Inr (jw_close opts (CHR '']'') w)"
| "jsink_step opts JC_begin_map w = jw_open opts (CHR ''{'') w"
| "jsink_step opts JC_end_map w = Inr (jw_close opts (CHR ''}'') w)"
| "jsink_step opts (JC_key k) w = jw_key_text opts k w"
| "jsink_step opts (JC_key_uint k) w = Inr (after_key_text opts (jw_quoted (dec_u64 k) (before_value opts w)))"
| "jsink_step opts (JC_key_sint k) w = Inr (after_key_text opts (jw_quoted (dec_int k) (before_value opts w)))"
| "jsink_step opts (JC_prepared_key n) w = Inr (jw_prepared_key opts n w)"
| "jsink_step opts (JC_tag t) w = Inr w"

fun run_jsink :: "json_options \<Rightarrow> jcall list \<Rightarrow> jwriter \<Rightarrow> jwriter encoded" where
  "run_jsink opts [] w = Inr w"
| "run_jsink opts (c # cs) w = (case jsink_step opts c w of Inl e \<Rightarrow> Inl e | Inr w1 \<Rightarrow> run_jsink opts cs w1)"

text \<open>\<^verbatim>\<open>encode\<close> and \<^verbatim>\<open>encode_append\<close>, for the calls the engine makes.\<close>

definition json_encode_append :: "json_options \<Rightarrow> jcall list \<Rightarrow> string \<Rightarrow> string encoded" where
  "json_encode_append opts cs out = (case run_jsink opts cs (new_jwriter opts out) of Inl e \<Rightarrow> Inl e | Inr w \<Rightarrow> Inr (jw_out w))"

definition json_encode :: "json_options \<Rightarrow> jcall list \<Rightarrow> string encoded" where
  "json_encode opts cs = json_encode_append opts cs ''''"

section \<open>The reference text\<close>

datatype jkey = JK_text string | JK_uint u64 | JK_sint int | JK_prepared string

datatype jitem =
    JI_null | JI_bool bool | JI_uint bool u64 | JI_sint bool int | JI_real u64 | JI_text string
  | JI_bytes bytes_encoding bytes | JI_tag u64 jitem | JI_array "jitem list" | JI_object "(jkey \<times> jitem) list"

fun key_call :: "jkey \<Rightarrow> jcall" where
  "key_call (JK_text k) = JC_key k"
| "key_call (JK_uint u) = JC_key_uint u"
| "key_call (JK_sint i) = JC_key_sint i"
| "key_call (JK_prepared n) = JC_prepared_key n"

fun jcalls :: "jitem \<Rightarrow> jcall list"
  and jcalls_list :: "jitem list \<Rightarrow> jcall list"
  and jcalls_entries :: "(jkey \<times> jitem) list \<Rightarrow> jcall list" where
  "jcalls JI_null = [JC_null]"
| "jcalls (JI_bool b) = [JC_boolean b]"
| "jcalls (JI_uint q u) = [JC_uint_field q u]"
| "jcalls (JI_sint q i) = [JC_sint_field q i]"
| "jcalls (JI_real d) = [JC_real d]"
| "jcalls (JI_text t) = [JC_text t]"
| "jcalls (JI_bytes e b) = [JC_bytes e b]"
| "jcalls (JI_tag t x) = JC_tag t # jcalls x"
| "jcalls (JI_array xs) = JC_begin_array # jcalls_list xs @ [JC_end_array]"
| "jcalls (JI_object es) = JC_begin_map # jcalls_entries es @ [JC_end_map]"
| "jcalls_list [] = []"
| "jcalls_list (x # xs) = jcalls x @ jcalls_list xs"
| "jcalls_entries [] = []"
| "jcalls_entries ((k, x) # es) = key_call k # jcalls x @ jcalls_entries es"

definition text_or_error :: "json_options \<Rightarrow> string \<Rightarrow> string encoded" where
  "text_or_error opts s = write_string (jo_validate_utf8 opts) '''' s"

fun key_text :: "json_options \<Rightarrow> jkey \<Rightarrow> string encoded" where
  "key_text opts (JK_text k) = text_or_error opts k"
| "key_text opts (JK_uint u) = Inr (CHR 0x22 # dec_u64 u @ [CHR 0x22])"
| "key_text opts (JK_sint i) = Inr (CHR 0x22 # dec_int i @ [CHR 0x22])"
| "key_text opts (JK_prepared n) = Inr (quoted n)"

definition sep_text :: "json_options \<Rightarrow> nat \<Rightarrow> bool \<Rightarrow> string" where
  "sep_text opts d first = (if first then '''' else '','') @ (if jo_pretty opts then newline_text opts d else '''')"

definition close_text :: "json_options \<Rightarrow> nat \<Rightarrow> bool \<Rightarrow> string" where
  "close_text opts d emp = (if jo_pretty opts \<and> \<not> emp then newline_text opts d else '''')"

fun jtext :: "json_options \<Rightarrow> nat \<Rightarrow> jitem \<Rightarrow> string encoded"
  and jtext_list :: "json_options \<Rightarrow> nat \<Rightarrow> bool \<Rightarrow> jitem list \<Rightarrow> string encoded"
  and jtext_entries :: "json_options \<Rightarrow> nat \<Rightarrow> bool \<Rightarrow> (jkey \<times> jitem) list \<Rightarrow> string encoded" where
  "jtext opts d JI_null = Inr ''null''"
| "jtext opts d (JI_bool b) = Inr (if b then ''true'' else ''false'')"
| "jtext opts d (JI_uint q u) = Inr (if q then CHR 0x22 # dec_u64 u @ [CHR 0x22] else dec_u64 u)"
| "jtext opts d (JI_sint q i) = Inr (if q then CHR 0x22 # dec_int i @ [CHR 0x22] else dec_int i)"
| "jtext opts d (JI_real r) = Inr (if is_finite r then to_chars_double r else ''null'')"
| "jtext opts d (JI_text t) = text_or_error opts t"
| "jtext opts d (JI_bytes e b) = Inr (CHR 0x22 # bytes_text e b '''' @ [CHR 0x22])"
| "jtext opts d (JI_tag t x) = jtext opts d x"
| "jtext opts d (JI_array xs) =
     (if jo_max_depth opts \<le> d then Inl (json_depth_error opts)
      else case jtext_list opts (d + 1) True xs of Inl e \<Rightarrow> Inl e
        | Inr t \<Rightarrow> Inr (''['' @ t @ close_text opts d (xs = []) @ '']''))"
| "jtext opts d (JI_object es) =
     (if jo_max_depth opts \<le> d then Inl (json_depth_error opts)
      else case jtext_entries opts (d + 1) True es of Inl e \<Rightarrow> Inl e
        | Inr t \<Rightarrow> Inr (''{'' @ t @ close_text opts d (es = []) @ ''}''))"
| "jtext_list opts d first [] = Inr ''''"
| "jtext_list opts d first (x # xs) =
     (case jtext opts d x of Inl e \<Rightarrow> Inl e
      | Inr t \<Rightarrow> case jtext_list opts d False xs of Inl e \<Rightarrow> Inl e
        | Inr u \<Rightarrow> Inr (sep_text opts d first @ t @ u))"
| "jtext_entries opts d first [] = Inr ''''"
| "jtext_entries opts d first ((k, x) # es) =
     (case key_text opts k of Inl e \<Rightarrow> Inl e
      | Inr kt \<Rightarrow> case jtext opts d x of Inl e \<Rightarrow> Inl e
        | Inr t \<Rightarrow> case jtext_entries opts d False es of Inl e \<Rightarrow> Inl e
          | Inr u \<Rightarrow> Inr (sep_text opts d first @ kt @ colon_text opts @ t @ u))"

section \<open>The sink writes the reference text\<close>

text \<open>Invariant of the sink: the depth is within the limit, so every index into the array of flags is in
  bounds, and after a key the container is no longer at its first value.\<close>

definition jok :: "json_options \<Rightarrow> jwriter \<Rightarrow> bool" where
  "jok opts w \<longleftrightarrow> jw_depth w \<le> jo_max_depth opts \<and> length (jw_first w) = jo_max_depth opts + 2
     \<and> (jw_after_key w \<longrightarrow> 0 < jw_depth w \<longrightarrow> \<not> jw_first w ! jw_depth w)"

text \<open>\<open>wrote opts s k w w'\<close>: from \<open>w\<close> to \<open>w'\<close> the text \<open>s\<close> has been added, the depth is the same, the flags of
  the enclosing containers are untouched, the current container has a value, and \<open>k\<close> says whether a key
  has just been written.\<close>

definition wrote :: "string \<Rightarrow> bool \<Rightarrow> jwriter \<Rightarrow> jwriter \<Rightarrow> bool" where
  "wrote s k w w' \<longleftrightarrow> jw_out w' = jw_out w @ s \<and> jw_depth w' = jw_depth w \<and> jw_after_key w' = k
     \<and> length (jw_first w') = length (jw_first w) \<and> (\<forall>i<jw_depth w. jw_first w' ! i = jw_first w ! i)
     \<and> (0 < jw_depth w \<longrightarrow> \<not> jw_first w' ! jw_depth w)"

definition prefix_text :: "json_options \<Rightarrow> jwriter \<Rightarrow> string" where
  "prefix_text opts w = (if jw_after_key w \<or> jw_depth w = 0 then '''' else sep_text opts (jw_depth w) (jw_first w ! jw_depth w))"

lemma jw_put_simps [simp]:
  "jw_out (jw_put s w) = jw_out w @ s" "jw_depth (jw_put s w) = jw_depth w" "jw_after_key (jw_put s w) = jw_after_key w"
  "jw_first (jw_put s w) = jw_first w"
  by (simp_all add: jw_put_def)

lemma before_value_wrote:
  assumes "jok opts w"
  shows "wrote (prefix_text opts w) False w (before_value opts w)"
  using assms
  by (auto simp: wrote_def before_value_def prefix_text_def sep_text_def newline_def jok_def Let_def nth_list_update)

lemma wrote_put: "wrote s k w w' \<Longrightarrow> wrote (s @ t) k w (jw_put t w')"
  by (simp add: wrote_def)

lemma wrote_out: "wrote s k w w' \<Longrightarrow> wrote (s @ t) k w (w'\<lparr>jw_out := jw_out w' @ t\<rparr>)"
  by (simp add: wrote_def)

lemma wrote_key: "wrote s k w w' \<Longrightarrow> wrote s k' w (w'\<lparr>jw_after_key := k'\<rparr>)"
  by (simp add: wrote_def)

lemma wrote_jok: "wrote s k w w' \<Longrightarrow> jok opts w \<Longrightarrow> jok opts w'"
  by (auto simp: wrote_def jok_def)

lemma wrote_trans: "wrote s k w w1 \<Longrightarrow> wrote t k' w1 w2 \<Longrightarrow> wrote (s @ t) k' w w2"
  by (auto simp: wrote_def)

lemma wrote_prefix:
  "wrote s k w w' \<Longrightarrow> prefix_text opts w' = (if k \<or> jw_depth w = 0 then '''' else sep_text opts (jw_depth w) False)"
  by (auto simp: wrote_def prefix_text_def)

lemma write_string_out: "write_string v out s = (case write_string v '''' s of Inl e \<Rightarrow> Inl e | Inr t \<Rightarrow> Inr (out @ t))"
  by (simp add: write_string_quoted)

lemma jw_string_wrote:
  assumes "wrote s k w w'"
  shows "case text_or_error opts t of Inl e \<Rightarrow> jw_string opts t w' = Inl e
    | Inr u \<Rightarrow> \<exists>w''. jw_string opts t w' = Inr w'' \<and> wrote (s @ u) k w w''"
  using wrote_out [OF assms]
  by (auto simp: jw_string_def text_or_error_def write_string_out [of _ "jw_out w'"] split: sum.splits)

text \<open>\<open>writes\<close>: what a run of calls does when the reference says \<open>r\<close>.\<close>

definition writes :: "json_options \<Rightarrow> jcall list \<Rightarrow> string encoded \<Rightarrow> bool \<Rightarrow> jwriter \<Rightarrow> bool" where
  "writes opts cs r k w \<longleftrightarrow> (case r of Inl e \<Rightarrow> run_jsink opts cs w = Inl e
     | Inr t \<Rightarrow> \<exists>w'. run_jsink opts cs w = Inr w' \<and> wrote t k w w')"

lemma run_jsink_append:
  "run_jsink opts (cs @ ds) w = (case run_jsink opts cs w of Inl e \<Rightarrow> Inl e | Inr w' \<Rightarrow> run_jsink opts ds w')"
  by (induction opts cs w rule: run_jsink.induct) (simp_all split: sum.splits)

lemma writes_one: "jsink_step opts c w = Inr w' \<Longrightarrow> wrote t k w w' \<Longrightarrow> writes opts [c] (Inr t) k w"
  by (simp add: writes_def)

lemma writes_append:
  assumes "writes opts cs r1 k1 w"
    and "\<And>t w'. r1 = Inr t \<Longrightarrow> wrote t k1 w w' \<Longrightarrow> writes opts ds (r2 w') k2 w'"
    and "r = (case r1 of Inl e \<Rightarrow> Inl e | Inr t \<Rightarrow> r3 t)"
    and "\<And>t w'. r1 = Inr t \<Longrightarrow> wrote t k1 w w' \<Longrightarrow> r3 t = (case r2 w' of Inl e \<Rightarrow> Inl e | Inr u \<Rightarrow> Inr (t @ u))"
  shows "writes opts (cs @ ds) r k2 w"
proof (cases r1)
  case (Inl e)
  then show ?thesis using assms(1,3) by (simp add: writes_def run_jsink_append)
next
  case (Inr t)
  then obtain w' where w': "run_jsink opts cs w = Inr w'" "wrote t k1 w w'" using assms(1) by (auto simp: writes_def)
  from assms(2) [OF Inr w'(2)] assms(3) assms(4) [OF Inr w'(2)] Inr w' wrote_trans show ?thesis
    by (fastforce simp: writes_def run_jsink_append split: sum.splits)
qed

lemma writes_key:
  assumes "jok opts w"
  shows "writes opts [key_call k] (case key_text opts k of Inl e \<Rightarrow> Inl e | Inr t \<Rightarrow> Inr (prefix_text opts w @ t @ colon_text opts)) True w"
proof (cases k)
  case (JK_text s)
  note b = jw_string_wrote [OF before_value_wrote [OF assms], of opts s]
  show ?thesis
  proof (cases "text_or_error opts s")
    case (Inl e)
    with b JK_text show ?thesis by (simp add: writes_def jw_key_text_def)
  next
    case (Inr u)
    with b obtain w'' where w'': "jw_string opts s (before_value opts w) = Inr w''" "wrote (prefix_text opts w @ u) False w w''" by auto
    then have "wrote ((prefix_text opts w @ u) @ colon_text opts) True w (after_key_text opts w'')"
      unfolding after_key_text_def by (intro wrote_key wrote_put)
    with w'' Inr JK_text show ?thesis by (simp add: writes_def jw_key_text_def)
  qed
next
  case (JK_prepared n)
  have "wrote (prefix_text opts w @ (quoted n @ colon_text opts)) True w (jw_prepared_key opts n w)"
    unfolding jw_prepared_key_def
    using wrote_key [OF wrote_put [OF before_value_wrote [OF assms], of "quoted n @ colon_text opts"], of True]
      prepared_key_view [of n "jo_pretty opts"]
    by (cases "jo_pretty opts") (simp_all add: colon_text_def)
  with JK_prepared show ?thesis by (simp add: writes_def)
next
  case (JK_uint u)
  have "wrote ((((prefix_text opts w @ [CHR 0x22]) @ dec_u64 u) @ [CHR 0x22]) @ colon_text opts) True w
      (after_key_text opts (jw_quoted (dec_u64 u) (before_value opts w)))"
    unfolding after_key_text_def jw_quoted_def
    by (rule wrote_key [OF wrote_put [OF wrote_put [OF wrote_put [OF wrote_put [OF before_value_wrote [OF assms]]]]]])
  with JK_uint show ?thesis by (simp add: writes_def)
next
  case (JK_sint u)
  have "wrote ((((prefix_text opts w @ [CHR 0x22]) @ dec_int u) @ [CHR 0x22]) @ colon_text opts) True w
      (after_key_text opts (jw_quoted (dec_int u) (before_value opts w)))"
    unfolding after_key_text_def jw_quoted_def
    by (rule wrote_key [OF wrote_put [OF wrote_put [OF wrote_put [OF wrote_put [OF before_value_wrote [OF assms]]]]]])
  with JK_sint show ?thesis by (simp add: writes_def)
qed

text \<open>Opening and closing a container, with what is written in between.\<close>

lemma jw_open_cases:
  assumes "jok opts w" "jw_depth w < jo_max_depth opts"
  obtains w1 where "jw_open opts c w = Inr w1" "jok opts w1" "jw_depth w1 = jw_depth w + 1" "\<not> jw_after_key w1"
    "jw_first w1 ! jw_depth w1" "wrote (prefix_text opts w @ [c]) False w (w1\<lparr>jw_depth := jw_depth w\<rparr>)"
proof -
  define w0 where "w0 = before_value opts w"
  have b: "wrote (prefix_text opts w) False w w0" unfolding w0_def by (rule before_value_wrote [OF assms(1)])
  define w1 where "w1 = w0\<lparr>jw_out := jw_out w0 @ [c], jw_depth := jw_depth w + 1, jw_first := (jw_first w0)[jw_depth w + 1 := True]\<rparr>"
  have d: "jw_depth w0 = jw_depth w" using b by (simp add: wrote_def)
  have op: "jw_open opts c w = Inr w1"
    using d assms(2) by (simp add: jw_open_def w0_def [symmetric] Let_def w1_def jw_put_def)
  show thesis
    by (rule that [OF op]) (use b assms in \<open>auto simp: w1_def wrote_def jok_def nth_list_update\<close>)
qed

lemma jw_open_deep:
  assumes "jok opts w" "jo_max_depth opts \<le> jw_depth w"
  shows "jw_open opts c w = Inl (json_depth_error opts)"
  using before_value_wrote [OF assms(1)] assms(2) by (simp add: jw_open_def Let_def wrote_def)

text \<open>What a run of calls inside a container at depth \<open>d\<close> does: \<open>n\<close> says whether it adds a value.\<close>

definition fills :: "json_options \<Rightarrow> jcall list \<Rightarrow> string encoded \<Rightarrow> bool \<Rightarrow> jwriter \<Rightarrow> bool" where
  "fills opts cs r n w \<longleftrightarrow> (case r of Inl e \<Rightarrow> run_jsink opts cs w = Inl e
     | Inr t \<Rightarrow> \<exists>w'. run_jsink opts cs w = Inr w' \<and> (if n then wrote t False w w' else w' = w \<and> t = ''''))"

lemma fills_container:
  assumes w: "jok opts w"
    and body: "\<And>w1. jw_depth w < jo_max_depth opts \<Longrightarrow> jok opts w1 \<Longrightarrow> jw_depth w1 = jw_depth w + 1 \<Longrightarrow> \<not> jw_after_key w1 \<Longrightarrow> jw_first w1 ! jw_depth w1
      \<Longrightarrow> fills opts cs r n w1"
    and op: "\<And>v. jsink_step opts oc v = jw_open opts a v" and cl: "\<And>v. jsink_step opts cc v = Inr (jw_close opts z v)"
  shows "writes opts (oc # cs @ [cc])
    (if jo_max_depth opts \<le> jw_depth w then Inl (json_depth_error opts)
     else case r of Inl e \<Rightarrow> Inl e | Inr t \<Rightarrow> Inr (prefix_text opts w @ [a] @ t @ close_text opts (jw_depth w) (\<not> n) @ [z])) False w"
proof (cases "jo_max_depth opts \<le> jw_depth w")
  case True
  then show ?thesis using jw_open_deep [OF w] by (simp add: writes_def op)
next
  case False
  then have lt: "jw_depth w < jo_max_depth opts" by simp
  from jw_open_cases [OF w lt, of a] obtain w1 where w1: "jw_open opts a w = Inr w1" "jok opts w1" "jw_depth w1 = jw_depth w + 1" "\<not> jw_after_key w1"
    "jw_first w1 ! jw_depth w1" "wrote (prefix_text opts w @ [a]) False w (w1\<lparr>jw_depth := jw_depth w\<rparr>)" by blast
  from body [OF lt w1(2-5)] have f: "fills opts cs r n w1" .
  show ?thesis
  proof (cases r)
    case (Inl e)
    with f False w1 show ?thesis by (simp add: writes_def fills_def op run_jsink_append)
  next
    case (Inr t)
    with f obtain w' where w': "run_jsink opts cs w1 = Inr w'" "if n then wrote t False w1 w' else w' = w1 \<and> t = ''''"
      by (auto simp: fills_def)
    have flag: "jw_first w' ! jw_depth w' = (\<not> n)" "jw_depth w' = jw_depth w + 1"
      using w'(2) w1(3,5) by (auto simp: wrote_def split: if_splits)
    have "wrote (prefix_text opts w @ [a] @ t @ close_text opts (jw_depth w) (\<not> n) @ [z]) False w (jw_close opts z w')"
      using w'(2) w1(3,4,5,6) flag
      by (auto simp: jw_close_def wrote_def Let_def newline_def close_text_def split: if_splits)
    with Inr False w1(1) w'(1) show ?thesis by (simp add: writes_def op cl run_jsink_append)
  qed
qed

lemma writes_step:
  assumes "jsink_step opts c w = Inr w'" "wrote (prefix_text opts w @ t) False w w'"
  shows "writes opts [c] (Inr (prefix_text opts w @ t)) False w"
  using assms by (simp add: writes_def)

definition with_prefix :: "string \<Rightarrow> string encoded \<Rightarrow> string encoded" where
  "with_prefix p r = (case r of Inl e \<Rightarrow> Inl e | Inr t \<Rightarrow> Inr (p @ t))"

lemma with_prefix_simps [simp]:
  "with_prefix p (Inl e) = Inl e" "with_prefix p (Inr t) = Inr (p @ t)"
  by (simp_all add: with_prefix_def)

lemma writes_scalar:
  assumes "jok opts w"
  shows "writes opts (jcalls JI_null) (with_prefix (prefix_text opts w) (jtext opts d JI_null)) False w"
    "writes opts (jcalls (JI_bool b)) (with_prefix (prefix_text opts w) (jtext opts d (JI_bool b))) False w"
    "writes opts (jcalls (JI_uint q u)) (with_prefix (prefix_text opts w) (jtext opts d (JI_uint q u))) False w"
    "writes opts (jcalls (JI_sint q i)) (with_prefix (prefix_text opts w) (jtext opts d (JI_sint q i))) False w"
    "writes opts (jcalls (JI_real r)) (with_prefix (prefix_text opts w) (jtext opts d (JI_real r))) False w"
    "writes opts (jcalls (JI_text t)) (with_prefix (prefix_text opts w) (jtext opts d (JI_text t))) False w"
    "writes opts (jcalls (JI_bytes e bs)) (with_prefix (prefix_text opts w) (jtext opts d (JI_bytes e bs))) False w"
proof -
  note b = before_value_wrote [OF assms]
  note q = wrote_put [OF wrote_put [OF wrote_put [OF b, of "[CHR 0x22]"]], of _ "[CHR 0x22]", unfolded append_assoc]
  show "writes opts (jcalls JI_null) (with_prefix (prefix_text opts w) (jtext opts d JI_null)) False w"
    "writes opts (jcalls (JI_bool b)) (with_prefix (prefix_text opts w) (jtext opts d (JI_bool b))) False w" for b
    using wrote_put [OF b] by (simp_all add: writes_def)
  show "writes opts (jcalls (JI_uint q u)) (with_prefix (prefix_text opts w) (jtext opts d (JI_uint q u))) False w"
    "writes opts (jcalls (JI_sint q i)) (with_prefix (prefix_text opts w) (jtext opts d (JI_sint q i))) False w"
    using wrote_out [OF b] q by (simp_all add: writes_def jw_quoted_def write_uint_def write_sint_def Let_def)
  show "writes opts (jcalls (JI_real r)) (with_prefix (prefix_text opts w) (jtext opts d (JI_real r))) False w"
    using wrote_out [OF b] by (simp add: writes_def write_real_json_def Let_def)
  show "writes opts (jcalls (JI_text t)) (with_prefix (prefix_text opts w) (jtext opts d (JI_text t))) False w"
    using jw_string_wrote [OF b, of opts t] by (cases "text_or_error opts t") (auto simp: writes_def)
  have "bytes_text e bs (jw_out (before_value opts w) @ [CHR 0x22]) = (jw_out (before_value opts w) @ [CHR 0x22]) @ bytes_text e bs ''''"
    by (cases e) (simp_all add: bytes_text_def base64_encode_def hex_encode_def)
  then have "jw_bytes opts e bs w = jw_put [CHR 0x22] (jw_put (bytes_text e bs '''') (jw_put [CHR 0x22] (before_value opts w)))"
    by (simp add: jw_bytes_def Let_def jw_put_def)
  then show "writes opts (jcalls (JI_bytes e bs)) (with_prefix (prefix_text opts w) (jtext opts d (JI_bytes e bs))) False w"
    using q [of "bytes_text e bs ''''"] by (simp add: writes_def)
qed

lemma fills_Nil: "fills opts [] (Inr '''') False w"
  by (simp add: fills_def)

lemma fills_append:
  assumes "writes opts cs r1 False w"
    and "\<And>t w'. r1 = Inr t \<Longrightarrow> wrote t False w w' \<Longrightarrow> fills opts ds r2 n w'"
  shows "fills opts (cs @ ds) (case r1 of Inl e \<Rightarrow> Inl e | Inr t \<Rightarrow> case r2 of Inl e \<Rightarrow> Inl e | Inr u \<Rightarrow> Inr (t @ u)) True w"
proof (cases r1)
  case (Inl e)
  then show ?thesis using assms(1) by (simp add: fills_def writes_def run_jsink_append)
next
  case (Inr t)
  then obtain w' where w': "run_jsink opts cs w = Inr w'" "wrote t False w w'" using assms(1) by (auto simp: writes_def)
  from assms(2) [OF Inr w'(2)] show ?thesis
  proof (cases r2)
    case Inl': (Inl e)
    with \<open>fills opts ds r2 n w'\<close> Inr w' show ?thesis by (simp add: fills_def run_jsink_append)
  next
    case Inr': (Inr u)
    with \<open>fills opts ds r2 n w'\<close> obtain w'' where "run_jsink opts ds w' = Inr w''" "if n then wrote u False w' w'' else w'' = w' \<and> u = ''''"
      by (auto simp: fills_def)
    moreover then have "wrote (t @ u) False w w''" using wrote_trans [OF w'(2)] w'(2) by (auto split: if_splits)
    ultimately show ?thesis using Inr Inr' w' by (simp add: fills_def run_jsink_append)
  qed
qed

lemma writes_entry:
  assumes "jok opts w" "\<And>kt w'. key_text opts k = Inr kt \<Longrightarrow> jok opts w' \<Longrightarrow> jw_depth w' = jw_depth w \<Longrightarrow> writes opts cs (with_prefix (prefix_text opts w') r) False w'"
  shows "writes opts (key_call k # cs)
    (case key_text opts k of Inl e \<Rightarrow> Inl e
     | Inr kt \<Rightarrow> with_prefix (prefix_text opts w @ kt @ colon_text opts) r) False w"
proof -
  have "writes opts ([key_call k] @ cs)
    (case key_text opts k of Inl e \<Rightarrow> Inl e | Inr kt \<Rightarrow> with_prefix (prefix_text opts w @ kt @ colon_text opts) r) False w"
  proof (rule writes_append [OF writes_key [OF assms(1), of k]])
    fix t w'
    assume kt: "(case key_text opts k of Inl e \<Rightarrow> Inl e | Inr t \<Rightarrow> Inr (prefix_text opts w @ t @ colon_text opts)) = Inr t"
      and w': "wrote t True w w'"
    obtain u where "key_text opts k = Inr u" using kt by (cases "key_text opts k") auto
    moreover have "prefix_text opts w' = ''''" "jok opts w'" "jw_depth w' = jw_depth w"
      using w' wrote_jok [OF w' assms(1)] by (simp_all add: wrote_def prefix_text_def)
    ultimately show "writes opts cs r False w'" using assms(2) [of u w'] by (cases r) simp_all
  next
    show "(case key_text opts k of Inl e \<Rightarrow> Inl e | Inr kt \<Rightarrow> with_prefix (prefix_text opts w @ kt @ colon_text opts) r) =
      (case case key_text opts k of Inl e \<Rightarrow> Inl e | Inr t \<Rightarrow> Inr (prefix_text opts w @ t @ colon_text opts) of Inl e \<Rightarrow> Inl e
       | Inr t \<Rightarrow> case r of Inl e \<Rightarrow> Inl e | Inr u \<Rightarrow> Inr (t @ u))"
      by (cases "key_text opts k"; cases r) simp_all
  qed (rule refl)
  then show ?thesis by simp
qed

lemma writes_all:
  "jok opts w \<Longrightarrow> jw_depth w = d \<Longrightarrow> writes opts (jcalls x) (with_prefix (prefix_text opts w) (jtext opts d x)) False w"
  "jok opts w \<Longrightarrow> jw_depth w = d \<Longrightarrow> 0 < d \<Longrightarrow> \<not> jw_after_key w \<Longrightarrow> jw_first w ! d = first
     \<Longrightarrow> fills opts (jcalls_list xs) (jtext_list opts d first xs) (xs \<noteq> []) w"
  "jok opts w \<Longrightarrow> jw_depth w = d \<Longrightarrow> 0 < d \<Longrightarrow> \<not> jw_after_key w \<Longrightarrow> jw_first w ! d = first
     \<Longrightarrow> fills opts (jcalls_entries es) (jtext_entries opts d first es) (es \<noteq> []) w"
proof (induction opts d x and opts d first xs and opts d first es arbitrary: w and w and w
    rule: jtext_jtext_list_jtext_entries.induct)
  case (8 opts d t x)
  have "writes opts (JC_tag t # jcalls x) r False w \<longleftrightarrow> writes opts (jcalls x) r False w" for r
    by (simp add: writes_def split: sum.splits)
  with 8 show ?case by simp
next
  case (9 opts d xs)
  have "writes opts (JC_begin_array # jcalls_list xs @ [JC_end_array])
    (if jo_max_depth opts \<le> jw_depth w then Inl (json_depth_error opts)
     else case jtext_list opts (d + 1) True xs of Inl e \<Rightarrow> Inl e
       | Inr t \<Rightarrow> Inr (prefix_text opts w @ [CHR ''[''] @ t @ close_text opts (jw_depth w) (\<not> xs \<noteq> []) @ [CHR '']''])) False w"
  proof (rule fills_container [OF 9(2)])
    fix w1
    assume "jw_depth w < jo_max_depth opts" "jok opts w1" "jw_depth w1 = jw_depth w + 1" "\<not> jw_after_key w1" "jw_first w1 ! jw_depth w1"
    then show "fills opts (jcalls_list xs) (jtext_list opts (d + 1) True xs) (xs \<noteq> []) w1"
      by (intro 9(1)) (use 9(3) in auto)
  qed simp_all
  then show ?case using 9(3) by (auto split: sum.splits)
next
  case (10 opts d es)
  have "writes opts (JC_begin_map # jcalls_entries es @ [JC_end_map])
    (if jo_max_depth opts \<le> jw_depth w then Inl (json_depth_error opts)
     else case jtext_entries opts (d + 1) True es of Inl e \<Rightarrow> Inl e
       | Inr t \<Rightarrow> Inr (prefix_text opts w @ [CHR ''{''] @ t @ close_text opts (jw_depth w) (\<not> es \<noteq> []) @ [CHR ''}''])) False w"
  proof (rule fills_container [OF 10(2)])
    fix w1
    assume "jw_depth w < jo_max_depth opts" "jok opts w1" "jw_depth w1 = jw_depth w + 1" "\<not> jw_after_key w1" "jw_first w1 ! jw_depth w1"
    then show "fills opts (jcalls_entries es) (jtext_entries opts (d + 1) True es) (es \<noteq> []) w1"
      by (intro 10(1)) (use 10(3) in auto)
  qed simp_all
  then show ?case using 10(3) by (auto split: sum.splits)
next
  case (12 opts d first x xs)
  have p: "prefix_text opts w = sep_text opts d first" using 12 by (simp add: prefix_text_def)
  have "fills opts (jcalls x @ jcalls_list xs)
    (case with_prefix (prefix_text opts w) (jtext opts d x) of Inl e \<Rightarrow> Inl e
     | Inr t \<Rightarrow> case jtext_list opts d False xs of Inl e \<Rightarrow> Inl e | Inr u \<Rightarrow> Inr (t @ u)) True w"
  proof (rule fills_append [OF 12(1) [OF 12(3,4)]])
    fix t w'
    assume r: "with_prefix (prefix_text opts w) (jtext opts d x) = Inr t" and w': "wrote t False w w'"
    obtain t0 where t0: "jtext opts d x = Inr t0" using r by (cases "jtext opts d x") auto
    show "fills opts (jcalls_list xs) (jtext_list opts d False xs) (xs \<noteq> []) w'"
      by (rule 12(2) [OF t0]) (use w' wrote_jok [OF w' 12(3)] 12(4,5) in \<open>auto simp: wrote_def\<close>)
  qed
  then show ?case by (cases "jtext opts d x"; cases "jtext_list opts d False xs") (simp_all add: p)
next
  case (14 opts d first k x es)
  have p: "prefix_text opts w = sep_text opts d first" using 14 by (simp add: prefix_text_def)
  have "fills opts ((key_call k # jcalls x) @ jcalls_entries es)
    (case (case key_text opts k of Inl e \<Rightarrow> Inl e | Inr kt \<Rightarrow> with_prefix (prefix_text opts w @ kt @ colon_text opts) (jtext opts d x))
     of Inl e \<Rightarrow> Inl e
     | Inr t \<Rightarrow> case jtext_entries opts d False es of Inl e \<Rightarrow> Inl e | Inr u \<Rightarrow> Inr (t @ u)) True w"
  proof (rule fills_append [OF writes_entry [OF 14(3)]])
    fix kt w'
    assume kt: "key_text opts k = Inr kt" and w': "jok opts w'" "jw_depth w' = jw_depth w"
    show "writes opts (jcalls x) (with_prefix (prefix_text opts w') (jtext opts d x)) False w'"
      by (rule 14(1) [OF kt w'(1)]) (use w'(2) 14(4) in simp)
  next
    fix t w'
    assume r: "(case key_text opts k of Inl e \<Rightarrow> Inl e | Inr kt \<Rightarrow> with_prefix (prefix_text opts w @ kt @ colon_text opts) (jtext opts d x)) = Inr t"
      and w': "wrote t False w w'"
    obtain kt t0 where "key_text opts k = Inr kt" "jtext opts d x = Inr t0"
      using r by (cases "key_text opts k"; cases "jtext opts d x") auto
    then show "fills opts (jcalls_entries es) (jtext_entries opts d False es) (es \<noteq> []) w'"
      by (rule 14(2)) (use w' wrote_jok [OF w' 14(3)] 14(4,5) in \<open>auto simp: wrote_def\<close>)
  qed
  then show ?case
    by (cases "key_text opts k"; cases "jtext opts d x"; cases "jtext_entries opts d False es") (simp_all add: p)
qed (use writes_scalar fills_Nil in auto)

lemma new_jwriter_ok: "jok opts (new_jwriter opts out)" "jw_depth (new_jwriter opts out) = 0" "jw_out (new_jwriter opts out) = out"
  "prefix_text opts (new_jwriter opts out) = ''''"
  by (simp_all add: jok_def new_jwriter_def prefix_text_def)

text \<open>C24. The JSON sink refines the recursive reference: for every value and all options, pretty or compact,
  the calls that describe the value append exactly the reference text to the output, with commas,
  newlines, indentation and colons where they belong, or stop with exactly the reference's error, for
  nesting beyond \<^verbatim>\<open>max_depth\<close> or malformed UTF-8.\<close>

theorem json_encode_append_correct:
  "json_encode_append opts (jcalls x) out =
     (case jtext opts 0 x of Inl e \<Rightarrow> Inl e | Inr t \<Rightarrow> Inr (out @ t))"
proof -
  have "writes opts (jcalls x) (jtext opts 0 x) False (new_jwriter opts out)"
    using writes_all(1) [where w = "new_jwriter opts out" and opts = opts and d = 0 and x = x, OF new_jwriter_ok(1,2)]
      new_jwriter_ok(4) [of opts out]
    by (cases "jtext opts 0 x") simp_all
  then show ?thesis
    by (cases "jtext opts 0 x") (auto simp: writes_def json_encode_append_def wrote_def new_jwriter_ok)
qed

section \<open>Bounds of the sink\<close>

text \<open>The calls of a client that closes no more containers than it opened.\<close>

fun closes_call :: "jcall \<Rightarrow> bool" where
  "closes_call JC_end_array = True"
| "closes_call JC_end_map = True"
| "closes_call _ = False"

definition jw_bounds :: "json_options \<Rightarrow> jwriter \<Rightarrow> bool" where
  "jw_bounds opts w \<longleftrightarrow> jw_depth w \<le> jo_max_depth opts \<and> length (jw_first w) = jo_max_depth opts + 2"

lemma before_value_bounds:
  "jw_bounds opts w \<Longrightarrow> jw_bounds opts (before_value opts w) \<and> jw_depth (before_value opts w) = jw_depth w
     \<and> (\<exists>s. jw_out (before_value opts w) = jw_out w @ s)"
  by (simp add: jw_bounds_def before_value_def newline_def Let_def)

lemma jw_bounds_out: "jw_bounds opts (w\<lparr>jw_out := s\<rparr>) \<longleftrightarrow> jw_bounds opts w" "jw_bounds opts (w\<lparr>jw_after_key := k\<rparr>) \<longleftrightarrow> jw_bounds opts w"
  by (simp_all add: jw_bounds_def)

lemma jw_string_bounds:
  "jw_string opts t w = Inr w' \<Longrightarrow> jw_bounds opts w \<Longrightarrow> jw_bounds opts w' \<and> jw_depth w' = jw_depth w \<and> (\<exists>s. jw_out w' = jw_out w @ s)"
  by (auto simp: jw_string_def write_string_quoted jw_bounds_def split: if_splits)

lemma jsink_step_bounds:
  assumes "jsink_step opts c w = Inr w'" "jw_bounds opts w" "closes_call c \<Longrightarrow> 0 < jw_depth w"
  shows "jw_bounds opts w' \<and> (\<exists>s. jw_out w' = jw_out w @ s)"
proof -
  note b = before_value_bounds [OF assms(2)]
  have bt: "\<exists>s. bytes_text e bs o1 = o1 @ s" for e bs o1
    by (cases e) (simp_all add: bytes_text_def base64_encode_def hex_encode_def)
  have str: "jw_string opts t (before_value opts w) = Inr v \<Longrightarrow> jw_bounds opts v \<and> (\<exists>s. jw_out v = jw_out w @ s)" for t v
    using jw_string_bounds [of opts t "before_value opts w" v] b by auto
  show ?thesis
  proof (cases c)
    case (JC_bytes e bs)
    then show ?thesis using assms(1) b bt [of e bs "jw_out (before_value opts w) @ [CHR 0x22]"]
      by (auto simp: jw_bytes_def Let_def jw_bounds_def)
  next
    case (JC_text t)
    then show ?thesis using assms(1) str by simp
  next
    case (JC_key k)
    then obtain v where "jw_string opts k (before_value opts w) = Inr v" "w' = after_key_text opts v"
      using assms(1) by (auto simp: jw_key_text_def split: sum.splits)
    then show ?thesis using str [of k v] by (auto simp: after_key_text_def jw_bounds_def)
  next
    case JC_begin_array
    then show ?thesis using assms(1) b by (auto simp: jw_open_def Let_def jw_bounds_def split: if_splits)
  next
    case JC_begin_map
    then show ?thesis using assms(1) b by (auto simp: jw_open_def Let_def jw_bounds_def split: if_splits)
  next
    case JC_end_array
    then show ?thesis using assms by (auto simp: jw_close_def newline_def Let_def jw_bounds_def)
  next
    case JC_end_map
    then show ?thesis using assms by (auto simp: jw_close_def newline_def Let_def jw_bounds_def)
  qed (use assms(1,2) b in \<open>auto simp: jw_bounds_def Let_def write_uint_def write_sint_def write_real_json_def jw_quoted_def
      after_key_text_def jw_prepared_key_def split: if_splits\<close>)
qed

text \<open>Reachable states of a sink, under calls that never close with nothing open.\<close>

inductive jreachable :: "json_options \<Rightarrow> string \<Rightarrow> jwriter \<Rightarrow> bool" for opts out where
  jreach_new: "jreachable opts out (new_jwriter opts out)"
| jreach_step: "jreachable opts out w \<Longrightarrow> (closes_call c \<Longrightarrow> 0 < jw_depth w) \<Longrightarrow> jsink_step opts c w = Inr w'
    \<Longrightarrow> jreachable opts out w'"

text \<open>C29. Safety of the sink: whatever calls are made, as long as nothing is closed that is not open, the
  depth stays within \<^verbatim>\<open>max_depth\<close>, so every access to the array of \<^verbatim>\<open>max_depth + 2\<close> flags (at the current depth
  and one above it) is in bounds, and text already written is never changed.\<close>

theorem json_sink_safe:
  assumes "jreachable opts out w"
  shows "jw_depth w + 1 < length (jw_first w) \<and> jw_depth w \<le> jo_max_depth opts \<and> (\<exists>s. jw_out w = out @ s)"
proof -
  have "jw_bounds opts w \<and> (\<exists>s. jw_out w = out @ s)"
    using assms
  proof (induction rule: jreachable.induct)
    case jreach_new
    then show ?case by (simp add: jw_bounds_def new_jwriter_def)
  next
    case (jreach_step w c w')
    then show ?case using jsink_step_bounds [of opts c w w'] by auto
  qed
  then show ?thesis by (auto simp: jw_bounds_def)
qed

theorem json_sink_safe_witness:
  "\<exists>w. jsink_step json_defaults JC_begin_array (new_jwriter json_defaults '''') = Inr w \<and> jw_depth w + 1 < length (jw_first w)"
proof -
  obtain w where w: "jsink_step json_defaults JC_begin_array (new_jwriter json_defaults '''') = Inr w"
    by (simp add: jw_open_def before_value_def new_jwriter_def json_defaults_def)
  have "jreachable json_defaults '''' w"
    by (rule jreach_step [OF jreach_new _ w]) simp
  from json_sink_safe [OF this] w show ?thesis by blast
qed

end
