(* ===== verification/Json_Read.thy ===== *)
theory Json_Read
  imports Json_Write
begin

text \<open>
  \<^verbatim>\<open>json/read.hpp\<close>: the type-directed JSON reader over a whole buffer, the generic validator \<open>jskip_value\<close>,
  and the decode entry points. The reader is a record; every operation returns its result and the new
  reader. The format-independent decoder that drives the reader is a parameter of the entry points.
\<close>

record jreader =
  j_in :: string
  j_pos :: nat
  j_depth :: nat
  j_scratch :: string
  j_key_scratch :: string
  j_bytes_scratch :: bytes
  j_collected :: "error list"

definition new_jreader :: "string \<Rightarrow> jreader" where
  "new_jreader inp = \<lparr>j_in = inp, j_pos = 0, j_depth = 0, j_scratch = '''', j_key_scratch = '''', j_bytes_scratch = [],
     j_collected = []\<rparr>"

type_synonym 'a jread = "'a result \<times> jreader"

definition j_size :: "jreader \<Rightarrow> nat" where
  "j_size r = length (j_in r)"

definition j_cur :: "jreader \<Rightarrow> char" where
  "j_cur r = j_in r ! j_pos r"

definition j_advance :: "nat \<Rightarrow> jreader \<Rightarrow> jreader" where
  "j_advance n r = r\<lparr>j_pos := j_pos r + n\<rparr>"

definition substr :: "string \<Rightarrow> nat \<Rightarrow> nat \<Rightarrow> string" where
  "substr s p n = take n (drop p s)"

section \<open>Errors and positions\<close>

definition line_col_at :: "string \<Rightarrow> line_col" where
  "line_col_at s = foldl (\<lambda>lc c. if c = CHR 0x0A then lc\<lparr>line := line lc + 1, column := 1\<rparr> else lc\<lparr>column := column lc + 1\<rparr>)
     \<lparr>line = 1, column = 1\<rparr> s"

definition jerror :: "jreader \<Rightarrow> errc \<Rightarrow> nat \<Rightarrow> error" where
  "jerror r c off = with_position (line_col_at (take (if off < j_size r then off else j_size r) (j_in r))) (mk_error c off)"

definition is_ws :: "char \<Rightarrow> bool" where
  "is_ws c \<longleftrightarrow> c = CHR '' '' \<or> c = CHR 0x0A \<or> c = CHR 0x0D \<or> c = CHR 0x09"

function ws_end :: "string \<Rightarrow> nat \<Rightarrow> nat" where
  "ws_end s i = (if i < length s \<and> is_ws (s ! i) then ws_end s (i + 1) else i)"
  by auto
termination
  by (relation "measure (\<lambda>(s, i). length s - i)") auto

declare ws_end.simps [simp del]

definition skip_ws :: "jreader \<Rightarrow> jreader" where
  "skip_ws r = r\<lparr>j_pos := ws_end (j_in r) (j_pos r)\<rparr>"

definition j_offset :: "jreader \<Rightarrow> nat \<times> jreader" where
  "j_offset r = (j_pos (skip_ws r), skip_ws r)"

definition j_save :: "jreader \<Rightarrow> u64" where
  "j_save r = of_nat (j_pos r) OR push_bit 48 (of_nat (j_depth r))"

definition j_restore :: "u64 \<Rightarrow> jreader \<Rightarrow> jreader" where
  "j_restore s r = r\<lparr>j_pos := unat (s AND (push_bit 48 1 - 1)), j_depth := unat (drop_bit 48 s)\<rparr>"

definition j_at_end :: "jreader \<Rightarrow> bool \<times> jreader" where
  "j_at_end r = (let r1 = skip_ws r in (j_size r1 \<le> j_pos r1, r1))"

definition num_start :: "char \<Rightarrow> bool" where
  "num_start c \<longleftrightarrow> c = CHR ''-'' \<or> is_digit c"

definition j_peek :: "jreader \<Rightarrow> kind \<times> jreader" where
  "j_peek r0 =
     (let r = skip_ws r0; c = j_cur r in
      (if j_size r \<le> j_pos r then kind_undefined
       else if c = CHR ''n'' then kind_null
       else if c = CHR ''t'' \<or> c = CHR ''f'' then kind_boolean
       else if c = CHR 0x22 then kind_text
       else if c = CHR ''['' then kind_array
       else if c = CHR ''{'' then kind_map
       else if num_start c then
         (let n = scan_number (drop (j_pos r) (j_in r)) in if ns_kind n = kind_undefined then kind_real else ns_kind n)
       else kind_undefined, r))"

definition jfound_name :: "char \<Rightarrow> string" where
  "jfound_name c =
     (if c = CHR ''n'' then ''null''
      else if c = CHR ''t'' \<or> c = CHR ''f'' then ''boolean''
      else if c = CHR 0x22 then ''string''
      else if c = CHR ''['' then ''array''
      else if c = CHR ''{'' then ''object''
      else if num_start c then ''number''
      else '''')"

definition ends_token :: "char \<Rightarrow> bool" where
  "ends_token c \<longleftrightarrow> c = CHR '','' \<or> c = CHR ''}'' \<or> c = CHR '']'' \<or> c = CHR '':'' \<or> is_ws c \<or> c = CHR ''{'' \<or> c = CHR ''['' \<or> c = CHR 0x22"

definition token_length :: "jreader \<Rightarrow> nat" where
  "token_length r =
     (if j_pos r < j_size r \<and> j_cur r = CHR 0x22 then 1
      else let n = length (takeWhile (\<lambda>c. \<not> ends_token c) (drop (j_pos r) (j_in r))) in if 0 < n then n else 1)"

definition junexpected :: "string \<Rightarrow> jreader \<Rightarrow> error" where
  "junexpected ex r =
     (if j_size r \<le> j_pos r then with_expected ex (jerror r truncated (j_pos r))
      else with_length (token_length r) (with_expected ex (with_detail (substr (j_in r) (j_pos r) 1) (jerror r unexpected_token (j_pos r)))))"

definition literal_word :: "char \<Rightarrow> string" where
  "literal_word c = (if c = CHR ''t'' then ''true'' else if c = CHR ''f'' then ''false'' else ''null'')"

definition jtype_error :: "string \<Rightarrow> jreader \<Rightarrow> error" where
  "jtype_error ex r =
     (let c = j_cur r; w = literal_word c in
      if j_size r \<le> j_pos r then with_expected ex (jerror r truncated (j_pos r))
      else if jfound_name c = '''' then junexpected ex r
      else if (c = CHR ''t'' \<or> c = CHR ''f'' \<or> c = CHR ''n'') \<and> substr (j_in r) (j_pos r) (length w) \<noteq> w then junexpected ex r
      else with_length (token_length r) (with_found (jfound_name c) (with_expected ex (jerror r type_mismatch (j_pos r)))))"

definition mismatch :: "string \<Rightarrow> char \<Rightarrow> jreader \<Rightarrow> error option" where
  "mismatch ex want r = (if j_pos r < j_size r \<and> j_cur r = want then None else Some (jtype_error ex r))"

definition jdepth_error :: "json_options \<Rightarrow> jreader \<Rightarrow> error" where
  "jdepth_error opts r = with_length 1 (with_detail (dec_nat (jo_max_depth opts)) (jerror r depth_exceeded (j_pos r)))"

definition number_error :: "number_scan \<Rightarrow> jreader \<Rightarrow> error" where
  "number_error n r =
     (if ns_error n = out_of_range
      then with_length (ns_length n) (with_context ''double'' (with_detail (substr (j_in r) (j_pos r) (ns_length n)) (jerror r out_of_range (j_pos r))))
      else let len = token_length r in
        with_length len (with_detail (substr (j_in r) (j_pos r) len) (jerror r invalid_number (j_pos r))))"

definition jenter :: "json_options \<Rightarrow> jreader \<Rightarrow> unit jread" where
  "jenter opts r = (if jo_max_depth opts \<le> j_depth r then (Inl (jdepth_error opts r), r) else (Inr (), r\<lparr>j_depth := j_depth r + 1\<rparr>))"

definition literal :: "string \<Rightarrow> jreader \<Rightarrow> unit jread" where
  "literal w r =
     (if substr (j_in r) (j_pos r) (length w) = w then (Inr (), j_advance (length w) r)
      else if j_size r < j_pos r + length w \<and> drop (j_pos r) (j_in r) = take (j_size r - j_pos r) w then
        (Inl (with_expected (CHR 0x27 # w @ [CHR 0x27]) (jerror r truncated (j_size r))), r)
      else (Inl (junexpected (CHR 0x27 # w @ [CHR 0x27]) r), r))"

section \<open>Numbers\<close>

definition jnumber :: "string \<Rightarrow> jreader \<Rightarrow> number_scan result" where
  "jnumber ex r =
     (if j_size r \<le> j_pos r then Inl (with_expected ex (jerror r truncated (j_pos r)))
      else if \<not> num_start (j_cur r) then Inl (jtype_error ex r)
      else let n = scan_number (drop (j_pos r) (j_in r)) in
        if ns_kind n = kind_undefined then Inl (number_error n r) else Inr n)"

definition jrange_error :: "number_scan \<Rightarrow> jreader \<Rightarrow> error" where
  "jrange_error n r = with_length (ns_length n) (with_detail (substr (j_in r) (j_pos r) (ns_length n)) (jerror r out_of_range (j_pos r)))"

definition jinteger_error :: "number_scan \<Rightarrow> jreader \<Rightarrow> error" where
  "jinteger_error n r = with_length (ns_length n) (with_found ''number'' (with_expected ''integer'' (jerror r type_mismatch (j_pos r))))"

definition jexpect_uint :: "jreader \<Rightarrow> u64 jread" where
  "jexpect_uint r0 =
     (let r = skip_ws r0 in
      case jnumber ''integer'' r of
        Inl e \<Rightarrow> (Inl e, r)
      | Inr n \<Rightarrow>
          if ns_kind n = kind_uint then (Inr (ns_u n), j_advance (ns_length n) r)
          else if ns_kind n = kind_sint \<or> ns_overflow n then (Inl (jrange_error n r), r)
          else (Inl (jinteger_error n r), r))"

definition jexpect_sint :: "jreader \<Rightarrow> int jread" where
  "jexpect_sint r0 =
     (let r = skip_ws r0 in
      case jnumber ''integer'' r of
        Inl e \<Rightarrow> (Inl e, r)
      | Inr n \<Rightarrow>
          if ns_kind n = kind_sint then (Inr (ns_i n), j_advance (ns_length n) r)
          else if ns_kind n = kind_uint then
            (if 0x7FFFFFFFFFFFFFFF < ns_u n then (Inl (jrange_error n r), r)
             else (Inr (sint (ns_u n)), j_advance (ns_length n) r))
          else if ns_overflow n then (Inl (jrange_error n r), r)
          else (Inl (jinteger_error n r), r))"

text \<open>\<^verbatim>\<open>double(i)\<close> of a signed 64-bit integer.\<close>

definition double_of_int :: "int \<Rightarrow> u64" where
  "double_of_int i = mk_double (i < 0) (round_mag Double \<bar>i\<bar> 0)"

definition scan_to_double :: "number_scan \<Rightarrow> bool \<Rightarrow> u64" where
  "scan_to_double n dash =
     (if ns_kind n = kind_uint then double_of_u64 (ns_u n)
      else if ns_kind n = kind_sint then (if ns_i n = 0 \<and> dash then 0x8000000000000000 else double_of_int (ns_i n))
      else ns_d n)"

definition jexpect_real :: "jreader \<Rightarrow> u64 jread" where
  "jexpect_real r0 =
     (let r = skip_ws r0 in
      case jnumber ''number'' r of
        Inl e \<Rightarrow> (Inl e, r)
      | Inr n \<Rightarrow> (Inr (scan_to_double n (j_cur r = CHR ''-'')), j_advance (ns_length n) r))"

section \<open>Strings\<close>

definition unterminated :: "nat \<Rightarrow> jreader \<Rightarrow> error" where
  "unterminated opn r = with_length (j_size r - opn) (jerror r unterminated_string opn)"

definition control_error :: "nat \<Rightarrow> jreader \<Rightarrow> error" where
  "control_error i r = with_length 1 (with_expected ''escaped control character'' (with_detail ''control character'' (jerror r unexpected_token i)))"

definition raw_utf8_error :: "json_options \<Rightarrow> nat \<Rightarrow> nat \<Rightarrow> jreader \<Rightarrow> error option" where
  "raw_utf8_error opts opn i r =
     (if jo_validate_utf8 opts then
        map_option (\<lambda>bad. with_length 1 (jerror r invalid_utf8 (opn + 1 + bad))) (validate_utf8 (substr (j_in r) (opn + 1) (i - opn - 1)))
      else None)"

definition hex4_digit :: "char \<Rightarrow> int" where
  "hex4_digit c =
     (if in_range c (CHR ''0'') (CHR ''9'') then ord_int c - 48
      else if in_range c (CHR ''a'') (CHR ''f'') then ord_int c - 97 + 10
      else if in_range c (CHR ''A'') (CHR ''F'') then ord_int c - 65 + 10
      else - 1)"

fun hex4_loop :: "string \<Rightarrow> u32 \<Rightarrow> u32 option" where
  "hex4_loop [] v = Some v"
| "hex4_loop (c # cs) v = (if hex4_digit c < 0 then None else hex4_loop cs (push_bit 4 v OR word_of_int (hex4_digit c)))"

definition hex4 :: "string \<Rightarrow> nat \<Rightarrow> u32 option" where
  "hex4 s p = (if length s < p + 4 then None else hex4_loop (substr s p 4) 0)"

definition lone_error :: "string \<Rightarrow> nat \<Rightarrow> jreader \<Rightarrow> error" where
  "lone_error what i r = with_length 6 (with_detail what (jerror r invalid_escape i))"

text \<open>A \<^verbatim>\<open>\u\<close> escape at \<open>i\<close>: the characters it stands for and how many characters it takes.\<close>

definition unicode_escape :: "jreader \<Rightarrow> nat \<Rightarrow> (string \<times> nat) result" where
  "unicode_escape r i =
     (let s = j_in r; n = j_size r in
      case hex4 s (i + 2) of
        None \<Rightarrow> Inl (with_length (min 6 (n - i)) (with_detail (substr s i (min 6 (n - i))) (jerror r invalid_escape i)))
      | Some cp \<Rightarrow>
          if 0xD800 \<le> cp \<and> cp \<le> 0xDBFF then
            (if i + 11 < n \<and> i + 6 < n \<and> s ! (i + 6) = CHR 0x5C \<and> i + 7 < n \<and> s ! (i + 7) = CHR ''u'' then
               (case hex4 s (i + 8) of
                  Some lo \<Rightarrow>
                    if 0xDC00 \<le> lo \<and> lo \<le> 0xDFFF
                    then Inr (append_utf8 '''' (0x10000 + push_bit 10 (cp - 0xD800) + (lo - 0xDC00)), 12)
                    else Inl (lone_error ''lone high surrogate'' i r)
                | None \<Rightarrow> Inl (lone_error ''lone high surrogate'' i r))
             else Inl (lone_error ''lone high surrogate'' i r))
          else if 0xDC00 \<le> cp \<and> cp \<le> 0xDFFF then Inl (lone_error ''lone low surrogate'' i r)
          else Inr (append_utf8 '''' cp, 6))"

definition simple_escape :: "char \<Rightarrow> char option" where
  "simple_escape e =
     (if e = CHR 0x22 then Some (CHR 0x22) else if e = CHR 0x5C then Some (CHR 0x5C) else if e = CHR ''/'' then Some (CHR ''/'')
      else if e = CHR ''b'' then Some (CHR 0x08) else if e = CHR ''f'' then Some (CHR 0x0C) else if e = CHR ''n'' then Some (CHR 0x0A)
      else if e = CHR ''r'' then Some (CHR 0x0D) else if e = CHR ''t'' then Some (CHR 0x09) else None)"

definition escape_at :: "jreader \<Rightarrow> nat \<Rightarrow> (string \<times> nat) result" where
  "escape_at r i =
     (let e = j_in r ! (i + 1) in
      case simple_escape e of
        Some c \<Rightarrow> Inr ([c], 2)
      | None \<Rightarrow>
          if e = CHR ''u'' then unicode_escape r i
          else Inl (with_length 2 (with_detail (substr (j_in r) i 2) (jerror r invalid_escape i))))"

lemma escape_at_length: "escape_at r i = Inr (t, n) \<Longrightarrow> 2 \<le> n"
  by (auto simp: escape_at_def unicode_escape_def Let_def split: option.splits if_splits)

definition flush :: "string \<Rightarrow> nat \<Rightarrow> nat \<Rightarrow> string \<Rightarrow> string" where
  "flush s run stop sc = (if run < stop then sc @ substr s run (stop - run) else sc)"

function escaped_loop :: "json_options \<Rightarrow> jreader \<Rightarrow> nat \<Rightarrow> nat \<Rightarrow> nat \<Rightarrow> string \<Rightarrow> text_ref jread" where
  "escaped_loop opts r opn i run sc =
     (if i < j_size r then
        let c = j_in r ! i in
        if c = CHR 0x22 then
          (let sc1 = flush (j_in r) run i sc; r1 = r\<lparr>j_scratch := sc1\<rparr> in
           case raw_utf8_error opts opn i r of
             Some e \<Rightarrow> (Inl e, r1)
           | None \<Rightarrow> (Inr \<lparr>t_text = sc1, t_borrowed = False, t_raw_length = i + 1 - opn\<rparr>, r1\<lparr>j_pos := i + 1\<rparr>))
        else if uchar c < 0x20 then (Inl (control_error i r), r\<lparr>j_scratch := sc\<rparr>)
        else if c \<noteq> CHR 0x5C then escaped_loop opts r opn (i + 1) run sc
        else
          let sc1 = flush (j_in r) run i sc in
          if j_size r \<le> i + 1 then (Inl (unterminated opn r), r\<lparr>j_scratch := sc1\<rparr>)
          else (case escape_at r i of
              Inl e \<Rightarrow> (Inl e, r\<lparr>j_scratch := sc1\<rparr>)
            | Inr (t, n) \<Rightarrow> escaped_loop opts r opn (i + n) (i + n) (sc1 @ t))
      else (Inl (unterminated opn r), r\<lparr>j_scratch := sc\<rparr>))"
  by pat_completeness auto
termination
proof (relation "measure (\<lambda>(opts, r, opn, i, run, sc). j_size r - i)", goal_cases)
  case (3 opts r opn i run sc c sc1 x t n)
  then have "escape_at r i = Inr (t, n)" by simp
  from escape_at_length [OF this] 3(1) show ?case by auto
qed auto

declare escaped_loop.simps [simp del]

definition parse_escaped_string :: "json_options \<Rightarrow> nat \<Rightarrow> nat \<Rightarrow> jreader \<Rightarrow> text_ref jread" where
  "parse_escaped_string opts opn first_escape r =
     escaped_loop opts r opn first_escape first_escape (substr (j_in r) (opn + 1) (first_escape - opn - 1))"

function plain_loop :: "json_options \<Rightarrow> jreader \<Rightarrow> nat \<Rightarrow> text_ref jread" where
  "plain_loop opts r i =
     (if i < j_size r then
        let c = j_in r ! i; opn = j_pos r in
        if c = CHR 0x22 then
          (case raw_utf8_error opts opn i r of
             Some e \<Rightarrow> (Inl e, r)
           | None \<Rightarrow> (Inr \<lparr>t_text = substr (j_in r) (opn + 1) (i - opn - 1), t_borrowed = True, t_raw_length = i + 1 - opn\<rparr>,
               r\<lparr>j_pos := i + 1\<rparr>))
        else if c = CHR 0x5C then parse_escaped_string opts opn i r
        else if uchar c < 0x20 then (Inl (control_error i r), r)
        else plain_loop opts r (i + 1)
      else (Inl (unterminated (j_pos r) r), r))"
  by pat_completeness auto
termination
  by (relation "measure (\<lambda>(opts, r, i). j_size r - i)") auto

declare plain_loop.simps [simp del]

definition parse_string :: "json_options \<Rightarrow> jreader \<Rightarrow> text_ref jread" where
  "parse_string opts r = plain_loop opts r (j_pos r + 1)"

section \<open>Scalars, strings and octets\<close>

definition jexpect_null :: "jreader \<Rightarrow> unit jread" where
  "jexpect_null r0 = (let r = skip_ws r0 in
     case mismatch ''null'' (CHR ''n'') r of Some e \<Rightarrow> (Inl e, r) | None \<Rightarrow> literal ''null'' r)"

definition jexpect_boolean :: "jreader \<Rightarrow> bool jread" where
  "jexpect_boolean r0 =
     (let r = skip_ws r0 in
      if j_pos r < j_size r \<and> j_cur r = CHR ''t'' then
        (case literal ''true'' r of (Inl e, r1) \<Rightarrow> (Inl e, r1) | (Inr _, r1) \<Rightarrow> (Inr True, r1))
      else if j_pos r < j_size r \<and> j_cur r = CHR ''f'' then
        (case literal ''false'' r of (Inl e, r1) \<Rightarrow> (Inl e, r1) | (Inr _, r1) \<Rightarrow> (Inr False, r1))
      else (Inl (jtype_error ''boolean'' r), r))"

definition quoted_mismatch :: "string \<Rightarrow> nat \<Rightarrow> jreader \<Rightarrow> error" where
  "quoted_mismatch t start r = with_length (length t + 2) (with_found ''string'' (with_expected ''integer'' (jerror r type_mismatch start)))"

definition quoted_range :: "string \<Rightarrow> nat \<Rightarrow> jreader \<Rightarrow> error" where
  "quoted_range t start r = with_detail t (jerror r out_of_range (start + 1))"

definition not_integer :: "string \<Rightarrow> bool" where
  "not_integer t = (let n = scan_number t in ns_kind n = kind_undefined \<or> ns_length n \<noteq> length t \<or> ns_kind n = kind_real)"

definition quoted_uint :: "json_options \<Rightarrow> jreader \<Rightarrow> u64 jread" where
  "quoted_uint opts r =
     (let start = j_pos r in
      case parse_string opts r of
        (Inl e, r1) \<Rightarrow> (Inl e, r1)
      | (Inr s, r1) \<Rightarrow>
          let n = scan_number (t_text s) in
          if not_integer (t_text s) then (Inl (quoted_mismatch (t_text s) start r1), r1\<lparr>j_pos := start\<rparr>)
          else if ns_kind n = kind_sint then (Inl (quoted_range (t_text s) start r1), r1\<lparr>j_pos := start\<rparr>)
          else (Inr (ns_u n), r1))"

definition quoted_sint :: "json_options \<Rightarrow> jreader \<Rightarrow> int jread" where
  "quoted_sint opts r =
     (let start = j_pos r in
      case parse_string opts r of
        (Inl e, r1) \<Rightarrow> (Inl e, r1)
      | (Inr s, r1) \<Rightarrow>
          let n = scan_number (t_text s) in
          if not_integer (t_text s) then (Inl (quoted_mismatch (t_text s) start r1), r1\<lparr>j_pos := start\<rparr>)
          else if ns_kind n = kind_uint then
            (if 0x7FFFFFFFFFFFFFFF < ns_u n then (Inl (quoted_range (t_text s) start r1), r1\<lparr>j_pos := start\<rparr>)
             else (Inr (sint (ns_u n)), r1))
          else (Inr (ns_i n), r1))"

definition jexpect_uint_field :: "json_options \<Rightarrow> bool \<Rightarrow> jreader \<Rightarrow> u64 jread" where
  "jexpect_uint_field opts as_string r0 =
     (let r = (if as_string then skip_ws r0 else r0) in
      if as_string \<and> j_pos r < j_size r \<and> j_cur r = CHR 0x22 then quoted_uint opts r else jexpect_uint r)"

definition jexpect_sint_field :: "json_options \<Rightarrow> bool \<Rightarrow> jreader \<Rightarrow> int jread" where
  "jexpect_sint_field opts as_string r0 =
     (let r = (if as_string then skip_ws r0 else r0) in
      if as_string \<and> j_pos r < j_size r \<and> j_cur r = CHR 0x22 then quoted_sint opts r else jexpect_sint r)"

definition jexpect_text :: "json_options \<Rightarrow> jreader \<Rightarrow> text_ref jread" where
  "jexpect_text opts r0 = (let r = skip_ws r0 in
     case mismatch ''string'' (CHR 0x22) r of Some e \<Rightarrow> (Inl e, r) | None \<Rightarrow> parse_string opts r)"

definition bytes_kind_name :: "bytes_encoding \<Rightarrow> string" where
  "bytes_kind_name enc = (case enc of enc_hex \<Rightarrow> ''hex string'' | enc_base64url \<Rightarrow> ''base64url string'' | enc_base64 \<Rightarrow> ''base64 string'')"

definition decode_bytes :: "json_options \<Rightarrow> bytes_encoding \<Rightarrow> jreader \<Rightarrow> bytes_ref jread" where
  "decode_bytes opts enc r0 =
     (let r = skip_ws r0; start = j_pos r in
      case mismatch ''string'' (CHR 0x22) r of Some e \<Rightarrow> (Inl e, r)
      | None \<Rightarrow>
        (case parse_string opts r of
           (Inl e, r1) \<Rightarrow> (Inl e, r1)
         | (Inr s, r1) \<Rightarrow>
             (case (if enc = enc_hex then hex_decode (t_text s) [] else base64_decode (t_text s) [] (enc = enc_base64url)) of
                (ok, bs) \<Rightarrow>
                  let r2 = r1\<lparr>j_bytes_scratch := bs\<rparr> in
                  if \<not> ok then
                    (Inl (with_length (length (t_text s) + 2) (with_found ''string'' (with_expected (bytes_kind_name enc) (jerror r2 type_mismatch start)))),
                     r2\<lparr>j_pos := start\<rparr>)
                  else (Inr \<lparr>b_bytes = bs, b_borrowed = False\<rparr>, r2))))"

section \<open>Containers\<close>

text \<open>A cursor is the flag that no element has been reached yet.\<close>

definition jexpect_array :: "json_options \<Rightarrow> jreader \<Rightarrow> bool jread" where
  "jexpect_array opts r0 = (let r = skip_ws r0 in
     case mismatch ''array'' (CHR ''['') r of Some e \<Rightarrow> (Inl e, r)
     | None \<Rightarrow> (case jenter opts r of (Inl e, r1) \<Rightarrow> (Inl e, r1) | (Inr _, r1) \<Rightarrow> (Inr True, j_advance 1 r1)))"

definition jexpect_map :: "json_options \<Rightarrow> jreader \<Rightarrow> bool jread" where
  "jexpect_map opts r0 = (let r = skip_ws r0 in
     case mismatch ''object'' (CHR ''{'') r of Some e \<Rightarrow> (Inl e, r)
     | None \<Rightarrow> (case jenter opts r of (Inl e, r1) \<Rightarrow> (Inl e, r1) | (Inr _, r1) \<Rightarrow> (Inr True, j_advance 1 r1)))"

text \<open>\<^verbatim>\<open>next\<close> of both cursors: they differ in the closing character and the words of the errors.\<close>

definition cursor_next :: "char \<Rightarrow> string \<Rightarrow> bool \<Rightarrow> jreader \<Rightarrow> (bool \<times> bool) jread" where
  "cursor_next close what first r0 =
     (let r = skip_ws r0 in
      if j_size r \<le> j_pos r then
        (Inl (with_expected (if first then what @ '' or '' @ [CHR 0x27, close, CHR 0x27]
            else [CHR 0x27, CHR '','', CHR 0x27] @ '' or '' @ [CHR 0x27, close, CHR 0x27]) (jerror r truncated (j_pos r))), r)
      else if j_cur r = close then (Inr (False, first), (j_advance 1 r)\<lparr>j_depth := j_depth r - 1\<rparr>)
      else if first then (Inr (True, False), r)
      else if j_cur r \<noteq> CHR '','' then
        (Inl (junexpected ([CHR 0x27, CHR '','', CHR 0x27] @ '' or '' @ [CHR 0x27, close, CHR 0x27]) r), r)
      else
        let r1 = skip_ws (j_advance 1 r) in
        if j_pos r1 < j_size r1 \<and> j_cur r1 = close then (Inl (junexpected what r1), r1)
        else (Inr (True, False), r1))"

definition jseq_next :: "bool \<Rightarrow> jreader \<Rightarrow> (bool \<times> bool) jread" where
  "jseq_next first r = cursor_next (CHR '']'') ''value'' first r"

definition jmap_next :: "bool \<Rightarrow> jreader \<Rightarrow> (bool \<times> bool) jread" where
  "jmap_next first r = cursor_next (CHR ''}'') ''key'' first r"

definition jkey_text :: "json_options \<Rightarrow> jreader \<Rightarrow> text_ref jread" where
  "jkey_text opts r0 =
     (let r = skip_ws r0 in
      if j_size r \<le> j_pos r then (Inl (with_expected ''key'' (jerror r truncated (j_pos r))), r)
      else if j_cur r \<noteq> CHR 0x22 then (Inl (junexpected ''key'' r), r)
      else case parse_string opts r of
          (Inl e, r1) \<Rightarrow> (Inl e, r1)
        | (Inr k, r1) \<Rightarrow>
            let r2 = skip_ws r1; colon = [CHR 0x27, CHR '':'', CHR 0x27] in
            if j_size r2 \<le> j_pos r2 then (Inl (with_expected colon (jerror r2 truncated (j_pos r2))), r2)
            else if j_cur r2 \<noteq> CHR '':'' then (Inl (junexpected colon r2), r2)
            else
              let r3 = j_advance 1 r2 in
              if t_borrowed k then (Inr k, r3)
              else (Inr (k\<lparr>t_text := j_scratch r3\<rparr>), r3\<lparr>j_key_scratch := j_scratch r3\<rparr>))"

definition jkey_integer :: "jreader \<Rightarrow> error" where
  "jkey_integer r = with_found ''string'' (jerror r non_text_key (j_pos r))"

section \<open>The generic validator\<close>

datatype jstate = want_value | want_key | after_value

text \<open>One round of the loop; the stack of open containers (\<^verbatim>\<open>is_object\<close> up to \<^verbatim>\<open>local\<close>) has the innermost first.\<close>

datatype joutcome = J_fail error jreader | J_done jreader | J_more jstate "bool list" jreader

definition close_char :: "bool \<Rightarrow> char" where
  "close_char obj = (if obj then CHR ''}'' else CHR '']'')"

definition jround_literal :: "string \<Rightarrow> bool list \<Rightarrow> jreader \<Rightarrow> joutcome" where
  "jround_literal w st r = (case literal w r of (Inl e, r1) \<Rightarrow> J_fail e r1 | (Inr _, r1) \<Rightarrow> J_more after_value st r1)"

definition jround_open :: "json_options \<Rightarrow> bool \<Rightarrow> bool list \<Rightarrow> jreader \<Rightarrow> joutcome" where
  "jround_open opts obj st r =
     (if jo_max_depth opts \<le> j_depth r + length st then J_fail (jdepth_error opts r) r
      else
        let r1 = skip_ws (j_advance 1 r) in
        if j_size r1 \<le> j_pos r1 then J_fail (jerror r1 truncated (j_pos r1)) r1
        else if j_cur r1 = close_char obj then J_more after_value st (j_advance 1 r1)
        else J_more (if obj then want_key else want_value) (obj # st) r1)"

definition jround_string :: "json_options \<Rightarrow> bool list \<Rightarrow> jreader \<Rightarrow> joutcome" where
  "jround_string opts st r = (case parse_string opts r of (Inl e, r1) \<Rightarrow> J_fail e r1 | (Inr _, r1) \<Rightarrow> J_more after_value st r1)"

definition jround_number :: "bool list \<Rightarrow> jreader \<Rightarrow> joutcome" where
  "jround_number st r =
     (let n = scan_number (drop (j_pos r) (j_in r)) in
      if ns_kind n = kind_undefined then J_fail (number_error n r) r else J_more after_value st (j_advance (ns_length n) r))"

definition jround_value :: "json_options \<Rightarrow> bool list \<Rightarrow> jreader \<Rightarrow> joutcome" where
  "jround_value opts st r =
     (let c = j_cur r in
      if c = CHR ''['' \<or> c = CHR ''{'' then jround_open opts (c = CHR ''{'') st r
      else if c = CHR 0x22 then jround_string opts st r
      else if c = CHR ''t'' then jround_literal ''true'' st r
      else if c = CHR ''f'' then jround_literal ''false'' st r
      else if c = CHR ''n'' then jround_literal ''null'' st r
      else if num_start c then jround_number st r
      else J_fail (junexpected ''value'' r) r)"

definition jround_key :: "json_options \<Rightarrow> bool list \<Rightarrow> jreader \<Rightarrow> joutcome" where
  "jround_key opts st r =
     (if j_cur r \<noteq> CHR 0x22 then J_fail (junexpected ''key'' r) r
      else case parse_string opts r of
          (Inl e, r1) \<Rightarrow> J_fail e r1
        | (Inr _, r1) \<Rightarrow>
            let r2 = skip_ws r1; colon = [CHR 0x27, CHR '':'', CHR 0x27] in
            if j_size r2 \<le> j_pos r2 then J_fail (with_expected colon (jerror r2 truncated (j_pos r2))) r2
            else if j_cur r2 \<noteq> CHR '':'' then J_fail (junexpected colon r2) r2
            else J_more want_value st (j_advance 1 r2))"

definition jround_after :: "bool list \<Rightarrow> jreader \<Rightarrow> joutcome" where
  "jround_after st r =
     (let obj = hd st in
      if j_cur r = CHR '','' then
        (let r1 = skip_ws (j_advance 1 r) in
         if j_pos r1 < j_size r1 \<and> (j_cur r1 = CHR ''}'' \<or> j_cur r1 = CHR '']'')
         then J_fail (junexpected (if obj then ''key'' else ''value'') r1) r1
         else J_more (if obj then want_key else want_value) st r1)
      else if j_cur r = close_char obj then J_more after_value (tl st) (j_advance 1 r)
      else J_fail (junexpected ([CHR 0x27, CHR '','', CHR 0x27] @ '' or '' @ [CHR 0x27, close_char obj, CHR 0x27]) r) r)"

definition jskip_step :: "json_options \<Rightarrow> jstate \<Rightarrow> bool list \<Rightarrow> jreader \<Rightarrow> joutcome" where
  "jskip_step opts s st r0 =
     (if s = after_value \<and> st = [] then J_done r0
      else
        let r = skip_ws r0 in
        if j_size r \<le> j_pos r then J_fail (jerror r truncated (j_pos r)) r
        else (case s of want_value \<Rightarrow> jround_value opts st r | want_key \<Rightarrow> jround_key opts st r | after_value \<Rightarrow> jround_after st r))"

text \<open>Every round that goes on has consumed input.\<close>

lemma j_advance_simps [simp]:
  "j_in (j_advance n r) = j_in r" "j_pos (j_advance n r) = j_pos r + n" "j_depth (j_advance n r) = j_depth r"
  "j_size (j_advance n r) = j_size r" "j_scratch (j_advance n r) = j_scratch r"
  by (simp_all add: j_advance_def j_size_def)

lemma ws_end_bounds: "i \<le> ws_end s i" "i \<le> length s \<Longrightarrow> ws_end s i \<le> length s"
proof -
  have "i \<le> ws_end s i \<and> (i \<le> length s \<longrightarrow> ws_end s i \<le> length s)"
  proof (induction s i rule: ws_end.induct)
    case (1 s i)
    then show ?case by (cases "i < length s \<and> is_ws (s ! i)") (simp_all only: ws_end.simps [of s i], auto)
  qed
  then show "i \<le> ws_end s i" "i \<le> length s \<Longrightarrow> ws_end s i \<le> length s" by auto
qed

lemma skip_ws_simps [simp]:
  "j_in (skip_ws r) = j_in r" "j_depth (skip_ws r) = j_depth r" "j_size (skip_ws r) = j_size r"
  by (simp_all add: skip_ws_def j_size_def)

lemma skip_ws_pos: "j_pos r \<le> j_pos (skip_ws r)"
  using ws_end_bounds(1) [of "j_pos r" "j_in r"] by (simp add: skip_ws_def)

lemma escaped_loop_bounds:
  assumes "escaped_loop opts r opn i run sc = (Inr t, r')"
  shows "j_in r' = j_in r \<and> j_depth r' = j_depth r \<and> i < j_pos r' \<and> j_pos r' \<le> j_size r"
  using assms
proof (induction opts r opn i run sc rule: escaped_loop.induct)
  case (1 opts r opn i run sc)
  let ?c = "j_in r ! i"
  have run: "escaped_loop opts r opn i run sc = (Inr t, r')" by (rule 1(3))
  have i: "i < j_size r" using run by (subst (asm) escaped_loop.simps) (simp split: if_splits)
  consider "?c = CHR 0x22" | "?c \<noteq> CHR 0x22" "uchar ?c < 0x20" | "?c \<noteq> CHR 0x22" "\<not> uchar ?c < 0x20" "?c \<noteq> CHR 0x5C"
    | "\<not> uchar ?c < 0x20" "?c = CHR 0x5C" by blast
  then show ?case
  proof cases
    case 1
    then show ?thesis using run i by (subst (asm) escaped_loop.simps) (auto simp: Let_def j_size_def split: option.splits)
  next
    case 2
    then show ?thesis using run i by (subst (asm) escaped_loop.simps) (simp add: Let_def)
  next
    case 3
    then have "escaped_loop opts r opn (i + 1) run sc = (Inr t, r')"
      using run i by (subst (asm) escaped_loop.simps) (simp add: Let_def)
    from "1.IH"(1) [OF i refl 3 this] show ?thesis by simp
  next
    case 4
    have nq: "?c \<noteq> CHR 0x22" "\<not> ?c \<noteq> CHR 0x5C" using 4(2) by simp_all
    have n1: "\<not> j_size r \<le> i + 1"
      using run i 4 by (subst (asm) escaped_loop.simps) (simp add: Let_def split: if_splits)
    obtain u n where e: "escape_at r i = Inr (u, n)" "escaped_loop opts r opn (i + n) (i + n) (flush (j_in r) run i sc @ u) = (Inr t, r')"
      using run i 4 n1 by (subst (asm) escaped_loop.simps) (auto simp: Let_def split: sum.splits prod.splits)
    from "1.IH"(2) [OF i refl nq(1) 4(1) nq(2) refl n1 e(1) refl e(2)] show ?thesis by simp
  qed
qed

lemma plain_loop_bounds:
  assumes "plain_loop opts r i = (Inr t, r')" "j_pos r < i"
  shows "j_in r' = j_in r \<and> j_depth r' = j_depth r \<and> j_pos r < j_pos r' \<and> j_pos r' \<le> j_size r"
  using assms
proof (induction opts r i rule: plain_loop.induct)
  case (1 opts r i)
  let ?c = "j_in r ! i"
  have run: "plain_loop opts r i = (Inr t, r')" by (rule 1(2))
  have i: "i < j_size r" using run by (subst (asm) plain_loop.simps) (simp split: if_splits)
  consider "?c = CHR 0x22" | "?c = CHR 0x5C" | "?c \<noteq> CHR 0x22" "?c \<noteq> CHR 0x5C" "uchar ?c < 0x20"
    | "?c \<noteq> CHR 0x22" "?c \<noteq> CHR 0x5C" "\<not> uchar ?c < 0x20" by blast
  then show ?case
  proof cases
    case 1
    then show ?thesis using run i "1.prems"(2) by (subst (asm) plain_loop.simps) (auto simp: Let_def j_size_def split: option.splits)
  next
    case 2
    then have "parse_escaped_string opts (j_pos r) i r = (Inr t, r')"
      using run i by (subst (asm) plain_loop.simps) (simp add: Let_def)
    then show ?thesis using escaped_loop_bounds "1.prems"(2) by (fastforce simp: parse_escaped_string_def)
  next
    case 3
    then show ?thesis using run i by (subst (asm) plain_loop.simps) (simp add: Let_def)
  next
    case 4
    then have "plain_loop opts r (i + 1) = (Inr t, r')"
      using run i by (subst (asm) plain_loop.simps) (simp add: Let_def)
    from "1.IH" [OF i refl refl 4(1,2,3) this] "1.prems"(2) show ?thesis by simp
  qed
qed

lemma parse_string_bounds:
  "parse_string opts r = (Inr t, r') \<Longrightarrow> j_in r' = j_in r \<and> j_depth r' = j_depth r \<and> j_pos r < j_pos r' \<and> j_pos r' \<le> j_size r"
  unfolding parse_string_def by (rule plain_loop_bounds) auto

lemma literal_bounds:
  assumes "literal w r = (Inr u, r')" "w \<noteq> []"
  shows "j_in r' = j_in r \<and> j_depth r' = j_depth r \<and> j_pos r < j_pos r' \<and> j_pos r' \<le> j_size r"
proof -
  have s: "substr (j_in r) (j_pos r) (length w) = w" "r' = j_advance (length w) r"
    using assms(1) by (auto simp: literal_def split: if_splits)
  then have "length (take (length w) (drop (j_pos r) (j_in r))) = length w" by (simp add: substr_def)
  then have "length w \<le> j_size r - j_pos r" by (simp add: j_size_def)
  then have "j_pos r + length w \<le> j_size r" using assms(2) by (cases w) auto
  with s(2) assms(2) show ?thesis by simp
qed

definition jprogress :: "jreader \<Rightarrow> joutcome \<Rightarrow> bool" where
  "jprogress r oc \<longleftrightarrow> (\<forall>s st r'. oc = J_more s st r' \<longrightarrow>
     j_in r' = j_in r \<and> j_depth r' = j_depth r \<and> j_pos r < j_pos r' \<and> j_pos r' \<le> j_size r)"

lemma jprogress_simps [simp]:
  "jprogress r (J_fail e r')" "jprogress r (J_done r')"
  "jprogress r (J_more s st r') \<longleftrightarrow> j_in r' = j_in r \<and> j_depth r' = j_depth r \<and> j_pos r < j_pos r' \<and> j_pos r' \<le> j_size r"
  by (simp_all add: jprogress_def)

lemma skip_ws_size: "j_pos r \<le> j_size r \<Longrightarrow> j_pos (skip_ws r) \<le> j_size r"
  using ws_end_bounds(2) by (simp add: skip_ws_def j_size_def)

lemma jround_literal_progress: "w \<noteq> [] \<Longrightarrow> jprogress r (jround_literal w st r)"
proof -
  assume w: "w \<noteq> []"
  obtain res r1 where "literal w r = (res, r1)" by (metis prod.exhaust)
  then show ?thesis using literal_bounds [OF _ w, of r _ r1] by (cases res) (simp_all add: jround_literal_def)
qed

lemma jround_open_progress:
  assumes "j_pos r < j_size r"
  shows "jprogress r (jround_open opts obj st r)"
proof -
  have "j_pos r < j_pos (skip_ws (j_advance 1 r))" "j_pos (skip_ws (j_advance 1 r)) \<le> j_size r"
    using skip_ws_pos [of "j_advance 1 r"] skip_ws_size [of "j_advance 1 r"] assms by simp_all
  then show ?thesis by (simp add: jround_open_def Let_def)
qed

lemma jround_string_progress: "jprogress r (jround_string opts st r)"
proof -
  obtain res r1 where "parse_string opts r = (res, r1)" by (metis prod.exhaust)
  then show ?thesis using parse_string_bounds [of opts r _ r1] by (cases res) (simp_all add: jround_string_def)
qed

lemma jround_number_progress: "j_pos r < j_size r \<Longrightarrow> jprogress r (jround_number st r)"
  using scan_number_length [of "drop (j_pos r) (j_in r)"] scan_number_defined [of "drop (j_pos r) (j_in r)"]
  by (auto simp: jround_number_def Let_def j_size_def)

lemmas jround_progress = jround_open_progress jround_string_progress jround_number_progress jround_literal_progress

lemma jround_value_progress: "j_pos r < j_size r \<Longrightarrow> jprogress r (jround_value opts st r)"
  by (simp add: jround_value_def Let_def jround_progress)

lemma jround_key_progress: "jprogress r (jround_key opts st r)"
proof -
  have "jprogress r (let r2 = skip_ws r1; colon = [CHR 0x27, CHR '':'', CHR 0x27] in
            if j_size r2 \<le> j_pos r2 then J_fail (with_expected colon (jerror r2 truncated (j_pos r2))) r2
            else if j_cur r2 \<noteq> CHR '':'' then J_fail (junexpected colon r2) r2
            else J_more want_value st (j_advance 1 r2))" if "parse_string opts r = (Inr t, r1)" for t r1
    using parse_string_bounds [OF that] skip_ws_pos [of r1] by (auto simp: Let_def j_size_def)
  then show ?thesis by (auto simp: jround_key_def split: prod.splits sum.splits)
qed

lemma jround_after_progress: "j_pos r < j_size r \<Longrightarrow> jprogress r (jround_after st r)"
  using skip_ws_pos [of "j_advance 1 r"] skip_ws_size [of "j_advance 1 r"] by (simp add: jround_after_def Let_def)

lemma jskip_step_progress: "jprogress r (jskip_step opts s st r)"
proof -
  have "jprogress (skip_ws r) oc \<Longrightarrow> jprogress r oc" for oc
    using skip_ws_simps [of r] skip_ws_pos [of r] unfolding jprogress_def by fastforce
  then show ?thesis
    using jround_value_progress [of "skip_ws r" opts st] jround_key_progress [of "skip_ws r" opts st] jround_after_progress [of "skip_ws r" st]
    by (cases s) (simp_all add: jskip_step_def Let_def)
qed

function jskip_loop :: "json_options \<Rightarrow> jstate \<Rightarrow> bool list \<Rightarrow> jreader \<Rightarrow> unit jread" where
  "jskip_loop opts s st r = (case jskip_step opts s st r of
     J_fail e r' \<Rightarrow> (Inl e, r') | J_done r' \<Rightarrow> (Inr (), r') | J_more s' st' r' \<Rightarrow> jskip_loop opts s' st' r')"
  by pat_completeness auto
termination
proof (relation "measure (\<lambda>(opts, s, st, r). j_size r - j_pos r)", goal_cases)
  case (2 opts s st r s' st' r')
  with jskip_step_progress [of r opts s st] show ?case by (auto simp: j_size_def intro: diff_less_mono2)
qed simp

declare jskip_loop.simps [simp del]

definition jskip_value :: "json_options \<Rightarrow> jreader \<Rightarrow> unit jread" where
  "jskip_value opts r = jskip_loop opts want_value [] r"

definition jfinish :: "jreader \<Rightarrow> unit jread" where
  "jfinish r0 = (let r = skip_ws r0 in
     if j_pos r < j_size r then (Inl (with_length 1 (jerror r trailing_content (j_pos r))), r) else (Inr (), r))"

section \<open>Entry points\<close>

type_synonym 't jengine = "json_options \<Rightarrow> 't \<Rightarrow> jreader \<Rightarrow> (status \<times> 't) \<times> jreader"

definition jdecode_into :: "'t jengine \<Rightarrow> json_options \<Rightarrow> 't \<Rightarrow> string \<Rightarrow> status \<times> 't" where
  "jdecode_into eng opts out0 inp =
     (case eng opts out0 (new_jreader inp) of
        ((Inl e, v), r) \<Rightarrow> (Inl e, v)
      | ((Inr _, v), r) \<Rightarrow>
          if jo_errors opts = collect \<and> j_collected r \<noteq> [] then (Inl (hd (j_collected r)), v)
          else (fst (jfinish r), v))"

definition jdecode :: "'t jengine \<Rightarrow> json_options \<Rightarrow> 't \<Rightarrow> string \<Rightarrow> 't result" where
  "jdecode eng opts out0 inp = (case jdecode_into eng opts out0 inp of (Inl e, v) \<Rightarrow> Inl e | (Inr _, v) \<Rightarrow> Inr v)"

definition jcollecting :: "json_options \<Rightarrow> json_options" where
  "jcollecting opts = opts\<lparr>jo_errors := collect\<rparr>"

definition jdecode_all :: "'t jengine \<Rightarrow> json_options \<Rightarrow> 't \<Rightarrow> string \<Rightarrow> 't \<times> error list" where
  "jdecode_all eng opts out0 inp =
     (case eng (jcollecting opts) out0 (new_jreader inp) of
        ((st, v), r) \<Rightarrow>
          (case st of Inl e \<Rightarrow> (v, j_collected r @ [finalize e])
           | Inr _ \<Rightarrow> (case jfinish r of (Inl f, _) \<Rightarrow> (v, j_collected r @ [f]) | (Inr _, _) \<Rightarrow> (v, j_collected r))))"

end
