(* ===== verification/Json_Round_Trip.thy ===== *)
theory Json_Round_Trip
  imports Json_Read
begin

text \<open>
  What the JSON writer writes, the JSON reader reads back: strings through escaping and unescaping,
  integers, and doubles through their shortest decimal text.
\<close>

section \<open>Escaped text\<close>

lemma chr_of_char [simp]: "chr (of_nat (of_char c)) = c"
  using chr_uchar [of c] by (simp add: uchar_def)

lemma needs_escape_ascii: "needs_escape c \<Longrightarrow> (of_char c :: nat) < 128"
proof -
  assume "needs_escape c"
  then consider "uchar c < 0x20" | "c = CHR 0x22" | "c = CHR 0x5C" by (auto simp: needs_escape_def)
  then show ?thesis
  proof cases
    case 1
    then have "unat (uchar c) < 32" by (simp add: word_less_nat_alt)
    then show ?thesis by simp
  qed simp_all
qed

lemma ascii_well_formed: "list_all (\<lambda>c. (of_char c :: nat) < 128) s \<Longrightarrow> well_formed_utf8 s"
proof (induction s)
  case (Cons c s)
  have "well_formed_utf8 [c]"
    using Cons.prems by (intro well_formed_utf8_one [of "of_char c"]) (simp_all add: scalar_value_def utf8_octets_def)
  from well_formed_utf8_append [OF this Cons.IH] Cons.prems show ?case by simp
qed simp

lemma escape_text_ascii_check:
  "\<forall>n\<in>set [0..<32]. list_all (\<lambda>c. (of_char c :: nat) < 128) (escape_text (chr (of_nat n)))"
  by code_simp

lemma escape_text_ascii:
  assumes "needs_escape c"
  shows "list_all (\<lambda>c. (of_char c :: nat) < 128) (escape_text c)"
proof -
  consider "uchar c < 0x20" | "c = CHR 0x22" | "c = CHR 0x5C" using assms by (auto simp: needs_escape_def)
  then show ?thesis
  proof cases
    case 1
    then have "unat (uchar c) \<in> set [0..<32]" by (simp add: word_less_nat_alt)
    from bspec [OF escape_text_ascii_check this] show ?thesis by simp
  qed (simp_all add: escape_text_def)
qed

lemma high_octets:
  assumes "scalar_value cp" "128 \<le> cp" "o1 \<in> set (utf8_octets cp)"
  shows "128 \<le> o1"
  using assms by (auto simp: utf8_octets_def split: if_splits)

text \<open>Escaping keeps UTF-8 well formed.\<close>

lemma escaped_well_formed: "well_formed_utf8 s \<Longrightarrow> well_formed_utf8 (concat (map escaped s))"
proof -
  assume "well_formed_utf8 s"
  then obtain cps where "list_all scalar_value cps" "map of_char s = concat (map utf8_octets cps)" by (auto simp: well_formed_utf8_def)
  then show ?thesis
  proof (induction cps arbitrary: s)
    case (Cons cp cps)
    let ?n = "length (utf8_octets cp)"
    have sp: "map of_char s = utf8_octets cp @ concat (map utf8_octets cps)" using Cons.prems(2) by simp
    note st = map_of_char_append_split [OF sp]
    have rest: "well_formed_utf8 (concat (map escaped (drop ?n s)))" using Cons.IH [OF _ st(2)] Cons.prems(1) by simp
    have first: "well_formed_utf8 (concat (map escaped (take ?n s)))"
    proof (cases "cp < 128")
      case True
      then have "map of_char (take ?n s) = [cp]" using st(1) by (simp add: utf8_octets_def)
      then obtain c where c: "take ?n s = [c]" "of_char c = cp" by (cases "take ?n s") auto
      show ?thesis
      proof (cases "needs_escape c")
        case True
        then show ?thesis using escape_text_ascii [OF True] c(1) by (simp add: escaped_def ascii_well_formed)
      next
        case False
        then show ?thesis using c \<open>cp < 128\<close> by (simp add: escaped_def ascii_well_formed)
      qed
    next
      case False
      have "\<not> needs_escape c" if "c \<in> set (take ?n s)" for c
      proof
        assume "needs_escape c"
        moreover have "(of_char c :: nat) \<in> set (map of_char (take ?n s))" using that by simp
        then have "of_char c \<in> set (utf8_octets cp)" by (simp only: st(1))
        ultimately show False using needs_escape_ascii [of c] high_octets [of cp "of_char c"] False Cons.prems(1) by fastforce
      qed
      then have "concat (map escaped (take ?n s)) = take ?n s" by (intro concat_singletons) (simp add: escaped_def)
      moreover have "well_formed_utf8 (take ?n s)" using st(1) Cons.prems(1) by (intro well_formed_utf8_one [of cp]) simp_all
      ultimately show ?thesis by simp
    qed
    have "concat (map escaped s) = concat (map escaped (take ?n s)) @ concat (map escaped (drop ?n s))"
      by (metis append_take_drop_id concat_append map_append)
    with well_formed_utf8_append [OF first rest] show ?case by simp
  qed simp
qed

section \<open>Unescaping\<close>

lemma hex4_control_check:
  "\<forall>n\<in>set [0..<32]. hex4_loop [CHR ''0'', CHR ''0'', hex_upper ! (n div 16), hex_upper ! (n mod 16)] 0 = Some (of_nat n)
     \<and> append_utf8 '''' (of_nat n) = [chr (of_nat n)]
     \<and> unat (drop_bit 4 (of_nat n :: byte)) = n div 16 \<and> unat ((of_nat n :: byte) AND 15) = n mod 16
     \<and> (of_nat n :: u32) < 0xD800"
  by code_simp

lemma nth_drop_prefix: "drop i s = xs @ ys \<Longrightarrow> k < length xs \<Longrightarrow> s ! (i + k) = xs ! k \<and> i + k < length s"
proof -
  assume d: "drop i s = xs @ ys" and k: "k < length xs"
  have len: "length s - i = length xs + length ys" using d by (metis length_append length_drop)
  then have "i + k < length s" using k by linarith
  moreover have "s ! (i + k) = drop i s ! k" using calculation by simp
  ultimately show ?thesis using d k by (simp add: nth_append)
qed

lemma substr_drop_prefix: "drop i s = xs @ ys \<Longrightarrow> substr s (i + k) n = take n (drop k (xs @ ys))"
  by (metis add.commute drop_drop substr_def)

text \<open>The reader's escape decoder undoes the writer's escapes.\<close>

lemma escape_at_escape_text:
  assumes "needs_escape c" "drop i (j_in r) = escape_text c @ rest"
  shows "escape_at r i = Inr ([c], length (escape_text c))"
proof -
  have two: "2 \<le> length (escape_text c)" by (simp add: escape_text_def)
  have e: "j_in r ! (i + 1) = escape_text c ! 1" using nth_drop_prefix [OF assms(2), of 1] two by simp
  show ?thesis
  proof (cases "length (escape_text c) = 2")
    case True
    then show ?thesis using e by (simp add: escape_at_def simple_escape_def escape_text_def split: if_splits)
  next
    case False
    define n where "n = unat (uchar c)"
    have c: "c = chr (of_nat n)" "n \<in> set [0..<32]"
      using assms(1) False by (auto simp: n_def needs_escape_def escape_text_def word_less_nat_alt split: if_splits)
    note chk = bspec [OF hex4_control_check c(2)]
    have et: "escape_text c = [CHR 0x5C, CHR ''u'', CHR ''0'', CHR ''0'', hex_upper ! (n div 16), hex_upper ! (n mod 16)]"
      using False chk by (simp add: escape_text_def c(1) split: if_splits)
    have len: "i + 6 \<le> length (j_in r)" using nth_drop_prefix [OF assms(2), of 5] et by simp
    have "substr (j_in r) (i + 2) 4 = [CHR ''0'', CHR ''0'', hex_upper ! (n div 16), hex_upper ! (n mod 16)]"
      using substr_drop_prefix [OF assms(2), of 2 4] et by simp
    then have h: "hex4 (j_in r) (i + 2) = Some (of_nat n)" using len chk by (simp add: hex4_def)
    have lt: "\<not> 0xD800 \<le> (of_nat n :: u32)" "\<not> 0xDC00 \<le> (of_nat n :: u32)"
      using chk by (auto simp: not_le intro: order.strict_trans2)
    have "unicode_escape r i = Inr ([c], 6)"
      unfolding unicode_escape_def Let_def h using lt chk c(1) by simp
    moreover have "simple_escape (CHR ''u'') = None" by (simp add: simple_escape_def)
    ultimately show ?thesis using e et by (simp add: escape_at_def)
  qed
qed

lemma flush_step: "run \<le> i \<Longrightarrow> i < length s \<Longrightarrow> flush s run (i + 1) sc = flush s run i sc @ [s ! i]"
  by (auto simp: flush_def substr_def take_Suc_conv_app_nth Suc_diff_le)

lemma flush_here [simp]: "flush s i i sc = sc"
  by (simp add: flush_def)

lemma drop_Cons: "drop i s = c # rest \<Longrightarrow> i < length s \<and> s ! i = c \<and> drop (i + 1) s = rest"
proof -
  assume d: "drop i s = c # rest"
  then have "i < length s" by (metis drop_all list.distinct(1) not_le_imp_less)
  with d show ?thesis by (metis Cons_nth_drop_Suc Suc_eq_plus1 list.inject)
qed

lemma escaped_clean: "\<not> needs_escape c \<Longrightarrow> c \<noteq> CHR 0x22 \<and> c \<noteq> CHR 0x5C \<and> \<not> uchar c < 0x20"
  by (auto simp: needs_escape_def)

lemma escaped_cases: "needs_escape c \<Longrightarrow> escaped c = escape_text c" "\<not> needs_escape c \<Longrightarrow> escaped c = [c]"
  by (simp_all add: escaped_def)

lemma drop_past: "drop p s = xs @ ys \<Longrightarrow> drop (p + length xs) s = ys"
  by (metis add.commute append_eq_conv_conj drop_drop)

lemma backslash_clean: "\<not> uchar (CHR 0x5C) < 0x20"
  by code_simp

lemma escape_text_head: "hd (escape_text c) = CHR 0x5C" "escape_text c \<noteq> []"
  by (simp_all add: escape_text_def)

lemma escaped_loop_quoted:
  assumes "drop i (j_in r) = concat (map escaped s) @ CHR 0x22 # rest" "run \<le> i"
    "raw_utf8_error opts opn (i + length (concat (map escaped s))) r = None"
  shows "escaped_loop opts r opn i run sc =
    (let t = flush (j_in r) run i sc @ s; q = i + length (concat (map escaped s)) in
     (Inr \<lparr>t_text = t, t_borrowed = False, t_raw_length = q + 1 - opn\<rparr>, r\<lparr>j_scratch := t, j_pos := q + 1\<rparr>))"
  using assms
proof (induction s arbitrary: i run sc)
  case Nil
  then show ?case
    using drop_Cons [of i "j_in r"] by (subst escaped_loop.simps) (simp add: Let_def j_size_def)
next
  case (Cons c s)
  show ?case
  proof (cases "needs_escape c")
    case False
    then have d: "i < length (j_in r)" "j_in r ! i = c" "drop (i + 1) (j_in r) = concat (map escaped s) @ CHR 0x22 # rest"
      using drop_Cons [of i "j_in r" c] Cons.prems(1) by (simp_all add: escaped_cases)
    have "escaped_loop opts r opn i run sc = escaped_loop opts r opn (i + 1) run sc"
      using d(1,2) escaped_clean [OF False] by (subst escaped_loop.simps) (simp add: Let_def j_size_def)
    with Cons.IH [OF d(3), of run sc] Cons.prems(2,3) flush_step [OF Cons.prems(2) d(1)] d(2) False show ?thesis
      by (simp add: escaped_cases)
  next
    case True
    let ?n = "length (escape_text c)"
    have pre: "drop i (j_in r) = escape_text c @ concat (map escaped s) @ CHR 0x22 # rest" using Cons.prems(1) True by (simp add: escaped_cases)
    have hd: "i < length (j_in r)" "j_in r ! i = CHR 0x5C"
      using nth_drop_prefix [OF pre, of 0] escape_text_head [of c] by (simp_all add: hd_conv_nth)
    have two: "2 \<le> ?n" by (simp add: escape_text_def)
    have len: "i + 1 < length (j_in r)" using nth_drop_prefix [OF pre, of 1] two by simp
    have d: "drop (i + ?n) (j_in r) = concat (map escaped s) @ CHR 0x22 # rest"
      by (rule drop_past [OF pre])
    have "escaped_loop opts r opn i run sc = escaped_loop opts r opn (i + ?n) (i + ?n) (flush (j_in r) run i sc @ [c])"
      using hd len escape_at_escape_text [OF True pre] backslash_clean by (subst escaped_loop.simps) (simp add: Let_def j_size_def)
    with Cons.IH [OF d order_refl] Cons.prems(3) True show ?thesis by (simp add: escaped_cases Let_def add.assoc)
  qed
qed

lemma substr_here: "drop p s = xs @ ys \<Longrightarrow> substr s p (length xs) = xs"
  by (simp add: substr_def)

text \<open>The plain loop runs to the closing quote, or hands over to the escaped one at the first escape.\<close>

lemma plain_loop_quoted:
  assumes "drop (j_pos r + 1) (j_in r) = s0 @ concat (map escaped s) @ CHR 0x22 # rest" "i = j_pos r + 1 + length s0"
    "raw_utf8_error opts (j_pos r) (i + length (concat (map escaped s))) r = None"
  shows "\<exists>b sc. plain_loop opts r i =
    (Inr \<lparr>t_text = s0 @ s, t_borrowed = b, t_raw_length = i + length (concat (map escaped s)) + 1 - j_pos r\<rparr>,
     r\<lparr>j_scratch := sc, j_pos := i + length (concat (map escaped s)) + 1\<rparr>)"
  using assms
proof (induction s arbitrary: s0 i)
  case Nil
  have "drop i (j_in r) = CHR 0x22 # rest" using drop_past [OF Nil(1)] Nil(2) by simp
  then have "i < length (j_in r)" "j_in r ! i = CHR 0x22" using drop_Cons [of i "j_in r"] by simp_all
  then have "plain_loop opts r i = (Inr \<lparr>t_text = s0, t_borrowed = True, t_raw_length = i + 1 - j_pos r\<rparr>, r\<lparr>j_pos := i + 1\<rparr>)"
  proof -
    have raw: "raw_utf8_error opts (j_pos r) i r = None" using Nil(3) by simp
    have sub: "substr (j_in r) (j_pos r + 1) (i - j_pos r - 1) = s0" using substr_here [OF Nil(1)] Nil(2) by simp
    show ?thesis
      using \<open>i < length (j_in r)\<close> \<open>j_in r ! i = CHR 0x22\<close>
      by (subst plain_loop.simps) (simp only: Let_def j_size_def raw sub if_True option.case refl)
  qed
  then show ?case by (intro exI [of _ True] exI [of _ "j_scratch r"]) simp
next
  case (Cons c s)
  have di: "drop i (j_in r) = escaped c @ concat (map escaped s) @ CHR 0x22 # rest"
    using drop_past [OF Cons.prems(1)] Cons.prems(2) by simp
  show ?case
  proof (cases "needs_escape c")
    case False
    then have d: "i < length (j_in r)" "j_in r ! i = c" using drop_Cons [of i "j_in r" c] di by (simp_all add: escaped_cases)
    have "plain_loop opts r i = plain_loop opts r (i + 1)"
      using d escaped_clean [OF False] by (subst plain_loop.simps) (simp add: Let_def j_size_def)
    moreover have "\<exists>b sc. plain_loop opts r (i + 1) =
      (Inr \<lparr>t_text = (s0 @ [c]) @ s, t_borrowed = b, t_raw_length = i + 1 + length (concat (map escaped s)) + 1 - j_pos r\<rparr>,
       r\<lparr>j_scratch := sc, j_pos := i + 1 + length (concat (map escaped s)) + 1\<rparr>)"
      by (rule Cons.IH) (use Cons.prems False in \<open>simp_all add: escaped_cases\<close>)
    ultimately show ?thesis using False by (simp add: escaped_cases)
  next
    case True
    have hd: "i < length (j_in r)" "j_in r ! i = CHR 0x5C"
      using nth_drop_prefix [OF di, of 0] escape_text_head [of c] True by (simp_all add: hd_conv_nth escaped_cases)
    have "substr (j_in r) (j_pos r + 1) (length s0) = s0" using substr_here [OF Cons.prems(1)] .
    then have "plain_loop opts r i = escaped_loop opts r (j_pos r) i i s0"
      using hd Cons.prems(2) by (subst plain_loop.simps) (simp add: Let_def j_size_def parse_escaped_string_def)
    also have "\<dots> = (let t = s0 @ c # s; q = i + length (concat (map escaped (c # s))) in
       (Inr \<lparr>t_text = t, t_borrowed = False, t_raw_length = q + 1 - j_pos r\<rparr>, r\<lparr>j_scratch := t, j_pos := q + 1\<rparr>))"
      using escaped_loop_quoted [of i r "c # s" rest i opts "j_pos r" s0] di Cons.prems(3) by simp
    finally show ?thesis
      unfolding Let_def by (intro exI [of _ False] exI [of _ "s0 @ c # s"]) simp
  qed
qed

lemma parse_string_quoted:
  assumes "drop (j_pos r) (j_in r) = quoted s @ rest" "jo_validate_utf8 opts \<Longrightarrow> well_formed_utf8 s"
  shows "\<exists>b sc. parse_string opts r =
    (Inr \<lparr>t_text = s, t_borrowed = b, t_raw_length = length (quoted s)\<rparr>, r\<lparr>j_scratch := sc, j_pos := j_pos r + length (quoted s)\<rparr>)"
proof -
  have d: "drop (j_pos r + 1) (j_in r) = [] @ concat (map escaped s) @ CHR 0x22 # rest"
    using drop_Cons [of "j_pos r" "j_in r" "CHR 0x22"] assms(1) by (simp add: quoted_def)
  let ?q = "j_pos r + 1 + length (concat (map escaped s))"
  have "substr (j_in r) (j_pos r + 1) (?q - j_pos r - 1) = concat (map escaped s)"
    using substr_here [of "j_pos r + 1" "j_in r" "concat (map escaped s)"] d by simp
  then have "raw_utf8_error opts (j_pos r) ?q r = None"
    using assms(2) escaped_well_formed [of s] validate_utf8_None_iff by (simp add: raw_utf8_error_def)
  from plain_loop_quoted [OF d _ this] show ?thesis by (simp add: parse_string_def quoted_def)
qed

lemma skip_ws_none: "j_pos r < j_size r \<Longrightarrow> \<not> is_ws (j_cur r) \<Longrightarrow> skip_ws r = r"
  by (simp add: skip_ws_def j_size_def j_cur_def ws_end.simps [of "j_in r" "j_pos r"])

lemma at_head:
  assumes "drop (j_pos r) (j_in r) = c # rest"
  shows "j_pos r < j_size r" "j_cur r = c"
  using drop_Cons [OF assms] by (simp_all add: j_size_def j_cur_def)

text \<open>C25. Strings survive: whatever text the writer accepts, with any characters, quotes, backslashes and control
  characters included, its quoted form is read back as that text, and the reader stops right after it.\<close>

theorem json_string_round_trip:
  assumes "write_string (jo_validate_utf8 opts) '''' s = Inr t" "drop (j_pos r) (j_in r) = t @ rest"
  shows "\<exists>b sc. jexpect_text opts r =
    (Inr \<lparr>t_text = s, t_borrowed = b, t_raw_length = length t\<rparr>, r\<lparr>j_scratch := sc, j_pos := j_pos r + length t\<rparr>)"
proof -
  have t: "t = quoted s" "jo_validate_utf8 opts \<Longrightarrow> well_formed_utf8 s"
    using assms(1) by (auto simp: write_string_quoted split: if_splits)
  have h: "j_pos r < j_size r" "j_cur r = CHR 0x22" using at_head [of r "CHR 0x22"] assms(2) t(1) by (simp_all add: quoted_def)
  have "skip_ws r = r" by (rule skip_ws_none) (use h in \<open>simp_all add: is_ws_def\<close>)
  moreover have "mismatch ''string'' (CHR 0x22) r = None" using h by (simp add: mismatch_def)
  ultimately have "jexpect_text opts r = parse_string opts r" by (simp add: jexpect_text_def)
  with parse_string_quoted [of r s rest opts] assms(2) t show ?thesis by simp
qed

theorem json_string_round_trip_witness:
  "\<exists>b sc. jexpect_text json_defaults (new_jreader [CHR 0x22, CHR 0x5C, CHR ''n'', CHR 0x22]) =
    (Inr \<lparr>t_text = [CHR 0x0A], t_borrowed = b, t_raw_length = 4\<rparr>,
     (new_jreader [CHR 0x22, CHR 0x5C, CHR ''n'', CHR 0x22])\<lparr>j_scratch := sc, j_pos := 4\<rparr>)"
proof -
  have "write_string True '''' [CHR 0x0A] = Inr [CHR 0x22, CHR 0x5C, CHR ''n'', CHR 0x22]" by code_simp
  with json_string_round_trip [of json_defaults "[CHR 0x0A]" "[CHR 0x22, CHR 0x5C, CHR ''n'', CHR 0x22]" "new_jreader [CHR 0x22, CHR 0x5C, CHR ''n'', CHR 0x22]" "[]"]
  show ?thesis by (simp add: json_defaults_def new_jreader_def eval_nat_numeral)
qed

section \<open>Numbers\<close>

lemma digit_not_ws: "is_digit c \<Longrightarrow> \<not> is_ws c"
  by (auto simp: is_digit_def is_ws_def)

lemma literal_head: "json_literal ip f x \<Longrightarrow> \<exists>c cs. lit_text neg ip f x = c # cs \<and> num_start c \<and> \<not> is_ws c \<and> (c = CHR ''-'' \<longleftrightarrow> neg)"
proof -
  assume "json_literal ip f x"
  then obtain d ds where d: "ip = d # ds" "is_digit d"
    by (cases ip) (auto simp: json_literal_def lit_ok_def digit_string_def)
  then have "d \<noteq> CHR ''-''" by auto
  then show ?thesis using d digit_not_ws [OF d(2)] by (auto simp: lit_text_def num_start_def is_ws_def)
qed

lemma jnumber_literal:
  assumes "json_literal ip f x" "drop (j_pos r) (j_in r) = lit_text neg ip f x @ rest" "stops rest"
    "ns_kind (scan_value (lit_text neg ip f x) neg (f \<noteq> None \<or> x \<noteq> None)) \<noteq> kind_undefined"
  shows "jnumber ex r = Inr (scan_value (lit_text neg ip f x) neg (f \<noteq> None \<or> x \<noteq> None))" "skip_ws r = r"
    "(j_cur r = CHR ''-'') = neg"
proof -
  obtain c cs where c: "lit_text neg ip f x = c # cs" "num_start c" "\<not> is_ws c" "c = CHR ''-'' \<longleftrightarrow> neg"
    using literal_head [OF assms(1)] by blast
  have h: "j_pos r < j_size r" "j_cur r = c" using at_head [of r c] assms(2) c(1) by simp_all
  show "skip_ws r = r" using skip_ws_none h c(3) by simp
  show "(j_cur r = CHR ''-'') = neg" using h c(4) by simp
  have "scan_number (drop (j_pos r) (j_in r)) = scan_value (lit_text neg ip f x) neg (f \<noteq> None \<or> x \<noteq> None)"
    unfolding assms(2) by (rule scan_number_literal [OF assms(1) stops_ends [OF assms(3)]])
  then show "jnumber ex r = Inr (scan_value (lit_text neg ip f x) neg (f \<noteq> None \<or> x \<noteq> None))"
    unfolding jnumber_def Let_def using h c(2) assms(4) by simp
qed

text \<open>An integer literal in 64 bits.\<close>

lemma scan_value_uint:
  assumes "digit_string ip" "digits_value ip < 2 ^ 64"
  shows "scan_value ip False False = no_number\<lparr>ns_kind := kind_uint, ns_length := length ip, ns_u := word_of_int (digits_value ip)\<rparr>"
proof -
  have "int_loop ip 0 = Some (word_of_int (digits_value ip))"
    using int_loop_exact [of ip 0] assms by (simp add: digit_string_def)
  then show ?thesis by (simp add: scan_value_def no_number_def)
qed

lemma scan_value_sint:
  assumes "digit_string ip" "digits_value ip \<le> 2 ^ 63"
  shows "scan_value (CHR ''-'' # ip) True False =
    no_number\<lparr>ns_kind := kind_sint, ns_length := Suc (length ip), ns_i := - digits_value ip\<rparr>"
proof -
  define n where "n = digits_value ip"
  have n: "0 \<le> n" "n \<le> 2 ^ 63" using assms digits_value_nonneg by (simp_all add: n_def digit_string_def)
  have "int_loop ip 0 = Some (word_of_int n)"
    using int_loop_exact [of ip 0] assms by (simp add: digit_string_def n_def)
  moreover have u: "uint (word_of_int n :: u64) = n" using n by (simp add: uint_word_of_int)
  moreover have "(word_of_int n :: u64) \<le> 0x7FFFFFFFFFFFFFFF + 1" using n u by (simp add: word_le_def)
  moreover have "(word_of_int n :: u64) = 0x7FFFFFFFFFFFFFFF + 1 \<longleftrightarrow> n = 2 ^ 63" using n u by (simp add: word_uint_eq_iff)
  moreover have "sint (word_of_int n :: u64) = n" if "n \<noteq> 2 ^ 63"
    using that n by (simp add: signed_take_bit_int_eq_self sint_sbintrunc')
  ultimately show ?thesis unfolding n_def [symmetric] by (simp add: scan_value_def no_number_def)
qed

lemma scan_value_overflow:
  assumes "digit_string ip" "\<not> neg \<and> 2 ^ 64 \<le> digits_value ip \<or> neg \<and> 2 ^ 63 < digits_value ip"
  shows "scan_value (if neg then CHR ''-'' # ip else ip) neg False =
    scan_real (if neg then CHR ''-'' # ip else ip) neg (no_number\<lparr>ns_length := length (if neg then CHR ''-'' # ip else ip), ns_overflow := True\<rparr>)"
proof -
  define n where "n = digits_value ip"
  have l: "int_loop ip 0 = (if n < 2 ^ 64 then Some (word_of_int n) else None)"
    using int_loop_exact [of ip 0] assms(1) by (simp add: digit_string_def n_def Let_def)
  have nn: "0 \<le> n" using assms(1) digits_value_nonneg by (simp add: n_def digit_string_def)
  have "\<not> (word_of_int n :: u64) \<le> 0x7FFFFFFFFFFFFFFF + 1" if "n < 2 ^ 64" "2 ^ 63 < n"
  proof -
    have "uint (word_of_int n :: u64) = n" using that nn by (simp add: uint_word_of_int)
    with that show ?thesis by (simp add: word_le_def)
  qed
  with l assms(2) show ?thesis unfolding n_def [symmetric] by (auto simp: scan_value_def Let_def)
qed

text \<open>C30. Integers survive the writer and the reader: the decimal text of any unsigned 64-bit integer is read back by
  \<^verbatim>\<open>expect_uint\<close>, and that of any signed integer from \<open>- 2 ^ 63\<close> below \<open>2 ^ 63\<close> by \<^verbatim>\<open>expect_sint\<close>, as that integer, and the
  reader stops right after it, whatever follows that does not continue a number (a digit, a dot, an \<open>e\<close> or \<open>E\<close>).\<close>

theorem json_integer_round_trip:
  assumes "stops rest"
  shows "(drop (j_pos r) (j_in r) = dec_u64 u @ rest \<longrightarrow> jexpect_uint r = (Inr u, j_advance (length (dec_u64 u)) r))
    \<and> (- (2 ^ 63) \<le> i \<and> i < 2 ^ 63 \<and> drop (j_pos r) (j_in r) = dec_int i @ rest
       \<longrightarrow> jexpect_sint r = (Inr i, j_advance (length (dec_int i)) r))"
proof (intro conjI impI)
  assume at: "drop (j_pos r) (j_in r) = dec_u64 u @ rest"
  have lt: "dec_u64 u = lit_text False (dec_digits (uint u)) None None"
    by (simp add: dec_u64_def lit_text_def frac_text_def exp_text_def)
  note js = json_literal_dec [of "uint u"]
  have dg: "digit_string (dec_digits (uint u))" "digits_value (dec_digits (uint u)) = uint u" "uint u < 2 ^ 64"
    using dec_digits_digits [of "uint u"] uint_lt2p [of u] by (simp_all add: digit_string_def digits_value_dec)
  have sv: "scan_value (dec_u64 u) False False = no_number\<lparr>ns_kind := kind_uint, ns_length := length (dec_u64 u), ns_u := u\<rparr>"
    using scan_value_uint [OF dg(1)] dg(2,3) by (simp add: dec_u64_def)
  from jnumber_literal [OF js _ assms, where r = r and neg = False] at lt sv
  have "jnumber ''integer'' r = Inr (scan_value (dec_u64 u) False False)" "skip_ws r = r" by (simp_all add: no_number_def)
  then show "jexpect_uint r = (Inr u, j_advance (length (dec_u64 u)) r)"
    using sv by (simp add: jexpect_uint_def Let_def no_number_def)
next
  assume i: "- (2 ^ 63) \<le> i \<and> i < 2 ^ 63 \<and> drop (j_pos r) (j_in r) = dec_int i @ rest"
  note lt = dec_int_lit [of i] and js = json_literal_dec [of "\<bar>i\<bar>"]
  have dg: "digit_string (dec_digits \<bar>i\<bar>)" "digits_value (dec_digits \<bar>i\<bar>) = \<bar>i\<bar>"
    using dec_digits_digits [of "\<bar>i\<bar>"] by (simp_all add: digit_string_def digits_value_dec)
  have sv: "scan_value (dec_int i) (i < 0) False = (if i < 0 then no_number\<lparr>ns_kind := kind_sint, ns_length := length (dec_int i), ns_i := i\<rparr>
      else no_number\<lparr>ns_kind := kind_uint, ns_length := length (dec_int i), ns_u := word_of_int i\<rparr>)"
    using scan_value_uint [OF dg(1)] scan_value_sint [OF dg(1)] dg(2) i by (cases "i < 0") (simp_all add: dec_int_def)
  then have kd: "ns_kind (scan_value (dec_int i) (i < 0) False) \<noteq> kind_undefined" by (simp add: no_number_def)
  from jnumber_literal [OF js _ assms, where r = r and neg = "i < 0"] i lt kd
  have n: "jnumber ''integer'' r = Inr (scan_value (dec_int i) (i < 0) False)" "skip_ws r = r" by simp_all
  have "uint (word_of_int i :: u64) = i" if "0 \<le> i" using that i by (simp add: uint_word_of_int)
  then have "\<not> (0x7FFFFFFFFFFFFFFF :: u64) < word_of_int i" if "0 \<le> i" using that i by (simp add: word_less_def)
  moreover have "sint (word_of_int i :: u64) = i" using i by (simp add: signed_take_bit_int_eq_self sint_sbintrunc')
  ultimately show "jexpect_sint r = (Inr i, j_advance (length (dec_int i)) r)"
    using n sv by (simp add: jexpect_sint_def Let_def no_number_def)
qed

theorem json_integer_round_trip_witness:
  "jexpect_sint (new_jreader ''-42]'') = (Inr (- 42), j_advance 3 (new_jreader ''-42]''))
   \<and> jexpect_uint (new_jreader ''42]'') = (Inr 42, j_advance 2 (new_jreader ''42]''))"
proof -
  have s: "dec_int (- 42) = ''-42''" "dec_u64 42 = ''42''" "stops '']''" by code_simp+
  with json_integer_round_trip [of "'']''" "new_jreader ''-42]''" 0 "- 42"] json_integer_round_trip [of "'']''" "new_jreader ''42]''" 42 0]
  show ?thesis by (simp add: new_jreader_def eval_nat_numeral)
qed

text \<open>A double that is written is scanned as a number that converts back to it.\<close>

lemma scan_real_from:
  "from_chars_double lit = Some d \<Longrightarrow> scan_real lit neg r = r\<lparr>ns_d := d, ns_kind := kind_real\<rparr>"
  by (simp add: scan_real_def)

lemma to_chars_literal:
  assumes "is_finite d"
  obtains ip f x where "to_chars_double d = lit_text (d_neg d) ip f x" "json_literal ip f x"
    "f = None \<Longrightarrow> x = None \<Longrightarrow> round_mag Double (digits_value ip) 0 = d_mag d"
proof (cases "d_mag d = 0")
  case True
  then show thesis
    using that [of "''0''" None None]
    by (simp add: to_chars_double_def lit_text_def frac_text_def exp_text_def json_literal_def lit_ok_def digit_string_def is_digit_def
        digits_value_def digit_val_def round_mag_def)
next
  case False
  have "0 < d_mag d" using False d_mag_bounds(1) [of d] by linarith
  moreover have "d_mag d < inf_code Double" using assms by (simp only: is_finite_def)
  ultimately obtain ip f x where t: "magnitude_text (d_mag d) = lit_text False ip f x" "lit_ok ip f x" "length ip = 1 \<or> hd ip \<noteq> CHR ''0''"
    "round_decimal (digits_value (ip @ frac_digits f)) (exp_value x - int (length (frac_digits f))) = d_mag d"
    using magnitude_text_reads [of "d_mag d"] unfolding reads_as_def by blast
  show thesis
  proof (rule that [of ip f x])
    show "to_chars_double d = lit_text (d_neg d) ip f x" using False t(1) by (simp add: to_chars_double_def lit_text_def)
    show "json_literal ip f x" using t by (simp add: json_literal_def)
    show "round_mag Double (digits_value ip) 0 = d_mag d" if "f = None" "x = None"
      using t(4) that by (simp add: frac_digits_def exp_value_def round_decimal_def)
  qed
qed

lemma scan_written_double:
  assumes "is_finite d"
  obtains ip f x where "to_chars_double d = lit_text (d_neg d) ip f x" "json_literal ip f x"
    "ns_kind (scan_value (to_chars_double d) (d_neg d) (f \<noteq> None \<or> x \<noteq> None)) \<noteq> kind_undefined"
    "scan_to_double (scan_value (to_chars_double d) (d_neg d) (f \<noteq> None \<or> x \<noteq> None)) (d_neg d) = d"
proof -
  obtain ip f x where t: "to_chars_double d = lit_text (d_neg d) ip f x" "json_literal ip f x"
    "f = None \<Longrightarrow> x = None \<Longrightarrow> round_mag Double (digits_value ip) 0 = d_mag d"
    using to_chars_literal [OF assms] by blast
  let ?s = "\<lambda>r. scan_value (to_chars_double d) (d_neg d) r"
  have real: "scan_real (to_chars_double d) (d_neg d) r = r\<lparr>ns_d := d, ns_kind := kind_real\<rparr>" for r
    by (rule scan_real_from [OF from_to_chars [OF assms]])
  have "ns_kind (?s (f \<noteq> None \<or> x \<noteq> None)) \<noteq> kind_undefined \<and> scan_to_double (?s (f \<noteq> None \<or> x \<noteq> None)) (d_neg d) = d"
  proof (cases "f \<noteq> None \<or> x \<noteq> None")
    case True
    then have "?s (f \<noteq> None \<or> x \<noteq> None) = (no_number\<lparr>ns_length := length (to_chars_double d)\<rparr>)\<lparr>ns_d := d, ns_kind := kind_real\<rparr>"
      by (simp only: scan_value_def Let_def real if_True)
    then show ?thesis by (simp add: scan_to_double_def)
  next
    case False
    then have int: "f = None" "x = None" by blast+
    have dg: "digit_string ip" using t(2) by (simp add: json_literal_def lit_ok_def)
    have c: "round_mag Double (digits_value ip) 0 = d_mag d" using t(3) int by blast
    have lit: "to_chars_double d = (if d_neg d then CHR ''-'' # ip else ip)" using t(1) int by (simp add: lit_text_def frac_text_def exp_text_def)
    have nn: "0 \<le> digits_value ip" using dg digits_value_nonneg by (simp add: digit_string_def)
    consider (u) "\<not> d_neg d" "digits_value ip < 2 ^ 64" | (s) "d_neg d" "digits_value ip \<le> 2 ^ 63" | (over)
      "\<not> d_neg d \<and> 2 ^ 64 \<le> digits_value ip \<or> d_neg d \<and> 2 ^ 63 < digits_value ip" by linarith
    then show ?thesis
    proof cases
      case u
      have "uint (word_of_int (digits_value ip) :: u64) = digits_value ip" using u(2) nn by (simp add: uint_word_of_int)
      then have "double_of_u64 (word_of_int (digits_value ip)) = d"
        using c u(1) mk_double_split [of d] by (simp add: double_of_u64_def)
      then show ?thesis using scan_value_uint [OF dg u(2)] lit u(1) False by (simp add: scan_to_double_def no_number_def)
    next
      case s
      have "scan_to_double (no_number\<lparr>ns_kind := kind_sint, ns_length := Suc (length ip), ns_i := - digits_value ip\<rparr>) True = d"
      proof (cases "digits_value ip = 0")
        case True
        then have "d_mag d = 0" using c by (simp add: round_mag_def)
        then have "mk_double True 0 = d" using mk_double_split [of d] s(1) by simp
        then show ?thesis using True by (simp add: scan_to_double_def mk_double_def no_number_def)
      next
        case nz: False
        then show ?thesis using c nn s(1) mk_double_split [of d] by (simp add: scan_to_double_def no_number_def double_of_int_def)
      qed
      then show ?thesis using scan_value_sint [OF dg s(2)] lit s(1) False by (simp add: no_number_def)
    next
      case over
      have "?s False = (no_number\<lparr>ns_length := length (to_chars_double d), ns_overflow := True\<rparr>)\<lparr>ns_d := d, ns_kind := kind_real\<rparr>"
        using scan_value_overflow [OF dg] over lit real by (auto split: if_splits)
      with False show ?thesis by (simp add: scan_to_double_def)
    qed
  qed
  with t(1,2) show thesis using that by blast
qed

text \<open>C26. Doubles survive the writer and the reader: the text written for a finite double, whether the reader
  then classifies it as an unsigned, signed or real literal, is read back as the same double, bit for bit,
  negative zero included.\<close>

theorem json_real_round_trip:
  assumes "is_finite d" "stops rest" "drop (j_pos r) (j_in r) = write_real_json [] d @ rest"
  shows "jexpect_real r = (Inr d, j_advance (length (write_real_json [] d)) r)"
proof -
  obtain ip f x where t: "to_chars_double d = lit_text (d_neg d) ip f x" "json_literal ip f x"
    "ns_kind (scan_value (to_chars_double d) (d_neg d) (f \<noteq> None \<or> x \<noteq> None)) \<noteq> kind_undefined"
    "scan_to_double (scan_value (to_chars_double d) (d_neg d) (f \<noteq> None \<or> x \<noteq> None)) (d_neg d) = d"
    using scan_written_double [OF assms(1)] by blast
  have lit: "write_real_json [] d = to_chars_double d" using assms(1) by (simp add: write_real_json_def)
  note num = jnumber_literal [OF t(2) _ assms(2), where r = r and neg = "d_neg d", folded t(1), OF _ t(3)]
  have at: "drop (j_pos r) (j_in r) = to_chars_double d @ rest" using assms(3) lit by simp
  show ?thesis
    using num [OF at] t(4) by (simp add: jexpect_real_def Let_def lit)
qed

theorem json_real_round_trip_witness:
  "jexpect_real (new_jreader ''-0,'') = (Inr 0x8000000000000000, j_advance 2 (new_jreader ''-0,''))"
proof -
  have w: "write_real_json [] 0x8000000000000000 = ''-0''" by code_simp
  have f: "is_finite 0x8000000000000000" by code_simp
  have s: "stops '',''" by code_simp
  have "drop (j_pos (new_jreader ''-0,'')) (j_in (new_jreader ''-0,'')) = write_real_json [] 0x8000000000000000 @ '',''"
    unfolding w by (simp add: new_jreader_def)
  from json_real_round_trip [OF f s this] show ?thesis unfolding w by (simp add: numeral_2_eq_2)
qed

end
