(* ===== verification/Core_Annotations.thy ===== *)
theory Core_Annotations
  imports Cbor_Options Json_Write
begin

text \<open>
  \<^verbatim>\<open>src/include/vcodec/core/annotations.hpp\<close>, with the annotations of \<^verbatim>\<open>cbor/annotations.hpp\<close> and
  \<^verbatim>\<open>json/annotations.hpp\<close>: the vocabulary a program attaches to its members and types, the search
  helpers over it, and the identifier transformation of \<^verbatim>\<open>rename_all\<close>. A reflected annotation is a value of
  the datatype \<open>annotation\<close>; \<^verbatim>\<open>is_annotation_of_type\<close> is a test for the constructor. Characters are ASCII
  letters, digits and underscores in an identifier; the transformation is defined on all of them.
\<close>

section \<open>The vocabulary\<close>

datatype case_style = camel | pascal | snake | kebab | screaming_snake

datatype default_payload = default_int int | default_real u64 | default_text string

datatype annotation =
    ann_name string | ann_alias string
  | ann_skip | ann_skip_serializing | ann_skip_deserializing | ann_skip_if_null | ann_skip_if_default
  | ann_required | ann_optional | ann_flatten
  | ann_default default_payload | ann_with string
  | ann_rename_all case_style | ann_deny_unknown_fields | ann_transparent | ann_tag string
  | ann_as_integer | ann_as_text
  | ann_cbor_key int | ann_text_key_alias | ann_cbor_tag u64 | ann_byte_string | ann_indefinite
  | ann_float_width width | ann_typed_array | ann_integer_keys | ann_deterministic | ann_self_describe
  | ann_json_bytes bytes_encoding | ann_as_string | ann_stringify_keys

text \<open>\<^verbatim>\<open>find_annotation<A>\<close>: the payload of the first annotation of the asked-for type. The selector is the
  type test together with \<^verbatim>\<open>extract\<close>.\<close>

fun find_annotation :: "(annotation \<Rightarrow> 'a option) \<Rightarrow> annotation list \<Rightarrow> 'a option" where
  "find_annotation sel [] = None"
| "find_annotation sel (a # as) = (case sel a of Some v \<Rightarrow> Some v | None \<Rightarrow> find_annotation sel as)"

definition has_annotation :: "annotation \<Rightarrow> annotation list \<Rightarrow> bool" where
  "has_annotation a anns \<longleftrightarrow> list_ex (\<lambda>b. b = a) anns"

fun name_of_ann :: "annotation \<Rightarrow> string option" where
  "name_of_ann (ann_name s) = Some s" | "name_of_ann _ = None"
fun alias_of_ann :: "annotation \<Rightarrow> string option" where
  "alias_of_ann (ann_alias s) = Some s" | "alias_of_ann _ = None"
fun default_of_ann :: "annotation \<Rightarrow> default_payload option" where
  "default_of_ann (ann_default v) = Some v" | "default_of_ann _ = None"
fun with_of_ann :: "annotation \<Rightarrow> string option" where
  "with_of_ann (ann_with c) = Some c" | "with_of_ann _ = None"
fun rename_of_ann :: "annotation \<Rightarrow> case_style option" where
  "rename_of_ann (ann_rename_all st) = Some st" | "rename_of_ann _ = None"
fun tag_of_ann :: "annotation \<Rightarrow> string option" where
  "tag_of_ann (ann_tag k) = Some k" | "tag_of_ann _ = None"
fun key_of_ann :: "annotation \<Rightarrow> int option" where
  "key_of_ann (ann_cbor_key k) = Some k" | "key_of_ann _ = None"
fun cbor_tag_of_ann :: "annotation \<Rightarrow> u64 option" where
  "cbor_tag_of_ann (ann_cbor_tag t) = Some t" | "cbor_tag_of_ann _ = None"

section \<open>Identifier case\<close>

definition is_upper :: "char \<Rightarrow> bool" where
  "is_upper c \<longleftrightarrow> 65 \<le> (of_char c :: nat) \<and> (of_char c :: nat) \<le> 90"

definition is_lower :: "char \<Rightarrow> bool" where
  "is_lower c \<longleftrightarrow> 97 \<le> (of_char c :: nat) \<and> (of_char c :: nat) \<le> 122"

definition to_lower :: "char \<Rightarrow> char" where
  "to_lower c = (if is_upper c then char_of ((of_char c :: nat) + 32) else c)"

definition to_upper :: "char \<Rightarrow> char" where
  "to_upper c = (if is_lower c then char_of ((of_char c :: nat) - 32) else c)"

definition flush_word :: "string list \<Rightarrow> string \<Rightarrow> string list" where
  "flush_word words cur = (if cur \<noteq> [] then words @ [cur] else words)"

text \<open>The loop over the identifier. \<^verbatim>\<open>cur\<close> holds the current word already lower-cased, which is what
  \<^verbatim>\<open>is_lower(cur.back())\<close> looks at.\<close>

fun split_words :: "string list \<Rightarrow> string \<Rightarrow> string \<Rightarrow> string list" where
  "split_words words cur [] = flush_word words cur"
| "split_words words cur (c # cs) =
     (if c = CHR ''_'' then split_words (flush_word words cur) [] cs
      else if is_upper c \<and> cur \<noteq> [] \<and> is_lower (last cur)
      then split_words (flush_word words cur) [to_lower c] cs
      else split_words words (cur @ [to_lower c]) cs)"

definition capitalize :: "string \<Rightarrow> string" where
  "capitalize word = (case word of [] \<Rightarrow> [] | c # cs \<Rightarrow> to_upper c # cs)"

definition emit_word :: "case_style \<Rightarrow> bool \<Rightarrow> string \<Rightarrow> string" where
  "emit_word style first word = (case style of
     snake \<Rightarrow> (if first then [] else ''_'') @ word
   | kebab \<Rightarrow> (if first then [] else ''-'') @ word
   | screaming_snake \<Rightarrow> (if first then [] else ''_'') @ map to_upper word
   | camel \<Rightarrow> (if first then word else capitalize word)
   | pascal \<Rightarrow> capitalize word)"

fun emit_words :: "case_style \<Rightarrow> bool \<Rightarrow> string list \<Rightarrow> string" where
  "emit_words style first [] = []"
| "emit_words style first (w # ws) = emit_word style first w @ emit_words style False ws"

definition apply_case :: "string \<Rightarrow> case_style \<Rightarrow> string" where
  "apply_case ident style = emit_words style True (split_words [] [] ident)"

section \<open>Words\<close>

text \<open>A word holds no underscore and no capital; splitting produces words, and joining words with
  underscores and splitting again gives them back.\<close>

definition is_word :: "string \<Rightarrow> bool" where
  "is_word w \<longleftrightarrow> w \<noteq> [] \<and> list_all (\<lambda>c. c \<noteq> CHR ''_'' \<and> \<not> is_upper c) w"

lemma to_lower_word_char:
  assumes "c \<noteq> CHR ''_''"
  shows "to_lower c \<noteq> CHR ''_'' \<and> \<not> is_upper (to_lower c)"
proof (cases "is_upper c")
  case True
  then have "of_char (to_lower c) = (of_char c :: nat) + 32" "97 \<le> (of_char c :: nat) + 32"
    by (simp_all add: to_lower_def is_upper_def)
  moreover from this have "97 \<le> (of_char (to_lower c) :: nat)" by linarith
  ultimately show ?thesis by (auto simp: is_upper_def)
next
  case False
  with assms show ?thesis by (simp add: to_lower_def)
qed

lemma to_lower_id: "\<not> is_upper c \<Longrightarrow> to_lower c = c"
  by (simp add: to_lower_def)

lemma flush_word_words:
  "list_all is_word words \<Longrightarrow> list_all (\<lambda>c. c \<noteq> CHR ''_'' \<and> \<not> is_upper c) cur \<Longrightarrow> list_all is_word (flush_word words cur)"
  by (simp add: flush_word_def is_word_def)

lemma split_words_words:
  assumes "list_all is_word words" "list_all (\<lambda>c. c \<noteq> CHR ''_'' \<and> \<not> is_upper c) cur"
  shows "list_all is_word (split_words words cur ident)"
  using assms
  by (induction words cur ident rule: split_words.induct) (simp_all add: flush_word_words to_lower_word_char)

lemma split_words_word:
  assumes "list_all (\<lambda>c. c \<noteq> CHR ''_'' \<and> \<not> is_upper c) w"
  shows "split_words words cur (w @ rest) = split_words words (cur @ w) rest"
  using assms by (induction w arbitrary: cur) (simp_all add: to_lower_id)

lemma split_words_snake:
  assumes "list_all is_word ws"
  shows "split_words words [] (emit_words snake True ws) = words @ ws"
    and "cur \<noteq> [] \<Longrightarrow> split_words words cur (emit_words snake False ws) = words @ cur # ws"
  using assms
  by (induction ws arbitrary: words cur)
    (simp_all add: emit_word_def is_word_def split_words_word flush_word_def)

text \<open>\<^verbatim>\<open>rename_all(snake)\<close> is a normal form: transforming an identifier to snake case loses none of its
  words, so transforming the result to any style gives what that style gives on the identifier itself; in
  particular the transformation is idempotent.\<close>

theorem apply_case_snake_normal: "apply_case (apply_case ident snake) style = apply_case ident style"
  using split_words_snake(1) [of "split_words [] [] ident" "[]"] split_words_words [of "[]" "[]" ident]
  by (simp add: apply_case_def)

text \<open>Words are not only split where a lower-case letter is followed by a capital: since the loop looks at
  the last character already lowered, every capital after a letter starts a word, and an abbreviation falls
  apart into its letters.\<close>

theorem apply_case_splits_capitals:
  "apply_case ''userID'' snake = ''user_i_d'' \<and> apply_case ''HTTPServer'' kebab = ''h-t-t-p-server''"
  by code_simp

end
