(* ===== verification/Core_Schema.thy ===== *)
theory Core_Schema
  imports Core_Annotations Fixed_String
begin

text \<open>
  \<^verbatim>\<open>src/include/vcodec/core/schema.hpp\<close>: from a reflected class to the table of its fields. What the
  compiler's reflection answers about a class (its name, bases, members, annotations, default member
  initialisers, and the additional annotations of \<^verbatim>\<open>describe<T>\<close>) is a value of \<open>rclass\<close>; the compile-time
  evaluation is a function of it. Flags are the bits of a 16-bit word, as in the source; a message is
  built in a \<open>fixed_string\<close> and cut off at its capacity.
\<close>

section \<open>What reflection answers\<close>

text \<open>A member's type is a class (with a mark for \<^verbatim>\<open>std::variant\<close>, which is one), an optional or smart pointer, or
  anything else; the strings are display strings.\<close>

datatype rtype =
    rt_class bool rclass
  | rt_optional_like string
  | rt_other string
and rclass =
    RClass (rc_name: string) (rc_annotations: "annotation list") (rc_described: "annotation list")
      (rc_described_members: "(string \<times> annotation list) list") (rc_bases: "rbase list") (rc_members: "rmember list")
and rbase =
    RBase (rb_virtual: bool) (rb_class: rclass)
and rmember =
    RMember (rm_identifier: "string option") (rm_annotations: "annotation list") (rm_type: rtype) (rm_dmi: bool)

datatype path_element = via_base string | via_member string

fun display_string_of :: "rtype \<Rightarrow> string" where
  "display_string_of (rt_class v c) = rc_name c"
| "display_string_of (rt_optional_like s) = s"
| "display_string_of (rt_other s) = s"

definition is_optional_like_v :: "rtype \<Rightarrow> bool" where
  "is_optional_like_v t = (case t of rt_optional_like _ \<Rightarrow> True | _ \<Rightarrow> False)"

definition is_variant_like_v :: "rtype \<Rightarrow> bool" where
  "is_variant_like_v t = (case t of rt_class v _ \<Rightarrow> v | _ \<Rightarrow> False)"

section \<open>Flags and tables\<close>

type_synonym field_flags = u16

definition flag_skip_serializing :: field_flags where "flag_skip_serializing = 1"
definition flag_skip_deserializing :: field_flags where "flag_skip_deserializing = 2"
definition flag_skip_if_null :: field_flags where "flag_skip_if_null = 4"
definition flag_skip_if_default :: field_flags where "flag_skip_if_default = 8"
definition flag_required :: field_flags where "flag_required = 16"
definition flag_has_default :: field_flags where "flag_has_default = 32"
definition flag_flattened :: field_flags where "flag_flattened = 64"
definition flag_inherited :: field_flags where "flag_inherited = 128"
definition flag_optional_like :: field_flags where "flag_optional_like = 256"
definition flag_has_dmi :: field_flags where "flag_has_dmi = 512"
definition flag_explicit_name :: field_flags where "flag_explicit_name = 1024"
definition flag_renamed :: field_flags where "flag_renamed = 2048"
definition flag_has_tag :: field_flags where "flag_has_tag = 4096"

definition has_flag :: "field_flags \<Rightarrow> field_flags \<Rightarrow> bool" where
  "has_flag a b \<longleftrightarrow> a AND b \<noteq> 0"

lemmas flag_defs =
  flag_skip_serializing_def flag_skip_deserializing_def flag_skip_if_null_def flag_skip_if_default_def
  flag_required_def flag_has_default_def flag_flattened_def flag_inherited_def flag_optional_like_def
  flag_has_dmi_def flag_explicit_name_def flag_renamed_def flag_has_tag_def

definition max_member_depth :: nat where "max_member_depth = 8"
definition max_annotations :: nat where "max_annotations = 16"

record field_info =
  wire_name :: string
  ident_of :: string
  qual_name :: string
  aliases :: "string list"
  flags :: field_flags
  member_index :: nat
  tag_key :: string

definition fi_required :: "field_info \<Rightarrow> bool" where
  "fi_required f = has_flag (flags f) flag_required"
definition fi_skip_serializing :: "field_info \<Rightarrow> bool" where
  "fi_skip_serializing f = has_flag (flags f) flag_skip_serializing"
definition fi_skip_deserializing :: "field_info \<Rightarrow> bool" where
  "fi_skip_deserializing f = has_flag (flags f) flag_skip_deserializing"

record field_meta =
  fm_info :: field_info
  fm_path :: "path_element list"
  fm_type :: rtype
  fm_owner :: rclass
  fm_annotations :: "annotation list"
  fm_codec :: "string option"
  fm_default :: "default_payload option"

record type_info =
  ti_name :: string
  ti_deny_unknown_fields :: bool
  ti_transparent :: bool
  ti_tag_key :: "string option"
  ti_rename :: "case_style option"
  ti_conditional_fields :: bool
  ti_field_count :: nat
  ti_error :: string

definition ti_ok :: "type_info \<Rightarrow> bool" where
  "ti_ok ti \<longleftrightarrow> ti_error ti = []"

section \<open>Collecting the fields\<close>

text \<open>\<^verbatim>\<open>bs_overflow\<close> records a write past the end of \<^verbatim>\<open>field_meta::path\<close>, which ends constant evaluation with a
  compiler error; only the base chain can reach it, flattening is checked against the limit.\<close>

record build_state =
  bs_fields :: "field_meta list"
  bs_flatten_stack :: "rclass list"
  bs_error :: string
  bs_conditional :: bool
  bs_overflow :: bool

definition new_build_state :: build_state where
  "new_build_state = \<lparr>bs_fields = [], bs_flatten_stack = [], bs_error = [], bs_conditional = False, bs_overflow = False\<rparr>"

definition bs_fail :: "string \<Rightarrow> build_state \<Rightarrow> build_state" where
  "bs_fail msg st = (if bs_error st = [] then st\<lparr>bs_error := msg\<rparr> else st)"

definition message :: "nat \<Rightarrow> string list \<Rightarrow> string" where
  "message n parts = fs_view (fold fs_append parts (fs_empty n))"

definition type_annotations_of :: "rclass \<Rightarrow> annotation list" where
  "type_annotations_of t = rc_annotations t @ rc_described t"

definition member_annotations_of :: "rclass \<Rightarrow> string \<Rightarrow> annotation list \<Rightarrow> annotation list" where
  "member_annotations_of owner ident source =
     source @ concat (map snd (filter (\<lambda>d. fst d = ident) (rc_described_members owner)))"

definition check_described_identifiers :: "rclass \<Rightarrow> build_state \<Rightarrow> build_state" where
  "check_described_identifiers owner st =
     fold (\<lambda>d st. if list_ex (\<lambda>m. rm_identifier m = Some (fst d)) (rc_members owner) then st
                  else bs_fail (message 256 [''vcodec::describe<'', rc_name owner, ''>: '', [CHR 0x27], fst d,
                         [CHR 0x27], '' is not a non-static data member of '', rc_name owner, ''.'']) st)
       (rc_described_members owner) st"

definition virtual_base_message :: "rclass \<Rightarrow> rclass \<Rightarrow> string" where
  "virtual_base_message t b = message 256 [rc_name t, '' has a virtual base class '', rc_name b,
     ''; virtual inheritance is not supported by vcodec v0.1.'']"

definition anonymous_message :: "rclass \<Rightarrow> string" where
  "anonymous_message t = message 256 [rc_name t, '' has an anonymous non-static data member; '' @
     ''anonymous unions and members are not supported by vcodec v0.1.'']"

definition too_many_message :: "rclass \<Rightarrow> string \<Rightarrow> string" where
  "too_many_message t ident = message 256 [rc_name t, ''::'', ident, '' carries more than 16 annotations.'']"

definition flatten_type_message :: "rclass \<Rightarrow> string \<Rightarrow> rtype \<Rightarrow> string" where
  "flatten_type_message t ident mt = message 256 [rc_name t, ''::'', ident,
     '' is declared [[=vcodec::flatten]] but its type '', display_string_of mt,
     '' is not a struct. flatten splices a nested struct'' @ [CHR 0x27] @ ''s members into the parent.'']"

definition flatten_cycle_message :: "rclass \<Rightarrow> string \<Rightarrow> rclass \<Rightarrow> string" where
  "flatten_cycle_message t ident c = message 256 [rc_name t, ''::'', ident,
     '' is declared [[=vcodec::flatten]] but '', rc_name c,
     '' is already being flattened; flatten cycles are not allowed.'']"

definition flatten_depth_message :: "rclass \<Rightarrow> string \<Rightarrow> string" where
  "flatten_depth_message t ident = message 256 [rc_name t, ''::'', ident,
     '': flatten/inheritance nesting exceeds the supported depth of 8.'']"

subsection \<open>One field\<close>

definition flag_if :: "bool \<Rightarrow> field_flags \<Rightarrow> field_flags" where
  "flag_if b f = (if b then f else 0)"

definition resolved_name :: "case_style option \<Rightarrow> string \<Rightarrow> annotation list \<Rightarrow> string \<times> field_flags" where
  "resolved_name rename ident anns =
     (case find_annotation name_of_ann anns of
        Some n \<Rightarrow> (n, flag_explicit_name)
      | None \<Rightarrow> (case rename of Some style \<Rightarrow> (apply_case ident style, flag_renamed) | None \<Rightarrow> (ident, 0)))"

definition alias_list :: "annotation list \<Rightarrow> string list" where
  "alias_list anns = List.map_filter alias_of_ann anns"

text \<open>Requiredness (lines 403 to 409): the annotations override the default rule in the order of the code.\<close>

definition resolved_required :: "annotation list \<Rightarrow> bool \<Rightarrow> bool \<Rightarrow> bool" where
  "resolved_required anns opt_like dmi =
     (let req = \<not> (opt_like \<or> dmi \<or> find_annotation default_of_ann anns \<noteq> None);
          req = (if has_annotation ann_required anns then True else req);
          req = (if has_annotation ann_optional anns then False else req)
      in if has_annotation ann_skip_deserializing anns then False else req)"

definition resolved_tag :: "string option \<Rightarrow> annotation list \<Rightarrow> rtype \<Rightarrow> string option" where
  "resolved_tag type_tag anns t =
     (case find_annotation tag_of_ann anns of
        Some k \<Rightarrow> Some k
      | None \<Rightarrow> if is_variant_like_v t then type_tag else None)"

definition resolved_flags ::
  "case_style option \<Rightarrow> string option \<Rightarrow> bool \<Rightarrow> bool \<Rightarrow> string \<Rightarrow> annotation list \<Rightarrow> rtype \<Rightarrow> bool \<Rightarrow> field_flags" where
  "resolved_flags rename type_tag via_flatten via_inherit ident anns t dmi =
     snd (resolved_name rename ident anns)
     OR flag_if via_flatten flag_flattened OR flag_if via_inherit flag_inherited
     OR flag_if dmi flag_has_dmi
     OR flag_if (has_annotation ann_skip_serializing anns) flag_skip_serializing
     OR flag_if (has_annotation ann_skip_deserializing anns) flag_skip_deserializing
     OR flag_if (has_annotation ann_skip_if_null anns) flag_skip_if_null
     OR flag_if (has_annotation ann_skip_if_default anns) flag_skip_if_default
     OR flag_if (find_annotation default_of_ann anns \<noteq> None) flag_has_default
     OR flag_if (is_optional_like_v t) flag_optional_like
     OR flag_if (resolved_required anns (is_optional_like_v t) dmi) flag_required
     OR flag_if (resolved_tag type_tag anns t \<noteq> None) flag_has_tag"

definition make_field ::
  "rclass \<Rightarrow> path_element list \<Rightarrow> bool \<Rightarrow> bool \<Rightarrow> nat \<Rightarrow> string \<Rightarrow> annotation list \<Rightarrow> rtype \<Rightarrow> bool \<Rightarrow> field_meta" where
  "make_field owner prefix via_flatten via_inherit index ident anns t dmi =
     (let rename = find_annotation rename_of_ann (type_annotations_of owner);
          type_tag = find_annotation tag_of_ann (type_annotations_of owner)
      in \<lparr>fm_info = \<lparr>wire_name = fst (resolved_name rename ident anns), ident_of = ident,
            qual_name = message 256 [rc_name owner, ''::'', ident], aliases = alias_list anns,
            flags = resolved_flags rename type_tag via_flatten via_inherit ident anns t dmi,
            member_index = index, tag_key = (case resolved_tag type_tag anns t of Some k \<Rightarrow> k | None \<Rightarrow> [])\<rparr>,
          fm_path = prefix @ [via_member ident], fm_type = t, fm_owner = owner, fm_annotations = anns,
          fm_codec = find_annotation with_of_ann anns, fm_default = find_annotation default_of_ann anns\<rparr>)"

definition add_field :: "field_meta \<Rightarrow> build_state \<Rightarrow> build_state" where
  "add_field f st = st\<lparr>bs_fields := bs_fields st @ [f],
     bs_conditional := (bs_conditional st \<or> has_annotation ann_skip_if_null (fm_annotations f)
                        \<or> has_annotation ann_skip_if_default (fm_annotations f)),
     bs_overflow := (bs_overflow st \<or> max_member_depth < length (fm_path f))\<rparr>"

subsection \<open>The walk over bases and members\<close>

fun collect_fields :: "rclass \<Rightarrow> path_element list \<Rightarrow> bool \<Rightarrow> bool \<Rightarrow> build_state \<Rightarrow> build_state"
  and collect_bases :: "rclass \<Rightarrow> rbase list \<Rightarrow> path_element list \<Rightarrow> bool \<Rightarrow> build_state \<Rightarrow> build_state"
  and collect_members :: "rclass \<Rightarrow> rmember list \<Rightarrow> path_element list \<Rightarrow> bool \<Rightarrow> bool \<Rightarrow> build_state \<Rightarrow> build_state"
where
  "collect_fields (RClass n anns danns dms bases members) prefix vf vb st =
     (let t = RClass n anns danns dms bases members
      in collect_members t members prefix vf vb (collect_bases t bases prefix vf (check_described_identifiers t st)))"
| "collect_bases t [] prefix vf st = st"
| "collect_bases t (RBase virt c # bs) prefix vf st =
     collect_bases t bs prefix vf
       (if virt then bs_fail (virtual_base_message t c) st
        else collect_fields c (prefix @ [via_base (rc_name c)]) vf True st)"
| "collect_members t [] prefix vf vb st = st"
| "collect_members t (RMember None manns mt dmi # ms) prefix vf vb st =
     collect_members t ms prefix vf vb (bs_fail (anonymous_message t) st)"
| "collect_members t (RMember (Some ident) manns mt dmi # ms) prefix vf vb st =
     collect_members t ms prefix vf vb
       (let anns = member_annotations_of t ident manns
        in if has_annotation ann_skip anns then st
           else if max_annotations < length anns then bs_fail (too_many_message t ident) st
           else if has_annotation ann_flatten anns then
             (case mt of
                rt_class v c \<Rightarrow>
                  (if c = t \<or> c \<in> set (bs_flatten_stack st) then bs_fail (flatten_cycle_message t ident c) st
                   else if max_member_depth \<le> length prefix + 1 then bs_fail (flatten_depth_message t ident) st
                   else (let st1 = collect_fields c (prefix @ [via_member ident]) True vb
                                     (st\<lparr>bs_flatten_stack := bs_flatten_stack st @ [t]\<rparr>)
                         in st1\<lparr>bs_flatten_stack := butlast (bs_flatten_stack st1)\<rparr>))
              | _ \<Rightarrow> bs_fail (flatten_type_message t ident mt) st)
           else add_field (make_field t prefix vf vb (length (bs_fields st)) ident anns mt dmi) st)"

section \<open>Duplicate names\<close>

record name_entry =
  ne_key :: string
  ne_field :: nat
  ne_alias :: bool

definition field_entries :: "field_info \<Rightarrow> name_entry list" where
  "field_entries f = \<lparr>ne_key = wire_name f, ne_field = member_index f, ne_alias = False\<rparr>
     # map (\<lambda>a. \<lparr>ne_key = a, ne_field = member_index f, ne_alias = True\<rparr>) (aliases f)"

text \<open>The two loops over \<open>i < j\<close>: the first pair of entries with the same key.\<close>

fun first_clash :: "name_entry list \<Rightarrow> (name_entry \<times> name_entry) option" where
  "first_clash [] = None"
| "first_clash (e # es) =
     (case find (\<lambda>f. ne_key e = ne_key f) es of Some f \<Rightarrow> Some (e, f) | None \<Rightarrow> first_clash es)"

definition via_parts :: "name_entry \<Rightarrow> field_info \<Rightarrow> bool \<Rightarrow> string list" where
  "via_parts ej fi by_alias =
     (if by_alias then ['' (via alias('' @ [CHR 0x22], ne_key ej, [CHR 0x22] @ ''))''] 
      else if has_flag (flags fi) flag_renamed then ['' (via rename_all)'']
      else if has_flag (flags fi) flag_explicit_name
      then ['' (via name('' @ [CHR 0x22], wire_name fi, [CHR 0x22] @ ''))''] else [])"

definition clash_message :: "field_meta list \<Rightarrow> name_entry \<Rightarrow> name_entry \<Rightarrow> string" where
  "clash_message fms ei ej =
     (let a = fm_info (fms ! ne_field ei); b = fm_info (fms ! ne_field ej)
      in message 512 ([qual_name a, '' and '', qual_name b, '' both map to the wire name '' @ [CHR 0x22], ne_key ei, [CHR 0x22]]
           @ (if ne_alias ej \<or> ne_alias ei then via_parts ej b True
              else if has_flag (flags b) flag_renamed \<or> has_flag (flags a) flag_renamed then ['' (via rename_all)'']
              else via_parts ej b False)
           @ [''.'']))"

definition check_duplicates :: "build_state \<Rightarrow> build_state" where
  "check_duplicates st =
     (case first_clash (concat (map (field_entries \<circ> fm_info) (bs_fields st))) of
        None \<Rightarrow> st
      | Some (ei, ej) \<Rightarrow> bs_fail (clash_message (bs_fields st) ei ej) st)"

section \<open>The tables of a type\<close>

definition run_build :: "rclass \<Rightarrow> build_state" where
  "run_build t = check_duplicates (collect_fields t [] False False new_build_state)"

definition build_fields :: "rclass \<Rightarrow> field_meta list" where
  "build_fields t = bs_fields (run_build t)"

definition build_schema :: "rclass \<Rightarrow> field_info list" where
  "build_schema t = map fm_info (bs_fields (run_build t))"

definition transparent_message :: "string \<Rightarrow> nat \<Rightarrow> string" where
  "transparent_message name n =
     fs_view (fs_append '' members; transparent requires exactly one.''
       (fs_append_int 64 (int n)
         (fs_append '' is declared [[=vcodec::transparent]] but has '' (fs_append name (fs_empty 256)))))"

definition build_type_info :: "rclass \<Rightarrow> type_info" where
  "build_type_info t =
     (let st = run_build t; tanns = type_annotations_of t;
          transp = has_annotation ann_transparent tanns;
          st = (if transp \<and> length (bs_fields st) \<noteq> 1
                then bs_fail (transparent_message (rc_name t) (length (bs_fields st))) st else st)
      in \<lparr>ti_name = rc_name t, ti_deny_unknown_fields = has_annotation ann_deny_unknown_fields tanns,
          ti_transparent = transp, ti_tag_key = find_annotation tag_of_ann tanns,
          ti_rename = find_annotation rename_of_ann tanns, ti_conditional_fields = bs_conditional st,
          ti_field_count = length (bs_fields st), ti_error = bs_error st\<rparr>)"

section \<open>Enumerations\<close>

record renumerator =
  re_identifier :: string
  re_value :: int
  re_annotations :: "annotation list"

record renum =
  en_name :: string
  en_annotations :: "annotation list"
  en_enumerators :: "renumerator list"

record enumerator_info =
  ei_name :: string
  ei_identifier :: string
  ei_value :: int
  ei_skipped :: bool
  ei_aliases :: "string list"

definition enumerator_of :: "case_style option \<Rightarrow> renumerator \<Rightarrow> enumerator_info" where
  "enumerator_of rename e =
     \<lparr>ei_name = (case find_annotation name_of_ann (re_annotations e) of Some n \<Rightarrow> n
        | None \<Rightarrow> (case rename of Some style \<Rightarrow> apply_case (re_identifier e) style | None \<Rightarrow> re_identifier e)),
      ei_identifier = re_identifier e, ei_value = re_value e,
      ei_skipped = has_annotation ann_skip (re_annotations e),
      ei_aliases = alias_list (re_annotations e)\<rparr>"

definition build_enum_schema :: "renum \<Rightarrow> enumerator_info list" where
  "build_enum_schema e = map (enumerator_of (find_annotation rename_of_ann (en_annotations e))) (en_enumerators e)"

definition enum_encodes_as_integer :: "renum \<Rightarrow> annotation list \<Rightarrow> bool \<Rightarrow> bool" where
  "enum_encodes_as_integer e anns format_default =
     (if has_annotation ann_as_integer anns then True
      else if has_annotation ann_as_text anns then False
      else if has_annotation ann_as_integer (en_annotations e) then True
      else if has_annotation ann_as_text (en_annotations e) then False
      else format_default)"

section \<open>Facts\<close>

lemma has_flag_or [simp]: "has_flag (a OR b) c \<longleftrightarrow> has_flag a c \<or> has_flag b c"
  by (simp add: has_flag_def bit.conj_disj_distrib2 or_eq_0_iff)

lemma has_flag_zero [simp]: "\<not> has_flag 0 c"
  by (simp add: has_flag_def)

lemma has_flag_if [simp]: "has_flag (flag_if b f) c \<longleftrightarrow> b \<and> has_flag f c"
  by (simp add: flag_if_def)

lemma bs_fail_simps [simp]:
  "bs_fields (bs_fail m st) = bs_fields st" "bs_flatten_stack (bs_fail m st) = bs_flatten_stack st"
  "bs_conditional (bs_fail m st) = bs_conditional st" "bs_overflow (bs_fail m st) = bs_overflow st"
  by (simp_all add: bs_fail_def)

lemma bs_fail_error: "bs_error (bs_fail m st) = [] \<longleftrightarrow> bs_error st = [] \<and> m = []"
  by (simp add: bs_fail_def)

lemma fs_append_extends: "\<exists>s'. fs_view (fs_append s b) = fs_view b @ s'"
proof (induction s arbitrary: b)
  case (Cons c s)
  obtain s' where "fs_view (fs_append s (fs_append_char c b)) = fs_view (fs_append_char c b) @ s'" using Cons by blast
  moreover have "\<exists>s''. fs_view (fs_append_char c b) = fs_view b @ s''" by (simp add: fs_append_char_def)
  ultimately show ?case by (auto simp: fs_append_def)
qed (simp add: fs_append_def)

lemma fs_append_nonempty: "fs_view b \<noteq> [] \<Longrightarrow> fs_view (fs_append s b) \<noteq> []"
  using fs_append_extends [of s b] by auto

lemma fs_append_int_nonempty: "fs_view b \<noteq> [] \<Longrightarrow> fs_view (fs_append_int w v b) \<noteq> []"
  unfolding fs_append_int_def by (rule fs_append_nonempty) (simp add: fs_append_char_def)

lemma message_eq: "message n parts = take n (concat parts)"
proof -
  have "fs_view (fold fs_append parts b) = take (fs_cap b) (fs_view b @ concat parts)" if "fs_ok b" for b
    using that
  proof (induction parts arbitrary: b)
    case Nil
    then show ?case by (simp add: fs_ok_def fs_size_def)
  next
    case (Cons s ss)
    then show ?case
      using fs_ok_append [of b s] by (auto simp: fs_view_append fs_ok_def fs_size_def min_def)
  qed
  from this [of "fs_empty n"] show ?thesis by (simp add: message_def fs_empty_def fs_ok_def fs_size_def)
qed

subsection \<open>Positions\<close>

text \<open>Every field carries its position in the table, and the walk leaves the flatten stack as it found it.\<close>

definition indexed :: "build_state \<Rightarrow> bool" where
  "indexed st \<longleftrightarrow> map (member_index \<circ> fm_info) (bs_fields st) = [0..<length (bs_fields st)]"

definition made_field :: "field_meta \<Rightarrow> bool" where
  "made_field f \<longleftrightarrow> (\<exists>owner prefix vf vb i ident anns t dmi. f = make_field owner prefix vf vb i ident anns t dmi)"

definition conditional_field :: "field_meta \<Rightarrow> bool" where
  "conditional_field f \<longleftrightarrow> has_annotation ann_skip_if_null (fm_annotations f)
     \<or> has_annotation ann_skip_if_default (fm_annotations f)"

definition walk_ok :: "build_state \<Rightarrow> build_state \<Rightarrow> bool" where
  "walk_ok st st' \<longleftrightarrow> bs_flatten_stack st' = bs_flatten_stack st \<and> (indexed st \<longrightarrow> indexed st')
     \<and> (\<exists>new. bs_fields st' = bs_fields st @ new \<and> list_all made_field new
           \<and> (bs_conditional st' \<longleftrightarrow> bs_conditional st \<or> list_ex conditional_field new))
     \<and> (bs_error st' = [] \<longrightarrow> bs_error st = [])"

lemma walk_ok_refl [simp]: "walk_ok st st"
  by (simp add: walk_ok_def)

lemma walk_ok_trans [trans]: "walk_ok a b \<Longrightarrow> walk_ok b c \<Longrightarrow> walk_ok a c"
  by (auto simp: walk_ok_def)

lemma walk_ok_fail [simp]: "walk_ok st (bs_fail m st)"
  by (simp add: walk_ok_def indexed_def bs_fail_error)

lemma walk_ok_add [simp]: "walk_ok st (add_field (make_field o' p vf vb (length (bs_fields st)) i anns t dmi) st)"
  by (auto simp: walk_ok_def indexed_def add_field_def made_field_def conditional_field_def make_field_def Let_def)

lemma walk_ok_described: "walk_ok st (check_described_identifiers t st)"
proof -
  have "walk_ok st (fold (\<lambda>d st. if P d then st else bs_fail (g d) st) ds st)" for P g ds st
    by (induction ds arbitrary: st) (auto intro: walk_ok_trans [OF walk_ok_fail])
  then show ?thesis by (simp add: check_described_identifiers_def)
qed

lemma walk_ok_flatten:
  assumes "walk_ok (st\<lparr>bs_flatten_stack := bs_flatten_stack st @ [t]\<rparr>) st1"
  shows "walk_ok st (st1\<lparr>bs_flatten_stack := butlast (bs_flatten_stack st1)\<rparr>)"
  using assms by (auto simp: walk_ok_def indexed_def)

lemma collect_walk_ok:
  "walk_ok st (collect_fields c prefix vf vb st)"
  "walk_ok st (collect_bases t bs prefix vf st)"
  "walk_ok st (collect_members t ms prefix vf vb st)"
proof (induction c prefix vf vb st and t bs prefix vf st and t ms prefix vf vb st
    rule: collect_fields_collect_bases_collect_members.induct)
  case (1 n anns danns dms bases members prefix vf vb st)
  then show ?case
    by (auto simp: Let_def intro: walk_ok_trans walk_ok_described)
next
  case (3 t virt c bs prefix vf st)
  then show ?case by (cases virt) (auto intro: walk_ok_trans [OF walk_ok_fail] walk_ok_trans)
next
  case (5 t manns mt dmi ms prefix vf vb st)
  then show ?case by (auto intro: walk_ok_trans [OF walk_ok_fail])
next
  case (6 t ident manns mt dmi ms prefix vf vb st)
  let ?anns = "member_annotations_of t ident manns"
  have "walk_ok st (let anns = ?anns
        in if has_annotation ann_skip anns then st
           else if max_annotations < length anns then bs_fail (too_many_message t ident) st
           else if has_annotation ann_flatten anns then
             (case mt of
                rt_class v c \<Rightarrow>
                  (if c = t \<or> c \<in> set (bs_flatten_stack st) then bs_fail (flatten_cycle_message t ident c) st
                   else if max_member_depth \<le> length prefix + 1 then bs_fail (flatten_depth_message t ident) st
                   else (let st1 = collect_fields c (prefix @ [via_member ident]) True vb
                                     (st\<lparr>bs_flatten_stack := bs_flatten_stack st @ [t]\<rparr>)
                         in st1\<lparr>bs_flatten_stack := butlast (bs_flatten_stack st1)\<rparr>))
              | _ \<Rightarrow> bs_fail (flatten_type_message t ident mt) st)
           else add_field (make_field t prefix vf vb (length (bs_fields st)) ident anns mt dmi) st)"
    using 6(1) by (auto simp: Let_def split: rtype.split intro!: walk_ok_flatten)
  from walk_ok_trans [OF this 6(2)] show ?case by simp
qed simp_all

subsection \<open>Names\<close>

definition wire_names :: "field_info \<Rightarrow> string list" where
  "wire_names f = wire_name f # aliases f"

lemma entry_keys: "map ne_key (field_entries f) = wire_names f"
  by (simp add: field_entries_def wire_names_def comp_def)

lemma first_clash_None: "first_clash es = None \<longleftrightarrow> distinct (map ne_key es)"
proof (induction es)
  case (Cons e es)
  show ?case
  proof (cases "find (\<lambda>f. ne_key e = ne_key f) es")
    case None
    have "first_clash (e # es) = first_clash es" using None by simp
    moreover have "ne_key e \<notin> set (map ne_key es)" using None by (auto simp: find_None_iff)
    ultimately show ?thesis using Cons by simp
  next
    case (Some f)
    then have "f \<in> set es" "ne_key e = ne_key f" by (auto simp: find_Some_iff)
    with Some show ?thesis by auto
  qed
qed simp

lemma clash_message_nonempty: "clash_message fms ei ej \<noteq> []"
  by (simp add: clash_message_def message_eq Let_def take_eq_Nil)

lemma check_duplicates_fields [simp]:
  "bs_fields (check_duplicates st) = bs_fields st" "bs_conditional (check_duplicates st) = bs_conditional st"
  by (simp_all add: check_duplicates_def split: option.split)

lemma check_duplicates_ok:
  "bs_error (check_duplicates st) = [] \<longleftrightarrow>
     bs_error st = [] \<and> distinct (concat (map (wire_names \<circ> fm_info) (bs_fields st)))"
proof -
  have keys: "map ne_key (concat (map (field_entries \<circ> fm_info) fms)) = concat (map (wire_names \<circ> fm_info) fms)" for fms
    by (simp add: map_concat comp_def entry_keys)
  note clash = first_clash_None [of "concat (map (field_entries \<circ> fm_info) (bs_fields st))", unfolded keys]
  show ?thesis
  proof (cases "first_clash (concat (map (field_entries \<circ> fm_info) (bs_fields st)))")
    case None
    with clash show ?thesis by (simp add: check_duplicates_def)
  next
    case (Some p)
    with clash show ?thesis
      by (cases p) (simp add: check_duplicates_def bs_fail_error clash_message_nonempty)
  qed
qed

lemma run_build_fields:
  "map (member_index \<circ> fm_info) (bs_fields (run_build t)) = [0..<length (bs_fields (run_build t))]"
  "list_all made_field (bs_fields (run_build t))"
  "bs_conditional (run_build t) \<longleftrightarrow> list_ex conditional_field (bs_fields (run_build t))"
  using collect_walk_ok(1) [of new_build_state t "[]" False False]
  by (auto simp: walk_ok_def indexed_def run_build_def new_build_state_def)

lemma build_type_info_ok:
  "ti_ok (build_type_info t) \<Longrightarrow> bs_error (run_build t) = []"
  by (auto simp: build_type_info_def Let_def ti_ok_def bs_fail_error split: if_splits)

lemma type_info_conditional:
  "ti_conditional_fields (build_type_info t) \<longleftrightarrow> list_ex conditional_field (build_fields t)"
  by (simp add: build_type_info_def build_fields_def run_build_fields(3) bs_fail_def Let_def)

lemma transparent_single:
  assumes "ti_ok (build_type_info t)" "ti_transparent (build_type_info t)"
  shows "length (build_fields t) = 1"
proof -
  have "fs_view (fold fs_append [n, '' is declared [[=vcodec::transparent]] but has ''] (fs_empty 256)) \<noteq> []" for n
    unfolding message_def [symmetric] by (simp add: message_eq)
  then have "transparent_message n k \<noteq> []" for n k
    by (simp add: transparent_message_def fs_append_nonempty fs_append_int_nonempty)
  then show ?thesis
    using assms by (auto simp: build_type_info_def build_fields_def ti_ok_def Let_def bs_fail_error split: if_splits)
qed

lemma schema_positions: "map member_index (build_schema t) = [0..<length (build_schema t)]"
  using run_build_fields(1) [of t] by (simp add: build_schema_def)

lemma schema_unambiguous:
  "ti_ok (build_type_info t) \<Longrightarrow> distinct (concat (map wire_names (build_schema t)))"
  using check_duplicates_ok [of "collect_fields t [] False False new_build_state"] build_type_info_ok [of t]
  by (auto simp: build_schema_def run_build_def)

text \<open>C32. A schema that is reported usable has no ambiguity: no two names under which members are decoded, wire
  names and aliases of all fields, own, inherited and flattened, are equal, and every field carries its
  position in the table. Any clash of names makes the schema unusable.\<close>

theorem schema_names_distinct:
  "(ti_ok (build_type_info t) \<longrightarrow> distinct (concat (map wire_names (build_schema t))))
   \<and> map member_index (build_schema t) = [0..<length (build_schema t)]"
  using schema_unambiguous [of t] schema_positions [of t] by blast

lemma made_field_flags:
  assumes "made_field f"
  shows "fi_required (fm_info f) \<longleftrightarrow> resolved_required (fm_annotations f) (is_optional_like_v (fm_type f)) (has_flag (flags (fm_info f)) flag_has_dmi)"
    "fi_skip_serializing (fm_info f) \<longleftrightarrow> has_annotation ann_skip_serializing (fm_annotations f)"
    "fi_skip_deserializing (fm_info f) \<longleftrightarrow> has_annotation ann_skip_deserializing (fm_annotations f)"
    "fst (resolved_name (find_annotation rename_of_ann (type_annotations_of (fm_owner f))) (ident_of (fm_info f)) (fm_annotations f)) = wire_name (fm_info f)"
    "has_flag (flags (fm_info f)) flag_skip_if_null \<longleftrightarrow> has_annotation ann_skip_if_null (fm_annotations f)"
    "has_flag (flags (fm_info f)) flag_skip_if_default \<longleftrightarrow> has_annotation ann_skip_if_default (fm_annotations f)"
proof -
  have bits: "has_flag a b \<longleftrightarrow> a = b"
    if "a \<in> {1, 2, 4, 8, 16, 32, 64, 128, 256, 512, 1024, 2048, 4096}" "b \<in> {1, 2, 4, 8, 16, 512}" for a b
    using that by (auto simp: has_flag_def)
  have name: "snd (resolved_name r i as) \<in> {0, 1024, 2048}" for r i as
    by (simp add: resolved_name_def flag_defs split: option.split)
  have nm: "\<not> has_flag (snd (resolved_name r i as)) b" if "b \<in> {1, 2, 4, 8, 16, 512}" for r i as b
    using name [of r i as] that by (auto simp: bits)
  from assms obtain owner prefix vf vb i ident anns t dmi where f: "f = make_field owner prefix vf vb i ident anns t dmi"
    by (auto simp: made_field_def)
  show "fi_required (fm_info f) \<longleftrightarrow> resolved_required (fm_annotations f) (is_optional_like_v (fm_type f)) (has_flag (flags (fm_info f)) flag_has_dmi)"
    "fi_skip_serializing (fm_info f) \<longleftrightarrow> has_annotation ann_skip_serializing (fm_annotations f)"
    "fi_skip_deserializing (fm_info f) \<longleftrightarrow> has_annotation ann_skip_deserializing (fm_annotations f)"
    "has_flag (flags (fm_info f)) flag_skip_if_null \<longleftrightarrow> has_annotation ann_skip_if_null (fm_annotations f)"
    "has_flag (flags (fm_info f)) flag_skip_if_default \<longleftrightarrow> has_annotation ann_skip_if_default (fm_annotations f)"
    by (simp_all add: f make_field_def Let_def fi_required_def fi_skip_serializing_def fi_skip_deserializing_def
        resolved_flags_def flag_defs bits nm)
  show "fst (resolved_name (find_annotation rename_of_ann (type_annotations_of (fm_owner f))) (ident_of (fm_info f)) (fm_annotations f)) = wire_name (fm_info f)"
    by (simp add: f make_field_def Let_def)
qed

text \<open>What a field's annotations decide: a member is required exactly when it is not
  \<^verbatim>\<open>skip_deserializing\<close> nor \<^verbatim>\<open>optional\<close>, and is \<^verbatim>\<open>required\<close> or has no default of any kind (an optional-like
  type, a default member initialiser, a \<^verbatim>\<open>default_value\<close>); the wire name is the explicit name, else the
  renamed identifier, else the identifier.\<close>

theorem field_resolution:
  assumes "f \<in> set (build_fields t)"
  shows "(fi_required (fm_info f) \<longleftrightarrow>
            \<not> fi_skip_deserializing (fm_info f) \<and> \<not> has_annotation ann_optional (fm_annotations f)
            \<and> (has_annotation ann_required (fm_annotations f)
               \<or> \<not> (is_optional_like_v (fm_type f) \<or> has_flag (flags (fm_info f)) flag_has_dmi
                    \<or> find_annotation default_of_ann (fm_annotations f) \<noteq> None)))
     \<and> wire_name (fm_info f) =
         (case find_annotation name_of_ann (fm_annotations f) of
            Some n \<Rightarrow> n
          | None \<Rightarrow> (case find_annotation rename_of_ann (type_annotations_of (fm_owner f)) of
               Some style \<Rightarrow> apply_case (ident_of (fm_info f)) style | None \<Rightarrow> ident_of (fm_info f)))"
proof -
  have "made_field f"
    using assms run_build_fields(2) [of t] by (auto simp: build_fields_def list_all_iff)
  from made_field_flags [OF this] show ?thesis
    by (auto simp: resolved_required_def Let_def resolved_name_def split: option.splits)
qed

section \<open>A class\<close>

text \<open>A struct with a base, a flattened member and a renamed one, on which the schema is evaluated.\<close>

definition example_base :: rclass where
  "example_base = RClass ''Base'' [] [] [] [] [RMember (Some ''base_id'') [] (rt_other ''int'') False]"

definition example_inner :: rclass where
  "example_inner = RClass ''Inner'' [] [] [] [] [RMember (Some ''x'') [ann_name ''why''] (rt_other ''int'') True]"

definition example_class :: rclass where
  "example_class = RClass ''Server'' [ann_rename_all kebab] [] [(''port'', [ann_alias ''p''])] [RBase False example_base]
     [RMember (Some ''host_name'') [] (rt_other ''std::string'') False,
      RMember (Some ''inner'') [ann_flatten] (rt_class False example_inner) False,
      RMember (Some ''port'') [] (rt_optional_like ''std::optional<int>'') False]"

theorem schema_names_distinct_witness:
  "ti_ok (build_type_info example_class) \<and> distinct [''base_id'', ''host-name'', ''why'', ''port'', ''p'']"
proof -
  have ok: "ti_ok (build_type_info example_class)" by code_simp
  have "concat (map wire_names (build_schema example_class)) = [''base_id'', ''host-name'', ''why'', ''port'', ''p'']"
    by code_simp
  with ok schema_names_distinct [of example_class] show ?thesis by metis
qed

theorem field_resolution_witness:
  "wire_name (fm_info (build_fields example_class ! 1)) = ''host-name''"
proof -
  let ?f = "build_fields example_class ! 1"
  have n: "length (build_fields example_class) = 4" by code_simp
  have nm: "find_annotation name_of_ann (fm_annotations ?f) = None" by code_simp
  have rn: "find_annotation rename_of_ann (type_annotations_of (fm_owner ?f)) = Some kebab" by code_simp
  have ca: "apply_case (ident_of (fm_info ?f)) kebab = ''host-name''" by code_simp
  from n have "?f \<in> set (build_fields example_class)" by (intro nth_mem) simp
  from field_resolution [OF this] show ?thesis unfolding nm rn option.case ca by (rule conjunct2)
qed

end
