(* ===== verification/Core_Lookup.thy ===== *)
theory Core_Lookup
  imports Core_Schema "HOL-Library.Product_Lexorder" "HOL-Library.Multiset"
begin

text \<open>
  \<^verbatim>\<open>src/include/vcodec/core/lookup.hpp\<close>: from a wire name to the index of its field. Up to eight entries are
  scanned; a larger table is laid out in buckets of a 32-bit hash of length, first and last character, with a
  seed searched for at compile time. The edit distance behind "did you mean" is the two-row dynamic program
  of the source, on lists of \<^verbatim>\<open>size_t\<close>.
\<close>

section \<open>The table\<close>

record lookup_entry =
  le_key :: string
  le_index :: u32

record lookup_table =
  lt_entries :: "lookup_entry list"
  lt_bucket_start :: "u32 list"
  lt_bucket_count :: nat
  lt_seed :: u32

definition linear_scan_limit :: nat where
  "linear_scan_limit = 8"

definition lookup_hash :: "string \<Rightarrow> u32 \<Rightarrow> u32" where
  "lookup_hash k seed =
     (let h = of_nat (length k) * 0x9E3779B1;
          h = (if k \<noteq> [] then (h XOR ucast (uchar (hd k)) * 0x85EBCA6B) XOR ucast (uchar (last k)) * 0xC2B2AE35 else h);
          h = h * (seed OR 1)
      in h XOR drop_bit 15 h)"

text \<open>\<^verbatim>\<open>hash(key, seed) & (bucket_count - 1)\<close>\<close>

definition bucket_of :: "nat \<Rightarrow> u32 \<Rightarrow> string \<Rightarrow> nat" where
  "bucket_of m seed k = unat (lookup_hash k seed) AND (m - 1)"

text \<open>The scan of the entries from \<open>i\<close> up to \<open>last\<close>, exclusive.\<close>

function scan_entries :: "lookup_entry list \<Rightarrow> string \<Rightarrow> nat \<Rightarrow> nat \<Rightarrow> nat option" where
  "scan_entries es key i stop =
     (if i < stop then
        (if length (le_key (es ! i)) = length key \<and> le_key (es ! i) = key then Some (unat (le_index (es ! i)))
         else scan_entries es key (i + 1) stop)
      else None)"
  by auto
termination
  by (relation "measure (\<lambda>(es, key, i, stop). stop - i)") auto

declare scan_entries.simps [simp del]

definition lookup_find :: "lookup_table \<Rightarrow> string \<Rightarrow> nat option" where
  "lookup_find t key =
     (if lt_bucket_count t = 0 then scan_entries (lt_entries t) key 0 (length (lt_entries t))
      else let b = bucket_of (lt_bucket_count t) (lt_seed t) key
           in scan_entries (lt_entries t) key (unat (lt_bucket_start t ! b)) (unat (lt_bucket_start t ! (b + 1))))"

section \<open>Building\<close>

function bucket_total :: "nat \<Rightarrow> nat \<Rightarrow> nat" where
  "bucket_total m n = (if 0 < m \<and> m < n * 2 then bucket_total (m * 2) n else m)"
  by auto
termination
  by (relation "measure (\<lambda>(m, n). n * 2 - m)") auto

declare bucket_total.simps [simp del]

definition load_step :: "nat \<Rightarrow> u32 \<Rightarrow> lookup_entry \<Rightarrow> nat list \<times> nat \<Rightarrow> nat list \<times> nat" where
  "load_step m seed e lw =
     (let b = bucket_of m seed (le_key e); load = (fst lw)[b := fst lw ! b + 1] in (load, max (snd lw) (load ! b)))"

definition worst_load :: "nat \<Rightarrow> u32 \<Rightarrow> lookup_entry list \<Rightarrow> nat" where
  "worst_load m seed es = snd (fold (load_step m seed) es (replicate m 0, 0))"

function seed_loop :: "nat \<Rightarrow> lookup_entry list \<Rightarrow> nat \<Rightarrow> nat \<Rightarrow> nat \<Rightarrow> nat" where
  "seed_loop m es seed best_seed best_worst =
     (if seed < 64 then
        (let worst = worst_load m (of_nat seed) es;
             bs = (if worst < best_worst then seed else best_seed);
             bw = (if worst < best_worst then worst else best_worst)
         in if worst = 1 then bs else seed_loop m es (seed + 1) bs bw)
      else best_seed)"
  by auto
termination
  by (relation "measure (\<lambda>(m, es, seed, bs, bw). 64 - seed)") auto

declare seed_loop.simps [simp del]

definition entry_order :: "nat \<Rightarrow> u32 \<Rightarrow> lookup_entry \<Rightarrow> nat \<times> nat" where
  "entry_order m seed e = (bucket_of m seed (le_key e), unat (le_index e))"

text \<open>\<^verbatim>\<open>std::sort\<close> leaves the order of entries that compare equal open: two names of one field in one bucket. The
  model sorts stably; \<open>lay_out_find\<close> below holds for every order within a bucket, so nothing depends on it.\<close>

text \<open>The count of each bucket at the next position, then running sums in place.\<close>

definition count_buckets :: "nat \<Rightarrow> u32 \<Rightarrow> lookup_entry list \<Rightarrow> u32 list" where
  "count_buckets m seed es =
     fold (\<lambda>e starts. let b = bucket_of m seed (le_key e) + 1 in starts[b := starts ! b + 1]) es (replicate (m + 1) 0)"

definition running_sums :: "nat \<Rightarrow> u32 list \<Rightarrow> u32 list" where
  "running_sums m starts = fold (\<lambda>i starts. starts[i := starts ! i + starts ! (i - 1)]) [1..<m + 1] starts"

definition lay_out :: "nat \<Rightarrow> u32 \<Rightarrow> lookup_entry list \<Rightarrow> lookup_table" where
  "lay_out m seed sorted_es =
     \<lparr>lt_entries = sorted_es, lt_bucket_start = running_sums m (count_buckets m seed sorted_es),
      lt_bucket_count = m, lt_seed = seed\<rparr>"

definition build_lookup :: "lookup_entry list \<Rightarrow> lookup_table" where
  "build_lookup es =
     (if length es \<le> linear_scan_limit
      then \<lparr>lt_entries = es, lt_bucket_start = [], lt_bucket_count = 0, lt_seed = 0\<rparr>
      else let m = bucket_total 1 (length es); seed = of_nat (seed_loop m es 1 1 (length es + 1))
           in lay_out m seed (sort_key (entry_order m seed) es))"

definition field_lookup_entries :: "field_info \<Rightarrow> lookup_entry list" where
  "field_lookup_entries f = map (\<lambda>k. \<lparr>le_key = k, le_index = of_nat (member_index f)\<rparr>) (wire_name f # aliases f)"

definition build_field_lookup :: "field_info list \<Rightarrow> lookup_table" where
  "build_field_lookup schema = build_lookup (concat (map field_lookup_entries schema))"

fun enum_lookup_entries :: "u32 \<Rightarrow> enumerator_info list \<Rightarrow> lookup_entry list" where
  "enum_lookup_entries i [] = []"
| "enum_lookup_entries i (e # es) =
     (if ei_skipped e then []
      else map (\<lambda>k. \<lparr>le_key = k, le_index = i\<rparr>) (ei_name e # ei_aliases e)) @ enum_lookup_entries (i + 1) es"

definition build_enum_lookup :: "enumerator_info list \<Rightarrow> lookup_table" where
  "build_enum_lookup es = build_lookup (enum_lookup_entries 0 es)"

section \<open>Did you mean\<close>

text \<open>One cell and one row of the table; \<open>prev\<close> is the row of \<open>j - 1\<close>.\<close>

definition lev_cell :: "string \<Rightarrow> char \<Rightarrow> nat list \<Rightarrow> nat \<Rightarrow> nat list \<Rightarrow> nat list" where
  "lev_cell a c prev i cur =
     cur[i := min (prev ! i + 1) (min (cur ! (i - 1) + 1) (prev ! (i - 1) + (if a ! (i - 1) = c then 0 else 1)))]"

definition lev_row :: "string \<Rightarrow> string \<Rightarrow> nat \<Rightarrow> nat list \<times> nat list \<Rightarrow> nat list \<times> nat list" where
  "lev_row a b j pc =
     (let (prev, cur) = pc; cur = cur[0 := j];
          cur = fold (lev_cell a (b ! (j - 1)) prev) [1..<length a + 1] cur
      in (cur, prev))"

definition levenshtein :: "string \<Rightarrow> string \<Rightarrow> nat" where
  "levenshtein x y =
     (let (a, b) = (if length y < length x then (y, x) else (x, y));
          (prev, cur) = fold (lev_row a b) [1..<length b + 1] ([0..<length a + 1], replicate (length a + 1) 0)
      in prev ! length a)"

definition suggest_step :: "string \<Rightarrow> field_info \<Rightarrow> string \<times> nat \<Rightarrow> string \<times> nat" where
  "suggest_step key f bd =
     (if fi_skip_deserializing f then bd
      else let d = levenshtein key (wire_name f) in if d < snd bd then (wire_name f, d) else bd)"

definition suggest :: "string \<Rightarrow> field_info list \<Rightarrow> nat \<Rightarrow> string" where
  "suggest key schema max_distance = fst (fold (suggest_step key) schema ([], max_distance + 1))"

section \<open>Scanning\<close>

lemma find_map_of: "find (\<lambda>e. k e = q) xs = map_of (map (\<lambda>e. (k e, e)) xs) q"
  by (induction xs) auto

lemma scan_entries_find:
  assumes "stop \<le> length es"
  shows "scan_entries es key i stop = map_option (unat \<circ> le_index) (find (\<lambda>e. le_key e = key) (take (stop - i) (drop i es)))"
  using assms
proof (induction es key i stop rule: scan_entries.induct)
  case (1 es key i stop)
  show ?case
  proof (cases "i < stop")
    case True
    with 1(2) have s: "take (stop - i) (drop i es) = es ! i # take (stop - Suc i) (drop (Suc i) es)"
      by (metis Cons_nth_drop_Suc Suc_diff_Suc order_less_le_trans take_Suc_Cons)
    show ?thesis
    proof (cases "le_key (es ! i) = key")
      case True
      with \<open>i < stop\<close> show ?thesis unfolding s by (subst scan_entries.simps) simp
    next
      case False
      with 1 \<open>i < stop\<close> show ?thesis unfolding s by (subst scan_entries.simps) (simp add: comp_def)
    qed
  next
    case False
    then show ?thesis by (subst scan_entries.simps) simp
  qed
qed

section \<open>Buckets\<close>

lemma bucket_of_less: "0 < m \<Longrightarrow> bucket_of m seed k < m"
proof -
  assume "0 < m"
  have "int (bucket_of m seed k) \<le> int (m - 1)"
    unfolding bucket_of_def of_nat_and_eq by (rule AND_upper2) simp
  with \<open>0 < m\<close> show ?thesis by linarith
qed

lemma bucket_total_pos: "0 < m \<Longrightarrow> 0 < bucket_total m n"
  by (induction m n rule: bucket_total.induct) (subst bucket_total.simps, auto)

text \<open>A list sorted by \<open>f\<close> falls apart into the elements below, at and above a value.\<close>

lemma sorted_three_way:
  fixes f :: "'a \<Rightarrow> nat"
  assumes "sorted (map f xs)"
  shows "xs = filter (\<lambda>x. f x < b) xs @ filter (\<lambda>x. f x = b) xs @ filter (\<lambda>x. b < f x) xs"
  using assms
proof (induction xs)
  case (Cons x xs)
  then have le: "\<forall>y\<in>set xs. f x \<le> f y" and IH: "xs = filter (\<lambda>x. f x < b) xs @ filter (\<lambda>x. f x = b) xs @ filter (\<lambda>x. b < f x) xs"
    by simp_all
  consider "f x < b" | "f x = b" | "b < f x" by linarith
  then show ?case
  proof cases
    case 1
    then show ?thesis using IH by simp
  next
    case 2
    then have "filter (\<lambda>x. f x < b) xs = []" using le by (auto simp: filter_empty_conv)
    then show ?thesis using IH 2 by simp
  next
    case 3
    then have "filter (\<lambda>x. f x < b) xs = []" "filter (\<lambda>x. f x = b) xs = []" using le by (auto simp: filter_empty_conv)
    then show ?thesis using IH 3 by simp
  qed
qed simp

definition below :: "('a \<Rightarrow> nat) \<Rightarrow> nat \<Rightarrow> 'a list \<Rightarrow> nat" where
  "below f b xs = length (filter (\<lambda>x. f x < b) xs)"

lemma below_Suc: "below f (Suc b) xs = below f b xs + length (filter (\<lambda>x. f x = b) xs)"
  by (induction xs) (auto simp: below_def)

lemma below_le: "below f b xs \<le> length xs"
  by (simp add: below_def)

lemma sorted_slice:
  assumes "sorted (map f xs)"
  shows "take (below f (Suc b) xs - below f b xs) (drop (below f b xs) xs) = filter (\<lambda>x. f x = b) xs"
proof -
  have "drop (below f b xs) xs = filter (\<lambda>x. f x = b) xs @ filter (\<lambda>x. b < f x) xs"
    using sorted_three_way [OF assms, of b] by (metis append_eq_conv_conj below_def)
  then show ?thesis by (simp add: below_Suc)
qed

lemma count_fold:
  fixes s :: "u32 list"
  shows "length (fold (\<lambda>e starts. starts[g e := starts ! g e + 1]) es s) = length s"
    and "j < length s \<Longrightarrow> fold (\<lambda>e starts. starts[g e := starts ! g e + 1]) es s ! j
           = s ! j + of_nat (length (filter (\<lambda>e. g e = j) es))"
  by (induction es arbitrary: s) (auto simp: nth_list_update)

lemma length_count_buckets [simp]: "length (count_buckets m seed es) = m + 1"
  unfolding count_buckets_def Let_def by (subst count_fold(1)) simp

lemma count_buckets_nth:
  assumes "j \<le> m"
  shows "count_buckets m seed es ! j = of_nat (length (filter (\<lambda>e. bucket_of m seed (le_key e) + 1 = j) es))"
  unfolding count_buckets_def Let_def using assms by (subst count_fold(2)) (simp_all del: replicate_Suc)

lemma length_running [simp]: "length (fold (\<lambda>i starts. starts[i := starts ! i + starts ! (i - 1)]) js s) = length (s :: u32 list)"
  by (induction js arbitrary: s) simp_all

lemma running_sums_nth:
  assumes "n < length s"
  shows "j < length s \<Longrightarrow> running_sums n s ! j = (if j \<le> n then \<Sum>i\<le>j. s ! i else s ! j)"
  using assms
proof (induction n arbitrary: j)
  case 0
  then show ?case by (auto simp: running_sums_def)
next
  case (Suc n)
  have step: "running_sums (Suc n) s = (running_sums n s)[Suc n := running_sums n s ! Suc n + running_sums n s ! n]"
    by (simp add: running_sums_def)
  have len: "length (running_sums n s) = length s" unfolding running_sums_def by (rule length_running)
  show ?case
    unfolding step using Suc.IH [of j] Suc.IH [of n] Suc.IH [of "Suc n"] Suc.prems len
    by (auto simp: nth_list_update add.commute le_Suc_eq)
qed

lemma starts_below:
  assumes "b \<le> m"
  shows "running_sums m (count_buckets m seed es) ! b = of_nat (below (\<lambda>e. bucket_of m seed (le_key e)) b es)"
proof -
  have "(\<Sum>i\<le>b. count_buckets m seed es ! i) = of_nat (below (\<lambda>e. bucket_of m seed (le_key e)) b es)"
    using assms
  proof (induction b)
    case 0
    then show ?case by (simp add: count_buckets_nth below_def)
  next
    case (Suc b)
    then show ?case by (simp add: count_buckets_nth below_Suc)
  qed
  then show ?thesis using assms by (simp add: running_sums_nth)
qed

lemma lay_out_find:
  assumes "0 < m" "sorted (map (\<lambda>e. bucket_of m seed (le_key e)) es)" "length es < 2 ^ 32"
  shows "lookup_find (lay_out m seed es) key = map_option (unat \<circ> le_index) (find (\<lambda>e. le_key e = key) es)"
proof -
  let ?f = "\<lambda>e. bucket_of m seed (le_key e)" and ?b = "bucket_of m seed key"
  have b: "?b < m" using bucket_of_less [OF assms(1)] .
  have starts: "unat (running_sums m (count_buckets m seed es) ! c) = below ?f c es" if "c \<le> m" for c
    using starts_below [OF that] below_le [of ?f c es] assms(3) by (simp add: unsigned_of_nat take_bit_eq_mod)
  have "lookup_find (lay_out m seed es) key
      = map_option (unat \<circ> le_index) (find (\<lambda>e. le_key e = key) (filter (\<lambda>e. ?f e = ?b) es))"
    using b assms(1) starts [of ?b] starts [of "Suc ?b"]
    by (simp add: lookup_find_def lay_out_def scan_entries_find below_le sorted_slice [OF assms(2)])
  also have "find (\<lambda>e. le_key e = key) (filter (\<lambda>e. ?f e = ?b) es) = find (\<lambda>e. le_key e = key) es"
    by (induction es) auto
  finally show ?thesis .
qed

lemma find_permuted:
  assumes "distinct (map k xs)" "mset xs = mset ys"
  shows "find (\<lambda>e. k e = q) ys = find (\<lambda>e. k e = q) xs"
proof -
  have "distinct (map k ys)" using assms by (metis mset_eq_imp_distinct_iff mset_map)
  moreover have "set ys = set xs" using assms(2) by (metis mset_eq_setD)
  ultimately have "map_of (map (\<lambda>e. (k e, e)) ys) = map_of (map (\<lambda>e. (k e, e)) xs)"
    using assms(1) by (subst map_of_inject_set) (simp_all add: comp_def)
  then show ?thesis by (simp add: find_map_of)
qed

lemma find_distinct_iff:
  assumes "distinct (map k xs)"
  shows "find (\<lambda>e. k e = q) xs = Some e \<longleftrightarrow> e \<in> set xs \<and> k e = q"
proof -
  have "distinct (map fst (map (\<lambda>e. (k e, e)) xs))" using assms by (simp add: comp_def)
  then have "map_of (map (\<lambda>e. (k e, e)) xs) q = Some e \<longleftrightarrow> (q, e) \<in> set (map (\<lambda>e. (k e, e)) xs)"
    by (rule map_of_eq_Some_iff)
  then show ?thesis by (auto simp: find_map_of)
qed

lemma map_of_find: "map_of (map (\<lambda>e. (k e, v e)) xs) q = map_option v (find (\<lambda>e. k e = q) xs)"
  by (induction xs) auto

lemma sorted_entry_order:
  "sorted (map (\<lambda>e. bucket_of m seed (le_key e)) (sort_key (entry_order m seed) es))"
proof -
  let ?o = "entry_order m seed"
  have mono: "bucket_of m seed (le_key x) \<le> bucket_of m seed (le_key y)" if "?o x \<le> ?o y" for x y
    using that by (auto simp: entry_order_def)
  have "sorted_wrt (\<lambda>x y. ?o x \<le> ?o y) (sort_key ?o es)"
    using sorted_sort_key [of ?o es] by (simp only: sorted_map)
  then show ?thesis unfolding sorted_map by (rule sorted_wrt_mono_rel [rotated]) (rule mono)
qed

lemma build_lookup_find:
  assumes "distinct (map le_key es)" "length es < 2 ^ 32"
  shows "lookup_find (build_lookup es) key = map_option (unat \<circ> le_index) (find (\<lambda>e. le_key e = key) es)"
proof (cases "length es \<le> linear_scan_limit")
  case True
  then show ?thesis by (simp add: build_lookup_def lookup_find_def scan_entries_find)
next
  case False
  define m where "m = bucket_total 1 (length es)"
  define seed :: u32 where "seed = of_nat (seed_loop m es 1 1 (length es + 1))"
  have "lookup_find (lay_out m seed (sort_key (entry_order m seed) es)) key
      = map_option (unat \<circ> le_index) (find (\<lambda>e. le_key e = key) (sort_key (entry_order m seed) es))"
    using assms(2) bucket_total_pos [of 1] by (intro lay_out_find sorted_entry_order) (simp_all add: m_def)
  also have "\<dots> = map_option (unat \<circ> le_index) (find (\<lambda>e. le_key e = key) es)"
    using find_permuted [OF assms(1), where ys = "sort_key (entry_order m seed) es" and q = key] by simp
  finally have eq: "lookup_find (lay_out m seed (sort_key (entry_order m seed) es)) key
      = map_option (unat \<circ> le_index) (find (\<lambda>e. le_key e = key) es)" .
  have "build_lookup es = lay_out m seed (sort_key (entry_order m seed) es)"
    unfolding build_lookup_def m_def seed_def Let_def using False by (rule if_not_P)
  then show ?thesis by (rule subst [OF sym]) (rule eq)
qed

text \<open>C34. The compile-time hash table is a map: for any list of entries with distinct keys, whatever seed the
  search settles on and however the entries are scanned, \<^verbatim>\<open>find\<close> returns the index stored with the key, and
  nothing for any other text.\<close>

theorem lookup_find_exact:
  assumes "distinct (map le_key es)" "length es < 2 ^ 32"
  shows "lookup_find (build_lookup es) key = map_of (map (\<lambda>e. (le_key e, unat (le_index e))) es) key"
  using build_lookup_find [OF assms, of key] by (simp add: map_of_find comp_def)

theorem lookup_find_exact_witness:
  "lookup_find (build_lookup (map (\<lambda>i. \<lparr>le_key = [char_of (97 + i)], le_index = of_nat i\<rparr>) [0..<12])) ''d'' = Some 3"
proof -
  let ?es = "map (\<lambda>i. \<lparr>le_key = [char_of (97 + i)], le_index = of_nat i\<rparr>) [0..<12]"
  have d: "distinct (map le_key ?es)" by code_simp
  have n: "length ?es < 2 ^ 32" by simp
  have "map_of (map (\<lambda>e. (le_key e, unat (le_index e))) ?es) ''d'' = Some 3" by code_simp
  with lookup_find_exact [OF d n, of "''d''"] show ?thesis by (simp only:)
qed

lemma field_entry_keys: "map le_key (concat (map field_lookup_entries fs)) = concat (map wire_names fs)"
  by (induction fs) (simp_all add: field_lookup_entries_def wire_names_def comp_def)

lemma length_le_concat: "(\<And>x. x \<in> set xs \<Longrightarrow> f x \<noteq> []) \<Longrightarrow> length xs \<le> length (concat (map f xs))"
proof (induction xs)
  case (Cons x xs)
  from Cons(2) [of x] have "0 < length (f x)" by simp
  moreover have "length xs \<le> length (concat (map f xs))" using Cons by simp
  ultimately show ?case by (simp only: list.map concat.simps length_append list.size)
qed simp

text \<open>The entry of a name is found at its field.\<close>

lemma field_lookup_find:
  assumes "ti_ok (build_type_info t)" "length (concat (map wire_names (build_schema t))) < 2 ^ 32"
  shows "lookup_find (build_field_lookup (build_schema t)) key = Some i \<longleftrightarrow>
     i < length (build_schema t) \<and> key \<in> set (wire_names (build_schema t ! i))"
proof -
  let ?fs = "build_schema t" and ?es = "concat (map field_lookup_entries (build_schema t))"
  have names: "distinct (concat (map wire_names ?fs))" and idx: "map member_index ?fs = [0..<length ?fs]"
    using schema_unambiguous [OF assms(1)] schema_positions [of t] by blast+
  have dist: "distinct (map le_key ?es)" using names by (simp add: field_entry_keys)
  have "length ?es = length (concat (map wire_names ?fs))" by (metis field_entry_keys length_map)
  then have len: "length ?es < 2 ^ 32" using assms(2) by simp
  have small: "length ?fs < 2 ^ 32"
    using length_le_concat [of ?fs wire_names] assms(2) by (simp add: wire_names_def)
  have at: "member_index (?fs ! j) = j" if "j < length ?fs" for j
    using arg_cong [OF idx, of "\<lambda>xs. xs ! j"] that by simp
  have fe: "set (field_lookup_entries (?fs ! j)) = {\<lparr>le_key = k, le_index = of_nat j\<rparr> |k. k \<in> set (wire_names (?fs ! j))}"
    if "j < length ?fs" for j
    using at [OF that] by (auto simp: field_lookup_entries_def wire_names_def)
  have "set ?es = (\<Union>f\<in>set ?fs. set (field_lookup_entries f))" by simp
  also have "\<dots> = (\<Union>j<length ?fs. {\<lparr>le_key = k, le_index = of_nat j\<rparr> |k. k \<in> set (wire_names (?fs ! j))})"
    using fe by (auto simp: set_conv_nth [of ?fs])
  finally have ent: "e \<in> set ?es \<longleftrightarrow> (\<exists>j k. j < length ?fs \<and> k \<in> set (wire_names (?fs ! j)) \<and> e = \<lparr>le_key = k, le_index = of_nat j\<rparr>)" for e
    by blast
  have un: "unat (of_nat j :: u32) = j" if "j < length ?fs" for j
    using that small by (simp add: unsigned_of_nat take_bit_eq_mod)
  have "lookup_find (build_field_lookup ?fs) key = Some i \<longleftrightarrow> (\<exists>e\<in>set ?es. le_key e = key \<and> unat (le_index e) = i)"
    using build_lookup_find [OF dist len, of key] find_distinct_iff [OF dist, of key]
    by (auto simp: build_field_lookup_def)
  also have "\<dots> \<longleftrightarrow> i < length ?fs \<and> key \<in> set (wire_names (?fs ! i))"
    using un unfolding ent Bex_def by force
  finally show ?thesis .
qed

text \<open>C33. Schema and lookup together: for every class whose schema is usable, the field a name is decoded into is
  the one and only field that has it as wire name or alias; a name of no field is not found.\<close>

theorem field_lookup_exact:
  assumes "ti_ok (build_type_info t)" "length (concat (map wire_names (build_schema t))) < 2 ^ 32"
  shows "lookup_find (build_field_lookup (build_schema t)) key = Some i \<longleftrightarrow>
     i < length (build_schema t) \<and> key \<in> set (wire_names (build_schema t ! i))"
  using assms by (rule field_lookup_find)

theorem field_lookup_exact_witness:
  "lookup_find (build_field_lookup (build_schema example_class)) ''p'' = Some 3"
proof -
  have ok: "ti_ok (build_type_info example_class)" by code_simp
  have "length (concat (map wire_names (build_schema example_class))) = 5" by code_simp
  then have n: "length (concat (map wire_names (build_schema example_class))) < 2 ^ 32" by simp
  have "3 < length (build_schema example_class)" by code_simp
  moreover have "list_ex (\<lambda>k. k = ''p'') (wire_names (build_schema example_class ! 3))" by code_simp
  then have "''p'' \<in> set (wire_names (build_schema example_class ! 3))" by (auto simp: list_ex_iff)
  ultimately show ?thesis using field_lookup_exact [OF ok n, of "''p''" 3] by blast
qed

section \<open>Edit distance\<close>

text \<open>Reference: \<open>edits n xs ys\<close> holds when \<open>n\<close> single-character insertions, deletions and replacements turn
  \<open>xs\<close> into \<open>ys\<close>, aligned from left to right.\<close>

inductive edits :: "nat \<Rightarrow> 'a list \<Rightarrow> 'a list \<Rightarrow> bool" where
  edits_done: "edits 0 [] []"
| edits_keep: "edits n xs ys \<Longrightarrow> edits n (x # xs) (x # ys)"
| edits_replace: "edits n xs ys \<Longrightarrow> edits (Suc n) (x # xs) (y # ys)"
| edits_insert: "edits n xs ys \<Longrightarrow> edits (Suc n) xs (y # ys)"
| edits_delete: "edits n xs ys \<Longrightarrow> edits (Suc n) (x # xs) ys"

inductive_cases edits_NilE: "edits n [] ys"
inductive_cases edits_ConsE: "edits n (x # xs) (y # ys)"

lemma edits_flip: "edits n xs ys \<Longrightarrow> edits n ys xs"
  by (induction rule: edits.induct) (auto intro: edits.intros)

lemma edits_append: "edits m xs ys \<Longrightarrow> edits n us vs \<Longrightarrow> edits (m + n) (xs @ us) (ys @ vs)"
  by (induction rule: edits.induct) (auto intro: edits.intros)

lemma edits_reverse: "edits n xs ys \<Longrightarrow> edits n (rev xs) (rev ys)"
proof (induction rule: edits.induct)
  case (edits_keep n xs ys x)
  have "edits 0 [x] [x]" by (intro edits.intros)
  from edits_append [OF edits_keep.IH this] show ?case by simp
next
  case (edits_replace n xs ys x y)
  have "edits (Suc 0) [x] [y]" by (intro edits.intros)
  from edits_append [OF edits_replace.IH this] show ?case by simp
next
  case (edits_insert n xs ys y)
  have "edits (Suc 0) [] [y]" by (intro edits.intros)
  from edits_append [OF edits_insert.IH this] show ?case by simp
next
  case (edits_delete n xs ys x)
  have "edits (Suc 0) [x] []" by (intro edits.intros)
  from edits_append [OF edits_delete.IH this] show ?case by simp
qed (simp add: edits_done)

fun edit_distance :: "'a list \<Rightarrow> 'a list \<Rightarrow> nat" where
  "edit_distance [] ys = length ys"
| "edit_distance (x # xs) [] = Suc (length xs)"
| "edit_distance (x # xs) (y # ys) =
     min (edit_distance (x # xs) ys + 1) (min (edit_distance xs (y # ys) + 1) (edit_distance xs ys + (if x = y then 0 else 1)))"

lemma edit_distance_Nil [simp]: "edit_distance xs [] = length xs"
  by (cases xs) simp_all

lemma min_three: "min a (min b c) = a \<or> min a (min b c) = b \<or> min a (min b c) = c" for a b c :: nat
  by linarith

lemma edit_distance_edits: "edits (edit_distance xs ys) xs ys"
proof (induction xs ys rule: edit_distance.induct)
  case (1 ys)
  show ?case by (induction ys) (auto intro: edits.intros)
next
  case (2 x xs)
  show ?case by (simp add: edits_delete) (rule edits_delete, induction xs, auto intro: edits.intros)
next
  case (3 x xs y ys)
  consider "edit_distance (x # xs) (y # ys) = edit_distance (x # xs) ys + 1"
    | "edit_distance (x # xs) (y # ys) = edit_distance xs (y # ys) + 1"
    | "edit_distance (x # xs) (y # ys) = edit_distance xs ys + (if x = y then 0 else 1)"
    using min_three [of "edit_distance (x # xs) ys + 1" "edit_distance xs (y # ys) + 1"] by (metis edit_distance.simps(3))
  then show ?case
    using 3 by cases (simp_all only: Suc_eq_plus1 [symmetric] add_0_right, auto intro: edits.intros)
qed

lemma edit_distance_le: "edits n xs ys \<Longrightarrow> edit_distance xs ys \<le> n"
proof (induction rule: edits.induct)
  case (edits_insert n xs ys y)
  then show ?case by (cases xs) auto
next
  case (edits_delete n xs ys x)
  then show ?case by (cases ys) auto
qed auto

subsection \<open>The two-row program\<close>

definition lev_at :: "string \<Rightarrow> string \<Rightarrow> nat \<Rightarrow> nat \<Rightarrow> nat" where
  "lev_at a b i j = edit_distance (rev (take i a)) (rev (take j b))"

lemma rev_take_Suc: "i < length xs \<Longrightarrow> rev (take (Suc i) xs) = xs ! i # rev (take i xs)"
  by (simp add: take_Suc_conv_app_nth)

lemma lev_at_step:
  assumes "i < length a" "j < length b"
  shows "lev_at a b (Suc i) (Suc j) =
    min (lev_at a b (Suc i) j + 1) (min (lev_at a b i (Suc j) + 1) (lev_at a b i j + (if a ! i = b ! j then 0 else 1)))"
  using assms by (simp add: lev_at_def rev_take_Suc)

lemma lev_at_edge: "i \<le> length a \<Longrightarrow> lev_at a b i 0 = i" "j \<le> length b \<Longrightarrow> lev_at a b 0 j = j"
  by (simp_all add: lev_at_def)

lemma lev_cells:
  assumes "j < length b" "length prev = length a + 1" "length cur = length a + 1" "cur ! 0 = Suc j"
    "\<forall>i\<le>length a. prev ! i = lev_at a b i j"
  shows "n \<le> length a \<Longrightarrow>
    length (fold (lev_cell a (b ! j) prev) [1..<n + 1] cur) = length a + 1
    \<and> (\<forall>i\<le>n. fold (lev_cell a (b ! j) prev) [1..<n + 1] cur ! i = lev_at a b i (Suc j))"
proof (induction n)
  case 0
  then show ?case using assms by (simp add: lev_at_edge)
next
  case (Suc n)
  let ?c = "fold (lev_cell a (b ! j) prev) [1..<n + 1] cur"
  have IH: "length ?c = length a + 1" "\<forall>i\<le>n. ?c ! i = lev_at a b i (Suc j)" using Suc by auto
  have step: "fold (lev_cell a (b ! j) prev) [1..<Suc n + 1] cur = ?c[Suc n := lev_at a b (Suc n) (Suc j)]"
    using IH Suc.prems assms(1,5) by (simp add: lev_cell_def lev_at_step)
  show ?case unfolding step using IH Suc.prems by (auto simp: nth_list_update le_Suc_eq)
qed

lemma lev_rows:
  assumes "n \<le> length b"
  shows "\<exists>prev cur. fold (lev_row a b) [1..<n + 1] ([0..<length a + 1], replicate (length a + 1) 0) = (prev, cur)
    \<and> length prev = length a + 1 \<and> length cur = length a + 1 \<and> (\<forall>i\<le>length a. prev ! i = lev_at a b i n)"
  using assms
proof (induction n)
  case 0
  then show ?case by (auto simp: lev_at_edge simp del: upt_Suc)
next
  case (Suc n)
  then obtain prev cur where IH: "fold (lev_row a b) [1..<n + 1] ([0..<length a + 1], replicate (length a + 1) 0) = (prev, cur)"
    "length prev = length a + 1" "length cur = length a + 1" "\<forall>i\<le>length a. prev ! i = lev_at a b i n"
    by auto
  define row where "row = fold (lev_cell a (b ! n) prev) [1..<length a + 1] (cur[0 := Suc n])"
  have row: "length row = length a + 1" "\<forall>i\<le>length a. row ! i = lev_at a b i (Suc n)"
    using lev_cells [of n b prev a "cur[0 := Suc n]" "length a"] IH Suc.prems by (auto simp: row_def)
  have "fold (lev_row a b) [1..<Suc n + 1] ([0..<length a + 1], replicate (length a + 1) 0) = (row, prev)"
    using IH(1) by (simp add: lev_row_def row_def del: upt_Suc) (simp add: IH(1) upt_Suc lev_row_def)
  with row IH(2) show ?case by blast
qed

lemma levenshtein_distance:
  "levenshtein x y = (if length y < length x then edit_distance (rev y) (rev x) else edit_distance (rev x) (rev y))"
proof -
  have "(let (prev, cur) = fold (lev_row a b) [1..<length b + 1] ([0..<length a + 1], replicate (length a + 1) 0)
      in prev ! length a) = edit_distance (rev a) (rev b)" for a b
    using lev_rows [of "length b" b a] by (auto simp: lev_at_def simp del: upt_Suc)
  then show ?thesis by (simp add: levenshtein_def del: upt_Suc)
qed

text \<open>C35. The dynamic program computes the edit distance: as many single-character insertions, deletions and
  replacements as it returns do turn one string into the other, and no fewer can.\<close>

theorem levenshtein_least: "edits (levenshtein x y) x y \<and> (\<forall>n. edits n x y \<longrightarrow> levenshtein x y \<le> n)"
proof (cases "length y < length x")
  case True
  then show ?thesis
    using edits_flip [OF edits_reverse [OF edit_distance_edits [of "rev y" "rev x"]]]
      edit_distance_le [OF edits_reverse [OF edits_flip]]
    by (auto simp: levenshtein_distance)
next
  case False
  then show ?thesis
    using edits_reverse [OF edit_distance_edits [of "rev x" "rev y"]] edit_distance_le [OF edits_reverse]
    by (auto simp: levenshtein_distance)
qed

theorem levenshtein_least_witness: "levenshtein ''hostname'' ''host_name'' \<le> 1"
proof -
  have "edits 1 ''hostname'' ''host_name''"
    unfolding One_nat_def by (intro edits_keep edits_insert edits_done)
  with levenshtein_least [of "''hostname''" "''host_name''"] show ?thesis by blast
qed

lemma suggest_fold:
  assumes "fold (suggest_step key) fs (b, n) = (b', n')"
  shows "n' \<le> n \<and> (\<forall>f\<in>set fs. fi_skip_deserializing f \<or> n' \<le> levenshtein key (wire_name f))
    \<and> ((b', n') = (b, n) \<or> n' < n \<and> (\<exists>f\<in>set fs. \<not> fi_skip_deserializing f \<and> b' = wire_name f \<and> n' = levenshtein key (wire_name f)))"
  using assms
proof (induction fs arbitrary: b n)
  case (Cons f fs)
  obtain b1 n1 where s: "suggest_step key f (b, n) = (b1, n1)" by fastforce
  then have "fold (suggest_step key) fs (b1, n1) = (b', n')" using Cons.prems by simp
  note IH = Cons.IH [OF this]
  have "n1 \<le> n \<and> (fi_skip_deserializing f \<or> n1 \<le> levenshtein key (wire_name f))
    \<and> ((b1, n1) = (b, n) \<or> n1 < n \<and> \<not> fi_skip_deserializing f \<and> b1 = wire_name f \<and> n1 = levenshtein key (wire_name f))"
    using s by (auto simp: suggest_step_def Let_def split: if_splits)
  with IH show ?case by auto
qed simp

text \<open>C40. A suggestion is the closest name: either no decodable field is within the distance and nothing is
  suggested, or the suggestion is the wire name of a decodable field within the distance that no other
  decodable field beats.\<close>

theorem suggest_closest:
  "(suggest key schema d = [] \<and> (\<forall>f\<in>set schema. \<not> fi_skip_deserializing f \<longrightarrow> d < levenshtein key (wire_name f)))
   \<or> (\<exists>f\<in>set schema. \<not> fi_skip_deserializing f \<and> suggest key schema d = wire_name f \<and> levenshtein key (wire_name f) \<le> d
        \<and> (\<forall>g\<in>set schema. \<not> fi_skip_deserializing g \<longrightarrow> levenshtein key (wire_name f) \<le> levenshtein key (wire_name g)))"
proof -
  obtain b n where r: "fold (suggest_step key) schema ([], d + 1) = (b, n)" by fastforce
  then have s: "suggest key schema d = b" by (simp only: suggest_def fst_conv)
  note facts = suggest_fold [OF r]
  show ?thesis
  proof (cases "n = d + 1")
    case True
    then show ?thesis using facts by (auto simp: s)
  next
    case False
    then have "n \<le> d" using facts by linarith
    with False facts show ?thesis by (auto simp: s)
  qed
qed

theorem suggest_closest_witness: "suggest ''q'' (build_schema example_class) 2 = []"
proof -
  have "list_all (\<lambda>f. 2 < levenshtein ''q'' (wire_name f)) (build_schema example_class)" by code_simp
  then have "\<not> levenshtein ''q'' (wire_name f) \<le> 2" if "f \<in> set (build_schema example_class)" for f
    using that by (auto simp: list_all_iff)
  with suggest_closest [of "''q''" "build_schema example_class" 2] show ?thesis by blast
qed

end
