(* ===== verification/Core_Keys.thy ===== *)
theory Core_Keys
  imports Core_Lookup Cbor_Head
begin

text \<open>
  \<^verbatim>\<open>src/include/vcodec/core/keys.hpp\<close> and the keying part of \<^verbatim>\<open>src/include/vcodec/cbor/traits.hpp\<close>: the integer keys a
  format gives the members of a struct, the table from key to field, dense or searched by bisection, and
  the order in which members are emitted. A \<^verbatim>\<open>std::int64_t\<close> is an \<open>int\<close> in range; the subtraction of two is
  undefined where it leaves the range, which the model makes a value of its own at run time and an
  ill-formed program during constant evaluation.
\<close>

section \<open>The table\<close>

definition in_i64 :: "int \<Rightarrow> bool" where
  "in_i64 k \<longleftrightarrow> - (2 ^ 63) \<le> k \<and> k < 2 ^ 63"

record int_key =
  ik_present :: bool
  ik_value :: int
  ik_text_ok :: bool

record int_key_entry =
  ike_key :: int
  ike_index :: u32

record key_table =
  kt_keys :: "int_key list"
  kt_dense :: bool
  kt_base :: int
  kt_slots :: "u32 list"
  kt_sorted :: "int_key_entry list"
  kt_error :: string

definition empty_key_table :: key_table where
  "empty_key_table = \<lparr>kt_keys = [], kt_dense = False, kt_base = 0, kt_slots = [], kt_sorted = [], kt_error = []\<rparr>"

definition kt_ok :: "key_table \<Rightarrow> bool" where
  "kt_ok t \<longleftrightarrow> kt_error t = []"

definition kt_any :: "key_table \<Rightarrow> bool" where
  "kt_any t \<longleftrightarrow> (if kt_dense t then kt_slots t \<noteq> [] else kt_sorted t \<noteq> [])"

datatype key_lookup = key_at nat | key_absent | key_undefined

function bisect :: "int_key_entry list \<Rightarrow> int \<Rightarrow> nat \<Rightarrow> nat \<Rightarrow> key_lookup" where
  "bisect es k lo hi =
     (if lo < hi then
        (let mid = (lo + hi) div 2
         in if ike_key (es ! mid) < k then bisect es k (mid + 1) hi
            else if k < ike_key (es ! mid) then bisect es k lo mid
            else key_at (unat (ike_index (es ! mid))))
      else key_absent)"
  by auto
termination
  by (relation "measure (\<lambda>(es, k, lo, hi). hi - lo)") auto

declare bisect.simps [simp del]

definition key_find :: "key_table \<Rightarrow> int \<Rightarrow> key_lookup" where
  "key_find t k =
     (if kt_dense t then
        (if k < kt_base t then key_absent
         else if \<not> in_i64 (k - kt_base t) then key_undefined
         else if int (length (kt_slots t)) \<le> k - kt_base t then key_absent
         else let v = kt_slots t ! nat (k - kt_base t) in if v = 0xFFFFFFFF then key_absent else key_at (unat v))
      else bisect (kt_sorted t) k 0 (length (kt_sorted t)))"

section \<open>Building\<close>

text \<open>What \<^verbatim>\<open>format_traits<Format>\<close> says about keys.\<close>

record key_traits =
  ktr_name :: string
  ktr_spelling :: string
  ktr_integer_key :: "field_meta \<Rightarrow> int option"
  ktr_accepts_text_key :: "field_meta \<Rightarrow> bool"

definition clash_text :: "key_traits \<Rightarrow> string \<Rightarrow> string \<Rightarrow> int \<Rightarrow> string" where
  "clash_text tr q1 q2 k =
     (let b = fold fs_append [q1, '' and '', q2, '' both map to the '', ktr_name tr, '' key ''] (fs_empty 512);
          b = fold fs_append ['' (via '', ktr_spelling tr, ''(''] (fs_append_int 64 k b)
      in fs_view (fs_append '')).'' (fs_append_int 64 k b)))"

record key_build =
  kb_keys :: "int_key list"
  kb_entries :: "int_key_entry list"
  kb_err :: string

definition key_step :: "key_traits \<Rightarrow> field_info list \<Rightarrow> field_meta \<Rightarrow> key_build \<Rightarrow> key_build" where
  "key_step tr schema f kb =
     (case ktr_integer_key tr f of
        Some k \<Rightarrow>
          kb\<lparr>kb_err := (case find (\<lambda>e. ike_key e = k \<and> kb_err kb = []) (kb_entries kb) of
                 Some e \<Rightarrow> clash_text tr (qual_name (schema ! unat (ike_index e))) (qual_name (fm_info f)) k
               | None \<Rightarrow> kb_err kb),
             kb_entries := kb_entries kb @ [\<lparr>ike_key = k, ike_index = of_nat (member_index (fm_info f))\<rparr>],
             kb_keys := kb_keys kb @ [\<lparr>ik_present = True, ik_value = k, ik_text_ok = ktr_accepts_text_key tr f\<rparr>]\<rparr>
      | None \<Rightarrow> kb\<lparr>kb_keys := kb_keys kb @ [\<lparr>ik_present = False, ik_value = 0, ik_text_ok = True\<rparr>]\<rparr>)"

definition key_entries :: "key_traits \<Rightarrow> field_meta list \<Rightarrow> key_build" where
  "key_entries tr fs = fold (key_step tr (map fm_info fs)) fs \<lparr>kb_keys = [], kb_entries = [], kb_err = []\<rparr>"

definition fill_slots :: "int \<Rightarrow> nat \<Rightarrow> int_key_entry list \<Rightarrow> u32 list" where
  "fill_slots lo n es = fold (\<lambda>e slots. slots[nat (ike_key e - lo) := ike_index e]) es (replicate n 0xFFFFFFFF)"

text \<open>\<^verbatim>\<open>hi - lo\<close> is computed by the compiler: leaving the range of \<^verbatim>\<open>std::int64_t\<close> is a compile error, \<open>None\<close>.\<close>

definition build_key_table :: "key_traits \<Rightarrow> field_meta list \<Rightarrow> key_table option" where
  "build_key_table tr fs =
     (let kb = key_entries tr fs; t = empty_key_table\<lparr>kt_keys := kb_keys kb, kt_error := kb_err kb\<rparr>
      in if kb_entries kb = [] then Some t
         else let es = sort_key ike_key (kb_entries kb); lo = ike_key (hd es); hi = ike_key (last es)
              in if \<not> in_i64 (hi - lo) then None
                 else if hi - lo < 256
                 then Some (t\<lparr>kt_dense := True, kt_base := lo, kt_slots := fill_slots lo (nat (hi - lo + 1)) es\<rparr>)
                 else Some (t\<lparr>kt_sorted := es\<rparr>))"

section \<open>CBOR keys\<close>

text \<open>\<^verbatim>\<open>cbor::integer_keys\<close>: members without an explicit key get the smallest positive integers not taken, in
  declaration order.\<close>

definition explicit_key :: "field_meta \<Rightarrow> int option" where
  "explicit_key f = find_annotation key_of_ann (fm_annotations f)"

definition taken_keys :: "field_meta list \<Rightarrow> int list" where
  "taken_keys fs = List.map_filter explicit_key fs"

function bump_key :: "int list \<Rightarrow> int \<Rightarrow> int" where
  "bump_key taken nx = (if nx \<in> set taken then bump_key taken (nx + 1) else nx)"
  by auto
termination
proof (relation "measure (\<lambda>(taken, nx). card {x \<in> set taken. nx \<le> x})")
  fix taken :: "int list" and nx :: int
  assume "nx \<in> set taken"
  moreover have "{x \<in> set taken. nx + 1 \<le> x} \<subseteq> {x \<in> set taken. nx \<le> x}" "nx \<notin> {x \<in> set taken. nx + 1 \<le> x}" by auto
  ultimately have "{x \<in> set taken. nx + 1 \<le> x} \<subset> {x \<in> set taken. nx \<le> x}" by blast
  then show "((taken, nx + 1), (taken, nx)) \<in> measure (\<lambda>(taken, nx). card {x \<in> set taken. nx \<le> x})"
    by (simp add: psubset_card_mono)
qed simp

declare bump_key.simps [simp del]

fun allocate :: "int list \<Rightarrow> string \<Rightarrow> int \<Rightarrow> field_meta list \<Rightarrow> int option" where
  "allocate taken ident nx [] = None"
| "allocate taken ident nx (f # fs) =
     (case explicit_key f of
        Some k \<Rightarrow> allocate taken ident nx fs
      | None \<Rightarrow> (let nx = bump_key taken nx
                 in if ident_of (fm_info f) = ident then Some nx else allocate taken ident (nx + 1) fs))"

definition allocated_key :: "rclass \<Rightarrow> string \<Rightarrow> int option" where
  "allocated_key owner ident =
     (if has_annotation ann_integer_keys (type_annotations_of owner)
      then allocate (taken_keys (build_fields owner)) ident 1 (build_fields owner) else None)"

definition cbor_integer_key :: "field_meta \<Rightarrow> int option" where
  "cbor_integer_key f =
     (if fm_path f = [] then None
      else case explicit_key f of Some k \<Rightarrow> Some k | None \<Rightarrow> allocated_key (fm_owner f) (ident_of (fm_info f)))"

definition cbor_accepts_text_key :: "field_meta \<Rightarrow> bool" where
  "cbor_accepts_text_key f = has_annotation ann_text_key_alias (fm_annotations f)"

definition cbor_key_traits :: key_traits where
  "cbor_key_traits = \<lparr>ktr_name = ''CBOR'', ktr_spelling = ''cbor::key'', ktr_integer_key = cbor_integer_key,
     ktr_accepts_text_key = cbor_accepts_text_key\<rparr>"

definition member_key :: "field_meta \<Rightarrow> bytes" where
  "member_key f = (case cbor_integer_key f of
     Some k \<Rightarrow> encode_int_key (word_of_int k) | None \<Rightarrow> encode_text_key (wire_name (fm_info f)))"

text \<open>The keys are stored at \<^verbatim>\<open>member_index\<close> and the indices sorted stably by them.\<close>

definition member_order :: "field_meta list \<Rightarrow> nat list" where
  "member_order fs =
     (let keys = fold (\<lambda>f ks. ks[member_index (fm_info f) := member_key f]) fs (replicate (length fs) [])
      in sort_key (\<lambda>i. keys ! i) [0..<length fs])"

definition expected_tags :: "annotation list \<Rightarrow> bool \<Rightarrow> annotation list option \<Rightarrow> u64 list" where
  "expected_tags anns sys_time class_anns =
     (let v = List.map_filter cbor_tag_of_ann anns;
          v = (if v = [] \<and> sys_time then [1] else v)
      in case class_anns of
           Some as \<Rightarrow> if v = [] then List.map_filter cbor_tag_of_ann as else v
         | None \<Rightarrow> v)"

section \<open>Bisection and slots\<close>

definition entry_result :: "int_key_entry list \<Rightarrow> int \<Rightarrow> key_lookup" where
  "entry_result es k = (case find (\<lambda>e. ike_key e = k) es of Some e \<Rightarrow> key_at (unat (ike_index e)) | None \<Rightarrow> key_absent)"

lemma find_at:
  assumes "distinct (map k xs)" "i < length xs"
  shows "find (\<lambda>e. k e = k (xs ! i)) xs = Some (xs ! i)"
  using find_distinct_iff [OF assms(1), of "k (xs ! i)" "xs ! i"] assms(2) by simp

lemma sorted_keys_mono:
  "sorted (map ike_key es) \<Longrightarrow> i \<le> j \<Longrightarrow> j < length es \<Longrightarrow> ike_key (es ! i) \<le> ike_key (es ! j)"
  using sorted_nth_mono [of "map ike_key es" i j] by simp

lemma bisect_correct:
  assumes "sorted (map ike_key es)" "distinct (map ike_key es)" "hi \<le> length es"
    "\<And>i. i < lo \<Longrightarrow> ike_key (es ! i) < k" "\<And>i. hi \<le> i \<Longrightarrow> i < length es \<Longrightarrow> k < ike_key (es ! i)"
  shows "bisect es k lo hi = entry_result es k"
  using assms
proof (induction es k lo hi rule: bisect.induct)
  case (1 es k lo hi)
  show ?case
  proof (cases "lo < hi")
    case False
    have "ike_key (es ! i) \<noteq> k" if "i < length es" for i
      using 1(6) [of i] 1(7) [of i] that False by (cases "i < lo") fastforce+
    then have "find (\<lambda>e. ike_key e = k) es = None" by (auto simp: find_None_iff in_set_conv_nth)
    with False show ?thesis by (subst bisect.simps) (simp add: entry_result_def)
  next
    case True
    define mid where "mid = (lo + hi) div 2"
    have mid: "lo \<le> mid" "mid < hi" "mid < length es" using True 1(5) by (auto simp: mid_def)
    consider (less) "ike_key (es ! mid) < k" | (greater) "k < ike_key (es ! mid)" | (at) "ike_key (es ! mid) = k" by linarith
    then show ?thesis
    proof cases
      case less
      have "bisect es k (mid + 1) hi = entry_result es k"
      proof (rule 1(1) [OF True mid_def less 1(3,4,5) _ 1(7)])
        show "ike_key (es ! i) < k" if "i < mid + 1" for i
          using sorted_keys_mono [OF 1(3), of i mid] that mid(3) less by simp
      qed
      with True less show ?thesis by (subst bisect.simps) (simp add: mid_def [symmetric])
    next
      case greater
      then have "\<not> ike_key (es ! mid) < k" by simp
      then have "bisect es k lo mid = entry_result es k"
      proof (rule 1(2) [OF True mid_def _ greater 1(3,4) _ 1(6)])
        show "k < ike_key (es ! i)" if "mid \<le> i" "i < length es" for i
          using sorted_keys_mono [OF 1(3) that] greater by simp
      qed (use mid(3) in simp_all)
      with True greater show ?thesis by (subst bisect.simps) (simp add: mid_def [symmetric])
    next
      case at
      then have "entry_result es k = key_at (unat (ike_index (es ! mid)))"
        using find_at [OF 1(4) mid(3)] by (simp add: entry_result_def)
      with True at show ?thesis by (subst bisect.simps) (simp add: mid_def [symmetric])
    qed
  qed
qed

lemma length_slot_fold: "length (fold (\<lambda>e s. s[g e := h e]) es s) = length s"
  by (induction es arbitrary: s) simp_all

lemma fill_slots_nth:
  assumes "distinct (map ike_key es)" "\<forall>e\<in>set es. lo \<le> ike_key e" "i < n"
  shows "fill_slots lo n es ! i = (case find (\<lambda>e. ike_key e = lo + int i) es of Some e \<Rightarrow> ike_index e | None \<Rightarrow> 0xFFFFFFFF)"
proof -
  have "fold (\<lambda>e slots. slots[nat (ike_key e - lo) := ike_index e]) es s ! i
      = (case find (\<lambda>e. ike_key e = lo + int i) es of Some e \<Rightarrow> ike_index e | None \<Rightarrow> s ! i)"
    if "i < length s" "distinct (map ike_key es)" "\<forall>e\<in>set es. lo \<le> ike_key e" for s :: "u32 list"
    using that
  proof (induction es arbitrary: s)
    case (Cons e es)
    show ?case
    proof (cases "ike_key e = lo + int i")
      case True
      then have "find (\<lambda>e. ike_key e = lo + int i) es = None"
        using Cons.prems(2) by (force simp: find_None_iff)
      with True Cons show ?thesis by simp
    next
      case False
      then have "nat (ike_key e - lo) \<noteq> i" using Cons.prems by auto
      with False Cons show ?thesis by (simp split: option.split)
    qed
  qed simp
  from this [of "replicate n 0xFFFFFFFF"] assms show ?thesis by (simp add: fill_slots_def split: option.split)
qed

section \<open>The entries of a class\<close>

lemma clash_text_nonempty: "clash_text tr q1 q2 k \<noteq> []"
proof -
  have "fs_view (fold fs_append [q1, '' and '', q2, '' both map to the '', ktr_name tr, '' key ''] (fs_empty 512)) \<noteq> []"
    unfolding message_def [symmetric] by (simp add: message_eq)
  then show ?thesis
    unfolding clash_text_def Let_def
    by (intro fs_append_nonempty fs_append_int_nonempty) (simp add: fs_append_nonempty fs_append_int_nonempty)
qed

definition keyed :: "key_traits \<Rightarrow> field_meta list \<Rightarrow> int_key_entry list" where
  "keyed tr fs = List.map_filter (\<lambda>f. map_option (\<lambda>k. \<lparr>ike_key = k, ike_index = of_nat (member_index (fm_info f))\<rparr>)
     (ktr_integer_key tr f)) fs"

lemma map_filter_inj:
  assumes "distinct (List.map_filter g xs)" "x \<in> set xs" "y \<in> set xs" "g x = Some v" "g y = Some v" 
  shows "x = y"
  using assms
proof (induction xs)
  case (Cons z zs)
  have hit: "v \<in> set (List.map_filter g zs)" if "w \<in> set zs" "g w = Some v" for w
    using that by (force simp: map_filter_def)
  show ?case using Cons hit by (auto split: option.splits)
qed simp

lemma keyed_distinct:
  assumes "distinct fs" "\<And>f g. f \<in> set fs \<Longrightarrow> g \<in> set fs \<Longrightarrow> ktr_integer_key tr f = ktr_integer_key tr g \<Longrightarrow> ktr_integer_key tr f \<noteq> None \<Longrightarrow> f = g"
  shows "distinct (map ike_key (keyed tr fs))"
  using assms
proof (induction fs)
  case (Cons f fs)
  have IH: "distinct (map ike_key (keyed tr fs))" using Cons by simp
  have mem: "\<exists>g\<in>set fs. ktr_integer_key tr g = Some (ike_key e)" if "e \<in> set (keyed tr fs)" for e
    using that by (auto simp: keyed_def map_filter_def)
  show ?case
  proof (cases "ktr_integer_key tr f")
    case (Some k)
    have "k \<noteq> ike_key e" if "e \<in> set (keyed tr fs)" for e
      using mem [OF that] Some Cons.prems by fastforce
    then show ?thesis using IH Some by (auto simp: keyed_def)
  qed (use IH in \<open>simp add: keyed_def\<close>)
qed (simp add: keyed_def)

lemma key_entries_fold:
  "kb_entries (fold (key_step tr sch) fs kb) = kb_entries kb @ keyed tr fs \<and>
   (kb_err (fold (key_step tr sch) fs kb) = [] \<longrightarrow>
     kb_err kb = [] \<and> (distinct (map ike_key (kb_entries kb)) \<longrightarrow> distinct (map ike_key (kb_entries kb @ keyed tr fs))))
   \<and> (kb_err kb = [] \<and> distinct (map ike_key (kb_entries kb @ keyed tr fs)) \<longrightarrow> kb_err (fold (key_step tr sch) fs kb) = [])"
proof (induction fs arbitrary: kb)
  case (Cons f fs)
  show ?case
  proof (cases "ktr_integer_key tr f")
    case None
    let ?kb = "key_step tr sch f kb"
    have ent: "kb_entries ?kb = kb_entries kb" and err: "kb_err ?kb = kb_err kb" using None by (simp_all add: key_step_def)
    have kd: "keyed tr (f # fs) = keyed tr fs" using None by (simp add: keyed_def)
    from Cons [of ?kb] show ?thesis unfolding ent kd fold_simps err .
  next
    case (Some k)
    let ?e = "\<lparr>ike_key = k, ike_index = of_nat (member_index (fm_info f))\<rparr>" and ?kb = "key_step tr sch f kb"
    have ent: "kb_entries ?kb = kb_entries kb @ [?e]" using Some by (simp add: key_step_def)
    have kd: "keyed tr (f # fs) = ?e # keyed tr fs" using Some by (simp add: keyed_def)
    have err: "kb_err ?kb = [] \<longleftrightarrow> kb_err kb = [] \<and> k \<notin> ike_key ` set (kb_entries kb)"
    proof (cases "find (\<lambda>e. ike_key e = k \<and> kb_err kb = []) (kb_entries kb)")
      case None
      then have "kb_err ?kb = kb_err kb" using Some by (simp add: key_step_def)
      with None show ?thesis by (auto simp: find_None_iff)
    next
      case hit: (Some e)
      then have "kb_err ?kb \<noteq> []" using Some by (simp add: key_step_def clash_text_nonempty)
      moreover have "k \<in> ike_key ` set (kb_entries kb)" using hit by (force simp: find_Some_iff)
      ultimately show ?thesis by blast
    qed
    have one: "distinct (map ike_key (kb_entries kb @ [?e])) \<longleftrightarrow> distinct (map ike_key (kb_entries kb)) \<and> k \<notin> ike_key ` set (kb_entries kb)"
      by auto
    have split: "(kb_entries kb @ [?e]) @ keyed tr fs = kb_entries kb @ keyed tr (f # fs)" by (simp add: kd)
    have fresh: "distinct (map ike_key (kb_entries kb @ keyed tr (f # fs))) \<longrightarrow> k \<notin> ike_key ` set (kb_entries kb)"
      by (auto simp: kd)
    from Cons [of ?kb] fresh show ?thesis unfolding ent fold_simps err one split by blast
  qed
qed (simp add: keyed_def)

lemma key_entries_facts:
  "kb_entries (key_entries tr fs) = keyed tr fs"
  "kb_err (key_entries tr fs) = [] \<longleftrightarrow> distinct (map ike_key (keyed tr fs))"
  using key_entries_fold [of tr "map fm_info fs" fs "\<lparr>kb_keys = [], kb_entries = [], kb_err = []\<rparr>"]
  by (auto simp: key_entries_def)

lemma entry_result_keyed:
  assumes "map (member_index \<circ> fm_info) fs = [i..<i + length fs]" "i + length fs < 2 ^ 32"
  shows "entry_result (keyed tr fs) k =
    (case find (\<lambda>f. ktr_integer_key tr f = Some k) fs of Some f \<Rightarrow> key_at (member_index (fm_info f)) | None \<Rightarrow> key_absent)"
  using assms
proof (induction fs arbitrary: i)
  case (Cons f fs)
  have up: "[i..<i + length (f # fs)] = i # [Suc i..<Suc i + length fs]" by (simp add: upt_rec)
  then have idx: "member_index (fm_info f) = i" "map (member_index \<circ> fm_info) fs = [Suc i..<Suc i + length fs]"
    using Cons.prems(1) unfolding up by (simp_all only: list.map list.inject comp_def)
  have "entry_result (keyed tr fs) k =
    (case find (\<lambda>f. ktr_integer_key tr f = Some k) fs of Some f \<Rightarrow> key_at (member_index (fm_info f)) | None \<Rightarrow> key_absent)"
    by (rule Cons.IH [OF idx(2)]) (use Cons.prems(2) in simp)
  moreover have "unat (of_nat i :: u32) = i" using Cons.prems(2) by (simp add: unsigned_of_nat take_bit_eq_mod)
  ultimately show ?case
    using idx(1) by (cases "ktr_integer_key tr f") (auto simp: keyed_def entry_result_def)
qed (simp add: keyed_def entry_result_def)

lemma keyed_index_bound:
  assumes "e \<in> set (keyed tr fs)" "map (member_index \<circ> fm_info) fs = [0..<length fs]" "length fs < 2 ^ 32 - 1"
  shows "ike_index e \<noteq> 0xFFFFFFFF"
proof -
  obtain f where f: "f \<in> set fs" "ike_index e = of_nat (member_index (fm_info f))"
    using assms(1) by (auto simp: keyed_def map_filter_def)
  have "(member_index \<circ> fm_info) f \<in> set [0..<length fs]" using f(1) unfolding assms(2) [symmetric] by simp
  then have "member_index (fm_info f) < 2 ^ 32 - 1" using assms(3) by simp
  then have "unat (ike_index e) < 2 ^ 32 - 1" using f(2) by (simp add: unsigned_of_nat take_bit_eq_mod)
  then show ?thesis by auto
qed

lemma entry_result_sorted:
  "distinct (map ike_key es) \<Longrightarrow> entry_result (sort_key ike_key es) k = entry_result es k"
  using find_permuted [of ike_key es "sort_key ike_key es" k] by (simp add: entry_result_def)

lemma sorted_hd_last:
  assumes "sorted (map ike_key es)" "e \<in> set es"
  shows "ike_key (hd es) \<le> ike_key e" "ike_key e \<le> ike_key (last es)"
proof -
  obtain i where i: "i < length es" "e = es ! i" using assms(2) by (auto simp: in_set_conv_nth)
  then have ne: "es \<noteq> []" by auto
  show "ike_key (hd es) \<le> ike_key e"
    using sorted_keys_mono [OF assms(1), of 0 i] i ne by (simp add: hd_conv_nth)
  show "ike_key e \<le> ike_key (last es)"
    using sorted_keys_mono [OF assms(1), of i "length es - 1"] i ne by (simp add: last_conv_nth)
qed

lemma entry_result_None: "(\<And>e. e \<in> set es \<Longrightarrow> ike_key e \<noteq> k) \<Longrightarrow> entry_result es k = key_absent"
  using find_None_iff [of "\<lambda>e. ike_key e = k" es] by (auto simp: entry_result_def)

lemma dense_find:
  assumes "sorted (map ike_key es)" "distinct (map ike_key es)" "es \<noteq> []" "\<And>e. e \<in> set es \<Longrightarrow> ike_index e \<noteq> 0xFFFFFFFF"
    "in_i64 (k - ike_key (hd es))" "kt_dense t" "kt_base t = ike_key (hd es)"
    "kt_slots t = fill_slots (ike_key (hd es)) (nat (ike_key (last es) - ike_key (hd es) + 1)) es"
  shows "key_find t k = entry_result es k"
proof -
  let ?lo = "ike_key (hd es)" and ?hi = "ike_key (last es)"
  note bounds = sorted_hd_last [OF assms(1)]
  have lohi: "?lo \<le> ?hi" using bounds(1) [of "last es"] assms(3) by simp
  have len: "length (kt_slots t) = nat (?hi - ?lo + 1)"
    unfolding assms(8) fill_slots_def by (simp add: length_slot_fold)
  consider (low) "k < ?lo" | (high) "?hi < k" | (mid) "?lo \<le> k" "k \<le> ?hi" by linarith
  then show ?thesis
  proof cases
    case low
    have "ike_key e \<noteq> k" if "e \<in> set es" for e using bounds(1) [OF that] low by linarith
    then have "entry_result es k = key_absent" by (rule entry_result_None)
    then show ?thesis using low assms(6,7) by (simp add: key_find_def)
  next
    case high
    have "ike_key e \<noteq> k" if "e \<in> set es" for e using bounds(2) [OF that] high by linarith
    then have "entry_result es k = key_absent" by (rule entry_result_None)
    then show ?thesis using high lohi assms(5,6,7) len by (simp add: key_find_def)
  next
    case mid
    have "kt_slots t ! nat (k - ?lo) = (case find (\<lambda>e. ike_key e = k) es of Some e \<Rightarrow> ike_index e | None \<Rightarrow> 0xFFFFFFFF)"
      unfolding assms(8) using fill_slots_nth [OF assms(2), of ?lo "nat (k - ?lo)" "nat (?hi - ?lo + 1)"] bounds(1) mid by simp
    then have look: "key_find t k = (let v = (case find (\<lambda>e. ike_key e = k) es of Some e \<Rightarrow> ike_index e | None \<Rightarrow> 0xFFFFFFFF)
        in if v = 0xFFFFFFFF then key_absent else key_at (unat v))"
      using mid assms(5-7) len by (simp add: key_find_def)
    show ?thesis
    proof (cases "find (\<lambda>e. ike_key e = k) es")
      case (Some e)
      then have "e \<in> set es" by (auto simp: find_Some_iff)
      with Some assms(4) look show ?thesis by (simp add: entry_result_def)
    qed (simp add: look entry_result_def)
  qed
qed

text \<open>C36. The key table of a class answers every integer key with the field that carries it, dense or bisected: it
  finds exactly the members' keys, as long as the difference between the key asked for and the smallest
  key is representable. A table that reports no error has no two equal keys.\<close>

theorem key_find_exact:
  assumes "build_key_table tr fs = Some t" "kt_ok t" "map (member_index \<circ> fm_info) fs = [0..<length fs]"
    "length fs < 2 ^ 32 - 1" "in_i64 (k - kt_base t)"
  shows "distinct (map ike_key (keyed tr fs)) \<and> key_find t k =
    (case find (\<lambda>f. ktr_integer_key tr f = Some k) fs of Some f \<Rightarrow> key_at (member_index (fm_info f)) | None \<Rightarrow> key_absent)"
proof -
  define es where "es = sort_key ike_key (keyed tr fs)"
  have srt: "sorted (map ike_key es)" by (simp add: es_def)
  have "kt_error t = kb_err (key_entries tr fs)"
    using assms(1) by (auto simp: build_key_table_def empty_key_table_def Let_def split: if_splits)
  then have dist: "distinct (map ike_key (keyed tr fs))"
    using assms(2) by (simp add: kt_ok_def key_entries_facts)
  then have des: "distinct (map ike_key es)" unfolding es_def by (metis mset_eq_imp_distinct_iff mset_map mset_sort)
  have idx: "ike_index e \<noteq> 0xFFFFFFFF" if "e \<in> set es" for e
    using that keyed_index_bound [OF _ assms(3,4), of e tr] by (simp add: es_def)
  have em: "es = [] \<longleftrightarrow> keyed tr fs = []" unfolding es_def by (metis length_0_conv length_sort)
  have "key_find t k = entry_result es k"
  proof (cases "kt_dense t")
    case True
    then have "es \<noteq> []" "kt_base t = ike_key (hd es)"
      "kt_slots t = fill_slots (ike_key (hd es)) (nat (ike_key (last es) - ike_key (hd es) + 1)) es"
      using assms(1) em by (auto simp: build_key_table_def empty_key_table_def key_entries_facts Let_def es_def split: if_splits)
    with dense_find [OF srt des _ idx _ True] assms(5) show ?thesis by simp
  next
    case False
    have "kt_sorted t = es"
      using assms(1) False by (auto simp: build_key_table_def empty_key_table_def key_entries_facts Let_def es_def split: if_splits)
    with False bisect_correct [OF srt des, of "length es" 0 k] show ?thesis by (simp add: key_find_def)
  qed
  moreover have "entry_result es k = entry_result (keyed tr fs) k" unfolding es_def by (rule entry_result_sorted [OF dist])
  ultimately show ?thesis using dist entry_result_keyed [of fs 0 tr k] assms(3,4) by simp
qed

section \<open>A class with integer keys\<close>

definition cose_key :: rclass where
  "cose_key = RClass ''Key'' [] [] [] [] [RMember (Some ''kty'') [ann_cbor_key 1] (rt_other ''int'') False,
     RMember (Some ''crv'') [ann_cbor_key (- 1)] (rt_other ''int'') False]"

definition cose_table :: key_table where
  "cose_table = the (build_key_table cbor_key_traits (build_fields cose_key))"

lemma cose_table_built: "build_key_table cbor_key_traits (build_fields cose_key) = Some cose_table"
proof -
  have "build_key_table cbor_key_traits (build_fields cose_key) \<noteq> None" by code_simp
  then show ?thesis by (auto simp: cose_table_def)
qed

theorem key_find_exact_witness: "key_find cose_table (- 1) = key_at 1"
proof -
  have ok: "kt_ok cose_table" by code_simp
  have idx: "map (member_index \<circ> fm_info) (build_fields cose_key) = [0..<length (build_fields cose_key)]" by code_simp
  have "length (build_fields cose_key) = 2" by code_simp
  then have n: "length (build_fields cose_key) < 2 ^ 32 - 1" by simp
  have r: "in_i64 (- 1 - kt_base cose_table)" by code_simp
  have "map_option (member_index \<circ> fm_info) (find (\<lambda>f. ktr_integer_key cbor_key_traits f = Some (- 1)) (build_fields cose_key)) = Some 1"
    by code_simp
  with key_find_exact [OF cose_table_built ok idx n r] show ?thesis by (auto split: option.splits)
qed

text \<open>The dense table computes \<^verbatim>\<open>k - base\<close> in 64-bit signed arithmetic before it checks the upper bound. With a
  negative smallest key, as in COSE, the key \<^verbatim>\<open>2^63 - 1\<close> of a message makes the subtraction overflow, which is
  undefined; the same key in a table that starts at a non-negative key is simply absent.\<close>

theorem key_find_overflow:
  "key_find cose_table (2 ^ 63 - 1) = key_undefined \<and> key_find (cose_table\<lparr>kt_base := 0\<rparr>) (2 ^ 63 - 1) = key_absent"
  by code_simp

section \<open>Allocated keys\<close>

lemma bump_key_facts: "nx \<le> bump_key taken nx \<and> bump_key taken nx \<notin> set taken"
proof (induction taken nx rule: bump_key.induct)
  case (1 taken nx)
  show ?case
  proof (cases "nx \<in> set taken")
    case True
    with 1 have "nx + 1 \<le> bump_key taken (nx + 1) \<and> bump_key taken (nx + 1) \<notin> set taken" by blast
    then show ?thesis using True by (simp add: bump_key.simps [of taken nx])
  qed (simp add: bump_key.simps [of taken nx])
qed

lemma allocate_bound: "allocate taken ident nx fs = Some k \<Longrightarrow> nx \<le> k \<and> k \<notin> set taken"
proof (induction fs arbitrary: nx)
  case (Cons f fs)
  show ?case
  proof (cases "explicit_key f = None \<and> ident_of (fm_info f) \<noteq> ident")
    case True
    then have "allocate taken ident (bump_key taken nx + 1) fs = Some k" using Cons.prems by simp
    from Cons.IH [OF this] bump_key_facts [where nx = nx and taken = taken] show ?thesis by simp
  next
    case False
    then show ?thesis
      using Cons bump_key_facts [where nx = nx and taken = taken] by (auto simp: Let_def split: option.splits if_splits)
  qed
qed simp

lemma allocate_injective:
  "allocate taken i nx fs = Some k \<Longrightarrow> allocate taken j nx fs = Some k \<Longrightarrow> i = j"
proof (induction fs arbitrary: nx)
  case (Cons f fs)
  show ?case
  proof (cases "explicit_key f")
    case None
    have later: "k \<noteq> bump_key taken nx" if "allocate taken l (bump_key taken nx + 1) fs = Some k" for l
      using allocate_bound [OF that] by simp
    show ?thesis
      using Cons None later by (cases "ident_of (fm_info f) = i"; cases "ident_of (fm_info f) = j") (auto simp: Let_def)
  qed (use Cons in simp)
qed simp

lemma allocate_total:
  "f \<in> set fs \<Longrightarrow> explicit_key f = None \<Longrightarrow> \<exists>k. allocate taken (ident_of (fm_info f)) nx fs = Some k"
  by (induction fs arbitrary: nx) (auto simp: Let_def split: option.split)

lemma build_fields_path: "f \<in> set (build_fields t) \<Longrightarrow> fm_path f \<noteq> []"
  using run_build_fields(2) [of t]
  by (auto simp: build_fields_def list_all_iff made_field_def make_field_def Let_def)

text \<open>C37. Declaration-order keys are sound: in a class declared \<^verbatim>\<open>cbor::integer_keys\<close> whose fields are its own and whose
  explicit keys differ, every member has an integer key and no two members share one, explicit or
  allocated, so that the key table reports no clash.\<close>

theorem integer_keys_unique:
  assumes "has_annotation ann_integer_keys (type_annotations_of t)" "\<forall>f\<in>set (build_fields t). fm_owner f = t"
    "distinct (map (ident_of \<circ> fm_info) (build_fields t))" "distinct (taken_keys (build_fields t))"
  shows "(\<forall>f\<in>set (build_fields t). cbor_integer_key f \<noteq> None) \<and> kb_err (key_entries cbor_key_traits (build_fields t)) = []"
proof -
  let ?fs = "build_fields t" and ?taken = "taken_keys (build_fields t)"
  have key: "cbor_integer_key f = (case explicit_key f of Some k \<Rightarrow> Some k | None \<Rightarrow> allocate ?taken (ident_of (fm_info f)) 1 ?fs)"
    if "f \<in> set ?fs" for f
    using that assms(1,2) build_fields_path [OF that] by (simp add: cbor_integer_key_def allocated_key_def split: option.split)
  have some: "cbor_integer_key f \<noteq> None" if "f \<in> set ?fs" for f
    using key [OF that] allocate_total [OF that, of ?taken 1] by (auto split: option.split)
  have taken: "k \<in> set ?taken" if "f \<in> set ?fs" "explicit_key f = Some k" for f k
    using that by (force simp: taken_keys_def map_filter_def)
  have explicit: "f = g" if "f \<in> set ?fs" "g \<in> set ?fs" "explicit_key f = Some k" "explicit_key g = Some k" for f g k
    using map_filter_inj [OF assms(4) [unfolded taken_keys_def] that] .
  have apart: "cbor_integer_key f \<noteq> cbor_integer_key g"
    if "f \<in> set ?fs" "g \<in> set ?fs" "explicit_key f = None" "explicit_key g = Some k" for f g k
    using key [OF that(1)] key [OF that(2)] that(3,4) taken [OF that(2,4)] allocate_bound [of ?taken "ident_of (fm_info f)" 1 ?fs k]
    by auto
  have inj: "f = g" if f: "f \<in> set ?fs" and g: "g \<in> set ?fs" and eq: "cbor_integer_key f = cbor_integer_key g" for f g
  proof (cases "explicit_key f"; cases "explicit_key g")
    assume n: "explicit_key f = None" "explicit_key g = None"
    then obtain k where "allocate ?taken (ident_of (fm_info f)) 1 ?fs = Some k" "allocate ?taken (ident_of (fm_info g)) 1 ?fs = Some k"
      using allocate_total [OF f n(1), of ?taken 1] key [OF f] key [OF g] eq by auto
    from allocate_injective [OF this] show "f = g" using assms(3) f g by (auto simp: distinct_map inj_on_def)
  next
    fix k assume "explicit_key f = None" "explicit_key g = Some k"
    with apart [OF f g] eq show "f = g" by blast
  next
    fix k assume "explicit_key f = Some k" "explicit_key g = None"
    with apart [OF g f] eq show "f = g" by metis
  next
    fix k l assume "explicit_key f = Some k" "explicit_key g = Some l"
    with explicit [OF f g] key [OF f] key [OF g] eq show "f = g" by simp
  qed
  have "distinct (map ike_key (keyed cbor_key_traits ?fs))"
    using assms(3) inj some
    by (intro keyed_distinct) (auto simp: cbor_key_traits_def distinct_map)
  with some show ?thesis by (simp add: key_entries_facts)
qed

definition numbered :: rclass where
  "numbered = RClass ''P'' [ann_integer_keys] [] [] [] [RMember (Some ''a'') [] (rt_other ''int'') False,
     RMember (Some ''b'') [ann_cbor_key 2] (rt_other ''int'') False, RMember (Some ''c'') [] (rt_other ''int'') False]"

theorem integer_keys_unique_witness:
  "map cbor_integer_key (build_fields numbered) = [Some 1, Some 2, Some 3]
   \<and> kb_err (key_entries cbor_key_traits (build_fields numbered)) = []"
proof -
  have k: "map cbor_integer_key (build_fields numbered) = [Some 1, Some 2, Some 3]" by code_simp
  have a: "has_annotation ann_integer_keys (type_annotations_of numbered)" by code_simp
  have "list_all (\<lambda>f. fm_owner f = numbered) (build_fields numbered)" by code_simp
  then have o: "\<forall>f\<in>set (build_fields numbered). fm_owner f = numbered" by (simp add: list_all_iff)
  have i: "distinct (map (ident_of \<circ> fm_info) (build_fields numbered))" by code_simp
  have t: "distinct (taken_keys (build_fields numbered))" by code_simp
  from integer_keys_unique [OF a o i t] k show ?thesis by blast
qed

section \<open>Emission order\<close>

lemma fold_store_keys:
  assumes "map idx fs = [n..<n + length fs]" "length ks = n + length fs"
  shows "fold (\<lambda>f ks. ks[idx f := g f]) fs ks = take n ks @ map g fs"
  using assms
proof (induction fs arbitrary: n ks)
  case (Cons f fs)
  have up: "[n..<n + length (f # fs)] = n # [Suc n..<Suc n + length fs]" by (simp add: upt_rec)
  have idx: "idx f = n" "map idx fs = [Suc n..<Suc n + length fs]"
    using Cons.prems(1) unfolding up by (simp_all only: list.map list.inject)
  have "fold (\<lambda>f ks. ks[idx f := g f]) fs (ks[n := g f]) = take (Suc n) (ks[n := g f]) @ map g fs"
    by (rule Cons.IH [OF idx(2)]) (use Cons.prems(2) in simp)
  then show ?case using idx(1) Cons.prems(2) by (simp add: take_Suc_conv_app_nth)
qed simp

lemma member_order_sort:
  "member_order (build_fields t) = sort_key (\<lambda>i. map member_key (build_fields t) ! i) [0..<length (build_fields t)]"
proof -
  have "map (\<lambda>f. member_index (fm_info f)) (build_fields t) = [0..<0 + length (build_fields t)]"
    using run_build_fields(1) [of t] by (simp add: build_fields_def comp_def)
  from fold_store_keys [OF this, of "replicate (length (build_fields t)) []" member_key] show ?thesis
    by (simp add: member_order_def)
qed

lemma member_order_permutes: "mset (member_order (build_fields t)) = mset [0..<length (build_fields t)]"
  by (simp add: member_order_sort)

lemma member_order_sorted: "sorted (map (\<lambda>i. member_key (build_fields t ! i)) (member_order (build_fields t)))"
proof -
  have "map (\<lambda>i. map member_key (build_fields t) ! i) (member_order (build_fields t))
      = map (\<lambda>i. member_key (build_fields t ! i)) (member_order (build_fields t))"
    by (rule map_cong) (auto simp: member_order_sort)
  moreover have "sorted (map (\<lambda>i. map member_key (build_fields t) ! i) (member_order (build_fields t)))"
    unfolding member_order_sort by simp
  ultimately show ?thesis by (simp only:)
qed

text \<open>Emission order is canonical: the members of every class are emitted in the bytewise order of their
  encoded keys, the order deterministic encoding asks of a map, each member once, so that the writer may take
  a struct's entries as they come.\<close>

theorem member_order_canonical:
  "sorted (map (\<lambda>i. member_key (build_fields t ! i)) (member_order (build_fields t)))
   \<and> mset (member_order (build_fields t)) = mset [0..<length (build_fields t)]"
  using member_order_sorted [of t] member_order_permutes [of t] by (rule conjI)

end
