(* ===== verification/Render_Text.thy ===== *)
theory Render_Text
  imports Vcodec_Error
begin

text \<open>
  What the two framed renderers share: lists of candidates in one line, and the width of a line on a terminal.
\<close>

fun comma_join :: "string list \<Rightarrow> string" where
  "comma_join [] = []"
| "comma_join [c] = c"
| "comma_join (c # d # cs) = c @ '', '' @ comma_join (d # cs)"

text \<open>Columns on a terminal: UTF-8 continuation octets take none.\<close>

definition columns :: "string \<Rightarrow> nat" where
  "columns s = length (filter (\<lambda>c. uchar c AND 0xC0 \<noteq> 0x80) s)"

text \<open>The octets of a text that take no column: the continuation octets.\<close>

definition columnless :: "string \<Rightarrow> nat" where
  "columnless s = length (filter (\<lambda>c. uchar c AND 0xC0 = 0x80) s)"

lemma columns_columnless: "columns s + columnless s = length s"
  using sum_length_filter_compl [of "\<lambda>c. uchar c AND 0xC0 = 0x80" s] by (simp add: columns_def columnless_def)

lemma columns_append [simp]: "columns (s @ t) = columns s + columns t"
  by (simp add: columns_def)

lemma columns_ellipsis [simp]: "columns ellipsis = 1"
  by code_simp

lemma columns_spaces [simp]: "columns (replicate n (CHR '' '')) = n"
proof -
  have "uchar (CHR '' '') AND 0xC0 \<noteq> 0x80" by code_simp
  then show ?thesis by (simp add: columns_def)
qed

end
