(* ===== verification/Cbor_Render.thy ===== *)
theory Cbor_Render
  imports Cbor_Head Vcodec_Lower Render_Text
begin

text \<open>
  \<^verbatim>\<open>src/include/vcodec/cbor/render_error.hpp\<close>: the hex window of a CBOR error. Sixteen octets around the
  offset, a line of carets under the offending item, and its head in words.
\<close>

section \<open>Heads in words\<close>

definition hex2 :: "byte \<Rightarrow> string" where
  "hex2 v = [hex_digits ! unat (drop_bit 4 v AND 15), hex_digits ! unat (v AND 15)]"

definition simple_text :: "u8 \<Rightarrow> u64 \<Rightarrow> string" where
  "simple_text a v =
     (if a = 20 then '', false'' else if a = 21 then '', true'' else if a = 22 then '', null''
      else if a = 23 then '', undefined'' else if a = 25 then '', half-precision float''
      else if a = 26 then '', single-precision float'' else if a = 27 then '', double-precision float''
      else '', simple value '' @ dec_u64 v)"

definition describe_head :: "parsed_head \<Rightarrow> string" where
  "describe_head h =
     (let d = ''major type '' @ dec_u64 (ucast (major_value (mt h))) @ '' ('' @ major_name (mt h) @ '')'';
          v = head_value h
      in if is_break h then ''break''
         else if reserved h then d @ '', reserved additional information '' @ dec_u64 (ucast (ai h))
         else if indefinite h then d @ '', indefinite length''
         else case mt h of
             major_uint \<Rightarrow> d @ '', value '' @ dec_u64 v
           | major_nint \<Rightarrow> d @ '', value '' @ (if v = - 1 then ''-18446744073709551616'' else ''-'' @ dec_u64 (v + 1))
           | major_bytes \<Rightarrow> d @ '', length '' @ dec_u64 v
           | major_text \<Rightarrow> d @ '', length '' @ dec_u64 v
           | major_array \<Rightarrow> d @ '', '' @ dec_u64 v @ '' elements''
           | major_map \<Rightarrow> d @ '', '' @ dec_u64 v @ '' entries''
           | major_tag \<Rightarrow> d @ '', tag '' @ dec_u64 v @ (if tag_name v = [] then [] else '' ('' @ tag_name v @ '')'')
           | major_simple \<Rightarrow> d @ simple_text (ai h) v)"

section \<open>The window\<close>

definition clamped_offset :: "error \<Rightarrow> bytes \<Rightarrow> nat" where
  "clamped_offset e inp = (if length inp < offset e then length inp else offset e)"

definition window_start :: "nat \<Rightarrow> nat" where
  "window_start off = off - off mod 16"

definition window_end :: "nat \<Rightarrow> bytes \<Rightarrow> nat" where
  "window_end start inp = min (length inp) (start + 16)"

definition address :: "nat \<Rightarrow> string" where
  "address start =
     concat (map (\<lambda>s. hex_digits ! (drop_bit s start AND 15) # (if s = 16 then ''_'' else [])) [28, 24, 20, 16, 12, 8, 4, 0])"

definition octet_text :: "bytes \<Rightarrow> nat \<Rightarrow> nat \<Rightarrow> string" where
  "octet_text inp i stop = concat (map (\<lambda>k. hex2 (inp ! k) @ '' '') [i..<stop])"

text \<open>The caret loop, from \<open>i\<close> to the end of the window or of the item.\<close>

function caret_loop :: "nat \<Rightarrow> nat \<Rightarrow> nat \<Rightarrow> string" where
  "caret_loop i stop item_end =
     (if i < stop \<and> i < item_end
      then ''^^'' @ (if i + 1 < stop \<and> i + 1 < item_end then '' '' else []) @ caret_loop (i + 1) stop item_end
      else [])"
  by auto
termination
  by (relation "measure (\<lambda>(i, stop, item_end). stop - i)") auto

declare caret_loop.simps [simp del]

definition item_length_shown :: "error \<Rightarrow> parsed_head \<Rightarrow> nat" where
  "item_length_shown e h = (if length_of e \<noteq> 0 then length_of e else if head_length h \<noteq> 0 then head_length h else 1)"

definition window_line :: "bytes \<Rightarrow> nat \<Rightarrow> nat \<Rightarrow> string" where
  "window_line inp start stop =
     address start @ '':  '' @ (if 0 < start then ellipsis else '' '') @ octet_text inp start stop
     @ (if stop < length inp then ellipsis else [])"

definition caret_indent :: "nat \<Rightarrow> nat \<Rightarrow> string" where
  "caret_indent off start = replicate (13 + 3 * (off - start)) (CHR '' '')"

definition render_hex_window :: "error \<Rightarrow> bytes \<Rightarrow> string" where
  "render_hex_window e inp =
     (let off = clamped_offset e inp; start = window_start off; stop = window_end start inp;
          h = parse_head inp off; item_len = item_length_shown e h
      in ''   |'' @ [CHR 0x0A] @ ''   |  '' @ window_line inp start stop @ [CHR 0x0A]
         @ ''   |  '' @ caret_indent off start @ caret_loop off stop (off + item_len) @ [CHR 0x0A]
         @ ''   |  '' @ caret_indent off start @ describe_head h @ [CHR 0x0A])"

section \<open>The message\<close>

definition render_hex :: "error \<Rightarrow> bytes \<Rightarrow> string" where
  "render_hex e inp =
     ''error: '' @ headline e @ [CHR 0x0A] @ ''  --> '' @ render_path (steps e) (path_truncated e) @ [CHR 0x0A] @
     (let missing = ''   |  map has '' @ (if found e = [] then ''?'' else found e) @ '' entries''
            @ (if candidates e \<noteq> [] then '', keys present: '' @ comma_join (candidates e) else []) @ [CHR 0x0A];
          one_of = (if candidates e \<noteq> [] then ''   |  expected one of: '' @ comma_join (candidates e) @ [CHR 0x0A] else [])
      in case code e of
           missing_field \<Rightarrow> missing
         | missing_tag \<Rightarrow> missing
         | unknown_field \<Rightarrow>
             (if suggestion e \<noteq> [] then ''   |  did you mean '' @ quoted (suggestion e) @ ''?'' @ [CHR 0x0A] else [])
             @ (if deny_unknown e \<and> context_of e \<noteq> []
                then ''   |  ('' @ context_of e @ '' is declared [[=deny_unknown_fields]])'' @ [CHR 0x0A] else [])
         | tag_mismatch \<Rightarrow> ''   |  expected '' @ expected e @ '', found '' @ found e @ [CHR 0x0A]
         | non_deterministic \<Rightarrow> (if suggestion e \<noteq> [] then ''   |  '' @ suggestion e @ [CHR 0x0A] else [])
         | unknown_enumerator \<Rightarrow> one_of
         | no_variant_alternative \<Rightarrow> one_of
         | out_of_range \<Rightarrow> []
         | _ \<Rightarrow> (if inp \<noteq> [] then render_hex_window e inp else [])
                @ (if suggestion e \<noteq> [] then ''   |  '' @ suggestion e @ [CHR 0x0A] else []))"

section \<open>Alignment\<close>

lemma hex_digit_columns_check: "\<forall>n\<in>set [0..<16]. columns [hex_digits ! n] = 1"
  by code_simp

lemma columns_hex_digit: "n < 16 \<Longrightarrow> columns (hex_digits ! n # s) = Suc (columns s)"
  using hex_digit_columns_check columns_append [of "[hex_digits ! n]" s] by (simp del: columns_append)

lemma and15_less: "n AND 15 < (16 :: nat)"
proof -
  have "(15 :: nat) = mask 4" by (simp add: mask_eq_exp_minus_1)
  then have "n AND 15 = take_bit 4 n" by (simp only: take_bit_eq_mask)
  then show ?thesis using take_bit_nat_less_exp [of 4 n] by simp
qed

lemma unat_and15_less: "unat (v AND 15 :: byte) < 16"
  using and15_less [of "unat v"] by (simp add: unsigned_and_eq)

lemma columns_hex2 [simp]: "columns (hex2 v) = 2"
proof -
  have "columns [] = 0" by (simp add: columns_def)
  then show ?thesis by (simp add: hex2_def columns_hex_digit unat_and15_less)
qed

lemma columns_octets: "i \<le> stop \<Longrightarrow> columns (octet_text inp i stop) = 3 * (stop - i)"
proof (induction "stop - i" arbitrary: stop)
  case 0
  then show ?case by (simp add: octet_text_def columns_def)
next
  case (Suc n)
  then obtain s where s: "stop = Suc s" "i \<le> s" by (cases stop) auto
  then have "octet_text inp i stop = octet_text inp i s @ hex2 (inp ! s) @ '' ''" by (simp add: octet_text_def)
  then show ?case using Suc s columns_spaces [of 1] by simp
qed

lemma columns_address: "columns (address start) = 9"
proof -
  have e: "columns [] = 0" "columns ''_'' = 1" by code_simp+
  then have u: "columns (CHR ''_'' # s) = Suc (columns s)" for s using columns_append [of "''_''" s] by simp
  show ?thesis unfolding address_def by (simp add: columns_hex_digit and15_less e u)
qed

lemma caret_loop_first: "i < stop \<Longrightarrow> i < item_end \<Longrightarrow> \<exists>s. caret_loop i stop item_end = ''^^'' @ s"
  by (subst caret_loop.simps) simp

lemma window_bounds:
  "window_start off \<le> off" "off < length inp \<Longrightarrow> off < window_end (window_start off) inp" "off mod 16 < 16"
  by (simp_all add: window_start_def window_end_def)

text \<open>C39. The carets stand under the octet: for an error inside the input, the line of octets splits at the
  column where the caret line's indentation ends, the two digits that follow there are those of the octet at
  the error's offset, and two carets stand under them.\<close>

theorem hex_window_aligned:
  assumes "offset e < length inp"
  shows "\<exists>before after carets. let off = clamped_offset e inp; start = window_start off; stop = window_end start inp in
     window_line inp start stop = before @ hex2 (inp ! offset e) @ after
     \<and> columns before = columns (caret_indent off start)
     \<and> caret_loop off stop (off + item_length_shown e (parse_head inp off)) = ''^^'' @ carets"
proof -
  let ?off = "offset e" and ?start = "window_start (offset e)"
  let ?stop = "window_end ?start inp"
  have off: "clamped_offset e inp = ?off" using assms by (simp add: clamped_offset_def)
  have b: "?start \<le> ?off" "?off < ?stop" using window_bounds assms by blast+
  have "[?start..<?stop] = [?start..<?off] @ ?off # [Suc ?off..<?stop]"
    using b by (metis le_add_diff_inverse less_imp_le_nat upt_add_eq_append upt_conv_Cons)
  then have split: "octet_text inp ?start ?stop = octet_text inp ?start ?off @ hex2 (inp ! ?off) @ '' '' @ octet_text inp (Suc ?off) ?stop"
    by (simp add: octet_text_def)
  define lead where "lead = address ?start @ '':  '' @ (if 0 < ?start then ellipsis else '' '')"
  have "columns '':  '' = 3" "columns '' '' = 1" by code_simp+
  then have "columns (lead @ octet_text inp ?start ?off) = 13 + 3 * (?off - ?start)"
    using columns_octets [OF b(1), of inp] unfolding lead_def columns_append columns_address
    by (simp only: columns_ellipsis split: if_split) simp
  moreover have "window_line inp ?start ?stop = (lead @ octet_text inp ?start ?off) @ hex2 (inp ! ?off) @ '' ''
      @ octet_text inp (Suc ?off) ?stop @ (if ?stop < length inp then ellipsis else [])"
    by (simp add: window_line_def split lead_def)
  moreover have "0 < item_length_shown e (parse_head inp ?off)" by (simp add: item_length_shown_def)
  then obtain s where "caret_loop ?off ?stop (?off + item_length_shown e (parse_head inp ?off)) = ''^^'' @ s"
    using caret_loop_first [OF b(2), of "?off + item_length_shown e (parse_head inp ?off)"] by auto
  ultimately show ?thesis unfolding Let_def off caret_indent_def columns_spaces by metis
qed

theorem hex_window_aligned_witness:
  "\<exists>before after. window_line [0x83, 0x01, 0xf8, 0x05] 0 4 = before @ ''f8'' @ after \<and> columns before = 19"
proof -
  let ?e = "mk_error malformed_item 2" and ?inp = "[0x83, 0x01, 0xf8, 0x05] :: bytes"
  have o: "offset ?e < length ?inp" by code_simp
  have v: "clamped_offset ?e ?inp = 2" "window_start 2 = 0" "window_end 0 ?inp = 4" "columns (caret_indent 2 0) = 19"
    "hex2 (?inp ! offset ?e) = ''f8''" by code_simp+
  from hex_window_aligned [OF o] show ?thesis unfolding Let_def v by blast
qed

end
