(* ===== verification/Json_Render.thy ===== *)
theory Json_Render
  imports Render_Text
begin

text \<open>
  \<^verbatim>\<open>src/include/vcodec/json/render_error.hpp\<close>: the framed excerpt of a JSON error. The window runs from the
  previous sibling to the next one at the token's own nesting level and stays on its line; the scans are
  bounded by 96 octets. Positions are indices into the input.
\<close>

section \<open>Scanning for the window\<close>

definition excerpt_scan_limit :: nat where
  "excerpt_scan_limit = 96"

definition is_blank :: "char \<Rightarrow> bool" where
  "is_blank c \<longleftrightarrow> c = CHR '' '' \<or> c = CHR 0x09 \<or> c = CHR 0x0D"

definition opens :: "char \<Rightarrow> bool" where
  "opens c \<longleftrightarrow> c = CHR ''{'' \<or> c = CHR ''[''"

definition closes :: "char \<Rightarrow> bool" where
  "closes c \<longleftrightarrow> c = CHR ''}'' \<or> c = CHR '']''"

text \<open>\<^verbatim>\<open>while (j > bs && input[j - 1 - bs] == '\\') ++bs;\<close>\<close>

function backslashes :: "string \<Rightarrow> nat \<Rightarrow> nat \<Rightarrow> nat" where
  "backslashes inp j bs = (if bs < j \<and> inp ! (j - 1 - bs) = CHR 0x5C then backslashes inp j (bs + 1) else bs)"
  by auto
termination
  by (relation "measure (\<lambda>(inp, j, bs). j - bs)") auto

declare backslashes.simps [simp del]

fun string_loop :: "string \<Rightarrow> nat \<Rightarrow> nat \<Rightarrow> nat" where
  "string_loop inp 0 bnd = bnd"
| "string_loop inp (Suc j) bnd =
     (if bnd < Suc j then
        (if inp ! j = CHR 0x22 \<and> even (backslashes inp j 0) then j else string_loop inp j bnd)
      else bnd)"

definition string_start_before :: "string \<Rightarrow> nat \<Rightarrow> nat \<Rightarrow> nat" where
  "string_start_before inp i bnd = string_loop inp (i - 1) bnd"

lemma string_loop_bounds: "bnd \<le> j \<Longrightarrow> bnd \<le> string_loop inp j bnd \<and> string_loop inp j bnd \<le> j"
  by (induction j) auto

lemma string_start_less: "bnd < i \<Longrightarrow> bnd \<le> string_start_before inp i bnd \<and> string_start_before inp i bnd < i"
  using string_loop_bounds [of bnd "i - 1" inp] unfolding string_start_before_def by linarith

function back_loop :: "string \<Rightarrow> nat \<Rightarrow> nat \<Rightarrow> nat \<Rightarrow> nat \<Rightarrow> nat" where
  "back_loop inp bnd i depth seps =
     (if bnd < i then
        (let c = inp ! (i - 1)
         in if c = CHR 0x22 then back_loop inp bnd (string_start_before inp i bnd) depth seps
            else if closes c then back_loop inp bnd (i - 1) (depth + 1) seps
            else if opens c then (if depth = 0 then i else back_loop inp bnd (i - 1) (depth - 1) seps)
            else if c = CHR '','' \<and> depth = 0
            then (if seps + 1 = 2 then i else back_loop inp bnd (i - 1) depth (seps + 1))
            else back_loop inp bnd (i - 1) depth seps)
      else i)"
  by auto
termination
  by (relation "measure (\<lambda>(inp, bnd, i, depth, seps). i)") (auto simp: string_start_less)

function blanks_up :: "string \<Rightarrow> nat \<Rightarrow> nat \<Rightarrow> nat" where
  "blanks_up inp i stop = (if i < stop \<and> is_blank (inp ! i) then blanks_up inp (i + 1) stop else i)"
  by auto
termination
  by (relation "measure (\<lambda>(inp, i, stop). stop - i)") auto

function blanks_down :: "string \<Rightarrow> nat \<Rightarrow> nat \<Rightarrow> nat" where
  "blanks_down inp i stop = (if stop < i \<and> is_blank (inp ! (i - 1)) then blanks_down inp (i - 1) stop else i)"
  by auto
termination
  by (relation "measure (\<lambda>(inp, i, stop). i)") auto

definition excerpt_start :: "string \<Rightarrow> nat \<Rightarrow> nat \<Rightarrow> nat" where
  "excerpt_start inp off line_start =
     (let bnd = (if line_start + excerpt_scan_limit < off then off - excerpt_scan_limit else line_start)
      in blanks_up inp (back_loop inp bnd off 0 0) off)"

text \<open>The string of the forward scan may step over its bound after a backslash.\<close>

function string_forward :: "string \<Rightarrow> nat \<Rightarrow> nat \<Rightarrow> nat" where
  "string_forward inp i stop =
     (if i < stop then
        (if inp ! i = CHR 0x5C then string_forward inp (i + 2) stop
         else if inp ! i = CHR 0x22 then i + 1 else string_forward inp (i + 1) stop)
      else i)"
  by auto
termination
  by (relation "measure (\<lambda>(inp, i, stop). stop - i)") auto

declare back_loop.simps [simp del] blanks_up.simps [simp del] blanks_down.simps [simp del]
  string_forward.simps [simp del]

lemma string_forward_ge: "i \<le> string_forward inp i stop"
  by (induction inp i stop rule: string_forward.induct) (subst string_forward.simps, auto)

function forward_loop :: "string \<Rightarrow> nat \<Rightarrow> nat \<Rightarrow> nat \<Rightarrow> nat \<Rightarrow> nat" where
  "forward_loop inp bnd i depth seps =
     (if i < bnd then
        (let c = inp ! i
         in if c = CHR 0x22 then
              (let j = string_forward inp (i + 1) bnd in forward_loop inp bnd (if bnd < j then bnd else j) depth seps)
            else if opens c then forward_loop inp bnd (i + 1) (depth + 1) seps
            else if closes c then (if depth = 0 then i else forward_loop inp bnd (i + 1) (depth - 1) seps)
            else if c = CHR '','' \<and> depth = 0
            then (if seps + 1 = 2 then i else forward_loop inp bnd (i + 1) depth (seps + 1))
            else forward_loop inp bnd (i + 1) depth seps)
      else i)"
  by auto
termination
proof (relation "measure (\<lambda>(inp, bnd, i, depth, seps). bnd - i)")
  fix inp :: string and bnd i depth seps :: nat and c j
  assume "i < bnd" "j = string_forward inp (i + 1) bnd"
  then show "((inp, bnd, if bnd < j then bnd else j, depth, seps), inp, bnd, i, depth, seps)
      \<in> measure (\<lambda>(inp, bnd, i, depth, seps). bnd - i)"
    using string_forward_ge [of "i + 1" inp bnd] by auto
qed auto

declare forward_loop.simps [simp del]

definition excerpt_end :: "string \<Rightarrow> nat \<Rightarrow> nat \<Rightarrow> nat" where
  "excerpt_end inp from_pos line_end =
     (let bnd = (if from_pos + excerpt_scan_limit < line_end then from_pos + excerpt_scan_limit else line_end)
      in blanks_down inp (forward_loop inp bnd from_pos 0 0) from_pos)"

section \<open>The frame\<close>

text \<open>\<^verbatim>\<open>std::string_view::rfind\<close> and \<^verbatim>\<open>find\<close> of a newline.\<close>

fun rfind_newline :: "string \<Rightarrow> nat \<Rightarrow> nat option" where
  "rfind_newline inp 0 = (if inp ! 0 = CHR 0x0A then Some 0 else None)"
| "rfind_newline inp (Suc i) = (if inp ! Suc i = CHR 0x0A then Some (Suc i) else rfind_newline inp i)"

function find_newline :: "string \<Rightarrow> nat \<Rightarrow> nat option" where
  "find_newline inp i =
     (if i < length inp then (if inp ! i = CHR 0x0A then Some i else find_newline inp (i + 1)) else None)"
  by auto
termination
  by (relation "measure (\<lambda>(inp, i). length inp - i)") auto

declare find_newline.simps [simp del]

record excerpt =
  ex_offset :: nat
  ex_length :: nat
  ex_line_start :: nat
  ex_line_end :: nat
  ex_start :: nat
  ex_end :: nat
  ex_cut_left :: bool
  ex_cut_right :: bool

definition line_start_of :: "string \<Rightarrow> nat \<Rightarrow> nat" where
  "line_start_of inp off = (if 0 < off then (case rfind_newline inp (off - 1) of Some nl \<Rightarrow> nl + 1 | None \<Rightarrow> 0) else 0)"

definition line_end_of :: "string \<Rightarrow> nat \<Rightarrow> nat" where
  "line_end_of inp off = (case find_newline inp off of Some nl \<Rightarrow> nl | None \<Rightarrow> length inp)"

definition shown_length :: "string \<Rightarrow> nat \<Rightarrow> nat \<Rightarrow> nat" where
  "shown_length inp off len =
     (let len = (if len \<noteq> 0 then len else 1)
      in if length inp < off + len then (if off < length inp then length inp - off else 0) else len)"

definition excerpt_of :: "error \<Rightarrow> string \<Rightarrow> excerpt" where
  "excerpt_of e inp =
     (let off = (if length inp < offset e then length inp else offset e);
          len = shown_length inp off (length_of e);
          line_start = line_start_of inp off; line_end = line_end_of inp off;
          start = excerpt_start inp off line_start;
          opener = off < length inp \<and> opens (inp ! off);
          stop = excerpt_end inp (if opener then off else off + len) line_end;
          stop = (if stop < off + len then off + len else stop);
          stop = (if line_end < stop then line_end else stop);
          first_visible = blanks_up inp line_start off;
          last_visible = blanks_down inp line_end stop
      in \<lparr>ex_offset = off, ex_length = len, ex_line_start = line_start, ex_line_end = line_end, ex_start = start,
          ex_end = stop, ex_cut_left = (first_visible < start), ex_cut_right = (stop < last_visible)\<rparr>)"

definition visible_char :: "char \<Rightarrow> char" where
  "visible_char c = (if c = CHR 0x09 then CHR '' '' else if uchar c < 0x20 then CHR ''?'' else c)"

definition excerpt_line :: "string \<Rightarrow> excerpt \<Rightarrow> string" where
  "excerpt_line inp x =
     (if ex_cut_left x then ellipsis else []) @ map (\<lambda>i. visible_char (inp ! i)) [ex_start x..<ex_end x]
     @ (if ex_cut_right x then ellipsis else [])"

definition caret_count :: "excerpt \<Rightarrow> nat" where
  "caret_count x =
     (let carets = (if ex_length x \<noteq> 0 then ex_length x else 1);
          carets = (if ex_end x < ex_offset x + carets \<and> ex_offset x < ex_end x then ex_end x - ex_offset x else carets)
      in if carets = 0 then 1 else carets)"

definition caret_column :: "excerpt \<Rightarrow> nat" where
  "caret_column x = 2 + (if ex_cut_left x then 1 else 0) + (ex_offset x - ex_start x)"

definition render_excerpt :: "error \<Rightarrow> string \<Rightarrow> string" where
  "render_excerpt e inp =
     (let x = excerpt_of e inp
      in ''   |'' @ [CHR 0x0A] @ ''   |  '' @ excerpt_line inp x @ [CHR 0x0A] @ ''   |''
         @ replicate (caret_column x) (CHR '' '') @ replicate (caret_count x) (CHR ''^'')
         @ '' at byte offset '' @ dec_nat (offset e) @ [CHR 0x0A])"

definition render_framed :: "error \<Rightarrow> string \<Rightarrow> string" where
  "render_framed e inp =
     ''error: '' @ headline e @ [CHR 0x0A] @ ''  --> '' @ render_path (steps e) (path_truncated e) @ [CHR 0x0A] @
     (let begins = ''   |  object begins at byte offset ''
            @ dec_nat (case container_offset e of Some n \<Rightarrow> n | None \<Rightarrow> offset e) @ [CHR 0x0A];
          one_of = (if candidates e \<noteq> [] then ''   |  expected one of: '' @ comma_join (candidates e) @ [CHR 0x0A] else [])
      in case code e of
           missing_field \<Rightarrow> begins
         | missing_tag \<Rightarrow> begins
         | unknown_field \<Rightarrow>
             (if suggestion e \<noteq> [] then ''   |  did you mean '' @ quoted (suggestion e) @ ''?'' @ [CHR 0x0A] else [])
             @ (if deny_unknown e \<and> context_of e \<noteq> []
                then ''   |  ('' @ context_of e @ '' is declared [[=deny_unknown_fields]])'' @ [CHR 0x0A] else [])
         | unknown_enumerator \<Rightarrow> one_of
         | no_variant_alternative \<Rightarrow> one_of
         | out_of_range \<Rightarrow> []
         | _ \<Rightarrow> (if inp \<noteq> [] then render_excerpt e inp else [])
                @ (if suggestion e \<noteq> [] then ''   |  '' @ suggestion e @ [CHR 0x0A] else []))"

section \<open>Bounds\<close>

lemma back_loop_bounds: "bnd \<le> i \<Longrightarrow> bnd \<le> back_loop inp bnd i depth seps \<and> back_loop inp bnd i depth seps \<le> i"
proof (induction inp bnd i depth seps rule: back_loop.induct)
  case (1 inp bnd i depth seps)
  show ?case
  proof (cases "bnd < i")
    case True
    note s = string_start_less [OF True, of inp]
    have p: "bnd \<le> i - 1" using True by simp
    show ?thesis
      using 1(1) [OF True refl _ conjunct1 [OF s]] 1(2) [OF True refl _ _ p] 1(3) [OF True refl _ _ _ _ p]
        1(4) [OF True refl _ _ _ _ _ p] 1(5) [OF True refl _ _ _ _ p] s True
      by (subst (1 2) back_loop.simps) (auto simp: Let_def)
  next
    case False
    then show ?thesis using 1(6) by (subst (1 2) back_loop.simps) simp
  qed
qed

lemma blanks_up_bounds: "i \<le> stop \<Longrightarrow> i \<le> blanks_up inp i stop \<and> blanks_up inp i stop \<le> stop"
proof (induction inp i stop rule: blanks_up.induct)
  case (1 inp i stop)
  show ?case
  proof (cases "i < stop \<and> is_blank (inp ! i)")
    case True
    then have "blanks_up inp i stop = blanks_up inp (i + 1) stop" by (simp add: blanks_up.simps [of inp i])
    with 1 True show ?thesis by simp
  next
    case False
    then have "blanks_up inp i stop = i" by (simp only: blanks_up.simps [of inp i stop] if_False)
    with 1 show ?thesis by simp
  qed
qed

lemma blanks_down_bounds: "stop \<le> i \<Longrightarrow> stop \<le> blanks_down inp i stop \<and> blanks_down inp i stop \<le> i"
proof (induction inp i stop rule: blanks_down.induct)
  case (1 inp i stop)
  show ?case
  proof (cases "stop < i \<and> is_blank (inp ! (i - 1))")
    case True
    then have "blanks_down inp i stop = blanks_down inp (i - 1) stop" by (simp add: blanks_down.simps [of inp i])
    moreover have "stop \<le> i - 1" using True by linarith
    ultimately show ?thesis using 1(1) [OF True] by linarith
  next
    case False
    then have "blanks_down inp i stop = i" by (simp only: blanks_down.simps [of inp i stop] if_False)
    with 1 show ?thesis by simp
  qed
qed

lemma excerpt_start_bounds:
  assumes "line_start \<le> off"
  shows "line_start \<le> excerpt_start inp off line_start" "excerpt_start inp off line_start \<le> off"
proof -
  define bnd where "bnd = (if line_start + excerpt_scan_limit < off then off - excerpt_scan_limit else line_start)"
  have b: "line_start \<le> bnd" "bnd \<le> off" using assms by (auto simp: bnd_def)
  note l = back_loop_bounds [OF b(2), of inp 0 0]
  note u = blanks_up_bounds [of "back_loop inp bnd off 0 0" off inp]
  show "line_start \<le> excerpt_start inp off line_start" "excerpt_start inp off line_start \<le> off"
    using b l u by (auto simp: excerpt_start_def Let_def bnd_def [symmetric])
qed

lemma rfind_newline_bounds:
  "rfind_newline inp i = Some nl \<Longrightarrow> nl \<le> i \<and> inp ! nl = CHR 0x0A \<and> (\<forall>k. nl < k \<and> k \<le> i \<longrightarrow> inp ! k \<noteq> CHR 0x0A)"
  "rfind_newline inp i = None \<Longrightarrow> \<forall>k\<le>i. inp ! k \<noteq> CHR 0x0A"
  by (induction i) (auto split: if_splits simp: le_Suc_eq)

lemma find_newline_bounds:
  "(case find_newline inp i of
      Some nl \<Rightarrow> i \<le> nl \<and> nl < length inp \<and> inp ! nl = CHR 0x0A \<and> (\<forall>k. i \<le> k \<and> k < nl \<longrightarrow> inp ! k \<noteq> CHR 0x0A)
    | None \<Rightarrow> \<forall>k. i \<le> k \<and> k < length inp \<longrightarrow> inp ! k \<noteq> CHR 0x0A)"
proof (induction inp i rule: find_newline.induct)
  case (1 inp i)
  show ?case
  proof (cases "i < length inp \<and> inp ! i \<noteq> CHR 0x0A")
    case True
    then have "find_newline inp i = find_newline inp (i + 1)" by (simp add: find_newline.simps [of inp i])
    moreover have "i \<le> k \<longleftrightarrow> k = i \<or> i + 1 \<le> k" for k by auto
    ultimately show ?thesis using 1 True by (auto split: option.splits)
  next
    case False
    then show ?thesis by (auto simp: find_newline.simps [of inp i])
  qed
qed

lemma line_bounds:
  assumes "off \<le> length inp"
  shows "line_start_of inp off \<le> off" "off \<le> line_end_of inp off" "line_end_of inp off \<le> length inp"
    "\<And>k. line_start_of inp off \<le> k \<Longrightarrow> k < line_end_of inp off \<Longrightarrow> inp ! k \<noteq> CHR 0x0A"
proof -
  show s: "line_start_of inp off \<le> off"
    using rfind_newline_bounds(1) [where inp = inp and i = "off - 1"] by (fastforce simp: line_start_of_def split: option.split)
  show e: "off \<le> line_end_of inp off" "line_end_of inp off \<le> length inp"
    using find_newline_bounds [where inp = inp and i = off] assms by (auto simp: line_end_of_def split: option.splits)
  fix k assume k: "line_start_of inp off \<le> k" "k < line_end_of inp off"
  show "inp ! k \<noteq> CHR 0x0A"
  proof (cases "k < off")
    case True
    then show ?thesis
      using k(1) rfind_newline_bounds [where inp = inp and i = "off - 1"]
      by (fastforce simp: line_start_of_def split: option.splits if_splits)
  next
    case False
    then show ?thesis
      using k(2) find_newline_bounds [where inp = inp and i = off] by (auto simp: line_end_of_def split: option.splits)
  qed
qed

lemma excerpt_fields:
  fixes e inp
  defines "x \<equiv> excerpt_of e inp"
  shows "ex_offset x = min (offset e) (length inp)" "ex_line_start x = line_start_of inp (ex_offset x)"
    "ex_line_end x = line_end_of inp (ex_offset x)" "ex_start x = excerpt_start inp (ex_offset x) (ex_line_start x)"
    "ex_length x = shown_length inp (ex_offset x) (length_of e)"
    "min (ex_offset x + ex_length x) (ex_line_end x) \<le> ex_end x" "ex_end x \<le> ex_line_end x"
  unfolding x_def by (simp_all add: excerpt_of_def Let_def min_def)

lemma visible_char_columnless: "uchar (visible_char c) AND 0xC0 = 0x80 \<longleftrightarrow> uchar c AND 0xC0 = 0x80"
proof -
  have s: "uchar (CHR '' '') AND 0xC0 \<noteq> 0x80" "uchar (CHR ''?'') AND 0xC0 \<noteq> 0x80" "uchar (CHR 0x09) AND 0xC0 \<noteq> 0x80"
    by code_simp+
  have "w AND 0xC0 \<noteq> 0x80" if "w < 0x20" for w :: byte
  proof
    assume "w AND 0xC0 = 0x80"
    then have "0x80 \<le> w" using word_and_le2 [of w "0xC0"] by (simp add: and.commute)
    with that show False by (simp add: word_less_def word_le_def)
  qed
  with s show ?thesis by (auto simp: visible_char_def)
qed

lemma columnless_visible: "columnless (map visible_char s) = columnless s"
  by (simp add: columnless_def filter_map visible_char_columnless comp_def)

text \<open>C38. The excerpt is inside the input: for every error and every text, however wrong the offset and length
  of the error, the window starts at or before the offset, ends at or after it and inside the text, and holds
  no line break. Where the offset is inside a line, the character there is in the excerpt, and the first caret stands
  to the right of its column by exactly the number of UTF-8 continuation octets that the excerpt shows before it: under the
  character when everything shown before it is ASCII, and too far right otherwise (\<open>excerpt_caret_off_column\<close>).\<close>

theorem excerpt_in_bounds:
  "let x = excerpt_of e inp in ex_start x \<le> ex_offset x \<and> ex_offset x \<le> ex_end x \<and> ex_end x \<le> length inp
    \<and> (\<forall>k. ex_start x \<le> k \<and> k < ex_end x \<longrightarrow> inp ! k \<noteq> CHR 0x0A)
    \<and> (offset e < length inp \<and> inp ! offset e \<noteq> CHR 0x0A \<longrightarrow>
         (\<exists>before after. excerpt_line inp x = before @ visible_char (inp ! offset e) # after
            \<and> caret_column x = columns (''  '' @ before) + columnless (map ((!) inp) [ex_start x..<offset e])))"
proof -
  define x where "x = excerpt_of e inp"
  note fs = excerpt_fields [of e inp, folded x_def]
  have off: "ex_offset x \<le> length inp" by (simp add: fs(1))
  note lb = line_bounds [OF off]
  have s: "ex_line_start x \<le> ex_start x" "ex_start x \<le> ex_offset x"
    using excerpt_start_bounds [OF lb(1)] fs(2,4) by simp_all
  have m: "ex_offset x \<le> ex_end x" using fs(3,6) lb(2) by linarith
  have l: "ex_end x \<le> length inp" using fs(3,7) lb(3) by linarith
  have nl: "inp ! k \<noteq> CHR 0x0A" if "ex_start x \<le> k" "k < ex_end x" for k
    by (rule lb(4)) (use that s fs(2,3,7) in linarith)+
  have "\<exists>before after. excerpt_line inp x = before @ visible_char (inp ! offset e) # after
      \<and> caret_column x = columns (''  '' @ before) + columnless (map ((!) inp) [ex_start x..<offset e])"
    if at: "offset e < length inp" "inp ! offset e \<noteq> CHR 0x0A"
  proof -
    have o: "ex_offset x = offset e" using at(1) by (simp add: fs(1))
    have "0 < ex_length x" using at(1) by (simp add: fs(5) shown_length_def o Let_def)
    moreover have "offset e < ex_line_end x"
      using lb(2,3) find_newline_bounds [where inp = inp and i = "offset e"] at by (auto simp: fs(3) o line_end_of_def le_less split: option.splits)
    ultimately have "ex_offset x < ex_end x" using fs(6) o by linarith
    then have "[ex_start x..<ex_end x] = [ex_start x..<offset e] @ offset e # [Suc (offset e)..<ex_end x]"
      using s(2) o by (metis less_imp_le_nat le_add_diff_inverse upt_add_eq_append upt_conv_Cons)
    then have line: "excerpt_line inp x = ((if ex_cut_left x then ellipsis else []) @ map (\<lambda>i. visible_char (inp ! i)) [ex_start x..<offset e])
        @ visible_char (inp ! offset e) # (map (\<lambda>i. visible_char (inp ! i)) [Suc (offset e)..<ex_end x] @ (if ex_cut_right x then ellipsis else []))"
      by (simp add: excerpt_line_def)
    have "columns (map (\<lambda>i. visible_char (inp ! i)) [ex_start x..<offset e]) + columnless (map ((!) inp) [ex_start x..<offset e])
        = ex_offset x - ex_start x"
      using columns_columnless [of "map visible_char (map ((!) inp) [ex_start x..<offset e])"]
        columnless_visible [of "map ((!) inp) [ex_start x..<offset e]"]
      by (simp add: o comp_def)
    moreover have "columns ''  '' = 2" "columns [] = 0" by code_simp+
    ultimately have "caret_column x = columns (''  '' @ (if ex_cut_left x then ellipsis else []) @ map (\<lambda>i. visible_char (inp ! i)) [ex_start x..<offset e])
        + columnless (map ((!) inp) [ex_start x..<offset e])"
      unfolding caret_column_def columns_append by simp
    with line show ?thesis by blast
  qed
  with s(2) m l nl show ?thesis unfolding Let_def x_def [symmetric] by blast
qed

theorem excerpt_in_bounds_witness:
  "\<exists>before after. excerpt_line ''{a:1}'' (excerpt_of (mk_error unexpected_token 1) ''{a:1}'') = before @ CHR ''a'' # after
     \<and> columns (''  '' @ before) = 3"
proof -
  let ?e = "mk_error unexpected_token 1" and ?inp = "''{a:1}''"
  have o: "offset ?e < length ?inp \<and> ?inp ! offset ?e \<noteq> CHR 0x0A" by simp
  have v: "visible_char (?inp ! offset ?e) = CHR ''a''" "caret_column (excerpt_of ?e ?inp) = 3"
    "columnless (map ((!) ?inp) [ex_start (excerpt_of ?e ?inp)..<offset ?e]) = 0" by code_simp+
  from excerpt_in_bounds [of ?e ?inp] o show ?thesis unfolding Let_def v by (simp del: One_nat_def)
qed

text \<open>The caret misses its column behind a letter of two octets: for an error at the value of the one member of an object
  whose name is e with an acute accent, the excerpt is the whole text, the value stands in column 7 after the bar and the
  caret is written in column 8. \<^verbatim>\<open>docs/errors.md\<close> says that the caret column stays aligned.\<close>

theorem excerpt_caret_off_column:
  "let inp = [CHR ''{'', CHR 0x22, CHR 0xC3, CHR 0xA9, CHR 0x22, CHR '':'', CHR ''x'', CHR ''}''];
       x = excerpt_of (mk_error unexpected_token 6) inp; before = ellipsis @ take 5 (drop 1 inp)
   in excerpt_line inp x = before @ CHR ''x'' # ellipsis \<and> columns (''  '' @ before) = 7 \<and> caret_column x = 8"
  by code_simp

end
