(* ===== verification/Core_Traverse.thy ===== *)
theory Core_Traverse
  imports Core_Keys
begin

text \<open>
  \<^verbatim>\<open>src/include/vcodec/core/traverse.hpp\<close>: the engine that walks a value and calls a sink. The templates are
  resolved by the value's static type, which a \<open>cval\<close> carries in its constructor; the field context \<^verbatim>\<open>F\<close> is a
  \<open>field_meta\<close>. The sink is a parameter, the function \<open>eng_emit\<close> that a call is made through; so is what a
  format's \<^verbatim>\<open>format_traits\<close> answer, and what user code does: custom codecs and the comparison of a member
  with its default. A throw is the left summand, and the catch and rethrow of the path frames is
  \<open>with_path\<close>.
\<close>

section \<open>Calls, values, engines\<close>

text \<open>One constructor per call the engine makes. The hooks of lines 50 to 78 carry the field's annotations;
  a sink without the hook ignores them. \<open>c_write_prepared\<close> is the whole-value hook of line 334: its argument is what
  the sink makes of the type and the value it is given.\<close>

datatype ecall =
    c_null
  | c_boolean bool
  | c_uint "annotation list" u64
  | c_sint "annotation list" u64
  | c_real "annotation list" u64
  | c_text "annotation list" string
  | c_text_plain string
  | c_bytes "annotation list" bytes
  | c_begin_array "annotation list" "nat option"
  | c_begin_array_plain nat
  | c_end_array
  | c_begin_map "annotation list" "nat option"
  | c_begin_map_plain nat
  | c_begin_map_ordered nat
  | c_end_map
  | c_key_text string
  | c_key_uint u64
  | c_key_sint u64
  | c_prepared_name string
  | c_prepared_int int
  | c_tag u64
  | c_write_range u64 bytes
  | c_write_prepared string

text \<open>What a custom codec does with the sink: calls, and possibly an \<^verbatim>\<open>encode_error\<close> constructed and thrown after
  them.\<close>

type_synonym codec_run = "ecall list \<times> (errc \<times> string) option"

datatype map_key_val = mk_string string | mk_uint u64 | mk_sint u64

text \<open>
  A value with its static type, one constructor per branch of \<^verbatim>\<open>encode_value\<close>:
  \<^item> integers and floating values after the \<^verbatim>\<open>static_cast\<close> to 64 bits; an enum with the signedness of its
    underlying type;
  \<^item> \<open>v_variant\<close> holds the name of the alternative (\<^verbatim>\<open>variant_names<V>[I]\<close>) and its value, or nothing when it is
    valueless;
  \<^item> \<open>v_byte_range\<close> is a contiguous range of \<^verbatim>\<open>std::byte\<close> (true) or \<^verbatim>\<open>std::uint8_t\<close>;
  \<^item> maps and sequences say whether the range is sized; a contiguous range of numbers has the RFC 8746 tag and the
    memory image \<^verbatim>\<open>write_range\<close> copies;
  \<^item> \<open>v_class\<close> holds the members in the order of \<^verbatim>\<open>fields_of\<close>;
  \<^item> \<open>v_codec_for\<close> is a value of a type with a \<^verbatim>\<open>codec_for\<close>: whether it is a \<^verbatim>\<open>sys_time\<close>, the annotations of its class, and
    what the codec does in each field context.
\<close>

datatype cval =
    v_bool bool
  | v_char char
  | v_uint u64
  | v_sint u64
  | v_real u64
  | v_enum renum bool int
  | v_string string
  | v_c_string "string option"
  | v_optional "cval option"
  | v_variant "(string \<times> cval) option"
  | v_byte_range bool bytes
  | v_map bool "(map_key_val \<times> cval) list"
  | v_tuple "cval list"
  | v_sequence bool "(u64 \<times> bytes) option" "cval list"
  | v_class rclass "cval list"
  | v_codec_for bool "annotation list option" "annotation list \<Rightarrow> codec_run"

record format_traits =
  ft_is_bytes :: "bool \<Rightarrow> annotation list \<Rightarrow> bool"
  ft_integer_key :: "field_meta \<Rightarrow> int option"
  ft_member_order :: "field_meta list \<Rightarrow> nat list"
  ft_expected_tags :: "annotation list \<Rightarrow> bool \<Rightarrow> annotation list option \<Rightarrow> u64 list"
  ft_enum_default_integer :: bool
  ft_bulk_range :: "annotation list \<Rightarrow> bool \<Rightarrow> bool"

text \<open>\<^verbatim>\<open>format_traits_defaults\<close> (\<^verbatim>\<open>core/model.hpp\<close>) and its two specialisations.\<close>

definition format_traits_defaults :: format_traits where
  "format_traits_defaults =
     \<lparr>ft_is_bytes = (\<lambda>byte_elems anns. byte_elems), ft_integer_key = (\<lambda>f. None),
      ft_member_order = (\<lambda>fs. [0..<length fs]), ft_expected_tags = (\<lambda>anns sys ca. []),
      ft_enum_default_integer = False, ft_bulk_range = (\<lambda>anns numeric. False)\<rparr>"

fun json_bytes_of_ann :: "annotation \<Rightarrow> bytes_encoding option" where
  "json_bytes_of_ann (ann_json_bytes e) = Some e" | "json_bytes_of_ann _ = None"

definition json_format_traits :: format_traits where
  "json_format_traits = format_traits_defaults
     \<lparr>ft_is_bytes := (\<lambda>byte_elems anns. byte_elems \<or> find_annotation json_bytes_of_ann anns \<noteq> None)\<rparr>"

definition cbor_format_traits :: format_traits where
  "cbor_format_traits =
     \<lparr>ft_is_bytes = (\<lambda>byte_elems anns. byte_elems \<or> has_annotation ann_byte_string anns),
      ft_integer_key = cbor_integer_key, ft_member_order = member_order, ft_expected_tags = expected_tags,
      ft_enum_default_integer = True,
      ft_bulk_range = (\<lambda>anns numeric. has_annotation ann_typed_array anns \<and> numeric)\<rparr>"

text \<open>\<open>eng_range_hook\<close> and \<open>eng_prepared\<close> answer the two \<^verbatim>\<open>requires\<close> clauses about the sink: whether it has
  \<^verbatim>\<open>write_range\<close> (line 160), and for which values \<^verbatim>\<open>write_prepared<T>\<close> is viable (line 334).\<close>

record 's engine =
  eng_emit :: "ecall \<Rightarrow> 's \<Rightarrow> 's encoded"
  eng_traits :: format_traits
  eng_with :: "string \<Rightarrow> field_meta \<Rightarrow> cval \<Rightarrow> codec_run"
  eng_is_default :: "field_meta \<Rightarrow> cval \<Rightarrow> bool"
  eng_range_hook :: bool
  eng_prepared :: "cval \<Rightarrow> string option"

definition no_field :: field_meta where
  "no_field = \<lparr>fm_info = \<lparr>wire_name = [], ident_of = [], qual_name = [], aliases = [], flags = 0, member_index = 0,
       tag_key = []\<rparr>, fm_path = [], fm_type = rt_other [], fm_owner = RClass [] [] [] [] [] [], fm_annotations = [],
     fm_codec = None, fm_default = None\<rparr>"

section \<open>Sequencing, paths\<close>

text \<open>A throw skips the rest.\<close>

definition ebind :: "'a encoded \<Rightarrow> ('a \<Rightarrow> 'b encoded) \<Rightarrow> 'b encoded" where
  "ebind r f = (case r of Inl e \<Rightarrow> Inl e | Inr x \<Rightarrow> f x)"

lemma ebind_simps [simp]: "ebind (Inl e) f = Inl e" "ebind (Inr x) f = f x"
  by (simp_all add: ebind_def)

lemma ebind_cong [fundef_cong]: "r = r' \<Longrightarrow> (\<And>x. r' = Inr x \<Longrightarrow> f x = f' x) \<Longrightarrow> ebind r f = ebind r' f'"
  by (simp add: ebind_def split: sum.split)

definition with_path :: "path_step \<Rightarrow> 's encoded \<Rightarrow> 's encoded" where
  "with_path p r = (case r of Inl e \<Rightarrow> Inl (ee_push p e) | Inr s \<Rightarrow> Inr s)"

fun emit_all :: "'s engine \<Rightarrow> ecall list \<Rightarrow> 's \<Rightarrow> 's encoded" where
  "emit_all eng [] s = Inr s"
| "emit_all eng (c # cs) s = ebind (eng_emit eng c s) (emit_all eng cs)"

definition run_codec :: "'s engine \<Rightarrow> codec_run \<Rightarrow> 's \<Rightarrow> 's encoded" where
  "run_codec eng run s =
     ebind (emit_all eng (fst run) s) (\<lambda>s. case snd run of None \<Rightarrow> Inr s | Some (c, msg) \<Rightarrow> Inl (mk_encode_error c msg))"

section \<open>Leaves\<close>

fun to_string_view :: "string option \<Rightarrow> string" where
  "to_string_view (Some t) = t"
| "to_string_view None = []"

definition skipped_enumerator :: "renum \<Rightarrow> enumerator_info \<Rightarrow> encode_error" where
  "skipped_enumerator e x = mk_encode_error unknown_enumerator
     (''enumerator '' @ [CHR 0x27] @ ei_identifier x @ [CHR 0x27] @ '' of '' @ en_name e
      @ '' is marked [[=vcodec::skip]] and cannot be encoded'')"

definition no_enumerator :: "renum \<Rightarrow> int \<Rightarrow> encode_error" where
  "no_enumerator e v = mk_encode_error unknown_enumerator
     (''value '' @ dec_int (sint (word_of_int v :: u64)) @ '' is not an enumerator of '' @ en_name e)"

definition encode_enum :: "'s engine \<Rightarrow> field_meta \<Rightarrow> renum \<Rightarrow> bool \<Rightarrow> int \<Rightarrow> 's \<Rightarrow> 's encoded" where
  "encode_enum eng F e sg v s =
     (let table = build_enum_schema e; anns = fm_annotations F
      in if enum_encodes_as_integer e anns (ft_enum_default_integer (eng_traits eng)) then
           (case find (\<lambda>x. ei_value x = v \<and> ei_skipped x) table of
              Some x \<Rightarrow> Inl (skipped_enumerator e x)
            | None \<Rightarrow> eng_emit eng (if sg then c_sint anns (word_of_int v) else c_uint anns (word_of_int v)) s)
         else
           (case find (\<lambda>x. ei_value x = v) table of
              Some x \<Rightarrow> (if ei_skipped x then Inl (skipped_enumerator e x)
                         else eng_emit eng (c_text_plain (ei_name x)) s)
            | None \<Rightarrow> Inl (no_enumerator e v)))"

text \<open>Tags of a value's type: only a class, reflected or with a codec, has annotations of its own.\<close>

definition value_tags :: "'s engine \<Rightarrow> field_meta \<Rightarrow> cval \<Rightarrow> u64 list" where
  "value_tags eng F v =
     (let tags = ft_expected_tags (eng_traits eng) (fm_annotations F)
      in case v of
           v_class c vs \<Rightarrow> tags False (Some (type_annotations_of c))
         | v_codec_for sys ca run \<Rightarrow> tags sys ca
         | _ \<Rightarrow> tags False None)"

definition emit_tags :: "'s engine \<Rightarrow> field_meta \<Rightarrow> cval \<Rightarrow> 's \<Rightarrow> 's encoded" where
  "emit_tags eng F v s = emit_all eng (map c_tag (value_tags eng F v)) s"

definition numeric_image :: "cval \<Rightarrow> (u64 \<times> bytes) option" where
  "numeric_image v = (case v of
     v_sequence sized im vs \<Rightarrow> im
   | v_byte_range byte_elems bs \<Rightarrow> if byte_elems then None else Some (64, bs)
   | _ \<Rightarrow> None)"

definition serialized_field_count :: "rclass \<Rightarrow> nat" where
  "serialized_field_count c = length (filter (\<lambda>f. \<not> fi_skip_serializing f) (build_schema c))"

text \<open>Lines 184 to 191, and again 223 to 226: whether a member is present in the output.\<close>

definition will_emit :: "'s engine \<Rightarrow> field_meta \<Rightarrow> cval \<Rightarrow> bool" where
  "will_emit eng f m =
     (let present = (if has_flag (flags (fm_info f)) flag_skip_if_null
                     then (case m of v_optional x \<Rightarrow> x \<noteq> None | _ \<Rightarrow> True) else True)
      in if has_flag (flags (fm_info f)) flag_skip_if_default \<and> eng_is_default eng f m then False else present)"

text \<open>\<^verbatim>\<open>access<f>(v)\<close>; an object has a member for every field.\<close>

definition access :: "field_meta \<Rightarrow> cval list \<Rightarrow> cval option" where
  "access f vs = (let i = member_index (fm_info f) in if i < length vs then Some (vs ! i) else None)"

definition emitted_field_count :: "'s engine \<Rightarrow> rclass \<Rightarrow> cval list \<Rightarrow> nat" where
  "emitted_field_count eng c vs = length (filter (\<lambda>f. \<not> fi_skip_serializing (fm_info f)
     \<and> (case access f vs of Some m \<Rightarrow> will_emit eng f m | None \<Rightarrow> False)) (build_fields c))"

definition emit_key :: "'s engine \<Rightarrow> field_meta \<Rightarrow> 's \<Rightarrow> 's encoded" where
  "emit_key eng f s = eng_emit eng
     (case ft_integer_key (eng_traits eng) f of Some k \<Rightarrow> c_prepared_int k | None \<Rightarrow> c_prepared_name (wire_name (fm_info f))) s"

definition variant_value_key :: string where "variant_value_key = ''value''"

definition valueless :: encode_error where
  "valueless = mk_encode_error no_variant_alternative ''variant is valueless_by_exception''"

text \<open>Lines 330 to 335: a custom codec goes before the sink's hook.\<close>

definition prepared_image :: "'s engine \<Rightarrow> cval \<Rightarrow> string option" where
  "prepared_image eng v = (case v of v_codec_for sys ca run \<Rightarrow> None | _ \<Rightarrow> eng_prepared eng v)"

text \<open>An octet of a range that is not a byte string is a value of its own.\<close>

definition byte_call :: "'s engine \<Rightarrow> field_meta \<Rightarrow> byte \<Rightarrow> ecall" where
  "byte_call eng F b = (case prepared_image eng (v_uint (ucast b)) of
     Some img \<Rightarrow> c_write_prepared img | None \<Rightarrow> c_uint (fm_annotations F) (ucast b))"

fun encode_bytes_elements :: "'s engine \<Rightarrow> field_meta \<Rightarrow> u64 \<Rightarrow> bytes \<Rightarrow> 's \<Rightarrow> 's encoded" where
  "encode_bytes_elements eng F i [] s = Inr s"
| "encode_bytes_elements eng F i (b # bs) s =
     ebind (with_path (step_index i) (eng_emit eng (byte_call eng F b) s))
       (encode_bytes_elements eng F (i + 1) bs)"

section \<open>The traversal\<close>

text \<open>\<^verbatim>\<open>optional_like\<close> and what it holds; \<^verbatim>\<open>internally_tagged\<close> with the class and the members.\<close>

definition optional_of :: "cval \<Rightarrow> cval option option" where
  "optional_of v = (case v of v_optional x \<Rightarrow> Some x | _ \<Rightarrow> None)"

definition internally_tagged :: "cval \<Rightarrow> (rclass \<times> cval list) option" where
  "internally_tagged v = (case v of
     v_class c vs \<Rightarrow> if \<not> ti_transparent (build_type_info c) then Some (c, vs) else None
   | _ \<Rightarrow> None)"

fun key_call_of :: "map_key_val \<Rightarrow> ecall" where
  "key_call_of (mk_string k) = c_key_text k"
| "key_call_of (mk_uint k) = c_key_uint k"
| "key_call_of (mk_sint k) = c_key_sint k"

fun key_step_of :: "map_key_val \<Rightarrow> path_step" where
  "key_step_of (mk_string k) = step_key_text k"
| "key_step_of (mk_uint k) = step_index k"
| "key_step_of (mk_sint k) = step_index k"

lemma size_list_member: "x \<in> set xs \<Longrightarrow> f x < size_list f xs"
  by (induction xs) auto

lemma access_size [termination_simp]: "access f vs = Some m \<Longrightarrow> size m < size_list size vs"
  by (auto simp: access_def Let_def split: if_splits intro!: size_list_member)

lemma optional_of_size [termination_simp]: "optional_of v = Some (Some w) \<Longrightarrow> size w < size v"
  by (auto simp: optional_of_def split: cval.splits)

lemma internally_tagged_size [termination_simp]: "internally_tagged v = Some (c, vs) \<Longrightarrow> size_list size vs < size v"
  by (auto simp: internally_tagged_def split: cval.splits if_splits)

function encode_value :: "'s engine \<Rightarrow> field_meta \<Rightarrow> cval \<Rightarrow> 's \<Rightarrow> 's encoded"
  and encode_shape :: "'s engine \<Rightarrow> field_meta \<Rightarrow> cval \<Rightarrow> 's \<Rightarrow> 's encoded"
  and encode_variant :: "'s engine \<Rightarrow> field_meta \<Rightarrow> (string \<times> cval) option \<Rightarrow> 's \<Rightarrow> 's encoded"
  and encode_field_value :: "'s engine \<Rightarrow> field_meta \<Rightarrow> cval \<Rightarrow> 's \<Rightarrow> 's encoded"
  and encode_elements :: "'s engine \<Rightarrow> field_meta \<Rightarrow> u64 \<Rightarrow> cval list \<Rightarrow> 's \<Rightarrow> 's encoded"
  and encode_entries :: "'s engine \<Rightarrow> field_meta \<Rightarrow> (map_key_val \<times> cval) list \<Rightarrow> 's \<Rightarrow> 's encoded"
  and encode_struct :: "'s engine \<Rightarrow> rclass \<Rightarrow> cval list \<Rightarrow> string \<Rightarrow> string \<Rightarrow> 's \<Rightarrow> 's encoded"
  and encode_transparent :: "'s engine \<Rightarrow> cval list \<Rightarrow> field_meta list \<Rightarrow> 's \<Rightarrow> 's encoded"
  and encode_members :: "'s engine \<Rightarrow> cval list \<Rightarrow> field_meta list \<Rightarrow> 's \<Rightarrow> 's encoded"
where
  "encode_value eng F v s =
     (case fm_codec F of
        Some c \<Rightarrow> run_codec eng (eng_with eng c F v) s
      | None \<Rightarrow>
          (case prepared_image eng v of
             Some img \<Rightarrow> eng_emit eng (c_write_prepared img) s
           | None \<Rightarrow> encode_shape eng F v s))"
| "encode_shape eng F (v_codec_for sys ca run) s = run_codec eng (run (fm_annotations F)) s"
| "encode_shape eng F (v_bool b) s = eng_emit eng (c_boolean b) s"
| "encode_shape eng F (v_char c) s = eng_emit eng (c_text_plain [c]) s"
| "encode_shape eng F (v_uint u) s = eng_emit eng (c_uint (fm_annotations F) u) s"
| "encode_shape eng F (v_sint i) s = eng_emit eng (c_sint (fm_annotations F) i) s"
| "encode_shape eng F (v_real d) s = eng_emit eng (c_real (fm_annotations F) d) s"
| "encode_shape eng F (v_enum e sg v) s = encode_enum eng F e sg v s"
| "encode_shape eng F (v_string t) s = eng_emit eng (c_text (fm_annotations F) (to_string_view (Some t))) s"
| "encode_shape eng F (v_c_string t) s = eng_emit eng (c_text (fm_annotations F) (to_string_view t)) s"
| "encode_shape eng F (v_optional x) s =
     (case x of Some v \<Rightarrow> encode_value eng F v s | None \<Rightarrow> eng_emit eng c_null s)"
| "encode_shape eng F (v_variant x) s = encode_variant eng F x s"
| "encode_shape eng F (v_byte_range byte_elems bs) s =
     (if ft_is_bytes (eng_traits eng) byte_elems (fm_annotations F) then eng_emit eng (c_bytes (fm_annotations F) bs) s
      else ebind (eng_emit eng (c_begin_array (fm_annotations F) (Some (length bs))) s) (\<lambda>s.
           ebind (encode_bytes_elements eng F 0 bs s) (eng_emit eng c_end_array)))"
| "encode_shape eng F (v_map sized es) s =
     ebind (eng_emit eng (c_begin_map (fm_annotations F) (if sized then Some (length es) else None)) s) (\<lambda>s.
     ebind (encode_entries eng F es s) (eng_emit eng c_end_map))"
| "encode_shape eng F (v_tuple vs) s =
     ebind (eng_emit eng (c_begin_array_plain (length vs)) s) (\<lambda>s.
     ebind (encode_elements eng F 0 vs s) (eng_emit eng c_end_array))"
| "encode_shape eng F (v_sequence sized im vs) s =
     ebind (eng_emit eng (c_begin_array (fm_annotations F) (if sized then Some (length vs) else None)) s) (\<lambda>s.
     ebind (encode_elements eng F 0 vs s) (eng_emit eng c_end_array))"
| "encode_shape eng F (v_class c vs) s = encode_struct eng c vs [] [] s"
| "encode_variant eng F x s =
     (case x of
        None \<Rightarrow> Inl valueless
      | Some (name, v) \<Rightarrow>
          (case internally_tagged v of
             Some (c, vs) \<Rightarrow> encode_struct eng c vs (tag_key (fm_info F)) name s
           | None \<Rightarrow>
               ebind (eng_emit eng (c_begin_map_plain 2) s) (\<lambda>s.
               ebind (eng_emit eng (c_key_text (tag_key (fm_info F))) s) (\<lambda>s.
               ebind (eng_emit eng (c_text_plain name) s) (\<lambda>s.
               ebind (eng_emit eng (c_prepared_name variant_value_key) s) (\<lambda>s.
               ebind (with_path (step_member variant_value_key) (encode_value eng no_field v s))
                 (eng_emit eng c_end_map)))))))"
| "encode_field_value eng F v s =
     (case optional_of v of
        Some (Some w) \<Rightarrow> encode_field_value eng F w s
      | Some None \<Rightarrow> eng_emit eng c_null s
      | None \<Rightarrow>
          ebind (emit_tags eng F v s) (\<lambda>s.
            if ft_bulk_range (eng_traits eng) (fm_annotations F) (numeric_image v \<noteq> None) \<and> eng_range_hook eng
            then eng_emit eng (case numeric_image v of Some (t, raw) \<Rightarrow> c_write_range t raw | None \<Rightarrow> c_null) s
            else encode_value eng F v s))"
| "encode_elements eng F i [] s = Inr s"
| "encode_elements eng F i (v # vs) s =
     ebind (with_path (step_index i) (encode_value eng F v s)) (encode_elements eng F (i + 1) vs)"
| "encode_entries eng F [] s = Inr s"
| "encode_entries eng F ((k, v) # es) s =
     ebind (eng_emit eng (key_call_of k) s) (\<lambda>s.
     ebind (with_path (key_step_of k) (encode_value eng F v s)) (encode_entries eng F es))"
| "encode_struct eng c vs tk tv s =
     (if ti_transparent (build_type_info c) then encode_transparent eng vs (build_fields c) s
      else
        (let n = (if \<not> ti_conditional_fields (build_type_info c) then serialized_field_count c
                  else emitted_field_count eng c vs) + (if tk = [] then 0 else 1)
         in ebind (eng_emit eng (if tk \<noteq> [] then c_begin_map_plain n else c_begin_map_ordered n) s) (\<lambda>s.
            ebind (if tk \<noteq> [] then ebind (eng_emit eng (c_key_text tk) s) (eng_emit eng (c_text_plain tv)) else Inr s) (\<lambda>s.
            ebind (encode_members eng vs (map ((!) (build_fields c)) (ft_member_order (eng_traits eng) (build_fields c))) s)
              (eng_emit eng c_end_map)))))"
| "encode_transparent eng vs [] s = Inr s"
| "encode_transparent eng vs (f # fs) s =
     (case access f vs of
        None \<Rightarrow> Inr s
      | Some m \<Rightarrow> ebind (with_path (step_member (ident_of (fm_info f))) (encode_value eng f m s)) (encode_transparent eng vs fs))"
| "encode_members eng vs [] s = Inr s"
| "encode_members eng vs (f # fs) s =
     (case access f vs of
        None \<Rightarrow> Inr s
      | Some m \<Rightarrow>
          if fi_skip_serializing (fm_info f) \<or> \<not> will_emit eng f m then encode_members eng vs fs s
          else ebind (emit_key eng f s) (\<lambda>s.
               ebind (with_path (step_member (ident_of (fm_info f))) (encode_field_value eng f m s))
                 (encode_members eng vs fs)))"
  by pat_completeness auto
termination
  by (relation "measures
      [case_sum (case_sum (case_sum (\<lambda>(_, _, v, _). size v) (\<lambda>(_, _, v, _). size v))
          (case_sum (\<lambda>(_, _, x, _). size (v_variant x)) (\<lambda>(_, _, v, _). size v)))
         (case_sum (case_sum (\<lambda>(_, _, _, vs, _). size_list size vs) (\<lambda>(_, _, es, _). size (v_map True es)))
          (case_sum (\<lambda>(_, _, vs, _, _, _). size_list size vs)
            (case_sum (\<lambda>(_, vs, _, _). size_list size vs) (\<lambda>(_, vs, _, _). size_list size vs)))),
       case_sum (case_sum (case_sum (\<lambda>_. 4) (\<lambda>_. 3)) (case_sum (\<lambda>_. 2) (\<lambda>_. 5)))
         (case_sum (case_sum (\<lambda>_. 0) (\<lambda>_. 0)) (case_sum (\<lambda>_. 1) (case_sum (\<lambda>_. 0) (\<lambda>_. 0)))),
       case_sum (\<lambda>_. 0) (case_sum (\<lambda>_. 0) (case_sum (\<lambda>_. 0) (case_sum (\<lambda>(_, _, fs, _). length fs) (\<lambda>(_, _, fs, _). length fs))))]")
    (simp_all add: termination_simp, auto dest!: internally_tagged_size)

declare encode_value.simps [simp del] encode_variant.simps [simp del] encode_field_value.simps [simp del]
  encode_struct.simps [simp del]

definition encode :: "'s engine \<Rightarrow> cval \<Rightarrow> 's \<Rightarrow> 's encoded" where
  "encode eng v s = (case encode_field_value eng no_field v s of Inl e \<Rightarrow> Inl (ee_finalize e) | Inr s \<Rightarrow> Inr s)"

end
