(* ===== verification/Traverse_Model.thy ===== *)
theory Traverse_Model
  imports Core_Traverse
begin

text \<open>
  What the engine of \<^verbatim>\<open>core/traverse.hpp\<close> means: the data item a value stands for under a format
  (\<open>lower_value\<close>), free of sinks, counts, paths and errors, and the proof that the calls the engine makes are
  the serialisation of that item, with every announced count exact.
\<close>

section \<open>Items and their calls\<close>

datatype map_form = mf_field "annotation list" bool | mf_plain | mf_ordered

datatype aitem =
    a_leaf ecall
  | a_calls "ecall list"
  | a_tagged "u64 list" aitem
  | a_array "(annotation list \<times> bool) option" "aitem list"
  | a_map map_form "(ecall \<times> aitem) list"

fun array_head :: "(annotation list \<times> bool) option \<Rightarrow> nat \<Rightarrow> ecall" where
  "array_head (Some (anns, sized)) n = c_begin_array anns (if sized then Some n else None)"
| "array_head None n = c_begin_array_plain n"

fun map_head :: "map_form \<Rightarrow> nat \<Rightarrow> ecall" where
  "map_head (mf_field anns sized) n = c_begin_map anns (if sized then Some n else None)"
| "map_head mf_plain n = c_begin_map_plain n"
| "map_head mf_ordered n = c_begin_map_ordered n"

fun acalls :: "aitem \<Rightarrow> ecall list" where
  "acalls (a_leaf c) = [c]"
| "acalls (a_calls cs) = cs"
| "acalls (a_tagged ts x) = map c_tag ts @ acalls x"
| "acalls (a_array h xs) = array_head h (length xs) # concat (map acalls xs) @ [c_end_array]"
| "acalls (a_map m es) = map_head m (length es) # concat (map (\<lambda>(k, x). k # acalls x) es) @ [c_end_map]"

section \<open>The item of a value\<close>

definition codec_item :: "codec_run \<Rightarrow> aitem option" where
  "codec_item run = (case snd run of None \<Rightarrow> Some (a_calls (fst run)) | Some e \<Rightarrow> None)"

definition enum_item :: "'s engine \<Rightarrow> field_meta \<Rightarrow> renum \<Rightarrow> bool \<Rightarrow> int \<Rightarrow> aitem option" where
  "enum_item eng F e sg v =
     (let matching = filter (\<lambda>x. ei_value x = v) (build_enum_schema e); anns = fm_annotations F
      in if enum_encodes_as_integer e anns (ft_enum_default_integer (eng_traits eng))
         then if list_ex ei_skipped matching then None
              else Some (a_leaf (if sg then c_sint anns (word_of_int v) else c_uint anns (word_of_int v)))
         else if matching = [] \<or> ei_skipped (hd matching) then None
              else Some (a_leaf (c_text_plain (ei_name (hd matching)))))"

text \<open>The members that appear in the output, in the format's order.\<close>

definition emitted :: "'s engine \<Rightarrow> rclass \<Rightarrow> cval list \<Rightarrow> field_meta list" where
  "emitted eng c vs = filter (\<lambda>f. \<not> fi_skip_serializing (fm_info f) \<and> (case access f vs of Some m \<Rightarrow> will_emit eng f m | None \<Rightarrow> False))
     (map ((!) (build_fields c)) (ft_member_order (eng_traits eng) (build_fields c)))"

definition key_item :: "'s engine \<Rightarrow> field_meta \<Rightarrow> ecall" where
  "key_item eng f = (case ft_integer_key (eng_traits eng) f of
     Some k \<Rightarrow> c_prepared_int k | None \<Rightarrow> c_prepared_name (wire_name (fm_info f)))"

definition struct_item :: "string \<Rightarrow> string \<Rightarrow> (ecall \<times> aitem) list \<Rightarrow> aitem" where
  "struct_item tk tv es = (if tk = [] then a_map mf_ordered es
     else a_map mf_plain ((c_key_text tk, a_leaf (c_text_plain tv)) # es))"

definition tag_item :: "u64 list \<Rightarrow> aitem \<Rightarrow> aitem" where
  "tag_item ts x = (if ts = [] then x else a_tagged ts x)"

function lower_value :: "'s engine \<Rightarrow> field_meta \<Rightarrow> cval \<Rightarrow> aitem option"
  and lower_shape :: "'s engine \<Rightarrow> field_meta \<Rightarrow> cval \<Rightarrow> aitem option"
  and lower_field_value :: "'s engine \<Rightarrow> field_meta \<Rightarrow> cval \<Rightarrow> aitem option"
  and lower_struct :: "'s engine \<Rightarrow> rclass \<Rightarrow> cval list \<Rightarrow> string \<Rightarrow> string \<Rightarrow> aitem option"
where
  "lower_value eng F v =
     (case fm_codec F of
        Some c \<Rightarrow> codec_item (eng_with eng c F v)
      | None \<Rightarrow> (case prepared_image eng v of Some img \<Rightarrow> Some (a_leaf (c_write_prepared img)) | None \<Rightarrow> lower_shape eng F v))"
| "lower_shape eng F (v_codec_for sys ca run) = codec_item (run (fm_annotations F))"
| "lower_shape eng F (v_bool b) = Some (a_leaf (c_boolean b))"
| "lower_shape eng F (v_char c) = Some (a_leaf (c_text_plain [c]))"
| "lower_shape eng F (v_uint u) = Some (a_leaf (c_uint (fm_annotations F) u))"
| "lower_shape eng F (v_sint i) = Some (a_leaf (c_sint (fm_annotations F) i))"
| "lower_shape eng F (v_real d) = Some (a_leaf (c_real (fm_annotations F) d))"
| "lower_shape eng F (v_enum e sg v) = enum_item eng F e sg v"
| "lower_shape eng F (v_string t) = Some (a_leaf (c_text (fm_annotations F) t))"
| "lower_shape eng F (v_c_string t) = Some (a_leaf (c_text (fm_annotations F) (case t of Some t \<Rightarrow> t | None \<Rightarrow> [])))"
| "lower_shape eng F (v_optional x) = (case x of Some v \<Rightarrow> lower_value eng F v | None \<Rightarrow> Some (a_leaf c_null))"
| "lower_shape eng F (v_variant x) =
     (case x of
        None \<Rightarrow> None
      | Some (name, v) \<Rightarrow>
          (case internally_tagged v of
             Some (c, vs) \<Rightarrow> lower_struct eng c vs (tag_key (fm_info F)) name
           | None \<Rightarrow> map_option (\<lambda>y. a_map mf_plain
               [(c_key_text (tag_key (fm_info F)), a_leaf (c_text_plain name)), (c_prepared_name variant_value_key, y)])
               (lower_value eng no_field v)))"
| "lower_shape eng F (v_byte_range byte_elems bs) =
     (if ft_is_bytes (eng_traits eng) byte_elems (fm_annotations F) then Some (a_leaf (c_bytes (fm_annotations F) bs))
      else Some (a_array (Some (fm_annotations F, True)) (map (\<lambda>b. a_leaf (byte_call eng F b)) bs)))"
| "lower_shape eng F (v_map sized es) =
     map_option (a_map (mf_field (fm_annotations F) sized))
       (those (map (\<lambda>e. map_option (Pair (key_call_of (fst e))) (lower_value eng F (snd e))) es))"
| "lower_shape eng F (v_tuple vs) = map_option (a_array None) (those (map (lower_value eng F) vs))"
| "lower_shape eng F (v_sequence sized im vs) =
     map_option (a_array (Some (fm_annotations F, sized))) (those (map (lower_value eng F) vs))"
| "lower_shape eng F (v_class c vs) = lower_struct eng c vs [] []"
| "lower_field_value eng F v =
     (case optional_of v of
        Some (Some w) \<Rightarrow> lower_field_value eng F w
      | Some None \<Rightarrow> Some (a_leaf c_null)
      | None \<Rightarrow> map_option (tag_item (value_tags eng F v))
          (if ft_bulk_range (eng_traits eng) (fm_annotations F) (numeric_image v \<noteq> None) \<and> eng_range_hook eng
           then Some (a_leaf (case numeric_image v of Some (t, raw) \<Rightarrow> c_write_range t raw | None \<Rightarrow> c_null))
           else lower_value eng F v))"
| "lower_struct eng c vs tk tv =
     (if ti_transparent (build_type_info c) then
        (case build_fields c of
           [] \<Rightarrow> None
         | f # fs \<Rightarrow> (case access f vs of None \<Rightarrow> None | Some m \<Rightarrow> lower_value eng f m))
      else map_option (struct_item tk tv)
        (those (map (\<lambda>f. case access f vs of
             None \<Rightarrow> None
           | Some m \<Rightarrow> map_option (Pair (key_item eng f)) (lower_field_value eng f m)) (emitted eng c vs))))"
  by pat_completeness auto
termination
  by (relation "measures
      [case_sum (case_sum (\<lambda>(_, _, v). size v) (\<lambda>(_, _, v). size v))
         (case_sum (\<lambda>(_, _, v). size v) (\<lambda>(_, _, vs, _, _). size_list size vs)),
       case_sum (case_sum (\<lambda>_. 2) (\<lambda>_. 1)) (case_sum (\<lambda>_. 3) (\<lambda>_. 0))]")
    (simp_all add: termination_simp, auto dest!: internally_tagged_size)

declare lower_value.simps [simp del] lower_field_value.simps [simp del] lower_struct.simps [simp del]

section \<open>Well-formed objects\<close>

text \<open>What C++ guarantees of a value: an object of a usable class has one member per field.\<close>

fun object_ok :: "cval \<Rightarrow> bool" where
  "object_ok (v_optional x) = (case x of Some v \<Rightarrow> object_ok v | None \<Rightarrow> True)"
| "object_ok (v_variant x) = (case x of Some (name, v) \<Rightarrow> object_ok v | None \<Rightarrow> True)"
| "object_ok (v_map sized es) = list_all (\<lambda>(k, v). object_ok v) es"
| "object_ok (v_tuple vs) = list_all object_ok vs"
| "object_ok (v_sequence sized im vs) = list_all object_ok vs"
| "object_ok (v_class c vs) =
     (ti_ok (build_type_info c) \<and> length vs = length (build_fields c) \<and> list_all object_ok vs)"
| "object_ok _ = True"

definition members_ok :: "rclass \<Rightarrow> cval list \<Rightarrow> bool" where
  "members_ok c vs \<longleftrightarrow> ti_ok (build_type_info c) \<and> length vs = length (build_fields c) \<and> list_all object_ok vs"

lemma optional_of_ok: "optional_of v = Some (Some w) \<Longrightarrow> object_ok v \<Longrightarrow> object_ok w"
  by (auto simp: optional_of_def split: cval.splits)

lemma internally_tagged_ok: "internally_tagged v = Some (c, vs) \<Longrightarrow> object_ok v \<Longrightarrow> members_ok c vs"
  by (auto simp: internally_tagged_def members_ok_def split: cval.splits if_splits)

lemma access_ok: "access f vs = Some m \<Longrightarrow> list_all object_ok vs \<Longrightarrow> object_ok m"
  by (auto simp: access_def Let_def list_all_length split: if_splits)

lemma access_total:
  assumes "f \<in> set (build_fields c)" "length vs = length (build_fields c)"
  shows "access f vs \<noteq> None"
proof -
  have "member_index (fm_info f) \<in> set (map (member_index \<circ> fm_info) (build_fields c))"
    using assms(1) by simp
  then show ?thesis
    unfolding build_fields_def run_build_fields(1) using assms(2) by (auto simp: access_def build_fields_def Let_def)
qed

section \<open>Agreement\<close>

text \<open>Up to the path an error picks up on its way out.\<close>

definition strip_path :: "'a encoded \<Rightarrow> 'a encoded" where
  "strip_path r = map_sum (\<lambda>e. e\<lparr>ee_steps := [], ee_truncated := False, ee_finalized := False\<rparr>) id r"

definition agrees :: "'s engine \<Rightarrow> ('s \<Rightarrow> 's encoded) \<Rightarrow> ecall list option \<Rightarrow> bool" where
  "agrees eng r calls \<longleftrightarrow> (\<forall>s. case calls of
     Some cs \<Rightarrow> strip_path (r s) = strip_path (emit_all eng cs s)
   | None \<Rightarrow> isl (r s))"

definition cat :: "'a list option \<Rightarrow> 'a list option \<Rightarrow> 'a list option" where
  "cat a b = (case a of None \<Rightarrow> None | Some xs \<Rightarrow> map_option ((@) xs) b)"

lemma cat_simps [simp]: "cat None b = None" "cat (Some xs) b = map_option ((@) xs) b" "cat a None = None"
  by (simp_all add: cat_def split: option.split)

lemma strip_simps [simp]:
  "strip_path (Inr x) = Inr x" "strip_path r = Inr x \<longleftrightarrow> r = Inr x" "strip_path (with_path p r) = strip_path r"
  "isl (with_path p r) = isl r" "isl (strip_path r) = isl r"
  by (cases r; auto simp: strip_path_def with_path_def ee_push_def)+

lemma strip_bind_cong:
  assumes "strip_path r = strip_path r'" "\<And>x. r' = Inr x \<Longrightarrow> strip_path (f x) = strip_path (f' x)"
  shows "strip_path (ebind r f) = strip_path (ebind r' f')"
  using assms by (cases r; cases r') (auto simp: strip_path_def)

lemma emit_all_append: "emit_all eng (as @ bs) s = ebind (emit_all eng as s) (emit_all eng bs)"
  by (induction as arbitrary: s) (auto simp: ebind_def split: sum.split)

lemma agrees_done: "agrees eng Inr (Some [])"
  by (simp add: agrees_def)

lemma agrees_emit: "agrees eng (eng_emit eng c) (Some [c])"
proof -
  have "emit_all eng [c] = eng_emit eng c"
    by (rule ext) (simp add: ebind_def split: sum.split)
  then show ?thesis by (simp add: agrees_def)
qed

lemma agrees_calls: "agrees eng (emit_all eng cs) (Some cs)"
  by (simp add: agrees_def)

lemma agrees_path: "agrees eng r cs \<Longrightarrow> agrees eng (\<lambda>s. with_path p (r s)) cs"
  by (cases cs) (simp_all add: agrees_def)

lemma agrees_seq:
  assumes "agrees eng r a" "agrees eng q b" "cs = cat a b"
  shows "agrees eng (\<lambda>s. ebind (r s) q) cs"
proof (cases cs)
  case None
  then consider "a = None" | xs where "a = Some xs" "b = None" using assms(3) by (cases a) auto
  then show ?thesis
  proof cases
    case 1
    then have "isl (ebind (r s) q)" for s
      using assms(1) by (cases "r s") (auto simp: agrees_def dest: spec [of _ s])
    then show ?thesis using None by (simp add: agrees_def)
  next
    case 2
    then have "isl (ebind (r s) q)" for s
      using assms(2) by (cases "r s") (simp_all add: agrees_def)
    then show ?thesis using None by (simp add: agrees_def)
  qed
next
  case (Some zs)
  then obtain xs ys where ab: "a = Some xs" "b = Some ys" "zs = xs @ ys" using assms(3) by (cases a; cases b) auto
  have "strip_path (ebind (r s) q) = strip_path (emit_all eng zs s)" for s
    unfolding ab(3) emit_all_append
    by (rule strip_bind_cong) (use assms(1,2) in \<open>simp_all add: agrees_def ab\<close>)
  then show ?thesis using Some by (simp add: agrees_def)
qed

lemma agrees_fail: "(\<And>s. isl (r s)) \<Longrightarrow> agrees eng r None"
  by (simp add: agrees_def)

lemma agrees_codec: "agrees eng (run_codec eng run) (map_option acalls (codec_item run))"
proof -
  have "run_codec eng run = (\<lambda>s. ebind (emit_all eng (fst run) s) (\<lambda>s. case snd run of None \<Rightarrow> Inr s | Some (c, msg) \<Rightarrow> Inl (mk_encode_error c msg)))"
    by (rule ext) (simp add: run_codec_def)
  moreover have "agrees eng (\<lambda>s. case snd run of None \<Rightarrow> Inr s | Some (c, msg) \<Rightarrow> Inl (mk_encode_error c msg)) (case snd run of None \<Rightarrow> Some [] | Some e \<Rightarrow> None)"
    by (simp add: agrees_def split: option.split prod.split)
  ultimately show ?thesis
    by (auto simp: codec_item_def intro!: agrees_seq [OF agrees_calls] split: option.split)
qed

section \<open>Loops\<close>

definition joined :: "aitem list option \<Rightarrow> ecall list option" where
  "joined xs = map_option (\<lambda>xs. concat (map acalls xs)) xs"

definition joined_entries :: "(ecall \<times> aitem) list option \<Rightarrow> ecall list option" where
  "joined_entries es = map_option (\<lambda>es. concat (map (\<lambda>(k, x). k # acalls x) es)) es"

lemma those_length: "those xs = Some ys \<Longrightarrow> length ys = length xs"
  by (induction xs arbitrary: ys) (auto split: option.splits)

lemma agrees_elements:
  assumes "\<And>v. v \<in> set vs \<Longrightarrow> agrees eng (encode_value eng F v) (map_option acalls (lower_value eng F v))"
  shows "agrees eng (encode_elements eng F i vs) (joined (those (map (lower_value eng F) vs)))"
  using assms
proof (induction vs arbitrary: i)
  case Nil
  have "encode_elements eng F i [] = Inr" by (rule ext) simp
  then show ?case by (simp add: joined_def agrees_done)
next
  case (Cons v vs)
  have "encode_elements eng F i (v # vs)
      = (\<lambda>s. ebind (with_path (step_index i) (encode_value eng F v s)) (encode_elements eng F (i + 1) vs))"
    by (rule ext) simp
  moreover have "joined (those (map (lower_value eng F) (v # vs)))
      = cat (map_option acalls (lower_value eng F v)) (joined (those (map (lower_value eng F) vs)))"
    by (cases "lower_value eng F v") (simp_all add: joined_def option.map_comp comp_def)
  ultimately show ?case
    using Cons.IH Cons.prems by (auto intro!: agrees_seq agrees_path)
qed

lemma agrees_bytes_elements:
  "agrees eng (encode_bytes_elements eng F i bs) (Some (map (byte_call eng F) bs))"
proof (induction bs arbitrary: i)
  case Nil
  have "encode_bytes_elements eng F i [] = Inr" by (rule ext) simp
  then show ?case by (simp add: agrees_done)
next
  case (Cons b bs)
  have "encode_bytes_elements eng F i (b # bs)
      = (\<lambda>s. ebind (with_path (step_index i) (eng_emit eng (byte_call eng F b) s))
          (encode_bytes_elements eng F (i + 1) bs))"
    by (rule ext) simp
  then show ?case by (auto intro!: agrees_seq [OF agrees_path [OF agrees_emit] Cons.IH])
qed

lemma agrees_keyed:
  assumes "agrees eng key (Some [k])" "agrees eng r (map_option acalls x)" "agrees eng q (joined_entries es)"
  shows "agrees eng (\<lambda>s. ebind (key s) (\<lambda>s. ebind (with_path p (r s)) q))
     (joined_entries (case map_option (Pair k) x of None \<Rightarrow> None | Some e \<Rightarrow> map_option ((#) e) es))"
proof -
  have "joined_entries (case map_option (Pair k) x of None \<Rightarrow> None | Some e \<Rightarrow> map_option ((#) e) es)
      = cat (Some [k]) (cat (map_option acalls x) (joined_entries es))"
    by (cases x) (simp_all add: joined_entries_def option.map_comp comp_def)
  then show ?thesis
    by (intro agrees_seq [OF assms(1) agrees_seq [OF agrees_path [OF assms(2)] assms(3)]]) auto
qed

lemma agrees_entries:
  assumes "\<And>k v. (k, v) \<in> set es \<Longrightarrow> agrees eng (encode_value eng F v) (map_option acalls (lower_value eng F v))"
  shows "agrees eng (encode_entries eng F es)
    (joined_entries (those (map (\<lambda>e. map_option (Pair (key_call_of (fst e))) (lower_value eng F (snd e))) es)))"
  using assms
proof (induction es)
  case Nil
  have "encode_entries eng F [] = Inr" by (rule ext) simp
  then show ?case by (simp add: joined_entries_def agrees_done)
next
  case (Cons e es)
  obtain k v where e: "e = (k, v)" by force
  have "encode_entries eng F (e # es) = (\<lambda>s. ebind (eng_emit eng (key_call_of k) s) (\<lambda>s.
      ebind (with_path (key_step_of k) (encode_value eng F v s)) (encode_entries eng F es)))"
    by (rule ext) (simp add: e)
  moreover have "agrees eng (encode_value eng F v) (map_option acalls (lower_value eng F v))"
    by (rule Cons.prems [of k v]) (simp add: e)
  moreover have "agrees eng (encode_entries eng F es)
      (joined_entries (those (map (\<lambda>e. map_option (Pair (key_call_of (fst e))) (lower_value eng F (snd e))) es)))"
    by (rule Cons.IH) (use Cons.prems in auto)
  ultimately show ?case
    using agrees_keyed [OF agrees_emit [of eng "key_call_of k"]] by (simp add: e)
qed

definition member_shown :: "'s engine \<Rightarrow> cval list \<Rightarrow> field_meta \<Rightarrow> bool" where
  "member_shown eng vs f \<longleftrightarrow> \<not> fi_skip_serializing (fm_info f) \<and> (case access f vs of Some m \<Rightarrow> will_emit eng f m | None \<Rightarrow> False)"

definition member_item :: "'s engine \<Rightarrow> cval list \<Rightarrow> field_meta \<Rightarrow> (ecall \<times> aitem) option" where
  "member_item eng vs f = (case access f vs of
     None \<Rightarrow> None | Some m \<Rightarrow> map_option (Pair (key_item eng f)) (lower_field_value eng f m))"

lemma agrees_members:
  assumes "\<And>f. f \<in> set fs \<Longrightarrow> access f vs \<noteq> None"
    and "\<And>f m. f \<in> set fs \<Longrightarrow> member_shown eng vs f \<Longrightarrow> access f vs = Some m \<Longrightarrow>
      agrees eng (encode_field_value eng f m) (map_option acalls (lower_field_value eng f m))"
  shows "agrees eng (encode_members eng vs fs) (joined_entries (those (map (member_item eng vs) (filter (member_shown eng vs) fs))))"
  using assms
proof (induction fs)
  case Nil
  have "encode_members eng vs [] = Inr" by (rule ext) simp
  then show ?case by (simp add: joined_entries_def agrees_done)
next
  case (Cons f fs)
  obtain m where m: "access f vs = Some m" using Cons.prems(1) [of f] by auto
  have IH: "agrees eng (encode_members eng vs fs) (joined_entries (those (map (member_item eng vs) (filter (member_shown eng vs) fs))))"
    by (rule Cons.IH) (use Cons.prems in auto)
  show ?case
  proof (cases "member_shown eng vs f")
    case False
    then have "encode_members eng vs (f # fs) = encode_members eng vs fs"
      by (intro ext) (auto simp: m member_shown_def)
    then show ?thesis using IH False by simp
  next
    case True
    have key: "agrees eng (emit_key eng f) (Some [key_item eng f])"
    proof -
      have "emit_key eng f = eng_emit eng (key_item eng f)" by (rule ext) (simp add: emit_key_def key_item_def)
      then show ?thesis by (simp add: agrees_emit)
    qed
    have "encode_members eng vs (f # fs) = (\<lambda>s. ebind (emit_key eng f s) (\<lambda>s.
        ebind (with_path (step_member (ident_of (fm_info f))) (encode_field_value eng f m s)) (encode_members eng vs fs)))"
      using True by (intro ext) (auto simp: m member_shown_def)
    then show ?thesis
      using True agrees_keyed [OF key Cons.prems(2) [OF _ True m] IH] by (simp add: member_item_def [of eng vs f] m)
  qed
qed

section \<open>Counts\<close>

lemma emitted_eq:
  "emitted eng c vs = filter (member_shown eng vs) (map ((!) (build_fields c)) (ft_member_order (eng_traits eng) (build_fields c)))"
  by (simp add: emitted_def member_shown_def [abs_def])

lemma will_emit_unconditional:
  assumes "f \<in> set (build_fields c)" "\<not> ti_conditional_fields (build_type_info c)"
  shows "will_emit eng f m"
proof -
  have "made_field f" using assms(1) run_build_fields(2) [of c] by (auto simp: build_fields_def list_all_iff)
  moreover have "\<not> conditional_field f" using assms by (auto simp: type_info_conditional list_ex_iff)
  ultimately show ?thesis by (simp add: will_emit_def made_field_flags(5,6) conditional_field_def)
qed

lemma permuted_fields:
  assumes "mset order = mset [0..<length fs]"
  shows "mset (map ((!) fs) order) = mset fs"
proof -
  have "mset (map ((!) fs) order) = image_mset ((!) fs) (mset [0..<length fs])" by (simp only: mset_map assms)
  also have "\<dots> = mset (map ((!) fs) [0..<length fs])" by simp
  finally show ?thesis by (simp only: map_nth)
qed

lemma announced_count:
  assumes "mset (ft_member_order (eng_traits eng) (build_fields c)) = mset [0..<length (build_fields c)]"
    and "length vs = length (build_fields c)"
  shows "(if \<not> ti_conditional_fields (build_type_info c) then serialized_field_count c else emitted_field_count eng c vs)
     = length (emitted eng c vs)"
proof -
  have "length (emitted eng c vs) = size (filter_mset (member_shown eng vs) (mset (build_fields c)))"
    unfolding emitted_eq permuted_fields [OF assms(1), symmetric] by (simp only: mset_filter [symmetric] size_mset)
  then have e: "length (emitted eng c vs) = length (filter (member_shown eng vs) (build_fields c))"
    by (simp only: mset_filter [symmetric] size_mset)
  show ?thesis
  proof (cases "ti_conditional_fields (build_type_info c)")
    case True
    then show ?thesis unfolding e by (simp add: emitted_field_count_def member_shown_def [abs_def])
  next
    case False
    have "filter (member_shown eng vs) (build_fields c) = filter (\<lambda>f. \<not> fi_skip_serializing (fm_info f)) (build_fields c)"
    proof (rule filter_cong)
      fix f assume "f \<in> set (build_fields c)"
      with access_total [OF this assms(2)] will_emit_unconditional [OF this False] show
        "member_shown eng vs f \<longleftrightarrow> \<not> fi_skip_serializing (fm_info f)"
        by (auto simp: member_shown_def)
    qed simp
    then show ?thesis
      unfolding e using False by (simp add: serialized_field_count_def build_schema_def build_fields_def filter_map comp_def)
  qed
qed

section \<open>Refinement\<close>

text \<open>The law a format owes the engine: its member order is a permutation.\<close>

locale member_ordering =
  fixes eng :: "'s engine"
  assumes permutes: "mset (ft_member_order (eng_traits eng) (build_fields c)) = mset [0..<length (build_fields c)]"
begin

lemma agrees_map:
  assumes "members_ok c vs" "\<not> ti_transparent (build_type_info c)"
    and "\<And>f m. f \<in> set (emitted eng c vs) \<Longrightarrow> access f vs = Some m \<Longrightarrow>
      agrees eng (encode_field_value eng f m) (map_option acalls (lower_field_value eng f m))"
  shows "agrees eng (encode_struct eng c vs tk tv) (map_option acalls (lower_struct eng c vs tk tv))"
proof -
  let ?fs = "map ((!) (build_fields c)) (ft_member_order (eng_traits eng) (build_fields c))"
  let ?es = "those (map (member_item eng vs) (emitted eng c vs))"
  let ?n = "length (emitted eng c vs) + (if tk = [] then 0 else 1)"
  let ?hd = "if tk \<noteq> [] then c_begin_map_plain ?n else c_begin_map_ordered ?n"
  have len: "length vs = length (build_fields c)" using assms(1) by (simp add: members_ok_def)
  have set_fs: "set ?fs = set (build_fields c)"
    using permuted_fields [OF permutes [of c]] by (rule mset_eq_setD)
  have members: "agrees eng (encode_members eng vs ?fs) (joined_entries ?es)"
    unfolding emitted_eq
    by (rule agrees_members) (use access_total [OF _ len] set_fs assms(3) in \<open>auto simp: emitted_eq\<close>)
  let ?disc = "\<lambda>s. if tk \<noteq> [] then ebind (eng_emit eng (c_key_text tk) s) (eng_emit eng (c_text_plain tv)) else Inr s"
  have disc: "agrees eng ?disc (Some (if tk \<noteq> [] then [c_key_text tk, c_text_plain tv] else []))"
    by (auto intro!: agrees_done agrees_seq [OF agrees_emit agrees_emit])
  have "agrees eng (\<lambda>s. ebind (eng_emit eng ?hd s) (\<lambda>s. ebind (?disc s) (\<lambda>s. ebind (encode_members eng vs ?fs s) (eng_emit eng c_end_map))))
      (cat (Some [?hd]) (cat (Some (if tk \<noteq> [] then [c_key_text tk, c_text_plain tv] else []))
         (cat (joined_entries ?es) (Some [c_end_map]))))"
    by (intro agrees_seq [OF agrees_emit agrees_seq [OF disc agrees_seq [OF members agrees_emit]]]) (rule refl)+
  moreover have "encode_struct eng c vs tk tv
      = (\<lambda>s. ebind (eng_emit eng ?hd s) (\<lambda>s. ebind (?disc s) (\<lambda>s. ebind (encode_members eng vs ?fs s) (eng_emit eng c_end_map))))"
    using assms(2) by (intro ext) (simp only: encode_struct.simps announced_count [OF permutes len] Let_def if_False)
  moreover have "map_option acalls (lower_struct eng c vs tk tv)
      = cat (Some [?hd]) (cat (Some (if tk \<noteq> [] then [c_key_text tk, c_text_plain tv] else []))
         (cat (joined_entries ?es) (Some [c_end_map])))"
    using assms(2) those_length [of "map (member_item eng vs) (emitted eng c vs)"]
    by (cases ?es) (auto simp: lower_struct.simps member_item_def [abs_def] struct_item_def joined_entries_def)
  ultimately show ?thesis by (simp only:)
qed

lemma agrees_transparent:
  assumes "members_ok c vs" "ti_transparent (build_type_info c)"
    and "\<And>f m. f \<in> set (build_fields c) \<Longrightarrow> access f vs = Some m \<Longrightarrow>
      agrees eng (encode_value eng f m) (map_option acalls (lower_value eng f m))"
  shows "agrees eng (encode_struct eng c vs tk tv) (map_option acalls (lower_struct eng c vs tk tv))"
proof -
  obtain f where f: "build_fields c = [f]"
    using transparent_single [OF _ assms(2)] assms(1) by (auto simp: members_ok_def length_Suc_conv)
  obtain m where m: "access f vs = Some m"
    using access_total [of f c vs] assms(1) f by (auto simp: members_ok_def)
  have "encode_struct eng c vs tk tv = (\<lambda>s. ebind (with_path (step_member (ident_of (fm_info f))) (encode_value eng f m s)) Inr)"
    using assms(2) by (intro ext) (simp add: encode_struct.simps f m ebind_def split: sum.split)
  moreover have "agrees eng \<dots> (map_option acalls (lower_value eng f m))"
    by (rule agrees_seq [OF agrees_path [OF assms(3) [of f m]] agrees_done])
      (use f m in \<open>auto simp: option.map_ident cat_def split: option.split\<close>)
  ultimately show ?thesis using assms(2) by (simp add: lower_struct.simps f m)
qed

end

lemma agrees_enum: "agrees eng (encode_enum eng F e sg v) (map_option acalls (enum_item eng F e sg v))"
proof -
  let ?m = "filter (\<lambda>x. ei_value x = v) (build_enum_schema e)"
  have all: "find (\<lambda>x. ei_value x = v \<and> ei_skipped x) (build_enum_schema e) = None \<longleftrightarrow> \<not> list_ex ei_skipped ?m"
    by (auto simp: find_None_iff list_ex_iff)
  have first: "find (\<lambda>x. ei_value x = v) xs = (case filter (\<lambda>x. ei_value x = v) xs of [] \<Rightarrow> None | x # _ \<Rightarrow> Some x)" for xs
    by (induction xs) auto
  show ?thesis
  proof (cases "enum_encodes_as_integer e (fm_annotations F) (ft_enum_default_integer (eng_traits eng))")
    case True
    let ?c = "if sg then c_sint (fm_annotations F) (word_of_int v) else c_uint (fm_annotations F) (word_of_int v)"
    show ?thesis
    proof (cases "list_ex ei_skipped ?m")
      case skipped: True
      then have "isl (encode_enum eng F e sg v s)" for s
        using True all by (auto simp: encode_enum_def Let_def split: option.split)
      then show ?thesis using True skipped by (simp add: enum_item_def Let_def agrees_fail)
    next
      case False
      then have "encode_enum eng F e sg v = eng_emit eng ?c"
        using True all by (intro ext) (auto simp: encode_enum_def Let_def split: option.split)
      then show ?thesis using True False agrees_emit [of eng ?c] by (simp add: enum_item_def Let_def)
    qed
  next
    case False
    show ?thesis
    proof (cases "?m = [] \<or> ei_skipped (hd ?m)")
      case True
      then have "isl (encode_enum eng F e sg v s)" for s
        using False by (auto simp: encode_enum_def Let_def first split: list.split)
      then show ?thesis using False True by (auto simp: enum_item_def Let_def intro: agrees_fail)
    next
      case shown: False
      then have "encode_enum eng F e sg v = eng_emit eng (c_text_plain (ei_name (hd ?m)))"
        using False by (intro ext) (auto simp: encode_enum_def Let_def first split: list.split)
      then show ?thesis using False shown agrees_emit [of eng "c_text_plain (ei_name (hd ?m))"] by (simp add: enum_item_def Let_def)
    qed
  qed
qed

lemma agrees_array:
  assumes "agrees eng r (joined xs)" "\<And>ys. xs = Some ys \<Longrightarrow> length ys = n"
  shows "agrees eng (\<lambda>s. ebind (eng_emit eng (array_head h n) s) (\<lambda>s. ebind (r s) (eng_emit eng c_end_array)))
     (map_option acalls (map_option (a_array h) xs))"
  by (rule agrees_seq [OF agrees_emit agrees_seq [OF assms(1) agrees_emit refl]])
    (cases xs; use assms(2) in \<open>auto simp: joined_def\<close>)

lemma agrees_map_field:
  assumes "agrees eng r (joined_entries es)" "\<And>ys. es = Some ys \<Longrightarrow> length ys = n"
  shows "agrees eng (\<lambda>s. ebind (eng_emit eng (map_head m n) s) (\<lambda>s. ebind (r s) (eng_emit eng c_end_map)))
     (map_option acalls (map_option (a_map m) es))"
  by (rule agrees_seq [OF agrees_emit agrees_seq [OF assms(1) agrees_emit refl]])
    (cases es; use assms(2) in \<open>auto simp: joined_entries_def\<close>)

lemma agrees_shape_leaf:
  "(\<And>s. encode_shape eng F v s = eng_emit eng c s) \<Longrightarrow> lower_shape eng F v = Some (a_leaf c) \<Longrightarrow>
     agrees eng (encode_shape eng F v) (map_option acalls (lower_shape eng F v))"
  using agrees_emit [of eng c] by (simp add: agrees_def)

lemma agrees_byte_range:
  "agrees eng (encode_shape eng F (v_byte_range byte_elems bs)) (map_option acalls (lower_shape eng F (v_byte_range byte_elems bs)))"
proof (cases "ft_is_bytes (eng_traits eng) byte_elems (fm_annotations F)")
  case True
  show ?thesis by (rule agrees_shape_leaf [where c = "c_bytes (fm_annotations F) bs"]) (simp_all add: True)
next
  case False
  let ?xs = "map (\<lambda>b. a_leaf (byte_call eng F b)) bs"
  have "joined (Some ?xs) = Some (map (byte_call eng F) bs)"
    by (induction bs) (simp_all add: joined_def)
  with agrees_array [of eng "encode_bytes_elements eng F 0 bs" "Some ?xs" "length bs" "Some (fm_annotations F, True)"]
    agrees_bytes_elements [of eng F 0 bs] False
  show ?thesis by (simp add: agrees_def)
qed

lemma agrees_variant:
  assumes "\<And>name v. x = Some (name, v) \<Longrightarrow> internally_tagged v = None \<Longrightarrow>
      agrees eng (encode_value eng no_field v) (map_option acalls (lower_value eng no_field v))"
    and "\<And>name v c vs. x = Some (name, v) \<Longrightarrow> internally_tagged v = Some (c, vs) \<Longrightarrow>
      agrees eng (encode_struct eng c vs (tag_key (fm_info F)) name) (map_option acalls (lower_struct eng c vs (tag_key (fm_info F)) name))"
  shows "agrees eng (encode_shape eng F (v_variant x)) (map_option acalls (lower_shape eng F (v_variant x)))"
proof -
  have shape: "encode_shape eng F (v_variant x) = encode_variant eng F x" by (rule ext) simp
  consider "x = None" | name v where "x = Some (name, v)" "internally_tagged v = None"
    | name v c vs where "x = Some (name, v)" "internally_tagged v = Some (c, vs)"
    by (metis not_None_eq surj_pair)
  then show ?thesis
  proof cases
    case 1
    then show ?thesis unfolding shape by (simp add: encode_variant.simps agrees_def)
  next
    case 2
    let ?o = "lower_value eng no_field v"
    have "agrees eng (encode_variant eng F x) (cat (Some [c_begin_map_plain 2]) (cat (Some [c_key_text (tag_key (fm_info F))])
        (cat (Some [c_text_plain name]) (cat (Some [c_prepared_name variant_value_key]) (cat (map_option acalls ?o) (Some [c_end_map]))))))"
      unfolding encode_variant.simps 2 option.case prod.case
      by (intro agrees_seq [OF agrees_emit] agrees_seq [OF agrees_path agrees_emit]) (rule refl assms(1) [OF 2])+
    then show ?thesis unfolding shape using 2 by (cases ?o) (simp_all add: numeral_2_eq_2)
  next
    case 3
    then have "encode_variant eng F x = encode_struct eng c vs (tag_key (fm_info F)) name"
      by (intro ext) (simp add: encode_variant.simps)
    then show ?thesis unfolding shape using 3 assms(2) by simp
  qed
qed

lemma agrees_field_value:
  assumes "optional_of v = None \<Longrightarrow> \<not> (ft_bulk_range (eng_traits eng) (fm_annotations F) (numeric_image v \<noteq> None) \<and> eng_range_hook eng) \<Longrightarrow>
      agrees eng (encode_value eng F v) (map_option acalls (lower_value eng F v))"
    and "\<And>w. optional_of v = Some (Some w) \<Longrightarrow>
      agrees eng (encode_field_value eng F w) (map_option acalls (lower_field_value eng F w))"
  shows "agrees eng (encode_field_value eng F v) (map_option acalls (lower_field_value eng F v))"
proof -
  consider "optional_of v = None" | "optional_of v = Some None" | w where "optional_of v = Some (Some w)"
    by (metis not_None_eq)
  then show ?thesis
  proof cases
    case 1
    let ?bulk = "ft_bulk_range (eng_traits eng) (fm_annotations F) (numeric_image v \<noteq> None) \<and> eng_range_hook eng"
    let ?c = "case numeric_image v of Some (t, raw) \<Rightarrow> c_write_range t raw | None \<Rightarrow> c_null"
    let ?o = "if ?bulk then Some (a_leaf ?c) else lower_value eng F v"
    have tags: "agrees eng (emit_tags eng F v) (Some (map c_tag (value_tags eng F v)))"
      by (simp add: emit_tags_def agrees_def)
    have body: "agrees eng (\<lambda>s. if ?bulk then eng_emit eng ?c s else encode_value eng F v s) (map_option acalls ?o)"
    proof (cases ?bulk)
      case True
      show ?thesis unfolding if_P [OF True] by (simp only: option.map acalls.simps agrees_emit)
    next
      case False
      show ?thesis unfolding if_not_P [OF False] by (rule assms(1) [OF 1 False])
    qed
    have "encode_field_value eng F v = (\<lambda>s. ebind (emit_tags eng F v s) (\<lambda>s. if ?bulk then eng_emit eng ?c s else encode_value eng F v s))"
      by (rule ext) (simp add: encode_field_value.simps 1)
    moreover have "map_option acalls (lower_field_value eng F v) = cat (Some (map c_tag (value_tags eng F v))) (map_option acalls ?o)"
      by (cases ?o) (simp_all only: lower_field_value.simps 1, auto simp: tag_item_def)
    ultimately show ?thesis using agrees_seq [OF tags body refl] by (simp only:)
  next
    case 2
    then have "encode_field_value eng F v = eng_emit eng c_null" by (intro ext) (simp add: encode_field_value.simps)
    then show ?thesis using 2 agrees_emit by (simp add: lower_field_value.simps)
  next
    case 3
    then have "encode_field_value eng F v = encode_field_value eng F w"
      by (intro ext) (simp add: encode_field_value.simps [of eng F v])
    then show ?thesis using 3 assms(2) by (simp add: lower_field_value.simps [of eng F v])
  qed
qed

lemma agrees_sequence:
  assumes "\<And>v. v \<in> set vs \<Longrightarrow> agrees eng (encode_value eng F v) (map_option acalls (lower_value eng F v))"
  shows "agrees eng (\<lambda>s. ebind (eng_emit eng (array_head h (length vs)) s)
      (\<lambda>s. ebind (encode_elements eng F 0 vs s) (eng_emit eng c_end_array)))
      (map_option acalls (map_option (a_array h) (those (map (lower_value eng F) vs))))"
  by (rule agrees_array [OF agrees_elements [OF assms]]) (auto dest: those_length)

lemma agrees_entry_map:
  assumes "\<And>k v. (k, v) \<in> set es \<Longrightarrow> agrees eng (encode_value eng F v) (map_option acalls (lower_value eng F v))"
  shows "agrees eng (\<lambda>s. ebind (eng_emit eng (map_head m (length es)) s)
      (\<lambda>s. ebind (encode_entries eng F es s) (eng_emit eng c_end_map)))
      (map_option acalls (map_option (a_map m)
        (those (map (\<lambda>e. map_option (Pair (key_call_of (fst e))) (lower_value eng F (snd e))) es))))"
  by (rule agrees_map_field [OF agrees_entries [OF assms]]) (auto dest: those_length)

lemma agrees_optional:
  assumes "\<And>v. x = Some v \<Longrightarrow> agrees eng (encode_value eng F v) (map_option acalls (lower_value eng F v))"
  shows "agrees eng (encode_shape eng F (v_optional x)) (map_option acalls (lower_shape eng F (v_optional x)))"
proof (cases x)
  case None
  show ?thesis by (rule agrees_shape_leaf [where c = c_null]) (simp_all add: None)
next
  case (Some v)
  then have "encode_shape eng F (v_optional x) = encode_value eng F v" by (intro ext) simp
  then show ?thesis using assms Some by simp
qed

lemma agrees_with:
  assumes "fm_codec F = None \<Longrightarrow> prepared_image eng v = None \<Longrightarrow>
      agrees eng (encode_shape eng F v) (map_option acalls (lower_shape eng F v))"
  shows "agrees eng (encode_value eng F v) (map_option acalls (lower_value eng F v))"
proof (cases "fm_codec F")
  case None
  show ?thesis
  proof (cases "prepared_image eng v")
    case shape: None
    then have "encode_value eng F v = encode_shape eng F v" by (intro ext) (simp add: encode_value.simps None)
    then show ?thesis using assms None shape by (simp add: lower_value.simps)
  next
    case (Some img)
    then have "encode_value eng F v = eng_emit eng (c_write_prepared img)" by (intro ext) (simp add: encode_value.simps None)
    then show ?thesis using None Some by (simp add: lower_value.simps agrees_emit)
  qed
next
  case (Some c)
  then have "encode_value eng F v = run_codec eng (eng_with eng c F v)" by (intro ext) (simp add: encode_value.simps)
  then show ?thesis using Some agrees_codec by (simp add: lower_value.simps)
qed

lemma engine_agrees:
  "member_ordering eng \<Longrightarrow> object_ok v \<Longrightarrow> agrees eng (encode_value eng F v) (map_option acalls (lower_value eng F v))"
  "member_ordering eng \<Longrightarrow> object_ok v \<Longrightarrow> agrees eng (encode_shape eng F v) (map_option acalls (lower_shape eng F v))"
  "member_ordering eng \<Longrightarrow> object_ok v \<Longrightarrow>
     agrees eng (encode_field_value eng F v) (map_option acalls (lower_field_value eng F v))"
  "member_ordering eng \<Longrightarrow> members_ok c vs \<Longrightarrow>
     agrees eng (encode_struct eng c vs tk tv) (map_option acalls (lower_struct eng c vs tk tv))"
proof (induction eng F v and eng F v and eng F v and eng c vs tk tv
    rule: lower_value_lower_shape_lower_field_value_lower_struct.induct)
  case (1 eng F v)
  then show ?case by (intro agrees_with)
next
  case (2 eng F sys ca run)
  have "encode_shape eng F (v_codec_for sys ca run) = run_codec eng (run (fm_annotations F))" by (rule ext) simp
  then show ?case by (simp add: agrees_codec)
next
  case (8 eng F e sg v)
  have "encode_shape eng F (v_enum e sg v) = encode_enum eng F e sg v" by (rule ext) simp
  then show ?case by (simp add: agrees_enum)
next
  case (11 eng F x)
  then show ?case by (intro agrees_optional) simp
next
  case (12 eng F x)
  have "members_ok c vs" if "x = Some (name, v)" "internally_tagged v = Some (c, vs)" for name v c vs
    using internally_tagged_ok [OF that(2)] 12(4) that(1) by simp
  with 12 show ?case by (intro agrees_variant) simp_all
next
  case (13 eng F byte_elems bs)
  show ?case by (rule agrees_byte_range)
next
  case (14 eng F sized es)
  have "agrees eng (encode_value eng F v) (map_option acalls (lower_value eng F v))" if "(k, v) \<in> set es" for k v
    using 14(1) [OF that 14(2)] 14(3) that by (fastforce simp: list_all_iff)
  from agrees_entry_map [OF this, where m = "mf_field (fm_annotations F) sized"] show ?case by (simp add: agrees_def)
next
  case (15 eng F vs)
  then have "agrees eng (encode_value eng F v) (map_option acalls (lower_value eng F v))" if "v \<in> set vs" for v
    using that by (simp add: list_all_iff)
  from agrees_sequence [OF this, where h = None] show ?case by (simp add: agrees_def)
next
  case (16 eng F sized im vs)
  then have "agrees eng (encode_value eng F v) (map_option acalls (lower_value eng F v))" if "v \<in> set vs" for v
    using that by (simp add: list_all_iff)
  from agrees_sequence [OF this, where h = "Some (fm_annotations F, sized)"] show ?case by (simp add: agrees_def)
next
  case (17 eng F c vs)
  have "encode_shape eng F (v_class c vs) = encode_struct eng c vs [] []" by (rule ext) simp
  then show ?case using 17 by (simp add: members_ok_def)
next
  case (18 eng F v)
  show ?case
  proof (rule agrees_field_value)
    show "agrees eng (encode_field_value eng F w) (map_option acalls (lower_field_value eng F w))"
      if "optional_of v = Some (Some w)" for w
      using 18 that optional_of_ok [OF that] by blast
  qed (use 18 in blast)
next
  case (19 eng c vs tk tv)
  have ok: "access f vs = Some m \<Longrightarrow> object_ok m" for f m using access_ok [of f vs m] 19(4) by (simp add: members_ok_def)
  show ?case
  proof (cases "ti_transparent (build_type_info c)")
    case True
    have "\<exists>fs. build_fields c = f # fs" if "f \<in> set (build_fields c)" for f
      using transparent_single [OF _ True] 19(4) that by (auto simp: members_ok_def length_Suc_conv)
    then show ?thesis using 19(1) [OF True] 19(3) ok by (intro member_ordering.agrees_transparent [OF 19(3,4) True]) blast
  next
    case False
    show ?thesis using 19(2) [OF False] 19(3) ok by (intro member_ordering.agrees_map [OF 19(3,4) False]) blast
  qed
qed (rule agrees_shape_leaf; simp add: to_string_view.simps split: option.split)+


end
