(* ===== verification/Traverse_Paths.thy ===== *)
theory Traverse_Paths
  imports Traverse_Model
begin

text \<open>
  Where a failure of the engine is (\<^verbatim>\<open>core/traverse.hpp\<close>). The catch and rethrow of the path frames is nested as the
  value is; here every call the engine would make, and every exception it would throw itself, is listed flat in
  order, each with the path from the root of the value it is made for (\<open>trace_value\<close>). The engine is the play of
  that list, in which the first refused step is the failure. A step's path leads to a value (\<open>stands\<close>), and the
  step is one that value makes itself (\<open>own_step\<close>).
\<close>

section \<open>Located steps\<close>

text \<open>A call, or the code and the message of an \<^verbatim>\<open>encode_error\<close> constructed and thrown.\<close>

type_synonym action = "ecall + errc \<times> string"
type_synonym located = "path_step list \<times> action"

definition here :: "ecall \<Rightarrow> located" where
  "here c = ([], Inl c)"

definition under :: "path_step \<Rightarrow> located list \<Rightarrow> located list" where
  "under st t = map (\<lambda>(p, a). (st # p, a)) t"

definition codec_trace :: "codec_run \<Rightarrow> located list" where
  "codec_trace run = map here (fst run) @ (case snd run of None \<Rightarrow> [] | Some x \<Rightarrow> [([], Inr x)])"

definition thrown :: "encode_error \<Rightarrow> errc \<times> string" where
  "thrown e = (ee_code e, ee_message e)"

definition enum_action :: "'s engine \<Rightarrow> field_meta \<Rightarrow> renum \<Rightarrow> bool \<Rightarrow> int \<Rightarrow> action" where
  "enum_action eng F e sg v =
     (let matching = filter (\<lambda>x. ei_value x = v) (build_enum_schema e); anns = fm_annotations F
      in if enum_encodes_as_integer e anns (ft_enum_default_integer (eng_traits eng))
         then (case filter ei_skipped matching of
             x # _ \<Rightarrow> Inr (thrown (skipped_enumerator e x))
           | [] \<Rightarrow> Inl (if sg then c_sint anns (word_of_int v) else c_uint anns (word_of_int v)))
         else (case matching of
             [] \<Rightarrow> Inr (thrown (no_enumerator e v))
           | x # _ \<Rightarrow> if ei_skipped x then Inr (thrown (skipped_enumerator e x)) else Inl (c_text_plain (ei_name x))))"

definition array_trace :: "(annotation list \<times> bool) option \<Rightarrow> located list list \<Rightarrow> located list" where
  "array_trace h ts = here (array_head h (length ts))
     # concat (map (\<lambda>e. under (step_index (of_nat (fst e))) (snd e)) (enumerate 0 ts)) @ [here c_end_array]"

definition map_trace :: "ecall \<Rightarrow> (ecall \<times> path_step \<times> located list) list \<Rightarrow> located list" where
  "map_trace h es = here h # concat (map (\<lambda>(k, st, t). here k # under st t) es) @ [here c_end_map]"

function trace_value :: "'s engine \<Rightarrow> field_meta \<Rightarrow> cval \<Rightarrow> located list"
  and trace_shape :: "'s engine \<Rightarrow> field_meta \<Rightarrow> cval \<Rightarrow> located list"
  and trace_field :: "'s engine \<Rightarrow> field_meta \<Rightarrow> cval \<Rightarrow> located list"
  and trace_struct :: "'s engine \<Rightarrow> rclass \<Rightarrow> cval list \<Rightarrow> string \<Rightarrow> string \<Rightarrow> located list"
where
  "trace_value eng F v =
     (case fm_codec F of
        Some c \<Rightarrow> codec_trace (eng_with eng c F v)
      | None \<Rightarrow> (case prepared_image eng v of Some img \<Rightarrow> [here (c_write_prepared img)] | None \<Rightarrow> trace_shape eng F v))"
| "trace_shape eng F (v_codec_for sys ca run) = codec_trace (run (fm_annotations F))"
| "trace_shape eng F (v_bool b) = [here (c_boolean b)]"
| "trace_shape eng F (v_char c) = [here (c_text_plain [c])]"
| "trace_shape eng F (v_uint u) = [here (c_uint (fm_annotations F) u)]"
| "trace_shape eng F (v_sint i) = [here (c_sint (fm_annotations F) i)]"
| "trace_shape eng F (v_real d) = [here (c_real (fm_annotations F) d)]"
| "trace_shape eng F (v_enum e sg v) = [([], enum_action eng F e sg v)]"
| "trace_shape eng F (v_string t) = [here (c_text (fm_annotations F) t)]"
| "trace_shape eng F (v_c_string t) = [here (c_text (fm_annotations F) (case t of Some t \<Rightarrow> t | None \<Rightarrow> []))]"
| "trace_shape eng F (v_optional x) = (case x of Some v \<Rightarrow> trace_value eng F v | None \<Rightarrow> [here c_null])"
| "trace_shape eng F (v_variant x) =
     (case x of
        None \<Rightarrow> [([], Inr (thrown valueless))]
      | Some (name, v) \<Rightarrow>
          (case internally_tagged v of
             Some (c, vs) \<Rightarrow> trace_struct eng c vs (tag_key (fm_info F)) name
           | None \<Rightarrow> here (c_begin_map_plain 2) # here (c_key_text (tag_key (fm_info F))) # here (c_text_plain name)
               # here (c_prepared_name variant_value_key)
               # under (step_member variant_value_key) (trace_value eng no_field v) @ [here c_end_map]))"
| "trace_shape eng F (v_byte_range byte_elems bs) =
     (if ft_is_bytes (eng_traits eng) byte_elems (fm_annotations F) then [here (c_bytes (fm_annotations F) bs)]
      else array_trace (Some (fm_annotations F, True)) (map (\<lambda>b. [here (byte_call eng F b)]) bs))"
| "trace_shape eng F (v_map sized es) =
     map_trace (map_head (mf_field (fm_annotations F) sized) (length es))
       (map (\<lambda>e. (key_call_of (fst e), key_step_of (fst e), trace_value eng F (snd e))) es)"
| "trace_shape eng F (v_tuple vs) = array_trace None (map (trace_value eng F) vs)"
| "trace_shape eng F (v_sequence sized im vs) = array_trace (Some (fm_annotations F, sized)) (map (trace_value eng F) vs)"
| "trace_shape eng F (v_class c vs) = trace_struct eng c vs [] []"
| "trace_field eng F v =
     (case optional_of v of
        Some (Some w) \<Rightarrow> trace_field eng F w
      | Some None \<Rightarrow> [here c_null]
      | None \<Rightarrow> map (\<lambda>t. here (c_tag t)) (value_tags eng F v)
          @ (if ft_bulk_range (eng_traits eng) (fm_annotations F) (numeric_image v \<noteq> None) \<and> eng_range_hook eng
             then [here (case numeric_image v of Some (t, raw) \<Rightarrow> c_write_range t raw | None \<Rightarrow> c_null)]
             else trace_value eng F v))"
| "trace_struct eng c vs tk tv =
     (if ti_transparent (build_type_info c) then
        concat (map (\<lambda>f. case access f vs of
             None \<Rightarrow> []
           | Some m \<Rightarrow> under (step_member (ident_of (fm_info f))) (trace_value eng f m)) (build_fields c))
      else
        (let n = length (emitted eng c vs);
             ms = map (\<lambda>f. (key_item eng f, step_member (ident_of (fm_info f)),
                    case access f vs of None \<Rightarrow> [] | Some m \<Rightarrow> trace_field eng f m)) (emitted eng c vs)
         in if tk = [] then map_trace (c_begin_map_ordered n) ms
            else here (c_begin_map_plain (n + 1)) # here (c_key_text tk) # here (c_text_plain tv)
              # concat (map (\<lambda>(k, st, t). here k # under st t) ms) @ [here c_end_map]))"
  by pat_completeness auto
termination
  by (relation "measures
      [case_sum (case_sum (\<lambda>(_, _, v). size v) (\<lambda>(_, _, v). size v))
         (case_sum (\<lambda>(_, _, v). size v) (\<lambda>(_, _, vs, _, _). size_list size vs)),
       case_sum (case_sum (\<lambda>_. 2) (\<lambda>_. 1)) (case_sum (\<lambda>_. 3) (\<lambda>_. 0))]")
    (simp_all add: termination_simp, auto dest!: internally_tagged_size)

declare trace_value.simps [simp del] trace_field.simps [simp del] trace_struct.simps [simp del]

section \<open>Playing a trace\<close>

fun refusal :: "'s engine \<Rightarrow> action \<Rightarrow> 's \<Rightarrow> 's encoded" where
  "refusal eng (Inl c) s = eng_emit eng c s"
| "refusal eng (Inr x) s = Inl (mk_encode_error (fst x) (snd x))"

fun play :: "'s engine \<Rightarrow> located list \<Rightarrow> 's \<Rightarrow> 's encoded" where
  "play eng [] s = Inr s"
| "play eng ((p, a) # t) s = (case refusal eng a s of Inl e \<Rightarrow> Inl (foldr ee_push p e) | Inr s' \<Rightarrow> play eng t s')"

lemma ebind_assoc: "ebind (ebind r f) g = ebind r (\<lambda>x. ebind (f x) g)"
  by (cases r) simp_all

lemma ebind_Inr [simp]: "ebind r Inr = r"
  by (cases r) simp_all

lemma play_nil: "play eng [] = Inr"
  by (rule ext) simp

lemma play_append_at: "play eng (t @ u) s = ebind (play eng t s) (play eng u)"
  by (induction eng t s rule: play.induct) (simp_all add: ebind_def split: sum.split)

lemma play_append: "play eng (t @ u) = (\<lambda>s. ebind (play eng t s) (play eng u))"
  by (rule ext) (rule play_append_at)

lemma play_here: "play eng (here c # t) = (\<lambda>s. ebind (eng_emit eng c s) (play eng t))"
  by (rule ext) (simp add: here_def ebind_def split: sum.split)

lemma play_single [simp]: "play eng [here c] = eng_emit eng c"
  by (simp add: play_here play_nil)

lemma play_under_at: "play eng (under st t) s = with_path st (play eng t s)"
  by (induction eng t s rule: play.induct) (simp_all add: under_def with_path_def split: sum.split)

lemma play_under: "play eng (under st t) = (\<lambda>s. with_path st (play eng t s))"
  by (rule ext) (rule play_under_at)

lemma play_calls: "play eng (map here cs) s = emit_all eng cs s"
  by (induction cs arbitrary: s) (simp_all add: play_here ebind_def split: sum.split)

lemma play_tags: "play eng (map (\<lambda>t. here (c_tag t)) ts) s = emit_all eng (map c_tag ts) s"
  using play_calls [of eng "map c_tag ts" s] by (simp add: comp_def)

lemma thrown_again [simp]:
  "mk_encode_error (fst (thrown (skipped_enumerator e x))) (snd (thrown (skipped_enumerator e x))) = skipped_enumerator e x"
  "mk_encode_error (fst (thrown (no_enumerator e v))) (snd (thrown (no_enumerator e v))) = no_enumerator e v"
  "mk_encode_error (fst (thrown valueless)) (snd (thrown valueless)) = valueless"
  by (simp_all add: thrown_def skipped_enumerator_def no_enumerator_def valueless_def mk_encode_error_def)

lemma play_codec: "play eng (codec_trace run) s = run_codec eng run s"
  by (simp add: codec_trace_def run_codec_def play_append play_calls split: option.split)
    (auto simp: ebind_def split: sum.split)

lemma play_enum: "refusal eng (enum_action eng F e sg v) s = encode_enum eng F e sg v s"
proof -
  have find_filter: "find P xs = (case filter P xs of [] \<Rightarrow> None | x # _ \<Rightarrow> Some x)" for P :: "enumerator_info \<Rightarrow> bool" and xs
    by (induction xs) auto
  have "filter ei_skipped (filter (\<lambda>x. ei_value x = v) xs) = filter (\<lambda>x. ei_value x = v \<and> ei_skipped x) xs" for xs
    by (simp add: conj_commute)
  then show ?thesis
    by (simp add: enum_action_def encode_enum_def Let_def find_filter split: list.split)
qed

section \<open>The engine plays the trace\<close>

lemma plays_elements:
  assumes "\<And>v s. v \<in> set vs \<Longrightarrow> encode_value eng F v s = play eng (trace_value eng F v) s"
  shows "encode_elements eng F (of_nat n) vs s
    = play eng (concat (map (\<lambda>e. under (step_index (of_nat (fst e))) (snd e)) (enumerate n (map (trace_value eng F) vs)))) s"
  using assms
proof (induction vs arbitrary: n s)
  case (Cons v vs)
  have IH: "encode_elements eng F (of_nat n + 1) vs
      = play eng (concat (map (\<lambda>e. under (step_index (of_nat (fst e))) (snd e)) (enumerate (Suc n) (map (trace_value eng F) vs))))"
    using Cons.IH [of "Suc n"] Cons.prems by (intro ext) (simp add: add.commute)
  show ?case by (simp add: play_append play_under IH Cons.prems)
qed simp

lemma plays_bytes_elements:
  "encode_bytes_elements eng F (of_nat n) bs s
    = play eng (concat (map (\<lambda>e. under (step_index (of_nat (fst e))) (snd e)) (enumerate n (map (\<lambda>b. [here (byte_call eng F b)]) bs)))) s"
proof (induction bs arbitrary: n s)
  case (Cons b bs)
  have IH: "encode_bytes_elements eng F (of_nat n + 1) bs
      = play eng (concat (map (\<lambda>e. under (step_index (of_nat (fst e))) (snd e)) (enumerate (Suc n) (map (\<lambda>b. [here (byte_call eng F b)]) bs))))"
    using Cons.IH [of "Suc n"] by (intro ext) (simp add: add.commute)
  show ?case by (simp add: play_append play_under IH)
qed simp

lemma plays_array:
  assumes "\<And>s. r s = play eng (concat (map (\<lambda>e. under (step_index (of_nat (fst e))) (snd e)) (enumerate 0 ts))) s"
  shows "ebind (eng_emit eng (array_head h (length ts)) s) (\<lambda>s. ebind (r s) (eng_emit eng c_end_array)) = play eng (array_trace h ts) s"
  using assms by (simp add: array_trace_def play_here play_append play_nil)

lemma plays_entries:
  assumes "\<And>k v s. (k, v) \<in> set es \<Longrightarrow> encode_value eng F v s = play eng (trace_value eng F v) s"
  shows "encode_entries eng F es s = play eng (concat (map (\<lambda>(k, st, t). here k # under st t)
     (map (\<lambda>e. (key_call_of (fst e), key_step_of (fst e), trace_value eng F (snd e))) es))) s"
  using assms
proof (induction es arbitrary: s)
  case (Cons e es)
  obtain k v where e: "e = (k, v)" by force
  have IH: "encode_entries eng F es = play eng (concat (map (\<lambda>(k, st, t). here k # under st t)
     (map (\<lambda>e. (key_call_of (fst e), key_step_of (fst e), trace_value eng F (snd e))) es)))"
    by (rule ext, rule Cons.IH) (use Cons.prems in auto)
  have v: "encode_value eng F v = play eng (trace_value eng F v)"
    by (rule ext, rule Cons.prems [of k]) (simp add: e)
  show ?case by (simp add: e play_here play_append play_under IH v)
qed simp

lemma plays_members:
  assumes "\<And>f. f \<in> set fs \<Longrightarrow> access f vs \<noteq> None"
    and "\<And>f m s. f \<in> set fs \<Longrightarrow> member_shown eng vs f \<Longrightarrow> access f vs = Some m \<Longrightarrow>
      encode_field_value eng f m s = play eng (trace_field eng f m) s"
  shows "encode_members eng vs fs s = play eng (concat (map (\<lambda>(k, st, t). here k # under st t)
     (map (\<lambda>f. (key_item eng f, step_member (ident_of (fm_info f)),
        case access f vs of None \<Rightarrow> [] | Some m \<Rightarrow> trace_field eng f m)) (filter (member_shown eng vs) fs)))) s"
  using assms
proof (induction fs arbitrary: s)
  case (Cons f fs)
  obtain m where m: "access f vs = Some m" using Cons.prems(1) [of f] by auto
  have IH: "encode_members eng vs fs = play eng (concat (map (\<lambda>(k, st, t). here k # under st t)
     (map (\<lambda>f. (key_item eng f, step_member (ident_of (fm_info f)),
        case access f vs of None \<Rightarrow> [] | Some m \<Rightarrow> trace_field eng f m)) (filter (member_shown eng vs) fs))))"
    by (rule ext, rule Cons.IH) (use Cons.prems in auto)
  show ?case
  proof (cases "member_shown eng vs f")
    case True
    have v: "encode_field_value eng f m = play eng (trace_field eng f m)"
      by (rule ext, rule Cons.prems(2)) (use True m in auto)
    have key: "emit_key eng f s = eng_emit eng (key_item eng f) s" for s by (simp add: emit_key_def key_item_def)
    have "encode_members eng vs (f # fs) s = ebind (emit_key eng f s) (\<lambda>s.
        ebind (with_path (step_member (ident_of (fm_info f))) (encode_field_value eng f m s)) (encode_members eng vs fs))"
      using True by (auto simp: m member_shown_def)
    then show ?thesis using True by (simp add: m key play_here play_append play_under IH v)
  next
    case False
    then have "encode_members eng vs (f # fs) s = encode_members eng vs fs s" by (auto simp: m member_shown_def)
    then show ?thesis using IH False by simp
  qed
qed simp


lemma plays_struct:
  assumes "member_ordering eng" "members_ok c vs"
    and "\<And>f m s. ti_transparent (build_type_info c) \<Longrightarrow> f \<in> set (build_fields c) \<Longrightarrow> access f vs = Some m \<Longrightarrow>
      encode_value eng f m s = play eng (trace_value eng f m) s"
    and "\<And>f m s. \<not> ti_transparent (build_type_info c) \<Longrightarrow> f \<in> set (emitted eng c vs) \<Longrightarrow> access f vs = Some m \<Longrightarrow>
      encode_field_value eng f m s = play eng (trace_field eng f m) s"
  shows "encode_struct eng c vs tk tv s = play eng (trace_struct eng c vs tk tv) s"
proof (cases "ti_transparent (build_type_info c)")
  case True
  obtain f where f: "build_fields c = [f]"
    using transparent_single [OF _ True] assms(2) by (auto simp: members_ok_def length_Suc_conv)
  obtain m where m: "access f vs = Some m"
    using access_total [of f c vs] assms(2) f by (auto simp: members_ok_def)
  have "encode_transparent eng vs [] = Inr" by (rule ext) simp
  then show ?thesis using True assms(3) [OF True _ m] f by (simp add: encode_struct.simps trace_struct.simps m play_under)
next
  case False
  let ?fs = "map ((!) (build_fields c)) (ft_member_order (eng_traits eng) (build_fields c))"
  let ?ms = "map (\<lambda>f. (key_item eng f, step_member (ident_of (fm_info f)),
      case access f vs of None \<Rightarrow> [] | Some m \<Rightarrow> trace_field eng f m)) (emitted eng c vs)"
  have len: "length vs = length (build_fields c)" using assms(2) by (simp add: members_ok_def)
  have set_fs: "set ?fs = set (build_fields c)"
    using permuted_fields [OF member_ordering.permutes [OF assms(1)]] by (rule mset_eq_setD)
  have members: "encode_members eng vs ?fs = play eng (concat (map (\<lambda>(k, st, t). here k # under st t) ?ms))"
    unfolding emitted_eq
    by (rule ext, rule plays_members) (use access_total [OF _ len] set_fs assms(4) [OF False] in \<open>auto simp: emitted_eq\<close>)
  show ?thesis
    using False
    by (simp only: encode_struct.simps trace_struct.simps announced_count [OF member_ordering.permutes [OF assms(1)] len]
        Let_def if_False members)
      (cases "tk = []"; simp add: map_trace_def play_here play_append play_nil ebind_assoc del: map_map)
qed

lemma plays_sequence:
  assumes "\<And>v s. v \<in> set vs \<Longrightarrow> encode_value eng F v s = play eng (trace_value eng F v) s"
  shows "encode_elements eng F 0 vs s
    = play eng (concat (map (\<lambda>e. under (step_index (of_nat (fst e))) (snd e)) (enumerate 0 (map (trace_value eng F) vs)))) s"
  using plays_elements [OF assms, where n = 0] by simp

lemma plays_variant:
  assumes "\<And>name v s. x = Some (name, v) \<Longrightarrow> internally_tagged v = None \<Longrightarrow>
      encode_value eng no_field v s = play eng (trace_value eng no_field v) s"
    and "\<And>name v c vs s. x = Some (name, v) \<Longrightarrow> internally_tagged v = Some (c, vs) \<Longrightarrow>
      encode_struct eng c vs (tag_key (fm_info F)) name s = play eng (trace_struct eng c vs (tag_key (fm_info F)) name) s"
  shows "encode_shape eng F (v_variant x) s = play eng (trace_shape eng F (v_variant x)) s"
proof -
  consider "x = None" | name v where "x = Some (name, v)" "internally_tagged v = None"
    | name v c vs where "x = Some (name, v)" "internally_tagged v = Some (c, vs)"
    by (metis not_None_eq surj_pair)
  then show ?thesis
  proof cases
    case 2
    have "encode_value eng no_field v = play eng (trace_value eng no_field v)" using assms(1) [OF 2] by blast
    then show ?thesis using 2 by (simp add: encode_variant.simps play_here play_append play_under play_nil)
  qed (simp_all add: encode_variant.simps assms(2))
qed

lemma plays_field:
  assumes "\<And>w s. optional_of v = Some (Some w) \<Longrightarrow> encode_field_value eng F w s = play eng (trace_field eng F w) s"
    and "\<And>s. optional_of v = None \<Longrightarrow>
      \<not> (ft_bulk_range (eng_traits eng) (fm_annotations F) (numeric_image v \<noteq> None) \<and> eng_range_hook eng) \<Longrightarrow>
      encode_value eng F v s = play eng (trace_value eng F v) s"
  shows "encode_field_value eng F v s = play eng (trace_field eng F v) s"
proof -
  consider "optional_of v = None" | "optional_of v = Some None" | w where "optional_of v = Some (Some w)"
    by (metis not_None_eq)
  then show ?thesis
  proof cases
    case 1
    let ?bulk = "ft_bulk_range (eng_traits eng) (fm_annotations F) (numeric_image v \<noteq> None) \<and> eng_range_hook eng"
    have tags: "play eng (map (\<lambda>t. here (c_tag t)) (value_tags eng F v)) s = emit_tags eng F v s" for s
      by (simp add: play_tags emit_tags_def)
    show ?thesis
    proof (cases ?bulk)
      case True
      then show ?thesis
        by (simp only: encode_field_value.simps [of eng F v] trace_field.simps [of eng F v] 1 option.case True if_True simp_thms play_append tags play_single)
    next
      case False
      have "encode_value eng F v = play eng (trace_value eng F v)" using assms(2) [OF 1 False] by blast
      then show ?thesis
        by (simp only: encode_field_value.simps [of eng F v] trace_field.simps [of eng F v] 1 option.case if_not_P [OF False] play_append tags)
    qed
  next
    case 3
    then show ?thesis using assms(1) [OF 3] by (simp add: encode_field_value.simps [of eng F v] trace_field.simps [of eng F v])
  qed (simp add: encode_field_value.simps [of eng F v] trace_field.simps [of eng F v])
qed

lemma engine_plays:
  "member_ordering eng \<Longrightarrow> object_ok v \<Longrightarrow> encode_value eng F v s = play eng (trace_value eng F v) s"
  "member_ordering eng \<Longrightarrow> object_ok v \<Longrightarrow> encode_shape eng F v s = play eng (trace_shape eng F v) s"
  "member_ordering eng \<Longrightarrow> object_ok v \<Longrightarrow> encode_field_value eng F v s = play eng (trace_field eng F v) s"
  "member_ordering eng \<Longrightarrow> members_ok c vs \<Longrightarrow> encode_struct eng c vs tk tv s = play eng (trace_struct eng c vs tk tv) s"
proof (induction eng F v and eng F v and eng F v and eng c vs tk tv arbitrary: s and s and s and s
    rule: trace_value_trace_shape_trace_field_trace_struct.induct)
  case (1 eng F v)
  then show ?case by (simp add: encode_value.simps trace_value.simps play_codec split: option.split)
next
  case (2 eng F sys ca run)
  then show ?case by (simp add: play_codec)
next
  case (8 eng F e sg v)
  then show ?case by (simp add: play_enum split: sum.split)
next
  case (11 eng F x)
  then show ?case by (cases x) simp_all
next
  case (12 eng F x)
  have "members_ok c vs" if "x = Some (name, v)" "internally_tagged v = Some (c, vs)" for name v c vs
    using internally_tagged_ok [OF that(2)] 12(4) that(1) by simp
  then show ?case using 12 by (intro plays_variant) simp_all
next
  case (13 eng F byte_elems bs)
  have "encode_bytes_elements eng F 0 bs s = play eng (concat (map (\<lambda>e. under (step_index (of_nat (fst e))) (snd e))
      (enumerate 0 (map (\<lambda>b. [here (byte_call eng F b)]) bs)))) s" for s
    using plays_bytes_elements [of eng F 0 bs s] by simp
  from plays_array [OF this, where h = "Some (fm_annotations F, True)"] show ?case by simp
next
  case (14 eng F sized es)
  have v: "encode_value eng F v s = play eng (trace_value eng F v) s" if "(k, v) \<in> set es" for k v s
    using 14(1) [OF that 14(2)] 14(3) that by (fastforce simp: list_all_iff)
  have "encode_entries eng F es = play eng (concat (map (\<lambda>(k, st, t). here k # under st t)
      (map (\<lambda>e. (key_call_of (fst e), key_step_of (fst e), trace_value eng F (snd e))) es)))"
    by (rule ext, rule plays_entries) (rule v)
  then show ?case by (simp add: map_trace_def play_here play_append play_nil del: map_map)
next
  case (15 eng F vs)
  then have v: "encode_value eng F v s = play eng (trace_value eng F v) s" if "v \<in> set vs" for v s
    using that by (simp add: list_all_iff)
  from plays_array [OF plays_sequence [OF this], where h = None] show ?case by simp
next
  case (16 eng F sized im vs)
  then have v: "encode_value eng F v s = play eng (trace_value eng F v) s" if "v \<in> set vs" for v s
    using that by (simp add: list_all_iff)
  from plays_array [OF plays_sequence [OF this], where h = "Some (fm_annotations F, sized)"] show ?case by simp
next
  case (17 eng F c vs)
  then show ?case by (simp add: members_ok_def)
next
  case (18 eng F v)
  show ?case
    by (rule plays_field) (use 18 optional_of_ok [of v] in blast)+
next
  case (19 eng c vs tk tv)
  have ok: "access f vs = Some m \<Longrightarrow> object_ok m" for f m using access_ok [of f vs m] 19(4) by (simp add: members_ok_def)
  show ?case
    by (rule plays_struct [OF 19(3,4)]) (use 19 ok in blast)+
qed (simp_all add: to_string_view.simps split: option.split)

section \<open>The value at a path\<close>

text \<open>Which value stands at the end of a path. A present optional, and a struct alternative of a variant, add no step;
  an octet of a range is an integer of its own.\<close>

inductive stands :: "cval \<Rightarrow> path_step list \<Rightarrow> cval \<Rightarrow> bool" where
  root: "stands v [] v"
| in_optional: "stands v p w \<Longrightarrow> stands (v_optional (Some v)) p w"
| in_sequence: "i < length vs \<Longrightarrow> stands (vs ! i) p w \<Longrightarrow> stands (v_sequence sized im vs) (step_index (of_nat i) # p) w"
| in_tuple: "i < length vs \<Longrightarrow> stands (vs ! i) p w \<Longrightarrow> stands (v_tuple vs) (step_index (of_nat i) # p) w"
| in_bytes: "i < length bs \<Longrightarrow> stands (v_byte_range byte_elems bs) [step_index (of_nat i)] (v_uint (ucast (bs ! i)))"
| in_map: "(k, v) \<in> set es \<Longrightarrow> stands v p w \<Longrightarrow> stands (v_map sized es) (key_step_of k # p) w"
| in_class: "f \<in> set (build_fields c) \<Longrightarrow> access f vs = Some m \<Longrightarrow> stands m p w \<Longrightarrow>
    stands (v_class c vs) (step_member (ident_of (fm_info f)) # p) w"
| in_alternative: "internally_tagged v \<noteq> None \<Longrightarrow> stands v p w \<Longrightarrow> stands (v_variant (Some (name, v))) p w"
| in_value: "internally_tagged v = None \<Longrightarrow> stands v p w \<Longrightarrow>
    stands (v_variant (Some (name, v))) (step_member variant_value_key # p) w"

text \<open>The calls a value makes itself in some field context, those of the values inside it apart.\<close>

definition own_step :: "'s engine \<Rightarrow> cval \<Rightarrow> action \<Rightarrow> bool" where
  "own_step eng w a \<longleftrightarrow> (\<exists>F. ([], a) \<in> set (trace_value eng F w) \<or> ([], a) \<in> set (trace_field eng F w))"

definition located_in :: "'s engine \<Rightarrow> cval \<Rightarrow> located \<Rightarrow> bool" where
  "located_in eng v l \<longleftrightarrow> (\<exists>w. stands v (fst l) w \<and> own_step eng w (snd l))"

lemma in_under [simp]: "l \<in> set (under st t) \<longleftrightarrow> (\<exists>p a. l = (st # p, a) \<and> (p, a) \<in> set t)"
  by (auto simp: under_def)

lemma here_iff [simp]: "(p, a) = here c \<longleftrightarrow> p = [] \<and> a = Inl c" "here c = (p, a) \<longleftrightarrow> p = [] \<and> a = Inl c"
  by (auto simp: here_def)

lemma in_array_trace:
  "(st # p, a) \<in> set (array_trace h ts) \<longleftrightarrow> (\<exists>i < length ts. st = step_index (of_nat i) \<and> (p, a) \<in> set (ts ! i))"
proof -
  have m: "i < length ts \<Longrightarrow> (i, ts ! i) \<in> set (enumerate 0 ts)" for i by (simp add: in_set_enumerate_eq)
  show ?thesis by (auto simp: array_trace_def in_set_enumerate_eq) (rule bexI [OF _ m]; simp)
qed

lemma in_map_trace:
  "(st # p, a) \<in> set (map_trace h es) \<longleftrightarrow> (\<exists>k t. (k, st, t) \<in> set es \<and> (p, a) \<in> set t)"
  by (force simp: map_trace_def)

lemma codec_trace_flat [simp]: "(st # p, a) \<notin> set (codec_trace run)"
  by (auto simp: codec_trace_def here_def split: option.splits)

lemma in_struct_trace:
  assumes "(st # p, a) \<in> set (trace_struct eng c vs tk tv)"
    "mset (ft_member_order (eng_traits eng) (build_fields c)) = mset [0..<length (build_fields c)]"
  obtains f m where "f \<in> set (build_fields c)" "access f vs = Some m" "st = step_member (ident_of (fm_info f))"
    "ti_transparent (build_type_info c) \<and> (p, a) \<in> set (trace_value eng f m)
     \<or> \<not> ti_transparent (build_type_info c) \<and> f \<in> set (emitted eng c vs) \<and> (p, a) \<in> set (trace_field eng f m)"
proof -
  have sub: "set (emitted eng c vs) \<subseteq> set (build_fields c)"
    unfolding emitted_eq using mset_eq_setD [OF permuted_fields [OF assms(2)]] by auto
  show thesis
  proof (cases "ti_transparent (build_type_info c)")
    case True
    then have "\<exists>f m. f \<in> set (build_fields c) \<and> access f vs = Some m \<and> st = step_member (ident_of (fm_info f))
        \<and> (p, a) \<in> set (trace_value eng f m)"
      using assms(1) by (force simp: trace_struct.simps split: option.splits)
    then show ?thesis using that True by blast
  next
    case False
    then have "\<exists>f m. f \<in> set (emitted eng c vs) \<and> access f vs = Some m \<and> st = step_member (ident_of (fm_info f))
        \<and> (p, a) \<in> set (trace_field eng f m)"
      using assms(1)
      by (cases "tk = []") (force simp: trace_struct.simps Let_def in_map_trace split: option.splits)+
    then show ?thesis using that False sub by blast
  qed
qed


text \<open>Every step of a trace is located: a value stands at its path, and makes the step itself. A step without a path
  is the root's own.\<close>

lemma located_root:
  "([], a) \<in> set (trace_value eng F v) \<Longrightarrow> located_in eng v ([], a)"
  "([], a) \<in> set (trace_field eng F v) \<Longrightarrow> located_in eng v ([], a)"
  by (auto simp: located_in_def own_step_def intro: root)

lemma located_inside:
  assumes "located_in eng v (p, a)" "\<And>w. stands v p w \<Longrightarrow> stands u q w"
  shows "located_in eng u (q, a)"
  using assms by (auto simp: located_in_def)

definition deep :: "'s engine \<Rightarrow> cval \<Rightarrow> located list \<Rightarrow> bool" where
  "deep eng v t \<longleftrightarrow> (\<forall>st p a. (st # p, a) \<in> set t \<longrightarrow> located_in eng v (st # p, a))"

lemma deep_inside: "deep eng v t \<Longrightarrow> (\<And>p w. stands v p w \<Longrightarrow> stands u p w) \<Longrightarrow> deep eng u t"
  unfolding deep_def located_in_def fst_conv snd_conv by meson

lemma deep_shape_leaf:
  "(\<And>st p a. (st # p, a) \<notin> set t) \<Longrightarrow> deep eng v t"
  by (simp add: deep_def)

lemma located_value:
  assumes "fm_codec F = None \<Longrightarrow> prepared_image eng v = None \<Longrightarrow> deep eng v (trace_shape eng F v)"
    and "l \<in> set (trace_value eng F v)"
  shows "located_in eng v l"
proof (cases l)
  case (Pair q a)
  show ?thesis
  proof (cases q)
    case Nil
    then show ?thesis using located_root(1) assms(2) Pair by metis
  next
    case (Cons st p)
    then show ?thesis
      using assms Pair by (auto simp: deep_def trace_value.simps split: option.splits)
  qed
qed

lemma deep_struct:
  assumes "member_ordering eng"
    and "\<And>f m l. ti_transparent (build_type_info c) \<Longrightarrow> f \<in> set (build_fields c) \<Longrightarrow> access f vs = Some m \<Longrightarrow>
      l \<in> set (trace_value eng f m) \<Longrightarrow> located_in eng m l"
    and "\<And>f m l. \<not> ti_transparent (build_type_info c) \<Longrightarrow> f \<in> set (emitted eng c vs) \<Longrightarrow> access f vs = Some m \<Longrightarrow>
      l \<in> set (trace_field eng f m) \<Longrightarrow> located_in eng m l"
  shows "deep eng (v_class c vs) (trace_struct eng c vs tk tv)"
  unfolding deep_def
proof (intro allI impI)
  fix st p a assume "(st # p, a) \<in> set (trace_struct eng c vs tk tv)"
  from in_struct_trace [OF this member_ordering.permutes [OF assms(1)]]
  obtain f m where f: "f \<in> set (build_fields c)" "access f vs = Some m" "st = step_member (ident_of (fm_info f))"
    and "located_in eng m (p, a)" using assms(2,3) by metis
  from located_inside [OF this(4), of "v_class c vs"] f show "located_in eng (v_class c vs) (st # p, a)"
    by (auto intro: in_class)
qed

lemma deep_array:
  assumes "\<And>v l. v \<in> set vs \<Longrightarrow> l \<in> set (trace_value eng F v) \<Longrightarrow> located_in eng v l"
    and "\<And>i p w. i < length vs \<Longrightarrow> stands (vs ! i) p w \<Longrightarrow> stands u (step_index (of_nat i) # p) w"
  shows "deep eng u (array_trace h (map (trace_value eng F) vs))"
  unfolding deep_def
proof (intro allI impI)
  fix st p a assume "(st # p, a) \<in> set (array_trace h (map (trace_value eng F) vs))"
  then obtain i where i: "i < length vs" "st = step_index (of_nat i)" "(p, a) \<in> set (trace_value eng F (vs ! i))"
    by (auto simp: in_array_trace)
  show "located_in eng u (st # p, a)"
    by (rule located_inside [OF assms(1) [OF nth_mem [OF i(1)] i(3)]]) (simp add: i assms(2))
qed

lemma own_byte_call: "own_step eng (v_uint (ucast b)) (Inl (byte_call eng F b))"
proof -
  have "([], Inl (byte_call eng F b)) \<in> set (trace_value eng (F\<lparr>fm_codec := None\<rparr>) (v_uint (ucast b)))"
    by (simp add: trace_value.simps byte_call_def split: option.split)
  then show ?thesis unfolding own_step_def by blast
qed

lemma located_field:
  assumes "\<And>w l. optional_of v = Some (Some w) \<Longrightarrow> l \<in> set (trace_field eng F w) \<Longrightarrow> located_in eng w l"
    and "\<And>l. optional_of v = None \<Longrightarrow>
      \<not> (ft_bulk_range (eng_traits eng) (fm_annotations F) (numeric_image v \<noteq> None) \<and> eng_range_hook eng) \<Longrightarrow>
      l \<in> set (trace_value eng F v) \<Longrightarrow> located_in eng v l"
    and "l \<in> set (trace_field eng F v)"
  shows "located_in eng v l"
proof (cases l)
  case (Pair q a)
  consider "q = []" | st p where "q = st # p" "optional_of v = None" | st p where "q = st # p" "optional_of v = Some None"
    | st p w where "q = st # p" "optional_of v = Some (Some w)"
    by (metis neq_Nil_conv not_None_eq)
  then show ?thesis
  proof cases
    case 1
    then show ?thesis using located_root(2) assms(3) Pair by metis
  next
    case 2
    then show ?thesis
      using assms(2,3) Pair by (auto simp: trace_field.simps [of eng F v] split: if_splits)
  next
    case 3
    then show ?thesis using assms(3) Pair by (simp add: trace_field.simps [of eng F v])
  next
    case 4
    then have "v = v_optional (Some w)" by (simp add: optional_of_def split: cval.splits)
    moreover have "located_in eng w (q, a)"
      using 4 assms(1,3) Pair by (simp add: trace_field.simps [of eng F v])
    ultimately show ?thesis using Pair by (auto intro: located_inside in_optional)
  qed
qed

lemma trace_located:
  "member_ordering eng \<Longrightarrow> l \<in> set (trace_value eng F v) \<Longrightarrow> located_in eng v l"
  "member_ordering eng \<Longrightarrow> deep eng v (trace_shape eng F v)"
  "member_ordering eng \<Longrightarrow> l \<in> set (trace_field eng F v) \<Longrightarrow> located_in eng v l"
  "member_ordering eng \<Longrightarrow> deep eng (v_class c vs) (trace_struct eng c vs tk tv)"
proof (induction eng F v and eng F v and eng F v and eng c vs tk tv arbitrary: l and and l and
    rule: trace_value_trace_shape_trace_field_trace_struct.induct)
  case (1 eng F v)
  then show ?case by (intro located_value) auto
next
  case (11 eng F x)
  then show ?case by (cases x) (auto simp: deep_def intro: located_inside in_optional)
next
  case (12 eng F x)
  consider "x = None" | name v where "x = Some (name, v)" "internally_tagged v = None"
    | name v c vs where "x = Some (name, v)" "internally_tagged v = Some (c, vs)"
    by (metis not_None_eq surj_pair)
  then show ?case
  proof cases
    case 2
    then show ?thesis using 12(1) [OF 2(1) refl 2(2) 12(3)] by (auto simp: deep_def intro: located_inside in_value)
  next
    case 3
    then have v: "v = v_class c vs" by (auto simp: internally_tagged_def split: cval.splits if_splits)
    have "deep eng v (trace_struct eng c vs (tag_key (fm_info F)) name)" unfolding v by (rule 12(2) [OF 3(1) refl 3(2) refl 12(3)])
    then have "deep eng (v_variant x) (trace_struct eng c vs (tag_key (fm_info F)) name)"
      by (rule deep_inside) (use 3 in \<open>auto intro: in_alternative\<close>)
    then show ?thesis using 3 by simp
  qed (simp add: deep_def)
next
  case (13 eng F byte_elems bs)
  have "located_in eng (v_byte_range byte_elems bs) ([step_index (of_nat i)], Inl (byte_call eng F (bs ! i)))" if "i < length bs" for i
    using that own_byte_call by (fastforce simp: located_in_def intro: in_bytes)
  then show ?case by (auto simp: deep_def in_array_trace)
next
  case (14 eng F sized es)
  have "located_in eng (v_map sized es) (key_step_of k # p, a)" if "(k, v) \<in> set es" "(p, a) \<in> set (trace_value eng F v)" for k v p a
    using 14(1) [OF that(1) 14(2)] that by (auto intro: located_inside in_map)
  then show ?case by (auto simp: deep_def in_map_trace)
next
  case (15 eng F vs)
  have "located_in eng v l" if "v \<in> set vs" "l \<in> set (trace_value eng F v)" for v l
    by (rule 15(1) [OF that(1) 15(2) that(2)])
  from deep_array [OF this in_tuple] show ?case by simp
next
  case (16 eng F sized im vs)
  have "located_in eng v l" if "v \<in> set vs" "l \<in> set (trace_value eng F v)" for v l
    by (rule 16(1) [OF that(1) 16(2) that(2)])
  from deep_array [OF this in_sequence] show ?case by simp
next
  case (17 eng F c vs)
  then show ?case by simp
next
  case (18 eng F v)
  show ?case by (rule located_field [OF 18(2) [OF _ refl] 18(1) 18(4)]) (use 18(3) in simp_all)
next
  case (19 eng c vs tk tv)
  show ?case by (rule deep_struct [OF 19(3) 19(1) 19(2)]) (use 19(3) in simp_all)
qed (auto intro: deep_shape_leaf)


section \<open>The failure of a play\<close>

definition raised_at :: "encode_error \<Rightarrow> path_step list \<Rightarrow> bool" where
  "raised_at e p \<longleftrightarrow> ee_steps e = take max_path_steps (rev p) \<and> ee_truncated e = (max_path_steps < length p) \<and> \<not> ee_finalized e"

text \<open>What a sink throws carries no path yet.\<close>

locale pathless_sink =
  fixes eng :: "'s engine"
  assumes emit_fresh: "eng_emit eng c s = Inl e \<Longrightarrow> raised_at e []"

lemma pushed_path:
  "raised_at x [] \<Longrightarrow> foldr ee_push p x = x\<lparr>ee_steps := take max_path_steps (rev p), ee_truncated := max_path_steps < length p\<rparr>"
  by (induction p) (auto simp: raised_at_def ee_push_def min_def not_less)

text \<open>A play that fails was stopped by the first step that is refused, after the steps before it were taken.\<close>

lemma play_fails:
  assumes "play eng t s = Inl e"
  shows "\<exists>pre p a post r x. t = pre @ (p, a) # post \<and> play eng pre s = Inr r \<and> refusal eng a r = Inl x \<and> e = foldr ee_push p x"
  using assms
proof (induction eng t s rule: play.induct)
  case (2 eng p a t s)
  show ?case
  proof (cases "refusal eng a s")
    case (Inl x)
    then show ?thesis using 2(2) by (intro exI [of _ "[]"] exI [of _ p] exI [of _ a] exI [of _ t]) simp
  next
    case (Inr r)
    with 2 obtain pre q b post r' x where "t = pre @ (q, b) # post" "play eng pre r = Inr r'" "refusal eng b r' = Inl x"
      "e = foldr ee_push q x" by auto
    then show ?thesis using Inr
      by (intro exI [of _ "(p, a) # pre"] exI [of _ q] exI [of _ b] exI [of _ post] exI [of _ r'] exI [of _ x]) simp
  qed
qed simp

lemma raised_fresh [simp]: "raised_at (mk_encode_error c msg) []"
  by (simp add: raised_at_def mk_encode_error_def)


context pathless_sink
begin

lemma refusal_fresh: "refusal eng a s = Inl x \<Longrightarrow> raised_at x []"
  by (cases a) (auto dest: emit_fresh)

text \<open>The error a play ends with is the bare error of the step that was refused, with the path of that step.\<close>

lemma failure_located:
  assumes "play eng t s = Inl e"
  shows "\<exists>pre p a post r x. t = pre @ (p, a) # post \<and> play eng pre s = Inr r \<and> refusal eng a r = Inl x \<and>
    ee_finalize e = x\<lparr>ee_steps := drop (length p - 16) p, ee_truncated := 16 < length p, ee_finalized := True\<rparr>"
proof -
  from play_fails [OF assms] obtain pre p a post r x where
    f: "t = pre @ (p, a) # post" "play eng pre s = Inr r" "refusal eng a r = Inl x" "e = foldr ee_push p x" by blast
  have x: "raised_at x []" by (rule refusal_fresh [OF f(3)])
  have "ee_finalize e = x\<lparr>ee_steps := drop (length p - 16) p, ee_truncated := 16 < length p, ee_finalized := True\<rparr>"
    using x unfolding f(4) pushed_path [OF x] by (simp add: ee_finalize_def raised_at_def max_path_steps_def rev_take)
  with f show ?thesis by blast
qed

end

section \<open>The trace is the serialisation\<close>

text \<open>The trace of a value that has an item makes the calls of that item (\<open>lower_value\<close>), in order, and throws nothing.\<close>

definition serialises :: "located list \<Rightarrow> aitem option \<Rightarrow> bool" where
  "serialises t x \<longleftrightarrow> (\<forall>y. x = Some y \<longrightarrow> map snd t = map Inl (acalls y))"

lemma snd_under [simp]: "map snd (under st t) = map snd t"
  by (simp add: under_def comp_def split_def)

lemma snd_here [simp]: "snd (here c) = Inl c"
  by (simp add: here_def)

lemma snd_array_trace: "map snd (array_trace h ts) = Inl (array_head h (length ts)) # concat (map (map snd) ts) @ [Inl c_end_array]"
proof -
  have "concat (map (map snd \<circ> (\<lambda>e. under (step_index (of_nat (fst e))) (snd e))) (enumerate n ts)) = concat (map (map snd) ts)" for n
    by (induction ts arbitrary: n) simp_all
  then show ?thesis by (simp add: array_trace_def map_concat)
qed

lemma snd_entries: "map snd (concat (map (\<lambda>(k, st, t). here k # under st t) es)) = concat (map (\<lambda>(k, st, t). Inl k # map snd t) es)"
  by (induction es) auto

lemma serialises_list:
  assumes "\<And>v. v \<in> set vs \<Longrightarrow> serialises (tr v) (low v)" "those (map low vs) = Some xs"
  shows "concat (map (map snd) (map tr vs)) = map Inl (concat (map acalls xs))"
  using assms by (induction vs arbitrary: xs) (auto simp: serialises_def split: option.splits)

lemma serialises_array:
  assumes "\<And>v. v \<in> set vs \<Longrightarrow> serialises (tr v) (low v)"
  shows "serialises (array_trace h (map tr vs)) (map_option (a_array h) (those (map low vs)))"
proof (cases "those (map low vs)")
  case (Some xs)
  have "length vs = length xs" using those_length [OF Some] by simp
  then show ?thesis using serialises_list [OF assms Some] Some by (simp add: serialises_def snd_array_trace del: map_map)
qed (simp add: serialises_def)

lemma serialises_entries:
  assumes "\<And>e. e \<in> set es \<Longrightarrow> serialises (tr e) (low e)"
    and "those (map (\<lambda>e. map_option (Pair (key e)) (low e)) es) = Some xs"
  shows "concat (map (\<lambda>(k, st, t). Inl k # map snd t) (map (\<lambda>e. (key e, st e, tr e)) es)) = map Inl (concat (map (\<lambda>(k, x). k # acalls x) xs))"
  using assms by (induction es arbitrary: xs) (auto simp: serialises_def split: option.splits)

lemma serialises_codec: "serialises (codec_trace run) (codec_item run)"
  by (auto simp: serialises_def codec_trace_def codec_item_def split: option.splits)

lemma serialises_enum: "serialises [([], enum_action eng F e sg v)] (enum_item eng F e sg v)"
proof -
  have ex: "list_ex ei_skipped xs \<longleftrightarrow> filter ei_skipped xs \<noteq> []" for xs
    by (auto simp: list_ex_iff filter_empty_conv)
  show ?thesis
    by (simp add: serialises_def enum_action_def enum_item_def Let_def ex split: list.split)
qed

lemma serialises_field:
  assumes "\<And>w. optional_of v = Some (Some w) \<Longrightarrow> serialises (trace_field eng F w) (lower_field_value eng F w)"
    and "optional_of v = None \<Longrightarrow>
      \<not> (ft_bulk_range (eng_traits eng) (fm_annotations F) (numeric_image v \<noteq> None) \<and> eng_range_hook eng) \<Longrightarrow>
      serialises (trace_value eng F v) (lower_value eng F v)"
  shows "serialises (trace_field eng F v) (lower_field_value eng F v)"
proof -
  have tagged: "acalls (tag_item ts x) = map c_tag ts @ acalls x" for ts x by (simp add: tag_item_def)
  consider "optional_of v = None" | "optional_of v = Some None" | w where "optional_of v = Some (Some w)"
    by (metis not_None_eq)
  then show ?thesis
  proof cases
    case 1
    then show ?thesis
      using assms(2) [OF 1] unfolding serialises_def
      by (auto simp: trace_field.simps [of eng F v] lower_field_value.simps [of eng F v] tagged)
  qed (use assms(1) in \<open>simp_all add: serialises_def trace_field.simps [of eng F v] lower_field_value.simps [of eng F v]\<close>)
qed

lemma serialises_struct:
  assumes "members_ok c vs"
    and "\<And>f m. ti_transparent (build_type_info c) \<Longrightarrow> f \<in> set (build_fields c) \<Longrightarrow> access f vs = Some m \<Longrightarrow>
      serialises (trace_value eng f m) (lower_value eng f m)"
    and "\<And>f m. \<not> ti_transparent (build_type_info c) \<Longrightarrow> f \<in> set (emitted eng c vs) \<Longrightarrow> access f vs = Some m \<Longrightarrow>
      serialises (trace_field eng f m) (lower_field_value eng f m)"
  shows "serialises (trace_struct eng c vs tk tv) (lower_struct eng c vs tk tv)"
proof (cases "ti_transparent (build_type_info c)")
  case True
  obtain f where f: "build_fields c = [f]"
    using transparent_single [OF _ True] assms(1) by (auto simp: members_ok_def length_Suc_conv)
  then show ?thesis
    using True assms(2) [of f] by (auto simp: serialises_def trace_struct.simps lower_struct.simps split: option.split)
next
  case False
  let ?low = "\<lambda>f. case access f vs of None \<Rightarrow> None | Some m \<Rightarrow> lower_field_value eng f m"
  let ?tr = "\<lambda>f. case access f vs of None \<Rightarrow> [] | Some m \<Rightarrow> trace_field eng f m"
  have "(case access f vs of None \<Rightarrow> None | Some m \<Rightarrow> map_option (Pair (key_item eng f)) (lower_field_value eng f m))
      = map_option (Pair (key_item eng f)) (?low f)" for f
    by (simp split: option.split)
  then have low: "lower_struct eng c vs tk tv
      = map_option (struct_item tk tv) (those (map (\<lambda>f. map_option (Pair (key_item eng f)) (?low f)) (emitted eng c vs)))"
    using False by (simp add: lower_struct.simps)
  show ?thesis
  proof (cases "those (map (\<lambda>f. map_option (Pair (key_item eng f)) (?low f)) (emitted eng c vs))")
    case None
    then show ?thesis by (simp add: serialises_def low)
  next
    case (Some es)
    have len: "length (emitted eng c vs) = length es" using those_length [OF Some] by simp
    have "concat (map (\<lambda>(k, st, t). Inl k # map snd t) (map (\<lambda>f. (key_item eng f, step_member (ident_of (fm_info f)), ?tr f)) (emitted eng c vs)))
        = map Inl (concat (map (\<lambda>(k, x). k # acalls x) es))"
      by (rule serialises_entries [OF _ Some])
        (use assms(3) [OF False] in \<open>auto simp: serialises_def split: option.split\<close>)
    then show ?thesis
      using False Some low
      by (cases "tk = []")
        (simp_all add: serialises_def trace_struct.simps Let_def map_trace_def snd_entries struct_item_def len del: map_map)
  qed
qed

lemma trace_serialises:
  "object_ok v \<Longrightarrow> serialises (trace_value eng F v) (lower_value eng F v)"
  "object_ok v \<Longrightarrow> serialises (trace_shape eng F v) (lower_shape eng F v)"
  "object_ok v \<Longrightarrow> serialises (trace_field eng F v) (lower_field_value eng F v)"
  "members_ok c vs \<Longrightarrow> serialises (trace_struct eng c vs tk tv) (lower_struct eng c vs tk tv)"
proof (induction eng F v and eng F v and eng F v and eng c vs tk tv
    rule: trace_value_trace_shape_trace_field_trace_struct.induct)
  case (1 eng F v)
  then show ?case using serialises_codec
    by (auto simp: trace_value.simps lower_value.simps split: option.split) (simp_all add: serialises_def)
next
  case (2 eng F sys ca run)
  then show ?case by (simp add: serialises_codec)
next
  case (8 eng F e sg v)
  then show ?case by (simp add: serialises_enum)
next
  case (11 eng F x)
  then show ?case by (cases x) (simp_all add: serialises_def)
next
  case (12 eng F x)
  consider "x = None" | name v where "x = Some (name, v)" "internally_tagged v = None"
    | name v c vs where "x = Some (name, v)" "internally_tagged v = Some (c, vs)"
    by (metis not_None_eq surj_pair)
  then show ?case
  proof cases
    case 2
    then have "serialises (trace_value eng no_field v) (lower_value eng no_field v)"
      using 12(1) [OF 2(1) refl 2(2)] 12(3) by simp
    then show ?thesis using 2 by (auto simp: serialises_def numeral_2_eq_2)
  next
    case 3
    have "members_ok c vs" using internally_tagged_ok [OF 3(2)] 12(3) 3(1) by simp
    then show ?thesis using 3 12(2) [OF 3(1) refl 3(2) refl] by simp
  qed (simp add: serialises_def)
next
  case (13 eng F byte_elems bs)
  have "concat (map (map snd) (map (\<lambda>b. [here (byte_call eng F b)]) bs)) = map Inl (concat (map acalls (map (\<lambda>b. a_leaf (byte_call eng F b)) bs)))"
    by (induction bs) simp_all
  then show ?case by (simp add: serialises_def snd_array_trace)
next
  case (14 eng F sized es)
  have "serialises (trace_value eng F (snd e)) (lower_value eng F (snd e))" if "e \<in> set es" for e
    using 14(1) [OF that] 14(2) that by (fastforce simp: list_all_iff)
  note entries = serialises_entries [where tr = "\<lambda>e. trace_value eng F (snd e)" and key = "\<lambda>e. key_call_of (fst e)"
      and st = "\<lambda>e. key_step_of (fst e)", OF this]
  show ?case
  proof (cases "those (map (\<lambda>e. map_option (Pair (key_call_of (fst e))) (lower_value eng F (snd e))) es)")
    case (Some xs)
    have "length es = length xs" using those_length [OF Some] by simp
    then show ?thesis using entries [OF _ Some] Some by (simp add: serialises_def map_trace_def snd_entries del: map_map)
  qed (simp add: serialises_def)
next
  case (15 eng F vs)
  then have "serialises (trace_value eng F v) (lower_value eng F v)" if "v \<in> set vs" for v
    using that by (simp add: list_all_iff)
  from serialises_array [OF this] show ?case by (simp add: option.map_comp)
next
  case (16 eng F sized im vs)
  then have "serialises (trace_value eng F v) (lower_value eng F v)" if "v \<in> set vs" for v
    using that by (simp add: list_all_iff)
  from serialises_array [OF this] show ?case by (simp add: option.map_comp)
next
  case (17 eng F c vs)
  then show ?case by (simp add: members_ok_def)
next
  case (18 eng F v)
  show ?case
    by (rule serialises_field [OF 18(2) [OF _ refl] 18(1)]) (use 18(3) optional_of_ok [of v] in simp_all)
next
  case (19 eng c vs tk tv)
  have "object_ok m" if "access f vs = Some m" for f m
    using access_ok [OF that] 19(3) by (simp add: members_ok_def)
  with 19 show ?case by (intro serialises_struct) simp_all
qed (simp_all add: serialises_def split: option.split)

end
