(* ===== verification/Encode_Formats.thy ===== *)
theory Encode_Formats
  imports Traverse_Paths Cbor_Encode Json_Write
begin

text \<open>
  The engine of \<^verbatim>\<open>core/traverse.hpp\<close> on the two sinks of the library: which hook of a sink a call of the engine
  reaches, the entry points \<^verbatim>\<open>encode\<close> and \<^verbatim>\<open>encode_append\<close> of \<^verbatim>\<open>cbor/write.hpp\<close> and \<^verbatim>\<open>json/write.hpp\<close> on values, and their
  end-to-end correctness: the octets and the text of a value are the reference encodings of the item the value
  stands for.
\<close>

section \<open>CBOR\<close>

fun float_width_of_ann :: "annotation \<Rightarrow> width option" where
  "float_width_of_ann (ann_float_width w) = Some w" | "float_width_of_ann _ = None"

text \<open>Neither writer has \<^verbatim>\<open>write_prepared\<close>, so \<open>c_write_prepared\<close> does not occur.\<close>

fun cbor_hook :: "ecall \<Rightarrow> sink_call" where
  "cbor_hook c_null = s_null"
| "cbor_hook (c_boolean b) = s_boolean b"
| "cbor_hook (c_uint anns u) = s_uint u"
| "cbor_hook (c_sint anns i) = s_sint i"
| "cbor_hook (c_real anns d) = (case find_annotation float_width_of_ann anns of Some w \<Rightarrow> s_real_width d w | None \<Rightarrow> s_real d)"
| "cbor_hook (c_text anns t) = s_text_field (has_annotation ann_indefinite anns) t"
| "cbor_hook (c_text_plain t) = s_text t"
| "cbor_hook (c_bytes anns b) = s_bytes_field (has_annotation ann_indefinite anns) b"
| "cbor_hook (c_begin_array anns n) = s_begin_array_field (has_annotation ann_indefinite anns) n"
| "cbor_hook (c_begin_array_plain n) = s_begin_array (Some n)"
| "cbor_hook c_end_array = s_end_array"
| "cbor_hook (c_begin_map anns n) = s_begin_map_field (has_annotation ann_indefinite anns) n"
| "cbor_hook (c_begin_map_plain n) = s_begin_map (Some n)"
| "cbor_hook (c_begin_map_ordered n) = s_begin_map_ordered (Some n)"
| "cbor_hook c_end_map = s_end_map"
| "cbor_hook (c_key_text k) = s_key_text k"
| "cbor_hook (c_key_uint k) = s_key_uint k"
| "cbor_hook (c_key_sint k) = s_key_sint k"
| "cbor_hook (c_prepared_name n) = s_prepared_text n"
| "cbor_hook (c_prepared_int k) = s_prepared_int (word_of_int k)"
| "cbor_hook (c_tag t) = s_tag t"
| "cbor_hook (c_write_range t raw) = s_write_range t raw"
| "cbor_hook (c_write_prepared img) = s_null"

text \<open>The codecs of \<^verbatim>\<open>with\<close> annotations and the comparison with default members are the user's.\<close>

definition cbor_engine ::
  "cbor_options \<Rightarrow> (string \<Rightarrow> field_meta \<Rightarrow> cval \<Rightarrow> codec_run) \<Rightarrow> (field_meta \<Rightarrow> cval \<Rightarrow> bool) \<Rightarrow> writer engine" where
  "cbor_engine opts codecs is_default =
     \<lparr>eng_emit = (\<lambda>c. sink_step opts (cbor_hook c)), eng_traits = cbor_format_traits, eng_with = codecs,
      eng_is_default = is_default, eng_range_hook = True, eng_prepared = (\<lambda>v. None)\<rparr>"

fun class_annotations :: "cval \<Rightarrow> annotation list" where
  "class_annotations (v_class c vs) = type_annotations_of c"
| "class_annotations (v_codec_for sys (Some anns) run) = anns"
| "class_annotations _ = []"

definition cbor_encode_append ::
  "cbor_options \<Rightarrow> (string \<Rightarrow> field_meta \<Rightarrow> cval \<Rightarrow> codec_run) \<Rightarrow> (field_meta \<Rightarrow> cval \<Rightarrow> bool) \<Rightarrow> cval \<Rightarrow> bytes \<Rightarrow> bytes encoded" where
  "cbor_encode_append opts codecs is_default v o0 =
     (let opts' = with_type_determinism_encode opts (has_annotation ann_deterministic (class_annotations v));
          o1 = (if o_self_describe opts' \<or> has_annotation ann_self_describe (class_annotations v)
                then append_head o0 major_tag self_describe_tag else o0)
      in case encode (cbor_engine opts' codecs is_default) v (new_writer o1) of Inl e \<Rightarrow> Inl e | Inr w \<Rightarrow> Inr (out w))"

definition cbor_encode ::
  "cbor_options \<Rightarrow> (string \<Rightarrow> field_meta \<Rightarrow> cval \<Rightarrow> codec_run) \<Rightarrow> (field_meta \<Rightarrow> cval \<Rightarrow> bool) \<Rightarrow> cval \<Rightarrow> bytes encoded" where
  "cbor_encode opts codecs is_default v = cbor_encode_append opts codecs is_default v []"

section \<open>JSON\<close>

text \<open>The JSON writer has no \<^verbatim>\<open>begin_map_ordered\<close>; it has neither \<^verbatim>\<open>write_range\<close> nor \<^verbatim>\<open>write_prepared\<close>,
  so \<open>c_write_range\<close> and \<open>c_write_prepared\<close> do not occur.\<close>

fun json_hook :: "ecall \<Rightarrow> jcall" where
  "json_hook c_null = JC_null"
| "json_hook (c_boolean b) = JC_boolean b"
| "json_hook (c_uint anns u) = JC_uint_field (has_annotation ann_as_string anns) u"
| "json_hook (c_sint anns i) = JC_sint_field (has_annotation ann_as_string anns) (sint i)"
| "json_hook (c_real anns d) = JC_real d"
| "json_hook (c_text anns t) = JC_text t"
| "json_hook (c_text_plain t) = JC_text t"
| "json_hook (c_bytes anns b) = JC_bytes (case find_annotation json_bytes_of_ann anns of Some e \<Rightarrow> e | None \<Rightarrow> enc_base64) b"
| "json_hook (c_begin_array anns n) = JC_begin_array"
| "json_hook (c_begin_array_plain n) = JC_begin_array"
| "json_hook c_end_array = JC_end_array"
| "json_hook (c_begin_map anns n) = JC_begin_map"
| "json_hook (c_begin_map_plain n) = JC_begin_map"
| "json_hook (c_begin_map_ordered n) = JC_begin_map"
| "json_hook c_end_map = JC_end_map"
| "json_hook (c_key_text k) = JC_key k"
| "json_hook (c_key_uint k) = JC_key_uint k"
| "json_hook (c_key_sint k) = JC_key_sint (sint k)"
| "json_hook (c_prepared_name n) = JC_prepared_key n"
| "json_hook (c_prepared_int k) = JC_key_sint k"
| "json_hook (c_tag t) = JC_tag t"
| "json_hook (c_write_range t raw) = JC_null"
| "json_hook (c_write_prepared img) = JC_null"

definition json_engine ::
  "json_options \<Rightarrow> (string \<Rightarrow> field_meta \<Rightarrow> cval \<Rightarrow> codec_run) \<Rightarrow> (field_meta \<Rightarrow> cval \<Rightarrow> bool) \<Rightarrow> jwriter engine" where
  "json_engine opts codecs is_default =
     \<lparr>eng_emit = (\<lambda>c. jsink_step opts (json_hook c)), eng_traits = json_format_traits, eng_with = codecs,
      eng_is_default = is_default, eng_range_hook = False, eng_prepared = (\<lambda>v. None)\<rparr>"

definition json_encode_append_value ::
  "json_options \<Rightarrow> (string \<Rightarrow> field_meta \<Rightarrow> cval \<Rightarrow> codec_run) \<Rightarrow> (field_meta \<Rightarrow> cval \<Rightarrow> bool) \<Rightarrow> cval \<Rightarrow> string \<Rightarrow> string encoded" where
  "json_encode_append_value opts codecs is_default v o0 =
     (case encode (json_engine opts codecs is_default) v (new_jwriter opts o0) of Inl e \<Rightarrow> Inl e | Inr w \<Rightarrow> Inr (jw_out w))"

lemma no_prepared [simp]:
  "prepared_image (cbor_engine copts codecs is_default) v = None"
  "prepared_image (json_engine jopts codecs is_default) v = None"
  by (simp_all add: prepared_image_def cbor_engine_def json_engine_def split: cval.split)

section \<open>Items of the two formats\<close>

definition cbor_sint :: "u64 \<Rightarrow> citem" where
  "cbor_sint i = (if 0 \<le> sint i then CUint i else CNint (- 1 - i))"

text \<open>Values with pinned float widths or indefinite lengths have encodings of their own, which the writer's lemmas
  describe; a member name that is written prepared is a text key if it is valid UTF-8 or not checked.\<close>

definition chunked :: "cbor_options \<Rightarrow> annotation list \<Rightarrow> bool" where
  "chunked opts anns \<longleftrightarrow> has_annotation ann_indefinite anns \<and> \<not> o_deterministic opts"

fun cbor_leaf :: "cbor_options \<Rightarrow> ecall \<Rightarrow> citem option" where
  "cbor_leaf opts c_null = Some CNull"
| "cbor_leaf opts (c_boolean b) = Some (CBool b)"
| "cbor_leaf opts (c_uint anns u) = Some (CUint u)"
| "cbor_leaf opts (c_sint anns i) = Some (cbor_sint i)"
| "cbor_leaf opts (c_real anns d) = (if find_annotation float_width_of_ann anns = None then Some (CReal d) else None)"
| "cbor_leaf opts (c_text anns t) = (if chunked opts anns then None else Some (CText t))"
| "cbor_leaf opts (c_text_plain t) = Some (CText t)"
| "cbor_leaf opts (c_bytes anns b) = (if chunked opts anns then None else Some (CBytes b))"
| "cbor_leaf opts (c_write_range t raw) = Some (CTag t (CBytes raw))"
| "cbor_leaf opts _ = None"

fun cbor_key :: "cbor_options \<Rightarrow> ecall \<Rightarrow> citem option" where
  "cbor_key opts (c_key_text k) = Some (CText k)"
| "cbor_key opts (c_key_uint k) = Some (CUint k)"
| "cbor_key opts (c_key_sint k) = Some (cbor_sint k)"
| "cbor_key opts (c_prepared_name n) = (if check_utf8 opts n () = Inr () then Some (CText n) else None)"
| "cbor_key opts (c_prepared_int k) = Some (cbor_sint (word_of_int k))"
| "cbor_key opts _ = None"

fun cbor_form :: "cbor_options \<Rightarrow> map_form \<Rightarrow> map_kind option" where
  "cbor_form opts (mf_field anns sized) = (if chunked opts anns then None else Some (if sized then map_sized else map_unsized))"
| "cbor_form opts mf_plain = Some map_sized"
| "cbor_form opts mf_ordered = Some map_ordered"

fun cbor_array :: "cbor_options \<Rightarrow> (annotation list \<times> bool) option \<Rightarrow> bool option" where
  "cbor_array opts None = Some True"
| "cbor_array opts (Some (anns, sized)) = (if chunked opts anns then None else Some sized)"

definition pair_option :: "'a option \<Rightarrow> 'b option \<Rightarrow> ('a \<times> 'b) option" where
  "pair_option a b = (case a of Some x \<Rightarrow> map_option (Pair x) b | None \<Rightarrow> None)"

fun cbor_item :: "cbor_options \<Rightarrow> aitem \<Rightarrow> citem option" where
  "cbor_item opts (a_leaf c) = cbor_leaf opts c"
| "cbor_item opts (a_calls cs) = None"
| "cbor_item opts (a_tagged ts x) = map_option (foldr CTag ts) (cbor_item opts x)"
| "cbor_item opts (a_array h xs) =
     (case cbor_array opts h of None \<Rightarrow> None | Some sized \<Rightarrow> map_option (CArray sized) (those (map (cbor_item opts) xs)))"
| "cbor_item opts (a_map m es) =
     (case cbor_form opts m of None \<Rightarrow> None
      | Some kd \<Rightarrow> map_option (CMap kd) (those (map (\<lambda>(k, x). pair_option (cbor_key opts k) (cbor_item opts x)) es)))"

fun json_leaf :: "ecall \<Rightarrow> jitem option" where
  "json_leaf c_null = Some JI_null"
| "json_leaf (c_boolean b) = Some (JI_bool b)"
| "json_leaf (c_uint anns u) = Some (JI_uint (has_annotation ann_as_string anns) u)"
| "json_leaf (c_sint anns i) = Some (JI_sint (has_annotation ann_as_string anns) (sint i))"
| "json_leaf (c_real anns d) = Some (JI_real d)"
| "json_leaf (c_text anns t) = Some (JI_text t)"
| "json_leaf (c_text_plain t) = Some (JI_text t)"
| "json_leaf (c_bytes anns b) = Some (JI_bytes (case find_annotation json_bytes_of_ann anns of Some e \<Rightarrow> e | None \<Rightarrow> enc_base64) b)"
| "json_leaf _ = None"

fun json_key :: "ecall \<Rightarrow> jkey option" where
  "json_key (c_key_text k) = Some (JK_text k)"
| "json_key (c_key_uint k) = Some (JK_uint k)"
| "json_key (c_key_sint k) = Some (JK_sint (sint k))"
| "json_key (c_prepared_name n) = Some (JK_prepared n)"
| "json_key (c_prepared_int k) = Some (JK_sint k)"
| "json_key _ = None"

fun json_item :: "aitem \<Rightarrow> jitem option" where
  "json_item (a_leaf c) = json_leaf c"
| "json_item (a_calls cs) = None"
| "json_item (a_tagged ts x) = map_option (foldr JI_tag ts) (json_item x)"
| "json_item (a_array h xs) = map_option JI_array (those (map json_item xs))"
| "json_item (a_map m es) = map_option JI_object (those (map (\<lambda>(k, x). pair_option (json_key k) (json_item x)) es))"

section \<open>The engines satisfy the laws\<close>

interpretation json_order: member_ordering "json_engine opts codecs is_default" for opts codecs is_default
  by unfold_locales (simp add: json_engine_def json_format_traits_def format_traits_defaults_def)

interpretation cbor_order: member_ordering "cbor_engine opts codecs is_default" for opts codecs is_default
  by unfold_locales (simp add: cbor_engine_def cbor_format_traits_def member_order_permutes)

lemma check_utf8_fresh: "check_utf8 opts t x = Inl e \<Longrightarrow> raised_at e []"
  by (auto simp: check_utf8_def split: option.splits if_splits)

lemma write_real_fresh: "write_real d w = Inl e \<Longrightarrow> raised_at e []"
  by (auto simp: write_real_def split: width.splits if_splits option.splits)

lemma open_container_fresh: "open_container opts m n mp w = Inl e \<Longrightarrow> raised_at e []"
  by (auto simp: open_container_def depth_throw_def Let_def split: if_splits option.splits)

lemma close_fresh: "close w = Inl e \<Longrightarrow> raised_at e []"
  by (auto simp: close_def duplicate_throw_def Let_def split: if_splits list.splits)

lemma sink_step_fresh: "sink_step opts c w = Inl e \<Longrightarrow> raised_at e []"
  by (cases "(opts, c, w)" rule: sink_step.cases)
    (auto simp: w_text_def w_text_field_def w_begin_map_ordered_def w_key_text_def w_simple_def depth_throw_def Let_def
      dest: check_utf8_fresh write_real_fresh open_container_fresh close_fresh
      split: sum.splits if_splits option.splits)

lemma jsink_step_fresh: "jsink_step opts c w = Inl e \<Longrightarrow> raised_at e []"
  by (cases "(opts, c, w)" rule: jsink_step.cases)
    (auto simp: jw_string_def jw_open_def jw_key_text_def json_depth_error_def write_string_def Let_def
      split: sum.splits if_splits option.splits)

interpretation json_paths: pathless_sink "json_engine opts codecs is_default" for opts codecs is_default
  by unfold_locales (simp add: json_engine_def jsink_step_fresh)

interpretation cbor_paths: pathless_sink "cbor_engine opts codecs is_default" for opts codecs is_default
  by unfold_locales (simp add: cbor_engine_def sink_step_fresh)

section \<open>The calls of an item\<close>

lemma emit_all_json: "emit_all (json_engine opts cd df) cs w = run_jsink opts (map json_hook cs) w"
  by (induction cs arbitrary: w) (auto simp: json_engine_def ebind_def split: sum.split)

lemma emit_all_cbor: "emit_all (cbor_engine opts cd df) cs w = run_sink opts (map cbor_hook cs) w"
  by (induction cs arbitrary: w) (auto simp: cbor_engine_def ebind_def split: sum.split)

lemma json_tags: "jcalls (foldr JI_tag ts y) = map JC_tag ts @ jcalls y"
  by (induction ts) auto

lemma json_array_head [simp]: "json_hook (array_head h n) = JC_begin_array"
  by (cases "(h, n)" rule: array_head.cases) auto

lemma json_map_head [simp]: "json_hook (map_head m n) = JC_begin_map"
  by (cases m) auto

lemma json_leaf_calls: "json_leaf c = Some y \<Longrightarrow> jcalls y = [json_hook c]"
  by (cases c) auto

lemma json_key_call: "json_key k = Some ky \<Longrightarrow> key_call ky = json_hook k"
  by (cases k) auto

lemma json_list_calls:
  assumes "\<And>x y. x \<in> set xs \<Longrightarrow> json_item x = Some y \<Longrightarrow> map json_hook (acalls x) = jcalls y"
    and "those (map json_item xs) = Some ys"
  shows "map json_hook (concat (map acalls xs)) = jcalls_list ys"
  using assms by (induction xs arbitrary: ys) (auto split: option.splits)

lemma json_entry_calls:
  assumes "\<And>k x y. (k, x) \<in> set es \<Longrightarrow> json_item x = Some y \<Longrightarrow> map json_hook (acalls x) = jcalls y"
    and "those (map (\<lambda>(k, x). pair_option (json_key k) (json_item x)) es) = Some ys"
  shows "map json_hook (concat (map (\<lambda>(k, x). k # acalls x) es)) = jcalls_entries ys"
  using assms by (induction es arbitrary: ys) (fastforce simp: pair_option_def json_key_call split: option.splits)+

lemma json_item_calls: "json_item x = Some y \<Longrightarrow> map json_hook (acalls x) = jcalls y"
proof (induction x arbitrary: y rule: acalls.induct)
  case (1 c)
  then show ?case by (simp add: json_leaf_calls)
next
  case (3 ts x)
  then show ?case by (auto simp: json_tags comp_def)
next
  case (4 h xs)
  then show ?case using json_list_calls [of xs] by auto
next
  case (5 m es)
  then show ?case using json_entry_calls [of es] by auto
qed simp


definition same_run :: "cbor_options \<Rightarrow> sink_call list \<Rightarrow> sink_call list \<Rightarrow> bool" where
  "same_run opts cs ds \<longleftrightarrow> (\<forall>w. run_sink opts cs w = run_sink opts ds w)"

lemma same_refl: "same_run opts cs cs"
  by (simp add: same_run_def)

lemma same_append: "same_run opts cs ds \<Longrightarrow> same_run opts cs' ds' \<Longrightarrow> same_run opts (cs @ cs') (ds @ ds')"
  by (simp add: same_run_def run_sink_append split: sum.split)

lemma same_Cons: "same_run opts [c] ds \<Longrightarrow> same_run opts cs ds' \<Longrightarrow> same_run opts (c # cs) (ds @ ds')"
  using same_append [of opts "[c]" ds cs ds'] by simp

lemma w_sint_cbor: "calls_of (cbor_sint i) = [if 0 \<le> sint i then s_uint i else s_negative (- 1 - i)]"
  by (simp add: cbor_sint_def)

lemma cbor_leaf_run: "cbor_leaf opts c = Some y \<Longrightarrow> same_run opts [cbor_hook c] (calls_of y)"
  by (cases c) (auto simp: same_run_def w_sint_cbor w_sint_def w_text_field_def w_bytes_field_def w_write_range_def w_bytes_def
      chunked_def split: if_splits option.splits)

lemma cbor_key_run:
  assumes "cbor_key opts k = Some ky"
  shows "same_run opts [cbor_hook k] (key_calls ky)"
  using assms
  by (cases k) (auto simp: same_run_def key_calls_def w_sint_def cbor_sint_def prepared_key_def encode_text_key_def encode_int_key_def
      w_key_text_def bytes_of_string_def split: if_splits sum.splits)

lemma cbor_array_head:
  "cbor_array opts h = Some sized \<Longrightarrow>
     same_run opts [cbor_hook (array_head h n)] [s_begin_array (if sized then Some n else None)]"
  by (cases "(h, n)" rule: array_head.cases) (auto simp: same_run_def chunked_def split: if_splits)

lemma cbor_map_head:
  "cbor_form opts m = Some kd \<Longrightarrow> same_run opts [cbor_hook (map_head m n)] [begin_map_call kd n]"
  by (cases m) (auto simp: same_run_def chunked_def split: if_splits)

lemma cbor_tag_calls: "calls_of (foldr CTag ts y) = map s_tag ts @ calls_of y"
  by (induction ts) auto

lemma cbor_list_run:
  assumes "\<And>x y. x \<in> set xs \<Longrightarrow> cbor_item opts x = Some y \<Longrightarrow> same_run opts (map cbor_hook (acalls x)) (calls_of y)"
    and "those (map (cbor_item opts) xs) = Some ys"
  shows "same_run opts (map cbor_hook (concat (map acalls xs))) (calls_list ys) \<and> length ys = length xs"
  using assms by (induction xs arbitrary: ys) (auto simp: same_refl same_append split: option.splits)

lemma cbor_entries_run:
  assumes "\<And>k x y. (k, x) \<in> set es \<Longrightarrow> cbor_item opts x = Some y \<Longrightarrow> same_run opts (map cbor_hook (acalls x)) (calls_of y)"
    and "those (map (\<lambda>(k, x). pair_option (cbor_key opts k) (cbor_item opts x)) es) = Some ys"
  shows "same_run opts (map cbor_hook (concat (map (\<lambda>(k, x). k # acalls x) es))) (calls_entries ys) \<and> length ys = length es"
  using assms
proof (induction es arbitrary: ys)
  case Nil
  then show ?case by (simp add: same_refl)
next
  case (Cons e es)
  obtain k x where e: "e = (k, x)" by force
  with Cons.prems(2) obtain ky y zs where parts: "cbor_key opts k = Some ky" "cbor_item opts x = Some y"
    "those (map (\<lambda>(k, x). pair_option (cbor_key opts k) (cbor_item opts x)) es) = Some zs" "ys = (ky, y) # zs"
    by (auto simp: pair_option_def split: option.splits)
  have IH: "same_run opts (map cbor_hook (concat (map (\<lambda>(k, x). k # acalls x) es))) (calls_entries zs) \<and> length zs = length es"
    by (rule Cons.IH [OF _ parts(3)]) (use Cons.prems(1) in auto)
  have "same_run opts (map cbor_hook (acalls x)) (calls_of y)" by (rule Cons.prems(1) [of k x]) (simp_all add: e parts)
  from same_Cons [OF cbor_key_run [OF parts(1)] same_append [OF this conjunct1 [OF IH]]] IH
  show ?case by (simp add: e parts(4) key_calls_def)
qed

lemma cbor_item_run: "cbor_item opts x = Some y \<Longrightarrow> same_run opts (map cbor_hook (acalls x)) (calls_of y)"
proof (induction x arbitrary: y rule: acalls.induct)
  case (1 c)
  then show ?case by (simp add: cbor_leaf_run)
next
  case (3 ts x)
  then show ?case by (auto simp: cbor_tag_calls comp_def intro!: same_append same_refl)
next
  case (4 h xs)
  then obtain sized ys where h: "cbor_array opts h = Some sized" "those (map (cbor_item opts) xs) = Some ys" "y = CArray sized ys"
    by (auto split: option.splits)
  have xs: "same_run opts (map cbor_hook (concat (map acalls xs))) (calls_list ys) \<and> length ys = length xs"
    by (rule cbor_list_run [OF _ h(2)]) (use 4(1) in blast)
  from same_Cons [OF cbor_array_head [OF h(1), of "length xs"] same_append [OF conjunct1 [OF xs] same_refl [of opts "[s_end_array]"]]] xs
  show ?case by (cases sized) (simp_all add: h(3))
next
  case (5 m es)
  then obtain kd ys where m: "cbor_form opts m = Some kd" "y = CMap kd ys"
    "those (map (\<lambda>(k, x). pair_option (cbor_key opts k) (cbor_item opts x)) es) = Some ys"
    by (auto split: option.splits)
  have es: "same_run opts (map cbor_hook (concat (map (\<lambda>(k, x). k # acalls x) es))) (calls_entries ys) \<and> length ys = length es"
    by (rule cbor_entries_run [OF _ m(3)]) (use 5(1) in blast)
  from same_Cons [OF cbor_map_head [OF m(1), of "length es"] same_append [OF conjunct1 [OF es] same_refl [of opts "[s_end_map]"]]] es
  show ?case by (simp add: m(2))
qed simp

section \<open>End to end\<close>

definition det_options :: "cbor_options \<Rightarrow> cval \<Rightarrow> cbor_options" where
  "det_options opts v = with_type_determinism_encode opts (has_annotation ann_deterministic (class_annotations v))"

lemma strip_case: "strip_path (case r of Inl e \<Rightarrow> Inl e | Inr w \<Rightarrow> Inr (f w)) = (case strip_path r of Inl e \<Rightarrow> Inl e | Inr w \<Rightarrow> Inr (f w))"
  by (cases r) (simp_all add: strip_path_def)

lemma strip_encode: "strip_path (encode eng v s) = strip_path (encode_field_value eng no_field v s)"
  by (simp add: encode_def strip_path_def ee_finalize_def split: sum.split)

lemma encode_item:
  assumes "member_ordering eng" "object_ok v" "lower_field_value eng no_field v = Some x"
  shows "strip_path (encode eng v s) = strip_path (emit_all eng (acalls x) s)"
  using engine_agrees(3) [OF assms(1,2), of no_field] assms(3) by (simp add: agrees_def strip_encode)

text \<open>Appending a value, under the options its type demands.\<close>

lemma cbor_append_item:
  assumes "object_ok v"
    and "lower_field_value (cbor_engine (det_options opts v) codecs is_default) no_field v = Some x"
    and "cbor_item (det_options opts v) x = Some y"
  shows "strip_path (cbor_encode_append opts codecs is_default v o0) =
    strip_path (case enc (det_options opts v) 0 y of Inl e \<Rightarrow> Inl e
      | Inr bs \<Rightarrow> Inr (o0 @ (if o_self_describe opts \<or> has_annotation ann_self_describe (class_annotations v)
                         then [0xD9, 0xD9, 0xF7] else []) @ bs))"
proof -
  let ?opts = "det_options opts v"
  let ?eng = "cbor_engine ?opts codecs is_default"
  have tag: "make_head major_tag self_describe_tag = [0xD9, 0xD9, 0xF7]" by code_simp
  have sd: "o_self_describe ?opts = o_self_describe opts"
    by (simp add: det_options_def with_type_determinism_encode_def)
  have "strip_path (encode ?eng v (new_writer o1)) = strip_path (run_sink ?opts (calls_of y) (new_writer o1))" for o1
    using encode_item [OF cbor_order.member_ordering_axioms assms(1,2)] cbor_item_run [OF assms(3)]
    by (simp add: emit_all_cbor same_run_def)
  moreover have "run_sink ?opts (calls_of y) (new_writer o1) =
      (case enc ?opts 0 y of Inl e \<Rightarrow> Inl e | Inr bs \<Rightarrow> Inr (emit bs (new_writer o1)))" for o1
  proof -
    have "frames (new_writer o1) = []" by (simp add: new_writer_def)
    then show ?thesis using refines_all(1) [of ?opts y] by (simp add: refines_def)
  qed
  moreover have "out (emit bs (new_writer o1)) = o1 @ bs" for bs o1
    by (simp add: emit_def new_writer_def item_def append_def)
  ultimately show ?thesis
    unfolding cbor_encode_append_def det_options_def [symmetric] Let_def strip_case
    by (cases "enc ?opts 0 y") (simp_all add: sd append_head_def tag strip_path_def)
qed

text \<open>C2. CBOR end to end: a value whose item has a plain CBOR form is encoded as the reference encoder encodes that
  item, after what the output held and the self-describe tag, where the options or the type ask for one, under the
  determinism the type demands; where the reference fails, so does the encoder, with the same code and message.\<close>

theorem cbor_encode_value_correct:
  assumes "object_ok v"
    and "lower_field_value (cbor_engine (det_options opts v) codecs is_default) no_field v = Some x"
    and "cbor_item (det_options opts v) x = Some y"
  shows "strip_path (cbor_encode_append opts codecs is_default v o0) =
    strip_path (case enc (det_options opts v) 0 y of Inl e \<Rightarrow> Inl e
      | Inr bs \<Rightarrow> Inr (o0 @ (if o_self_describe opts \<or> has_annotation ann_self_describe (class_annotations v)
                         then [0xD9, 0xD9, 0xF7] else []) @ bs))"
  using assms by (rule cbor_append_item)

text \<open>C3. JSON end to end: the text of a value, compact or pretty, is the reference text of the item it stands for,
  appended to what the output held; where the reference fails, so does the encoder, with the same code and
  message.\<close>

theorem json_encode_value_correct:
  assumes "object_ok v"
    and "lower_field_value (json_engine opts codecs is_default) no_field v = Some x"
    and "json_item x = Some y"
  shows "strip_path (json_encode_append_value opts codecs is_default v o0) =
    strip_path (case jtext opts 0 y of Inl e \<Rightarrow> Inl e | Inr t \<Rightarrow> Inr (o0 @ t))"
proof -
  let ?eng = "json_engine opts codecs is_default"
  have "strip_path (encode ?eng v (new_jwriter opts o0)) = strip_path (run_jsink opts (jcalls y) (new_jwriter opts o0))"
    using encode_item [OF json_order.member_ordering_axioms assms(1,2)] json_item_calls [OF assms(3)]
    by (simp add: emit_all_json)
  moreover have "writes opts (jcalls y) (jtext opts 0 y) False (new_jwriter opts o0)"
    using writes_all(1) [where w = "new_jwriter opts o0" and opts = opts and d = 0 and x = y, OF new_jwriter_ok(1,2)]
      new_jwriter_ok(4) [of opts o0]
    by (cases "jtext opts 0 y") simp_all
  ultimately show ?thesis
    unfolding json_encode_append_value_def strip_case
    by (cases "jtext opts 0 y") (auto simp: writes_def wrote_def new_jwriter_ok strip_path_def)
qed


definition key_bytes :: "ecall \<Rightarrow> bytes" where
  "key_bytes k = (case k of c_prepared_int i \<Rightarrow> encode_int_key (word_of_int i) | c_prepared_name n \<Rightarrow> encode_text_key n | _ \<Rightarrow> [])"

lemma member_item_keys: "those (map (member_item eng vs) fs) = Some es \<Longrightarrow> map fst es = map (key_item eng) fs"
  by (induction fs arbitrary: es) (auto simp: member_item_def split: option.splits)

text \<open>C9. Structs are canonical: whatever members a struct leaves out, the keys of those it emits are in the bytewise
  order of their encodings, so the writer may take them as they come under deterministic encoding.\<close>

theorem struct_keys_canonical:
  assumes "\<not> ti_transparent (build_type_info c)"
    and "lower_struct (cbor_engine opts codecs is_default) c vs [] [] = Some (a_map mf_ordered es)"
  shows "sorted (map (key_bytes \<circ> fst) es)"
proof -
  let ?eng = "cbor_engine opts codecs is_default"
  have traits: "ft_integer_key (eng_traits ?eng) = cbor_integer_key" "ft_member_order (eng_traits ?eng) = member_order"
    by (simp_all add: cbor_engine_def cbor_format_traits_def)
  have "those (map (member_item ?eng vs) (emitted ?eng c vs)) = Some es"
    using assms by (auto simp: lower_struct.simps member_item_def [abs_def] struct_item_def)
  then have "map key_bytes (map fst es) = map key_bytes (map (key_item ?eng) (emitted ?eng c vs))"
    by (simp only: member_item_keys)
  moreover have "key_bytes (key_item ?eng f) = member_key f" for f
    by (simp add: key_item_def traits key_bytes_def member_key_def split: option.split)
  ultimately have "map (key_bytes \<circ> fst) es = map member_key (emitted ?eng c vs)" by simp
  moreover have "sorted (map member_key (map ((!) (build_fields c)) (member_order (build_fields c))))"
    using member_order_sorted [of c] by (simp add: comp_def)
  ultimately show ?thesis
    unfolding emitted_eq traits by (simp only: sorted_filter)
qed

section \<open>The engine on any sink\<close>

text \<open>C1. The engine refines the model: for every object and every sink, the calls \<^verbatim>\<open>encode\<close> makes are the
  serialisation of the item the value stands for, with every announced count exact, whatever members were skipped,
  or end as that serialisation does when the sink throws. A value without an item, one with a skipped or unknown
  enumerator, a valueless variant or a throwing codec, is always refused.\<close>

theorem encode_refines_model:
  assumes "\<And>c. mset (ft_member_order (eng_traits eng) (build_fields c)) = mset [0..<length (build_fields c)]"
    and "object_ok v"
  shows "case lower_field_value eng no_field v of
      Some x \<Rightarrow> strip_path (encode eng v s) = strip_path (emit_all eng (acalls x) s)
    | None \<Rightarrow> isl (encode eng v s)"
proof -
  have "strip_path (encode eng v s) = strip_path (encode_field_value eng no_field v s)"
    by (simp add: encode_def strip_path_def ee_finalize_def split: sum.split)
  moreover have "isl (encode eng v s) = isl (encode_field_value eng no_field v s)"
    by (simp add: encode_def split: sum.split)
  moreover have "agrees eng (encode_field_value eng no_field v) (map_option acalls (lower_field_value eng no_field v))"
    using assms by (intro engine_agrees(3)) (simp_all add: member_ordering_def)
  ultimately show ?thesis by (cases "lower_field_value eng no_field v") (simp_all add: agrees_def)
qed

text \<open>C8. An encoding failure is located: it is the failure of one step, a call the sink refuses or an exception the
  engine or a codec throws, after every step before it was taken; the error is that step's own error, and its path
  is the path, root first, of the value that makes the step, cut to its innermost 16 steps, with the truncation flag
  saying exactly whether it was cut. This for every object and every sink whose errors carry no path of their own.\<close>

theorem encode_error_path:
  assumes "\<And>c. mset (ft_member_order (eng_traits eng) (build_fields c)) = mset [0..<length (build_fields c)]"
    and "\<And>c s e. eng_emit eng c s = Inl e \<Longrightarrow> ee_steps e = [] \<and> \<not> ee_truncated e \<and> \<not> ee_finalized e"
    and "object_ok v" "encode eng v s = Inl e"
  shows "\<exists>before p a after r x w. trace_field eng no_field v = before @ (p, a) # after \<and> play eng before s = Inr r
    \<and> refusal eng a r = Inl x \<and> stands v p w \<and> own_step eng w a
    \<and> e = x\<lparr>ee_steps := drop (length p - 16) p, ee_truncated := 16 < length p, ee_finalized := True\<rparr>"
proof -
  have order: "member_ordering eng" using assms(1) by unfold_locales
  have sink: "pathless_sink eng" using assms(2) by unfold_locales (simp add: raised_at_def)
  obtain e0 where e0: "encode_field_value eng no_field v s = Inl e0" "e = ee_finalize e0"
    using assms(4) by (auto simp: encode_def split: sum.splits)
  then have "play eng (trace_field eng no_field v) s = Inl e0"
    using engine_plays(3) [OF order assms(3)] by simp
  from pathless_sink.failure_located [OF sink this] obtain before p a after r x where
    f: "trace_field eng no_field v = before @ (p, a) # after" "play eng before s = Inr r" "refusal eng a r = Inl x"
      "e = x\<lparr>ee_steps := drop (length p - 16) p, ee_truncated := 16 < length p, ee_finalized := True\<rparr>"
    unfolding e0(2) by blast
  have "located_in eng v (p, a)" by (rule trace_located(3) [OF order, where F = no_field]) (simp add: f(1))
  then obtain w where "stands v p w" "own_step eng w a" by (auto simp: located_in_def)
  with f show ?thesis by blast
qed

text \<open>An empty discriminator key is not rejected anywhere, and \<^verbatim>\<open>encode_struct\<close> takes an empty key for "no key": a
  struct alternative of a variant tagged \<^verbatim>\<open>[[=vcodec::tag("")]]\<close> is written without its discriminator, exactly like
  the struct outside a variant.\<close>

theorem empty_tag_drops_discriminator:
  assumes "\<not> ti_transparent (build_type_info c)" "tag_key (fm_info F) = []"
  shows "encode_shape eng F (v_variant (Some (name, v_class c vs))) s = encode_shape eng F (v_class c vs) s"
  using assms by (simp add: encode_variant.simps internally_tagged_def encode_struct.simps)

section \<open>A value\<close>

text \<open>An object with an absent member and members out of canonical order, on which the properties apply.\<close>

definition reading :: rclass where
  "reading = RClass ''R'' [] [] [] [] [RMember (Some ''xs'') [] (rt_other ''std::vector<int>'') False,
     RMember (Some ''n'') [ann_skip_if_null] (rt_optional_like ''std::optional<std::string>'') False,
     RMember (Some ''id'') [] (rt_other ''std::uint64_t'') False]"

definition reading_value :: cval where
  "reading_value = v_class reading [v_sequence True None [v_sint (- 1)], v_optional None, v_uint 7]"

definition no_codec :: "string \<Rightarrow> field_meta \<Rightarrow> cval \<Rightarrow> codec_run" where
  "no_codec c F v = ([], None)"

definition never_default :: "field_meta \<Rightarrow> cval \<Rightarrow> bool" where
  "never_default f v = False"

definition reading_item :: aitem where
  "reading_item = a_map mf_ordered [(c_prepared_name ''id'', a_leaf (c_uint [] 7)),
     (c_prepared_name ''xs'', a_array (Some ([], True)) [a_leaf (c_sint [] (- 1))])]"

lemma reading_lowered:
  "object_ok reading_value"
  "lower_field_value (cbor_engine default_options no_codec never_default) no_field reading_value = Some reading_item"
  "det_options default_options reading_value = default_options"
  by code_simp+

theorem cbor_encode_value_correct_witness:
  "strip_path (cbor_encode_append default_options no_codec never_default reading_value [])
   = Inr ([0xA2, 0x62, 0x69, 0x64, 0x07, 0x62, 0x78, 0x73, 0x81, 0x20])"
proof -
  let ?y = "CMap map_ordered [(CText ''id'', CUint 7), (CText ''xs'', CArray True [CNint 0])]"
  have y: "cbor_item default_options reading_item = Some ?y" by code_simp
  have e: "enc default_options 0 ?y = Inr [0xA2, 0x62, 0x69, 0x64, 0x07, 0x62, 0x78, 0x73, 0x81, 0x20]"
    by code_simp
  have a: "\<not> (o_self_describe default_options \<or> has_annotation ann_self_describe (class_annotations reading_value))" by code_simp
  show ?thesis
    using cbor_encode_value_correct [of reading_value default_options no_codec never_default reading_item ?y "[]"] reading_lowered y
    by (simp only: reading_lowered(3) e a if_False) (simp add: strip_path_def)
qed

theorem json_encode_value_correct_witness:
  "strip_path (json_encode_append_value json_defaults no_codec never_default reading_value [])
   = Inr (''{'' @ [CHR 0x22] @ ''xs'' @ [CHR 0x22] @ '':[-1],'' @ [CHR 0x22] @ ''id'' @ [CHR 0x22] @ '':7}'')"
proof -
  let ?x = "a_map mf_ordered [(c_prepared_name ''xs'', a_array (Some ([], True)) [a_leaf (c_sint [] (- 1))]),
     (c_prepared_name ''id'', a_leaf (c_uint [] 7))]"
  let ?y = "JI_object [(JK_prepared ''xs'', JI_array [JI_sint False (- 1)]), (JK_prepared ''id'', JI_uint False 7)]"
  have x: "lower_field_value (json_engine json_defaults no_codec never_default) no_field reading_value = Some ?x" by code_simp
  have y: "json_item ?x = Some ?y" by code_simp
  have t: "jtext json_defaults 0 ?y
      = Inr (''{'' @ [CHR 0x22] @ ''xs'' @ [CHR 0x22] @ '':[-1],'' @ [CHR 0x22] @ ''id'' @ [CHR 0x22] @ '':7}'')" by code_simp
  from json_encode_value_correct [OF reading_lowered(1) x y, of "[]"] show ?thesis
    by (simp only: t) (simp add: strip_path_def)
qed

theorem struct_keys_canonical_witness:
  "sorted (map (key_bytes \<circ> fst) [(c_prepared_name ''id'', a_leaf (c_uint [] 7)),
     (c_prepared_name ''xs'', a_array (Some ([], True)) [a_leaf (c_sint [] (- 1))])])"
proof -
  have t: "\<not> ti_transparent (build_type_info reading)" by code_simp
  have "lower_struct (cbor_engine default_options no_codec never_default) reading
      [v_sequence True None [v_sint (- 1)], v_optional None, v_uint 7] [] [] = Some reading_item" by code_simp
  from struct_keys_canonical [OF t this [unfolded reading_item_def]] show ?thesis .
qed

theorem encode_refines_model_witness:
  "strip_path (encode (cbor_engine default_options no_codec never_default) reading_value (new_writer []))
   = strip_path (emit_all (cbor_engine default_options no_codec never_default) (acalls reading_item) (new_writer []))"
proof -
  have l: "lower_field_value (cbor_engine default_options no_codec never_default) no_field reading_value = Some reading_item"
    using reading_lowered(2) .
  from encode_refines_model [OF cbor_order.permutes reading_lowered(1), of default_options no_codec never_default "new_writer []"]
  show ?thesis by (simp only: l option.case)
qed

definition retired :: renum where
  "retired = \<lparr>en_name = ''Unit'', en_annotations = [], en_enumerators = [\<lparr>re_identifier = ''old'', re_value = 0, re_annotations = [ann_skip]\<rparr>]\<rparr>"

definition retired_value :: cval where
  "retired_value = v_class reading [v_sequence True None [v_enum retired True 0], v_optional None, v_uint 7]"

definition retired_error :: encode_error where
  "retired_error = (skipped_enumerator retired (hd (build_enum_schema retired)))
     \<lparr>ee_steps := [step_member ''xs'', step_index 0], ee_finalized := True\<rparr>"

theorem encode_error_path_witness:
  "\<exists>w a. stands retired_value [step_member ''xs'', step_index 0] w
     \<and> own_step (cbor_engine default_options no_codec never_default) w a"
proof -
  let ?eng = "cbor_engine default_options no_codec never_default"
  have ok: "object_ok retired_value" by code_simp
  have e: "encode ?eng retired_value (new_writer []) = Inl retired_error"
    by code_simp
  have fresh: "ee_steps e = [] \<and> \<not> ee_truncated e \<and> \<not> ee_finalized e" if "eng_emit ?eng c s = Inl e" for c s e
    using cbor_paths.emit_fresh [OF that] by (simp add: raised_at_def)
  have steps: "ee_steps retired_error = [step_member ''xs'', step_index 0]" "\<not> ee_truncated retired_error"
    by (simp_all add: retired_error_def skipped_enumerator_def mk_encode_error_def)
  obtain p a x w where p: "stands retired_value p w" "own_step ?eng w a"
    and x: "retired_error = x\<lparr>ee_steps := drop (length p - 16) p, ee_truncated := 16 < length p, ee_finalized := True\<rparr>"
    using encode_error_path [OF cbor_order.permutes _ ok e] fresh by blast
  have "drop (length p - 16) p = [step_member ''xs'', step_index 0]" "\<not> 16 < length p"
    using steps unfolding x by simp_all
  then have "p = [step_member ''xs'', step_index 0]" by simp
  then show ?thesis using p by blast
qed

text \<open>The recording sink of \<^verbatim>\<open>test/core/traverse.cpp\<close>, which has \<^verbatim>\<open>write_prepared\<close> for one class: the hook is called in
  place of that class's members, and not for the others.\<close>

definition prepared_class :: rclass where
  "prepared_class = RClass ''Prepared'' [] [] [] [] [RMember (Some ''a'') [] (rt_other ''int'') False]"

definition hooked_class :: rclass where
  "hooked_class = RClass ''Hooked'' [] [] [] [] [RMember (Some ''plain'') [] (rt_other ''std::uint64_t'') False,
     RMember (Some ''p'') [] (rt_class False prepared_class) False]"

definition recording_sink :: "ecall list engine" where
  "recording_sink = \<lparr>eng_emit = (\<lambda>c s. Inr (s @ [c])), eng_traits = format_traits_defaults, eng_with = no_codec,
     eng_is_default = never_default, eng_range_hook = False,
     eng_prepared = (\<lambda>v. case v of v_class c vs \<Rightarrow> if c = prepared_class then Some ''P'' else None | _ \<Rightarrow> None)\<rparr>"

theorem prepared_hook_called:
  "encode recording_sink (v_class hooked_class [v_uint 6, v_class prepared_class [v_sint 1]]) []
   = Inr [c_begin_map_ordered 2, c_prepared_name ''plain'', c_uint [] 6, c_prepared_name ''p'', c_write_prepared ''P'', c_end_map]"
  by code_simp

end
