(* ===== verification/Core_Build.thy ===== *)
theory Core_Build
  imports Core_Traverse Core_Model
begin

text \<open>
  \<^verbatim>\<open>src/include/vcodec/core/build.hpp\<close>: the engine that drives a reader by the type of the destination. The
  templates are resolved by a value of \<open>dtype\<close>; the destination is a \<open>cval\<close>, and every step returns the status,
  the destination as it stands, also after a failure, and the reader. The reader is a record of operations, the
  reader concept of \<^verbatim>\<open>core/model.hpp\<close> with the hooks the engine looks for. A loop over the input takes a bound
  on its rounds and is \<open>None\<close> when it is used up; \<open>Build_Laws\<close> shows that more rounds than octets are enough.
\<close>

section \<open>Destinations\<close>

text \<open>
  \<^item> integers by width, with the display string of the type; an enum with signedness and width of its underlying
    type; a floating type is single or double;
  \<^item> \<open>dt_span\<close> is \<^verbatim>\<open>std::span<const std::byte>\<close>; a byte range is of \<^verbatim>\<open>std::byte\<close> (true) or \<^verbatim>\<open>std::uint8_t\<close>;
  \<^item> a contiguous range of numbers has the tag and memory image \<open>v_sequence\<close> carries, a function of its elements;
  \<^item> \<open>container\<close> holds the insertion operation of a sequence, \<open>map_container\<close> that of a map; the engine calls them,
    the standard library or the user provides them;
  \<^item> \<open>dt_class\<close> has the types of the members in the order of \<^verbatim>\<open>fields_of\<close> and the members of a default-constructed
    object;
  \<^item> a type with a \<^verbatim>\<open>codec_for\<close> is named; \<open>sys_time\<close> and class annotations are those of \<open>v_codec_for\<close>.
\<close>

record container =
  ct_sized :: bool
  ct_contiguous :: bool
  ct_image :: "cval list \<Rightarrow> (u64 \<times> bytes) option"
  ct_clears :: bool
  ct_append :: "cval list \<Rightarrow> cval \<Rightarrow> cval list"

record map_container =
  mc_sized :: bool
  mc_clears :: bool
  mc_unique :: bool
  mc_insert :: "(map_key_val \<times> cval) list \<Rightarrow> map_key_val \<times> cval \<Rightarrow> (map_key_val \<times> cval) list"

datatype byte_dest = bd_array nat | bd_vector

type_synonym range_image = "cval list \<Rightarrow> (u64 \<times> bytes) option"

datatype map_key_type = mkt_string bool | mkt_unsigned nat string | mkt_signed nat string

datatype dtype =
    dt_bool
  | dt_char
  | dt_uint nat string
  | dt_sint nat string
  | dt_real bool
  | dt_enum renum bool nat string
  | dt_string bool string
  | dt_optional dtype
  | dt_variant string "(string \<times> dtype) list"
  | dt_span string
  | dt_byte_range bool byte_dest string
  | dt_map map_container string map_key_type dtype
  | dt_tuple "dtype list"
  | dt_array nat range_image dtype
  | dt_sequence container dtype
  | dt_class rclass "dtype list" "cval list"
  | dt_codec string bool "annotation list option" cval

text \<open>\<^verbatim>\<open>T{}\<close>.\<close>

fun initial_value :: "dtype \<Rightarrow> cval" where
  "initial_value dt_bool = v_bool False"
| "initial_value dt_char = v_char (CHR 0x00)"
| "initial_value (dt_uint b d) = v_uint 0"
| "initial_value (dt_sint b d) = v_sint 0"
| "initial_value (dt_real s) = v_real 0"
| "initial_value (dt_enum e sg b d) = v_enum e sg 0"
| "initial_value (dt_string view d) = v_string []"
| "initial_value (dt_optional t) = v_optional None"
| "initial_value (dt_variant d alts) =
     v_variant (case alts of [] \<Rightarrow> None | (name, t) # _ \<Rightarrow> Some (name, initial_value t))"
| "initial_value (dt_span d) = v_byte_range True []"
| "initial_value (dt_byte_range be dest d) =
     v_byte_range be (case dest of bd_array n \<Rightarrow> replicate n 0 | bd_vector \<Rightarrow> [])"
| "initial_value (dt_map mc d k t) = v_map (mc_sized mc) []"
| "initial_value (dt_tuple ts) = v_tuple (map initial_value ts)"
| "initial_value (dt_array n im t) =
     v_sequence True (im (replicate n (initial_value t))) (replicate n (initial_value t))"
| "initial_value (dt_sequence ct t) = v_sequence (ct_sized ct) (ct_image ct []) []"
| "initial_value (dt_class c ts vs) = v_class c vs"
| "initial_value (dt_codec name sys ca v) = v"

section \<open>The reader concept\<close>

text \<open>A codec's \<^verbatim>\<open>decode\<close> fills the destination or returns a value.\<close>

datatype 'r decode_codec = dc_into "cval \<Rightarrow> 'r \<Rightarrow> (status \<times> cval) \<times> 'r" | dc_value "'r \<Rightarrow> cval result \<times> 'r"

text \<open>\<^verbatim>\<open>peek\<close> and \<^verbatim>\<open>offset\<close> may move past white space. \<open>rd_range\<close> is \<^verbatim>\<open>read_range\<close>, absent where the format has none or
  the destination is not a range of numbers; \<open>rd_same_type\<close> compares a member's declared type with a deduced one.\<close>

record ('r, 'c, 'm) reader_ops =
  rd_null :: "'r \<Rightarrow> unit result \<times> 'r"
  rd_boolean :: "'r \<Rightarrow> bool result \<times> 'r"
  rd_uint :: "annotation list \<Rightarrow> 'r \<Rightarrow> u64 result \<times> 'r"
  rd_sint :: "annotation list \<Rightarrow> 'r \<Rightarrow> int result \<times> 'r"
  rd_real :: "'r \<Rightarrow> u64 result \<times> 'r"
  rd_text :: "'r \<Rightarrow> text_ref result \<times> 'r"
  rd_bytes :: "annotation list \<Rightarrow> 'r \<Rightarrow> bytes_ref result \<times> 'r"
  rd_array :: "'r \<Rightarrow> 'c result \<times> 'r"
  rd_seq_next :: "'c \<Rightarrow> 'r \<Rightarrow> (bool \<times> 'c) result \<times> 'r"
  rd_map :: "'r \<Rightarrow> 'm result \<times> 'r"
  rd_map_next :: "'m \<Rightarrow> 'r \<Rightarrow> (bool \<times> 'm) result \<times> 'r"
  rd_key_kind :: "'r \<Rightarrow> kind"
  rd_key_text :: "'r \<Rightarrow> text_ref result \<times> 'r"
  rd_key_uint :: "'r \<Rightarrow> u64 result \<times> 'r"
  rd_key_sint :: "'r \<Rightarrow> int result \<times> 'r"
  rd_peek :: "'r \<Rightarrow> kind \<times> 'r"
  rd_offset :: "'r \<Rightarrow> nat \<times> 'r"
  rd_skip :: "'r \<Rightarrow> status \<times> 'r"
  rd_save :: "'r \<Rightarrow> u64"
  rd_restore :: "u64 \<Rightarrow> 'r \<Rightarrow> 'r"
  rd_error :: "'r \<Rightarrow> errc \<Rightarrow> nat \<Rightarrow> error"
  rd_tags :: "u64 list \<Rightarrow> 'r \<Rightarrow> status \<times> 'r"
  rd_range :: "dtype \<Rightarrow> (cval \<Rightarrow> 'r \<Rightarrow> bool result \<times> cval \<times> 'r) option"
  rd_duplicates :: duplicate_key_mode
  rd_errors :: error_mode
  rd_collected :: "'r \<Rightarrow> error list"
  rd_set_collected :: "error list \<Rightarrow> 'r \<Rightarrow> 'r"
  rd_traits :: format_traits
  rd_key_traits :: key_traits
  rd_with :: "string \<Rightarrow> field_meta \<Rightarrow> 'r decode_codec"
  rd_codec_for :: "string \<Rightarrow> field_meta \<Rightarrow> 'r decode_codec"
  rd_same_type :: "rtype \<Rightarrow> string \<Rightarrow> bool"

section \<open>Sequencing\<close>

type_synonym ('o, 'r) outcome = "((status \<times> 'o) \<times> 'r) option"

text \<open>\<^verbatim>\<open>if (!x) return fail(x)\<close>: the destination stays as it is.\<close>

definition on_ok :: "'a result \<times> 'r \<Rightarrow> 'o \<Rightarrow> ('a \<Rightarrow> 'r \<Rightarrow> ('o, 'r) outcome) \<Rightarrow> ('o, 'r) outcome" where
  "on_ok m out k = (case m of (Inl e, r) \<Rightarrow> Some ((Inl e, out), r) | (Inr x, r) \<Rightarrow> k x r)"

definition after_step :: "('o, 'r) outcome \<Rightarrow> (status \<Rightarrow> 'o \<Rightarrow> 'r \<Rightarrow> ('p, 'r) outcome) \<Rightarrow> ('p, 'r) outcome" where
  "after_step m k = (case m of None \<Rightarrow> None | Some ((st, v), r) \<Rightarrow> k st v r)"

lemma on_ok_simps [simp]: "on_ok (Inl e, r) out k = Some ((Inl e, out), r)" "on_ok (Inr x, r) out k = k x r"
  by (simp_all add: on_ok_def)

lemma after_step_simps [simp]: "after_step None k = None" "after_step (Some ((st, v), r)) k = k st v r"
  by (simp_all add: after_step_def)

lemma on_ok_cong [fundef_cong]:
  "m = m' \<Longrightarrow> out = out' \<Longrightarrow> (\<And>x r. m' = (Inr x, r) \<Longrightarrow> k x r = k' x r) \<Longrightarrow> on_ok m out k = on_ok m' out' k'"
  by (simp add: on_ok_def split: prod.split sum.split)

lemma after_step_cong [fundef_cong]:
  "m = m' \<Longrightarrow> (\<And>st v r. m' = Some ((st, v), r) \<Longrightarrow> k st v r = k' st v r) \<Longrightarrow> after_step m k = after_step m' k'"
  by (simp add: after_step_def split: option.split prod.split)

definition returns :: "status \<Rightarrow> 'o \<Rightarrow> 'r \<Rightarrow> ('o, 'r) outcome" where
  "returns st out r = Some ((st, out), r)"

definition throws :: "error \<Rightarrow> 'o \<Rightarrow> 'r \<Rightarrow> ('o, 'r) outcome" where
  "throws e out r = Some ((Inl e, out), r)"

text \<open>\<^verbatim>\<open>is a collecting reader\<close>, its list of errors, and the steps appended to those a value has added.\<close>

definition collects :: "('r, 'c, 'm) reader_ops \<Rightarrow> bool" where
  "collects ops \<longleftrightarrow> rd_errors ops = collect"

definition error_mark :: "('r, 'c, 'm) reader_ops \<Rightarrow> 'r \<Rightarrow> nat" where
  "error_mark ops r = (if collects ops then length (rd_collected ops r) else 0)"

definition annotate_collected :: "('r, 'c, 'm) reader_ops \<Rightarrow> nat \<Rightarrow> (error \<Rightarrow> error) \<Rightarrow> 'r \<Rightarrow> 'r" where
  "annotate_collected ops mark step r =
     (if collects ops then
        rd_set_collected ops (take mark (rd_collected ops r) @ map step (drop mark (rd_collected ops r))) r
      else r)"

definition push_collected :: "('r, 'c, 'm) reader_ops \<Rightarrow> error \<Rightarrow> 'r \<Rightarrow> 'r" where
  "push_collected ops e r = rd_set_collected ops (rd_collected ops r @ [e]) r"

text \<open>One value inside a container: what it has collected and its own failure get the path step.\<close>

definition at_step :: "('r, 'c, 'm) reader_ops \<Rightarrow> (error \<Rightarrow> error) \<Rightarrow> ('r \<Rightarrow> ('o, 'r) outcome) \<Rightarrow> 'r \<Rightarrow> ('o, 'r) outcome" where
  "at_step ops step dec r =
     after_step (dec r) (\<lambda>st v r'.
       returns (case st of Inl e \<Rightarrow> Inl (step e) | Inr u \<Rightarrow> Inr u) v
         (annotate_collected ops (error_mark ops r) step r'))"

section \<open>Scalars\<close>

definition in_member :: "field_meta \<Rightarrow> bool" where
  "in_member F \<longleftrightarrow> fm_path F \<noteq> []"

definition type_display_for :: "('r, 'c, 'm) reader_ops \<Rightarrow> field_meta \<Rightarrow> string \<Rightarrow> string" where
  "type_display_for ops F d =
     (if in_member F \<and> rd_same_type ops (fm_type F) d then display_string_of (fm_type F) else d)"

text \<open>\<^verbatim>\<open>F.depth ? fi.qualified.view() : type_display<T>()\<close>\<close>

definition who :: "field_meta \<Rightarrow> string \<Rightarrow> string" where
  "who F d = (if in_member F then qual_name (fm_info F) else d)"

definition range_context :: "('r, 'c, 'm) reader_ops \<Rightarrow> field_meta \<Rightarrow> string \<Rightarrow> error \<Rightarrow> error" where
  "range_context ops F d e =
     (if code e = out_of_range \<and> context_of e = [] then with_context (type_display_for ops F d) e else e)"

definition decode_uint :: "('r, 'c, 'm) reader_ops \<Rightarrow> field_meta \<Rightarrow> nat \<Rightarrow> string \<Rightarrow> cval \<Rightarrow> 'r \<Rightarrow> (cval, 'r) outcome" where
  "decode_uint ops F bits d out r0 =
     (let (off, r) = rd_offset ops r0
      in case rd_uint ops (fm_annotations F) r of
           (Inl e, r) \<Rightarrow> throws (range_context ops F d e) out r
         | (Inr u, r) \<Rightarrow>
             if 2 ^ bits - 1 < uint u
             then throws (with_context (type_display_for ops F d) (with_detail (dec_u64 u) (rd_error ops r out_of_range off))) out r
             else returns (Inr ()) (v_uint u) r)"

definition decode_sint :: "('r, 'c, 'm) reader_ops \<Rightarrow> field_meta \<Rightarrow> nat \<Rightarrow> string \<Rightarrow> cval \<Rightarrow> 'r \<Rightarrow> (cval, 'r) outcome" where
  "decode_sint ops F bits d out r0 =
     (let (off, r) = rd_offset ops r0
      in case rd_sint ops (fm_annotations F) r of
           (Inl e, r) \<Rightarrow> throws (range_context ops F d e) out r
         | (Inr i, r) \<Rightarrow>
             if 2 ^ (bits - 1) - 1 < i \<or> i < - (2 ^ (bits - 1))
             then throws (with_context (type_display_for ops F d) (with_detail (dec_int i) (rd_error ops r out_of_range off))) out r
             else returns (Inr ()) (v_sint (word_of_int i)) r)"

text \<open>\<^verbatim>\<open>static_cast\<close> of a raw integer or an enumerator to the underlying type, as a number, and in decimal.\<close>

definition raw_int :: "cval \<Rightarrow> int" where
  "raw_int v = (case v of v_uint u \<Rightarrow> uint u | v_sint i \<Rightarrow> sint i | _ \<Rightarrow> 0)"

definition to_underlying :: "bool \<Rightarrow> nat \<Rightarrow> int \<Rightarrow> int" where
  "to_underlying sg bits v = (if sg then signed_take_bit (bits - 1) v else take_bit bits v)"

definition offered :: "enumerator_info list \<Rightarrow> (enumerator_info \<Rightarrow> string) \<Rightarrow> error \<Rightarrow> error" where
  "offered table show_of e = fold (\<lambda>x e. with_candidate (show_of x) e) (filter (\<lambda>x. \<not> ei_skipped x) table) e"

definition decode_enum :: "('r, 'c, 'm) reader_ops \<Rightarrow> field_meta \<Rightarrow> renum \<Rightarrow> bool \<Rightarrow> nat \<Rightarrow> string \<Rightarrow> cval \<Rightarrow> 'r
    \<Rightarrow> (cval, 'r) outcome" where
  "decode_enum ops F en sg bits d out r0 =
     (let table = build_enum_schema en; (off, r) = rd_offset ops r0
      in if enum_encodes_as_integer en (fm_annotations F) (ft_enum_default_integer (rd_traits ops)) then
           after_step (if sg then decode_sint ops F bits d (v_sint 0) r else decode_uint ops F bits d (v_uint 0) r)
             (\<lambda>st raw r. case st of Inl e \<Rightarrow> throws e out r
              | Inr u \<Rightarrow>
                  (case find (\<lambda>x. to_underlying sg bits (ei_value x) = raw_int raw \<and> \<not> ei_skipped x) table of
                     Some x \<Rightarrow> returns (Inr ()) (v_enum en sg (ei_value x)) r
                   | None \<Rightarrow> throws (offered table (\<lambda>x. dec_int (to_underlying sg bits (ei_value x)))
                       (with_context (en_name en) (with_detail (dec_int (raw_int raw)) (rd_error ops r unknown_enumerator off))))
                       out r))
         else
           on_ok (rd_text ops r) out (\<lambda>t r.
             case lookup_find (build_enum_lookup table) (t_text t) of
               Some idx \<Rightarrow> returns (Inr ()) (v_enum en sg (ei_value (table ! idx))) r
             | None \<Rightarrow> throws (offered table ei_name
                 (with_length (if t_raw_length t \<noteq> 0 then t_raw_length t else length (t_text t) + 2)
                   (with_context (en_name en) (with_detail (t_text t) (rd_error ops r unknown_enumerator off))))) out r))"

definition decode_string :: "('r, 'c, 'm) reader_ops \<Rightarrow> field_meta \<Rightarrow> bool \<Rightarrow> string \<Rightarrow> cval \<Rightarrow> 'r \<Rightarrow> (cval, 'r) outcome" where
  "decode_string ops F view d out r0 =
     (let (off, r) = rd_offset ops r0
      in on_ok (rd_text ops r) out (\<lambda>t r.
           if view \<and> \<not> t_borrowed t
           then throws (with_suggestion ''use std::string instead of std::string_view''
                  (with_length (if t_raw_length t \<noteq> 0 then t_raw_length t else length (t_text t) + 2)
                    (with_context (who F d) (rd_error ops r escape_in_borrowed_string off)))) out r
           else returns (Inr ()) (v_string (t_text t)) r))"

definition decode_char :: "('r, 'c, 'm) reader_ops \<Rightarrow> cval \<Rightarrow> 'r \<Rightarrow> (cval, 'r) outcome" where
  "decode_char ops out r0 =
     (let (off, r) = rd_offset ops r0
      in on_ok (rd_text ops r) out (\<lambda>t r.
           if length (t_text t) \<noteq> 1
           then throws (with_length (length (t_text t) + 2)
                  (with_found (''string of length '' @ dec_nat (length (t_text t)))
                    (with_expected ''single-character string'' (rd_error ops r type_mismatch off)))) out r
           else returns (Inr ()) (v_char (hd (t_text t))) r))"

definition decode_real :: "('r, 'c, 'm) reader_ops \<Rightarrow> bool \<Rightarrow> cval \<Rightarrow> 'r \<Rightarrow> (cval, 'r) outcome" where
  "decode_real ops single out r =
     on_ok (rd_real ops r) out (\<lambda>d r. returns (Inr ()) (v_real (if single then from_float (to_float d) else d)) r)"

section \<open>Octets\<close>

definition decode_span :: "('r, 'c, 'm) reader_ops \<Rightarrow> field_meta \<Rightarrow> string \<Rightarrow> cval \<Rightarrow> 'r \<Rightarrow> (cval, 'r) outcome" where
  "decode_span ops F d out r0 =
     (let (off, r) = rd_offset ops r0
      in on_ok (rd_bytes ops (fm_annotations F) r) out (\<lambda>b r.
           if \<not> b_borrowed b
           then throws (with_suggestion ''use std::vector<std::byte> instead of std::span<const std::byte>''
                  (with_context (who F d) (rd_error ops r indefinite_in_borrowed_string off))) out r
           else returns (Inr ()) (v_byte_range True (b_bytes b)) r))"

definition length_mismatch :: "('r, 'c, 'm) reader_ops \<Rightarrow> nat \<Rightarrow> nat \<Rightarrow> nat \<Rightarrow> 'r \<Rightarrow> error" where
  "length_mismatch ops off want got r =
     with_found (''byte string of length '' @ dec_nat got)
       (with_expected (''byte string of length '' @ dec_nat want) (rd_error ops r type_mismatch off))"

definition decode_octets :: "('r, 'c, 'm) reader_ops \<Rightarrow> field_meta \<Rightarrow> bool \<Rightarrow> byte_dest \<Rightarrow> cval \<Rightarrow> 'r \<Rightarrow> (cval, 'r) outcome" where
  "decode_octets ops F byte_elems dest out r0 =
     (let (off, r) = rd_offset ops r0
      in on_ok (rd_bytes ops (fm_annotations F) r) out (\<lambda>b r.
           case dest of
             bd_array n \<Rightarrow>
               if length (b_bytes b) \<noteq> n then throws (length_mismatch ops off n (length (b_bytes b)) r) out r
               else returns (Inr ()) (v_byte_range byte_elems (b_bytes b)) r
           | bd_vector \<Rightarrow> returns (Inr ()) (v_byte_range byte_elems (b_bytes b)) r))"

section \<open>Sequences, arrays, tuples\<close>

text \<open>The rounds of \<^verbatim>\<open>decode_sequence\<close>; \<open>dec\<close> decodes one element.\<close>

fun sequence_loop :: "('r, 'c, 'm) reader_ops \<Rightarrow> nat \<Rightarrow> ('r \<Rightarrow> (cval, 'r) outcome) \<Rightarrow> (cval list \<Rightarrow> cval \<Rightarrow> cval list)
    \<Rightarrow> 'c \<Rightarrow> u64 \<Rightarrow> cval list \<Rightarrow> 'r \<Rightarrow> (cval list, 'r) outcome" where
  "sequence_loop ops 0 dec app c i out r = None"
| "sequence_loop ops (Suc n) dec app c i out r =
     on_ok (rd_seq_next ops c r) out (\<lambda>(again, c) r.
       if \<not> again then returns (Inr ()) out r
       else after_step (at_step ops (push_index i) dec r) (\<lambda>st v r.
         case st of Inl e \<Rightarrow> throws e out r | Inr u \<Rightarrow> sequence_loop ops n dec app c (i + 1) (app out v) r))"

definition array_mismatch :: "('r, 'c, 'm) reader_ops \<Rightarrow> nat \<Rightarrow> nat \<Rightarrow> nat \<Rightarrow> 'r \<Rightarrow> error" where
  "array_mismatch ops off want got r =
     with_found (''array of '' @ dec_nat got @ '' elements'')
       (with_expected (''array of '' @ dec_nat want @ '' elements'') (rd_error ops r type_mismatch off))"

text \<open>After the last place: the surplus is counted. \<open>again\<close> is the last answer of \<^verbatim>\<open>next\<close>.\<close>

fun extra_loop :: "('r, 'c, 'm) reader_ops \<Rightarrow> nat \<Rightarrow> nat \<Rightarrow> 'c \<Rightarrow> nat \<Rightarrow> 'o \<Rightarrow> 'r \<Rightarrow> nat \<Rightarrow> ('o, 'r) outcome" where
  "extra_loop ops 0 off c extra out r want = None"
| "extra_loop ops (Suc n) off c extra out r want =
     on_ok (rd_skip ops r) out (\<lambda>u r.
     on_ok (rd_seq_next ops c r) out (\<lambda>(again, c) r.
       if again then extra_loop ops n off c (extra + 1) out r want
       else throws (array_mismatch ops off want (extra + 1) r) out r))"

text \<open>\<^verbatim>\<open>decode_fixed_array\<close> and \<^verbatim>\<open>decode_tuple\<close> after \<^verbatim>\<open>expect_array\<close>: the places in order, decoded in place.\<close>

fun positional_loop :: "('r, 'c, 'm) reader_ops \<Rightarrow> nat \<Rightarrow> nat \<Rightarrow> nat \<Rightarrow> 'c \<Rightarrow> nat \<Rightarrow> (cval \<Rightarrow> 'r \<Rightarrow> (cval, 'r) outcome) list
    \<Rightarrow> cval list \<Rightarrow> 'r \<Rightarrow> (cval list, 'r) outcome" where
  "positional_loop ops n off want c i [] out r =
     on_ok (rd_seq_next ops c r) out (\<lambda>(again, c) r.
       if again then extra_loop ops n off c want out r want else returns (Inr ()) out r)"
| "positional_loop ops n off want c i (dec # decs) out r =
     on_ok (rd_seq_next ops c r) out (\<lambda>(again, c) r.
       if \<not> again then throws (array_mismatch ops off want i r) out r
       else after_step (at_step ops (push_index (of_nat i)) (dec (out ! i)) r) (\<lambda>st v r.
         case st of Inl e \<Rightarrow> throws e (out[i := v]) r
         | Inr u \<Rightarrow> positional_loop ops n off want c (i + 1) decs (out[i := v]) r))"

definition decode_positional :: "('r, 'c, 'm) reader_ops \<Rightarrow> nat \<Rightarrow> (cval \<Rightarrow> 'r \<Rightarrow> (cval, 'r) outcome) list
    \<Rightarrow> cval list \<Rightarrow> 'r \<Rightarrow> (cval list, 'r) outcome" where
  "decode_positional ops n decs out r0 =
     (let (off, r) = rd_offset ops r0
      in on_ok (rd_array ops r) out (\<lambda>c r. positional_loop ops n off (length decs) c 0 decs out r))"

definition decode_sequence :: "('r, 'c, 'm) reader_ops \<Rightarrow> nat \<Rightarrow> ('r \<Rightarrow> (cval, 'r) outcome) \<Rightarrow> (cval list \<Rightarrow> cval \<Rightarrow> cval list)
    \<Rightarrow> bool \<Rightarrow> cval list \<Rightarrow> 'r \<Rightarrow> (cval list, 'r) outcome" where
  "decode_sequence ops n dec app clears out r =
     on_ok (rd_array ops r) out (\<lambda>c r. sequence_loop ops n dec app c 0 (if clears then [] else out) r)"

text \<open>The parts of the destination, and the destination made of its parts.\<close>

definition elems_of :: "cval \<Rightarrow> cval list" where
  "elems_of v = (case v of v_tuple vs \<Rightarrow> vs | v_sequence sized im vs \<Rightarrow> vs | v_class c vs \<Rightarrow> vs
     | v_byte_range be bs \<Rightarrow> map (\<lambda>b. v_uint (ucast b)) bs | _ \<Rightarrow> [])"

definition entries_of :: "cval \<Rightarrow> (map_key_val \<times> cval) list" where
  "entries_of v = (case v of v_map sized es \<Rightarrow> es | _ \<Rightarrow> [])"

definition octets_of :: "cval list \<Rightarrow> bytes" where
  "octets_of vs = map (\<lambda>v. ucast (case v of v_uint u \<Rightarrow> u | _ \<Rightarrow> 0)) vs"

definition rewrap :: "('a \<Rightarrow> 'b) \<Rightarrow> ('a, 'r) outcome \<Rightarrow> ('b, 'r) outcome" where
  "rewrap f m = after_step m (\<lambda>st v r. returns st (f v) r)"

lemma rewrap_cong [fundef_cong]: "m = m' \<Longrightarrow> f = f' \<Longrightarrow> rewrap f m = rewrap f' m'"
  by simp

section \<open>Maps\<close>

text \<open>\<^verbatim>\<open>std::from_chars\<close> in base 10 for an integer type: the value and how many characters it took.\<close>

datatype integer_parse = ip_value int nat | ip_out_of_range | ip_invalid

definition from_chars_int :: "bool \<Rightarrow> nat \<Rightarrow> string \<Rightarrow> integer_parse" where
  "from_chars_int sg bits s =
     (let neg = sg \<and> s \<noteq> [] \<and> hd s = CHR ''-''; ds = takeWhile is_digit (if neg then tl s else s);
          v = (if neg then - digits_value ds else digits_value ds)
      in if ds = [] then ip_invalid
         else if to_underlying sg bits v \<noteq> v then ip_out_of_range
         else ip_value v (length ds + (if neg then 1 else 0)))"

definition parse_integral_key :: "('r, 'c, 'm) reader_ops \<Rightarrow> bool \<Rightarrow> nat \<Rightarrow> string \<Rightarrow> string \<Rightarrow> nat \<Rightarrow> 'r \<Rightarrow> int result" where
  "parse_integral_key ops sg bits d t off r =
     (let mismatched = with_length (length t + 2)
            (with_found ''string'' (with_expected ''integer key'' (rd_error ops r type_mismatch off)))
      in case from_chars_int sg bits t of
           ip_out_of_range \<Rightarrow> Inl (with_context d (with_detail t (rd_error ops r out_of_range off)))
         | ip_invalid \<Rightarrow> Inl mismatched
         | ip_value v k \<Rightarrow> if k \<noteq> length t then Inl mismatched else Inr v)"

definition key_range_error :: "('r, 'c, 'm) reader_ops \<Rightarrow> string \<Rightarrow> string \<Rightarrow> nat \<Rightarrow> 'r \<Rightarrow> error" where
  "key_range_error ops txt d off r = with_context d (with_detail txt (rd_error ops r out_of_range off))"

text \<open>The key of one entry (lines 385 to 425).\<close>

definition decode_map_key :: "('r, 'c, 'm) reader_ops \<Rightarrow> field_meta \<Rightarrow> string \<Rightarrow> map_key_type \<Rightarrow> nat \<Rightarrow> 'r
    \<Rightarrow> map_key_val result \<times> 'r" where
  "decode_map_key ops F md kt off r0 =
     (case kt of
        mkt_string view \<Rightarrow>
          (case rd_key_text ops r0 of
             (Inl e, r) \<Rightarrow> (Inl e, r)
           | (Inr t, r) \<Rightarrow>
               if view \<and> \<not> t_borrowed t
               then (Inl (with_suggestion ''use std::string keys instead of std::string_view''
                      (with_context (who F md) (rd_error ops r escape_in_borrowed_string off))), r)
               else (Inr (mk_string (t_text t)), r))
      | mkt_unsigned bits d \<Rightarrow>
          (case rd_key_kind ops r0 of
             kind_text \<Rightarrow>
               (case rd_key_text ops r0 of
                  (Inl e, r) \<Rightarrow> (Inl e, r)
                | (Inr t, r) \<Rightarrow> (map_sum id (\<lambda>v. mk_uint (word_of_int v)) (parse_integral_key ops False bits d (t_text t) off r), r))
           | kind_uint \<Rightarrow>
               (case rd_key_uint ops r0 of
                  (Inl e, r) \<Rightarrow> (Inl e, r)
                | (Inr u, r) \<Rightarrow> (if 2 ^ bits - 1 < uint u then Inl (key_range_error ops (dec_u64 u) d off r) else Inr (mk_uint u), r))
           | _ \<Rightarrow>
               (case rd_key_sint ops r0 of
                  (Inl e, r) \<Rightarrow> (Inl e, r)
                | (Inr i, r) \<Rightarrow> (Inl (key_range_error ops (dec_int i) d off r), r)))
      | mkt_signed bits d \<Rightarrow>
          (case rd_key_kind ops r0 of
             kind_text \<Rightarrow>
               (case rd_key_text ops r0 of
                  (Inl e, r) \<Rightarrow> (Inl e, r)
                | (Inr t, r) \<Rightarrow> (map_sum id (\<lambda>v. mk_sint (word_of_int v)) (parse_integral_key ops True bits d (t_text t) off r), r))
           | kind_uint \<Rightarrow>
               (case rd_key_uint ops r0 of
                  (Inl e, r) \<Rightarrow> (Inl e, r)
                | (Inr u, r) \<Rightarrow> (if 2 ^ (bits - 1) - 1 < uint u then Inl (key_range_error ops (dec_u64 u) d off r)
                    else Inr (mk_sint u), r))
           | _ \<Rightarrow>
               (case rd_key_sint ops r0 of
                  (Inl e, r) \<Rightarrow> (Inl e, r)
                | (Inr i, r) \<Rightarrow> (if 2 ^ (bits - 1) - 1 < i \<or> i < - (2 ^ (bits - 1)) then Inl (key_range_error ops (dec_int i) d off r)
                    else Inr (mk_sint (word_of_int i)), r))))"

fun push_map_key :: "map_key_val \<Rightarrow> error \<Rightarrow> error" where
  "push_map_key (mk_string k) = push_key_text k"
| "push_map_key (mk_uint k) = push_key_int k"
| "push_map_key (mk_sint k) = push_key_int k"

text \<open>The detail of a repeated integer key is \<^verbatim>\<open>decimal(static_cast<std::int64_t>(key))\<close>, whatever its type.\<close>

definition duplicate_entry :: "('r, 'c, 'm) reader_ops \<Rightarrow> map_key_val \<Rightarrow> nat \<Rightarrow> 'r \<Rightarrow> error" where
  "duplicate_entry ops k off r =
     push_map_key k (case k of
         mk_string s \<Rightarrow> with_length (length s + 2) (with_detail s (rd_error ops r duplicate_key off))
       | mk_uint u \<Rightarrow> with_detail (dec_int (sint u)) (rd_error ops r duplicate_key off)
       | mk_sint i \<Rightarrow> with_detail (dec_int (sint i)) (rd_error ops r duplicate_key off))"

definition set_entry :: "map_key_val \<Rightarrow> cval \<Rightarrow> (map_key_val \<times> cval) list \<Rightarrow> (map_key_val \<times> cval) list" where
  "set_entry k v es = map (\<lambda>(k', v'). (k', if k' = k then v else v')) es"

fun map_loop :: "('r, 'c, 'm) reader_ops \<Rightarrow> nat \<Rightarrow> field_meta \<Rightarrow> map_container \<Rightarrow> string \<Rightarrow> map_key_type \<Rightarrow> cval
    \<Rightarrow> (cval \<Rightarrow> 'r \<Rightarrow> (cval, 'r) outcome) \<Rightarrow> 'm \<Rightarrow> (map_key_val \<times> cval) list \<Rightarrow> 'r
    \<Rightarrow> ((map_key_val \<times> cval) list, 'r) outcome" where
  "map_loop ops 0 F mc md kt v0 dec c es r = None"
| "map_loop ops (Suc n) F mc md kt v0 dec c es r =
     on_ok (rd_map_next ops c r) es (\<lambda>(again, c) r.
       if \<not> again then returns (Inr ()) es r
       else
         let (off, r) = rd_offset ops r in
         on_ok (decode_map_key ops F md kt off r) es (\<lambda>k r.
           case (if mc_unique mc then map_of es k else None) of
             Some old \<Rightarrow>
               (case rd_duplicates ops of
                  duplicate_error \<Rightarrow> throws (duplicate_entry ops k off r) es r
                | first_wins \<Rightarrow> on_ok (rd_skip ops r) es (\<lambda>u r. map_loop ops n F mc md kt v0 dec c es r)
                | last_wins \<Rightarrow>
                    after_step (at_step ops (push_map_key k) (dec old) r) (\<lambda>st v r.
                      case st of Inl e \<Rightarrow> throws e (set_entry k v es) r
                      | Inr u \<Rightarrow> map_loop ops n F mc md kt v0 dec c (set_entry k v es) r))
           | None \<Rightarrow>
               after_step (at_step ops (push_map_key k) (dec v0) r) (\<lambda>st v r.
                 case st of Inl e \<Rightarrow> throws e es r
                 | Inr u \<Rightarrow> map_loop ops n F mc md kt v0 dec c (mc_insert mc es (k, v)) r)))"

definition decode_map :: "('r, 'c, 'm) reader_ops \<Rightarrow> nat \<Rightarrow> field_meta \<Rightarrow> map_container \<Rightarrow> string \<Rightarrow> map_key_type \<Rightarrow> cval
    \<Rightarrow> (cval \<Rightarrow> 'r \<Rightarrow> (cval, 'r) outcome) \<Rightarrow> (map_key_val \<times> cval) list \<Rightarrow> 'r
    \<Rightarrow> ((map_key_val \<times> cval) list, 'r) outcome" where
  "decode_map ops n F mc md kt v0 dec es r =
     on_ok (rd_map ops r) es (\<lambda>c r. map_loop ops n F mc md kt v0 dec c (if mc_clears mc then [] else es) r)"

section \<open>Structs\<close>

definition keys_of :: "('r, 'c, 'm) reader_ops \<Rightarrow> rclass \<Rightarrow> key_table" where
  "keys_of ops cls = (case build_key_table (rd_key_traits ops) (build_fields cls) of Some t \<Rightarrow> t | None \<Rightarrow> empty_key_table)"

text \<open>The key of a member: text, an integer, or an integer above \<^verbatim>\<open>INT64_MAX\<close>.\<close>

datatype member_key_read = mkr_text string | mkr_int int | mkr_huge u64

definition read_member_key :: "('r, 'c, 'm) reader_ops \<Rightarrow> bool \<Rightarrow> 'r \<Rightarrow> member_key_read result \<times> 'r" where
  "read_member_key ops int_keys r0 =
     (let text_key = (case rd_key_text ops r0 of (Inl e, r) \<Rightarrow> (Inl e, r) | (Inr t, r) \<Rightarrow> (Inr (mkr_text (t_text t)), r))
      in if int_keys then
           (case rd_key_kind ops r0 of
              kind_uint \<Rightarrow>
                (case rd_key_uint ops r0 of
                   (Inl e, r) \<Rightarrow> (Inl e, r)
                 | (Inr u, r) \<Rightarrow> (Inr (if 2 ^ 63 - 1 < uint u then mkr_huge u else mkr_int (uint u)), r))
            | kind_sint \<Rightarrow>
                (case rd_key_sint ops r0 of (Inl e, r) \<Rightarrow> (Inl e, r) | (Inr i, r) \<Rightarrow> (Inr (mkr_int i), r))
            | _ \<Rightarrow> text_key)
         else text_key)"

text \<open>A member int_keys by an integer takes its own name only where the format accepts it.\<close>

definition find_text_member :: "rclass \<Rightarrow> key_table \<Rightarrow> string \<Rightarrow> nat option" where
  "find_text_member cls kt key =
     (case lookup_find (build_field_lookup (build_schema cls)) key of
        None \<Rightarrow> None
      | Some i \<Rightarrow>
          if kt_any kt \<and> ik_present (kt_keys kt ! i) \<and> \<not> ik_text_ok (kt_keys kt ! i) \<and> key = wire_name (build_schema cls ! i)
          then None else Some i)"

text \<open>What a key leads to (lines 573 to 676): the value is skipped, skipped and then an error returned, an error
  reported, or a member decoded. An undefined key lookup leads nowhere.\<close>

datatype member_action = ma_skip | ma_reject error | ma_report error | ma_decode nat

definition unknown_text :: "('r, 'c, 'm) reader_ops \<Rightarrow> rclass \<Rightarrow> string \<Rightarrow> nat \<Rightarrow> 'r \<Rightarrow> error" where
  "unknown_text ops cls key off r =
     push_key_text key
       (let e = with_deny_unknown (with_context (ti_name (build_type_info cls))
                  (with_length (length key + 2) (with_detail key (rd_error ops r unknown_field off))));
            s = suggest key (build_schema cls) 2
        in if s \<noteq> [] then with_suggestion s e else e)"

definition unknown_int :: "('r, 'c, 'm) reader_ops \<Rightarrow> rclass \<Rightarrow> string \<Rightarrow> u64 \<Rightarrow> nat \<Rightarrow> 'r \<Rightarrow> error" where
  "unknown_int ops cls digits k off r =
     push_key_int k (with_deny_unknown (with_context (ti_name (build_type_info cls))
       (with_detail digits (rd_error ops r unknown_field off))))"

definition duplicate_member :: "('r, 'c, 'm) reader_ops \<Rightarrow> member_key_read \<Rightarrow> nat \<Rightarrow> 'r \<Rightarrow> error" where
  "duplicate_member ops k off r =
     (case k of
        mkr_text key \<Rightarrow> push_key_text key (with_length (length key + 2) (with_detail key (rd_error ops r duplicate_key off)))
      | mkr_int i \<Rightarrow> push_key_int (word_of_int i) (with_detail (dec_int i) (rd_error ops r duplicate_key off))
      | mkr_huge u \<Rightarrow> rd_error ops r duplicate_key off)"

definition known_action :: "('r, 'c, 'm) reader_ops \<Rightarrow> rclass \<Rightarrow> bool list \<Rightarrow> member_key_read \<Rightarrow> nat \<Rightarrow> nat \<Rightarrow> 'r
    \<Rightarrow> member_action" where
  "known_action ops cls seen k i off r =
     (if fi_skip_deserializing (build_schema cls ! i) then ma_skip
      else if seen ! i \<and> rd_duplicates ops = duplicate_error then ma_report (duplicate_member ops k off r)
      else if seen ! i \<and> rd_duplicates ops = first_wins then ma_skip
      else ma_decode i)"

definition key_action :: "('r, 'c, 'm) reader_ops \<Rightarrow> rclass \<Rightarrow> string \<Rightarrow> bool list \<Rightarrow> member_key_read \<Rightarrow> nat \<Rightarrow> 'r
    \<Rightarrow> member_action option" where
  "key_action ops cls ignored seen k off r =
     (let kt = keys_of ops cls; deny = ti_deny_unknown_fields (build_type_info cls) in
      case k of
        mkr_huge u \<Rightarrow> Some (if deny then ma_reject (unknown_int ops cls (dec_u64 u) u off r) else ma_skip)
      | mkr_int i \<Rightarrow>
          (case key_find kt i of
             key_undefined \<Rightarrow> None
           | key_absent \<Rightarrow> Some (if deny then ma_report (unknown_int ops cls (dec_int i) (word_of_int i) off r) else ma_skip)
           | key_at j \<Rightarrow> Some (known_action ops cls seen k j off r))
      | mkr_text key \<Rightarrow>
          (case find_text_member cls kt key of
             Some j \<Rightarrow> Some (known_action ops cls seen k j off r)
           | None \<Rightarrow> Some (if ignored \<noteq> [] \<and> key = ignored then ma_skip
                           else if deny then ma_report (unknown_text ops cls key off r) else ma_skip)))"

subsection \<open>The rounds over the entries\<close>

text \<open>The members a key can lead to, each with what decodes it in place.\<close>

type_synonym 'r members = "(field_meta \<times> (cval \<Rightarrow> 'r \<Rightarrow> (cval, 'r) outcome)) list"

definition decode_member :: "('r, 'c, 'm) reader_ops \<Rightarrow> 'r members \<Rightarrow> nat \<Rightarrow> cval list \<Rightarrow> 'r \<Rightarrow> (cval list, 'r) outcome" where
  "decode_member ops members i vs r =
     (case find (\<lambda>(f, dec). member_index (fm_info f) = i) members of
        None \<Rightarrow> returns (Inr ()) vs r
      | Some (f, dec) \<Rightarrow>
          rewrap (\<lambda>v. vs[i := v]) (at_step ops (push_member (ident_of (fm_info f))) (dec (vs ! i)) r))"

text \<open>In collect mode a member's failure, unless it is one of syntax, is recorded, the reader rewound, and the
  value skipped.\<close>

fun struct_loop :: "('r, 'c, 'm) reader_ops \<Rightarrow> nat \<Rightarrow> rclass \<Rightarrow> string \<Rightarrow> 'r members \<Rightarrow> 'm \<Rightarrow> cval list \<Rightarrow> bool list \<Rightarrow> 'r
    \<Rightarrow> (cval list \<times> bool list, 'r) outcome" where
  "struct_loop ops 0 cls ignored members c vs seen r = None"
| "struct_loop ops (Suc n) cls ignored members c vs seen r =
     on_ok (rd_map_next ops c r) (vs, seen) (\<lambda>(again, c) r.
       if \<not> again then returns (Inr ()) (vs, seen) r
       else
         let (off, r) = rd_offset ops r in
         on_ok (read_member_key ops (kt_any (keys_of ops cls)) r) (vs, seen) (\<lambda>k r.
           case key_action ops cls ignored seen k off r of
             None \<Rightarrow> None
           | Some ma_skip \<Rightarrow>
               on_ok (rd_skip ops r) (vs, seen) (\<lambda>u r. struct_loop ops n cls ignored members c vs seen r)
           | Some (ma_reject e) \<Rightarrow> on_ok (rd_skip ops r) (vs, seen) (\<lambda>u r. throws e (vs, seen) r)
           | Some (ma_report e) \<Rightarrow>
               if collects ops then
                 on_ok (rd_skip ops (push_collected ops e r)) (vs, seen)
                   (\<lambda>u r. struct_loop ops n cls ignored members c vs seen r)
               else throws e (vs, seen) r
           | Some (ma_decode i) \<Rightarrow>
               after_step (decode_member ops members i vs r) (\<lambda>st vs' r'.
                 case st of
                   Inr u \<Rightarrow> struct_loop ops n cls ignored members c vs' (seen[i := True]) r'
                 | Inl e \<Rightarrow>
                     if collects ops \<and> \<not> is_syntax_error (code e) then
                       on_ok (rd_skip ops (rd_restore ops (rd_save ops r) (push_collected ops e r'))) (vs', seen[i := True])
                         (\<lambda>u r. struct_loop ops n cls ignored members c vs' (seen[i := True]) r)
                     else throws e (vs', seen[i := True]) r')))"

subsection \<open>Members that did not come\<close>

definition read_present_key :: "('r, 'c, 'm) reader_ops \<Rightarrow> 'r \<Rightarrow> string result \<times> 'r" where
  "read_present_key ops r0 =
     (case rd_key_kind ops r0 of
        kind_uint \<Rightarrow> (case rd_key_uint ops r0 of (Inl e, r) \<Rightarrow> (Inl e, r) | (Inr u, r) \<Rightarrow> (Inr (dec_u64 u), r))
      | kind_sint \<Rightarrow> (case rd_key_sint ops r0 of (Inl e, r) \<Rightarrow> (Inl e, r) | (Inr i, r) \<Rightarrow> (Inr (dec_int i), r))
      | _ \<Rightarrow> (case rd_key_text ops r0 of (Inl e, r) \<Rightarrow> (Inl e, r)
              | (Inr t, r) \<Rightarrow> (Inr ([CHR 0x22] @ t_text t @ [CHR 0x22]), r)))"

fun present_keys :: "('r, 'c, 'm) reader_ops \<Rightarrow> nat \<Rightarrow> 'm \<Rightarrow> nat \<Rightarrow> error \<Rightarrow> 'r \<Rightarrow> ((nat \<times> error) \<times> 'r) option" where
  "present_keys ops 0 c cnt e r = None"
| "present_keys ops (Suc n) c cnt e r =
     (case rd_map_next ops c r of
        (Inl _, r) \<Rightarrow> Some ((cnt, e), r)
      | (Inr (again, c), r) \<Rightarrow>
          if \<not> again then Some ((cnt, e), r)
          else (case read_present_key ops r of
              (Inl _, r) \<Rightarrow> Some ((cnt, e), r)
            | (Inr s, r) \<Rightarrow>
                (case rd_skip ops r of
                   (Inl _, r) \<Rightarrow> Some ((cnt + 1, with_candidate s e), r)
                 | (Inr _, r) \<Rightarrow> present_keys ops n c (cnt + 1) (with_candidate s e) r)))"

text \<open>The map is scanned again from its start, and the reader put back.\<close>

definition describe_present_keys :: "('r, 'c, 'm) reader_ops \<Rightarrow> nat \<Rightarrow> u64 \<Rightarrow> error \<Rightarrow> 'r \<Rightarrow> (error \<times> 'r) option" where
  "describe_present_keys ops n start e r =
     (case rd_map ops (rd_restore ops start r) of
        (Inl _, r1) \<Rightarrow> Some (with_found (dec_nat 0) e, rd_restore ops (rd_save ops r) r1)
      | (Inr c, r1) \<Rightarrow>
          (case present_keys ops n c 0 e r1 of
             None \<Rightarrow> None
           | Some ((cnt, e1), r2) \<Rightarrow> Some (with_found (dec_nat cnt) e1, rd_restore ops (rd_save ops r) r2)))"

text \<open>\<^verbatim>\<open>m = dv\<close>, with the conversion to the member's type; where the source does not compile the member stays. A
  real outside the range of an integer member is undefined in the source; here it wraps.\<close>

fun cast_int :: "dtype \<Rightarrow> int \<Rightarrow> cval \<Rightarrow> cval" where
  "cast_int dt_bool i old = v_bool (i \<noteq> 0)"
| "cast_int dt_char i old = v_char (char_of (nat (i mod 256)))"
| "cast_int (dt_uint b d) i old = v_uint (word_of_int (take_bit b i))"
| "cast_int (dt_sint b d) i old = v_sint (word_of_int (signed_take_bit (b - 1) i))"
| "cast_int (dt_real single) i old =
     v_real (if single then from_float (mk_float (i < 0) (round_mag Single \<bar>i\<bar> 0)) else mk_double (i < 0) (round_mag Double \<bar>i\<bar> 0))"
| "cast_int (dt_enum e sg b d) i old = v_enum e sg (to_underlying sg b i)"
| "cast_int (dt_optional t) i old = v_optional (Some (cast_int t i (initial_value t)))"
| "cast_int _ i old = old"

definition truncate_double :: "u64 \<Rightarrow> int" where
  "truncate_double d = (if d_neg d then - dy_floor (d_sig d) (d_exp d) else dy_floor (d_sig d) (d_exp d))"

fun cast_real :: "dtype \<Rightarrow> u64 \<Rightarrow> cval \<Rightarrow> cval" where
  "cast_real (dt_real single) x old = v_real (if single then from_float (to_float x) else x)"
| "cast_real (dt_uint b d) x old = v_uint (word_of_int (take_bit b (truncate_double x)))"
| "cast_real (dt_sint b d) x old = v_sint (word_of_int (signed_take_bit (b - 1) (truncate_double x)))"
| "cast_real dt_bool x old = v_bool (d_mag x \<noteq> 0)"
| "cast_real dt_char x old = v_char (char_of (nat (truncate_double x mod 256)))"
| "cast_real (dt_optional t) x old = v_optional (Some (cast_real t x (initial_value t)))"
| "cast_real _ x old = old"

fun assign_text :: "dtype \<Rightarrow> string \<Rightarrow> cval \<Rightarrow> cval" where
  "assign_text (dt_string view d) s old = v_string s"
| "assign_text (dt_optional (dt_string view d)) s old = v_optional (Some (v_string s))"
| "assign_text _ s old = old"

definition apply_default :: "dtype \<Rightarrow> default_payload \<Rightarrow> cval \<Rightarrow> cval" where
  "apply_default t dv old =
     (case dv of default_text s \<Rightarrow> assign_text t s old | default_int i \<Rightarrow> cast_int t i old | default_real x \<Rightarrow> cast_real t x old)"

definition missing_error :: "('r, 'c, 'm) reader_ops \<Rightarrow> rclass \<Rightarrow> field_meta \<Rightarrow> nat \<Rightarrow> 'r \<Rightarrow> error" where
  "missing_error ops cls f off r =
     (let e = with_context (ti_name (build_type_info cls)) (with_container_offset off
                (with_detail (wire_name (fm_info f)) (rd_error ops r missing_field off)));
          kt = keys_of ops cls; k = kt_keys kt ! member_index (fm_info f)
      in if kt_any kt \<and> ik_present k then with_expected (dec_int (ik_value k)) e else e)"

fun missing_members :: "('r, 'c, 'm) reader_ops \<Rightarrow> nat \<Rightarrow> rclass \<Rightarrow> nat \<Rightarrow> u64 \<Rightarrow> bool list \<Rightarrow> (field_meta \<times> dtype) list
    \<Rightarrow> status \<Rightarrow> cval list \<Rightarrow> 'r \<Rightarrow> (cval list, 'r) outcome" where
  "missing_members ops n cls off start seen [] missing vs r = returns missing vs r"
| "missing_members ops n cls off start seen ((f, t) # fs) missing vs r =
     (let i = member_index (fm_info f) in
      if fi_skip_deserializing (fm_info f) \<or> seen ! i then missing_members ops n cls off start seen fs missing vs r
      else if fi_required (fm_info f) then
        (case missing of
           Inl e \<Rightarrow> missing_members ops n cls off start seen fs missing vs r
         | Inr u \<Rightarrow>
             (case describe_present_keys ops n start (missing_error ops cls f off r) r of
                None \<Rightarrow> None
              | Some (e, r) \<Rightarrow>
                  if collects ops then missing_members ops n cls off start seen fs missing vs (push_collected ops e r)
                  else missing_members ops n cls off start seen fs (Inl e) vs r))
      else
        (case fm_default f of
           Some dv \<Rightarrow> missing_members ops n cls off start seen fs missing (vs[i := apply_default t dv (vs ! i)]) r
         | None \<Rightarrow> missing_members ops n cls off start seen fs missing vs r))"

definition decode_object :: "('r, 'c, 'm) reader_ops \<Rightarrow> nat \<Rightarrow> rclass \<Rightarrow> string \<Rightarrow> 'r members \<Rightarrow> (field_meta \<times> dtype) list
    \<Rightarrow> cval list \<Rightarrow> 'r \<Rightarrow> (cval list, 'r) outcome" where
  "decode_object ops n cls ignored members typed vs r0 =
     (let (off, r) = rd_offset ops r0; start = rd_save ops r
      in on_ok (rd_map ops r) vs (\<lambda>c r.
           after_step (struct_loop ops n cls ignored members c vs (replicate (length (build_schema cls)) False) r)
             (\<lambda>st (vs, seen) r. case st of
                Inl e \<Rightarrow> throws e vs r
              | Inr u \<Rightarrow> missing_members ops n cls off start seen typed (Inr ()) vs r)))"

definition decode_struct :: "('r, 'c, 'm) reader_ops \<Rightarrow> nat \<Rightarrow> rclass \<Rightarrow> string \<Rightarrow> 'r members \<Rightarrow> (field_meta \<times> dtype) list
    \<Rightarrow> cval list \<Rightarrow> 'r \<Rightarrow> (cval list, 'r) outcome" where
  "decode_struct ops n cls ignored members typed vs r =
     (if ti_transparent (build_type_info cls) then
        (case members of
           (f, dec) # _ \<Rightarrow> decode_member ops members (member_index (fm_info f)) vs r
         | [] \<Rightarrow> decode_object ops n cls ignored members typed vs r)
      else decode_object ops n cls ignored members typed vs r)"

section \<open>Variants\<close>

text \<open>The rest of the object is read so that an error of syntax in it is still found.\<close>

fun skip_rest :: "('r, 'c, 'm) reader_ops \<Rightarrow> nat \<Rightarrow> 'm \<Rightarrow> 'o \<Rightarrow> 'r \<Rightarrow> ('o, 'r) outcome" where
  "skip_rest ops 0 c out r = None"
| "skip_rest ops (Suc n) c out r =
     on_ok (rd_map_next ops c r) out (\<lambda>(again, c) r.
       if \<not> again then returns (Inr ()) out r
       else on_ok (rd_key_text ops r) out (\<lambda>k r. on_ok (rd_skip ops r) out (\<lambda>u r. skip_rest ops n c out r)))"

text \<open>The first pass: the discriminator with its offset, \<open>None\<close> when the object has none.\<close>

fun find_tag :: "('r, 'c, 'm) reader_ops \<Rightarrow> nat \<Rightarrow> string \<Rightarrow> 'm \<Rightarrow> 'r \<Rightarrow> ((string \<times> nat) option, 'r) outcome" where
  "find_tag ops 0 tag c r = None"
| "find_tag ops (Suc n) tag c r =
     on_ok (rd_map_next ops c r) None (\<lambda>(again, c) r.
       if \<not> again then returns (Inr ()) None r
       else
         let (key_off, r) = rd_offset ops r in
         on_ok (rd_key_text ops r) None (\<lambda>k r.
           if t_text k = tag then
             (let (tag_off, r) = rd_offset ops r in
              on_ok (rd_text ops r) None (\<lambda>tv r. skip_rest ops n c (Some (t_text tv, tag_off)) r))
           else on_ok (rd_skip ops r) None (\<lambda>u r. find_tag ops n tag c r)))"

text \<open>The second pass over an externally tagged alternative; the flag says whether the value came.\<close>

fun external_loop :: "('r, 'c, 'm) reader_ops \<Rightarrow> nat \<Rightarrow> (cval \<Rightarrow> 'r \<Rightarrow> (cval, 'r) outcome) \<Rightarrow> 'm \<Rightarrow> bool \<Rightarrow> cval \<Rightarrow> 'r
    \<Rightarrow> (bool \<times> cval, 'r) outcome" where
  "external_loop ops 0 dec c have v r = None"
| "external_loop ops (Suc n) dec c have v r =
     on_ok (rd_map_next ops c r) (have, v) (\<lambda>(again, c) r.
       if \<not> again then returns (Inr ()) (have, v) r
       else
         let (key_off, r) = rd_offset ops r in
         on_ok (rd_key_text ops r) (have, v) (\<lambda>k r.
           if t_text k = variant_value_key then
             after_step (at_step ops (push_member variant_value_key) (dec v) r) (\<lambda>st v r.
               case st of Inl e \<Rightarrow> throws e (True, v) r | Inr u \<Rightarrow> external_loop ops n dec c True v r)
           else on_ok (rd_skip ops r) (have, v) (\<lambda>u r. external_loop ops n dec c have v r)))"

definition decode_external :: "('r, 'c, 'm) reader_ops \<Rightarrow> nat \<Rightarrow> string \<Rightarrow> nat \<Rightarrow> (cval \<Rightarrow> 'r \<Rightarrow> (cval, 'r) outcome) \<Rightarrow> cval \<Rightarrow> 'r
    \<Rightarrow> (cval, 'r) outcome" where
  "decode_external ops n d off dec v r =
     on_ok (rd_map ops r) v (\<lambda>c r.
       after_step (external_loop ops n dec c False v r) (\<lambda>st (have, v) r. case st of
         Inl e \<Rightarrow> throws e v r
       | Inr u \<Rightarrow>
           if have then returns (Inr ()) v r
           else throws (with_context d (with_container_offset off
                  (with_detail variant_value_key (rd_error ops r missing_field off)))) v r))"

text \<open>An alternative: its name, whether it is internally tagged, its initial value, what decodes it in place.\<close>

type_synonym 'r alternatives = "(string \<times> bool \<times> cval \<times> (cval \<Rightarrow> 'r \<Rightarrow> (cval, 'r) outcome)) list"

definition offer_names :: "'r alternatives \<Rightarrow> error \<Rightarrow> error" where
  "offer_names alts e = fold (\<lambda>(name, a). with_candidate name) alts e"

definition decode_alternative :: "('r, 'c, 'm) reader_ops \<Rightarrow> nat \<Rightarrow> string \<Rightarrow> nat \<Rightarrow> string \<times> bool \<times> cval \<times> (cval \<Rightarrow> 'r \<Rightarrow> (cval, 'r) outcome)
    \<Rightarrow> 'r \<Rightarrow> (cval, 'r) outcome" where
  "decode_alternative ops n d off alt r =
     (case alt of (name, inner, v0, dec) \<Rightarrow>
        rewrap (\<lambda>v. v_variant (Some (name, v))) (if inner then dec v0 r else decode_external ops n d off dec v0 r))"

definition decode_variant :: "('r, 'c, 'm) reader_ops \<Rightarrow> nat \<Rightarrow> string \<Rightarrow> string \<Rightarrow> 'r alternatives \<Rightarrow> cval \<Rightarrow> 'r
    \<Rightarrow> (cval, 'r) outcome" where
  "decode_variant ops n tag d alts out r0 =
     (let start = rd_save ops r0; (off, r) = rd_offset ops r0
      in on_ok (rd_map ops r) out (\<lambda>c r.
           after_step (find_tag ops n tag c r) (\<lambda>st found r. case st of
             Inl e \<Rightarrow> throws e out r
           | Inr u \<Rightarrow>
               (case found of
                  None \<Rightarrow> throws (offer_names alts (with_context d (with_container_offset off
                     (with_detail tag (rd_error ops r missing_tag off))))) out r
                | Some (name, tag_off) \<Rightarrow>
                    (case find (\<lambda>alt. fst alt = name) (rev alts) of
                       None \<Rightarrow> throws (push_key_text tag (offer_names alts (with_length (length name + 2)
                         (with_context d (with_detail name (rd_error ops r no_variant_alternative tag_off)))))) out r
                     | Some alt \<Rightarrow> decode_alternative ops n d off alt (rd_restore ops start r))))))"

section \<open>Dispatch\<close>

definition run_codec_decode :: "'r decode_codec \<Rightarrow> cval \<Rightarrow> 'r \<Rightarrow> (cval, 'r) outcome" where
  "run_codec_decode codec out r =
     (case codec of
        dc_into f \<Rightarrow> Some (f out r)
      | dc_value f \<Rightarrow> on_ok (f r) out (\<lambda>v r. returns (Inr ()) v r))"

text \<open>The tags the format expects before a value of the type.\<close>

definition destination_tags :: "('r, 'c, 'm) reader_ops \<Rightarrow> field_meta \<Rightarrow> dtype \<Rightarrow> u64 list" where
  "destination_tags ops F t =
     (let tags = ft_expected_tags (rd_traits ops) (fm_annotations F)
      in case t of
           dt_class c ts vs \<Rightarrow> tags False (Some (type_annotations_of c))
         | dt_codec name sys ca v \<Rightarrow> tags sys ca
         | _ \<Rightarrow> tags False None)"

definition tag_context :: "field_meta \<Rightarrow> error \<Rightarrow> error" where
  "tag_context F e = (if in_member F \<and> code e = tag_mismatch then with_context (ident_of (fm_info F)) e else e)"

definition class_of :: "dtype \<Rightarrow> (rclass \<times> dtype list) option" where
  "class_of t = (case t of dt_class c ts vs \<Rightarrow> Some (c, ts) | _ \<Rightarrow> None)"

definition optional_type :: "dtype \<Rightarrow> dtype option" where
  "optional_type t = (case t of dt_optional u \<Rightarrow> Some u | _ \<Rightarrow> None)"

definition tagged_inside :: "dtype \<Rightarrow> bool" where
  "tagged_inside t = (case class_of t of Some (c, ts) \<Rightarrow> \<not> ti_transparent (build_type_info c) | None \<Rightarrow> False)"

text \<open>\<^verbatim>\<open>decode_optional\<close>, and the same branch of \<^verbatim>\<open>decode_field_value\<close>: null empties, anything else is decoded into a
  new value. \<open>dec\<close> is the decoder of the contained type, \<open>v0\<close> its initial value.\<close>

definition decode_optional :: "('r, 'c, 'm) reader_ops \<Rightarrow> cval \<Rightarrow> (cval \<Rightarrow> 'r \<Rightarrow> (cval, 'r) outcome) \<Rightarrow> cval \<Rightarrow> 'r \<Rightarrow> (cval, 'r) outcome" where
  "decode_optional ops v0 dec out r0 =
     (case rd_peek ops r0 of (k, r) \<Rightarrow>
        if k = kind_null then on_ok (rd_null ops r) out (\<lambda>u r. returns (Inr ()) (v_optional None) r)
        else rewrap (\<lambda>v. v_optional (Some v)) (dec v0 r))"

lemma optional_type_size [termination_simp]: "optional_type t = Some u \<Longrightarrow> size u < size t"
  by (auto simp: optional_type_def split: dtype.splits)

lemma class_of_size [termination_simp]: "class_of t = Some (c, ts) \<Longrightarrow> (f, u) \<in> set (zip fs ts) \<Longrightarrow> size u < size t"
  using size_list_member [of u ts size] by (auto simp: class_of_def less_Suc_eq split: dtype.splits dest: set_zip_rightD)

lemma alternative_size [termination_simp]:
  "(name, u) \<in> set alts \<Longrightarrow> size u < Suc (size_list (size_prod (\<lambda>x. 0) size) alts)"
  by (auto dest!: size_list_member [where f = "size_prod (\<lambda>x. 0) size"])

function decode_value :: "('r, 'c, 'm) reader_ops \<Rightarrow> nat \<Rightarrow> field_meta \<Rightarrow> dtype \<Rightarrow> cval \<Rightarrow> 'r \<Rightarrow> (cval, 'r) outcome"
  and decode_shape :: "('r, 'c, 'm) reader_ops \<Rightarrow> nat \<Rightarrow> field_meta \<Rightarrow> dtype \<Rightarrow> cval \<Rightarrow> 'r \<Rightarrow> (cval, 'r) outcome"
  and decode_class :: "('r, 'c, 'm) reader_ops \<Rightarrow> nat \<Rightarrow> string \<Rightarrow> dtype \<Rightarrow> cval \<Rightarrow> 'r \<Rightarrow> (cval, 'r) outcome"
  and decode_field_value :: "('r, 'c, 'm) reader_ops \<Rightarrow> nat \<Rightarrow> field_meta \<Rightarrow> dtype \<Rightarrow> cval \<Rightarrow> 'r \<Rightarrow> (cval, 'r) outcome"
where
  "decode_value ops n F t out r =
     (case fm_codec F of
        Some name \<Rightarrow> run_codec_decode (rd_with ops name F) out r
      | None \<Rightarrow> decode_shape ops n F t out r)"
| "decode_shape ops n F (dt_codec name sys ca v) out r = run_codec_decode (rd_codec_for ops name F) out r"
| "decode_shape ops n F dt_bool out r = on_ok (rd_boolean ops r) out (\<lambda>b r. returns (Inr ()) (v_bool b) r)"
| "decode_shape ops n F dt_char out r = decode_char ops out r"
| "decode_shape ops n F (dt_uint bits d) out r = decode_uint ops F bits d out r"
| "decode_shape ops n F (dt_sint bits d) out r = decode_sint ops F bits d out r"
| "decode_shape ops n F (dt_real single) out r = decode_real ops single out r"
| "decode_shape ops n F (dt_enum e sg bits d) out r = decode_enum ops F e sg bits d out r"
| "decode_shape ops n F (dt_string view d) out r = decode_string ops F view d out r"
| "decode_shape ops n F (dt_optional u) out r = decode_optional ops (initial_value u) (decode_value ops n F u) out r"
| "decode_shape ops n F (dt_variant d alts) out r =
     decode_variant ops n (tag_key (fm_info F)) d
       (map (\<lambda>(name, u). (name, tagged_inside u, initial_value u,
          if tagged_inside u then decode_class ops n (tag_key (fm_info F)) u else decode_value ops n no_field u)) alts) out r"
| "decode_shape ops n F (dt_span d) out r = decode_span ops F d out r"
| "decode_shape ops n F (dt_byte_range be dest d) out r =
     (if ft_is_bytes (rd_traits ops) be (fm_annotations F) then decode_octets ops F be dest out r
      else rewrap (\<lambda>vs. v_byte_range be (octets_of vs))
        (case dest of
           bd_array k \<Rightarrow> decode_positional ops n (replicate k (decode_uint ops F 8 d)) (elems_of out) r
         | bd_vector \<Rightarrow> decode_sequence ops n (decode_uint ops F 8 d (v_uint 0)) (\<lambda>vs v. vs @ [v]) True (elems_of out) r))"
| "decode_shape ops n F (dt_map mc d kt u) out r =
     rewrap (v_map (mc_sized mc)) (decode_map ops n F mc d kt (initial_value u) (decode_value ops n F u) (entries_of out) r)"
| "decode_shape ops n F (dt_tuple ts) out r =
     rewrap v_tuple (decode_positional ops n (map (decode_value ops n F) ts) (elems_of out) r)"
| "decode_shape ops n F (dt_array k im u) out r =
     rewrap (\<lambda>vs. v_sequence True (im vs) vs) (decode_positional ops n (replicate k (decode_value ops n F u)) (elems_of out) r)"
| "decode_shape ops n F (dt_sequence ct u) out r =
     rewrap (\<lambda>vs. v_sequence (ct_sized ct) (ct_image ct vs) vs)
       (decode_sequence ops n (decode_value ops n F u (initial_value u)) (ct_append ct) (ct_clears ct) (elems_of out) r)"
| "decode_shape ops n F (dt_class c ts vs) out r = decode_class ops n [] (dt_class c ts vs) out r"
| "decode_class ops n ignored t out r =
     (case class_of t of
        None \<Rightarrow> returns (Inr ()) out r
      | Some (c, ts) \<Rightarrow>
          rewrap (v_class c)
            (decode_struct ops n c ignored
              (map (\<lambda>(f, u). (f, decode_field_value ops n f u)) (zip (build_fields c) ts)) (zip (build_fields c) ts)
              (elems_of out) r))"
| "decode_field_value ops n F t out r =
     (case optional_type t of
        Some u \<Rightarrow> decode_optional ops (initial_value u) (decode_field_value ops n F u) out r
      | None \<Rightarrow>
          (case rd_tags ops (destination_tags ops F t) r of
             (Inl e, r) \<Rightarrow> throws (tag_context F e) out r
           | (Inr _, r) \<Rightarrow>
               (case rd_range ops t of
                  None \<Rightarrow> decode_value ops n F t out r
                | Some read_range \<Rightarrow>
                    (case read_range out r of
                       (Inl e, v, r) \<Rightarrow> throws e v r
                     | (Inr handled, v, r) \<Rightarrow>
                         if handled then returns (Inr ()) v r else decode_value ops n F t v r))))"
  by pat_completeness auto
termination
  by (relation "measures
      [case_sum (case_sum (\<lambda>(_, _, _, t, _). size t) (\<lambda>(_, _, _, t, _). size t))
         (case_sum (\<lambda>(_, _, _, t, _). size t) (\<lambda>(_, _, _, t, _). size t)),
       case_sum (case_sum (\<lambda>_. 2) (\<lambda>_. 1)) (case_sum (\<lambda>_. 0) (\<lambda>_. 3))]")
    (auto simp: termination_simp size_list_estimation)

declare decode_value.simps [simp del] decode_class.simps [simp del] decode_field_value.simps [simp del]

text \<open>The entry point: every path becomes root first.\<close>

definition decode_root :: "('r, 'c, 'm) reader_ops \<Rightarrow> nat \<Rightarrow> dtype \<Rightarrow> cval \<Rightarrow> 'r \<Rightarrow> (cval, 'r) outcome" where
  "decode_root ops n t out r =
     after_step (decode_field_value ops n no_field t out r) (\<lambda>st v r.
       returns (map_sum finalize id st) v
         (if collects ops then rd_set_collected ops (map finalize (rd_collected ops r)) r else r))"

end
