(* ===== verification/Build_Laws.thy ===== *)
theory Build_Laws
  imports Core_Build
begin

text \<open>
  What the decode engine relies on in a reader, and what follows from it: a decoder returns after at most as many
  rounds of each loop as there are octets left, with or without an error, in either error mode; a value it returns
  has taken at least one octet. The locale \<open>progressing\<close> states the contract: \<open>good\<close> is the reader's invariant,
  \<open>left\<close> the octets not read yet, \<open>sib\<close> relates the states of one reader over one input. The readers of both formats
  interpret it.
\<close>

section \<open>Types with a key table the lookup is defined on\<close>

definition keys_defined :: "('r, 'c, 'm) reader_ops \<Rightarrow> rclass \<Rightarrow> bool" where
  "keys_defined ops c \<longleftrightarrow> (\<forall>k. in_i64 k \<longrightarrow> key_find (keys_of ops c) k \<noteq> key_undefined)"

fun classes_of :: "dtype \<Rightarrow> rclass list" where
  "classes_of (dt_optional t) = classes_of t"
| "classes_of (dt_variant d alts) = concat (map (\<lambda>(name, t). classes_of t) alts)"
| "classes_of (dt_map mc d k t) = classes_of t"
| "classes_of (dt_tuple ts) = concat (map classes_of ts)"
| "classes_of (dt_array n im t) = classes_of t"
| "classes_of (dt_sequence ct t) = classes_of t"
| "classes_of (dt_class c ts vs) = c # concat (map classes_of ts)"
| "classes_of _ = []"

definition type_keys_defined :: "('r, 'c, 'm) reader_ops \<Rightarrow> dtype \<Rightarrow> bool" where
  "type_keys_defined ops t \<longleftrightarrow> (\<forall>c\<in>set (classes_of t). keys_defined ops c)"

text \<open>Without integer keys the table is empty; a table whose smallest key is not negative never overflows.\<close>

lemma key_find_defined:
  assumes "kt_dense t \<Longrightarrow> 0 \<le> kt_base t" "in_i64 k"
  shows "key_find t k \<noteq> key_undefined"
proof -
  have b: "bisect es k lo hi \<noteq> key_undefined" for es lo hi
    by (induction es k lo hi rule: bisect.induct) (subst bisect.simps, auto simp: Let_def)
  show ?thesis using assms b by (auto simp: key_find_def in_i64_def Let_def)
qed

text \<open>The two ways of \<open>decode_field_value\<close>.\<close>

lemma field_value_optional:
  "optional_type t = Some u \<Longrightarrow>
     decode_field_value ops n F t out r = decode_optional ops (initial_value u) (decode_field_value ops n F u) out r"
  by (subst decode_field_value.simps) simp

lemma field_value_plain:
  "optional_type t = None \<Longrightarrow> decode_field_value ops n F t out r =
     (case rd_tags ops (destination_tags ops F t) r of
        (Inl e, r) \<Rightarrow> throws (tag_context F e) out r
      | (Inr _, r) \<Rightarrow>
          (case rd_range ops t of
             None \<Rightarrow> decode_value ops n F t out r
           | Some read_range \<Rightarrow>
               (case read_range out r of
                  (Inl e, v, r) \<Rightarrow> throws e v r
                | (Inr handled, v, r) \<Rightarrow> if handled then returns (Inr ()) v r else decode_value ops n F t v r)))"
  by (subst decode_field_value.simps) simp

section \<open>The contract\<close>

text \<open>An operation keeps the reader good, and takes at least \<open>b\<close> octets when it succeeds.\<close>

definition advances :: "('r \<Rightarrow> bool) \<Rightarrow> ('r \<Rightarrow> 'r \<Rightarrow> bool) \<Rightarrow> ('r \<Rightarrow> nat) \<Rightarrow> nat \<Rightarrow> ('r \<Rightarrow> 'a result \<times> 'r) \<Rightarrow> bool" where
  "advances good sib left b f \<longleftrightarrow> (\<forall>r. good r \<longrightarrow> (case f r of (res, r') \<Rightarrow>
     good r' \<and> sib r r' \<and> (\<forall>x. res = Inr x \<longrightarrow> left r' + b \<le> left r)))"

fun codec_advances :: "('r \<Rightarrow> bool) \<Rightarrow> ('r \<Rightarrow> 'r \<Rightarrow> bool) \<Rightarrow> ('r \<Rightarrow> nat) \<Rightarrow> 'r decode_codec \<Rightarrow> bool" where
  "codec_advances good sib left (dc_value f) = advances good sib left 1 f"
| "codec_advances good sib left (dc_into f) =
     (\<forall>out. advances good sib left 1 (\<lambda>r. case f out r of ((st, v), r') \<Rightarrow> (st, r')))"

text \<open>A range hook that has handled the value has taken at least one octet.\<close>

definition range_advances :: "('r \<Rightarrow> bool) \<Rightarrow> ('r \<Rightarrow> 'r \<Rightarrow> bool) \<Rightarrow> ('r \<Rightarrow> nat) \<Rightarrow> (cval \<Rightarrow> 'r \<Rightarrow> bool result \<times> cval \<times> 'r) \<Rightarrow> bool" where
  "range_advances good sib left f \<longleftrightarrow> (\<forall>v r. good r \<longrightarrow> (case f v r of (res, v', r') \<Rightarrow>
     good r' \<and> sib r r' \<and> (\<forall>x. res = Inr x \<longrightarrow> left r' + (if x then 1 else 0) \<le> left r)))"

definition moves :: "('r \<Rightarrow> bool) \<Rightarrow> ('r \<Rightarrow> 'r \<Rightarrow> bool) \<Rightarrow> ('r \<Rightarrow> nat) \<Rightarrow> ('r \<Rightarrow> 'a \<times> 'r) \<Rightarrow> bool" where
  "moves good sib left f \<longleftrightarrow> (\<forall>r. good r \<longrightarrow> (case f r of (x, r') \<Rightarrow> good r' \<and> sib r r' \<and> left r' \<le> left r))"

locale progressing =
  fixes ops :: "('r, 'c, 'm) reader_ops" and good :: "'r \<Rightarrow> bool" and left :: "'r \<Rightarrow> nat" and sib :: "'r \<Rightarrow> 'r \<Rightarrow> bool"
  assumes sib_refl: "sib r r"
    and sib_sym: "sib r r' \<Longrightarrow> sib r' r"
    and sib_trans: "sib r r' \<Longrightarrow> sib r' r'' \<Longrightarrow> sib r r''"
    and null_step: "advances good sib left 1 (rd_null ops)"
    and boolean_step: "advances good sib left 1 (rd_boolean ops)"
    and uint_step: "advances good sib left 1 (rd_uint ops anns)"
    and sint_step: "advances good sib left 1 (rd_sint ops anns)"
    and real_step: "advances good sib left 1 (rd_real ops)"
    and text_step: "advances good sib left 1 (rd_text ops)"
    and bytes_step: "advances good sib left 1 (rd_bytes ops anns)"
    and array_step: "advances good sib left 1 (rd_array ops)"
    and map_step: "advances good sib left 1 (rd_map ops)"
    and key_text_step: "advances good sib left 1 (rd_key_text ops)"
    and key_uint_step: "advances good sib left 1 (rd_key_uint ops)"
    and key_sint_step: "advances good sib left 1 (rd_key_sint ops)"
    and skip_step: "advances good sib left 1 (rd_skip ops)"
    and seq_next_step: "advances good sib left 0 (rd_seq_next ops cs)"
    and map_next_step: "advances good sib left 0 (rd_map_next ops cm)"
    and tags_step: "advances good sib left 0 (rd_tags ops ts)"
    and range_step: "rd_range ops t = Some f \<Longrightarrow> range_advances good sib left f"
    and peek_step: "moves good sib left (rd_peek ops)"
    and offset_step: "moves good sib left (rd_offset ops)"
    and key_sint_range: "rd_key_sint ops r = (Inr k, r') \<Longrightarrow> in_i64 k"
    and restore_step: "good r \<Longrightarrow> good r' \<Longrightarrow> sib r r' \<Longrightarrow>
       good (rd_restore ops (rd_save ops r) r') \<and> sib r (rd_restore ops (rd_save ops r) r')
       \<and> left (rd_restore ops (rd_save ops r) r') = left r"
    and collect_step: "good (rd_set_collected ops es r) = good r" "sib r (rd_set_collected ops es r)"
       "left (rd_set_collected ops es r) = left r"
begin

definition keeps :: "'r \<Rightarrow> 'r \<Rightarrow> bool" where
  "keeps r r' \<longleftrightarrow> good r' \<and> sib r r'"

text \<open>\<open>step b r m\<close>: the answer keeps the reader and has taken \<open>b\<close> octets if it is not an error; \<open>settles b r m\<close>: so does
  a decoder, which returns.\<close>

definition step :: "nat \<Rightarrow> 'r \<Rightarrow> 'a result \<times> 'r \<Rightarrow> bool" where
  "step b r m \<longleftrightarrow> (case m of (res, r') \<Rightarrow> keeps r r' \<and> (\<forall>x. res = Inr x \<longrightarrow> left r' + b \<le> left r))"

definition settles :: "nat \<Rightarrow> 'r \<Rightarrow> ('o, 'r) outcome \<Rightarrow> bool" where
  "settles b r m \<longleftrightarrow> (case m of None \<Rightarrow> False
     | Some ((st, v), r') \<Rightarrow> keeps r r' \<and> (st = Inr () \<longrightarrow> left r' + b \<le> left r))"

lemma keeps_refl: "good r \<Longrightarrow> keeps r r"
  by (simp add: keeps_def sib_refl)

lemma keeps_trans: "keeps r r' \<Longrightarrow> keeps r' r'' \<Longrightarrow> keeps r r''"
  unfolding keeps_def by (metis sib_trans)

lemma keeps_good: "keeps r r' \<Longrightarrow> good r'"
  by (simp add: keeps_def)

lemma advances_step: "advances good sib left b f \<Longrightarrow> good r \<Longrightarrow> step b r (f r)"
  by (simp add: advances_def step_def keeps_def)

lemmas steps =
  null_step [THEN advances_step] boolean_step [THEN advances_step] uint_step [THEN advances_step]
  sint_step [THEN advances_step] real_step [THEN advances_step] text_step [THEN advances_step]
  bytes_step [THEN advances_step] array_step [THEN advances_step] map_step [THEN advances_step]
  key_text_step [THEN advances_step] key_uint_step [THEN advances_step] key_sint_step [THEN advances_step]
  skip_step [THEN advances_step] seq_next_step [THEN advances_step] map_next_step [THEN advances_step]
  tags_step [THEN advances_step]

lemma peek_moves: "good r \<Longrightarrow> rd_peek ops r = (k, r') \<Longrightarrow> keeps r r' \<and> left r' \<le> left r"
  using peek_step by (fastforce simp: moves_def keeps_def)

lemma offset_moves: "good r \<Longrightarrow> rd_offset ops r = (k, r') \<Longrightarrow> keeps r r' \<and> left r' \<le> left r"
  using offset_step by (fastforce simp: moves_def keeps_def)

section \<open>Composition\<close>

lemma settles_returns: "keeps r r' \<Longrightarrow> left r' + b \<le> left r \<Longrightarrow> settles b r (returns st v r')"
  by (simp add: settles_def returns_def)

lemma settles_throws: "keeps r r' \<Longrightarrow> settles b r (throws e v r')"
  by (simp add: settles_def throws_def)

lemma settles_weaken: "settles b r m \<Longrightarrow> b' \<le> b \<Longrightarrow> settles b' r m"
  by (fastforce simp: settles_def split: option.splits)

lemma settles_from: "keeps r r' \<Longrightarrow> left r' + a \<le> left r \<Longrightarrow> settles b r' m \<Longrightarrow> settles (a + b) r m"
  by (fastforce simp: settles_def split: option.splits dest: keeps_trans)

lemma settles_on_ok:
  assumes "step a r m"
    and "\<And>x r'. m = (Inr x, r') \<Longrightarrow> keeps r r' \<Longrightarrow> left r' + a \<le> left r \<Longrightarrow> settles b r' (k x r')"
  shows "settles (a + b) r (on_ok m out k)"
proof -
  obtain res r' where m: "m = (res, r')" by force
  show ?thesis
  proof (cases res)
    case (Inl e)
    with assms(1) m show ?thesis by (simp add: step_def settles_def)
  next
    case (Inr x)
    with assms(1) m have k: "keeps r r'" "left r' + a \<le> left r" by (simp_all add: step_def)
    with assms(2) [of x r'] m Inr show ?thesis by (simp add: settles_from)
  qed
qed

lemma settles_after_step:
  assumes "settles a r m"
    and "\<And>v r'. keeps r r' \<Longrightarrow> left r' + a \<le> left r \<Longrightarrow> settles b r' (k (Inr ()) v r')"
    and "\<And>e v r'. keeps r r' \<Longrightarrow> settles c r (k (Inl e) v r')" "a + b \<le> c"
  shows "settles (a + b) r (after_step m k)"
proof (cases m)
  case None
  with assms(1) show ?thesis by (simp add: settles_def)
next
  case (Some x)
  obtain st v r' where x: "x = ((st, v), r')" by (metis prod.exhaust)
  show ?thesis
  proof (cases st)
    case (Inl e)
    with assms(1,3,4) Some x settles_weaken show ?thesis by (simp add: settles_def [of a]) blast
  next
    case (Inr u)
    with assms(1) Some x have k: "keeps r r'" "left r' + a \<le> left r" by (simp_all add: settles_def)
    from settles_from [OF k assms(2) [OF k]] show ?thesis using Some x Inr by simp
  qed
qed

text \<open>After a decoder that takes an octet, and after one that need not.\<close>

lemma settles_then:
  assumes "settles 1 r m"
    and "\<And>v r'. keeps r r' \<Longrightarrow> left r' < left r \<Longrightarrow> settles 0 r' (k (Inr ()) v r')"
    and "\<And>e v r'. keeps r r' \<Longrightarrow> settles 1 r (k (Inl e) v r')"
  shows "settles 1 r (after_step m k)"
  using settles_after_step [OF assms(1), of 0 k 1] assms(2,3) by (simp add: Suc_le_eq)

lemma settles_then0:
  assumes "settles 0 r m"
    and "\<And>v r'. keeps r r' \<Longrightarrow> left r' \<le> left r \<Longrightarrow> settles b r' (k (Inr ()) v r')"
    and "\<And>e v r'. keeps r r' \<Longrightarrow> settles b r (k (Inl e) v r')"
  shows "settles b r (after_step m k)"
  using settles_after_step [OF assms(1), of b k b] assms(2,3) by simp

lemma settles_rewrap: "settles b r (rewrap f m) = settles b r m"
  by (auto simp: settles_def rewrap_def returns_def split: option.splits)

lemma keeps_annotate: "keeps r r' \<Longrightarrow> keeps r (annotate_collected ops mk stp r') \<and> left (annotate_collected ops mk stp r') = left r'"
  using collect_step by (auto simp: annotate_collected_def keeps_def intro: sib_trans)

lemma settles_at_step:
  assumes "settles b r (dec r)"
  shows "settles b r (at_step ops stp dec r)"
proof -
  obtain st v r' where d: "dec r = Some ((st, v), r')" "keeps r r'" "st = Inr () \<Longrightarrow> left r' + b \<le> left r"
    using assms by (auto simp: settles_def split: option.splits)
  with keeps_annotate [OF d(2)] show ?thesis
    by (cases st) (simp_all add: at_step_def settles_def returns_def)
qed

section \<open>The decoders\<close>

text \<open>\<open>decodes n d\<close>: within \<open>n\<close> octets \<open>d\<close> returns, and has taken one if it succeeds.\<close>

definition decodes :: "nat \<Rightarrow> ('r \<Rightarrow> ('o, 'r) outcome) \<Rightarrow> bool" where
  "decodes n d \<longleftrightarrow> (\<forall>r. good r \<longrightarrow> left r < n \<longrightarrow> settles 1 r (d r))"

lemma decodesD: "decodes n d \<Longrightarrow> good r \<Longrightarrow> left r < n \<Longrightarrow> settles 1 r (d r)"
  by (simp add: decodes_def)

lemma decodesI: "(\<And>r. good r \<Longrightarrow> left r < n \<Longrightarrow> settles 1 r (d r)) \<Longrightarrow> decodes n d"
  by (simp add: decodes_def)

lemma scalar_settles:
  assumes "good r" "\<And>r. good r \<Longrightarrow> step 1 r (f r)"
    "\<And>x r'. keeps r r' \<Longrightarrow> (\<exists>st v. k x r' = returns st v r') \<or> (\<exists>e v. k x r' = throws e v r')"
  shows "settles 1 r (on_ok (f r) out k)"
proof -
  have "settles 0 r' (k x r')" if "keeps r r'" for x r'
    using assms(3) [OF that, of x] keeps_refl [OF keeps_good [OF that]] by (auto simp: settles_returns settles_throws)
  then show ?thesis using settles_on_ok [of 1 r "f r" 0 k out, OF assms(2) [OF assms(1)]] by simp
qed

lemma returns_settles: "good r \<Longrightarrow> settles 0 r (returns st v r)"
  by (simp add: settles_returns keeps_refl)

lemma throws_settles: "good r \<Longrightarrow> settles b r (throws e v r)"
  by (simp add: settles_throws keeps_refl)

text \<open>The offset is asked for first.\<close>

lemma settles_offset:
  assumes "good r" "\<And>off r'. keeps r r' \<Longrightarrow> left r' \<le> left r \<Longrightarrow> settles b r' (k off r')"
  shows "settles b r (let (off, r') = rd_offset ops r in k off r')"
proof -
  obtain off r' where o: "rd_offset ops r = (off, r')" by force
  from offset_moves [OF assms(1) o] have "keeps r r'" "left r' + 0 \<le> left r" by simp_all
  from settles_from [OF this assms(2)] this show ?thesis by (simp add: o)
qed

lemma settles_ok1:
  assumes "step 1 r m"
    and "\<And>x r'. m = (Inr x, r') \<Longrightarrow> keeps r r' \<Longrightarrow> left r' < left r \<Longrightarrow> settles 0 r' (k x r')"
  shows "settles 1 r (on_ok m out k)"
  using settles_on_ok [OF assms(1), of 0 k] assms(2) by (simp add: Suc_le_eq)

lemma settles_ok0:
  assumes "step 0 r m"
    and "\<And>x r'. m = (Inr x, r') \<Longrightarrow> keeps r r' \<Longrightarrow> left r' \<le> left r \<Longrightarrow> settles b r' (k x r')"
  shows "settles b r (on_ok m out k)"
  using settles_on_ok [OF assms(1), of b k] assms(2) by simp

lemma decode_uint_decodes: "decodes n (decode_uint ops F bits d out)"
proof (rule decodesI)
  fix r assume g: "good r"
  have "settles 1 r (case rd_uint ops (fm_annotations F) r of
      (Inl e, r) \<Rightarrow> throws (range_context ops F d e) out r
    | (Inr u, r) \<Rightarrow> if 2 ^ bits - 1 < uint u
        then throws (with_context (type_display_for ops F d) (with_detail (dec_u64 u) (rd_error ops r out_of_range off))) out r
        else returns (Inr ()) (v_uint u) r)" if "good r" for r off
    using steps(3) [OF that, of "fm_annotations F"]
    by (auto simp: step_def settles_returns settles_throws split: sum.splits)
  then show "settles 1 r (decode_uint ops F bits d out r)"
    unfolding decode_uint_def by (intro settles_offset g) (simp add: keeps_good)
qed

lemma decode_sint_decodes: "decodes n (decode_sint ops F bits d out)"
proof (rule decodesI)
  fix r assume g: "good r"
  have "settles 1 r (case rd_sint ops (fm_annotations F) r of
      (Inl e, r) \<Rightarrow> throws (range_context ops F d e) out r
    | (Inr i, r) \<Rightarrow> if 2 ^ (bits - 1) - 1 < i \<or> i < - (2 ^ (bits - 1))
        then throws (with_context (type_display_for ops F d) (with_detail (dec_int i) (rd_error ops r out_of_range off))) out r
        else returns (Inr ()) (v_sint (word_of_int i)) r)" if "good r" for r off
    using steps(4) [OF that, of "fm_annotations F"]
    by (auto simp: step_def settles_returns settles_throws split: sum.splits)
  then show "settles 1 r (decode_sint ops F bits d out r)"
    unfolding decode_sint_def by (intro settles_offset g) (simp add: keeps_good)
qed

lemma offset_ok_decodes:
  assumes "\<And>r. good r \<Longrightarrow> step 1 r (f r)" "\<And>off x r. good r \<Longrightarrow> settles 0 r (k off x r)"
  shows "decodes n (\<lambda>r0. let (off, r) = rd_offset ops r0 in on_ok (f r) out (k off))"
  by (intro decodesI settles_offset settles_ok1 assms) (auto dest: keeps_good)

lemma ok_decodes:
  assumes "\<And>r. good r \<Longrightarrow> step 1 r (f r)" "\<And>x r. good r \<Longrightarrow> settles 0 r (k x r)"
  shows "decodes n (\<lambda>r. on_ok (f r) out k)"
  by (intro decodesI settles_ok1 assms) (auto dest: keeps_good)

lemma leaf_decodes:
  "decodes n (decode_string ops F view d out)" "decodes n (decode_char ops out)" "decodes n (decode_span ops F d out)"
  "decodes n (decode_octets ops F be dest out)" "decodes n (decode_real ops single out)"
  "decodes n (\<lambda>r. on_ok (rd_boolean ops r) out (\<lambda>b r. returns (Inr ()) (v_bool b) r))"
  unfolding decode_string_def [abs_def] decode_char_def [abs_def] decode_span_def [abs_def] decode_octets_def [abs_def]
    decode_real_def [abs_def]
  by ((intro offset_ok_decodes ok_decodes steps, assumption, simp add: throws_settles returns_settles split: byte_dest.split)+)

lemma decode_enum_decodes: "decodes n (decode_enum ops F en sg bits d out)"
proof (rule decodesI)
  fix r assume g: "good r" "left r < n"
  have num: "settles 1 r (if sg then decode_sint ops F bits d (v_sint 0) r else decode_uint ops F bits d (v_uint 0) r)"
    if "good r" for r using decode_sint_decodes [THEN decodesD, OF that lessI] decode_uint_decodes [THEN decodesD, OF that lessI] by simp
  show "settles 1 r (decode_enum ops F en sg bits d out r)"
    unfolding decode_enum_def Let_def [of "build_enum_schema en"]
  proof (rule settles_offset [OF g(1)], split if_split, intro conjI impI)
    fix off r' assume k: "keeps r r'"
    show "settles 1 r' (after_step (if sg then decode_sint ops F bits d (v_sint 0) r' else decode_uint ops F bits d (v_uint 0) r')
        (\<lambda>st raw r. case st of Inl e \<Rightarrow> throws e out r
          | Inr u \<Rightarrow> (case find (\<lambda>x. to_underlying sg bits (ei_value x) = raw_int raw \<and> \<not> ei_skipped x) (build_enum_schema en) of
              Some x \<Rightarrow> returns (Inr ()) (v_enum en sg (ei_value x)) r
            | None \<Rightarrow> throws (offered (build_enum_schema en) (\<lambda>x. dec_int (to_underlying sg bits (ei_value x)))
                (with_context (en_name en) (with_detail (dec_int (raw_int raw)) (rd_error ops r unknown_enumerator off)))) out r)))"
      by (rule settles_then, rule num, rule keeps_good [OF k])
        (simp_all add: throws_settles returns_settles settles_throws keeps_good split: option.split)
  next
    fix off r' assume k: "keeps r r'"
    show "settles 1 r' (on_ok (rd_text ops r') out (\<lambda>t r. case lookup_find (build_enum_lookup (build_enum_schema en)) (t_text t) of
        Some idx \<Rightarrow> returns (Inr ()) (v_enum en sg (ei_value (build_enum_schema en ! idx))) r
      | None \<Rightarrow> throws (offered (build_enum_schema en) ei_name
                 (with_length (if t_raw_length t \<noteq> 0 then t_raw_length t else length (t_text t) + 2)
                   (with_context (en_name en) (with_detail (t_text t) (rd_error ops r unknown_enumerator off))))) out r))"
      by (rule settles_ok1, rule steps, rule keeps_good [OF k])
        (simp add: throws_settles returns_settles keeps_good split: option.split)
  qed
qed

section \<open>The loops\<close>

text \<open>A loop with \<open>n\<close> rounds returns when fewer than \<open>n\<close> octets are left: every round takes one.\<close>

lemma next_elem:
  assumes "good r" "left r < Suc n" "n \<le> N" "settles 1 r m" "keeps r r'" "left r' < left r"
  shows "good r'" "left r' < n"
  using assms by (auto dest: keeps_good)

lemma sequence_loop_settles:
  assumes "decodes N dec"
  shows "good r \<Longrightarrow> left r < n \<Longrightarrow> n \<le> N \<Longrightarrow> settles 0 r (sequence_loop ops n dec app c i out r)"
proof (induction n arbitrary: c i out r)
  case (Suc n)
  show ?case
    unfolding sequence_loop.simps
  proof (rule settles_ok0 [OF steps(14) [OF Suc(2)]], clarsimp simp: returns_settles keeps_good)
    fix c' r1 assume k: "keeps r r1" "left r1 \<le> left r"
    have "settles 1 r1 (at_step ops (push_index i) dec r1)"
      using k Suc(3,4) by (intro settles_at_step decodesD [OF assms]) (auto dest: keeps_good)
    then show "settles 0 r1 (after_step (at_step ops (push_index i) dec r1) (\<lambda>st v r.
        case st of Inl e \<Rightarrow> throws e out r | Inr u \<Rightarrow> sequence_loop ops n dec app c' (i + 1) (app out v) r))"
      by (intro settles_weaken [OF settles_then]) (use k Suc(3,4) in \<open>auto intro!: Suc(1) settles_throws dest: keeps_good\<close>)
  qed
qed simp

lemma extra_loop_settles: "good r \<Longrightarrow> left r < n \<Longrightarrow> settles 0 r (extra_loop ops n off c extra out r want)"
proof (induction n arbitrary: c extra r)
  case (Suc n)
  show ?case
    unfolding extra_loop.simps
    by (intro settles_weaken [OF settles_ok1 [OF steps(13) [OF Suc(2)]]] settles_ok0 [OF steps(14)])
      (use Suc(3) in \<open>auto intro!: Suc(1) throws_settles dest: keeps_good\<close>)
qed simp

lemma positional_loop_settles:
  assumes "good r" "left r < n" "\<And>dec v. dec \<in> set decs \<Longrightarrow> decodes n (dec v)"
  shows "settles 0 r (positional_loop ops n off want c i decs out r)"
  using assms
proof (induction decs arbitrary: c i out r)
  case Nil
  then show ?case
    by (auto intro!: settles_ok0 [OF steps(14)] extra_loop_settles returns_settles dest: keeps_good)
next
  case (Cons dec decs)
  show ?case
    unfolding positional_loop.simps
  proof (rule settles_ok0 [OF steps(14) [OF Cons(2)]], clarsimp simp: throws_settles keeps_good)
    fix c' r1 assume k: "keeps r r1" "left r1 \<le> left r"
    have "settles 1 r1 (at_step ops (push_index (of_nat i)) (dec (out ! i)) r1)"
      using k Cons(3) by (intro settles_at_step decodesD [OF Cons(4)]) (auto dest: keeps_good)
    then show "settles 0 r1 (after_step (at_step ops (push_index (of_nat i)) (dec (out ! i)) r1) (\<lambda>st v r.
        case st of Inl e \<Rightarrow> throws e (out[i := v]) r
        | Inr u \<Rightarrow> positional_loop ops n off want c' (i + 1) decs (out[i := v]) r))"
      by (intro settles_weaken [OF settles_then]) (use k Cons(3,4) in \<open>auto intro!: Cons(1) settles_throws dest: keeps_good\<close>)
  qed
qed

lemma decode_sequence_decodes: "decodes n dec \<Longrightarrow> decodes n (decode_sequence ops n dec app clears out)"
  unfolding decode_sequence_def [abs_def]
  by (rule decodesI, intro settles_ok1 [OF steps(8)] sequence_loop_settles [where N = n]) (auto dest: keeps_good)

lemma decode_positional_decodes:
  assumes "\<And>dec v. dec \<in> set decs \<Longrightarrow> decodes n (dec v)"
  shows "decodes n (decode_positional ops n decs out)"
  unfolding decode_positional_def [abs_def]
  by (rule decodesI, intro settles_offset settles_ok1 [OF steps(8)] positional_loop_settles)
    (use assms in \<open>auto dest: keeps_good\<close>)

subsection \<open>Maps\<close>

lemma decode_map_key_step:
  assumes "good r"
  shows "step 1 r (decode_map_key ops F md kt off r)"
  using steps(10) [OF assms] steps(11) [OF assms] steps(12) [OF assms]
  by (auto simp: decode_map_key_def step_def split: map_key_type.splits kind.splits prod.splits sum.splits)

lemma map_loop_settles:
  assumes "\<And>v. decodes N (dec v)"
  shows "good r \<Longrightarrow> left r < n \<Longrightarrow> n \<le> N \<Longrightarrow> settles 0 r (map_loop ops n F mc md kt v0 dec c es r)"
proof (induction n arbitrary: c es r)
  case (Suc n)
  have val: "settles 0 r1 (after_step (at_step ops stp (dec v) r1) (\<lambda>st v r.
      case st of Inl e \<Rightarrow> throws e (f v) r | Inr u \<Rightarrow> map_loop ops n F mc md kt v0 dec c' (g v) r))"
    if "keeps r r1" "left r1 < left r" for r1 stp v f g c'
    by (rule settles_weaken [OF settles_then], rule settles_at_step, rule decodesD [OF assms])
      (use that Suc(3,4) in \<open>auto intro!: Suc(1) settles_throws dest: keeps_good\<close>)
  show ?case
    unfolding map_loop.simps
  proof (rule settles_ok0 [OF steps(15) [OF Suc(2)]], split prod.split, intro allI impI, split if_split, intro conjI impI)
    fix x again c' r1 assume k: "keeps r r1" "left r1 \<le> left r"
    show "settles 0 r1 (returns (Inr ()) es r1)" using k by (simp add: returns_settles keeps_good)
    show "settles 0 r1 (let (off, r') = rd_offset ops r1 in on_ok (decode_map_key ops F md kt off r') es (\<lambda>k r.
        case if mc_unique mc then map_of es k else None of
          Some old \<Rightarrow> (case rd_duplicates ops of
              duplicate_error \<Rightarrow> throws (duplicate_entry ops k off r) es r
            | first_wins \<Rightarrow> on_ok (rd_skip ops r) es (\<lambda>u r. map_loop ops n F mc md kt v0 dec c' es r)
            | last_wins \<Rightarrow> after_step (at_step ops (push_map_key k) (dec old) r) (\<lambda>st v r.
                case st of Inl e \<Rightarrow> throws e (set_entry k v es) r
                | Inr u \<Rightarrow> map_loop ops n F mc md kt v0 dec c' (set_entry k v es) r))
        | None \<Rightarrow> after_step (at_step ops (push_map_key k) (dec v0) r) (\<lambda>st v r.
            case st of Inl e \<Rightarrow> throws e es r
            | Inr u \<Rightarrow> map_loop ops n F mc md kt v0 dec c' (mc_insert mc es (k, v)) r)))"
    proof (intro settles_offset keeps_good [OF k(1)] settles_weaken [OF settles_ok1 [OF decode_map_key_step]])
      show "good r2" if "keeps r1 r2" for r2 by (rule keeps_good [OF that])
      fix off r2 key r3 assume k2: "keeps r1 r2" "left r2 \<le> left r1" "keeps r2 r3" "left r3 < left r2"
      have k3: "keeps r r3" "left r3 < left r" using k k2 by (auto intro: keeps_trans)
      have sk: "settles 0 r3 (on_ok (rd_skip ops r3) es (\<lambda>u r. map_loop ops n F mc md kt v0 dec c' es r))"
        by (intro settles_weaken [OF settles_ok1 [OF steps(13)]])
          (use k3 Suc(3,4) in \<open>auto intro!: Suc(1) dest: keeps_good\<close>)
      show "settles 0 r3 (case if mc_unique mc then map_of es key else None of
          Some old \<Rightarrow> (case rd_duplicates ops of
              duplicate_error \<Rightarrow> throws (duplicate_entry ops key off r3) es r3
            | first_wins \<Rightarrow> on_ok (rd_skip ops r3) es (\<lambda>u r. map_loop ops n F mc md kt v0 dec c' es r)
            | last_wins \<Rightarrow> after_step (at_step ops (push_map_key key) (dec old) r3) (\<lambda>st v r.
                case st of Inl e \<Rightarrow> throws e (set_entry key v es) r
                | Inr u \<Rightarrow> map_loop ops n F mc md kt v0 dec c' (set_entry key v es) r))
        | None \<Rightarrow> after_step (at_step ops (push_map_key key) (dec v0) r3) (\<lambda>st v r.
            case st of Inl e \<Rightarrow> throws e es r
            | Inr u \<Rightarrow> map_loop ops n F mc md kt v0 dec c' (mc_insert mc es (key, v)) r))"
        using sk val [OF k3] throws_settles [OF keeps_good [OF k3(1)]]
        by (auto split: option.split duplicate_key_mode.split)
    qed simp
  qed
qed simp

lemma decode_map_decodes: "(\<And>v. decodes n (dec v)) \<Longrightarrow> decodes n (decode_map ops n F mc md kt v0 dec es)"
  unfolding decode_map_def [abs_def]
  by (rule decodesI, intro settles_ok1 [OF steps(9)] map_loop_settles [where N = n]) (auto dest: keeps_good)

subsection \<open>Structs\<close>

lemma read_member_key_step:
  assumes "good r"
  shows "step 1 r (read_member_key ops int_keys r)"
  using steps(10) [OF assms] steps(11) [OF assms] steps(12) [OF assms]
  by (auto simp: read_member_key_def step_def Let_def split: kind.splits prod.splits sum.splits)

lemma read_member_key_int: "read_member_key ops int_keys r = (Inr (mkr_int k), r') \<Longrightarrow> in_i64 k"
  using key_sint_range unsigned_greater_eq
  by (auto simp: read_member_key_def Let_def in_i64_def split: kind.splits prod.splits sum.splits if_splits
    intro: order_trans [OF _ unsigned_greater_eq])

lemma key_action_defined:
  assumes "keys_defined ops cls" "\<And>i. k = mkr_int i \<Longrightarrow> in_i64 i"
  shows "key_action ops cls ignored seen k off r \<noteq> None"
  using assms by (auto simp: key_action_def keys_defined_def Let_def split: member_key_read.splits key_lookup.splits option.splits)

lemma push_collected_keeps: "keeps r r' \<Longrightarrow> keeps r (push_collected ops e r') \<and> left (push_collected ops e r') = left r'"
  using collect_step by (auto simp: push_collected_def keeps_def intro: sib_trans)

lemma restore_keeps:
  "good r \<Longrightarrow> keeps r r' \<Longrightarrow> keeps r (rd_restore ops (rd_save ops r) r') \<and> left (rd_restore ops (rd_save ops r) r') = left r"
  using restore_step by (simp add: keeps_def)

definition members_decode :: "nat \<Rightarrow> 'r members \<Rightarrow> bool" where
  "members_decode n members \<longleftrightarrow> (\<forall>f dec v. (f, dec) \<in> set members \<longrightarrow> decodes n (dec v))"

lemma decode_member_settles:
  assumes "members_decode n members" "good r" "left r < n"
  shows "settles 0 r (decode_member ops members i vs r)"
    "find (\<lambda>(f, dec). member_index (fm_info f) = i) members \<noteq> None \<Longrightarrow> settles 1 r (decode_member ops members i vs r)"
proof -
  let ?find = "find (\<lambda>(f, dec). member_index (fm_info f) = i) members"
  have one: "settles 1 r (decode_member ops members i vs r)" if fd: "?find = Some (f, dec)" for f dec
  proof -
    from fd have "(f, dec) \<in> set members" by (metis find_Some_iff nth_mem)
    then have "settles 1 r (dec (vs ! i) r)" using assms by (intro decodesD [of n]) (auto simp: members_decode_def)
    then show ?thesis using fd settles_at_step by (simp add: decode_member_def settles_rewrap)
  qed
  show "settles 0 r (decode_member ops members i vs r)"
  proof (cases ?find)
    case None
    with assms(2) show ?thesis by (simp add: decode_member_def returns_settles)
  next
    case (Some fd)
    with one [of "fst fd" "snd fd"] settles_weaken show ?thesis by simp blast
  qed
  show "settles 1 r (decode_member ops members i vs r)" if "?find \<noteq> None"
    using one that by auto
qed

lemma struct_loop_settles:
  assumes "members_decode N members" "keys_defined ops cls"
  shows "good r \<Longrightarrow> left r < n \<Longrightarrow> n \<le> N \<Longrightarrow> settles 0 r (struct_loop ops n cls ignored members c vs seen r)"
proof (induction n arbitrary: c vs seen r)
  case (Suc n)
  have go: "settles 0 r2 (struct_loop ops n cls ignored members c' vs' seen' r2)"
    if "keeps r r2" "left r2 < left r" for c' vs' seen' r2
    using that Suc(3,4) by (intro Suc(1)) (auto dest: keeps_good)
  have skip: "settles 0 r2 (on_ok (rd_skip ops r3) out (\<lambda>u r. struct_loop ops n cls ignored members c' vs' seen' r))"
    if k: "keeps r r2" "keeps r2 r3" "left r2 < left r" "left r3 \<le> left r2" for c' vs' seen' r2 r3 out
  proof -
    have "settles 0 r3 (on_ok (rd_skip ops r3) out (\<lambda>u r. struct_loop ops n cls ignored members c' vs' seen' r))"
      by (intro settles_weaken [OF settles_ok1 [OF steps(13)]]) (use k in \<open>auto intro!: go dest: keeps_good intro: keeps_trans\<close>)
    from settles_from [OF k(2) _ this, of 0] k(4) show ?thesis by simp
  qed
  show ?case
    unfolding struct_loop.simps
  proof (rule settles_ok0 [OF steps(15) [OF Suc(2)]], split prod.split, intro allI impI, split if_split, intro conjI impI)
    fix x again c' r1 assume k: "keeps r r1" "left r1 \<le> left r"
    show "settles 0 r1 (returns (Inr ()) (vs, seen) r1)" using k by (simp add: returns_settles keeps_good)
    show "settles 0 r1 (let (off, r') = rd_offset ops r1 in
        on_ok (read_member_key ops (kt_any (keys_of ops cls)) r') (vs, seen) (\<lambda>k r.
          case key_action ops cls ignored seen k off r of None \<Rightarrow> None
          | Some ma_skip \<Rightarrow> on_ok (rd_skip ops r) (vs, seen) (\<lambda>u r. struct_loop ops n cls ignored members c' vs seen r)
          | Some (ma_reject e) \<Rightarrow> on_ok (rd_skip ops r) (vs, seen) (\<lambda>u r. throws e (vs, seen) r)
          | Some (ma_report e) \<Rightarrow>
              if collects ops then on_ok (rd_skip ops (push_collected ops e r)) (vs, seen)
                (\<lambda>u r. struct_loop ops n cls ignored members c' vs seen r)
              else throws e (vs, seen) r
          | Some (ma_decode i) \<Rightarrow> after_step (decode_member ops members i vs r) (\<lambda>st vs' r'.
              case st of Inr u \<Rightarrow> struct_loop ops n cls ignored members c' vs' (seen[i := True]) r'
              | Inl e \<Rightarrow> if collects ops \<and> \<not> is_syntax_error (code e)
                  then on_ok (rd_skip ops (rd_restore ops (rd_save ops r) (push_collected ops e r'))) (vs', seen[i := True])
                    (\<lambda>u r. struct_loop ops n cls ignored members c' vs' (seen[i := True]) r)
                  else throws e (vs', seen[i := True]) r')))"
    proof (intro settles_offset keeps_good [OF k(1)] settles_weaken [OF settles_ok1 [OF read_member_key_step]])
      show "good r2" if "keeps r1 r2" for r2 by (rule keeps_good [OF that])
      fix off r2 key r3
      assume k2: "keeps r1 r2" "left r2 \<le> left r1" "keeps r2 r3" "left r3 < left r2"
        and key: "read_member_key ops (kt_any (keys_of ops cls)) r2 = (Inr key, r3)"
      have k3: "keeps r r3" "left r3 < left r" "good r3" using k k2 by (auto intro: keeps_trans dest: keeps_good)
      obtain a where a: "key_action ops cls ignored seen key off r3 = Some a"
        using key_action_defined [OF assms(2), of key ignored seen off r3] read_member_key_int key by blast
      have rej: "settles 0 r3 (on_ok (rd_skip ops r3) (vs, seen) (\<lambda>u r. throws e (vs, seen) r))" for e
        by (intro settles_weaken [OF settles_ok1 [OF steps(13)]]) (use k3(3) in \<open>auto intro!: throws_settles dest: keeps_good\<close>)
      have dec: "settles 0 r3 (after_step (decode_member ops members i vs r3) (\<lambda>st vs' r'.
              case st of Inr u \<Rightarrow> struct_loop ops n cls ignored members c' vs' (seen[i := True]) r'
              | Inl e \<Rightarrow> if collects ops \<and> \<not> is_syntax_error (code e)
                  then on_ok (rd_skip ops (rd_restore ops (rd_save ops r3) (push_collected ops e r'))) (vs', seen[i := True])
                    (\<lambda>u r. struct_loop ops n cls ignored members c' vs' (seen[i := True]) r)
                  else throws e (vs', seen[i := True]) r'))" for i
      proof (rule settles_then0, rule decode_member_settles(1) [OF assms(1) k3(3)])
        show "left r3 < N" using k3 Suc(3,4) by simp
        show "settles 0 r' (case Inr () of Inr u \<Rightarrow> struct_loop ops n cls ignored members c' v (seen[i := True]) r'
              | Inl e \<Rightarrow> q e)" if "keeps r3 r'" "left r' \<le> left r3" for v r' q
          using that k3 by (simp add: go keeps_trans)
        show "settles 0 r3 (case Inl e of Inr u \<Rightarrow> p u
              | Inl e \<Rightarrow> if collects ops \<and> \<not> is_syntax_error (code e)
                  then on_ok (rd_skip ops (rd_restore ops (rd_save ops r3) (push_collected ops e r'))) (v, seen[i := True])
                    (\<lambda>u r. struct_loop ops n cls ignored members c' v (seen[i := True]) r)
                  else throws e (v, seen[i := True]) r')" if "keeps r3 r'" for e v r' p
          using restore_keeps [OF k3(3) push_collected_keeps [OF that, THEN conjunct1], of e] that k3
          by (simp add: settles_throws skip)
      qed
      show "settles 0 r3 (case key_action ops cls ignored seen key off r3 of None \<Rightarrow> None
          | Some ma_skip \<Rightarrow> on_ok (rd_skip ops r3) (vs, seen) (\<lambda>u r. struct_loop ops n cls ignored members c' vs seen r)
          | Some (ma_reject e) \<Rightarrow> on_ok (rd_skip ops r3) (vs, seen) (\<lambda>u r. throws e (vs, seen) r)
          | Some (ma_report e) \<Rightarrow>
              if collects ops then on_ok (rd_skip ops (push_collected ops e r3)) (vs, seen)
                (\<lambda>u r. struct_loop ops n cls ignored members c' vs seen r)
              else throws e (vs, seen) r3
          | Some (ma_decode i) \<Rightarrow> after_step (decode_member ops members i vs r3) (\<lambda>st vs' r'.
              case st of Inr u \<Rightarrow> struct_loop ops n cls ignored members c' vs' (seen[i := True]) r'
              | Inl e \<Rightarrow> if collects ops \<and> \<not> is_syntax_error (code e)
                  then on_ok (rd_skip ops (rd_restore ops (rd_save ops r3) (push_collected ops e r'))) (vs', seen[i := True])
                    (\<lambda>u r. struct_loop ops n cls ignored members c' vs' (seen[i := True]) r)
                  else throws e (vs', seen[i := True]) r'))"
        using a rej dec k3 keeps_refl [OF k3(3)] push_collected_keeps [OF keeps_refl [OF k3(3)]]
        by (cases a) (simp_all add: skip throws_settles)
    qed simp
  qed
qed simp

lemma read_present_key_step:
  assumes "good r"
  shows "step 1 r (read_present_key ops r)"
  using steps(10) [OF assms] steps(11) [OF assms] steps(12) [OF assms]
  by (auto simp: read_present_key_def step_def split: kind.splits prod.splits sum.splits)

lemma present_keys_settles:
  "good r \<Longrightarrow> left r < n \<Longrightarrow> \<exists>x r'. present_keys ops n c k e r = Some (x, r') \<and> keeps r r'"
proof (induction n arbitrary: c k e r)
  case (Suc n)
  obtain res r1 where nx: "rd_map_next ops c r = (res, r1)" by force
  have k1: "keeps r r1" "\<And>x. res = Inr x \<Longrightarrow> left r1 \<le> left r" using steps(15) [OF Suc(2), of c] by (simp_all add: step_def nx)
  show ?case
  proof (cases "\<exists>c'. res = Inr (True, c')")
    case False
    then show ?thesis using k1(1) by (auto simp: nx split: sum.splits)
  next
    case True
    then obtain c' where res: "res = Inr (True, c')" by blast
    obtain kres r2 where kr: "read_present_key ops r1 = (kres, r2)" by force
    have k2: "keeps r1 r2" "\<And>s. kres = Inr s \<Longrightarrow> left r2 < left r1"
      using read_present_key_step [OF keeps_good [OF k1(1)]] by (auto simp: step_def kr Suc_le_eq)
    obtain u r3 where sk: "rd_skip ops r2 = (u, r3)" by force
    have k3: "keeps r2 r3" "\<And>x. u = Inr x \<Longrightarrow> left r3 < left r2"
      using steps(13) [OF keeps_good [OF k2(1)]] by (auto simp: step_def sk Suc_le_eq)
    have kk: "keeps r r2" "keeps r r3" using k1 k2 k3 by (meson keeps_trans)+
    show ?thesis
    proof (cases "\<exists>s x. kres = Inr s \<and> u = Inr x")
      case False
      then show ?thesis using kk by (auto simp: nx res kr sk split: sum.splits)
    next
      case True
      then obtain s x where sx: "kres = Inr s" "u = Inr x" by blast
      have "left r3 < n" using k1(2) [OF res] k2(2) [OF sx(1)] k3(2) [OF sx(2)] Suc(3) by simp
      from Suc(1) [OF keeps_good [OF kk(2)] this, of c' "k + 1" "with_candidate s e"] obtain y r4
        where "present_keys ops n c' (k + 1) (with_candidate s e) r3 = Some (y, r4)" "keeps r3 r4" by blast
      then show ?thesis using kk(2) by (auto simp: nx res kr sk sx intro: keeps_trans)
    qed
  qed
qed simp

lemma describe_present_keys_settles:
  assumes "good r" "good r0" "sib r0 r" "left r0 < n"
  shows "\<exists>e' r'. describe_present_keys ops n (rd_save ops r0) e r = Some (e', r') \<and> keeps r r' \<and> left r' = left r"
proof -
  let ?ra = "rd_restore ops (rd_save ops r0) r"
  have ra: "good ?ra" "sib r ?ra" "left ?ra < n"
    using restore_step [OF assms(2,1,3)] assms(3,4) by (auto intro: sib_trans sib_sym)
  obtain res r1 where m: "rd_map ops ?ra = (res, r1)" by force
  have k1: "keeps ?ra r1" "\<And>x. res = Inr x \<Longrightarrow> left r1 < left ?ra"
    using steps(9) [OF ra(1)] by (auto simp: step_def m Suc_le_eq)
  have undo: "keeps r (rd_restore ops (rd_save ops r) r') \<and> left (rd_restore ops (rd_save ops r) r') = left r"
    if "keeps ?ra r'" for r'
    using restore_keeps [OF assms(1), of r'] that ra(2) by (auto simp: keeps_def intro: sib_trans)
  show ?thesis
  proof (cases res)
    case (Inl er)
    with undo [OF k1(1)] m show ?thesis by (simp add: describe_present_keys_def)
  next
    case (Inr c)
    with k1 ra(3) have "good r1" "left r1 < n" by (auto dest: keeps_good)
    from present_keys_settles [OF this, of c 0 e] obtain x r2
      where p: "present_keys ops n c 0 e r1 = Some (x, r2)" "keeps r1 r2" by blast
    from undo [OF keeps_trans [OF k1(1) p(2)]] show ?thesis
      by (cases x) (simp add: describe_present_keys_def m Inr p(1))
  qed
qed

lemma missing_members_settles:
  assumes "good r0" "left r0 < n"
  shows "keeps r0 r \<Longrightarrow> settles 0 r (missing_members ops n cls off (rd_save ops r0) seen fs missing vs r)"
proof (induction fs arbitrary: missing vs r)
  case Nil
  then show ?case by (simp add: returns_settles keeps_good)
next
  case (Cons ft fs)
  obtain f t where ft: "ft = (f, t)" by force
  have g: "good r" "sib r0 r" using Cons(2) by (simp_all add: keeps_def)
  obtain e r1 where d: "describe_present_keys ops n (rd_save ops r0) (missing_error ops cls f off r) r = Some (e, r1)"
      "keeps r r1" "left r1 = left r"
    using describe_present_keys_settles [OF g(1) assms(1) g(2) assms(2)] by blast
  have k: "keeps r0 r1" "keeps r0 (push_collected ops e r1)"
    using Cons(2) d(2) push_collected_keeps [OF d(2), of e] by (meson keeps_trans)+
  have from1: "settles 0 r m" if "settles 0 r1 m" for m :: "(cval list, 'r) outcome"
    using settles_from [OF d(2), where a = 0 and b = 0 and m = m] d(3) that by simp
  have from2: "settles 0 r m" if "settles 0 (push_collected ops e r1) m" for m :: "(cval list, 'r) outcome"
    using settles_from [OF push_collected_keeps [OF d(2), THEN conjunct1], of e 0 0 m] push_collected_keeps [OF d(2), of e] d(3) that
    by simp
  show ?case
    unfolding ft missing_members.simps Let_def d(1) option.case prod.case
    using Cons(1) [OF Cons(2)] Cons(1) [OF k(1), THEN from1] Cons(1) [OF k(2), THEN from2]
    by (simp split: sum.split option.split)
qed

lemma decode_object_decodes:
  assumes "members_decode n members" "keys_defined ops cls"
  shows "decodes n (decode_object ops n cls ignored members typed vs)"
  unfolding decode_object_def [abs_def] Let_def [of "rd_save ops _"]
proof (rule decodesI, rule settles_offset, assumption, rule settles_ok1, rule steps(9), erule keeps_good)
  fix r off r1 c r2
  assume r: "good r" "left r < n" "keeps r r1" "left r1 \<le> left r" "keeps r1 r2" "left r2 < left r1"
  show "settles 0 r2 (after_step (struct_loop ops n cls ignored members c vs (replicate (length (build_schema cls)) False) r2)
      (\<lambda>st (vs, seen) r. case st of Inl e \<Rightarrow> throws e vs r
        | Inr u \<Rightarrow> missing_members ops n cls off (rd_save ops r1) seen typed (Inr ()) vs r))"
  proof (rule settles_then0, rule struct_loop_settles [OF assms, OF keeps_good])
    show "keeps r1 r2" "left r2 < n" "n \<le> n" using r by simp_all
    show "settles 0 r3 ((case v of (vs, seen) \<Rightarrow> \<lambda>r. (case Inr () of Inl e \<Rightarrow> throws e vs r
        | Inr u \<Rightarrow> missing_members ops n cls off (rd_save ops r1) seen typed (Inr ()) vs r)) r3)"
      if "keeps r2 r3" for v r3
      using missing_members_settles [OF keeps_good [OF r(3)] _ keeps_trans [OF r(5) that], of n] r(2,4) by (auto split: prod.split)
  qed (auto simp: settles_throws split: prod.split)
qed

lemma decode_struct_decodes:
  assumes "members_decode n members" "keys_defined ops cls"
  shows "decodes n (decode_struct ops n cls ignored members typed vs)"
proof (rule decodesI)
  fix r assume r: "good r" "left r < n"
  have obj: "settles 1 r (decode_object ops n cls ignored members typed vs r)"
    using decodesD [OF decode_object_decodes [OF assms] r] .
  show "settles 1 r (decode_struct ops n cls ignored members typed vs r)"
    using obj decode_member_settles(2) [OF assms(1) r] by (auto simp: decode_struct_def split: list.split)
qed

subsection \<open>Variants\<close>

lemma skip_rest_settles: "good r \<Longrightarrow> left r < n \<Longrightarrow> settles 0 r (skip_rest ops n c out r)"
proof (induction n arbitrary: c r)
  case (Suc n)
  have "settles 0 r1 (on_ok (rd_key_text ops r1) out (\<lambda>k r. on_ok (rd_skip ops r) out (\<lambda>u r. skip_rest ops n c' out r)))"
    if "keeps r r1" "left r1 \<le> left r" for r1 c'
    by (intro settles_weaken [OF settles_ok1 [OF steps(10)]] settles_weaken [OF settles_ok1 [OF steps(13)]])
      (use that Suc(3) in \<open>auto intro!: Suc(1) dest: keeps_good\<close>)
  then show ?case
    unfolding skip_rest.simps
    by (intro settles_ok0 [OF steps(15) [OF Suc(2)]]) (simp add: returns_settles keeps_good split: prod.split)
qed simp

lemma find_tag_settles: "good r \<Longrightarrow> left r < n \<Longrightarrow> settles 0 r (find_tag ops n tag c r)"
proof (induction n arbitrary: c r)
  case (Suc n)
  have tagv: "settles 0 r1 (let (tag_off, r) = rd_offset ops r1 in
      on_ok (rd_text ops r) None (\<lambda>tv r. skip_rest ops n c' (Some (t_text tv, tag_off)) r))"
    if "good r1" "left r1 < n" for r1 c'
    by (intro settles_offset settles_weaken [OF settles_ok1 [OF steps(6)]] that)
      (use that in \<open>auto intro!: skip_rest_settles dest: keeps_good\<close>)
  have skip: "settles 0 r1 (on_ok (rd_skip ops r1) None (\<lambda>u r. find_tag ops n tag c' r))"
    if "good r1" "left r1 < n" for r1 c'
    by (intro settles_weaken [OF settles_ok1 [OF steps(13)]]) (use that in \<open>auto intro!: Suc(1) dest: keeps_good\<close>)
  have "settles 0 r1 (let (key_off, r) = rd_offset ops r1 in on_ok (rd_key_text ops r) None (\<lambda>k r.
      if t_text k = tag then
        (let (tag_off, r) = rd_offset ops r in on_ok (rd_text ops r) None (\<lambda>tv r. skip_rest ops n c' (Some (t_text tv, tag_off)) r))
      else on_ok (rd_skip ops r) None (\<lambda>u r. find_tag ops n tag c' r)))"
    if "keeps r r1" "left r1 \<le> left r" for r1 c'
    by (intro settles_offset settles_weaken [OF settles_ok1 [OF steps(10)]])
      (use that Suc(3) tagv skip in \<open>auto dest: keeps_good\<close>)
  then show ?case
    unfolding find_tag.simps
    by (intro settles_ok0 [OF steps(15) [OF Suc(2)]]) (simp add: returns_settles keeps_good split: prod.split)
qed simp

lemma external_loop_settles:
  assumes "\<And>v. decodes N (dec v)"
  shows "good r \<Longrightarrow> left r < n \<Longrightarrow> n \<le> N \<Longrightarrow> settles 0 r (external_loop ops n dec c have v r)"
proof (induction n arbitrary: c "have" v r)
  case (Suc n)
  have val: "settles 0 r1 (after_step (at_step ops (push_member variant_value_key) (dec v) r1) (\<lambda>st v r.
      case st of Inl e \<Rightarrow> throws e (True, v) r | Inr u \<Rightarrow> external_loop ops n dec c' True v r))"
    if "good r1" "left r1 < n" for r1 c' v
    by (rule settles_weaken [OF settles_then], rule settles_at_step, rule decodesD [OF assms])
      (use that Suc(4) in \<open>auto intro!: Suc(1) settles_throws dest: keeps_good\<close>)
  have skip: "settles 0 r1 (on_ok (rd_skip ops r1) (hv, v) (\<lambda>u r. external_loop ops n dec c' hv v r))"
    if "good r1" "left r1 < n" for r1 c' hv v
    by (intro settles_weaken [OF settles_ok1 [OF steps(13)]]) (use that Suc(4) in \<open>auto intro!: Suc(1) dest: keeps_good\<close>)
  have "settles 0 r1 (let (key_off, r) = rd_offset ops r1 in on_ok (rd_key_text ops r) (have, v) (\<lambda>k r.
      if t_text k = variant_value_key then
        after_step (at_step ops (push_member variant_value_key) (dec v) r) (\<lambda>st v r.
          case st of Inl e \<Rightarrow> throws e (True, v) r | Inr u \<Rightarrow> external_loop ops n dec c' True v r)
      else on_ok (rd_skip ops r) (have, v) (\<lambda>u r. external_loop ops n dec c' have v r)))"
    if "keeps r r1" "left r1 \<le> left r" for r1 c'
    by (intro settles_offset settles_weaken [OF settles_ok1 [OF steps(10)]])
      (use that Suc(3) val skip in \<open>auto dest: keeps_good\<close>)
  then show ?case
    unfolding external_loop.simps
    by (intro settles_ok0 [OF steps(15) [OF Suc(2)]]) (simp add: returns_settles keeps_good split: prod.split)
qed simp

lemma decode_external_decodes:
  assumes "\<And>v. decodes n (dec v)"
  shows "decodes n (decode_external ops n d off dec v)"
  unfolding decode_external_def [abs_def]
proof (rule decodesI, rule settles_ok1 [OF steps(9)], assumption, rule settles_then0, rule external_loop_settles [OF assms])
  fix r c r1 assume "good r" "left r < n" "keeps r r1" "left r1 < left r"
  then show "good r1" "left r1 < n" "n \<le> n" by (simp_all add: keeps_good)
qed (auto simp: throws_settles returns_settles settles_throws keeps_good split: prod.split)

definition alternatives_decode :: "nat \<Rightarrow> 'r alternatives \<Rightarrow> bool" where
  "alternatives_decode n alts \<longleftrightarrow> (\<forall>(name, inner, v0, dec)\<in>set alts. \<forall>v. decodes n (dec v))"

lemma decode_alternative_decodes:
  assumes "alternatives_decode n alts" "alt \<in> set alts"
  shows "decodes n (decode_alternative ops n d off alt)"
proof -
  obtain name inner v0 dec where a: "alt = (name, inner, v0, dec)" by (metis prod.exhaust)
  then have "\<And>v. decodes n (dec v)" using assms by (auto simp: alternatives_decode_def)
  then show ?thesis
    using decode_external_decodes by (auto simp: decodes_def a decode_alternative_def settles_rewrap)
qed

lemma decode_variant_decodes:
  assumes "alternatives_decode n alts"
  shows "decodes n (decode_variant ops n tag d alts out)"
  unfolding decode_variant_def [abs_def] Let_def [of "rd_save ops _"]
proof (rule decodesI)
  fix r assume r: "good r" "left r < n"
  show "settles 1 r (let (off, r1) = rd_offset ops r in on_ok (rd_map ops r1) out (\<lambda>c r1.
      after_step (find_tag ops n tag c r1) (\<lambda>st found r1. case st of
        Inl e \<Rightarrow> throws e out r1
      | Inr u \<Rightarrow> (case found of
          None \<Rightarrow> throws (offer_names alts (with_context d (with_container_offset off
             (with_detail tag (rd_error ops r1 missing_tag off))))) out r1
        | Some (name, tag_off) \<Rightarrow> (case find (\<lambda>alt. fst alt = name) (rev alts) of
            None \<Rightarrow> throws (push_key_text tag (offer_names alts (with_length (length name + 2)
              (with_context d (with_detail name (rd_error ops r1 no_variant_alternative tag_off)))))) out r1
          | Some alt \<Rightarrow> decode_alternative ops n d off alt (rd_restore ops (rd_save ops r) r1))))))"
  proof -
    obtain off r1 where o: "rd_offset ops r = (off, r1)" by force
    obtain m r2 where m: "rd_map ops r1 = (m, r2)" by force
    have k1: "keeps r r1" "left r1 \<le> left r" using offset_moves [OF r(1) o] by simp_all
    have k2: "keeps r1 r2" "\<And>c. m = Inr c \<Longrightarrow> left r2 < left r1"
      using steps(9) [OF keeps_good [OF k1(1)]] by (auto simp: step_def m Suc_le_eq)
    have k: "keeps r r2" by (rule keeps_trans [OF k1(1) k2(1)])
    have second: "settles 1 r (decode_alternative ops n d off alt (rd_restore ops (rd_save ops r) r3))"
      if "keeps r r3" "find (\<lambda>alt. fst alt = name) (rev alts) = Some alt" for r3 alt name
    proof -
      from that(2) have alt: "alt \<in> set alts" by (metis find_Some_iff nth_mem set_rev)
      have rs: "keeps r (rd_restore ops (rd_save ops r) r3)" "left (rd_restore ops (rd_save ops r) r3) = left r"
        using restore_keeps [OF r(1) that(1)] by simp_all
      then have "settles 1 (rd_restore ops (rd_save ops r) r3) (decode_alternative ops n d off alt (rd_restore ops (rd_save ops r) r3))"
        using r(2) by (intro decodesD [OF decode_alternative_decodes [OF assms alt]]) (simp_all add: keeps_good)
      from settles_from [OF rs(1) _ this, of 0] rs(2) show ?thesis by simp
    qed
    show ?thesis
    proof (cases m)
      case (Inl e)
      with k show ?thesis by (simp add: o m settles_def)
    next
      case (Inr c)
      have g: "good r2" "left r2 < n" using k keeps_good k2(2) [OF Inr] k1(2) r(2) by auto
      obtain st found r3 where f: "find_tag ops n tag c r2 = Some ((st, found), r3)" "keeps r2 r3"
        using find_tag_settles [OF g, of tag c] by (auto simp: settles_def split: option.splits)
      have "keeps r r3" by (rule keeps_trans [OF k f(2)])
      with second show ?thesis
        by (auto simp: o m Inr f(1) settles_throws split: sum.split option.split)
    qed
  qed
qed

section \<open>Dispatch\<close>

text \<open>What a program's codecs have to do for the same to hold with them.\<close>

definition codecs_advance :: bool where
  "codecs_advance \<longleftrightarrow> (\<forall>name F. codec_advances good sib left (rd_with ops name F) \<and> codec_advances good sib left (rd_codec_for ops name F))"

lemma run_codec_decodes: "codec_advances good sib left codec \<Longrightarrow> decodes n (run_codec_decode codec out)"
proof (cases codec)
  case (dc_into f)
  assume "codec_advances good sib left codec"
  with dc_into have "advances good sib left 1 (\<lambda>r. case f out r of ((st, v), r') \<Rightarrow> (st, r'))" by simp
  then show ?thesis
    by (fastforce simp: dc_into run_codec_decode_def decodes_def settles_def advances_def keeps_def split: prod.splits)
next
  case (dc_value f)
  assume "codec_advances good sib left codec"
  with dc_value have "advances good sib left 1 f" by simp
  from ok_decodes [OF advances_step [OF this], of "\<lambda>v r. returns (Inr ()) v r" n out] show ?thesis
    by (simp add: returns_settles decodes_def dc_value run_codec_decode_def)
qed

lemma decode_optional_decodes:
  assumes "decodes n (dec v0)"
  shows "decodes n (decode_optional ops v0 dec out)"
proof (rule decodesI)
  fix r assume r: "good r" "left r < n"
  obtain k r1 where p: "rd_peek ops r = (k, r1)" by force
  have k: "keeps r r1" "left r1 + 0 \<le> left r" using peek_moves [OF r(1) p] by simp_all
  have "settles 1 r1 (if k = kind_null then on_ok (rd_null ops r1) out (\<lambda>u r. returns (Inr ()) (v_optional None) r)
      else rewrap (\<lambda>v. v_optional (Some v)) (dec v0 r1))"
    using k r keeps_good [OF k(1)] decodesD [OF assms keeps_good [OF k(1)]]
    by (auto simp: settles_rewrap intro!: settles_ok1 [OF steps(1), simplified] returns_settles dest: keeps_good)
  from settles_from [OF k this] show "settles 1 r (decode_optional ops v0 dec out r)" by (simp add: decode_optional_def p)
qed

lemma decode_tuple_decodes:
  "(\<And>u out. u \<in> set ts \<Longrightarrow> decodes n (dec u out)) \<Longrightarrow> decodes n (decode_positional ops n (map dec ts) out)"
  by (intro decode_positional_decodes) auto

lemma classes_of_zip:
  "class_of t = Some (c, ts) \<Longrightarrow> (f, u) \<in> set (zip fs ts) \<Longrightarrow> type_keys_defined ops t \<Longrightarrow> type_keys_defined ops u"
  by (auto simp: class_of_def type_keys_defined_def split: dtype.splits dest!: set_zip_rightD)

lemma decode_class_decodes:
  assumes "class_of t = Some (c, ts)" "type_keys_defined ops t"
    "\<And>u F out. size u < size t \<Longrightarrow> type_keys_defined ops u \<Longrightarrow> decodes n (decode_field_value ops n F u out)"
  shows "decodes n (decode_class ops n ignored t out)"
proof -
  have k: "keys_defined ops c"
    using assms(1,2) by (auto simp: class_of_def type_keys_defined_def split: dtype.splits)
  have "members_decode n (map (\<lambda>(f, u). (f, decode_field_value ops n f u)) (zip (build_fields c) ts))"
    using assms(3) class_of_size [OF assms(1)] classes_of_zip [OF assms(1) _ assms(2)]
    by (fastforce simp: members_decode_def)
  from decode_struct_decodes [OF this k] show ?thesis
    by (simp add: decodes_def decode_class.simps assms(1) settles_rewrap)
qed

lemma decode_shape_decodes:
  assumes codecs: codecs_advance
    and keys: "type_keys_defined ops t"
    and vals: "\<And>u F out. size u < size t \<Longrightarrow> type_keys_defined ops u \<Longrightarrow> decodes n (decode_value ops n F u out)"
    and fields: "\<And>u F out. size u < size t \<Longrightarrow> type_keys_defined ops u \<Longrightarrow> decodes n (decode_field_value ops n F u out)"
  shows "decodes n (decode_shape ops n F t out)"
proof (cases t)
  case (dt_codec name sys ca v)
  with run_codec_decodes codecs show ?thesis by (simp add: decodes_def codecs_advance_def)
next
  case (dt_optional u)
  with keys have "decodes n (decode_value ops n F u v)" for v by (intro vals) (simp_all add: type_keys_defined_def)
  from decode_optional_decodes [OF this] dt_optional show ?thesis by (simp add: decodes_def)
next
  case (dt_variant d alts)
  have alt: "type_keys_defined ops u" "size u < size t" if "(name, u) \<in> set alts" for name u
    using that keys dt_variant alternative_size [OF that] by (auto simp: type_keys_defined_def)
  have cls: "decodes n (decode_class ops n ign u out)"
    if "(name, u) \<in> set alts" "tagged_inside u" for name u ign out
  proof -
    from that(2) obtain c ts where "class_of u = Some (c, ts)" by (auto simp: tagged_inside_def split: option.splits)
    from decode_class_decodes [OF this alt(1) [OF that(1)]] fields alt(2) [OF that(1)] show ?thesis by force
  qed
  have "alternatives_decode n (map (\<lambda>(name, u). (name, tagged_inside u, initial_value u,
      if tagged_inside u then decode_class ops n (tag_key (fm_info F)) u else decode_value ops n no_field u)) alts)"
    using cls vals alt by (auto simp: alternatives_decode_def)
  from decode_variant_decodes [OF this] dt_variant show ?thesis by (simp add: decodes_def)
next
  case (dt_byte_range be dest d)
  then show ?thesis
    using leaf_decodes(4) [of n F be dest out] decode_sequence_decodes [OF decode_uint_decodes]
      decode_positional_decodes [of "replicate k (decode_uint ops F 8 d)" n for k, OF _] decode_uint_decodes
    by (auto simp: decodes_def settles_rewrap split: byte_dest.split)
next
  case (dt_map mc d kt u)
  with keys have "decodes n (decode_value ops n F u v)" for v by (intro vals) (simp_all add: type_keys_defined_def)
  from decode_map_decodes [OF this] dt_map show ?thesis by (simp add: decodes_def settles_rewrap)
next
  case (dt_tuple ts)
  have "decodes n (decode_value ops n F u v)" if "u \<in> set ts" for u v
    using keys that dt_tuple size_list_member [OF that, of size] by (intro vals) (auto simp: type_keys_defined_def)
  from decode_tuple_decodes [OF this] dt_tuple show ?thesis by (simp add: decodes_def settles_rewrap)
next
  case (dt_array k im u)
  with keys have "decodes n (decode_value ops n F u v)" for v by (intro vals) (simp_all add: type_keys_defined_def)
  with decode_positional_decodes [of "replicate k (decode_value ops n F u)" n] dt_array show ?thesis
    by (simp add: decodes_def settles_rewrap)
next
  case (dt_sequence ct u)
  with keys have "decodes n (decode_value ops n F u v)" for v by (intro vals) (simp_all add: type_keys_defined_def)
  from decode_sequence_decodes [OF this] dt_sequence show ?thesis by (simp add: decodes_def settles_rewrap)
next
  case (dt_class c ts vs)
  then have "class_of t = Some (c, ts)" by (simp add: class_of_def)
  from decode_class_decodes [OF this keys fields] dt_class show ?thesis by (simp add: decodes_def)
qed (use leaf_decodes decode_uint_decodes decode_sint_decodes decode_enum_decodes in \<open>simp_all add: decodes_def\<close>)

lemma decode_value_decodes:
  "codecs_advance \<Longrightarrow> decodes n (decode_shape ops n F t out) \<Longrightarrow> decodes n (decode_value ops n F t out)"
  using run_codec_decodes by (simp add: decodes_def codecs_advance_def decode_value.simps split: option.split)

lemma decode_field_value_decodes:
  assumes "\<And>out. decodes n (decode_value ops n F t out)"
    "\<And>u out. optional_type t = Some u \<Longrightarrow> decodes n (decode_field_value ops n F u out)"
  shows "decodes n (decode_field_value ops n F t out)"
proof (rule decodesI)
  fix r assume r: "good r" "left r < n"
  show "settles 1 r (decode_field_value ops n F t out r)"
  proof (cases "optional_type t")
    case (Some u)
    from decodesD [OF decode_optional_decodes [OF assms(2) [OF Some]] r] show ?thesis
      by (simp add: field_value_optional [OF Some])
  next
    case None
    note plain = field_value_plain [OF None]
    obtain st r1 where tg: "rd_tags ops (destination_tags ops F t) r = (st, r1)" by force
    have k1: "keeps r r1" "\<And>u. st = Inr u \<Longrightarrow> left r1 \<le> left r"
      using steps(16) [OF r(1), of "destination_tags ops F t"] by (auto simp: step_def tg)
    show ?thesis
    proof (cases st)
      case (Inl e)
      with k1 tg show ?thesis by (simp add: plain settles_throws)
    next
      case (Inr u)
      have dv: "settles 1 r (decode_value ops n F t v r2)" if "keeps r r2" "left r2 \<le> left r" for v r2
      proof -
        have "settles 1 r2 (decode_value ops n F t v r2)"
          by (rule decodesD [OF assms(1) keeps_good [OF that(1)]]) (use that(2) r(2) in simp)
        from settles_from [OF that(1) _ this, of 0] that(2) show ?thesis by simp
      qed
      show ?thesis
      proof (cases "rd_range ops t")
        case None
        with dv [OF k1(1) k1(2) [OF Inr]] Inr tg show ?thesis by (simp add: plain)
      next
        case (Some f)
        obtain h v r2 where f: "f out r1 = (h, v, r2)" by (metis prod.exhaust)
        have k2: "keeps r1 r2" "\<And>x. h = Inr x \<Longrightarrow> left r2 + (if x then 1 else 0) \<le> left r1"
          using range_step [OF Some, unfolded range_advances_def, THEN spec, THEN spec, THEN mp, OF keeps_good [OF k1(1)], of out]
          by (simp_all add: f keeps_def)
        have k: "keeps r r2" by (rule keeps_trans [OF k1(1) k2(1)])
        have eq: "decode_field_value ops n F t out r = (case h of Inl e \<Rightarrow> throws e v r2
            | Inr handled \<Rightarrow> if handled then returns (Inr ()) v r2 else decode_value ops n F t v r2)"
          by (simp add: plain tg Inr Some f split: sum.split)
        show ?thesis
        proof (cases h)
          case (Inl e)
          with k show ?thesis by (simp add: eq settles_throws)
        next
          case hd: (Inr handled)
          from k2(2) [OF hd] k1(2) [OF Inr] dv [OF k] k show ?thesis
            by (cases handled) (simp_all add: eq hd settles_returns)
        qed
      qed
    qed
  qed
qed

text \<open>Every decoder of the engine returns, and takes an octet when it succeeds.\<close>

lemma decodes_all:
  assumes codecs: codecs_advance
  shows "type_keys_defined ops t \<Longrightarrow> (\<forall>F out. decodes n (decode_value ops n F t out)) \<and> (\<forall>F out. decodes n (decode_field_value ops n F t out))"
proof (induction t rule: measure_induct_rule [where f = size])
  case (less t)
  have v: "decodes n (decode_value ops n F t out)" for F out
    by (rule decode_value_decodes [OF codecs], rule decode_shape_decodes [OF codecs less(2)])
      (simp_all add: less(1))
  moreover have "decodes n (decode_field_value ops n F t out)" for F out
  proof (rule decode_field_value_decodes [OF v])
    fix u out assume u: "optional_type t = Some u"
    have "type_keys_defined ops u"
      using u less(2) by (auto simp: optional_type_def type_keys_defined_def split: dtype.splits)
    with less(1) optional_type_size [OF u] show "decodes n (decode_field_value ops n F u out)" by blast
  qed
  ultimately show ?case by blast
qed

lemma decode_root_returns:
  assumes "codecs_advance" "type_keys_defined ops t" "good r" "left r < n"
  shows "\<exists>st v r'. decode_root ops n t out r = Some ((st, v), r') \<and> good r' \<and> sib r r' \<and> (st = Inr () \<longrightarrow> left r' < left r)"
proof -
  have "settles 1 r (decode_field_value ops n no_field t out r)"
    using decodes_all [OF assms(1,2)] decodesD [OF _ assms(3,4)] by blast
  then obtain st v r1 where d: "decode_field_value ops n no_field t out r = Some ((st, v), r1)" "keeps r r1"
      "st = Inr () \<longrightarrow> left r1 < left r"
    by (auto simp: settles_def Suc_le_eq split: option.splits)
  have "keeps r (rd_set_collected ops es r1) \<and> left (rd_set_collected ops es r1) = left r1" for es
    using d(2) collect_step by (auto simp: keeps_def intro: sib_trans)
  with d show ?thesis
    by (cases st) (auto simp: decode_root_def returns_def keeps_def)
qed

end

end
