(* ===== verification/Decode_Cbor.thy ===== *)
theory Decode_Cbor
  imports Build_Laws Cbor_Validate
begin

text \<open>
  The decode engine over the CBOR reader: the operations \<^verbatim>\<open>core/build.hpp\<close> calls on \<^verbatim>\<open>cbor::reader\<close>
  (\<^verbatim>\<open>src/include/vcodec/cbor/read.hpp\<close>), the interpretation of the progress contract, and decoding as a whole. What
  user code provides, codecs and the comparison of types, is an argument.
\<close>

section \<open>Ranges of numbers\<close>

text \<open>\<^verbatim>\<open>typed_array_range\<close>: the element type with its display string, and whether the range can grow.\<close>

definition range_elem :: "dtype \<Rightarrow> (num_type \<times> string) option" where
  "range_elem t = (case t of
     dt_uint b d \<Rightarrow> Some (n_int False (b div 8), d)
   | dt_sint b d \<Rightarrow> Some (n_int True (b div 8), d)
   | dt_real single \<Rightarrow> Some (if single then (n_float, ''float'') else (n_double, ''double''))
   | _ \<Rightarrow> None)"

definition range_dest :: "dtype \<Rightarrow> (num_type \<times> string \<times> bool) option" where
  "range_dest t = (case t of
     dt_array n im u \<Rightarrow> map_option (\<lambda>(E, d). (E, d, False)) (range_elem u)
   | dt_sequence ct u \<Rightarrow> if ct_contiguous ct \<and> ct_sized ct then map_option (\<lambda>(E, d). (E, d, True)) (range_elem u) else None
   | dt_byte_range byte_elems dest d \<Rightarrow> if byte_elems then None else Some (n_int False 1, d, dest = bd_vector)
   | _ \<Rightarrow> None)"

text \<open>An element and its memory image.\<close>

definition elem_image :: "num_type \<Rightarrow> cval \<Rightarrow> u64" where
  "elem_image E v = (case v of
     v_uint u \<Rightarrow> u
   | v_sint i \<Rightarrow> take_bit (8 * n_size E) i
   | v_real d \<Rightarrow> (case E of n_float \<Rightarrow> ucast (to_float d) | _ \<Rightarrow> d)
   | _ \<Rightarrow> 0)"

definition elem_value :: "num_type \<Rightarrow> u64 \<Rightarrow> cval" where
  "elem_value E w = (case E of
     n_int sg k \<Rightarrow> if sg then v_sint (sign_extend k w) else v_uint w
   | n_float \<Rightarrow> v_real (from_float (ucast w))
   | n_double \<Rightarrow> v_real w)"

definition into_range :: "dtype \<Rightarrow> cval list \<Rightarrow> cval" where
  "into_range t vs = (case t of
     dt_array n im u \<Rightarrow> v_sequence True (im vs) vs
   | dt_sequence ct u \<Rightarrow> v_sequence (ct_sized ct) (ct_image ct vs) vs
   | dt_byte_range be dest d \<Rightarrow> v_byte_range be (octets_of vs)
   | _ \<Rightarrow> v_tuple vs)"

definition cbor_read_range :: "cbor_options \<Rightarrow> dtype \<Rightarrow> (cval \<Rightarrow> creader \<Rightarrow> bool result \<times> cval \<times> creader) option" where
  "cbor_read_range opts t = (case range_dest t of
     None \<Rightarrow> None
   | Some (E, d, resizable) \<Rightarrow> Some (\<lambda>out r.
       case read_range opts E d resizable (map (elem_image E) (elems_of out)) r of
         ((res, r'), images) \<Rightarrow> (res, if res = Inr False then out else into_range t (map (elem_value E) images), r')))"

section \<open>The operations\<close>

text \<open>The argument holds what the program provides: the codecs of annotations, of types, and type identity.\<close>

record 'r user_code =
  uc_with :: "string \<Rightarrow> field_meta \<Rightarrow> 'r decode_codec"
  uc_codec_for :: "string \<Rightarrow> field_meta \<Rightarrow> 'r decode_codec"
  uc_same_type :: "rtype \<Rightarrow> string \<Rightarrow> bool"

definition as_int :: "u64 result \<times> 'r \<Rightarrow> int result \<times> 'r" where
  "as_int m = (case m of (res, r) \<Rightarrow> (map_sum id sint res, r))"

definition cbor_reader :: "cbor_options \<Rightarrow> creader user_code \<Rightarrow> (creader, u64 option, map_cursor) reader_ops" where
  "cbor_reader opts user =
     \<lparr>rd_null = expect_null opts, rd_boolean = expect_boolean opts, rd_uint = (\<lambda>anns. expect_uint opts),
      rd_sint = (\<lambda>anns r. as_int (expect_sint opts r)), rd_real = expect_real opts, rd_text = expect_text opts,
      rd_bytes = (\<lambda>anns. expect_bytes opts), rd_array = expect_array opts, rd_seq_next = seq_next,
      rd_map = expect_map opts, rd_map_next = map_next opts, rd_key_kind = peek opts, rd_key_text = expect_text opts,
      rd_key_uint = expect_uint opts, rd_key_sint = (\<lambda>r. as_int (expect_sint opts r)),
      rd_peek = (\<lambda>r. (peek opts r, r)), rd_offset = (\<lambda>r. (r_pos r, r)), rd_skip = skip_value opts,
      rd_save = save, rd_restore = restore, rd_error = (\<lambda>r. mk_error), rd_tags = expect_tags,
      rd_range = cbor_read_range opts, rd_duplicates = o_duplicates opts, rd_errors = o_errors opts,
      rd_collected = r_collected, rd_set_collected = (\<lambda>es r. r\<lparr>r_collected := es\<rparr>),
      rd_traits = cbor_format_traits, rd_key_traits = cbor_key_traits, rd_with = uc_with user,
      rd_codec_for = uc_codec_for user, rd_same_type = uc_same_type user\<rparr>"

lemma cbor_reader_simps [simp]:
  "rd_null (cbor_reader opts user) = expect_null opts" "rd_boolean (cbor_reader opts user) = expect_boolean opts"
  "rd_uint (cbor_reader opts user) anns = expect_uint opts" "rd_sint (cbor_reader opts user) anns = (\<lambda>r. as_int (expect_sint opts r))"
  "rd_real (cbor_reader opts user) = expect_real opts" "rd_text (cbor_reader opts user) = expect_text opts"
  "rd_bytes (cbor_reader opts user) anns = expect_bytes opts" "rd_array (cbor_reader opts user) = expect_array opts"
  "rd_seq_next (cbor_reader opts user) = seq_next" "rd_map (cbor_reader opts user) = expect_map opts"
  "rd_map_next (cbor_reader opts user) = map_next opts" "rd_key_kind (cbor_reader opts user) = peek opts"
  "rd_key_text (cbor_reader opts user) = expect_text opts" "rd_key_uint (cbor_reader opts user) = expect_uint opts"
  "rd_key_sint (cbor_reader opts user) = (\<lambda>r. as_int (expect_sint opts r))"
  "rd_peek (cbor_reader opts user) r = (peek opts r, r)" "rd_offset (cbor_reader opts user) r = (r_pos r, r)"
  "rd_skip (cbor_reader opts user) = skip_value opts" "rd_save (cbor_reader opts user) = save"
  "rd_restore (cbor_reader opts user) = restore" "rd_error (cbor_reader opts user) r = mk_error"
  "rd_tags (cbor_reader opts user) = expect_tags" "rd_range (cbor_reader opts user) = cbor_read_range opts"
  "rd_duplicates (cbor_reader opts user) = o_duplicates opts" "rd_errors (cbor_reader opts user) = o_errors opts"
  "rd_collected (cbor_reader opts user) = r_collected" "rd_set_collected (cbor_reader opts user) es r = r\<lparr>r_collected := es\<rparr>"
  "rd_traits (cbor_reader opts user) = cbor_format_traits" "rd_key_traits (cbor_reader opts user) = cbor_key_traits"
  "rd_with (cbor_reader opts user) = uc_with user" "rd_codec_for (cbor_reader opts user) = uc_codec_for user"
  "rd_same_type (cbor_reader opts user) = uc_same_type user"
  by (simp_all add: cbor_reader_def)

section \<open>What an operation keeps\<close>

text \<open>Position and depth fit what \<^verbatim>\<open>save\<close> packs into a word: 48 and 16 bits.\<close>

definition cgood :: "cbor_options \<Rightarrow> creader \<Rightarrow> bool" where
  "cgood opts r \<longleftrightarrow> r_pos r \<le> r_size r \<and> r_depth r \<le> o_max_depth opts \<and> r_size r < 2 ^ 48 \<and> o_max_depth opts < 2 ^ 16"

definition cleft :: "creader \<Rightarrow> nat" where
  "cleft r = r_size r - r_pos r"

definition csib :: "creader \<Rightarrow> creader \<Rightarrow> bool" where
  "csib r r' \<longleftrightarrow> r_in r = r_in r'"

text \<open>The bookkeeping fields do not matter.\<close>

lemma creader_irrelevant [simp]:
  "r_size (r\<lparr>r_pending := a\<rparr>) = r_size r" "r_size (r\<lparr>r_start := n\<rparr>) = r_size r" "r_size (r\<lparr>r_pos := n\<rparr>) = r_size r"
  "r_size (r\<lparr>r_depth := n\<rparr>) = r_size r" "r_size (r\<lparr>text_scratch := s\<rparr>) = r_size r" "r_size (r\<lparr>bytes_scratch := s\<rparr>) = r_size r"
  "r_size (r\<lparr>skip_scratch := s\<rparr>) = r_size r" "r_size (r\<lparr>r_collected := es\<rparr>) = r_size r" "r_size (r_advance n r) = r_size r"
  by (simp_all add: r_size_def)

lemma item_head_from_bounds:
  "item_head_from opts ex inp p = Inr (h, q) \<Longrightarrow> p \<le> q \<and> head_length h \<noteq> 0 \<and> q + head_length h \<le> length inp"
proof (induction opts ex inp p rule: item_head_from.induct)
  case (1 opts ex inp p)
  define h1 where "h1 = parse_head inp p"
  have run: "item_head_from opts ex inp p = Inr (h, q)" by (rule 1(2))
  show ?case
  proof (cases "mt h1 = major_tag")
    case True
    then have "item_head_from opts ex inp (p + head_length h1) = Inr (h, q)"
      using run by (subst (asm) item_head_from.simps) (simp add: h1_def [symmetric] Let_def split: if_splits)
    moreover have "\<not> length inp \<le> p" "head_length h1 \<noteq> 0" "\<not> is_break h1" "\<not> reserved h1" "o_ignore_unknown_tags opts"
      using run True by (subst (asm) item_head_from.simps, simp add: h1_def [symmetric] Let_def split: if_splits)+
    ultimately show ?thesis using 1(1) [of h1] True by (simp add: h1_def)
  next
    case False
    then have "h = h1" "q = p" "head_length h1 \<noteq> 0"
      using run by (subst (asm) item_head_from.simps, simp add: h1_def [symmetric] Let_def split: if_splits option.splits)+
    then show ?thesis using parse_head_length_bound [of inp p] by (simp add: h1_def)
  qed
qed

text \<open>\<open>cstep b r m\<close>: the answer leaves the reader good over the same input, and a success has taken \<open>b\<close> octets.\<close>

definition cstep :: "cbor_options \<Rightarrow> nat \<Rightarrow> creader \<Rightarrow> 'a read \<Rightarrow> bool" where
  "cstep opts b r m \<longleftrightarrow> (case m of (res, r') \<Rightarrow> cgood opts r' \<and> r_in r' = r_in r \<and> (\<forall>x. res = Inr x \<longrightarrow> r_pos r + b \<le> r_pos r'))"

lemma cgood_size: "cgood opts r' \<Longrightarrow> r_pos r' \<le> length (r_in r')"
  by (simp add: cgood_def r_size_def)

lemma cstep_advances:
  assumes "\<And>r. cgood opts r \<Longrightarrow> cstep opts b r (f r)"
  shows "advances (cgood opts) csib cleft b f"
  unfolding advances_def
proof (intro allI impI, split prod.split, intro allI impI)
  fix r res r' assume r: "cgood opts r" "f r = (res, r')"
  with assms [OF r(1)] have k: "cgood opts r'" "r_in r' = r_in r" "\<And>x. res = Inr x \<Longrightarrow> r_pos r + b \<le> r_pos r'"
    by (simp_all add: cstep_def)
  show "cgood opts r' \<and> csib r r' \<and> (\<forall>x. res = Inr x \<longrightarrow> cleft r' + b \<le> cleft r)"
    using k cgood_size [OF k(1)] by (fastforce simp: csib_def cleft_def r_size_def)
qed

lemma take_pending_good:
  "take_pending r = (res, r') \<Longrightarrow> cgood opts r \<Longrightarrow> cgood opts r' \<and> r_in r' = r_in r \<and> r_pos r' = r_pos r \<and> r_depth r' = r_depth r"
  by (auto simp: take_pending_def cgood_def split: option.splits)

lemma item_head_good:
  assumes "item_head opts ex r = (res, r')" "cgood opts r"
  shows "cgood opts r' \<and> r_in r' = r_in r \<and> (\<forall>h. res = Inr h \<longrightarrow>
     r_pos r \<le> r_pos r' \<and> head_length h \<noteq> 0 \<and> r_pos r' + head_length h \<le> r_size r')"
proof -
  obtain st r1 where t: "take_pending r = (st, r1)" by force
  note g = take_pending_good [OF t assms(2)]
  show ?thesis
  proof (cases st)
    case (Inl e)
    with assms(1) t g show ?thesis by (auto simp: item_head_def)
  next
    case (Inr u)
    show ?thesis
    proof (cases "item_head_from opts ex (r_in r1) (r_pos r1)")
      case (Inl e)
      with assms(1) t g Inr show ?thesis by (auto simp: item_head_def)
    next
      case hq: (Inr hq)
      obtain h q where "hq = (h, q)" by force
      with item_head_from_bounds [of opts ex "r_in r1" "r_pos r1" h q] assms(1) t g Inr hq show ?thesis
        by (auto simp: item_head_def cgood_def r_size_def)
    qed
  qed
qed

text \<open>An operation that looks at a head first.\<close>

lemma cstep_head:
  assumes "cgood opts r"
    "\<And>h r'. cgood opts r' \<Longrightarrow> r_in r' = r_in r \<Longrightarrow> head_length h \<noteq> 0 \<Longrightarrow> r_pos r' + head_length h \<le> r_size r' \<Longrightarrow>
       cstep opts b r' (f h r')"
  shows "cstep opts b r (case item_head opts ex r of (Inl e, r) \<Rightarrow> (Inl e, r) | (Inr h, r) \<Rightarrow> f h r)"
proof -
  obtain res r' where h: "item_head opts ex r = (res, r')" by force
  note g = item_head_good [OF h assms(1)]
  show ?thesis
  proof (cases res)
    case (Inl e)
    with g h show ?thesis by (simp add: cstep_def)
  next
    case (Inr hd)
    with g have "cstep opts b r' (f hd r')" "r_pos r \<le> r_pos r'" "r_in r' = r_in r" by (auto intro: assms(2))
    with h Inr show ?thesis by (fastforce simp: cstep_def split: prod.splits)
  qed
qed

lemma cstep_consume:
  "cgood opts r \<Longrightarrow> head_length h \<noteq> 0 \<Longrightarrow> r_pos r + head_length h \<le> r_size r \<Longrightarrow> cstep opts (Suc 0) r (consume h x r)"
  by (simp add: cstep_def consume_def cgood_def)

lemma cstep_fail [simp]: "cgood opts r \<Longrightarrow> cstep opts b r (Inl e, r)"
  by (simp add: cstep_def)

lemma cstep_scalars:
  assumes "cgood opts r"
  shows "cstep opts 1 r (expect_null opts r)" "cstep opts 1 r (expect_boolean opts r)" "cstep opts 1 r (expect_uint opts r)"
    "cstep opts 1 r (expect_sint opts r)" "cstep opts 1 r (expect_real opts r)"
  unfolding expect_null_def expect_boolean_def expect_uint_def expect_sint_def expect_real_def
  by (rule cstep_head [OF assms], simp add: cstep_consume split: option.split)+

lemma read_string_good:
  assumes "cgood opts r" "head_length h \<noteq> 0" "r_pos r + head_length h \<le> r_size r" "read_string opts' h m r = ((res, r'), sc)"
  shows "cgood opts r' \<and> r_in r' = r_in r \<and> (\<forall>x. res = Inr x \<longrightarrow> r_pos r + 1 \<le> r_pos r')"
  using read_string_bounds [OF assms(4,3)] assms(1,2) by (auto simp: cgood_def r_size_def)

lemma cgood_scratch [simp]:
  "cgood opts (r\<lparr>text_scratch := s\<rparr>) = cgood opts r" "cgood opts (r\<lparr>bytes_scratch := s\<rparr>) = cgood opts r"
  "cgood opts (r\<lparr>skip_scratch := s\<rparr>) = cgood opts r" "cgood opts (r\<lparr>r_collected := es\<rparr>) = cgood opts r"
  by (simp_all add: cgood_def)

lemma cstep_read_string:
  assumes "cgood opts r" "head_length h \<noteq> 0" "r_pos r + head_length h \<le> r_size r"
    "\<And>e r1 sc. cgood opts r1 \<Longrightarrow> r_in r1 = r_in r \<Longrightarrow> cstep opts 1 r (g e r1 sc)"
    "\<And>bs scr r1 sc. cgood opts r1 \<Longrightarrow> r_in r1 = r_in r \<Longrightarrow> r_pos r + 1 \<le> r_pos r1 \<Longrightarrow> cstep opts 1 r (f bs scr r1 sc)"
  shows "cstep opts 1 r (case read_string opts h m r of
     ((Inl e, r1), sc) \<Rightarrow> g e r1 sc | ((Inr (bs, scr), r1), sc) \<Rightarrow> f bs scr r1 sc)"
proof -
  obtain res r1 sc where rs: "read_string opts h m r = ((res, r1), sc)" by (metis prod.exhaust)
  from read_string_good [OF assms(1-3) rs] assms(4,5) show ?thesis
    by (cases res) (auto simp: rs split: prod.split)
qed

lemma cstep_text: "cgood opts r \<Longrightarrow> cstep opts 1 r (expect_text opts r)"
  unfolding expect_text_def
proof (rule cstep_head, assumption, split if_split, intro conjI impI)
  fix h :: parsed_head and r' :: creader
  assume "cgood opts r'" "head_length h \<noteq> 0" "r_pos r' + head_length h \<le> r_size r'"
  then show "cstep opts 1 r' (case read_string opts h major_text r' of
      ((Inl e, r1), sc) \<Rightarrow> (Inl e, (case sc of Some s \<Rightarrow> r1\<lparr>text_scratch := s\<rparr> | None \<Rightarrow> r1))
    | ((Inr (bs, scratch), r1), sc) \<Rightarrow>
        let r2 = (case sc of Some s \<Rightarrow> r1\<lparr>text_scratch := s\<rparr> | None \<Rightarrow> r1) in
        case error_if (o_validate_utf8 opts) (map_option (\<lambda>bad. with_length 1
            (mk_error invalid_utf8 (r_start r2 + (if scratch then 0 else head_length h + bad)))) (validate_utf8 (string_of_bytes bs))) of
          Some e \<Rightarrow> (Inl e, r2)
        | None \<Rightarrow> (Inr \<lparr>t_text = string_of_bytes bs, t_borrowed = \<not> scratch, t_raw_length = r_pos r2 - r_start r2\<rparr>, r2))"
    by (intro cstep_read_string) (auto simp: cstep_def Let_def split: option.split)
qed simp

lemma cstep_bytes: "cgood opts r \<Longrightarrow> cstep opts 1 r (expect_bytes opts r)"
  unfolding expect_bytes_def
proof (rule cstep_head, assumption, split if_split, intro conjI impI)
  fix h :: parsed_head and r' :: creader
  assume "cgood opts r'" "head_length h \<noteq> 0" "r_pos r' + head_length h \<le> r_size r'"
  then show "cstep opts 1 r' (case read_string opts h major_bytes r' of
      ((Inl e, r1), sc) \<Rightarrow> (Inl e, (case sc of Some s \<Rightarrow> r1\<lparr>bytes_scratch := s\<rparr> | None \<Rightarrow> r1))
    | ((Inr (bs, scratch), r1), sc) \<Rightarrow>
        (Inr \<lparr>b_bytes = bs, b_borrowed = \<not> scratch\<rparr>, (case sc of Some s \<Rightarrow> r1\<lparr>bytes_scratch := s\<rparr> | None \<Rightarrow> r1)))"
    by (intro cstep_read_string) (auto simp: cstep_def split: option.split)
qed simp

lemma cstep_containers:
  assumes "cgood opts r"
  shows "cstep opts 1 r (expect_array opts r)" "cstep opts 1 r (expect_map opts r)"
  unfolding expect_array_def expect_map_def enter_def
  by (rule cstep_head [OF assms], simp add: cstep_def cgood_def)+

lemma cstep_seq_next: "cgood opts r \<Longrightarrow> cstep opts 0 r (seq_next c r)"
  by (auto simp: seq_next_def cstep_def cgood_def leave_def r_size_def split: option.split)

lemma raw_head_good:
  assumes "raw_head r = (res, r')" "cgood opts r"
  shows "cgood opts r' \<and> r_in r' = r_in r \<and> r_pos r' = r_pos r \<and> (\<forall>h. res = Inr h \<longrightarrow> head_length h \<noteq> 0 \<and> r_pos r' + head_length h \<le> r_size r')"
proof -
  obtain st r1 where t: "take_pending r = (st, r1)" by force
  define h1 where "h1 = parse_head (r_in r1) (r_pos r1)"
  have "r' = r1 \<and> (\<forall>h. res = Inr h \<longrightarrow> h = h1 \<and> head_length h1 \<noteq> 0)"
    using assms(1) unfolding raw_head_def t Let_def prod.case h1_def [symmetric] by (cases st) (auto split: if_splits)
  with take_pending_good [OF t assms(2)] parse_head_length_bound [of "r_in r1" "r_pos r1"] show ?thesis
    unfolding h1_def [symmetric] r_size_def by metis
qed

lemma cstep_tags: "cgood opts r \<Longrightarrow> cstep opts 0 r (expect_tags ts r)"
proof (induction ts arbitrary: r)
  case (Cons t ts)
  obtain res r1 where h: "raw_head r = (res, r1)" by force
  note g = raw_head_good [OF h Cons(2)]
  show ?case
  proof (cases "\<exists>hd. res = Inr hd \<and> mt hd = major_tag \<and> head_value hd = t")
    case True
    then obtain hd where hd: "res = Inr hd" "mt hd = major_tag" "head_value hd = t" by blast
    have "cgood opts (r_advance (head_length hd) r1)" using g hd(1) by (simp add: cgood_def)
    from Cons(1) [OF this] g hd h show ?thesis by (auto simp: cstep_def)
  next
    case False
    with g h show ?thesis by (auto simp: cstep_def split: sum.splits)
  qed
qed (simp add: cstep_def)

section \<open>Skipping\<close>

text \<open>Also a failed validation leaves position and depth within their bounds.\<close>

definition outcome_good :: "cbor_options \<Rightarrow> creader \<Rightarrow> skip_outcome \<Rightarrow> bool" where
  "outcome_good opts r oc \<longleftrightarrow> cgood opts (outcome_reader oc) \<and> r_in (outcome_reader oc) = r_in r"

lemma outcome_good_simps [simp]:
  "outcome_good opts r (Skip_fail e r') \<longleftrightarrow> cgood opts r' \<and> r_in r' = r_in r"
  "outcome_good opts r (Skip_done r') \<longleftrightarrow> cgood opts r' \<and> r_in r' = r_in r"
  "outcome_good opts r (Skip_more st r') \<longleftrightarrow> cgood opts r' \<and> r_in r' = r_in r"
  by (simp_all add: outcome_good_def)

lemma item_done_good: "cgood opts r \<Longrightarrow> outcome_good opts r (item_done opts st r)"
proof (induction opts st r rule: item_done.induct)
  case (2 opts lvl rest r)
  have "cgood opts (r\<lparr>r_depth := r_depth r - 1\<rparr>)" using 2(2) by (auto simp: cgood_def)
  with 2 show ?case by (auto simp: Let_def outcome_good_def split: option.split)
qed simp

lemma item_done_good': "cgood opts r' \<Longrightarrow> r_in r' = r_in r \<Longrightarrow> outcome_good opts r (item_done opts st r')"
  using item_done_good [of opts r' st] by (simp add: outcome_good_def)

lemma skip_step_good:
  assumes "cgood opts r"
  shows "outcome_good opts r (skip_step opts st r)"
proof -
  define h where "h = parse_head (r_in r) (r_pos r)"
  have b: "r_pos r + head_length h \<le> r_size r" if "head_length h \<noteq> 0"
    using parse_head_length_bound [of "r_in r" "r_pos r"] that by (simp add: h_def r_size_def)
  have adv: "cgood opts (r_advance (head_length h) r)" if "head_length h \<noteq> 0"
    using b [OF that] assms by (simp add: cgood_def)
  have brk: "outcome_good opts r (skip_break opts st' r)" if "r_pos r < r_size r" for st'
    using assms that by (auto simp: skip_break_def cgood_def intro!: item_done_good' split: list.split)
  have str: "outcome_good opts r (skip_string opts h st' r)" if "head_length h \<noteq> 0" for st'
  proof -
    obtain res r1 sc where rs: "read_string opts h (mt h) r = ((res, r1), sc)" by (metis prod.exhaust)
    from read_string_good [OF assms that b [OF that] rs] show ?thesis
      by (cases res; cases sc) (auto simp: skip_string_def rs Let_def intro!: item_done_good' split: option.split)
  qed
  have simple: "outcome_good opts r (skip_simple opts h st' r)" if "head_length h \<noteq> 0" for st'
    using adv [OF that] assms by (auto simp: skip_simple_def intro!: item_done_good' split: option.split)
  have tag: "outcome_good opts r (skip_tag h st' r)" if "head_length h \<noteq> 0" for st'
    using adv [OF that] by (simp add: skip_tag_def Let_def)
  have cont: "outcome_good opts r (skip_container opts h st' r)" if "head_length h \<noteq> 0" for st'
    using b [OF that] assms by (auto simp: skip_container_def Let_def cgood_def intro!: item_done_good')
  show ?thesis
    unfolding skip_step_def Let_def h_def [symmetric]
    using assms adv by (simp add: brk str simple tag cont item_done_good' split: major.split option.split)
qed

lemma skip_loop_good: "cgood opts r \<Longrightarrow> skip_loop opts st r = (res, r') \<Longrightarrow> cgood opts r' \<and> r_in r' = r_in r"
proof (induction opts st r rule: skip_loop.induct)
  case (1 opts st r)
  note g = skip_step_good [OF 1(2), of st]
  show ?case
  proof (cases "skip_step opts st r")
    case (Skip_more st' r1)
    then have "skip_loop opts st' r1 = (res, r')" using 1(3) by (subst (asm) skip_loop.simps) simp
    from 1(1) [OF Skip_more _ this] g Skip_more show ?thesis by auto
  qed (use 1(3) g in \<open>subst (asm) skip_loop.simps, auto\<close>)+
qed

lemma skip_value_good: "cgood opts r \<Longrightarrow> skip_value opts r = (res, r') \<Longrightarrow> cgood opts r' \<and> r_in r' = r_in r"
  unfolding skip_value_def by (rule skip_loop_good)

lemma cstep_skip: "cgood opts r \<Longrightarrow> cstep opts 1 r (skip_value opts r)"
proof -
  assume r: "cgood opts r"
  obtain res r' where s: "skip_value opts r = (res, r')" by force
  have "\<forall>x. res = Inr x \<longrightarrow> r_pos r + 1 \<le> r_pos r'" using cbor.skip_progress [of opts r _ r'] s by force
  with skip_value_good [OF r s] show ?thesis by (simp add: cstep_def s)
qed

lemma restore_good:
  assumes "cgood opts r" "r_in r' = r_in r"
  shows "restore (save r) r' = r'\<lparr>r_pos := r_pos r, r_depth := r_depth r\<rparr>" "cgood opts (restore (save r) r')"
proof -
  have "packable (r_pos r) (r_depth r)" using assms(1) by (simp add: packable_def cgood_def)
  from cbor.restore_save [OF this, of r'] show eq: "restore (save r) r' = r'\<lparr>r_pos := r_pos r, r_depth := r_depth r\<rparr>"
    by (simp add: restore_def)
  show "cgood opts (restore (save r) r')" using assms unfolding eq by (simp add: cgood_def r_size_def)
qed

lemma cstep_key_ahead: "cgood opts r \<Longrightarrow> cstep opts 0 r (key_ahead opts c r)"
proof -
  assume r: "cgood opts r"
  obtain res r1 where s: "skip_value opts r = (res, r1)" by force
  have "r_in r1 = r_in r" using skip_value_good [OF r s] by simp
  from restore_good [OF r this] this r show ?thesis
    by (auto simp: key_ahead_def s cstep_def Let_def split: sum.split prod.split option.split)
qed

lemma cstep_map_next: "cgood opts r \<Longrightarrow> cstep opts 0 r (map_next opts c r)"
  using cstep_key_ahead [of opts r] by (auto simp: map_next_def cstep_def cgood_def leave_def r_size_def split: option.split)

lemma range_good:
  assumes "cbor_read_range opts t = Some f"
  shows "range_advances (cgood opts) csib cleft f"
  unfolding range_advances_def
proof (intro allI impI)
  fix v r assume r: "cgood opts r"
  obtain E d rz where t: "range_dest t = Some (E, d, rz)"
    "f = (\<lambda>out r. case read_range opts E d rz (map (elem_image E) (elems_of out)) r of
         ((res, r'), images) \<Rightarrow> (res, if res = Inr False then out else into_range t (map (elem_value E) images), r'))"
    using assms by (auto simp: cbor_read_range_def split: option.splits)
  obtain res r' im where rr: "read_range opts E d rz (map (elem_image E) (elems_of v)) r = ((res, r'), im)" by (metis prod.exhaust)
  obtain hres r1 where h: "raw_head r = (hres, r1)" by force
  note g = raw_head_good [OF h r]
  have "cgood opts r' \<and> r_in r' = r_in r \<and> (\<forall>x. res = Inr x \<longrightarrow> r_pos r + (if x then 1 else 0) \<le> r_pos r')"
  proof (cases hres)
    case (Inl e)
    with rr h g r show ?thesis by (auto simp: read_range_def split: if_splits)
  next
    case (Inr hd)
    obtain bres r2 where b: "expect_bytes opts (r_advance (head_length hd) r1) = (bres, r2)" by force
    have "cgood opts (r_advance (head_length hd) r1)" using g Inr by (simp add: cgood_def)
    from cstep_bytes [OF this] b have k: "cgood opts r2" "r_in r2 = r_in r" "\<And>x. bres = Inr x \<Longrightarrow> r_pos r < r_pos r2"
      using g Inr by (auto simp: cstep_def)
    have "cgood opts (r2\<lparr>r_pos := r_pos r\<rparr>)" using k(1,2) r by (simp add: cgood_def r_size_def)
    with rr h g r k Inr b show ?thesis
      by (auto simp: read_range_def split: if_splits sum.splits prod.splits)
  qed
  then have k: "cgood opts r'" "r_in r' = r_in r" "\<And>x. res = Inr x \<Longrightarrow> r_pos r + (if x then 1 else 0) \<le> r_pos r'" by blast+
  have "cleft r' + (if x then 1 else 0) \<le> cleft r" if "res = Inr x" for x
    using k(3) [OF that] cgood_size [OF k(1)] k(2) by (cases x) (simp_all add: cleft_def r_size_def)
  with k(1,2) show "case f v r of (res, v', r') \<Rightarrow> cgood opts r' \<and> csib r r' \<and> (\<forall>x. res = Inr x \<longrightarrow> cleft r' + (if x then 1 else 0) \<le> cleft r)"
    by (simp add: t(2) rr csib_def)
qed

section \<open>The contract\<close>

lemma cstep_as_int: "cstep opts b r m \<Longrightarrow> cstep opts b r (as_int m)"
proof -
  assume "cstep opts b r m"
  moreover obtain res r' where "m = (res, r')" by force
  ultimately show ?thesis by (cases res) (simp_all add: cstep_def as_int_def)
qed

lemma in_i64_sint: "in_i64 (sint (w :: u64))"
  using sint_greater_eq [of w] sint_less [of w] by (simp add: in_i64_def)

interpretation cbor_decoding: progressing "cbor_reader opts user" "cgood opts" cleft csib for opts user
proof unfold_locales
  show "advances (cgood opts) csib cleft 1 (rd_null (cbor_reader opts user))"
    "advances (cgood opts) csib cleft 1 (rd_boolean (cbor_reader opts user))"
    "advances (cgood opts) csib cleft 1 (rd_uint (cbor_reader opts user) anns)"
    "advances (cgood opts) csib cleft 1 (rd_sint (cbor_reader opts user) anns)"
    "advances (cgood opts) csib cleft 1 (rd_real (cbor_reader opts user))"
    "advances (cgood opts) csib cleft 1 (rd_text (cbor_reader opts user))"
    "advances (cgood opts) csib cleft 1 (rd_bytes (cbor_reader opts user) anns)"
    "advances (cgood opts) csib cleft 1 (rd_array (cbor_reader opts user))"
    "advances (cgood opts) csib cleft 1 (rd_map (cbor_reader opts user))"
    "advances (cgood opts) csib cleft 1 (rd_key_text (cbor_reader opts user))"
    "advances (cgood opts) csib cleft 1 (rd_key_uint (cbor_reader opts user))"
    "advances (cgood opts) csib cleft 1 (rd_key_sint (cbor_reader opts user))"
    "advances (cgood opts) csib cleft 1 (rd_skip (cbor_reader opts user))"
    "advances (cgood opts) csib cleft 0 (rd_seq_next (cbor_reader opts user) cs)"
    "advances (cgood opts) csib cleft 0 (rd_map_next (cbor_reader opts user) cm)"
    "advances (cgood opts) csib cleft 0 (rd_tags (cbor_reader opts user) ts)" for anns cs cm ts
    unfolding cbor_reader_simps
    by (rule cstep_advances,
        (erule cstep_scalars cstep_text cstep_bytes cstep_containers cstep_skip cstep_seq_next cstep_map_next cstep_tags
          | rule cstep_as_int, erule cstep_scalars))+
  show "range_advances (cgood opts) csib cleft f" if "rd_range (cbor_reader opts user) t = Some f" for t f
    using range_good [of opts t f] that by simp
  show "in_i64 k" if "rd_key_sint (cbor_reader opts user) r = (Inr k, r')" for r k r'
    using that in_i64_sint by (auto simp: as_int_def split: prod.splits) (metis (no_types, lifting) Inr_inject map_sum.simps sum.exhaust sum.simps(4))
  show "cgood opts (rd_restore (cbor_reader opts user) (rd_save (cbor_reader opts user) r) r')
      \<and> csib r (rd_restore (cbor_reader opts user) (rd_save (cbor_reader opts user) r) r')
      \<and> cleft (rd_restore (cbor_reader opts user) (rd_save (cbor_reader opts user) r) r') = cleft r"
    if "cgood opts r" "cgood opts r'" "csib r r'" for r r'
  proof -
    have "r_in r' = r_in r" using that(3) by (simp add: csib_def)
    from restore_good [OF that(1) this] this show ?thesis by (simp add: csib_def cleft_def r_size_def)
  qed
qed (simp_all add: csib_def cleft_def moves_def)

section \<open>Decoding\<close>

text \<open>\<^verbatim>\<open>core::decode\<close> on the CBOR reader; more rounds than octets.\<close>

definition cbor_decode_engine :: "creader user_code \<Rightarrow> dtype \<Rightarrow> cval Cbor_Read.engine" where
  "cbor_decode_engine user t opts out r = the (decode_root (cbor_reader opts user) (Suc (r_size r)) t out r)"

definition cbor_decode :: "creader user_code \<Rightarrow> cbor_options \<Rightarrow> dtype \<Rightarrow> bool \<Rightarrow> string \<Rightarrow> bytes \<Rightarrow> cval result" where
  "cbor_decode user opts t det tname inp = decode (cbor_decode_engine user t) opts det tname (initial_value t) inp"

text \<open>C5. Decoding always ends. For any type whose integer key tables cannot overflow in the look-up, any destination, any
  octets and any options, decoding a CBOR buffer returns with a result or an error after at most as many rounds of each loop
  as the buffer has octets, in fail-fast and in collect mode; and a value that was decoded has consumed input.
  The premises: the buffer is shorter than \<open>2 ^ 48\<close> octets and the depth limit below \<open>2 ^ 16\<close>, so that \<^verbatim>\<open>save\<close> can pack a
  position; no key of \<^verbatim>\<open>int64_t\<close> makes the look-up in an integer key table of the type overflow (\<open>type_keys_defined\<close>: so it is
  for the tables that are bisected and for the dense ones whose smallest key is not negative, \<open>key_find_defined\<close>, and not
  for the dense ones with a negative smallest key, \<open>key_find_overflow\<close>); custom codecs end and consume input
  themselves.\<close>

theorem cbor_decode_returns:
  assumes "length inp < 2 ^ 48" "o_max_depth opts < 2 ^ 16" "type_keys_defined (cbor_reader opts user) t"
    "\<And>name F. codec_advances (cgood opts) csib cleft (uc_with user name F)"
    "\<And>name F. codec_advances (cgood opts) csib cleft (uc_codec_for user name F)"
    "r = new_reader inp" "length inp < n"
  shows "\<exists>st v r'. decode_root (cbor_reader opts user) n t out r = Some ((st, v), r')
     \<and> r_in r' = inp \<and> r_pos r' \<le> length inp \<and> (st = Inr () \<longrightarrow> 0 < r_pos r')"
proof -
  have c: "cbor_decoding.codecs_advance opts user"
    using assms(4,5) by (simp add: cbor_decoding.codecs_advance_def)
  have r: "r_in r = inp" "r_pos r = 0" "cgood opts r" "cleft r < n"
    using assms(1,2,6,7) by (simp_all add: new_reader_def cgood_def cleft_def r_size_def)
  from cbor_decoding.decode_root_returns [OF c assms(3) r(3,4)] obtain st v r'
    where d: "decode_root (cbor_reader opts user) n t out r = Some ((st, v), r')" "cgood opts r'" "csib r r'"
      "st = Inr () \<longrightarrow> cleft r' < cleft r" by blast
  with r cgood_size [OF d(2)] show ?thesis by (auto simp: csib_def cleft_def r_size_def)
qed

text \<open>Codecs for the witnesses: each reads a null.\<close>

definition null_codec :: "cbor_options \<Rightarrow> creader decode_codec" where
  "null_codec opts = dc_value (\<lambda>r. case expect_null opts r of (res, r') \<Rightarrow> (map_sum id (\<lambda>u. v_optional None) res, r'))"

definition null_codecs :: "cbor_options \<Rightarrow> creader user_code" where
  "null_codecs opts = \<lparr>uc_with = (\<lambda>name F. null_codec opts), uc_codec_for = (\<lambda>name F. null_codec opts), uc_same_type = (\<lambda>t d. False)\<rparr>"

lemma null_codec_advances: "codec_advances (cgood opts) csib cleft (null_codec opts)"
  unfolding null_codec_def codec_advances.simps
proof (rule cstep_advances)
  fix r assume r: "cgood opts r"
  obtain res r' where n: "expect_null opts r = (res, r')" by force
  from cstep_scalars(1) [OF r] show "cstep opts 1 r (case expect_null opts r of (res, r') \<Rightarrow> (map_sum id (\<lambda>u. v_optional None) res, r'))"
    by (cases res) (simp_all add: n cstep_def)
qed

text \<open>\<^verbatim>\<open>std::vector\<close> of an element type without a memory image.\<close>

definition plain_vector :: container where
  "plain_vector = \<lparr>ct_sized = True, ct_contiguous = False, ct_image = (\<lambda>vs. None), ct_clears = True, ct_append = (\<lambda>vs v. vs @ [v])\<rparr>"

theorem cbor_decode_returns_witness:
  "\<exists>st v r'. decode_root (cbor_reader default_options (null_codecs default_options)) 4
       (dt_sequence plain_vector (dt_uint 8 ''u8'')) (v_sequence True None []) (new_reader [0x82, 0x01, 0x02]) = Some ((st, v), r')
     \<and> r_in r' = [0x82, 0x01, 0x02] \<and> r_pos r' \<le> 3 \<and> (st = Inr () \<longrightarrow> 0 < r_pos r')"
  using cbor_decode_returns [of "[0x82, 0x01, 0x02]" default_options "null_codecs default_options"
      "dt_sequence plain_vector (dt_uint 8 ''u8'')" "new_reader [0x82, 0x01, 0x02]" 4 "v_sequence True None []"]
  by (simp add: null_codec_advances null_codecs_def type_keys_defined_def default_options_def numeral_3_eq_3)

end
