(* ===== verification/Decode_Json.thy ===== *)
theory Decode_Json
  imports Build_Laws Json_Read
begin

text \<open>
  The decode engine over the JSON reader: the operations \<^verbatim>\<open>core/build.hpp\<close> calls on \<^verbatim>\<open>json::reader\<close>
  (\<^verbatim>\<open>src/include/vcodec/json/read.hpp\<close>), the reader contract of \<open>Core_Model\<close> and the progress contract of
  \<open>Build_Laws\<close>, and decoding as a whole.
\<close>

section \<open>The operations\<close>

record juser_code =
  ju_with :: "string \<Rightarrow> field_meta \<Rightarrow> jreader decode_codec"
  ju_codec_for :: "string \<Rightarrow> field_meta \<Rightarrow> jreader decode_codec"
  ju_same_type :: "rtype \<Rightarrow> string \<Rightarrow> bool"

text \<open>The encoding of octets: \<^verbatim>\<open>json::bytes(...)\<close> on the member, base64 without.\<close>

definition bytes_encoding_of :: "annotation list \<Rightarrow> bytes_encoding" where
  "bytes_encoding_of anns = (case find_annotation json_bytes_of_ann anns of Some e \<Rightarrow> e | None \<Rightarrow> enc_base64)"

definition json_key_traits :: key_traits where
  "json_key_traits = \<lparr>ktr_name = ''JSON'', ktr_spelling = ''integer key'', ktr_integer_key = (\<lambda>f. None),
     ktr_accepts_text_key = (\<lambda>f. True)\<rparr>"

text \<open>\<^verbatim>\<open>key_kind\<close> is text whatever follows; a format without tags and bulk ranges.\<close>

definition json_reader :: "json_options \<Rightarrow> juser_code \<Rightarrow> (jreader, bool, bool) reader_ops" where
  "json_reader opts user =
     \<lparr>rd_null = jexpect_null, rd_boolean = jexpect_boolean,
      rd_uint = (\<lambda>anns. jexpect_uint_field opts (has_annotation ann_as_string anns)),
      rd_sint = (\<lambda>anns. jexpect_sint_field opts (has_annotation ann_as_string anns)),
      rd_real = jexpect_real, rd_text = jexpect_text opts,
      rd_bytes = (\<lambda>anns. decode_bytes opts (bytes_encoding_of anns)), rd_array = jexpect_array opts, rd_seq_next = jseq_next,
      rd_map = jexpect_map opts, rd_map_next = jmap_next, rd_key_kind = (\<lambda>r. kind_text), rd_key_text = jkey_text opts,
      rd_key_uint = (\<lambda>r. (Inl (jkey_integer r), r)), rd_key_sint = (\<lambda>r. (Inl (jkey_integer r), r)),
      rd_peek = j_peek, rd_offset = j_offset, rd_skip = jskip_value opts,
      rd_save = j_save, rd_restore = j_restore, rd_error = jerror, rd_tags = (\<lambda>ts r. (Inr (), r)),
      rd_range = (\<lambda>t. None), rd_duplicates = jo_duplicates opts, rd_errors = jo_errors opts,
      rd_collected = j_collected, rd_set_collected = (\<lambda>es r. r\<lparr>j_collected := es\<rparr>),
      rd_traits = json_format_traits, rd_key_traits = json_key_traits, rd_with = ju_with user,
      rd_codec_for = ju_codec_for user, rd_same_type = ju_same_type user\<rparr>"

lemma json_reader_simps [simp]:
  "rd_null (json_reader opts user) = jexpect_null" "rd_boolean (json_reader opts user) = jexpect_boolean"
  "rd_uint (json_reader opts user) anns = jexpect_uint_field opts (has_annotation ann_as_string anns)"
  "rd_sint (json_reader opts user) anns = jexpect_sint_field opts (has_annotation ann_as_string anns)"
  "rd_real (json_reader opts user) = jexpect_real" "rd_text (json_reader opts user) = jexpect_text opts"
  "rd_bytes (json_reader opts user) anns = decode_bytes opts (bytes_encoding_of anns)" "rd_array (json_reader opts user) = jexpect_array opts"
  "rd_seq_next (json_reader opts user) = jseq_next" "rd_map (json_reader opts user) = jexpect_map opts"
  "rd_map_next (json_reader opts user) = jmap_next" "rd_key_kind (json_reader opts user) r = kind_text"
  "rd_key_text (json_reader opts user) = jkey_text opts" "rd_key_uint (json_reader opts user) r = (Inl (jkey_integer r), r)"
  "rd_key_sint (json_reader opts user) r = (Inl (jkey_integer r), r)" "rd_peek (json_reader opts user) = j_peek"
  "rd_offset (json_reader opts user) = j_offset" "rd_skip (json_reader opts user) = jskip_value opts"
  "rd_save (json_reader opts user) = j_save" "rd_restore (json_reader opts user) = j_restore"
  "rd_error (json_reader opts user) = jerror" "rd_tags (json_reader opts user) ts r = (Inr (), r)"
  "rd_range (json_reader opts user) t = None" "rd_duplicates (json_reader opts user) = jo_duplicates opts"
  "rd_errors (json_reader opts user) = jo_errors opts" "rd_collected (json_reader opts user) = j_collected"
  "rd_set_collected (json_reader opts user) es r = r\<lparr>j_collected := es\<rparr>" "rd_traits (json_reader opts user) = json_format_traits"
  "rd_key_traits (json_reader opts user) = json_key_traits" "rd_with (json_reader opts user) = ju_with user"
  "rd_codec_for (json_reader opts user) = ju_codec_for user" "rd_same_type (json_reader opts user) = ju_same_type user"
  by (simp_all add: json_reader_def)

text \<open>No member has an integer key, so the key table is empty.\<close>

lemma json_key_entries: "fold (key_step json_key_traits s) fs kb = kb\<lparr>kb_keys := kb_keys kb @
    replicate (length fs) \<lparr>ik_present = False, ik_value = 0, ik_text_ok = True\<rparr>\<rparr>"
  by (induction fs arbitrary: kb) (simp_all add: key_step_def json_key_traits_def replicate_append_same [symmetric])

lemma json_keys_defined [simp]: "keys_defined (json_reader opts user) c"
  by (simp add: keys_defined_def keys_of_def build_key_table_def key_entries_def json_key_entries Let_def
    empty_key_table_def key_find_def bisect.simps)

lemma json_type_keys_defined [simp]: "type_keys_defined (json_reader opts user) t"
  by (simp add: type_keys_defined_def)

section \<open>What an operation keeps\<close>

definition jgood :: "json_options \<Rightarrow> jreader \<Rightarrow> bool" where
  "jgood opts r \<longleftrightarrow> j_pos r \<le> j_size r \<and> j_depth r \<le> jo_max_depth opts \<and> j_size r < 2 ^ 48 \<and> jo_max_depth opts < 2 ^ 16"

definition jleft :: "jreader \<Rightarrow> nat" where
  "jleft r = j_size r - j_pos r"

definition jsib :: "jreader \<Rightarrow> jreader \<Rightarrow> bool" where
  "jsib r r' \<longleftrightarrow> j_in r = j_in r'"

lemma jreader_irrelevant [simp]:
  "j_size (r\<lparr>j_pos := n\<rparr>) = j_size r" "j_size (r\<lparr>j_depth := n\<rparr>) = j_size r" "j_size (r\<lparr>j_scratch := s\<rparr>) = j_size r"
  "j_size (r\<lparr>j_key_scratch := s\<rparr>) = j_size r" "j_size (r\<lparr>j_bytes_scratch := bs\<rparr>) = j_size r" "j_size (r\<lparr>j_collected := es\<rparr>) = j_size r"
  by (simp_all add: j_size_def)

definition jstep :: "json_options \<Rightarrow> nat \<Rightarrow> jreader \<Rightarrow> 'a jread \<Rightarrow> bool" where
  "jstep opts b r m \<longleftrightarrow> (case m of (res, r') \<Rightarrow> jgood opts r' \<and> j_in r' = j_in r \<and> (\<forall>x. res = Inr x \<longrightarrow> j_pos r + b \<le> j_pos r'))"

lemma jgood_size: "jgood opts r' \<Longrightarrow> j_pos r' \<le> length (j_in r')"
  by (simp add: jgood_def j_size_def)

lemma jstep_advances:
  assumes "\<And>r. jgood opts r \<Longrightarrow> jstep opts b r (f r)"
  shows "advances (jgood opts) jsib jleft b f"
  unfolding advances_def
proof (intro allI impI, split prod.split, intro allI impI)
  fix r res r' assume r: "jgood opts r" "f r = (res, r')"
  with assms [OF r(1)] have k: "jgood opts r'" "j_in r' = j_in r" "\<And>x. res = Inr x \<Longrightarrow> j_pos r + b \<le> j_pos r'"
    by (simp_all add: jstep_def)
  show "jgood opts r' \<and> jsib r r' \<and> (\<forall>x. res = Inr x \<longrightarrow> jleft r' + b \<le> jleft r)"
    using k jgood_size [OF k(1)] by (fastforce simp: jsib_def jleft_def j_size_def)
qed

lemma skip_ws_good [simp]: "jgood opts r \<Longrightarrow> jgood opts (skip_ws r)"
  using ws_end_bounds(2) [of "j_pos r" "j_in r"] by (simp add: jgood_def skip_ws_def j_size_def)

lemma jgood_scratch [simp]:
  "jgood opts (r\<lparr>j_scratch := s\<rparr>) = jgood opts r" "jgood opts (r\<lparr>j_key_scratch := s\<rparr>) = jgood opts r"
  "jgood opts (r\<lparr>j_bytes_scratch := bs\<rparr>) = jgood opts r" "jgood opts (r\<lparr>j_collected := es\<rparr>) = jgood opts r"
  by (simp_all add: jgood_def)

text \<open>White space first.\<close>

lemma jstep_ws: "jstep opts b (skip_ws r) m \<Longrightarrow> jstep opts b r m"
  using skip_ws_pos [of r] by (fastforce simp: jstep_def split: prod.splits)

lemma jstep_fail [simp]: "jgood opts r \<Longrightarrow> jstep opts b r (Inl e, r)"
  by (simp add: jstep_def)

text \<open>What has taken octets keeps the reader good: the bounds of \<open>Json_Read\<close> with the failures.\<close>

lemma jgood_moved: "jgood opts r \<Longrightarrow> j_in r' = j_in r \<Longrightarrow> j_depth r' = j_depth r \<Longrightarrow> j_pos r' \<le> j_size r \<Longrightarrow> jgood opts r'"
  by (simp add: jgood_def j_size_def)

lemma jstep_literal: "jgood opts r \<Longrightarrow> w \<noteq> [] \<Longrightarrow> jstep opts 1 r (literal w r)"
proof -
  assume r: "jgood opts r" and w: "w \<noteq> []"
  obtain res r' where l: "literal w r = (res, r')" by force
  show ?thesis
  proof (cases res)
    case (Inl e)
    with l r have "r' = r" by (auto simp: literal_def split: if_splits)
    with l r Inl show ?thesis by (simp add: jstep_def)
  next
    case (Inr u)
    with literal_bounds [OF _ w, of r u r'] l r show ?thesis by (auto simp: jstep_def intro: jgood_moved)
  qed
qed

lemma escaped_loop_fails:
  "escaped_loop opts r opn i run sc = (Inl e, r') \<Longrightarrow> \<exists>s. r' = r\<lparr>j_scratch := s\<rparr>"
proof (induction opts r opn i run sc rule: escaped_loop.induct)
  case (1 opts r opn i run sc)
  let ?c = "j_in r ! i"
  have go: "escaped_loop opts r opn i run sc = (Inl e, r')" by (rule 1(3))
  show ?case
  proof (cases "i < j_size r")
    case False
    then show ?thesis using go by (subst (asm) escaped_loop.simps) auto
  next
    case i: True
    consider "?c = CHR 0x22" | "?c \<noteq> CHR 0x22" "uchar ?c < 0x20" | "?c \<noteq> CHR 0x22" "\<not> uchar ?c < 0x20" "?c \<noteq> CHR 0x5C"
      | "\<not> uchar ?c < 0x20" "?c = CHR 0x5C" by blast
    then show ?thesis
    proof cases
      case 1
      then show ?thesis using go i by (subst (asm) escaped_loop.simps) (auto simp: Let_def split: option.splits)
    next
      case 2
      then show ?thesis using go i by (subst (asm) escaped_loop.simps) (auto simp: Let_def)
    next
      case 3
      then have "escaped_loop opts r opn (i + 1) run sc = (Inl e, r')"
        using go i by (subst (asm) escaped_loop.simps) (simp add: Let_def)
      from "1.IH"(1) [OF i refl 3 this] show ?thesis .
    next
      case 4
      have nq: "?c \<noteq> CHR 0x22" "\<not> ?c \<noteq> CHR 0x5C" using 4(2) by simp_all
      show ?thesis
      proof (cases "\<exists>u n. \<not> j_size r \<le> i + 1 \<and> escape_at r i = Inr (u, n)")
        case True
        then obtain u n where n1: "\<not> j_size r \<le> i + 1" and e: "escape_at r i = Inr (u, n)" by blast
        then have "escaped_loop opts r opn (i + n) (i + n) (flush (j_in r) run i sc @ u) = (Inl e, r')"
          using go i 4 by (subst (asm) escaped_loop.simps) (simp add: Let_def)
        from "1.IH"(2) [OF i refl nq(1) 4(1) nq(2) refl n1 e refl this] show ?thesis .
      next
        case False
        then show ?thesis
          using go i 4 by (subst (asm) escaped_loop.simps) (auto simp: Let_def split: if_splits sum.splits)
      qed
    qed
  qed
qed

lemma plain_loop_fails: "plain_loop opts r i = (Inl e, r') \<Longrightarrow> \<exists>s. r' = r\<lparr>j_scratch := s\<rparr>"
proof (induction opts r i rule: plain_loop.induct)
  case (1 opts r i)
  let ?c = "j_in r ! i"
  have self: "\<exists>s. r = r\<lparr>j_scratch := s\<rparr>" by (rule exI [of _ "j_scratch r"]) simp
  have go: "plain_loop opts r i = (Inl e, r')" by (rule 1(2))
  show ?case
  proof (cases "i < j_size r \<and> ?c \<noteq> CHR 0x22 \<and> ?c \<noteq> CHR 0x5C \<and> \<not> uchar ?c < 0x20")
    case True
    then have "plain_loop opts r (i + 1) = (Inl e, r')"
      using go by (subst (asm) plain_loop.simps) (simp add: Let_def)
    with 1(1) [of ?c "j_pos r"] True show ?thesis by simp
  next
    case False
    then show ?thesis
      using go self by (subst (asm) plain_loop.simps)
        (auto simp: Let_def parse_escaped_string_def dest: escaped_loop_fails split: if_splits option.splits)
  qed
qed

lemma jstep_string: "jgood opts' r \<Longrightarrow> jstep opts' 1 r (parse_string opts r)"
proof -
  assume r: "jgood opts' r"
  obtain res r' where p: "parse_string opts r = (res, r')" by force
  show ?thesis
  proof (cases res)
    case (Inl e)
    with p plain_loop_fails obtain s where "r' = r\<lparr>j_scratch := s\<rparr>" unfolding parse_string_def by blast
    with p r Inl show ?thesis by (simp add: jstep_def)
  next
    case (Inr t)
    with parse_string_bounds [of opts r t r'] p r show ?thesis by (auto simp: jstep_def intro: jgood_moved)
  qed
qed

text \<open>A string, and then something that keeps the reader.\<close>

lemma jstep_after_string:
  assumes "jgood opts r"
    "\<And>t r1. jgood opts r1 \<Longrightarrow> j_in r1 = j_in r \<Longrightarrow> j_pos r < j_pos r1 \<Longrightarrow> jstep opts 1 r (f t r1)"
  shows "jstep opts 1 r (case parse_string opts' r of (Inl e, r1) \<Rightarrow> (Inl e, r1) | (Inr t, r1) \<Rightarrow> f t r1)"
proof -
  obtain res r1 where p: "parse_string opts' r = (res, r1)" by force
  from jstep_string [OF assms(1), of opts'] assms(2) show ?thesis
    by (cases res) (auto simp: p jstep_def Suc_le_eq)
qed

lemma jstep_number:
  assumes "jgood opts r" "jnumber ex r = Inr n"
  shows "jgood opts (j_advance (ns_length n) r)" "0 < ns_length n"
proof -
  have n: "j_pos r < j_size r" "n = scan_number (drop (j_pos r) (j_in r))" "ns_kind n \<noteq> kind_undefined"
    using assms(2) by (auto simp: jnumber_def Let_def split: if_splits)
  have "0 < ns_length n \<and> ns_length n \<le> length (drop (j_pos r) (j_in r))"
    using scan_number_length [of "drop (j_pos r) (j_in r)"] scan_number_defined [of "drop (j_pos r) (j_in r)"] n(2,3) by auto
  with n(1) assms(1) show "jgood opts (j_advance (ns_length n) r)" "0 < ns_length n"
    by (auto simp: jgood_def j_size_def)
qed

lemma jstep_advance:
  "jgood opts r \<Longrightarrow> jnumber ex r = Inr n \<Longrightarrow> jstep opts (Suc 0) r (Inr x, j_advance (ns_length n) r)"
  using jstep_number [of opts r ex n] by (simp add: jstep_def)

lemma jstep_scalars:
  assumes "jgood opts r"
  shows "jstep opts 1 r (jexpect_null r)" "jstep opts 1 r (jexpect_boolean r)" "jstep opts 1 r (jexpect_uint r)"
    "jstep opts 1 r (jexpect_sint r)" "jstep opts 1 r (jexpect_real r)"
proof -
  let ?r = "skip_ws r"
  have g: "jgood opts ?r" using assms by simp
  have lit: "jstep opts 1 ?r (case literal w ?r of (Inl e, r1) \<Rightarrow> (Inl e, r1) | (Inr u, r1) \<Rightarrow> (Inr b, r1))"
    if "w \<noteq> []" for w and b :: bool
    using jstep_literal [OF g that] by (auto simp: jstep_def split: prod.splits sum.splits)
  show "jstep opts 1 r (jexpect_null r)" "jstep opts 1 r (jexpect_boolean r)" "jstep opts 1 r (jexpect_uint r)"
    "jstep opts 1 r (jexpect_sint r)" "jstep opts 1 r (jexpect_real r)"
    unfolding jexpect_null_def jexpect_boolean_def jexpect_uint_def jexpect_sint_def jexpect_real_def Let_def [of ?r]
    by (rule jstep_ws, simp add: g lit [simplified] jstep_literal [OF g, simplified] jstep_advance [OF g]
          split: option.split sum.split)+
qed

lemma jstep_quoted:
  assumes "jgood opts' r"
  shows "jstep opts' 1 r (quoted_uint opts r)" "jstep opts' 1 r (quoted_sint opts r)"
proof -
  have pos: "jgood opts' (r1\<lparr>j_pos := j_pos r\<rparr>)" if "jgood opts' r1" "j_in r1 = j_in r" for r1
    using that assms by (simp add: jgood_def j_size_def)
  show "jstep opts' 1 r (quoted_uint opts r)" "jstep opts' 1 r (quoted_sint opts r)"
    unfolding quoted_uint_def quoted_sint_def Let_def [of "j_pos r"]
    by (rule jstep_after_string [OF assms], use pos in \<open>simp add: jstep_def Let_def\<close>)+
qed

lemma jstep_field_integers:
  assumes "jgood opts' r"
  shows "jstep opts' 1 r (jexpect_uint_field opts b r)" "jstep opts' 1 r (jexpect_sint_field opts b r)"
proof -
  have g: "jgood opts' (skip_ws r)" using assms by simp
  show "jstep opts' 1 r (jexpect_uint_field opts b r)"
    using jstep_ws [OF jstep_quoted(1) [OF g]] jstep_ws [OF jstep_scalars(3) [OF g]] jstep_scalars(3) [OF assms]
    by (simp add: jexpect_uint_field_def Let_def)
  show "jstep opts' 1 r (jexpect_sint_field opts b r)"
    using jstep_ws [OF jstep_quoted(2) [OF g]] jstep_ws [OF jstep_scalars(4) [OF g]] jstep_scalars(4) [OF assms]
    by (simp add: jexpect_sint_field_def Let_def)
qed

lemma jstep_text: "jgood opts' r \<Longrightarrow> jstep opts' 1 r (jexpect_text opts r)"
  unfolding jexpect_text_def Let_def
  by (rule jstep_ws, use jstep_string [of opts' "skip_ws r"] in \<open>simp split: option.split\<close>)

lemma jstep_bytes:
  assumes "jgood opts' r"
  shows "jstep opts' 1 r (decode_bytes opts enc r)"
proof -
  let ?r = "skip_ws r"
  have g: "jgood opts' ?r" using assms by simp
  have pos: "jgood opts' (r1\<lparr>j_bytes_scratch := bs, j_pos := j_pos ?r\<rparr>)" if "jgood opts' r1" "j_in r1 = j_in r" for r1 bs
    using that g by (simp add: jgood_def j_size_def)
  show ?thesis
    unfolding decode_bytes_def Let_def [of ?r] Let_def [of "j_pos ?r"]
  proof (rule jstep_ws, split option.split, intro conjI allI impI)
    show "jstep opts' 1 ?r (case parse_string opts ?r of (Inl e, r1) \<Rightarrow> (Inl e, r1)
         | (Inr s, r1) \<Rightarrow> (case if enc = enc_hex then hex_decode (t_text s) [] else base64_decode (t_text s) [] (enc = enc_base64url) of
             (ok, bs) \<Rightarrow> let r2 = r1\<lparr>j_bytes_scratch := bs\<rparr> in
                  if \<not> ok then
                    (Inl (with_length (length (t_text s) + 2) (with_found ''string'' (with_expected (bytes_kind_name enc) (jerror r2 type_mismatch (j_pos ?r))))),
                     r2\<lparr>j_pos := j_pos ?r\<rparr>)
                  else (Inr \<lparr>b_bytes = bs, b_borrowed = False\<rparr>, r2)))"
      by (rule jstep_after_string [OF g], use pos in \<open>auto simp: jstep_def Let_def split: prod.split\<close>)
  qed (simp add: g)
qed

lemma jstep_containers:
  assumes "jgood opts r"
  shows "jstep opts 1 r (jexpect_array opts r)" "jstep opts 1 r (jexpect_map opts r)"
proof -
  have g: "jgood opts (skip_ws r)" using assms by simp
  have opn: "jstep opts 1 (skip_ws r) (case jenter opts (skip_ws r) of (Inl e, r1) \<Rightarrow> (Inl e, r1) | (Inr u, r1) \<Rightarrow> (Inr True, j_advance 1 r1))"
    if "mismatch ex c (skip_ws r) = None" for ex c
    using g that by (auto simp: jenter_def mismatch_def jstep_def jgood_def split: if_splits)
  show "jstep opts 1 r (jexpect_array opts r)" "jstep opts 1 r (jexpect_map opts r)"
    unfolding jexpect_array_def jexpect_map_def Let_def
    by (rule jstep_ws, use g opn in \<open>simp split: option.split\<close>)+
qed

lemma jstep_cursor: "jgood opts r \<Longrightarrow> jstep opts 0 r (cursor_next cl what first r)"
proof -
  assume "jgood opts r"
  then have g: "jgood opts (skip_ws r)" by simp
  have a: "jgood opts (j_advance (Suc 0) (skip_ws r))" if "j_pos (skip_ws r) < j_size r"
    using g that by (simp add: jgood_def)
  have "jgood opts ((j_advance (Suc 0) (skip_ws r))\<lparr>j_depth := j_depth r - Suc 0\<rparr>)" if "j_pos (skip_ws r) < j_size r"
    using a [OF that] by (auto simp: jgood_def)
  note d = this
  show ?thesis
    unfolding cursor_next_def Let_def
    by (rule jstep_ws, use a d skip_ws_good [OF a] skip_ws_pos [of "j_advance (Suc 0) (skip_ws r)"] g in \<open>simp add: jstep_def\<close>)
qed

lemma jstep_key_text: "jgood opts' r \<Longrightarrow> jstep opts' 1 r (jkey_text opts r)"
proof -
  assume "jgood opts' r"
  then have g: "jgood opts' (skip_ws r)" by simp
  have colon: "jgood opts' (j_advance (Suc 0) (skip_ws r1))" if "jgood opts' r1" "\<not> j_size r1 \<le> j_pos (skip_ws r1)" for r1
    using skip_ws_good [OF that(1)] that(2) by (simp add: jgood_def)
  show ?thesis
    unfolding jkey_text_def Let_def [of "skip_ws r"]
  proof (rule jstep_ws, split if_split, intro conjI impI, simp add: g, split if_split, intro conjI impI, simp add: g,
      rule jstep_after_string [OF g])
    fix k r1
    assume k: "jgood opts' r1" "j_in r1 = j_in (skip_ws r)" "j_pos (skip_ws r) < j_pos r1"
    have "j_pos (skip_ws r) < j_pos (skip_ws r1)" using k(3) skip_ws_pos [of r1] by simp
    with k colon [OF k(1)] show "jstep opts' 1 (skip_ws r)
        (let r2 = skip_ws r1; colon = [CHR 0x27, CHR '':'', CHR 0x27] in
            if j_size r2 \<le> j_pos r2 then (Inl (with_expected colon (jerror r2 truncated (j_pos r2))), r2)
            else if j_cur r2 \<noteq> CHR '':'' then (Inl (junexpected colon r2), r2)
            else
              let r3 = j_advance 1 r2 in
              if t_borrowed k then (Inr k, r3)
              else (Inr (k\<lparr>t_text := j_scratch r3\<rparr>), r3\<lparr>j_key_scratch := j_scratch r3\<rparr>))"
      by (simp add: Let_def jstep_def)
  qed
qed

section \<open>Skipping\<close>

text \<open>The rounds of the validator keep position and depth within their bounds, also when they fail.\<close>

fun joutcome_reader :: "joutcome \<Rightarrow> jreader" where
  "joutcome_reader (J_fail e r) = r"
| "joutcome_reader (J_done r) = r"
| "joutcome_reader (J_more s st r) = r"

definition jgood_outcome :: "json_options \<Rightarrow> jreader \<Rightarrow> joutcome \<Rightarrow> bool" where
  "jgood_outcome opts r oc \<longleftrightarrow> jgood opts (joutcome_reader oc) \<and> j_in (joutcome_reader oc) = j_in r"

lemma jgood_outcome_simps [simp]:
  "jgood_outcome opts r (J_fail e r') \<longleftrightarrow> jgood opts r' \<and> j_in r' = j_in r"
  "jgood_outcome opts r (J_done r') \<longleftrightarrow> jgood opts r' \<and> j_in r' = j_in r"
  "jgood_outcome opts r (J_more s st r') \<longleftrightarrow> jgood opts r' \<and> j_in r' = j_in r"
  by (simp_all add: jgood_outcome_def)

lemma jround_good:
  assumes "jgood opts r" "j_pos r < j_size r"
  shows "jgood_outcome opts r (jround_value opts st r)" "jgood_outcome opts r (jround_key opts st r)"
    "jgood_outcome opts r (jround_after st r)"
proof -
  have adv: "jgood opts (j_advance (Suc 0) r)" using assms by (simp add: jgood_def)
  have opn: "jgood_outcome opts r (jround_open opts obj st r)" for obj
  proof -
    have "jgood opts (j_advance (Suc 0) (skip_ws (j_advance (Suc 0) r)))"
      if "\<not> j_size r \<le> j_pos (skip_ws (j_advance (Suc 0) r))"
      using skip_ws_good [OF adv] that by (simp add: jgood_def)
    then show ?thesis using assms(1) adv by (simp add: jround_open_def Let_def)
  qed
  have str: "jgood_outcome opts r (jround_string opts st r)"
    using jstep_string [OF assms(1), of opts] by (auto simp: jround_string_def jstep_def split: prod.split sum.split)
  have lit: "jgood_outcome opts r (jround_literal w st r)" if "w \<noteq> []" for w
    using jstep_literal [OF assms(1) that] by (auto simp: jround_literal_def jstep_def split: prod.split sum.split)
  have num: "jgood_outcome opts r (jround_number st r)"
    using jround_number_progress [OF assms(2), of st] assms(1)
    by (auto simp: jround_number_def Let_def intro: jgood_moved split: if_splits)
  show "jgood_outcome opts r (jround_value opts st r)"
    using assms(1) by (simp add: jround_value_def Let_def opn str lit num)
  have colon: "jgood opts (j_advance (Suc 0) (skip_ws r1))" if "jgood opts r1" "\<not> j_size r1 \<le> j_pos (skip_ws r1)" for r1
    using skip_ws_good [OF that(1)] that(2) by (simp add: jgood_def)
  obtain res r1 where p: "parse_string opts r = (res, r1)" by force
  with jstep_string [OF assms(1), of opts] colon [of r1] assms(1) show "jgood_outcome opts r (jround_key opts st r)"
    by (cases res) (simp_all add: jround_key_def jstep_def Let_def)
  show "jgood_outcome opts r (jround_after st r)"
    using assms(1) adv skip_ws_good [OF adv] by (simp add: jround_after_def Let_def)
qed

lemma jskip_step_good: "jgood opts r \<Longrightarrow> jgood_outcome opts r (jskip_step opts s st r)"
  using jround_good [of opts "skip_ws r"]
  by (cases s) (simp_all add: jskip_step_def Let_def jgood_outcome_def)

lemma jskip_loop_good: "jgood opts r \<Longrightarrow> jskip_loop opts s st r = (res, r') \<Longrightarrow> jgood opts r' \<and> j_in r' = j_in r"
proof (induction opts s st r rule: jskip_loop.induct)
  case (1 opts s st r)
  note g = jskip_step_good [OF 1(2), of s st]
  show ?case
  proof (cases "jskip_step opts s st r")
    case (J_more s' st' r1)
    then have "jskip_loop opts s' st' r1 = (res, r')" using 1(3) by (subst (asm) jskip_loop.simps) simp
    from 1(1) [OF J_more _ this] g J_more show ?thesis by auto
  qed (use 1(3) g in \<open>subst (asm) jskip_loop.simps, auto\<close>)+
qed

text \<open>A value that was accepted has been read from a place further on, at the same depth.\<close>

lemma jskip_after_done: "jskip_loop opts after_value [] r = (Inr u, r') \<Longrightarrow> r' = r"
  by (subst (asm) jskip_loop.simps) (simp add: jskip_step_def)

lemma jskip_done_at: "jskip_step opts s st r = J_done r1 \<Longrightarrow> s = after_value \<and> st = [] \<and> r1 = r"
  by (cases s) (auto simp: jskip_step_def Let_def jround_value_def jround_key_def jround_after_def jround_open_def
    jround_string_def jround_literal_def jround_number_def split: if_splits prod.splits sum.splits)

lemma jskip_loop_progress:
  "jskip_loop opts s st r = (Inr u, r') \<Longrightarrow> j_in r' = j_in r \<and> j_depth r' = j_depth r
     \<and> (s \<noteq> after_value \<or> st \<noteq> [] \<longrightarrow> j_pos r < j_pos r' \<and> j_pos r' \<le> j_size r)"
proof (induction opts s st r rule: jskip_loop.induct)
  case (1 opts s st r)
  show ?case
  proof (cases "jskip_step opts s st r")
    case (J_more s' st' r1)
    then have rest: "jskip_loop opts s' st' r1 = (Inr u, r')" using 1(2) by (subst (asm) jskip_loop.simps) simp
    from 1(1) [OF J_more rest] jskip_step_progress [of r opts s st] J_more jskip_after_done [of opts r1 u r'] rest
    show ?thesis by (cases "s' = after_value \<and> st' = []") (auto simp: j_size_def)
  next
    case (J_done r1)
    with jskip_done_at [OF J_done] 1(2) show ?thesis by (subst (asm) jskip_loop.simps) auto
  qed (use 1(2) in \<open>subst (asm) jskip_loop.simps, auto\<close>)
qed

lemma jskip_value_progress:
  "jskip_value opts r = (Inr u, r') \<Longrightarrow> j_in r' = j_in r \<and> j_depth r' = j_depth r \<and> j_pos r < j_pos r' \<and> j_pos r' \<le> j_size r"
  using jskip_loop_progress [of opts want_value "[]" r u r'] by (simp add: jskip_value_def)

lemma jstep_skip: "jgood opts r \<Longrightarrow> jstep opts 1 r (jskip_value opts r)"
proof -
  assume r: "jgood opts r"
  obtain res r' where s: "jskip_value opts r = (res, r')" by force
  show ?thesis
    using jskip_loop_good [OF r s [unfolded jskip_value_def]] jskip_value_progress [of opts r _ r'] s
    by (cases res) (auto simp: jstep_def)
qed

section \<open>The contracts\<close>

interpretation json: validating j_pos j_depth j_size j_save j_restore "jskip_value opts" for opts
proof unfold_locales
  fix r r' :: jreader and s :: u64 and u :: unit
  show "j_save r = pack_position (j_pos r) (j_depth r)" by (simp add: j_save_def pack_position_def)
  show "j_pos (j_restore s r) = unpack_pos s" "j_depth (j_restore s r) = unpack_depth s" "j_size (j_restore s r) = j_size r"
    by (simp_all add: j_restore_def unpack_pos_def unpack_depth_def j_size_def)
  assume "jskip_value opts r = (Inr u, r')"
  from jskip_value_progress [OF this]
  show "j_pos r < j_pos r'" "j_pos r' \<le> j_size r \<and> j_size r' = j_size r" "j_depth r' = j_depth r"
    by (simp_all add: j_size_def)
qed

lemma jrestore_good:
  assumes "jgood opts r" "j_in r' = j_in r"
  shows "j_restore (j_save r) r' = r'\<lparr>j_pos := j_pos r, j_depth := j_depth r\<rparr>" "jgood opts (j_restore (j_save r) r')"
proof -
  have "packable (j_pos r) (j_depth r)" using assms(1) by (simp add: packable_def jgood_def)
  from json.restore_save [OF this, of r'] show eq: "j_restore (j_save r) r' = r'\<lparr>j_pos := j_pos r, j_depth := j_depth r\<rparr>"
    by (simp add: j_restore_def)
  show "jgood opts (j_restore (j_save r) r')" using assms unfolding eq by (simp add: jgood_def j_size_def)
qed

lemma jmoves: "moves (jgood opts) jsib jleft j_peek" "moves (jgood opts) jsib jleft j_offset"
  using skip_ws_pos skip_ws_good by (auto simp: moves_def j_peek_def j_offset_def Let_def jsib_def jleft_def diff_le_mono2)

interpretation json_decoding: progressing "json_reader opts user" "jgood opts" jleft jsib for opts user
proof unfold_locales
  show "advances (jgood opts) jsib jleft 1 (rd_null (json_reader opts user))"
    "advances (jgood opts) jsib jleft 1 (rd_boolean (json_reader opts user))"
    "advances (jgood opts) jsib jleft 1 (rd_uint (json_reader opts user) anns)"
    "advances (jgood opts) jsib jleft 1 (rd_sint (json_reader opts user) anns)"
    "advances (jgood opts) jsib jleft 1 (rd_real (json_reader opts user))"
    "advances (jgood opts) jsib jleft 1 (rd_text (json_reader opts user))"
    "advances (jgood opts) jsib jleft 1 (rd_bytes (json_reader opts user) anns)"
    "advances (jgood opts) jsib jleft 1 (rd_array (json_reader opts user))"
    "advances (jgood opts) jsib jleft 1 (rd_map (json_reader opts user))"
    "advances (jgood opts) jsib jleft 1 (rd_key_text (json_reader opts user))"
    "advances (jgood opts) jsib jleft 1 (rd_skip (json_reader opts user))"
    "advances (jgood opts) jsib jleft 0 (rd_seq_next (json_reader opts user) cs)"
    "advances (jgood opts) jsib jleft 0 (rd_map_next (json_reader opts user) cm)" for anns cs cm
    unfolding json_reader_simps jseq_next_def [abs_def] jmap_next_def [abs_def]
    by (rule jstep_advances,
        erule jstep_scalars jstep_field_integers jstep_text jstep_bytes jstep_containers jstep_key_text jstep_skip jstep_cursor)+
  show "advances (jgood opts) jsib jleft 1 (rd_key_uint (json_reader opts user))"
    "advances (jgood opts) jsib jleft 1 (rd_key_sint (json_reader opts user))"
    "advances (jgood opts) jsib jleft 0 (rd_tags (json_reader opts user) ts)" for ts
    by (simp_all add: advances_def jsib_def)
  show "jgood opts (rd_restore (json_reader opts user) (rd_save (json_reader opts user) r) r')
      \<and> jsib r (rd_restore (json_reader opts user) (rd_save (json_reader opts user) r) r')
      \<and> jleft (rd_restore (json_reader opts user) (rd_save (json_reader opts user) r) r') = jleft r"
    if "jgood opts r" "jgood opts r'" "jsib r r'" for r r'
  proof -
    have "j_in r' = j_in r" using that(3) by (simp add: jsib_def)
    from jrestore_good [OF that(1) this] this show ?thesis by (simp add: jsib_def jleft_def j_size_def)
  qed
qed (simp_all add: jsib_def jleft_def jmoves)

section \<open>Decoding\<close>

definition json_decode_engine :: "juser_code \<Rightarrow> dtype \<Rightarrow> cval jengine" where
  "json_decode_engine user t opts out r = the (decode_root (json_reader opts user) (Suc (j_size r)) t out r)"

definition json_decode :: "juser_code \<Rightarrow> json_options \<Rightarrow> dtype \<Rightarrow> string \<Rightarrow> cval result" where
  "json_decode user opts t inp = jdecode (json_decode_engine user t) opts (initial_value t) inp"

text \<open>C6. Decoding a text always ends: for any type, any destination, any characters and any options, decoding JSON returns
  with a result or an error after at most as many rounds of each loop as there are characters, in fail-fast and in collect
  mode, and a value that was decoded has consumed input. The text has to be shorter than \<open>2 ^ 48\<close> and the depth limit
  below \<open>2 ^ 16\<close>, so that \<^verbatim>\<open>save\<close> can pack a position; custom codecs have to end and to consume input themselves.\<close>

theorem json_decode_returns:
  assumes "length inp < 2 ^ 48" "jo_max_depth opts < 2 ^ 16"
    "\<And>name F. codec_advances (jgood opts) jsib jleft (ju_with user name F)"
    "\<And>name F. codec_advances (jgood opts) jsib jleft (ju_codec_for user name F)"
    "length inp < n"
  shows "\<exists>st v r'. decode_root (json_reader opts user) n t out (new_jreader inp) = Some ((st, v), r')
     \<and> j_in r' = inp \<and> j_pos r' \<le> length inp \<and> (st = Inr () \<longrightarrow> 0 < j_pos r')"
proof -
  have c: "json_decoding.codecs_advance opts user"
    using assms(3,4) by (simp add: json_decoding.codecs_advance_def)
  have r: "jgood opts (new_jreader inp)" "jleft (new_jreader inp) < n"
    using assms(1,2,5) by (simp_all add: new_jreader_def jgood_def jleft_def j_size_def)
  from json_decoding.decode_root_returns [OF c json_type_keys_defined r] obtain st v r'
    where d: "decode_root (json_reader opts user) n t out (new_jreader inp) = Some ((st, v), r')" "jgood opts r'"
      "jsib (new_jreader inp) r'" "st = Inr () \<longrightarrow> jleft r' < jleft (new_jreader inp)" by blast
  with jgood_size [OF d(2)] show ?thesis by (auto simp: jsib_def jleft_def j_size_def new_jreader_def)
qed

text \<open>Codecs for the witnesses: each reads a null.\<close>

definition jnull_codecs :: juser_code where
  "jnull_codecs = \<lparr>ju_with = (\<lambda>name F. dc_into (\<lambda>out r. case jexpect_null r of (res, r') \<Rightarrow> ((res, out), r'))),
     ju_codec_for = (\<lambda>name F. dc_into (\<lambda>out r. case jexpect_null r of (res, r') \<Rightarrow> ((res, out), r'))),
     ju_same_type = (\<lambda>t d. False)\<rparr>"

lemma jnull_codecs_advance:
  "codec_advances (jgood opts) jsib jleft (ju_with jnull_codecs name F)"
  "codec_advances (jgood opts) jsib jleft (ju_codec_for jnull_codecs name F)"
proof -
  have "advances (jgood opts) jsib jleft 1 jexpect_null"
    by (rule jstep_advances) (rule jstep_scalars)
  then show "codec_advances (jgood opts) jsib jleft (ju_with jnull_codecs name F)"
    "codec_advances (jgood opts) jsib jleft (ju_codec_for jnull_codecs name F)"
    by (simp_all add: jnull_codecs_def advances_def split_def)
qed

theorem json_decode_returns_witness:
  "\<exists>st v r'. decode_root (json_reader json_defaults jnull_codecs) 3
       (dt_optional (dt_uint 8 ''u8'')) (v_optional None) (new_jreader ''7 '') = Some ((st, v), r')
     \<and> j_in r' = ''7 '' \<and> j_pos r' \<le> Suc (Suc 0) \<and> (st = Inr () \<longrightarrow> 0 < j_pos r')"
  using json_decode_returns [of "''7 ''" json_defaults jnull_codecs 3 "dt_optional (dt_uint 8 ''u8'')" "v_optional None"]
  by (simp add: jnull_codecs_advance json_defaults_def)

end
