(* ===== verification/Build_Types.thy ===== *)
theory Build_Types
  imports Core_Build
begin

text \<open>
  Values of a type, and type preservation: whatever the input and the reader, and whether it succeeds or fails, a
  decoder leaves the destination a value of its type. Integers stay in range, fixed arrays keep their length, a
  class its members. The argument is a weakest precondition over the results of an outcome, \<open>yields\<close>.
\<close>

section \<open>Values of a type\<close>

text \<open>A number of \<open>b\<close> bits.\<close>

definition unsigned_fits :: "nat \<Rightarrow> u64 \<Rightarrow> bool" where
  "unsigned_fits b u \<longleftrightarrow> uint u < 2 ^ b"

definition signed_fits :: "nat \<Rightarrow> u64 \<Rightarrow> bool" where
  "signed_fits b i \<longleftrightarrow> - (2 ^ (b - 1)) \<le> sint i \<and> sint i < 2 ^ (b - 1)"

fun key_has_type :: "map_key_type \<Rightarrow> map_key_val \<Rightarrow> bool" where
  "key_has_type (mkt_string view) (mk_string s) = True"
| "key_has_type (mkt_unsigned b d) (mk_uint u) = unsigned_fits b u"
| "key_has_type (mkt_signed b d) (mk_sint i) = signed_fits b i"
| "key_has_type _ _ = False"

lemma zip_type_size [termination_simp]: "(t, w) \<in> set (zip ts vs) \<Longrightarrow> size t < Suc (size_list size ts)"
  using size_list_member [of t ts size] by (auto dest: set_zip_leftD)

fun has_type :: "dtype \<Rightarrow> cval \<Rightarrow> bool" where
  "has_type dt_bool v = (case v of v_bool b \<Rightarrow> True | _ \<Rightarrow> False)"
| "has_type dt_char v = (case v of v_char c \<Rightarrow> True | _ \<Rightarrow> False)"
| "has_type (dt_uint b d) v = (case v of v_uint u \<Rightarrow> unsigned_fits b u | _ \<Rightarrow> False)"
| "has_type (dt_sint b d) v = (case v of v_sint i \<Rightarrow> signed_fits b i | _ \<Rightarrow> False)"
| "has_type (dt_real single) v = (case v of v_real x \<Rightarrow> True | _ \<Rightarrow> False)"
| "has_type (dt_enum e sg b d) v = (case v of v_enum e' sg' i \<Rightarrow> e' = e \<and> sg' = sg | _ \<Rightarrow> False)"
| "has_type (dt_string view d) v = (case v of v_string s \<Rightarrow> True | _ \<Rightarrow> False)"
| "has_type (dt_optional t) v = (case v of v_optional x \<Rightarrow> (case x of None \<Rightarrow> True | Some w \<Rightarrow> has_type t w) | _ \<Rightarrow> False)"
| "has_type (dt_variant d alts) v =
     (case v of v_variant x \<Rightarrow> (case x of None \<Rightarrow> alts = [] | Some (name, w) \<Rightarrow> \<exists>(alt, t)\<in>set alts. alt = name \<and> has_type t w)
      | _ \<Rightarrow> False)"
| "has_type (dt_span d) v = (case v of v_byte_range be bs \<Rightarrow> be | _ \<Rightarrow> False)"
| "has_type (dt_byte_range be dest d) v =
     (case v of v_byte_range be' bs \<Rightarrow> be' = be \<and> (case dest of bd_array n \<Rightarrow> length bs = n | bd_vector \<Rightarrow> True) | _ \<Rightarrow> False)"
| "has_type (dt_map mc d kt t) v =
     (case v of v_map sized es \<Rightarrow> sized = mc_sized mc \<and> (\<forall>(k, w)\<in>set es. key_has_type kt k \<and> has_type t w) | _ \<Rightarrow> False)"
| "has_type (dt_tuple ts) v =
     (case v of v_tuple vs \<Rightarrow> length vs = length ts \<and> (\<forall>(t, w)\<in>set (zip ts vs). has_type t w) | _ \<Rightarrow> False)"
| "has_type (dt_array n im t) v =
     (case v of v_sequence sized i vs \<Rightarrow> sized \<and> i = im vs \<and> length vs = n \<and> (\<forall>w\<in>set vs. has_type t w) | _ \<Rightarrow> False)"
| "has_type (dt_sequence ct t) v =
     (case v of v_sequence sized i vs \<Rightarrow> sized = ct_sized ct \<and> i = ct_image ct vs \<and> (\<forall>w\<in>set vs. has_type t w) | _ \<Rightarrow> False)"
| "has_type (dt_class c ts vs0) v =
     (case v of v_class c' vs \<Rightarrow> c' = c \<and> length vs = length ts \<and> (\<forall>(t, w)\<in>set (zip ts vs). has_type t w) | _ \<Rightarrow> False)"
| "has_type (dt_codec name sys ca v0) v = True"

text \<open>The values of a list of types, place by place.\<close>

definition have_types :: "dtype list \<Rightarrow> cval list \<Rightarrow> bool" where
  "have_types ts vs \<longleftrightarrow> length vs = length ts \<and> (\<forall>(t, w)\<in>set (zip ts vs). has_type t w)"

text \<open>Widths are those of C++ integers; insertion into a container adds nothing else; a class has one type per member,
  the members of its default-constructed object have their types, and a member's number is its place.\<close>

fun key_width_ok :: "map_key_type \<Rightarrow> bool" where
  "key_width_ok (mkt_string view) = True"
| "key_width_ok (mkt_unsigned b d) = (b \<le> 64)"
| "key_width_ok (mkt_signed b d) = (0 < b \<and> b \<le> 64)"

fun wf_type :: "dtype \<Rightarrow> bool" where
  "wf_type (dt_uint b d) = (b \<le> 64)"
| "wf_type (dt_sint b d) = (0 < b \<and> b \<le> 64)"
| "wf_type (dt_optional t) = wf_type t"
| "wf_type (dt_variant d alts) = (\<forall>(name, t)\<in>set alts. wf_type t)"
| "wf_type (dt_map mc d kt t) = (wf_type t \<and> key_width_ok kt \<and> (\<forall>es e. set (mc_insert mc es e) \<subseteq> insert e (set es)))"
| "wf_type (dt_tuple ts) = (\<forall>t\<in>set ts. wf_type t)"
| "wf_type (dt_array n im t) = wf_type t"
| "wf_type (dt_sequence ct t) = (wf_type t \<and> (\<forall>vs v. set (ct_append ct vs v) \<subseteq> insert v (set vs)))"
| "wf_type (dt_class c ts vs) = ((\<forall>t\<in>set ts. wf_type t) \<and> have_types ts vs \<and> length ts = length (build_fields c)
     \<and> map (\<lambda>f. member_index (fm_info f)) (build_fields c) = [0..<length ts])"
| "wf_type _ = True"

text \<open>Every member at any depth, with the type its codec would fill: an optional is unwrapped first.\<close>

fun present_type :: "dtype \<Rightarrow> dtype" where
  "present_type (dt_optional t) = present_type t"
| "present_type t = t"

fun members_in :: "dtype \<Rightarrow> (field_meta \<times> dtype) list" where
  "members_in (dt_optional t) = members_in t"
| "members_in (dt_variant d alts) = concat (map (\<lambda>(name, t). members_in t) alts)"
| "members_in (dt_map mc d kt t) = members_in t"
| "members_in (dt_tuple ts) = concat (map members_in ts)"
| "members_in (dt_array n im t) = members_in t"
| "members_in (dt_sequence ct t) = members_in t"
| "members_in (dt_class c ts vs) = zip (build_fields c) (map present_type ts) @ concat (map members_in ts)"
| "members_in _ = []"

section \<open>Results of an outcome\<close>

definition yields :: "('o \<Rightarrow> bool) \<Rightarrow> ('o, 'r) outcome \<Rightarrow> bool" where
  "yields P m \<longleftrightarrow> (\<forall>st v r. m = Some ((st, v), r) \<longrightarrow> P v)"

lemma yields_simps [simp]:
  "yields P None" "yields P (returns st v r) = P v" "yields P (throws e v r) = P v" "yields P (Some ((st, v), r)) = P v"
  by (simp_all add: yields_def returns_def throws_def)

lemma yields_on_ok: "P out \<Longrightarrow> (\<And>x r. yields P (k x r)) \<Longrightarrow> yields P (on_ok m out k)"
  by (auto simp: yields_def on_ok_def split: prod.splits sum.splits)

lemma yields_next:
  "P out \<Longrightarrow> (\<And>c r. yields P (k c r)) \<Longrightarrow> yields P (on_ok m out (\<lambda>(again, c) r. if \<not> again then returns (Inr ()) out r else k c r))"
  by (rule yields_on_ok) (auto split: prod.split)

lemma yields_pair: "(\<And>x r. yields P (k x r)) \<Longrightarrow> yields P (case m of (x, r) \<Rightarrow> k x r)"
  by (simp split: prod.split)

lemma yields_after: "yields Q m \<Longrightarrow> (\<And>st v r. Q v \<Longrightarrow> yields P (k st v r)) \<Longrightarrow> yields P (after_step m k)"
  unfolding yields_def after_step_def by (fastforce split: option.splits)

lemma yields_mono: "yields Q m \<Longrightarrow> (\<And>v. Q v \<Longrightarrow> P v) \<Longrightarrow> yields P m"
  by (auto simp: yields_def)

lemma yields_any [simp]: "yields (\<lambda>v. True) m"
  by (simp add: yields_def)

lemma yields_rewrap: "yields (\<lambda>v. P (f v)) m \<Longrightarrow> yields P (rewrap f m)"
  unfolding rewrap_def by (rule yields_after) auto

lemma yields_at_step [simp]: "yields P (at_step ops stp dec r) = yields P (dec r)"
  by (auto simp: yields_def at_step_def returns_def after_step_def split: option.splits sum.splits)

text \<open>A decoder in place, for values of a type.\<close>

definition fills :: "(cval \<Rightarrow> bool) \<Rightarrow> (cval \<Rightarrow> 'r \<Rightarrow> (cval, 'r) outcome) \<Rightarrow> bool" where
  "fills P dec \<longleftrightarrow> (\<forall>v r. P v \<longrightarrow> yields P (dec v r))"

lemma fillsD: "fills P dec \<Longrightarrow> P v \<Longrightarrow> yields P (dec v r)"
  by (simp add: fills_def)

lemma fillsI: "(\<And>v r. P v \<Longrightarrow> yields P (dec v r)) \<Longrightarrow> fills P dec"
  by (simp add: fills_def)

section \<open>Scalars and octets\<close>

lemma unsigned_fits_le: "\<not> 2 ^ b - 1 < uint u \<Longrightarrow> unsigned_fits b u"
  by (simp add: unsigned_fits_def)

lemma signed_fits_of_int:
  assumes "0 < b" "b \<le> 64" "- (2 ^ (b - 1)) \<le> i" "i < 2 ^ (b - 1)"
  shows "signed_fits b (word_of_int i)"
proof -
  have "(2::int) ^ (b - 1) \<le> 2 ^ 63" using assms(2) by (intro power_increasing) auto
  then have "sint (word_of_int i :: u64) = i" using assms(3,4) by (simp add: signed_of_int signed_take_bit_int_eq_self)
  then show ?thesis using assms(3,4) by (simp add: signed_fits_def)
qed

lemma decode_uint_fills: "fills (has_type (dt_uint b d)) (decode_uint ops F b d)"
  by (rule fillsI) (auto simp: decode_uint_def Let_def unsigned_fits_le split: prod.split sum.split)

lemma decode_sint_fills: "0 < b \<Longrightarrow> b \<le> 64 \<Longrightarrow> fills (has_type (dt_sint b d)) (decode_sint ops F b d)"
  by (rule fillsI) (auto simp: decode_sint_def Let_def intro!: signed_fits_of_int split: prod.split sum.split)

lemma decode_enum_fills: "fills (has_type (dt_enum e sg b d)) (decode_enum ops F e sg b d)"
proof (rule fillsI)
  fix v :: cval and r
  assume v: "has_type (dt_enum e sg b d) v"
  then have w: "has_type (dt_enum e sg b d) (v_enum e sg i)" for i by simp
  show "yields (has_type (dt_enum e sg b d)) (decode_enum ops F e sg b d v r)"
    unfolding decode_enum_def Let_def using v w
    by (auto simp del: has_type.simps split: prod.split option.split sum.split
        intro!: yields_on_ok yields_after [where Q = "\<lambda>v. True"])
qed

text \<open>A decoder that throws over the destination or returns a value of the type.\<close>

lemma offset_fills:
  assumes "\<And>off x r v. P v \<Longrightarrow> yields P (k off v x r)"
  shows "fills P (\<lambda>v r0. let (off, r) = rd_offset ops r0 in on_ok (f r) v (k off v))"
  by (rule fillsI) (auto split: prod.split intro!: yields_on_ok assms)

lemma leaf_fills:
  "fills (has_type (dt_string view d)) (decode_string ops F view d)"
  "fills (has_type dt_char) (decode_char ops)"
  "fills (has_type (dt_span d)) (decode_span ops F d)"
  unfolding decode_string_def [abs_def] decode_char_def [abs_def] decode_span_def [abs_def]
  by (rule offset_fills; simp)+

lemma plain_fills:
  "fills (has_type (dt_real single)) (decode_real ops single)"
  "fills (has_type dt_bool) (\<lambda>out r. on_ok (rd_boolean ops r) out (\<lambda>b r. returns (Inr ()) (v_bool b) r))"
  by (rule fillsI; simp add: decode_real_def yields_on_ok)+

lemma decode_octets_fills: "fills (has_type (dt_byte_range be dest d)) (decode_octets ops F be dest)"
  unfolding decode_octets_def [abs_def]
  by (rule offset_fills) (cases dest; simp)

section \<open>Sequences, arrays, tuples\<close>

lemma sequence_loop_yields:
  assumes "\<And>r. yields P (dec r)" "\<And>vs v. set (app vs v) \<subseteq> insert v (set vs)"
  shows "\<forall>v\<in>set out. P v \<Longrightarrow> yields (\<lambda>vs. \<forall>v\<in>set vs. P v) (sequence_loop ops n dec app c i out r)"
proof (induction n arbitrary: c i out r)
  case (Suc n)
  have "yields (\<lambda>vs. \<forall>v\<in>set vs. P v) (after_step (at_step ops (push_index i) dec r1) (\<lambda>st v r. case st of
      Inl e \<Rightarrow> throws e out r | Inr u \<Rightarrow> sequence_loop ops n dec app c' (i + 1) (app out v) r))" for c' r1
  proof (rule yields_after [where Q = P])
    fix st v r assume "P v"
    with Suc.prems assms(2) [of out v] have "\<forall>v\<in>set (app out v). P v" by blast
    with Suc show "yields (\<lambda>vs. \<forall>v\<in>set vs. P v) (case st of Inl e \<Rightarrow> throws e out r
        | Inr u \<Rightarrow> sequence_loop ops n dec app c' (i + 1) (app out v) r)" by (cases st) auto
  qed (simp add: assms(1))
  then show ?case using Suc.prems by (auto intro!: yields_on_ok)
qed simp

lemma decode_sequence_yields:
  assumes "\<And>r. yields P (dec r)" "\<And>vs v. set (app vs v) \<subseteq> insert v (set vs)" "\<forall>v\<in>set out. P v"
  shows "yields (\<lambda>vs. \<forall>v\<in>set vs. P v) (decode_sequence ops n dec app clears out r)"
  unfolding decode_sequence_def using assms by (intro yields_on_ok sequence_loop_yields) auto

text \<open>Places of a list of types.\<close>

lemma have_types_nth: "have_types ts vs \<longleftrightarrow> length vs = length ts \<and> (\<forall>i<length ts. has_type (ts ! i) (vs ! i))"
  by (force simp: have_types_def set_zip)

lemma have_types_update: "have_types ts vs \<Longrightarrow> has_type (ts ! i) v \<Longrightarrow> have_types ts (vs[i := v])"
  unfolding have_types_nth by (metis length_list_update nth_list_update_eq nth_list_update_neq)

lemma extra_loop_yields: "P out \<Longrightarrow> yields P (extra_loop ops n off c extra out r want)"
  by (induction n arbitrary: c extra r) (auto intro!: yields_on_ok)

lemma positional_loop_yields:
  "have_types ts vs \<Longrightarrow> i + length decs = length ts \<Longrightarrow> (\<And>j. j < length decs \<Longrightarrow> fills (has_type (ts ! (i + j))) (decs ! j)) \<Longrightarrow>
     yields (have_types ts) (positional_loop ops n off want c i decs vs r)"
proof (induction decs arbitrary: c i vs r)
  case Nil
  then show ?case by (auto intro!: yields_on_ok extra_loop_yields)
next
  case (Cons dec decs)
  have d: "yields (has_type (ts ! i)) (dec (vs ! i) r)" for r
    using Cons.prems(1,2) Cons.prems(3) [of 0] by (intro fillsD) (auto simp: have_types_nth)
  have rest: "fills (has_type (ts ! (i + 1 + j))) (decs ! j)" if "j < length decs" for j
    using that Cons.prems(3) [of "Suc j"] by simp
  have "yields (have_types ts) (after_step (at_step ops (push_index (of_nat i)) (dec (vs ! i)) r1) (\<lambda>st v r. case st of
      Inl e \<Rightarrow> throws e (vs[i := v]) r | Inr u \<Rightarrow> positional_loop ops n off want c' (i + 1) decs (vs[i := v]) r))" for c' r1
  proof (rule yields_after [where Q = "has_type (ts ! i)"])
    fix st v r assume "has_type (ts ! i) v"
    with Cons.prems(1) have u: "have_types ts (vs[i := v])" by (rule have_types_update)
    show "yields (have_types ts) (case st of Inl e \<Rightarrow> throws e (vs[i := v]) r
        | Inr u \<Rightarrow> positional_loop ops n off want c' (i + 1) decs (vs[i := v]) r)"
      using u Cons.IH [OF u] Cons.prems(2) rest by (cases st) auto
  qed (simp add: d)
  then show ?case using Cons.prems(1) by (auto intro!: yields_on_ok)
qed

lemma decode_positional_yields:
  assumes "have_types ts vs" "length decs = length ts" "\<And>j. j < length decs \<Longrightarrow> fills (has_type (ts ! j)) (decs ! j)"
  shows "yields (have_types ts) (decode_positional ops n decs vs r)"
  using assms by (auto simp: decode_positional_def intro!: yields_on_ok positional_loop_yields split: prod.split)

section \<open>Maps\<close>

lemma take_bit_unsigned_fits: "b \<le> 64 \<Longrightarrow> unsigned_fits b (word_of_int (take_bit b i))"
  using take_bit_int_less_exp [of b i] by (simp add: unsigned_fits_def uint_word_of_int_eq take_bit_take_bit min_def)

lemma signed_take_bit_fits:
  assumes "0 < b" "b \<le> 64"
  shows "signed_fits b (word_of_int (signed_take_bit (b - 1) i))"
  using signed_take_bit_int_greater_eq_minus_exp [of "b - 1" i] signed_take_bit_int_less_exp [of "b - 1" i]
  by (intro signed_fits_of_int assms)

lemma underlying_fits:
  "to_underlying False b v = v \<Longrightarrow> b \<le> 64 \<Longrightarrow> unsigned_fits b (word_of_int v)"
  "to_underlying True b v = v \<Longrightarrow> 0 < b \<Longrightarrow> b \<le> 64 \<Longrightarrow> signed_fits b (word_of_int v)"
  using take_bit_unsigned_fits [of b v] signed_take_bit_fits [of b v] by (simp_all add: to_underlying_def)

lemma parse_integral_key_underlying: "parse_integral_key ops sg b d t off r = Inr v \<Longrightarrow> to_underlying sg b v = v"
  by (auto simp: parse_integral_key_def from_chars_int_def Let_def split: if_splits integer_parse.splits)

lemma map_sum_Inr: "map_sum id f m = Inr k \<longleftrightarrow> (\<exists>v. m = Inr v \<and> k = f v)"
  by (cases m) auto

lemma key_kind_cases:
  "(case k of kind_text \<Rightarrow> a | kind_uint \<Rightarrow> b | _ \<Rightarrow> c) = (if k = kind_text then a else if k = kind_uint then b else c)"
  by (cases k) simp_all

lemma decode_map_key_typed:
  assumes "key_width_ok kt" "decode_map_key ops F md kt off r = (Inr k, r')"
  shows "key_has_type kt k"
proof (cases kt)
  case (mkt_string view)
  with assms(2) show ?thesis by (auto simp: decode_map_key_def split: prod.splits sum.splits if_splits)
next
  case (mkt_unsigned b d)
  with assms show ?thesis
    by (auto simp: decode_map_key_def unsigned_fits_le map_sum_Inr key_kind_cases split: prod.splits sum.splits if_splits
      dest!: parse_integral_key_underlying intro!: underlying_fits)
next
  case (mkt_signed b d)
  with assms(1) have b: "0 < b" "b \<le> 64" by simp_all
  have i: "signed_fits b (word_of_int i)" if "\<not> (2 ^ (b - 1) - 1 < i \<or> i < - (2 ^ (b - 1)))" for i
    using that by (intro signed_fits_of_int b) auto
  have u: "signed_fits b u" if "\<not> 2 ^ (b - 1) - 1 < uint u" for u :: u64
  proof -
    have "\<not> uint u < - (2 ^ (b - 1))" using uint_ge_0 [of u] zero_le_power [of "2 :: int" "b - 1"] by linarith
    with i [of "uint u"] that show ?thesis by simp
  qed
  have t: "signed_fits b (word_of_int v)" if "parse_integral_key ops True b d t off r = Inr v" for t r v
    using parse_integral_key_underlying [OF that] b by (rule underlying_fits)
  from mkt_signed assms(2) i u t show ?thesis
    by (auto simp: decode_map_key_def map_sum_Inr key_kind_cases split: prod.splits sum.splits if_splits)
qed

text \<open>The entries of a map.\<close>

definition entry_has_type :: "map_key_type \<Rightarrow> (cval \<Rightarrow> bool) \<Rightarrow> map_key_val \<times> cval \<Rightarrow> bool" where
  "entry_has_type kt P e \<longleftrightarrow> key_has_type kt (fst e) \<and> P (snd e)"

lemma set_entry_typed: "\<forall>e\<in>set es. entry_has_type kt P e \<Longrightarrow> P v \<Longrightarrow> \<forall>e\<in>set (set_entry k v es). entry_has_type kt P e"
  by (auto simp: set_entry_def entry_has_type_def)

lemma map_loop_yields:
  assumes "fills P dec" "P v0" "key_width_ok kt" "\<And>es e. set (mc_insert mc es e) \<subseteq> insert e (set es)"
  shows "\<forall>e\<in>set es. entry_has_type kt P e \<Longrightarrow>
    yields (\<lambda>es. \<forall>e\<in>set es. entry_has_type kt P e) (map_loop ops n F mc md kt v0 dec c es r)"
proof (induction n arbitrary: c es r)
  case (Suc n)
  let ?Q = "\<lambda>es. \<forall>e\<in>set es. entry_has_type kt P e"
  have again: "yields ?Q (after_step (at_step ops stp (dec old) r) (\<lambda>st v r. case st of
      Inl e \<Rightarrow> throws e (failed v) r | Inr u \<Rightarrow> map_loop ops n F mc md kt v0 dec c' (upd v) r))"
    if "P old" "\<And>v. P v \<Longrightarrow> ?Q (failed v)" "\<And>v. P v \<Longrightarrow> ?Q (upd v)" for stp old r failed upd c'
    by (rule yields_after [where Q = P]) (use that Suc.IH assms(1) in \<open>auto simp: fillsD split: sum.split\<close>)
  have entry: "yields ?Q (case (if mc_unique mc then map_of es k else None) of
       Some old \<Rightarrow> (case rd_duplicates ops of
            duplicate_error \<Rightarrow> throws (duplicate_entry ops k off r) es r
          | first_wins \<Rightarrow> on_ok (rd_skip ops r) es (\<lambda>u r. map_loop ops n F mc md kt v0 dec c' es r)
          | last_wins \<Rightarrow> after_step (at_step ops (push_map_key k) (dec old) r) (\<lambda>st v r. case st of
                Inl e \<Rightarrow> throws e (set_entry k v es) r
              | Inr u \<Rightarrow> map_loop ops n F mc md kt v0 dec c' (set_entry k v es) r))
     | None \<Rightarrow> after_step (at_step ops (push_map_key k) (dec v0) r) (\<lambda>st v r. case st of
           Inl e \<Rightarrow> throws e es r
         | Inr u \<Rightarrow> map_loop ops n F mc md kt v0 dec c' (mc_insert mc es (k, v)) r))"
    if "key_has_type kt k" for k off r c'
  proof (cases "if mc_unique mc then map_of es k else None")
    case None
    have "?Q (mc_insert mc es (k, v))" if "P v" for v
      using assms(4) [of es "(k, v)"] Suc.prems that \<open>key_has_type kt k\<close> by (auto simp: entry_has_type_def)
    with again [OF assms(2), of "\<lambda>v. es" "\<lambda>v. mc_insert mc es (k, v)"] Suc.prems None show ?thesis by simp
  next
    case (Some old)
    then have "P old" using Suc.prems by (auto simp: entry_has_type_def split: if_splits dest!: map_of_SomeD)
    from again [OF this, of "\<lambda>v. set_entry k v es" "\<lambda>v. set_entry k v es"] set_entry_typed [OF Suc.prems] Suc Some
    show ?thesis by (auto split: duplicate_key_mode.split intro!: yields_on_ok)
  qed
  have key: "yields ?Q (on_ok (decode_map_key ops F md kt off r) es (\<lambda>k r. g k r))"
    if "\<And>k r. key_has_type kt k \<Longrightarrow> yields ?Q (g k r)" for off r g
    using that Suc.prems by (auto simp: on_ok_def split: prod.split sum.split dest: decode_map_key_typed [OF assms(3)])
  show ?case
    using Suc.prems key [OF entry] by (auto simp: Let_def simp del: on_ok_simps intro!: yields_on_ok split: prod.split)
qed simp

lemma decode_map_yields:
  assumes "fills P dec" "P v0" "key_width_ok kt" "\<And>es e. set (mc_insert mc es e) \<subseteq> insert e (set es)" "\<forall>e\<in>set es. entry_has_type kt P e"
  shows "yields (\<lambda>es. \<forall>e\<in>set es. entry_has_type kt P e) (decode_map ops n F mc md kt v0 dec es r)"
  unfolding decode_map_def using assms by (intro yields_on_ok map_loop_yields) auto

section \<open>Structs\<close>

lemma initial_value_typed: "wf_type t \<Longrightarrow> has_type t (initial_value t)"
proof (induction t)
  case (dt_tuple ts)
  then show ?case by (auto simp: set_zip)
next
  case (dt_variant d alts)
  then show ?case by (cases alts) fastforce+
qed (auto simp: unsigned_fits_def signed_fits_def have_types_def split: byte_dest.split list.split)

lemmas cast_fits = take_bit_unsigned_fits signed_take_bit_fits [simplified]

lemma cast_int_typed: "wf_type t \<Longrightarrow> has_type t old \<Longrightarrow> has_type t (cast_int t i old)"
  by (induction t i old rule: cast_int.induct) (auto simp: cast_fits initial_value_typed)

lemma cast_real_typed: "wf_type t \<Longrightarrow> has_type t old \<Longrightarrow> has_type t (cast_real t x old)"
  by (induction t x old rule: cast_real.induct) (auto simp: cast_fits initial_value_typed)

lemma assign_text_typed: "has_type t old \<Longrightarrow> has_type t (assign_text t s old)"
  by (induction t s old rule: assign_text.induct) auto

lemma apply_default_typed: "wf_type t \<Longrightarrow> has_type t old \<Longrightarrow> has_type t (apply_default t dv old)"
  by (simp add: apply_default_def cast_int_typed cast_real_typed assign_text_typed split: default_payload.split)

text \<open>Every member decodes into its place.\<close>

definition members_fill :: "dtype list \<Rightarrow> 'r members \<Rightarrow> bool" where
  "members_fill ts members \<longleftrightarrow> (\<forall>(f, dec)\<in>set members.
     member_index (fm_info f) < length ts \<and> fills (has_type (ts ! member_index (fm_info f))) dec)"

lemma decode_member_yields:
  assumes "members_fill ts members" "have_types ts vs"
  shows "yields (have_types ts) (decode_member ops members i vs r)"
proof (cases "find (\<lambda>(f, dec). member_index (fm_info f) = i) members")
  case None
  with assms(2) show ?thesis by (simp add: decode_member_def)
next
  case (Some m)
  obtain f dec where m: "m = (f, dec)" by force
  from Some m have i: "(f, dec) \<in> set members" "member_index (fm_info f) = i"
    by (auto simp: find_Some_iff) (metis nth_mem)
  with assms(1) have f: "i < length ts" "fills (has_type (ts ! i)) dec" by (auto simp: members_fill_def)
  have "yields (has_type (ts ! i)) (dec (vs ! i) r)"
    using f assms(2) by (intro fillsD) (auto simp: have_types_nth)
  then have "yields (\<lambda>v. have_types ts (vs[i := v])) (at_step ops stp (dec (vs ! i)) r)" for stp
    by (auto elim!: yields_mono intro: have_types_update assms(2))
  then show ?thesis by (simp add: decode_member_def Some m yields_rewrap)
qed

lemma struct_loop_yields:
  assumes "members_fill ts members"
  shows "have_types ts vs \<Longrightarrow> yields (\<lambda>(vs, seen). have_types ts vs) (struct_loop ops n cls ignored members c vs seen r)"
proof (induction n arbitrary: c vs seen r)
  case (Suc n)
  let ?P = "\<lambda>(vs, seen). have_types ts vs"
  have mem: "yields ?P (after_step (decode_member ops members i vs r) (\<lambda>st vs' r'. case st of
       Inr u \<Rightarrow> struct_loop ops n cls ignored members c' vs' (seen[i := True]) r'
     | Inl e \<Rightarrow>
         if collects ops \<and> \<not> is_syntax_error (code e) then
           on_ok (rd_skip ops (rd_restore ops (rd_save ops r) (push_collected ops e r'))) (vs', seen[i := True])
             (\<lambda>u r. struct_loop ops n cls ignored members c' vs' (seen[i := True]) r)
         else throws e (vs', seen[i := True]) r'))" for i r c'
    by (rule yields_after [OF decode_member_yields [OF assms Suc.prems]])
      (auto simp: Suc.IH split: sum.split intro!: yields_on_ok)
  have key: "yields ?P (case a of
       None \<Rightarrow> None
     | Some ma_skip \<Rightarrow> on_ok (rd_skip ops r) (vs, seen) (\<lambda>u r. struct_loop ops n cls ignored members c' vs seen r)
     | Some (ma_reject e) \<Rightarrow> on_ok (rd_skip ops r) (vs, seen) (\<lambda>u r. throws e (vs, seen) r)
     | Some (ma_report e) \<Rightarrow>
         if collects ops then
           on_ok (rd_skip ops (push_collected ops e r)) (vs, seen) (\<lambda>u r. struct_loop ops n cls ignored members c' vs seen r)
         else throws e (vs, seen) r
     | Some (ma_decode i) \<Rightarrow> m i)" if "\<And>i. yields ?P (m i)" for a r c' m
    using that Suc by (auto intro!: yields_on_ok split: option.split member_action.split)
  have vs: "?P (vs, seen)" using Suc.prems by simp
  show ?case
    unfolding struct_loop.simps Let_def
    by (rule yields_next [where P = ?P], rule vs, rule yields_pair, rule yields_on_ok [where P = ?P], rule vs, rule key, rule mem)
qed simp

lemma missing_members_yields:
  assumes "\<And>f t. (f, t) \<in> set typed \<Longrightarrow> member_index (fm_info f) < length ts \<and> ts ! member_index (fm_info f) = t \<and> wf_type t"
  shows "have_types ts vs \<Longrightarrow> yields (have_types ts) (missing_members ops n cls off start seen typed missing vs r)"
  using assms
proof (induction typed arbitrary: missing vs r)
  case (Cons p typed)
  obtain f t where p: "p = (f, t)" by force
  have d: "have_types ts (vs[member_index (fm_info f) := apply_default t dv (vs ! member_index (fm_info f))])" for dv
  proof (rule have_types_update [OF Cons.prems(1)])
    have "member_index (fm_info f) < length ts" "ts ! member_index (fm_info f) = t" "wf_type t"
      using Cons.prems(2) [of f t] p by simp_all
    with Cons.prems(1) show "has_type (ts ! member_index (fm_info f)) (apply_default t dv (vs ! member_index (fm_info f)))"
      by (auto simp: have_types_nth intro!: apply_default_typed)
  qed
  have rest: "yields (have_types ts) (missing_members ops n cls off start seen typed missing vs r)" if "have_types ts vs" for missing vs r
    using Cons.IH [OF that] Cons.prems(2) p by auto
  show ?case using Cons.prems(1) by (auto simp: p Let_def rest d split: sum.split option.split)
qed simp

lemma decode_object_yields:
  assumes "members_fill ts members" "have_types ts vs"
    "\<And>f t. (f, t) \<in> set typed \<Longrightarrow> member_index (fm_info f) < length ts \<and> ts ! member_index (fm_info f) = t \<and> wf_type t"
  shows "yields (have_types ts) (decode_object ops n cls ignored members typed vs r)"
  unfolding decode_object_def Let_def
  by (rule yields_pair, rule yields_on_ok, rule assms, rule yields_after, rule struct_loop_yields [OF assms(1,2)])
    (use missing_members_yields [OF assms(3)] in \<open>auto split: sum.split\<close>)

lemma decode_struct_yields:
  assumes "members_fill ts members" "have_types ts vs"
    "\<And>f t. (f, t) \<in> set typed \<Longrightarrow> member_index (fm_info f) < length ts \<and> ts ! member_index (fm_info f) = t \<and> wf_type t"
  shows "yields (have_types ts) (decode_struct ops n cls ignored members typed vs r)"
  using decode_object_yields [OF assms] decode_member_yields [OF assms(1,2)]
  by (auto simp: decode_struct_def split: list.split)

section \<open>Variants\<close>

lemma external_loop_yields:
  assumes "fills P dec"
  shows "P v \<Longrightarrow> yields (\<lambda>(got, v). P v) (external_loop ops n dec c got v r)"
proof (induction n arbitrary: c got v r)
  case (Suc n)
  let ?P = "\<lambda>(got :: bool, v). P v"
  have "yields ?P (after_step (at_step ops (push_member variant_value_key) (dec v) r) (\<lambda>st v r.
      case st of Inl e \<Rightarrow> throws e (True, v) r | Inr u \<Rightarrow> external_loop ops n dec c True v r))" for c r
    by (rule yields_after [where Q = P]) (use Suc assms fillsD in \<open>auto split: sum.split\<close>)
  moreover have "yields ?P (on_ok (rd_skip ops r) (got, v) (\<lambda>u r. external_loop ops n dec c got v r))" for c r
    using Suc by (intro yields_on_ok) auto
  ultimately show ?case
    unfolding external_loop.simps Let_def using Suc.prems
    by (intro yields_next yields_pair yields_on_ok) auto
qed simp

lemma decode_external_yields:
  assumes "fills P dec" "P v"
  shows "yields P (decode_external ops n d off dec v r)"
  unfolding decode_external_def
  by (rule yields_on_ok, rule assms, rule yields_after, rule external_loop_yields [OF assms])
    (auto split: sum.split)

lemma decode_variant_yields:
  assumes "\<And>name inner v0 dec. (name, inner, v0, dec) \<in> set alts \<Longrightarrow>
      \<exists>P. P v0 \<and> fills P dec \<and> (\<forall>v. P v \<longrightarrow> V (v_variant (Some (name, v))))" "V out"
  shows "yields V (decode_variant ops n tag d alts out r)"
proof -
  have alt: "yields V (decode_alternative ops n d off alt r)" if "alt \<in> set alts" for off alt r
  proof -
    obtain name inner v0 dec where a: "alt = (name, inner, v0, dec)" by (metis prod.exhaust)
    with assms(1) that obtain P where P: "P v0" "fills P dec" "\<And>v. P v \<Longrightarrow> V (v_variant (Some (name, v)))" by blast
    have "yields P (if inner then dec v0 r else decode_external ops n d off dec v0 r)"
      using P(1,2) by (simp add: fillsD decode_external_yields)
    with P(3) show ?thesis by (auto simp: decode_alternative_def a intro!: yields_rewrap elim!: yields_mono)
  qed
  have find: "alt \<in> set alts" if "find (\<lambda>alt. fst alt = name) (rev alts) = Some alt" for name alt
    using that by (auto simp: find_Some_iff) (metis nth_mem length_rev set_rev)
  show ?thesis
    unfolding decode_variant_def Let_def
    by (rule yields_pair, rule yields_on_ok, rule assms, rule yields_after [where Q = "\<lambda>v. True"], simp)
      (auto simp: assms(2) split: sum.split option.split dest: find alt)
qed

section \<open>Every decoder\<close>

text \<open>What user code and the format's range hook promise: they keep the type of what they fill.\<close>

fun codec_fills :: "(cval \<Rightarrow> bool) \<Rightarrow> 'r decode_codec \<Rightarrow> bool" where
  "codec_fills P (dc_into f) = (\<forall>out r st v r'. P out \<longrightarrow> f out r = ((st, v), r') \<longrightarrow> P v)"
| "codec_fills P (dc_value f) = (\<forall>r v r'. f r = (Inr v, r') \<longrightarrow> P v)"

definition member_codecs_fill :: "('r, 'c, 'm) reader_ops \<Rightarrow> dtype \<Rightarrow> bool" where
  "member_codecs_fill ops t \<longleftrightarrow>
     (\<forall>(f, u)\<in>set (members_in t). \<forall>name. fm_codec f = Some name \<longrightarrow> codec_fills (has_type u) (rd_with ops name f))"

definition ranges_fill :: "('r, 'c, 'm) reader_ops \<Rightarrow> bool" where
  "ranges_fill ops \<longleftrightarrow> (\<forall>t f out r res v r'. rd_range ops t = Some f \<longrightarrow> wf_type t \<longrightarrow> has_type t out \<longrightarrow>
     f out r = (res, v, r') \<longrightarrow> has_type t v)"

lemma run_codec_fills: "codec_fills P codec \<Longrightarrow> fills P (run_codec_decode codec)"
  by (rule fillsI, cases codec) (auto simp: run_codec_decode_def yields_def on_ok_def returns_def split: prod.splits sum.splits)

lemma decode_optional_fills:
  assumes "fills (has_type u) dec" "has_type u v0"
  shows "fills (has_type (dt_optional u)) (decode_optional ops v0 dec)"
proof (rule fillsI)
  fix v :: cval and r assume v: "has_type (dt_optional u) v"
  have "yields (has_type (dt_optional u)) (rewrap (\<lambda>v. v_optional (Some v)) (dec v0 r))" for r
    by (rule yields_rewrap) (use assms fillsD in force)
  then show "yields (has_type (dt_optional u)) (decode_optional ops v0 dec v r)"
    using v by (auto simp: decode_optional_def intro!: yields_on_ok split: prod.split)
qed

lemma decode_class_fills:
  assumes "class_of t = Some (c, ts)" "wf_type t"
    "\<And>f u. (f, u) \<in> set (zip (build_fields c) ts) \<Longrightarrow> fills (has_type u) (decode_field_value ops n f u)"
  shows "fills (has_type t) (decode_class ops n ignored t)"
proof (rule fillsI)
  fix v :: cval and r assume v: "has_type t v"
  obtain vs0 where t: "t = dt_class c ts vs0" using assms(1) by (auto simp: class_of_def split: dtype.splits)
  with v obtain vs where vs: "v = v_class c vs" "have_types ts vs" by (auto simp: have_types_def split: cval.splits)
  have idx: "map (\<lambda>f. member_index (fm_info f)) (build_fields c) = [0..<length ts]" "length ts = length (build_fields c)"
    "\<And>t. t \<in> set ts \<Longrightarrow> wf_type t" using assms(2) t by simp_all
  have place: "member_index (fm_info f) < length ts \<and> ts ! member_index (fm_info f) = u \<and> wf_type u"
    if "(f, u) \<in> set (zip (build_fields c) ts)" for f u
  proof -
    from that obtain i where i: "i < length ts" "f = build_fields c ! i" "u = ts ! i" by (auto simp: set_zip)
    with idx(1,2) have "member_index (fm_info f) = i" by (metis nth_map nth_upt add_0 length_map)
    with i idx(3) show ?thesis by simp
  qed
  have "members_fill ts (map (\<lambda>(f, u). (f, decode_field_value ops n f u)) (zip (build_fields c) ts))"
    using place assms(3) by (fastforce simp: members_fill_def)
  from decode_struct_yields [OF this vs(2) place, of "zip (build_fields c) ts" ops n c ignored r]
  show "yields (has_type t) (decode_class ops n ignored t v r)"
    by (auto simp: decode_class.simps class_of_def t vs(1) elems_of_def have_types_def intro!: yields_rewrap elim!: yields_mono)
qed

lemma have_types_replicate: "have_types (replicate n t) vs \<longleftrightarrow> length vs = n \<and> (\<forall>v\<in>set vs. has_type t v)"
  by (auto simp: have_types_nth all_set_conv_all_nth)

lemma length_octets_of [simp]: "length (octets_of vs) = length vs"
  by (simp add: octets_of_def)

text \<open>A byte range is decoded as octets or as a range of numbers below 256.\<close>

lemma byte_range_fills: "fills (has_type (dt_byte_range be dest d)) (\<lambda>out r. decode_shape ops n F (dt_byte_range be dest d) out r)"
proof (rule fillsI)
  fix v :: cval and r assume v: "has_type (dt_byte_range be dest d) v"
  obtain bs where bs: "v = v_byte_range be bs" "\<And>k. dest = bd_array k \<Longrightarrow> length bs = k"
    using v by (auto split: cval.splits byte_dest.splits)
  have nums: "\<forall>w\<in>set (elems_of v). has_type (dt_uint 8 d) w"
  proof -
    have "uint (ucast b :: u64) < 256" for b :: "8 word"
      using uint_bounded [of b] by (simp add: uint_up_ucast is_up)
    then show ?thesis by (simp add: bs(1) elems_of_def unsigned_fits_def)
  qed
  have "yields (\<lambda>vs. length vs = k) (decode_positional ops n (replicate k (decode_uint ops F 8 d)) (elems_of v) r)"
    if "dest = bd_array k" for k
  proof -
    have "have_types (replicate k (dt_uint 8 d)) (elems_of v)"
      using nums bs that by (simp add: have_types_replicate elems_of_def)
    then have "yields (have_types (replicate k (dt_uint 8 d))) (decode_positional ops n (replicate k (decode_uint ops F 8 d)) (elems_of v) r)"
      by (rule decode_positional_yields) (simp_all add: decode_uint_fills)
    then show ?thesis by (rule yields_mono) (simp add: have_types_replicate)
  qed
  moreover have "yields (has_type (dt_byte_range be dest d)) (rewrap (\<lambda>vs. v_byte_range be (octets_of vs)) m)"
    if "yields (\<lambda>vs. \<forall>k. dest = bd_array k \<longrightarrow> length vs = k) m" for m :: "(cval list, 'a) outcome"
    by (rule yields_rewrap, rule yields_mono [OF that]) (auto split: byte_dest.split)
  moreover have "yields (has_type (dt_byte_range be dest d)) (decode_octets ops F be dest v r)"
    by (rule fillsD [OF decode_octets_fills v])
  ultimately show "yields (has_type (dt_byte_range be dest d)) (decode_shape ops n F (dt_byte_range be dest d) v r)"
    by (cases dest) (simp_all del: has_type.simps)
qed

definition codecs_fill :: "('r, 'c, 'm) reader_ops \<Rightarrow> field_meta \<Rightarrow> dtype \<Rightarrow> bool" where
  "codecs_fill ops F t \<longleftrightarrow> (\<forall>name. fm_codec F = Some name \<longrightarrow> codec_fills (has_type (present_type t)) (rd_with ops name F))"

lemma present_size: "optional_type t = Some u \<Longrightarrow> present_type t = present_type u"
  by (auto simp: optional_type_def split: dtype.splits)

lemma present_plain: "optional_type t = None \<Longrightarrow> present_type t = t"
  by (cases t) (simp_all add: optional_type_def)

text \<open>All types: by induction over the size of the type.\<close>

lemma member_codecs_sub:
  "member_codecs_fill ops (dt_optional t) = member_codecs_fill ops t"
  "member_codecs_fill ops (dt_map mc d kt t) = member_codecs_fill ops t"
  "member_codecs_fill ops (dt_array k im t) = member_codecs_fill ops t"
  "member_codecs_fill ops (dt_sequence ct t) = member_codecs_fill ops t"
  "member_codecs_fill ops (dt_tuple ts) = (\<forall>t\<in>set ts. member_codecs_fill ops t)"
  "member_codecs_fill ops (dt_variant d alts) = (\<forall>(name, t)\<in>set alts. member_codecs_fill ops t)"
  by (fastforce simp: member_codecs_fill_def)+

lemma member_codecs_class:
  assumes "member_codecs_fill ops t" "class_of t = Some (c, ts)" "(f, u) \<in> set (zip (build_fields c) ts)"
  shows "member_codecs_fill ops u" "codecs_fill ops f u"
proof -
  obtain vs where t: "t = dt_class c ts vs" using assms(2) by (auto simp: class_of_def split: dtype.splits)
  have "(f, present_type u) \<in> set (zip (build_fields c) (map present_type ts))"
    using assms(3) by (force simp: zip_map2)
  then show "codecs_fill ops f u" using assms(1) by (force simp: t codecs_fill_def member_codecs_fill_def)
  show "member_codecs_fill ops u"
    using assms(1) set_zip_rightD [OF assms(3)] by (force simp: t member_codecs_fill_def)
qed

lemma shape_fills:
  assumes wf: "wf_type t" and codecs: "member_codecs_fill ops t" and none: "fm_codec F = None"
    and vals: "\<And>u F. size u < size t \<Longrightarrow> wf_type u \<Longrightarrow> member_codecs_fill ops u \<Longrightarrow> fm_codec F = None \<Longrightarrow>
        fills (has_type u) (decode_value ops n F u)"
    and fields: "\<And>u F. size u < size t \<Longrightarrow> wf_type u \<Longrightarrow> member_codecs_fill ops u \<Longrightarrow> codecs_fill ops F u \<Longrightarrow>
        fills (has_type u) (decode_field_value ops n F u)"
  shows "fills (has_type t) (decode_shape ops n F t)"
proof -
  have cls: "fills (has_type u) (decode_class ops n ign u)"
    if "class_of u = Some (c, ts)" "wf_type u" "member_codecs_fill ops u" "size u \<le> size t" for u c ts ign
  proof (rule decode_class_fills [OF that(1,2)])
    fix f w assume w: "(f, w) \<in> set (zip (build_fields c) ts)"
    have "wf_type w" using that(1,2) w by (auto simp: class_of_def split: dtype.splits dest: set_zip_rightD)
    with member_codecs_class [OF that(3,1) w] class_of_size [OF that(1) w] that(4)
    show "fills (has_type w) (decode_field_value ops n f w)" by (intro fields) auto
  qed
  show ?thesis
  proof (cases t)
    case (dt_uint b d)
    with decode_uint_fills [of b d ops F] show ?thesis by (simp add: fills_def)
  next
    case (dt_sint b d)
    with decode_sint_fills [of b d ops F] wf show ?thesis by (simp add: fills_def)
  next
    case (dt_enum e sg b d)
    with decode_enum_fills [of e sg b d ops F] show ?thesis by (simp add: fills_def)
  next
    case (dt_byte_range be dest d)
    with byte_range_fills [of be dest d ops n F] show ?thesis by (simp add: fills_def)
  next
    case (dt_codec name sys ca v)
    then show ?thesis by (simp add: fills_def yields_def)
  next
    case (dt_optional u)
    with wf codecs none have "fills (has_type u) (decode_value ops n F u)" "has_type u (initial_value u)"
      by (simp_all add: vals initial_value_typed member_codecs_sub)
    from decode_optional_fills [OF this] dt_optional show ?thesis by (simp add: fills_def)
  next
    case (dt_map mc d kt u)
    have u: "fills (has_type u) (decode_value ops n F u)" "has_type u (initial_value u)"
      using wf codecs none dt_map by (simp_all add: vals initial_value_typed member_codecs_sub)
    show ?thesis
    proof (rule fillsI)
      fix v r assume "has_type t v"
      with dt_map obtain es where v: "v = v_map (mc_sized mc) es" "\<forall>e\<in>set es. entry_has_type kt (has_type u) e"
        by (auto simp: entry_has_type_def split_beta split: cval.splits)
      from wf dt_map have "yields (\<lambda>es. \<forall>e\<in>set es. entry_has_type kt (has_type u) e)
          (decode_map ops n F mc d kt (initial_value u) (decode_value ops n F u) es r)"
        by (intro decode_map_yields u v) auto
      then show "yields (has_type t) (decode_shape ops n F t v r)"
        by (auto simp: dt_map v(1) entries_of_def entry_has_type_def split_beta intro!: yields_rewrap elim!: yields_mono)
    qed
  next
    case (dt_tuple us)
    have u: "fills (has_type u) (decode_value ops n F u)" if "u \<in> set us" for u
      using wf codecs none dt_tuple that size_list_member [OF that, of size] by (intro vals) (auto simp: member_codecs_sub)
    show ?thesis
    proof (rule fillsI)
      fix v r assume "has_type t v"
      with dt_tuple obtain vs where v: "v = v_tuple vs" "have_types us vs"
        by (auto simp: have_types_def split: cval.splits)
      have "yields (have_types us) (decode_positional ops n (map (decode_value ops n F) us) vs r)"
        using u by (intro decode_positional_yields v) simp_all
      then show "yields (has_type t) (decode_shape ops n F t v r)"
        by (auto simp: dt_tuple v(1) elems_of_def have_types_def intro!: yields_rewrap elim!: yields_mono)
    qed
  next
    case (dt_array k im u)
    have u: "fills (has_type u) (decode_value ops n F u)"
      using wf codecs none dt_array by (simp add: vals member_codecs_sub)
    show ?thesis
    proof (rule fillsI)
      fix v r assume "has_type t v"
      with dt_array obtain vs where v: "v = v_sequence True (im vs) vs" "have_types (replicate k u) vs"
        by (auto simp: have_types_replicate split: cval.splits)
      have "yields (have_types (replicate k u)) (decode_positional ops n (replicate k (decode_value ops n F u)) vs r)"
        using u by (intro decode_positional_yields v) simp_all
      then show "yields (has_type t) (decode_shape ops n F t v r)"
        by (auto simp: dt_array v(1) elems_of_def have_types_replicate intro!: yields_rewrap elim!: yields_mono)
    qed
  next
    case (dt_sequence ct u)
    have u: "fills (has_type u) (decode_value ops n F u)" "has_type u (initial_value u)"
      using wf codecs none dt_sequence by (simp_all add: vals initial_value_typed member_codecs_sub)
    show ?thesis
    proof (rule fillsI)
      fix v r assume "has_type t v"
      with dt_sequence obtain vs where v: "v = v_sequence (ct_sized ct) (ct_image ct vs) vs" "\<forall>w\<in>set vs. has_type u w"
        by (auto split: cval.splits)
      from wf dt_sequence have "yields (\<lambda>vs. \<forall>w\<in>set vs. has_type u w)
          (decode_sequence ops n (decode_value ops n F u (initial_value u)) (ct_append ct) (ct_clears ct) vs r)"
        using u by (intro decode_sequence_yields v fillsD) auto
      then show "yields (has_type t) (decode_shape ops n F t v r)"
        by (auto simp: dt_sequence v(1) elems_of_def intro!: yields_rewrap elim!: yields_mono)
    qed
  next
    case (dt_variant d alts)
    have alt: "\<exists>P. P v0 \<and> fills P dec \<and> (\<forall>v. P v \<longrightarrow> has_type t (v_variant (Some (name, v))))"
      if "(name, inner, v0, dec) \<in> set (map (\<lambda>(name, u). (name, tagged_inside u, initial_value u,
          if tagged_inside u then decode_class ops n (tag_key (fm_info F)) u else decode_value ops n no_field u)) alts)"
      for name inner v0 dec
    proof -
      from that obtain u where u: "(name, u) \<in> set alts" "v0 = initial_value u"
        "dec = (if tagged_inside u then decode_class ops n (tag_key (fm_info F)) u else decode_value ops n no_field u)" by auto
      have w: "wf_type u" "member_codecs_fill ops u" "size u < size t"
        using wf codecs dt_variant u(1) alternative_size [OF u(1)] by (auto simp: member_codecs_sub)
      have "fills (has_type u) dec"
      proof (cases "tagged_inside u")
        case True
        then obtain c ts where "class_of u = Some (c, ts)" by (auto simp: tagged_inside_def split: option.splits)
        from cls [OF this w(1,2)] w(3) True show ?thesis by (simp add: u(3))
      next
        case False
        have "fm_codec no_field = None" by (simp add: no_field_def)
        with w False show ?thesis by (simp add: u(3) vals)
      qed
      moreover have "has_type t (v_variant (Some (name, v)))" if "has_type u v" for v
        using that u(1) dt_variant by auto
      ultimately show ?thesis using initial_value_typed [OF w(1)] u(2) by blast
    qed
    show ?thesis
    proof (rule fillsI)
      fix v r assume "has_type t v"
      from decode_variant_yields [where ops = ops and n = n and tag = "tag_key (fm_info F)" and d = d and r = r, OF alt this]
      show "yields (has_type t) (decode_shape ops n F t v r)" by (simp only: dt_variant decode_shape.simps)
    qed
  next
    case (dt_class c ts vs)
    with cls [of t c ts "[]"] wf codecs show ?thesis by (simp add: fills_def class_of_def)
  qed (use leaf_fills(1) [of _ _ ops F] leaf_fills(2) [of ops] leaf_fills(3) [of _ ops F] plain_fills(1) [of _ ops] plain_fills(2) [of ops] in \<open>simp_all add: fills_def\<close>)
qed

lemma field_value_plain_yields:
  assumes "optional_type t = None" "ranges_fill ops" "wf_type t" "fills (has_type t) (decode_value ops n F t)" "has_type t v"
  shows "yields (has_type t) (decode_field_value ops n F t v r)"
proof -
  have val: "yields (has_type t) (decode_value ops n F t w r)" if "has_type t w" for w r
    using fillsD [OF assms(4) that] .
  have range: "has_type t w" if "rd_range ops t = Some f" "f v r1 = (res, w, r2)" for f r1 res w r2
    using assms(2,3,5) that unfolding ranges_fill_def by blast
  show ?thesis
    by (subst decode_field_value.simps)
      (auto simp: assms(1,5) val dest: range split: prod.split sum.split option.split)
qed

lemma all_fill:
  assumes "ranges_fill ops"
  shows "wf_type t \<Longrightarrow> member_codecs_fill ops t \<Longrightarrow>
    (\<forall>F. fm_codec F = None \<longrightarrow> fills (has_type t) (decode_value ops n F t))
    \<and> (\<forall>F. codecs_fill ops F t \<longrightarrow> fills (has_type t) (decode_field_value ops n F t))"
proof (induction t rule: measure_induct_rule [where f = size])
  case (less t)
  have shape: "fills (has_type t) (decode_shape ops n F t)" if "fm_codec F = None" for F
    by (rule shape_fills [OF less.prems that]) (simp_all add: less.IH)
  have val: "fills (has_type t) (decode_value ops n F t)" if "fm_codec F = None" for F
    using shape [OF that] that by (simp add: fills_def decode_value.simps)
  have field: "fills (has_type t) (decode_field_value ops n F t)" if F: "codecs_fill ops F t" for F
  proof (cases "optional_type t")
    case None
    have "fills (has_type t) (decode_value ops n F t)"
    proof (cases "fm_codec F")
      case (Some name)
      with F have "codec_fills (has_type t) (rd_with ops name F)" by (simp add: codecs_fill_def present_plain [OF None])
      from run_codec_fills [OF this] Some show ?thesis by (simp add: fills_def decode_value.simps)
    qed (rule val)
    with field_value_plain_yields [OF None assms less.prems(1)] show ?thesis by (simp add: fills_def)
  next
    case (Some u)
    then have t: "t = dt_optional u" by (auto simp: optional_type_def split: dtype.splits)
    with less.prems F present_size [OF Some] have "fills (has_type u) (decode_field_value ops n F u)"
      by (simp add: less.IH member_codecs_sub codecs_fill_def)
    moreover have "has_type u (initial_value u)" using less.prems t by (simp add: initial_value_typed)
    ultimately have "fills (has_type (dt_optional u)) (decode_optional ops (initial_value u) (decode_field_value ops n F u))"
      by (rule decode_optional_fills)
    then show ?thesis by (simp add: fills_def t decode_field_value.simps [of ops n F "dt_optional u"] optional_type_def)
  qed
  show ?case using val field by blast
qed

lemma decode_root_typed:
  assumes "ranges_fill ops" "wf_type t" "member_codecs_fill ops t" "has_type t out"
    "decode_root ops n t out r = Some ((st, v), r')"
  shows "has_type t v"
proof -
  have "codecs_fill ops no_field t" by (simp add: codecs_fill_def no_field_def)
  with all_fill [OF assms(1-3)] assms(4) have "yields (has_type t) (decode_field_value ops n no_field t out r)"
    by (simp add: fills_def)
  then have "yields (has_type t) (decode_root ops n t out r)"
    unfolding decode_root_def by (rule yields_after) simp
  with assms(5) show ?thesis by (simp add: yields_def)
qed

end
