(* ===== verification/Decode_Types.thy ===== *)
theory Decode_Types
  imports Build_Types Decode_Cbor Decode_Json
begin

text \<open>
  Type preservation for both formats. JSON has no range hook; the hook of CBOR, RFC 8746 typed arrays, converts each
  element into the destination's element type and keeps the length of a fixed array.
\<close>

unbundle bit_operations_syntax

section \<open>Words of a typed array\<close>

text \<open>No bit at \<open>m\<close> or above.\<close>

definition below_bit :: "nat \<Rightarrow> u64 \<Rightarrow> bool" where
  "below_bit m w \<longleftrightarrow> (\<forall>n. bit w n \<longrightarrow> n < m)"

lemma below_bit_fits: "below_bit m w \<Longrightarrow> unsigned_fits m w"
proof -
  assume "below_bit m w"
  then have "take_bit m (uint w) = uint w"
    by (intro bit_eqI) (auto simp: bit_take_bit_iff below_bit_def bit_uint_iff)
  then show ?thesis using take_bit_int_less_exp [of m "uint w"] by (simp add: unsigned_fits_def)
qed

lemma below_bit_take: "below_bit m (take_bit m w)"
  by (simp add: below_bit_def bit_take_bit_iff)

lemma fold_below_bit:
  assumes "\<And>b. b \<in> set bs \<Longrightarrow> s b + 8 \<le> m" "below_bit m w"
  shows "below_bit m (foldl (\<lambda>w b. w OR push_bit (s b) (ucast (x b :: 8 word))) w bs)"
  using assms
proof (induction bs arbitrary: w)
  case (Cons b bs)
  have "below_bit m (w OR push_bit (s b) (ucast (x b)))"
    using Cons.prems(1) [of b] Cons.prems(2)
    by (auto simp: below_bit_def bit_or_iff bit_push_bit_iff bit_ucast_iff dest: bit_imp_le_length)
  with Cons show ?case by simp
qed simp

lemma read_word_below_bit: "below_bit (8 * esize) (read_word little esize bs i)"
  unfolding read_word_def by (rule fold_below_bit) (auto simp: below_bit_def)

lemma sign_extend_fits:
  assumes "below_bit (8 * k) w" "k \<le> 8"
  shows "signed_fits (8 * k) (sign_extend k w)"
proof (cases k)
  case 0
  with assms(1) have "w = 0" by (intro bit_eqI) (simp add: below_bit_def)
  with 0 show ?thesis by (simp add: signed_fits_def sign_extend_def)
next
  case (Suc j)
  define m where "m = 8 * k - 1"
  have m: "8 * k = Suc m" "m \<le> 63" using Suc assms(2) by (simp_all add: m_def)
  have "w AND push_bit m 1 \<noteq> 0 \<longleftrightarrow> bit w m"
    by (simp add: push_bit_eq_mult and_exp_eq_0_iff_not_bit)
  moreover have "push_bit 1 (push_bit m 1) - 1 = (mask (Suc m) :: u64)"
    by (simp add: mask_eq_exp_minus_1 push_bit_eq_mult)
  ultimately have "sign_extend k w = (if bit w m then w OR NOT (mask (Suc m)) else w)"
    by (simp only: sign_extend_def Let_def m_def [symmetric])
  then have b: "bit (sign_extend k w) n \<longleftrightarrow> n < 64 \<and> (bit w n \<or> bit w m \<and> m < n)" for n
    using assms(1) m(1) by (auto simp: bit_or_iff bit_not_iff bit_mask_iff below_bit_def less_Suc_eq_le dest: bit_imp_le_length)
  have "sint (sign_extend k w) = signed_take_bit m (uint w)"
  proof (rule bit_eqI)
    fix n
    have le: "bit w n \<Longrightarrow> n \<le> m" for n using assms(1) m(1) by (auto simp: below_bit_def)
    have "m < 63 \<or> m = 63" using m(2) by linarith
    moreover have "\<not> bit w j" if "m < j" for j using le [of j] that by linarith
    ultimately show "bit (sint (sign_extend k w)) n \<longleftrightarrow> bit (signed_take_bit m (uint w)) n"
      by (cases n m rule: linorder_cases) (auto simp: bit_sint_iff b bit_signed_take_bit_iff bit_uint_iff min_def)
  qed
  then show ?thesis
    using signed_take_bit_int_greater_eq_minus_exp [of m "uint w"] signed_take_bit_int_less_exp [of m "uint w"]
    by (simp add: signed_fits_def m(1))
qed

section \<open>Elements\<close>

definition image_ok :: "num_type \<Rightarrow> u64 \<Rightarrow> bool" where
  "image_ok E w \<longleftrightarrow> (case E of n_int sg k \<Rightarrow> below_bit (8 * k) w | _ \<Rightarrow> True)"

lemma image_ok_zero [simp]: "image_ok E 0"
  by (simp add: image_ok_def below_bit_def split: num_type.split)

lemma elem_value_typed:
  assumes "range_elem t = Some (E, d)" "wf_type t" "image_ok E w"
  shows "has_type t (elem_value E w)"
proof (cases t)
  case (dt_uint b d')
  with assms have "unsigned_fits (8 * (b div 8)) w" by (auto simp: range_elem_def image_ok_def below_bit_fits)
  moreover have "(2::int) ^ (8 * (b div 8)) \<le> 2 ^ b" by (intro power_increasing) auto
  ultimately have "unsigned_fits b w" unfolding unsigned_fits_def by linarith
  with dt_uint assms(1) show ?thesis by (auto simp: range_elem_def elem_value_def)
next
  case (dt_sint b d')
  with assms have "signed_fits (8 * (b div 8)) (sign_extend (b div 8) w)"
    by (intro sign_extend_fits) (auto simp: range_elem_def image_ok_def)
  moreover have "(2::int) ^ (8 * (b div 8) - 1) \<le> 2 ^ (b - 1)" by (intro power_increasing) auto
  ultimately have "signed_fits b (sign_extend (b div 8) w)" unfolding signed_fits_def by linarith
  with dt_sint assms(1) show ?thesis by (auto simp: range_elem_def elem_value_def)
qed (use assms(1) in \<open>auto simp: range_elem_def elem_value_def split: if_splits\<close>)

text \<open>What is in the range before the call has the type already.\<close>

lemma elem_image_typed:
  assumes "range_elem t = Some (E, d)" "wf_type t" "has_type t v"
  shows "has_type t (elem_value E (elem_image E v))"
proof (cases t)
  case (dt_sint b d')
  with assms(1,3) obtain i where v: "v = v_sint i" "E = n_int True (b div 8)"
    by (auto simp: range_elem_def split: cval.splits)
  then have "image_ok E (elem_image E v)" by (simp add: elem_image_def image_ok_def below_bit_take)
  from elem_value_typed [OF assms(1,2) this] show ?thesis .
qed (use assms in \<open>auto simp: range_elem_def elem_value_def elem_image_def split: if_splits cval.splits\<close>)

lemma convert_element_ok: "convert_element E d tag p w = Inr v \<Longrightarrow> image_ok E v"
  by (cases E) (auto simp: convert_element_def image_ok_def below_bit_take Let_def split: if_splits)

lemma convert_loop_keeps:
  assumes "convert_loop E d tag p bs js dst = (st, dst')" "\<And>w. image_ok E w \<Longrightarrow> P w" "\<forall>w\<in>set dst. P w"
  shows "length dst' = length dst \<and> (\<forall>w\<in>set dst'. P w)"
  using assms(1,3)
proof (induction js arbitrary: dst)
  case (Cons i js)
  show ?case
  proof (cases "convert_element E d tag p (read_word (ta_little tag) (ta_size tag) bs i)")
    case (Inl e)
    with Cons.prems show ?thesis by simp
  next
    case (Inr v)
    have "\<forall>w\<in>set (dst[i := v]). P w"
      using Cons.prems(2) assms(2) [OF convert_element_ok [OF Inr]] set_update_subset_insert [of dst i v] by blast
    from Cons.IH [OF _ this] Cons.prems(1) Inr show ?thesis by simp
  qed
qed simp

lemma typed_array_into_keeps:
  assumes "typed_array_into E d resizable tag bs dst p = (st, dst')" "\<And>w. image_ok E w \<Longrightarrow> P w" "\<forall>w\<in>set dst. P w"
  shows "(\<not> resizable \<longrightarrow> length dst' = length dst) \<and> (\<forall>w\<in>set dst'. P w)"
proof -
  have word: "image_ok E (read_word l (n_size E) bs i)" for l i
    using read_word_below_bit by (cases E) (auto simp: image_ok_def)
  define n where "n = length bs div ta_size tag"
  define dst1 where "dst1 = (if resizable then replicate n 0 else dst)"
  have one: "\<forall>w\<in>set dst1. P w" "\<not> resizable \<longrightarrow> length dst1 = length dst"
    using assms(2) [of 0] assms(3) by (simp_all add: dst1_def)
  from assms(1) consider "dst' = dst"
    | "\<not> resizable \<longrightarrow> length dst = n" "dst' = map (read_word native_little (n_size E) bs) [0..<n]"
    | "convert_loop E d tag p bs [0..<n] dst1 = (st, dst')"
    by (auto simp: typed_array_into_def Let_def n_def dst1_def split: if_splits)
  then show ?thesis
  proof cases
    case 2
    with word assms(2) show ?thesis by auto
  next
    case 3
    from convert_loop_keeps [OF this assms(2) one(1)] one(2) show ?thesis by simp
  qed (use assms(3) in simp)
qed

lemma read_range_keeps:
  assumes "read_range opts E d resizable dst r = ((res, r'), dst')" "\<And>w. image_ok E w \<Longrightarrow> P w" "\<forall>w\<in>set dst. P w"
  shows "(\<not> resizable \<longrightarrow> length dst' = length dst) \<and> (\<forall>w\<in>set dst'. P w)"
  using assms(1,3) typed_array_into_keeps [OF _ assms(2)]
  by (fastforce simp: read_range_def split: if_splits prod.splits sum.splits)

section \<open>The range hooks\<close>

definition element_type :: "dtype \<Rightarrow> dtype option" where
  "element_type t = (case t of dt_array n im u \<Rightarrow> Some u | dt_sequence ct u \<Rightarrow> Some u | _ \<Rightarrow> None)"

lemma cbor_range_typed:
  assumes "cbor_read_range opts t = Some f" "wf_type t" "has_type t out" "f out r = (res, v, r')"
  shows "has_type t v"
proof -
  obtain E d resizable where rd: "range_dest t = Some (E, d, resizable)"
    using assms(1) by (auto simp: cbor_read_range_def split: option.splits)
  obtain images where im: "read_range opts E d resizable (map (elem_image E) (elems_of out)) r = ((res, r'), images)"
    "v = (if res = Inr False then out else into_range t (map (elem_value E) images))"
    using assms(1,4) rd by (auto simp: cbor_read_range_def split: prod.splits)
  define P where "P w \<longleftrightarrow> (\<forall>u. element_type t = Some u \<longrightarrow> has_type u (elem_value E w))" for w
  have elem: "range_elem u = Some (E, d) \<and> wf_type u" if "element_type t = Some u" for u
    using that rd assms(2) by (auto simp: element_type_def range_dest_def split: dtype.splits if_splits)
  have P: "P w" if "image_ok E w" for w
    using elem elem_value_typed that by (auto simp: P_def)
  have "\<forall>w\<in>set (map (elem_image E) (elems_of out)). P w"
    using assms(3) elem elem_image_typed
    by (fastforce simp: P_def element_type_def elems_of_def split: dtype.splits cval.splits)
  from read_range_keeps [OF im(1) P this]
  have images: "\<not> resizable \<longrightarrow> length images = length (elems_of out)" "\<forall>w\<in>set images. P w" by simp_all
  have "has_type t (into_range t (map (elem_value E) images))"
    using rd images assms(3)
    by (auto simp: range_dest_def into_range_def P_def element_type_def elems_of_def split: dtype.splits cval.splits byte_dest.splits if_splits)
  with assms(3) im(2) show ?thesis by simp
qed

lemma cbor_ranges_fill: "ranges_fill (cbor_reader opts user)"
  using cbor_range_typed by (fastforce simp: ranges_fill_def)

lemma json_ranges_fill: "ranges_fill (json_reader opts user)"
  by (simp add: ranges_fill_def)

section \<open>Decoding keeps the type\<close>

text \<open>C7. Decoding never breaks the type of its destination: for any octets, options and number of rounds, in fail-fast and in
  collect mode, whether it succeeds or stops at an error, decoding CBOR into a value of a type leaves a value of that type.
  Integers and enums have the width and signedness of their type, however they were encoded, typed arrays included; a
  fixed array keeps its length, a class one member of the right type per field; a variant holds one of its alternatives;
  map keys are in range. The codecs user code attaches to members have to keep the type of what they fill.\<close>

theorem cbor_decode_typed:
  assumes "wf_type t" "member_codecs_fill (cbor_reader opts user) t" "has_type t out"
    "decode_root (cbor_reader opts user) n t out r = Some ((st, v), r')"
  shows "has_type t v"
  by (rule decode_root_typed [OF cbor_ranges_fill assms])

lemma json_decode_typed:
  assumes "wf_type t" "member_codecs_fill (json_reader opts user) t" "has_type t out"
    "decode_root (json_reader opts user) n t out r = Some ((st, v), r')"
  shows "has_type t v"
  by (rule decode_root_typed [OF json_ranges_fill assms])

text \<open>An array of two octets, the second of which is out of range in the input.\<close>

definition two_octets :: dtype where
  "two_octets = dt_array 2 (\<lambda>vs. None) (dt_uint 8 ''std::uint8_t'')"

theorem cbor_decode_typed_witness:
  "\<exists>e v r'. decode_root (cbor_reader default_options (null_codecs default_options)) 6 two_octets (initial_value two_octets)
      (new_reader [0x82, 0x07, 0x19, 0x01, 0x2C]) = Some ((Inl e, v), r') \<and> code e = out_of_range \<and> has_type two_octets v"
proof -
  let ?ops = "cbor_reader default_options (null_codecs default_options)"
  let ?m = "decode_root ?ops 6 two_octets (initial_value two_octets) (new_reader [0x82, 0x07, 0x19, 0x01, 0x2C])"
  have "case ?m of Some ((Inl e, v), r') \<Rightarrow> code e = out_of_range | _ \<Rightarrow> False" by code_simp
  then obtain e v r' where m: "?m = Some ((Inl e, v), r')" "code e = out_of_range"
    by (auto split: option.splits prod.splits sum.splits)
  have t: "wf_type two_octets" "member_codecs_fill ?ops two_octets" "has_type two_octets (initial_value two_octets)"
    by (simp_all add: two_octets_def member_codecs_fill_def unsigned_fits_def)
  from cbor_decode_typed [OF t m(1)] m show ?thesis by blast
qed

end
