(* ===== verification/Read_Back.thy ===== *)
theory Read_Back
  imports Decode_Cbor Cbor_Encode
begin

text \<open>
  What the reader's operations do where an encoding stands: the head \<^verbatim>\<open>make_head\<close> wrote, a text string, a byte string,
  the elements of a container. \<open>ahead bs r\<close> says the octets \<open>bs\<close> are next, \<open>past k r r'\<close> that the reader has moved over
  \<open>k\<close> octets and nothing else has changed but its scratch buffers.
\<close>

section \<open>The place of an encoding\<close>

definition ahead :: "bytes \<Rightarrow> creader \<Rightarrow> bool" where
  "ahead bs r \<longleftrightarrow> r_pending r = None \<and> (\<exists>rest. drop (r_pos r) (r_in r) = bs @ rest)"

definition past :: "nat \<Rightarrow> creader \<Rightarrow> creader \<Rightarrow> bool" where
  "past k r r' \<longleftrightarrow> r_in r' = r_in r \<and> r_pos r' = r_pos r + k \<and> r_depth r' = r_depth r \<and> r_pending r' = None
     \<and> r_collected r' = r_collected r"

lemma past_trans: "past j r r' \<Longrightarrow> past k r' r'' \<Longrightarrow> past (j + k) r r''"
  by (simp add: past_def)

lemma past_zero: "r_pending r = None \<Longrightarrow> past 0 r r"
  by (simp add: past_def)

lemma ahead_first: "ahead (a @ b) r \<Longrightarrow> ahead a r"
  by (auto simp: ahead_def)

lemma ahead_rest: "ahead (a @ b) r \<Longrightarrow> past (length a) r r' \<Longrightarrow> ahead b r'"
proof -
  assume a: "ahead (a @ b) r" "past (length a) r r'"
  then obtain rest where rest: "drop (r_pos r) (r_in r) = a @ b @ rest" by (auto simp: ahead_def)
  have "drop (r_pos r + length a) (r_in r) = b @ rest"
    by (metis rest append_eq_conv_conj drop_drop add.commute)
  with a(2) show "ahead b r'" by (auto simp: ahead_def past_def)
qed

lemma ahead_bound: "ahead bs r \<Longrightarrow> bs \<noteq> [] \<Longrightarrow> r_pos r < length (r_in r)"
  by (auto simp: ahead_def intro: ccontr)

lemma ahead_length: "ahead bs r \<Longrightarrow> bs \<noteq> [] \<Longrightarrow> r_pos r + length bs \<le> length (r_in r)"
proof -
  assume "ahead bs r" "bs \<noteq> []"
  then obtain rest where "drop (r_pos r) (r_in r) = bs @ rest" "r_pos r < length (r_in r)"
    using ahead_bound by (auto simp: ahead_def)
  from this(1) have "length (r_in r) - r_pos r = length bs + length rest" by (metis length_append length_drop)
  with \<open>r_pos r < length (r_in r)\<close> show ?thesis by simp
qed

text \<open>Scratch buffers and the start of the value do not matter.\<close>

lemma ahead_irrelevant [simp]:
  "ahead bs (r\<lparr>r_start := p\<rparr>) = ahead bs r" "ahead bs (r\<lparr>text_scratch := s\<rparr>) = ahead bs r"
  "ahead bs (r\<lparr>bytes_scratch := s\<rparr>) = ahead bs r" "ahead bs (r\<lparr>r_depth := d\<rparr>) = ahead bs r"
  "ahead bs (r\<lparr>r_collected := es\<rparr>) = ahead bs r"
  by (simp_all add: ahead_def)

section \<open>Heads\<close>

lemma ahead_head:
  assumes "ahead (make_head m v @ ys) r"
  shows "parse_head (r_in r) (r_pos r) = \<lparr>mt = m, ai = head_ai v, head_value = v, indefinite = False,
    head_length = length (make_head m v), reserved = False, is_break = False\<rparr>"
proof -
  from assms obtain rest where "drop (r_pos r) (r_in r) = make_head m v @ ys @ rest" by (auto simp: ahead_def)
  then show ?thesis by (subst parse_head_drop) (simp add: parse_make_head_aux)
qed

definition head_of :: "major \<Rightarrow> u64 \<Rightarrow> parsed_head" where
  "head_of m v = \<lparr>mt = m, ai = head_ai v, head_value = v, indefinite = False, head_length = length (make_head m v),
     reserved = False, is_break = False\<rparr>"

lemma head_of_simps [simp]:
  "mt (head_of m v) = m" "ai (head_of m v) = head_ai v" "head_value (head_of m v) = v" "\<not> indefinite (head_of m v)"
  "head_length (head_of m v) = length (make_head m v)" "\<not> reserved (head_of m v)" "\<not> is_break (head_of m v)"
  by (simp_all add: head_of_def)

text \<open>A reader that does not require determinism takes any head but a tag's and a small simple value's.\<close>

lemma item_head_ahead:
  assumes "ahead (make_head m v @ ys) r" "m \<noteq> major_tag" "m = major_simple \<longrightarrow> v < 24" "\<not> o_require_deterministic opts"
  shows "item_head opts expctd r = (Inr (head_of m v), r\<lparr>r_start := r_pos r\<rparr>)"
proof -
  have p: "r_pending r = None" using assms(1) by (simp add: ahead_def)
  have b: "r_pos r < length (r_in r)" using ahead_bound [OF assms(1)] by simp
  have "\<not> (m = major_simple \<and> head_ai v = 24 \<and> v < 32)"
    using assms(3) small_ucast [of v] by (auto simp: head_ai_def word_less_nat_alt)
  then have "item_head_from opts expctd (r_in r) (r_pos r) = Inr (head_of m v, r_pos r)"
    using b assms(2,4) by (subst item_head_from.simps)
      (simp add: ahead_head [OF assms(1)] head_of_def Let_def error_if_def)
  then show ?thesis by (simp add: item_head_def take_pending_def p)
qed

lemma raw_head_ahead:
  assumes "ahead (make_head m v @ ys) r"
  shows "raw_head r = (Inr (head_of m v), r)"
proof -
  have "r_pending r = None" "r_pos r < length (r_in r)"
    using assms ahead_bound [OF assms] by (simp_all add: ahead_def)
  then show ?thesis
    by (simp add: raw_head_def take_pending_def ahead_head [OF assms] head_of_def r_size_def Let_def)
qed

lemma peek_ahead:
  "ahead (make_head m v @ ys) r \<Longrightarrow> m \<noteq> major_tag \<Longrightarrow> peek opts r = (case m of
     major_uint \<Rightarrow> kind_uint | major_nint \<Rightarrow> kind_sint | major_bytes \<Rightarrow> kind_bytes | major_text \<Rightarrow> kind_text
   | major_array \<Rightarrow> kind_array | major_map \<Rightarrow> kind_map
   | _ \<Rightarrow> if head_ai v = 20 \<or> head_ai v = 21 then kind_boolean else if head_ai v = 22 then kind_null
          else if head_ai v = 23 then (if o_undefined_as_null opts then kind_null else kind_undefined)
          else if 25 \<le> head_ai v \<and> head_ai v \<le> 27 then kind_real else kind_undefined)"
  by (auto simp: peek_def ahead_head peek_from.simps [of opts "r_in r" "r_pos r"] Let_def split: major.split)

text \<open>The head of a floating-point number, with the number's octets as argument.\<close>

definition float_head :: "u8 \<Rightarrow> bytes \<Rightarrow> parsed_head" where
  "float_head a arg = \<lparr>mt = major_simple, ai = a, head_value = be_value arg, indefinite = False, head_length = 1 + length arg,
     reserved = False, is_break = False\<rparr>"

definition float_octets :: "u8 \<Rightarrow> bytes \<Rightarrow> bytes" where
  "float_octets a arg = lead major_simple a # arg"

definition float_width_ok :: "u8 \<Rightarrow> bytes \<Rightarrow> bool" where
  "float_width_ok a arg \<longleftrightarrow> (a = 25 \<or> a = 26 \<or> a = 27) \<and> length arg = arg_octets a"

lemma ahead_float:
  assumes "ahead (float_octets a arg @ ys) r" "float_width_ok a arg"
  shows "parse_head (r_in r) (r_pos r) = float_head a arg"
proof -
  from assms(1) obtain rest where d: "drop (r_pos r) (r_in r) = lead major_simple a # arg @ ys @ rest"
    by (auto simp: ahead_def float_octets_def)
  have "a < 28" "\<not> a < 24" using assms(2) by (auto simp: float_width_ok_def)
  with parse_head_lead [of a arg major_simple "ys @ rest"] assms(2) show ?thesis
    by (subst parse_head_drop) (simp add: d float_head_def float_width_ok_def)
qed

lemma item_head_float:
  assumes "ahead (float_octets a arg @ ys) r" "float_width_ok a arg" "\<not> o_require_deterministic opts"
  shows "item_head opts expctd r = (Inr (float_head a arg), r\<lparr>r_start := r_pos r\<rparr>)"
proof -
  have p: "r_pending r = None" using assms(1) by (simp add: ahead_def)
  have b: "r_pos r < length (r_in r)" using ahead_bound [OF assms(1)] by (simp add: float_octets_def)
  have "a \<noteq> 24" using assms(2) by (auto simp: float_width_ok_def)
  then have "item_head_from opts expctd (r_in r) (r_pos r) = Inr (float_head a arg, r_pos r)"
    using b assms(3) by (subst item_head_from.simps)
      (simp add: ahead_float [OF assms(1,2)] float_head_def Let_def error_if_def)
  then show ?thesis by (simp add: item_head_def take_pending_def p)
qed

lemma raw_head_float:
  assumes "ahead (float_octets a arg @ ys) r" "float_width_ok a arg"
  shows "raw_head r = (Inr (float_head a arg), r)"
proof -
  have "r_pending r = None" "r_pos r < length (r_in r)"
    using assms(1) ahead_bound [OF assms(1)] by (simp_all add: ahead_def float_octets_def)
  then show ?thesis
    by (simp add: raw_head_def take_pending_def ahead_float [OF assms] float_head_def r_size_def Let_def)
qed

lemma peek_float:
  "ahead (float_octets a arg @ ys) r \<Longrightarrow> float_width_ok a arg \<Longrightarrow> peek opts r = kind_real"
  by (auto simp: peek_def ahead_float peek_from.simps [of opts "r_in r" "r_pos r"] Let_def float_head_def float_width_ok_def)

section \<open>Operations that read an encoding back\<close>

definition reads :: "(creader \<Rightarrow> 'a read) \<Rightarrow> bytes \<Rightarrow> 'a \<Rightarrow> bool" where
  "reads f bs x \<longleftrightarrow> (\<forall>r. ahead bs r \<longrightarrow> (\<exists>r'. f r = (Inr x, r') \<and> past (length bs) r r'))"

lemma readsD: "reads f bs x \<Longrightarrow> ahead bs r \<Longrightarrow> \<exists>r'. f r = (Inr x, r') \<and> past (length bs) r r'"
  by (simp add: reads_def)

lemma past_consumed:
  "ahead bs r \<Longrightarrow> past k r (r_advance k (r\<lparr>r_start := p\<rparr>))"
  by (simp add: ahead_def past_def r_advance_def)

lemma expect_uint_reads:
  "\<not> o_require_deterministic opts \<Longrightarrow> reads (expect_uint opts) (make_head major_uint u) u"
  unfolding reads_def
proof (intro allI impI)
  fix r assume "\<not> o_require_deterministic opts" and a: "ahead (make_head major_uint u) r"
  with item_head_ahead [of major_uint u "[]" r opts "''unsigned integer''"] past_consumed [OF a]
  show "\<exists>r'. expect_uint opts r = (Inr u, r') \<and> past (length (make_head major_uint u)) r r'"
    by (simp add: expect_uint_def consume_def)
qed

lemma expect_null_reads: "\<not> o_require_deterministic opts \<Longrightarrow> reads (expect_null opts) (make_head major_simple 22) ()"
  unfolding reads_def
proof (intro allI impI)
  fix r assume "\<not> o_require_deterministic opts" and a: "ahead (make_head major_simple 22) r"
  moreover have "head_ai 22 = 22" by (simp add: head_ai_def)
  ultimately show "\<exists>r'. expect_null opts r = (Inr (), r') \<and> past (length (make_head major_simple 22)) r r'"
    using item_head_ahead [of major_simple 22 "[]" r opts "''null''"] past_consumed [OF a]
    by (simp add: expect_null_def consume_def)
qed

lemma expect_boolean_reads:
  "\<not> o_require_deterministic opts \<Longrightarrow> reads (expect_boolean opts) (make_head major_simple (if b then 21 else 20)) b"
  unfolding reads_def
proof (intro allI impI)
  fix r assume "\<not> o_require_deterministic opts" and a: "ahead (make_head major_simple (if b then 21 else 20)) r"
  moreover have "head_ai (if b then 21 else 20) = (if b then 21 else 20)" by (simp add: head_ai_def)
  ultimately show "\<exists>r'. expect_boolean opts r = (Inr b, r') \<and> past (length (make_head major_simple (if b then 21 else 20))) r r'"
    using item_head_ahead [of major_simple "if b then 21 else 20" "[]" r opts "''boolean''"] past_consumed [OF a]
    by (simp add: expect_boolean_def consume_def)
qed

lemma expect_real_reads:
  assumes "\<not> o_require_deterministic opts" "float_width_ok a arg"
  shows "reads (expect_real opts) (float_octets a arg) (float_value (float_head a arg))"
  unfolding reads_def
proof (intro allI impI)
  fix r assume a: "ahead (float_octets a arg) r"
  have "25 \<le> a" "a \<le> 27" using assms(2) by (auto simp: float_width_ok_def)
  with a item_head_float [of a arg "[]" r opts "''float''"] assms past_consumed [OF a]
  show "\<exists>r'. expect_real opts r = (Inr (float_value (float_head a arg)), r') \<and> past (length (float_octets a arg)) r r'"
    by (simp add: expect_real_def consume_def float_head_def float_octets_def error_if_def)
qed

text \<open>What \<^verbatim>\<open>write_real\<close> writes of a number that is not a NaN, in its shortest exact width or as a double, has that number
  as its value.\<close>

lemma write_real_float:
  assumes "write_real d wd = Inr bs" "wd = width_preferred \<or> wd = width_double" "\<not> is_nan d"
  shows "\<exists>a arg. bs = float_octets a arg \<and> float_width_ok a arg \<and> float_value (float_head a arg) = d"
proof -
  have l: "lead major_simple 25 = 0xF9" "lead major_simple 26 = 0xFA" "lead major_simple 27 = 0xFB" by code_simp+
  have h: "unat (ucast h :: u64) < 256 ^ 2" for h :: u16
    using uint_lt2p [of h] by (simp add: unat_eq_nat_uint uint_up_ucast is_up nat_less_iff del: nat_uint_eq)
  have s: "unat (ucast f :: u64) < 256 ^ 4" for f :: u32
    using uint_lt2p [of f] by (simp add: unat_eq_nat_uint uint_up_ucast is_up nat_less_iff del: nat_uint_eq)
  have w: "unat (d :: u64) < 256 ^ 8" using unsigned_less [of d] by simp
  have ucast: "(ucast (ucast (h :: u16) :: u64) :: u16) = h" "(ucast (ucast (f :: u32) :: u64) :: u32) = f" for h f
    by (simp_all add: ucast_down_ucast_id is_down)
  have bv: "be_value (be_bytes 2 (ucast (h :: u16))) = ucast h" "be_value (be_bytes 4 (ucast (f :: u32))) = ucast f"
    "be_value (be_bytes 8 d) = d" for h f
    by (rule be_value_be_bytes; use h s w in simp)+
  consider k where "to_half d = Some k" "bs = 0xF9 # be16 k" | "fits_single d" "bs = 0xFA # be32 (to_float d)" | "bs = 0xFB # be64 d"
    using assms(1,2) by (auto simp: write_real_def split: option.splits if_splits)
  then show ?thesis
  proof cases
    case (1 k)
    then have "from_half k = d" using to_half_iff [OF assms(3)] by simp
    with 1 show ?thesis
      by (intro exI [of _ 25] exI [of _ "be16 k"])
        (simp add: float_octets_def l float_width_ok_def be16_def arg_octets_def float_head_def float_value_def bv ucast)
  next
    case 2
    then have "from_float (to_float d) = d" using fits_single_exact [OF assms(3)] by simp
    with 2 show ?thesis
      by (intro exI [of _ 26] exI [of _ "be32 (to_float d)"])
        (simp add: float_octets_def l float_width_ok_def be32_def arg_octets_def float_head_def float_value_def bv ucast)
  next
    case 3
    then show ?thesis
      by (intro exI [of _ 27] exI [of _ "be64 d"])
        (simp add: float_octets_def l float_width_ok_def be64_def arg_octets_def float_head_def float_value_def bv)
  qed
qed

lemma sint_bounds: "- (2 ^ 63) \<le> sint (i :: u64)" "sint (i :: u64) < 2 ^ 63"
  using sint_greater_eq [of i] sint_less [of i] by simp_all

lemma uint_of_sint: "0 \<le> sint (i :: u64) \<Longrightarrow> uint i = sint i" "sint (i :: u64) < 0 \<Longrightarrow> uint (- 1 - i) = - 1 - sint i"
proof -
  have i: "i = word_of_int (sint i)" by simp
  show "uint i = sint i" if "0 \<le> sint i"
    using that sint_bounds(2) [of i] by (subst i, subst uint_word_of_int) simp
  have "- 1 - i = word_of_int (- 1 - sint i)" by simp
  then show "uint (- 1 - i) = - 1 - sint i" if "sint i < 0"
    using that sint_bounds(1) [of i] by (simp only: uint_word_of_int) simp
qed

text \<open>A signed integer is a head of major type 0, or of major type 1 with \<open>-1 - n\<close>.\<close>

lemma expect_sint_reads:
  assumes "\<not> o_require_deterministic opts"
  shows "reads (expect_sint opts) (if 0 \<le> sint i then make_head major_uint i else make_head major_nint (- 1 - i)) i"
  unfolding reads_def
proof (intro allI impI)
  fix r assume a: "ahead (if 0 \<le> sint i then make_head major_uint i else make_head major_nint (- 1 - i)) r"
  have small: "\<not> int64_max < i" if "0 \<le> sint i"
    using uint_of_sint(1) [OF that] sint_bounds(2) [of i] by (simp add: int64_max_def word_less_def)
  have neg: "\<not> int64_max < - 1 - i" if "\<not> 0 \<le> sint i"
    using uint_of_sint(2) [of i] that sint_bounds(1) [of i] by (simp add: int64_max_def word_less_def)
  show "\<exists>r'. expect_sint opts r = (Inr i, r')
      \<and> past (length (if 0 \<le> sint i then make_head major_uint i else make_head major_nint (- 1 - i))) r r'"
    using item_head_ahead [of major_uint i "[]" r opts "''integer''"] item_head_ahead [of major_nint "- 1 - i" "[]" r opts "''integer''"]
      past_consumed [OF a] a assms small neg
    by (cases "0 \<le> sint i") (simp_all add: expect_sint_def consume_def)
qed

section \<open>Strings\<close>

definition text_octets :: "string \<Rightarrow> bytes" where
  "text_octets t = make_head major_text (of_nat (length t)) @ bytes_of_string t"

lemma unat_of_nat_small: "n < 2 ^ 64 \<Longrightarrow> unat (of_nat n :: u64) = n"
  by (simp add: unat_of_nat)

text \<open>The octets after a head of a string's length.\<close>

lemma read_string_ahead:
  assumes "ahead (make_head m (of_nat (length bs)) @ bs) r" "length bs < 2 ^ 64"
  shows "read_string opts (head_of m (of_nat (length bs))) m' (r\<lparr>r_start := p\<rparr>) =
    ((Inr (bs, False), r_advance (length (make_head m (of_nat (length bs))) + length bs) (r\<lparr>r_start := p\<rparr>)), None)"
proof -
  let ?h = "make_head m (of_nat (length bs))"
  have n: "unat (of_nat (length bs) :: u64) = length bs" using assms(2) by (rule unat_of_nat_small)
  have len: "r_pos r + (length ?h + length bs) \<le> length (r_in r)"
    using ahead_length [OF assms(1)] by simp
  from assms(1) obtain rest where "drop (r_pos r) (r_in r) = (?h @ bs) @ rest" by (auto simp: ahead_def)
  then have "drop (r_pos r + length ?h) (r_in r) = bs @ rest"
    by (metis append.assoc append_eq_conv_conj drop_drop add.commute)
  then have "subspan (r_in r) (r_pos r + length ?h) (length bs) = bs" by (simp add: subspan_def)
  moreover have "\<not> too_long (head_of m (of_nat (length bs))) (r_in r) (r_pos r)"
    using len n by (simp add: too_long_def uint_nat del: unsigned_of_nat)
  ultimately show ?thesis using n by (simp add: read_string_def del: unsigned_of_nat length_make_head)
qed

lemma expect_text_reads:
  assumes "\<not> o_require_deterministic opts" "length t < 2 ^ 64" "o_validate_utf8 opts \<longrightarrow> validate_utf8 t = None"
  shows "reads (expect_text opts) (text_octets t) \<lparr>t_text = t, t_borrowed = True, t_raw_length = length (text_octets t)\<rparr>"
  unfolding reads_def
proof (intro allI impI)
  fix r assume a: "ahead (text_octets t) r"
  have i: "item_head opts ''text string'' r = (Inr (head_of major_text (of_nat (length t))), r\<lparr>r_start := r_pos r\<rparr>)"
    using a assms(1) unfolding text_octets_def by (intro item_head_ahead) simp_all
  have "read_string opts (head_of major_text (of_nat (length t))) major_text (r\<lparr>r_start := r_pos r\<rparr>) =
      ((Inr (bytes_of_string t, False), r_advance (length (text_octets t)) (r\<lparr>r_start := r_pos r\<rparr>)), None)"
    using read_string_ahead [of major_text "bytes_of_string t" r opts major_text "r_pos r"] a assms(2)
    by (simp add: text_octets_def)
  with i assms(3) past_consumed [OF a, of "length (text_octets t)" "r_pos r"]
  show "\<exists>r'. expect_text opts r = (Inr \<lparr>t_text = t, t_borrowed = True, t_raw_length = length (text_octets t)\<rparr>, r')
      \<and> past (length (text_octets t)) r r'"
    by (auto simp: expect_text_def error_if_def r_advance_def Let_def)
qed

lemma expect_bytes_reads:
  assumes "\<not> o_require_deterministic opts" "length bs < 2 ^ 64"
  shows "reads (expect_bytes opts) (make_head major_bytes (of_nat (length bs)) @ bs) \<lparr>b_bytes = bs, b_borrowed = True\<rparr>"
  unfolding reads_def
proof (intro allI impI)
  let ?bs = "make_head major_bytes (of_nat (length bs)) @ bs"
  fix r assume a: "ahead ?bs r"
  have i: "item_head opts ''byte string'' r = (Inr (head_of major_bytes (of_nat (length bs))), r\<lparr>r_start := r_pos r\<rparr>)"
    using a assms(1) by (intro item_head_ahead) simp_all
  with read_string_ahead [OF a assms(2), of opts major_bytes "r_pos r"] past_consumed [OF a, of "length ?bs" "r_pos r"]
  show "\<exists>r'. expect_bytes opts r = (Inr \<lparr>b_bytes = bs, b_borrowed = True\<rparr>, r') \<and> past (length ?bs) r r'"
    by (simp add: expect_bytes_def)
qed

section \<open>Containers\<close>

lemma expect_array_ahead:
  assumes "ahead (make_head major_array n @ ys) r" "\<not> o_require_deterministic opts" "r_depth r < o_max_depth opts"
  shows "\<exists>r'. expect_array opts r = (Inr (Some n), r') \<and> past (length (make_head major_array n)) (r\<lparr>r_depth := Suc (r_depth r)\<rparr>) r'"
  using item_head_ahead [OF assms(1), of opts "''array''"] assms(2,3) assms(1)
  by (simp add: expect_array_def enter_def past_def r_advance_def ahead_def)

lemma expect_map_ahead:
  assumes "ahead (make_head major_map n @ ys) r" "\<not> o_require_deterministic opts" "r_depth r < o_max_depth opts"
  shows "\<exists>r' c. expect_map opts r = (Inr c, r') \<and> c_remaining c = Some n
    \<and> past (length (make_head major_map n)) (r\<lparr>r_depth := Suc (r_depth r)\<rparr>) r'"
  using item_head_ahead [OF assms(1), of opts "''map''"] assms(2,3) assms(1)
  by (simp add: expect_map_def enter_def past_def r_advance_def ahead_def)

lemma seq_next_more:
  assumes "ahead bs r" "bs \<noteq> []" "0 < m" "m < 2 ^ 64"
  shows "seq_next (Some (of_nat m)) r = (Inr (True, Some (of_nat (m - 1))), r)"
  using assms ahead_bound [OF assms(1,2)] of_nat_u64_eq_0 [of m] of_nat_pred [of m]
  by (simp add: seq_next_def r_size_def)

lemma seq_next_done: "seq_next (Some 0) r = (Inr (False, Some 0), leave r)"
  by (simp add: seq_next_def)

lemma map_next_more:
  assumes "ahead bs r" "bs \<noteq> []" "0 < m" "m < 2 ^ 64" "c_remaining c = Some (of_nat m)" "\<not> o_require_deterministic opts"
  shows "map_next opts c r = (Inr (True, c\<lparr>c_remaining := Some (of_nat (m - 1))\<rparr>), r)"
  using assms ahead_bound [OF assms(1,2)] of_nat_u64_eq_0 [of m] of_nat_pred [of m]
  by (simp add: map_next_def key_ahead_def r_size_def)

lemma map_next_done: "c_remaining c = Some 0 \<Longrightarrow> map_next opts c r = (Inr (False, c), leave r)"
  by (simp add: map_next_def)

end
