(* ===== verification/Write_Read.thy ===== *)
theory Write_Read
  imports Decode_Types Encode_Formats Read_Back
begin

text \<open>
  The pieces of a round trip through CBOR: what \<^verbatim>\<open>core/traverse.hpp\<close> writes of an array, a map or an object through
  \<^verbatim>\<open>cbor/write.hpp\<close>, in octets, and that the loops of \<^verbatim>\<open>core/build.hpp\<close> read each of these back through \<^verbatim>\<open>cbor/read.hpp\<close>
  when their elements are read back. The types (\<open>plain_type\<close>) are booleans, characters, integers, reals, enums written as
  integers, strings, octets, optionals that are not directly in an optional, tuples, arrays, sequences, maps with text keys
  and classes with named members. Outside are variants, nested optionals (which collapse on the wire), custom codecs, enums
  written as text, integer keys, tags, typed arrays, indefinite lengths, pinned float widths and skipped members.
\<close>

section \<open>Types and values\<close>

text \<open>A member whose annotations change nothing but names: no codec, tag, typed array, indefinite length, pinned
  float width, or enum written as text.\<close>

definition plain_field :: "field_meta \<Rightarrow> bool" where
  "plain_field F \<longleftrightarrow> fm_codec F = None \<and> \<not> has_annotation ann_indefinite (fm_annotations F)
     \<and> \<not> has_annotation ann_typed_array (fm_annotations F) \<and> expected_tags (fm_annotations F) False None = []
     \<and> find_annotation float_width_of_ann (fm_annotations F) = None \<and> \<not> has_annotation ann_as_text (fm_annotations F)"

definition plain_class :: "rclass \<Rightarrow> bool" where
  "plain_class c \<longleftrightarrow> ti_ok (build_type_info c) \<and> \<not> ti_transparent (build_type_info c)
     \<and> expected_tags [] False (Some (type_annotations_of c)) = []
     \<and> length (concat (map wire_names (build_schema c))) < 2 ^ 32
     \<and> (\<forall>f\<in>set (build_fields c). plain_field f \<and> cbor_integer_key f = None \<and> validate_utf8 (wire_name (fm_info f)) = None
          \<and> \<not> fi_skip_serializing (fm_info f) \<and> \<not> fi_skip_deserializing (fm_info f))"

text \<open>A class of the round trip has a usable schema, is neither transparent nor tagged, and all its members are such
  fields, with text keys in valid UTF-8, written and read.\<close>

text \<open>The types of the round trip. An enum is one that CBOR writes as an integer; its enumerators fit its underlying type.
  A sequence can be sized, is cleared before reading and appended to; a map likewise, with strings for keys.\<close>

fun plain_type :: "dtype \<Rightarrow> bool" where
  "plain_type dt_bool = True"
| "plain_type dt_char = True"
| "plain_type (dt_uint b d) = True"
| "plain_type (dt_sint b d) = True"
| "plain_type (dt_real single) = True"
| "plain_type (dt_enum e sg b d) = (enum_encodes_as_integer e [] True \<and> 0 < b \<and> b \<le> 64
     \<and> (\<forall>x\<in>set (build_enum_schema e). to_underlying sg b (ei_value x) = ei_value x))"
| "plain_type (dt_string view d) = True"
| "plain_type (dt_optional t) = (plain_type t \<and> optional_type t = None)"
| "plain_type (dt_span d) = True"
| "plain_type (dt_byte_range be dest d) = be"
| "plain_type (dt_map mc d kt t) = (plain_type t \<and> mc_clears mc \<and> mc_sized mc \<and> (case kt of mkt_string view \<Rightarrow> True | _ \<Rightarrow> False))"
| "plain_type (dt_tuple ts) = (\<forall>t\<in>set ts. plain_type t)"
| "plain_type (dt_array k im t) = plain_type t"
| "plain_type (dt_sequence ct t) = (plain_type t \<and> ct_clears ct \<and> ct_sized ct \<and> (\<forall>vs v. ct_append ct vs v = vs @ [v]))"
| "plain_type (dt_class c ts vs) = ((\<forall>t\<in>set ts. plain_type t) \<and> plain_class c)"
| "plain_type _ = False"

text \<open>A value all of whose members are written, whose real numbers are not NaNs and are exact in their type, whose
  enumerators are declared and not skipped, and whose maps come out the same when their entries are inserted in the
  order in which they are written: their own, or, if the writer sorts them, any.\<close>

definition insert_all :: "map_container \<Rightarrow> (map_key_val \<times> cval) list \<Rightarrow> (map_key_val \<times> cval) list \<Rightarrow> (map_key_val \<times> cval) list" where
  "insert_all mc es acc = fold (\<lambda>e acc. mc_insert mc acc e) es acc"

definition in_order :: "bool \<Rightarrow> map_container \<Rightarrow> (map_key_val \<times> cval) list \<Rightarrow> bool" where
  "in_order sorting mc es \<longleftrightarrow> distinct (map fst es)
     \<and> (\<forall>es'. mset es' = mset es \<longrightarrow> (\<not> sorting \<longrightarrow> es' = es) \<longrightarrow> insert_all mc es' [] = es)"

fun regular :: "bool \<Rightarrow> 's Core_Traverse.engine \<Rightarrow> dtype \<Rightarrow> cval \<Rightarrow> bool" where
  "regular sorting eng (dt_real single) v = (case v of v_real x \<Rightarrow> \<not> is_nan x \<and> (single \<longrightarrow> fits_single x) | _ \<Rightarrow> True)"
| "regular sorting eng (dt_enum e sg b d) v = (case v of v_enum e' sg' i \<Rightarrow>
     i \<in> ei_value ` set (build_enum_schema e) \<and> (\<forall>x\<in>set (build_enum_schema e). ei_value x = i \<longrightarrow> \<not> ei_skipped x) | _ \<Rightarrow> True)"
| "regular sorting eng (dt_optional t) v = (case v of v_optional (Some w) \<Rightarrow> regular sorting eng t w | _ \<Rightarrow> True)"
| "regular sorting eng (dt_map mc d kt t) v =
     (case v of v_map sized es \<Rightarrow> in_order sorting mc es \<and> (\<forall>(k, w)\<in>set es. regular sorting eng t w) | _ \<Rightarrow> True)"
| "regular sorting eng (dt_tuple ts) v = (case v of v_tuple vs \<Rightarrow> (\<forall>(t, w)\<in>set (zip ts vs). regular sorting eng t w) | _ \<Rightarrow> True)"
| "regular sorting eng (dt_array k im t) v = (case v of v_sequence sized i vs \<Rightarrow> (\<forall>w\<in>set vs. regular sorting eng t w) | _ \<Rightarrow> True)"
| "regular sorting eng (dt_sequence ct t) v = (case v of v_sequence sized i vs \<Rightarrow> (\<forall>w\<in>set vs. regular sorting eng t w) | _ \<Rightarrow> True)"
| "regular sorting eng (dt_class c ts vs0) v =
     (case v of v_class c' vs \<Rightarrow> (\<forall>(t, w)\<in>set (zip ts vs). regular sorting eng t w)
        \<and> (\<forall>f\<in>set (build_fields c). will_emit eng f (vs ! member_index (fm_info f))) | _ \<Rightarrow> True)"
| "regular sorting eng _ v = True"

text \<open>Options under which the reader takes what the writer writes.\<close>

definition compatible :: "cbor_options \<Rightarrow> cbor_options \<Rightarrow> bool" where
  "compatible wo ro \<longleftrightarrow> \<not> o_indefinite wo \<and> \<not> o_require_deterministic ro
     \<and> (o_validate_utf8 ro \<longrightarrow> o_validate_utf8 wo) \<and> o_max_depth wo \<le> o_max_depth ro
     \<and> (o_floats wo = width_preferred \<or> o_floats wo = width_double)"

section \<open>What is written\<close>

definition written :: "cbor_options \<Rightarrow> nat \<Rightarrow> aitem option \<Rightarrow> bytes \<Rightarrow> bool" where
  "written wo d x bs \<longleftrightarrow> (\<exists>i y. x = Some i \<and> cbor_item wo i = Some y \<and> enc wo d y = Inr bs)"

lemma those_list_all2: "those (map f xs) = Some ys \<longleftrightarrow> list_all2 (\<lambda>x y. f x = Some y) xs ys"
proof (induction xs arbitrary: ys)
  case (Cons x xs)
  then show ?case by (cases ys) (auto split: option.splits)
qed auto

lemma enc_list_list_all2: "enc_list wo d ys = Inr bss \<longleftrightarrow> list_all2 (\<lambda>y bs. enc wo d y = Inr bs) ys bss"
proof (induction ys arbitrary: bss)
  case (Cons y ys)
  then show ?case by (cases bss) (auto simp flip: Cons split: sum.splits)
qed auto

text \<open>The elements of an array.\<close>

lemma written_array:
  assumes "written wo d (map_option (a_array h) (those (map g vs))) bs" "compatible wo ro" "cbor_array wo h = Some True"
  shows "\<exists>bss. bs = make_head major_array (of_nat (length vs)) @ concat bss \<and> d < o_max_depth ro
    \<and> list_all2 (\<lambda>v. written wo (Suc d) (g v)) vs bss"
proof -
  from assms(1) obtain xs y where xs: "list_all2 (\<lambda>v x. g v = Some x) vs xs" "cbor_item wo (a_array h xs) = Some y" "enc wo d y = Inr bs"
    by (auto simp: written_def those_list_all2)
  with assms(3) obtain ys where ys: "list_all2 (\<lambda>x y. cbor_item wo x = Some y) xs ys" "y = CArray True ys"
    by (auto simp: those_list_all2)
  with xs(3) assms(2) obtain bss where bss: "list_all2 (\<lambda>y b. enc wo (Suc d) y = Inr b) ys bss"
    "bs = container True major_array (length ys) (concat bss)" "d < o_max_depth wo"
    by (auto simp: compatible_def depth_throw_def enc_list_list_all2 split: if_splits sum.splits)
  have "list_all2 (\<lambda>v. written wo (Suc d) (g v)) vs bss"
    using xs(1) ys(1) bss(1) by (fastforce simp: list_all2_conv_all_nth written_def)
  moreover have "length ys = length vs" using xs(1) ys(1) by (simp add: list_all2_lengthD)
  ultimately show ?thesis using bss(2,3) assms(2) by (auto simp: container_def compatible_def)
qed

section \<open>What is read back\<close>

text \<open>At depth \<open>d\<close>, before the octets \<open>bs\<close>, a decoder in place makes \<open>v\<close> of any value of the type and stops behind \<open>bs\<close>.\<close>

definition restores :: "nat \<Rightarrow> (cval \<Rightarrow> bool) \<Rightarrow> (cval \<Rightarrow> creader \<Rightarrow> (cval, creader) outcome) \<Rightarrow> bytes \<Rightarrow> cval \<Rightarrow> bool" where
  "restores d P dec bs v \<longleftrightarrow> (\<forall>old r. P old \<longrightarrow> ahead bs r \<longrightarrow> r_depth r = d \<longrightarrow>
     (\<exists>r'. dec old r = Some ((Inr (), v), r') \<and> past (length bs) r r'))"

lemma restoresD: "restores d P dec bs v \<Longrightarrow> P old \<Longrightarrow> ahead bs r \<Longrightarrow> r_depth r = d \<Longrightarrow>
    \<exists>r'. dec old r = Some ((Inr (), v), r') \<and> past (length bs) r r'"
  by (simp add: restores_def)

lemma restoresI:
  "(\<And>old r. P old \<Longrightarrow> ahead bs r \<Longrightarrow> r_depth r = d \<Longrightarrow> \<exists>r'. dec old r = Some ((Inr (), v), r') \<and> past (length bs) r r')
    \<Longrightarrow> restores d P dec bs v"
  by (simp add: restores_def)

text \<open>A path step leaves a success alone, and what it has not collected.\<close>

lemma at_step_restores:
  assumes "dec r = Some ((Inr (), v), r')" "past k r r'"
  shows "\<exists>r''. at_step (cbor_reader ro user) stp dec r = Some ((Inr (), v), r'') \<and> past k r r''"
  using assms by (simp add: at_step_def returns_def annotate_collected_def error_mark_def past_def)

lemma sequence_loop_restores:
  assumes "list_all2 (\<lambda>v b. b \<noteq> [] \<and> restores d (\<lambda>w. True) (\<lambda>w. dec) b v) vs bss"
    and "\<not> o_require_deterministic ro"
  shows "ahead (concat bss) r \<Longrightarrow> r_depth r = d \<Longrightarrow> length vs < n \<Longrightarrow> length vs < 2 ^ 64 \<Longrightarrow>
    \<exists>r'. sequence_loop (cbor_reader ro user) n dec (\<lambda>vs v. vs @ [v]) (Some (of_nat (length vs))) i old r = Some ((Inr (), old @ vs), r')
      \<and> past (length (concat bss)) (r\<lparr>r_depth := d - 1\<rparr>) r'"
  using assms(1)
proof (induction vs arbitrary: bss i old r n)
  case Nil
  then show ?case by (cases n) (auto simp: seq_next_done leave_def returns_def past_def ahead_def)
next
  case (Cons v vs)
  then obtain b bss' where b: "bss = b # bss'" "b \<noteq> []" "restores d (\<lambda>w. True) (\<lambda>w. dec) b v"
    "list_all2 (\<lambda>v b. b \<noteq> [] \<and> restores d (\<lambda>w. True) (\<lambda>w. dec) b v) vs bss'" by (auto simp: list_all2_Cons1)
  obtain m where n: "n = Suc m" using Cons.prems(3) by (cases n) auto
  have a: "ahead (b @ concat bss') r" using Cons.prems(1) b(1) by simp
  have nx: "seq_next (Some (of_nat (length (v # vs)))) r = (Inr (True, Some (of_nat (length vs))), r)"
    using seq_next_more [OF a, of "length (v # vs)"] b(2) Cons.prems(4) by simp
  from restoresD [OF b(3) TrueI ahead_first [OF a] Cons.prems(2)] obtain r1 where
    "dec r = Some ((Inr (), v), r1)" "past (length b) r r1" by blast
  from at_step_restores [of dec r v r1 "length b", OF this, of ro user "push_index i"] obtain r2 where
    r2: "at_step (cbor_reader ro user) (push_index i) dec r = Some ((Inr (), v), r2)" "past (length b) r r2" by blast
  have "ahead (concat bss') r2" "r_depth r2 = d" using ahead_rest [OF a r2(2)] r2(2) Cons.prems(2) by (simp_all add: past_def)
  from Cons.IH [OF this, of m "i + 1" "old @ [v]"] b(4) Cons.prems(3,4) n obtain r' where
    r': "sequence_loop (cbor_reader ro user) m dec (\<lambda>vs v. vs @ [v]) (Some (of_nat (length vs))) (i + 1) (old @ [v]) r2 = Some ((Inr (), (old @ [v]) @ vs), r')"
      "past (length (concat bss')) (r2\<lparr>r_depth := d - 1\<rparr>) r'" by auto
  show ?case
    using nx r2 r' by (simp add: n b(1) past_def del: length_Cons)
qed

text \<open>Places of a fixed array or a tuple, each decoded over what stands there.\<close>

lemma positional_loop_restores:
  assumes "ahead (concat bss) r" "r_depth r = d" "list_all2 (\<lambda>P w. P w) Ps old" "length ws = i" "length ds = length vs"
    "length Ps = length vs" "length bss = length vs" "length vs < 2 ^ 64"
    "\<And>j. j < length vs \<Longrightarrow> bss ! j \<noteq> [] \<and> restores d (Ps ! j) (ds ! j) (bss ! j) (vs ! j)"
  shows "\<exists>r'. positional_loop (cbor_reader ro user) n off want (Some (of_nat (length vs))) i ds (ws @ old) r = Some ((Inr (), ws @ vs), r')
      \<and> past (length (concat bss)) (r\<lparr>r_depth := d - 1\<rparr>) r'"
  using assms
proof (induction vs arbitrary: bss i ws old ds Ps r)
  case Nil
  then show ?case by (auto simp: seq_next_done leave_def returns_def past_def ahead_def)
next
  case (Cons v vs)
  obtain b bss' where b: "bss = b # bss'" using Cons.prems(7) by (cases bss) auto
  obtain f ds' where f: "ds = f # ds'" using Cons.prems(5) by (cases ds) auto
  obtain P Ps' where P: "Ps = P # Ps'" using Cons.prems(6) by (cases Ps) auto
  obtain w old' where w: "old = w # old'" "P w" "list_all2 (\<lambda>P w. P w) Ps' old'"
    using Cons.prems(3) P by (auto simp: list_all2_Cons1)
  have f0: "b \<noteq> []" "restores d P f b v" using Cons.prems(9) [of 0] by (simp_all add: b f P)
  have a: "ahead (b @ concat bss') r" using Cons.prems(1) b by simp
  have nx: "seq_next (Some (of_nat (length (v # vs)))) r = (Inr (True, Some (of_nat (length vs))), r)"
    using seq_next_more [OF a, of "length (v # vs)"] f0(1) Cons.prems(8) by simp
  from restoresD [OF f0(2) w(2) ahead_first [OF a] Cons.prems(2)] obtain r1 where
    "f w r = Some ((Inr (), v), r1)" "past (length b) r r1" by blast
  from at_step_restores [of "f w" r v r1 "length b", OF this, of ro user "push_index (of_nat i)"] obtain r2 where
    r2: "at_step (cbor_reader ro user) (push_index (of_nat i)) (f w) r = Some ((Inr (), v), r2)" "past (length b) r r2" by blast
  have a2: "ahead (concat bss') r2" "r_depth r2 = d" using ahead_rest [OF a r2(2)] r2(2) Cons.prems(2) by (simp_all add: past_def)
  have "bss' ! j \<noteq> [] \<and> restores d (Ps' ! j) (ds' ! j) (bss' ! j) (vs ! j)" if "j < length vs" for j
    using Cons.prems(9) [of "Suc j"] that by (simp add: b f P)
  from Cons.IH [OF a2 w(3), of "ws @ [v]" "Suc i" ds', OF _ _ _ _ _ this] Cons.prems(4-8) obtain r' where
    r': "positional_loop (cbor_reader ro user) n off want (Some (of_nat (length vs))) (Suc i) ds' ((ws @ [v]) @ old') r2 = Some ((Inr (), (ws @ [v]) @ vs), r')"
      "past (length (concat bss')) (r2\<lparr>r_depth := d - 1\<rparr>) r'" by (auto simp: b f P w)
  have "(ws @ old) ! i = w" "(ws @ old)[i := v] = (ws @ [v]) @ old'"
    using Cons.prems(4) by (simp_all add: w nth_append list_update_append)
  then show ?case
    using nx r2 r' by (simp add: f b past_def del: length_Cons)
qed

section \<open>Scalars and strings\<close>

lemma check_utf8_Inr: "check_utf8 wo t x = Inr y \<longleftrightarrow> y = x \<and> (o_validate_utf8 wo \<longrightarrow> validate_utf8 t = None)"
  by (auto simp: check_utf8_def split: option.split)

lemma written_leaf:
  assumes "written wo d (lower_shape eng F v) bs" "plain_field F"
  shows "v = v_bool b \<Longrightarrow> bs = make_head major_simple (if b then 21 else 20)"
    "v = v_char c \<Longrightarrow> bs = text_octets [c] \<and> (o_validate_utf8 wo \<longrightarrow> validate_utf8 [c] = None)"
    "v = v_uint u \<Longrightarrow> bs = make_head major_uint u"
    "v = v_sint i \<Longrightarrow> bs = (if 0 \<le> sint i then make_head major_uint i else make_head major_nint (- 1 - i))"
    "v = v_string t \<Longrightarrow> bs = text_octets t \<and> (o_validate_utf8 wo \<longrightarrow> validate_utf8 t = None)"
proof -
  have simp: "make_head major_simple 21 = [0xF5]" "make_head major_simple 20 = [0xF4]" by code_simp+
  show "v = v_bool b \<Longrightarrow> bs = make_head major_simple (if b then 21 else 20)"
    "v = v_char c \<Longrightarrow> bs = text_octets [c] \<and> (o_validate_utf8 wo \<longrightarrow> validate_utf8 [c] = None)"
    "v = v_uint u \<Longrightarrow> bs = make_head major_uint u"
    "v = v_sint i \<Longrightarrow> bs = (if 0 \<le> sint i then make_head major_uint i else make_head major_nint (- 1 - i))"
    "v = v_string t \<Longrightarrow> bs = text_octets t \<and> (o_validate_utf8 wo \<longrightarrow> validate_utf8 t = None)"
    using assms by (auto simp: written_def simp text_octets_def check_utf8_Inr cbor_sint_def plain_field_def chunked_def
        split: if_splits)
qed

lemma written_real:
  assumes "written wo d (lower_shape eng F (v_real x)) bs" "plain_field F" "compatible wo ro" "\<not> is_nan x"
  shows "\<exists>a arg. bs = float_octets a arg \<and> float_width_ok a arg \<and> float_value (float_head a arg) = x"
  using assms write_real_float [of x "o_floats wo" bs] by (auto simp: written_def plain_field_def compatible_def)

lemma plain_enum_integer:
  "enum_encodes_as_integer e [] True \<Longrightarrow> plain_field F \<Longrightarrow> enum_encodes_as_integer e (fm_annotations F) True"
  by (auto simp: enum_encodes_as_integer_def plain_field_def has_annotation_def)

lemma written_enum:
  assumes "written wo d (lower_shape eng F (v_enum e sg i)) bs" "plain_field F" "enum_encodes_as_integer e [] True"
    "ft_enum_default_integer (eng_traits eng)"
  shows "bs = (let u = word_of_int i in if \<not> sg \<or> 0 \<le> sint u then make_head major_uint u else make_head major_nint (- 1 - u))"
  using assms plain_enum_integer [OF assms(3,2)]
  by (auto simp: written_def enum_item_def Let_def cbor_sint_def split: if_splits)

lemma real_restores:
  assumes "\<not> o_require_deterministic ro" "float_width_ok a arg" "float_value (float_head a arg) = x" "\<not> is_nan x" "single \<longrightarrow> fits_single x"
  shows "restores d P (decode_real (cbor_reader ro user) single) (float_octets a arg) (v_real x)"
proof (rule restoresI)
  fix old r assume "ahead (float_octets a arg) r"
  from readsD [OF expect_real_reads [OF assms(1,2)] this] obtain r' where
    "expect_real ro r = (Inr x, r')" "past (length (float_octets a arg)) r r'" using assms(3) by auto
  moreover have "(if single then from_float (to_float x) else x) = x" using assms(5) fits_single_exact [OF assms(4)] by simp
  ultimately show "\<exists>r'. decode_real (cbor_reader ro user) single old r = Some ((Inr (), v_real x), r') \<and> past (length (float_octets a arg)) r r'"
    by (simp add: decode_real_def returns_def)
qed

lemma boolean_restores:
  assumes "\<not> o_require_deterministic ro"
  shows "restores d P (decode_shape (cbor_reader ro user) n F dt_bool) (make_head major_simple (if b then 21 else 20)) (v_bool b)"
proof (rule restoresI)
  fix old r assume "ahead (make_head major_simple (if b then 21 else 20)) r"
  from readsD [OF expect_boolean_reads [OF assms] this] obtain r' where
    "expect_boolean ro r = (Inr b, r')" "past (length (make_head major_simple (if b then 21 else 20))) r r'" by blast
  then show "\<exists>r'. decode_shape (cbor_reader ro user) n F dt_bool old r = Some ((Inr (), v_bool b), r')
      \<and> past (length (make_head major_simple (if b then 21 else 20))) r r'"
    by (simp add: returns_def)
qed

lemma uint_restores:
  assumes "\<not> o_require_deterministic ro" "unsigned_fits bits u"
  shows "restores d P (decode_uint (cbor_reader ro user) F bits t) (make_head major_uint u) (v_uint u)"
proof (rule restoresI)
  fix old r assume "ahead (make_head major_uint u) r"
  from readsD [OF expect_uint_reads [OF assms(1)] this] obtain r' where
    "expect_uint ro r = (Inr u, r')" "past (length (make_head major_uint u)) r r'" by blast
  with assms(2) show "\<exists>r'. decode_uint (cbor_reader ro user) F bits t old r = Some ((Inr (), v_uint u), r')
      \<and> past (length (make_head major_uint u)) r r'"
    by (simp add: decode_uint_def unsigned_fits_def returns_def)
qed

lemma sint_restores:
  fixes i :: u64
  defines "bs \<equiv> if 0 \<le> sint i then make_head major_uint i else make_head major_nint (- 1 - i)"
  assumes "\<not> o_require_deterministic ro" "signed_fits bits i"
  shows "restores d P (decode_sint (cbor_reader ro user) F bits t) bs (v_sint i)"
proof (rule restoresI)
  fix old r assume "ahead bs r"
  from readsD [OF expect_sint_reads [OF assms(2)] this [unfolded bs_def], folded bs_def] obtain r' where
    "expect_sint ro r = (Inr i, r')" "past (length bs) r r'" by blast
  with assms(3) show "\<exists>r'. decode_sint (cbor_reader ro user) F bits t old r = Some ((Inr (), v_sint i), r') \<and> past (length bs) r r'"
    by (simp add: decode_sint_def as_int_def signed_fits_def returns_def)
qed

lemma text_restores:
  assumes "\<not> o_require_deterministic ro" "length t < 2 ^ 64" "o_validate_utf8 ro \<longrightarrow> validate_utf8 t = None"
  shows "restores d P (decode_string (cbor_reader ro user) F view ty) (text_octets t) (v_string t)"
    "t = [c] \<Longrightarrow> restores d P (decode_char (cbor_reader ro user)) (text_octets t) (v_char c)"
proof -
  have "\<exists>r'. expect_text ro r = (Inr \<lparr>t_text = t, t_borrowed = True, t_raw_length = length (text_octets t)\<rparr>, r')
      \<and> past (length (text_octets t)) r r'" if "ahead (text_octets t) r" for r
    using readsD [OF expect_text_reads [OF assms] that] .
  then show "restores d P (decode_string (cbor_reader ro user) F view ty) (text_octets t) (v_string t)"
    "t = [c] \<Longrightarrow> restores d P (decode_char (cbor_reader ro user)) (text_octets t) (v_char c)"
    by (fastforce simp: decode_string_def decode_char_def returns_def intro!: restoresI)+
qed

text \<open>An enumerator that is declared and not skipped comes back, whatever its underlying type.\<close>

lemma enum_find:
  assumes "\<forall>x\<in>set table. to_underlying sg b (ei_value x) = ei_value x" "i \<in> ei_value ` set table"
    "\<forall>x\<in>set table. ei_value x = i \<longrightarrow> \<not> ei_skipped x"
  shows "\<exists>x. find (\<lambda>x. to_underlying sg b (ei_value x) = i \<and> \<not> ei_skipped x) table = Some x \<and> ei_value x = i"
proof (cases "find (\<lambda>x. to_underlying sg b (ei_value x) = i \<and> \<not> ei_skipped x) table")
  case None
  then show ?thesis using assms by (auto simp: find_None_iff)
next
  case (Some x)
  then show ?thesis using assms(1) by (auto simp: find_Some_iff)
qed

lemma enum_restores:
  assumes "\<not> o_require_deterministic ro" "enum_encodes_as_integer e (fm_annotations F) True" "0 < b" "b \<le> 64"
    and t: "\<forall>x\<in>set (build_enum_schema e). to_underlying sg b (ei_value x) = ei_value x" "i \<in> ei_value ` set (build_enum_schema e)"
      "\<forall>x\<in>set (build_enum_schema e). ei_value x = i \<longrightarrow> \<not> ei_skipped x"
  defines "bs \<equiv> let u = word_of_int i in if \<not> sg \<or> 0 \<le> sint u then make_head major_uint u else make_head major_nint (- 1 - u)"
  shows "restores d P (decode_enum (cbor_reader ro user) F e sg b ty) bs (v_enum e sg i)"
proof (rule restoresI)
  let ?ops = "cbor_reader ro user"
  fix old r assume a: "ahead bs r" "r_depth r = d"
  have fit: "to_underlying sg b i = i" using t(1,2) by auto
  obtain x where x: "find (\<lambda>x. to_underlying sg b (ei_value x) = i \<and> \<not> ei_skipped x) (build_enum_schema e) = Some x" "ei_value x = i"
    using enum_find [OF t] by blast
  have int: "enum_encodes_as_integer e (fm_annotations F) (ft_enum_default_integer (rd_traits ?ops))"
    using assms(2) by (simp add: cbor_format_traits_def)
  show "\<exists>r'. decode_enum ?ops F e sg b ty old r = Some ((Inr (), v_enum e sg i), r') \<and> past (length bs) r r'"
  proof (cases sg)
    case True
    have f: "signed_fits b (word_of_int i)" using underlying_fits(2) [of b i] fit True assms(3,4) by simp
    have "- (2 ^ (b - 1)) \<le> i" "i < 2 ^ (b - 1)"
      using fit True signed_take_bit_int_greater_eq_minus_exp [of "b - 1" i] signed_take_bit_int_less_exp [of "b - 1" i]
      by (simp_all add: to_underlying_def)
    moreover have "(2 :: int) ^ (b - 1) \<le> 2 ^ 63" using assms(4) by (intro power_increasing) simp_all
    ultimately have s: "sint (word_of_int i :: u64) = i" by (simp add: signed_take_bit_int_eq_self sint_sbintrunc')
    have bs: "bs = (if 0 \<le> sint (word_of_int i :: u64) then make_head major_uint (word_of_int i) else make_head major_nint (- 1 - word_of_int i))"
      using True by (simp add: bs_def Let_def)
    from restoresD [OF sint_restores [OF assms(1) f] TrueI a [unfolded bs]] obtain r' where
      "decode_sint ?ops F b ty (v_sint 0) r = Some ((Inr (), v_sint (word_of_int i)), r')" "past (length bs) r r'" unfolding bs by blast
    with True x s int show ?thesis by (simp add: decode_enum_def Let_def raw_int_def returns_def)
  next
    case False
    have f: "unsigned_fits b (word_of_int i)" using underlying_fits(1) [of b i] fit False assms(4) by simp
    have "0 \<le> i" "i < 2 ^ b"
      using fit False take_bit_nonnegative [of b i] take_bit_int_less_exp [of b i] by (simp_all add: to_underlying_def)
    moreover have "(2 :: int) ^ b \<le> 2 ^ 64" using assms(4) by (intro power_increasing) simp_all
    ultimately have u: "uint (word_of_int i :: u64) = i" by (simp add: uint_word_of_int)
    have bs: "bs = make_head major_uint (word_of_int i)" using False by (simp add: bs_def Let_def)
    from restoresD [OF uint_restores [OF assms(1) f] TrueI a [unfolded bs]] obtain r' where
      "decode_uint ?ops F b ty (v_uint 0) r = Some ((Inr (), v_uint (word_of_int i)), r')" "past (length bs) r r'" unfolding bs by blast
    with False x u int show ?thesis by (simp add: decode_enum_def Let_def raw_int_def returns_def)
  qed
qed

lemma octets_restores:
  assumes "\<not> o_require_deterministic ro" "length b < 2 ^ 64"
  defines "bs \<equiv> make_head major_bytes (of_nat (length b)) @ b"
  shows "restores d P (decode_span (cbor_reader ro user) F ty) bs (v_byte_range True b)"
    "(case dest of bd_array k \<Rightarrow> length b = k | bd_vector \<Rightarrow> True) \<Longrightarrow>
       restores d P (decode_octets (cbor_reader ro user) F True dest) bs (v_byte_range True b)"
proof -
  have "\<exists>r'. expect_bytes ro r = (Inr \<lparr>b_bytes = b, b_borrowed = True\<rparr>, r') \<and> past (length bs) r r'" if "ahead bs r" for r
    using readsD [OF expect_bytes_reads [OF assms(1,2)]] that by (simp add: bs_def)
  then show "restores d P (decode_span (cbor_reader ro user) F ty) bs (v_byte_range True b)"
    "(case dest of bd_array k \<Rightarrow> length b = k | bd_vector \<Rightarrow> True) \<Longrightarrow>
       restores d P (decode_octets (cbor_reader ro user) F True dest) bs (v_byte_range True b)"
    by (fastforce simp: decode_span_def decode_octets_def returns_def split: byte_dest.splits intro!: restoresI)+
qed

section \<open>Arrays\<close>

definition array_octets :: "bytes list \<Rightarrow> bytes" where
  "array_octets bss = make_head major_array (of_nat (length bss)) @ concat bss"

lemma array_enter:
  assumes "ahead (array_octets bss) r" "\<not> o_require_deterministic ro" "r_depth r < o_max_depth ro"
  shows "\<exists>r1. expect_array ro r = (Inr (Some (of_nat (length bss))), r1) \<and> ahead (concat bss) r1
    \<and> past (length (make_head major_array (of_nat (length bss)))) (r\<lparr>r_depth := Suc (r_depth r)\<rparr>) r1"
proof -
  from expect_array_ahead [OF assms(1) [unfolded array_octets_def] assms(2,3)] obtain r1 where
    r1: "expect_array ro r = (Inr (Some (of_nat (length bss))), r1)"
      "past (length (make_head major_array (of_nat (length bss)))) (r\<lparr>r_depth := Suc (r_depth r)\<rparr>) r1" by blast
  have "ahead (make_head major_array (of_nat (length bss)) @ concat bss) (r\<lparr>r_depth := Suc (r_depth r)\<rparr>)"
    using assms(1) by (simp add: array_octets_def)
  from ahead_rest [OF this r1(2)] r1 show ?thesis by blast
qed

lemma sequence_restores:
  assumes "\<not> o_require_deterministic ro" "d < o_max_depth ro" "length vs < n" "length vs < 2 ^ 64"
    "list_all2 (\<lambda>v b. b \<noteq> [] \<and> restores (Suc d) (\<lambda>w. True) (\<lambda>w. dec) b v) vs bss" "ahead (array_octets bss) r" "r_depth r = d"
  shows "\<exists>r'. decode_sequence (cbor_reader ro user) n dec (\<lambda>vs v. vs @ [v]) True old r = Some ((Inr (), vs), r')
    \<and> past (length (array_octets bss)) r r'"
proof -
  have len: "length bss = length vs" using assms(5) by (simp add: list_all2_lengthD)
  from array_enter [OF assms(6,1)] assms(2,7) obtain r1 where
    r1: "expect_array ro r = (Inr (Some (of_nat (length vs))), r1)" "ahead (concat bss) r1"
      "past (length (make_head major_array (of_nat (length vs)))) (r\<lparr>r_depth := Suc d\<rparr>) r1" by (auto simp: len)
  have "r_depth r1 = Suc d" using r1(3) by (simp add: past_def)
  from sequence_loop_restores [OF assms(5,1) r1(2) this assms(3,4), of user 0 "[]"] obtain r' where
    "sequence_loop (cbor_reader ro user) n dec (\<lambda>vs v. vs @ [v]) (Some (of_nat (length vs))) 0 [] r1 = Some ((Inr (), vs), r')"
    "past (length (concat bss)) (r1\<lparr>r_depth := d\<rparr>) r'" by auto
  with r1 assms(7) show ?thesis by (simp add: decode_sequence_def array_octets_def past_def len)
qed

lemma positional_restores:
  assumes "\<not> o_require_deterministic ro" "d < o_max_depth ro" "length vs < 2 ^ 64" "length ds = length vs"
    "list_all2 (\<lambda>P w. P w) Ps old" "length Ps = length vs" "length bss = length vs"
    "\<And>j. j < length vs \<Longrightarrow> bss ! j \<noteq> [] \<and> restores (Suc d) (Ps ! j) (ds ! j) (bss ! j) (vs ! j)"
    "ahead (array_octets bss) r" "r_depth r = d"
  shows "\<exists>r'. decode_positional (cbor_reader ro user) n ds old r = Some ((Inr (), vs), r') \<and> past (length (array_octets bss)) r r'"
proof -
  from array_enter [OF assms(9,1)] assms(2,7,10) obtain r1 where
    r1: "expect_array ro r = (Inr (Some (of_nat (length vs))), r1)" "ahead (concat bss) r1"
      "past (length (make_head major_array (of_nat (length vs)))) (r\<lparr>r_depth := Suc d\<rparr>) r1" by auto
  have "r_depth r1 = Suc d" using r1(3) by (simp add: past_def)
  from positional_loop_restores [OF r1(2) this assms(5) _ assms(4,6,7,3) assms(8), of "[]" 0 ro user n "r_pos r" "length ds"] obtain r' where
    "positional_loop (cbor_reader ro user) n (r_pos r) (length ds) (Some (of_nat (length vs))) 0 ds old r1 = Some ((Inr (), vs), r')"
    "past (length (concat bss)) (r1\<lparr>r_depth := d\<rparr>) r'" by auto
  with r1 assms(7,10) show ?thesis by (simp add: decode_positional_def array_octets_def past_def)
qed

section \<open>Maps\<close>

definition map_octets :: "(bytes \<times> bytes) list \<Rightarrow> bytes" where
  "map_octets kvs = make_head major_map (of_nat (length kvs)) @ concat (map pair_bytes kvs)"

lemma enc_entries_list_all2:
  "enc_entries wo d es = Inr kvs \<longleftrightarrow> list_all2 (\<lambda>e kv. enc wo d (fst e) = Inr (fst kv) \<and> enc wo d (snd e) = Inr (snd kv)) es kvs"
proof (induction es arbitrary: kvs)
  case (Cons e es)
  obtain k v where e: "e = (k, v)" by force
  have "enc_entries wo d (e # es) = Inr kvs \<longleftrightarrow> (\<exists>kb vb kvs'. kvs = (kb, vb) # kvs' \<and> enc wo d k = Inr kb \<and> enc wo d v = Inr vb
      \<and> enc_entries wo d es = Inr kvs')"
    unfolding e by (cases "enc wo d k"; cases "enc wo d v"; cases "enc_entries wo d es") auto
  then show ?case unfolding Cons.IH by (simp only: e list_all2_Cons1 fst_conv snd_conv) force
qed auto

text \<open>The entries of a map or of an object, key by key.\<close>

definition entry_written :: "cbor_options \<Rightarrow> nat \<Rightarrow> (ecall \<times> aitem) option \<Rightarrow> bytes \<times> bytes \<Rightarrow> bool" where
  "entry_written wo d e kv \<longleftrightarrow> (\<exists>c x y. e = Some (c, x) \<and> cbor_key wo c = Some y \<and> enc wo d y = Inr (fst kv)
     \<and> written wo d (Some x) (snd kv))"

lemma written_map:
  assumes "written wo d (map_option (a_map m) (those (map h es))) bs" "compatible wo ro" "cbor_form wo m = Some kd" "kd \<noteq> map_unsized"
  shows "\<exists>es' kvs. bs = map_octets kvs \<and> mset es' = mset es \<and> (\<not> (o_deterministic wo \<and> kd \<noteq> map_ordered) \<longrightarrow> es' = es)
    \<and> d < o_max_depth ro \<and> list_all2 (\<lambda>e. entry_written wo (Suc d) (h e)) es' kvs"
proof -
  from assms(1) obtain xs y where xs: "list_all2 (\<lambda>e x. h e = Some x) es xs" "cbor_item wo (a_map m xs) = Some y" "enc wo d y = Inr bs"
    by (auto simp: written_def those_list_all2)
  with assms(3) obtain ys where ys: "list_all2 (\<lambda>x y. pair_option (cbor_key wo (fst x)) (cbor_item wo (snd x)) = Some y) xs ys" "y = CMap kd ys"
    by (auto simp: those_list_all2 split_def)
  with xs(3) assms(2) obtain kvs where kvs: "enc_entries wo (Suc d) ys = Inr kvs" "assemble_map wo kd kvs = Inr bs" "d < o_max_depth wo"
    by (auto simp: depth_throw_def split: if_splits sum.splits)
  have "entry_written wo (Suc d) (h (es ! i)) (kvs ! i)" if i: "i < length es" for i
  proof -
    obtain c x where cx: "xs ! i = (c, x)" by force
    have "h (es ! i) = Some (c, x)" "pair_option (cbor_key wo c) (cbor_item wo x) = Some (ys ! i)"
      "enc wo (Suc d) (fst (ys ! i)) = Inr (fst (kvs ! i))" "enc wo (Suc d) (snd (ys ! i)) = Inr (snd (kvs ! i))"
      using i cx xs(1) ys(1) kvs(1) by (auto simp: enc_entries_list_all2 list_all2_conv_all_nth)
    then show ?thesis by (cases "ys ! i") (auto simp: entry_written_def written_def pair_option_def split: option.splits)
  qed
  moreover have "length kvs = length es"
    using xs(1) ys(1) kvs(1) by (auto simp: enc_entries_list_all2 list_all2_conv_all_nth)
  ultimately have all: "list_all2 (\<lambda>e. entry_written wo (Suc d) (h e)) es kvs" by (simp add: list_all2_conv_all_nth)
  have d: "d < o_max_depth ro" using kvs(3) assms(2) by (simp add: compatible_def)
  show ?thesis
  proof (cases "o_deterministic wo \<and> kd \<noteq> map_ordered")
    case True
    then have bs: "bs = container True major_map (length kvs) (concat (map pair_bytes (canonical_entries kvs)))"
      using kvs(2) by (auto simp: assemble_map_def duplicate_throw_def split: if_splits)
    have ms: "mset (canonical_entries kvs) = mset kvs" by (simp add: canonical_entries_def)
    have "list_all2 (\<lambda>kv e. entry_written wo (Suc d) (h e) kv) kvs es"
      using all by (simp add: list_all2_conv_all_nth)
    from list_all2_reorder_left_invariance [OF this ms] obtain es' where e:
      "list_all2 (\<lambda>kv e. entry_written wo (Suc d) (h e) kv) (canonical_entries kvs) es'" "mset es' = mset es" by blast
    then have
      "list_all2 (\<lambda>e. entry_written wo (Suc d) (h e)) es' (canonical_entries kvs)" "mset es' = mset es"
      by (simp_all add: list_all2_conv_all_nth)
    moreover have "bs = map_octets (canonical_entries kvs)"
      using bs mset_eq_length [OF ms] by (simp add: container_def map_octets_def)
    ultimately show ?thesis using True d by blast
  next
    case False
    then have "bs = map_octets kvs"
      using kvs(2) assms(2,4) by (auto simp: assemble_map_def compatible_def container_def map_octets_def)
    with all d show ?thesis by blast
  qed
qed

lemma text_key_written:
  "entry_written wo d (Some (c_key_text k, x)) kv \<Longrightarrow> fst kv = text_octets k \<and> (o_validate_utf8 wo \<longrightarrow> validate_utf8 k = None)
     \<and> written wo d (Some x) (snd kv)"
  "entry_written wo d (Some (c_prepared_name k, x)) kv \<Longrightarrow> fst kv = text_octets k \<and> (o_validate_utf8 wo \<longrightarrow> validate_utf8 k = None)
     \<and> written wo d (Some x) (snd kv)"
  by (auto simp: entry_written_def check_utf8_Inr text_octets_def split: if_splits)

lemma map_enter:
  assumes "ahead (map_octets kvs) r" "\<not> o_require_deterministic ro" "r_depth r < o_max_depth ro"
  shows "\<exists>r1 c. expect_map ro r = (Inr c, r1) \<and> c_remaining c = Some (of_nat (length kvs)) \<and> ahead (concat (map pair_bytes kvs)) r1
    \<and> past (length (make_head major_map (of_nat (length kvs)))) (r\<lparr>r_depth := Suc (r_depth r)\<rparr>) r1"
proof -
  from expect_map_ahead [OF assms(1) [unfolded map_octets_def] assms(2,3)] obtain r1 c where
    r1: "expect_map ro r = (Inr c, r1)" "c_remaining c = Some (of_nat (length kvs))"
      "past (length (make_head major_map (of_nat (length kvs)))) (r\<lparr>r_depth := Suc (r_depth r)\<rparr>) r1" by blast
  have "ahead (make_head major_map (of_nat (length kvs)) @ concat (map pair_bytes kvs)) (r\<lparr>r_depth := Suc (r_depth r)\<rparr>)"
    using assms(1) by (simp add: map_octets_def)
  from ahead_rest [OF this r1(3)] r1 show ?thesis by blast
qed

text \<open>A key that can be read, and a value that is restored.\<close>

definition key_ok :: "cbor_options \<Rightarrow> string \<Rightarrow> bytes \<Rightarrow> bool" where
  "key_ok ro k kb \<longleftrightarrow> kb = text_octets k \<and> length k < 2 ^ 64 \<and> (o_validate_utf8 ro \<longrightarrow> validate_utf8 k = None)"

lemma text_octets_nonempty [simp]: "text_octets k \<noteq> []"
  by (simp add: text_octets_def)

lemma map_loop_restores:
  assumes "\<not> o_require_deterministic ro" "P v0" "\<And>es e. set (mc_insert mc es e) \<subseteq> insert e (set es)"
  shows "ahead (concat (map pair_bytes kvs)) r \<Longrightarrow> r_depth r = d \<Longrightarrow> c_remaining c = Some (of_nat (length es)) \<Longrightarrow>
    length es < n \<Longrightarrow> length es < 2 ^ 64 \<Longrightarrow> fst ` set acc \<inter> fst ` set es = {} \<and> distinct (map fst es) \<Longrightarrow>
    list_all2 (\<lambda>e kv. \<exists>k. fst e = mk_string k \<and> key_ok ro k (fst kv) \<and> restores d P dec (snd kv) (snd e)) es kvs \<Longrightarrow>
    \<exists>r'. map_loop (cbor_reader ro user) n F mc md (mkt_string view) v0 dec c acc r = Some ((Inr (), insert_all mc es acc), r')
      \<and> past (length (concat (map pair_bytes kvs))) (r\<lparr>r_depth := d - 1\<rparr>) r'"
proof (induction es arbitrary: kvs c acc r n)
  case Nil
  then show ?case by (cases n) (auto simp: map_next_done leave_def returns_def past_def ahead_def insert_all_def)
next
  case (Cons e es)
  obtain kb vb kvs' k w where kv: "kvs = (kb, vb) # kvs'" "e = (mk_string k, w)" "key_ok ro k kb" "restores d P dec vb w"
    "list_all2 (\<lambda>e kv. \<exists>k. fst e = mk_string k \<and> key_ok ro k (fst kv) \<and> restores d P dec (snd kv) (snd e)) es kvs'"
    using Cons.prems(7) by (cases e) (auto simp: list_all2_Cons1)
  have kb: "kb = text_octets k" using kv(3) by (simp add: key_ok_def)
  obtain m where n: "n = Suc m" using Cons.prems(4) by (cases n) auto
  have a: "ahead (kb @ (vb @ concat (map pair_bytes kvs'))) r" using Cons.prems(1) by (simp add: kv(1) pair_bytes_def [of "(kb, vb)"])
  let ?c = "c\<lparr>c_remaining := Some (of_nat (length es))\<rparr>"
  have nx: "map_next ro c r = (Inr (True, ?c), r)"
    using map_next_more [OF a _ _ _ Cons.prems(3) assms(1)] Cons.prems(5) by (simp add: kb)
  have "reads (expect_text ro) kb \<lparr>t_text = k, t_borrowed = True, t_raw_length = length (text_octets k)\<rparr>"
    using kv(3) unfolding key_ok_def kb by (intro expect_text_reads assms(1)) auto
  from readsD [OF this ahead_first [OF a]] obtain r1 where
    r1: "expect_text ro r = (Inr \<lparr>t_text = k, t_borrowed = True, t_raw_length = length (text_octets k)\<rparr>, r1)" "past (length kb) r r1" by blast
  have a1: "ahead (vb @ concat (map pair_bytes kvs')) r1" "r_depth r1 = d"
    using ahead_rest [OF a r1(2)] r1(2) Cons.prems(2) by (simp_all add: past_def)
  from restoresD [OF kv(4) assms(2) ahead_first [OF a1(1)] a1(2)] obtain r2 where
    "dec v0 r1 = Some ((Inr (), w), r2)" "past (length vb) r1 r2" by blast
  from at_step_restores [of "dec v0" r1 w r2 "length vb", OF this, of ro user "push_map_key (mk_string k)"] obtain r3 where
    r3: "at_step (cbor_reader ro user) (push_key_text k) (dec v0) r1 = Some ((Inr (), w), r3)" "past (length vb) r1 r3" by auto
  have a3: "ahead (concat (map pair_bytes kvs')) r3" "r_depth r3 = d"
    using ahead_rest [OF a1(1) r3(2)] r3(2) a1(2) by (simp_all add: past_def)
  have "mk_string k \<notin> fst ` set acc" using Cons.prems(6) by (simp add: kv(2))
  then have new: "map_of acc (mk_string k) = None" by (simp add: map_of_eq_None_iff)
  have disj: "fst ` set (mc_insert mc acc e) \<inter> fst ` set es = {} \<and> distinct (map fst es)"
  proof
    show "fst ` set (mc_insert mc acc e) \<inter> fst ` set es = {}"
    proof (rule equals0I)
      fix k assume k: "k \<in> fst ` set (mc_insert mc acc e) \<inter> fst ` set es"
      then have "k = fst e \<or> k \<in> fst ` set acc" using assms(3) [of acc e] by blast
      moreover have "fst e \<notin> fst ` set es" "fst ` set acc \<inter> fst ` set es = {}" using Cons.prems(6) by simp_all
      ultimately show False using k by blast
    qed
  qed (use Cons.prems(6) in simp)
  have "c_remaining ?c = Some (of_nat (length es))" "length es < m" "length es < 2 ^ 64"
    using Cons.prems(4,5) n by simp_all
  from Cons.IH [OF a3 this disj kv(5)] obtain r' where
    r': "map_loop (cbor_reader ro user) m F mc md (mkt_string view) v0 dec ?c (mc_insert mc acc e) r3 = Some ((Inr (), insert_all mc es (mc_insert mc acc e)), r')"
      "past (length (concat (map pair_bytes kvs'))) (r3\<lparr>r_depth := d - 1\<rparr>) r'" by blast
  have ins: "insert_all mc (e # es) acc = insert_all mc es (mc_insert mc acc e)" by (simp add: insert_all_def)
  show ?case
    using nx r1 r3 r' new by (simp add: ins) (simp add: n decode_map_key_def kv(1) kv(2) pair_bytes_def [of "(kb, vb)"] past_def)
qed

lemma map_restores:
  assumes "\<not> o_require_deterministic ro" "d < o_max_depth ro" "length es < n" "length es < 2 ^ 64" "P v0"
    "\<And>es e. set (mc_insert mc es e) \<subseteq> insert e (set es)" "mc_clears mc"
    "list_all2 (\<lambda>e kv. \<exists>k. fst e = mk_string k \<and> key_ok ro k (fst kv) \<and> restores (Suc d) P dec (snd kv) (snd e)) es kvs"
    "ahead (map_octets kvs) r" "r_depth r = d" "distinct (map fst es)"
  shows "\<exists>r'. decode_map (cbor_reader ro user) n F mc md (mkt_string view) v0 dec old r = Some ((Inr (), insert_all mc es []), r')
    \<and> past (length (map_octets kvs)) r r'"
proof -
  have len: "length kvs = length es" using assms(8) by (simp add: list_all2_lengthD)
  from map_enter [OF assms(9,1)] assms(2,10) obtain r1 c where
    r1: "expect_map ro r = (Inr c, r1)" "c_remaining c = Some (of_nat (length es))" "ahead (concat (map pair_bytes kvs)) r1"
      "past (length (make_head major_map (of_nat (length es)))) (r\<lparr>r_depth := Suc d\<rparr>) r1" by (auto simp: len)
  have "r_depth r1 = Suc d" using r1(4) by (simp add: past_def)
  from map_loop_restores [where acc = "[]" and user = user and F = F and md = md and view = view, OF assms(1,5,6) r1(3) this r1(2) assms(3,4) _ assms(8)] assms(11) obtain r' where
    "map_loop (cbor_reader ro user) n F mc md (mkt_string view) v0 dec c [] r1 = Some ((Inr (), insert_all mc es []), r')"
    "past (length (concat (map pair_bytes kvs))) (r1\<lparr>r_depth := d\<rparr>) r'" by auto
  with r1 assms(7,10) show ?thesis by (simp add: decode_map_def map_octets_def past_def len)
qed

section \<open>Objects\<close>

abbreviation idx :: "field_meta \<Rightarrow> nat" where
  "idx f \<equiv> member_index (fm_info f)"

definition put_members :: "(nat \<Rightarrow> 'a) \<Rightarrow> field_meta list \<Rightarrow> 'a list \<Rightarrow> 'a list" where
  "put_members g fs xs = fold (\<lambda>f xs. xs[idx f := g (idx f)]) fs xs"

lemma put_members_simps [simp]:
  "put_members g [] xs = xs" "put_members g (f # fs) xs = put_members g fs (xs[idx f := g (idx f)])"
  by (simp_all add: put_members_def)

lemma length_put_members [simp]: "length (put_members g fs xs) = length xs"
  by (induction fs arbitrary: xs) simp_all

lemma put_members_other: "i \<notin> idx ` set fs \<Longrightarrow> put_members g fs xs ! i = xs ! i"
  by (induction fs arbitrary: xs) auto

lemma put_members_nth: "i \<in> idx ` set fs \<Longrightarrow> i < length xs \<Longrightarrow> put_members g fs xs ! i = g i"
proof (induction fs arbitrary: xs)
  case (Cons f fs)
  then show ?case by (cases "i \<in> idx ` set fs") (auto simp: put_members_other)
qed simp

text \<open>A member that was not seen yet is decoded in place.\<close>

lemma known_member:
  assumes "find_text_member c (keys_of ops c) key = Some i" "\<not> fi_skip_deserializing (build_schema c ! i)" "\<not> seen ! i"
  shows "key_action ops c ignored seen (mkr_text key) off r = Some (ma_decode i)"
  using assms by (simp add: key_action_def known_action_def Let_def)

lemma decode_member_restores:
  assumes "find (\<lambda>(g, dec). idx g = i) members = Some (f, dec)" "dec (ws ! i) r = Some ((Inr (), v), r1)" "past k r r1"
  shows "\<exists>r2. decode_member (cbor_reader ro user) members i ws r = Some ((Inr (), ws[i := v]), r2) \<and> past k r r2"
proof -
  from at_step_restores [of "dec (ws ! i)" r v r1 k, OF assms(2,3), of ro user "push_member (ident_of (fm_info f))"] obtain r2 where
    "at_step (cbor_reader ro user) (push_member (ident_of (fm_info f))) (dec (ws ! i)) r = Some ((Inr (), v), r2)" "past k r r2" by blast
  with assms(1) show ?thesis by (simp add: decode_member_def rewrap_def returns_def)
qed

text \<open>What the loop over an object's entries needs of the members whose entries are there.\<close>

definition member_ready :: "cbor_options \<Rightarrow> creader user_code \<Rightarrow> rclass \<Rightarrow> dtype list \<Rightarrow> creader members
    \<Rightarrow> (field_meta \<Rightarrow> cval \<Rightarrow> creader \<Rightarrow> (cval, creader) outcome) \<Rightarrow> field_meta \<Rightarrow> bool" where
  "member_ready ro user c ts members dec f \<longleftrightarrow>
     find_text_member c (keys_of (cbor_reader ro user) c) (wire_name (fm_info f)) = Some (idx f)
     \<and> \<not> fi_skip_deserializing (build_schema c ! idx f) \<and> idx f < length ts
     \<and> find (\<lambda>(g, dec). idx g = idx f) members = Some (f, dec f)"

lemma struct_loop_restores:
  assumes "\<not> o_require_deterministic ro" "\<not> kt_any (keys_of (cbor_reader ro user) c)" "have_types ts vs"
  shows "ahead (concat (map pair_bytes kvs)) r \<Longrightarrow> r_depth r = d \<Longrightarrow> c_remaining cur = Some (of_nat (length fs)) \<Longrightarrow>
    length fs < n \<Longrightarrow> length fs < 2 ^ 64 \<Longrightarrow> \<forall>f\<in>set fs. member_ready ro user c ts members dec f \<and> \<not> seen ! idx f \<Longrightarrow>
    list_all2 (\<lambda>f kv. key_ok ro (wire_name (fm_info f)) (fst kv)
      \<and> restores d (has_type (ts ! idx f)) (dec f) (snd kv) (vs ! idx f)) fs kvs \<Longrightarrow>
    distinct (map idx fs) \<Longrightarrow> have_types ts ws \<Longrightarrow>
    \<exists>r'. struct_loop (cbor_reader ro user) n c ignored members cur ws seen r =
        Some ((Inr (), (put_members ((!) vs) fs ws, put_members (\<lambda>i. True) fs seen)), r')
      \<and> past (length (concat (map pair_bytes kvs))) (r\<lparr>r_depth := d - 1\<rparr>) r'"
proof (induction fs arbitrary: kvs cur ws seen r n)
  case Nil
  then show ?case by (cases n) (auto simp: map_next_done leave_def returns_def past_def ahead_def)
next
  case (Cons f fs)
  obtain kb vb kvs' where kv: "kvs = (kb, vb) # kvs'" "key_ok ro (wire_name (fm_info f)) kb"
    "restores d (has_type (ts ! idx f)) (dec f) vb (vs ! idx f)"
    "list_all2 (\<lambda>f kv. key_ok ro (wire_name (fm_info f)) (fst kv)
      \<and> restores d (has_type (ts ! idx f)) (dec f) (snd kv) (vs ! idx f)) fs kvs'"
    using Cons.prems(7) by (auto simp: list_all2_Cons1)
  let ?k = "wire_name (fm_info f)" and ?i = "idx f"
  have kb: "kb = text_octets ?k" using kv(2) by (simp add: key_ok_def)
  have rdy: "member_ready ro user c ts members dec f" "\<not> seen ! ?i" using Cons.prems(6) by simp_all
  obtain m where n: "n = Suc m" using Cons.prems(4) by (cases n) auto
  have a: "ahead (kb @ (vb @ concat (map pair_bytes kvs'))) r"
    using Cons.prems(1) by (simp add: kv(1) pair_bytes_def [of "(kb, vb)"])
  let ?c = "cur\<lparr>c_remaining := Some (of_nat (length fs))\<rparr>"
  have nx: "map_next ro cur r = (Inr (True, ?c), r)"
    using map_next_more [OF a _ _ _ Cons.prems(3) assms(1)] Cons.prems(5) by (simp add: kb)
  have "reads (expect_text ro) kb \<lparr>t_text = ?k, t_borrowed = True, t_raw_length = length (text_octets ?k)\<rparr>"
    using kv(2) unfolding key_ok_def kb by (intro expect_text_reads assms(1)) auto
  from readsD [OF this ahead_first [OF a]] obtain r1 where
    r1: "expect_text ro r = (Inr \<lparr>t_text = ?k, t_borrowed = True, t_raw_length = length (text_octets ?k)\<rparr>, r1)" "past (length kb) r r1" by blast
  have a1: "ahead (vb @ concat (map pair_bytes kvs')) r1" "r_depth r1 = d"
    using ahead_rest [OF a r1(2)] r1(2) Cons.prems(2) by (simp_all add: past_def)
  have "has_type (ts ! ?i) (ws ! ?i)" using Cons.prems(9) rdy(1) by (simp add: have_types_nth member_ready_def)
  from restoresD [OF kv(3) this ahead_first [OF a1(1)] a1(2)] obtain r2 where
    "dec f (ws ! ?i) r1 = Some ((Inr (), vs ! ?i), r2)" "past (length vb) r1 r2" by blast
  from decode_member_restores [of ?i members f "dec f" ws r1 "vs ! ?i" r2 "length vb", OF _ this] rdy(1) obtain r3 where
    r3: "decode_member (cbor_reader ro user) members ?i ws r1 = Some ((Inr (), ws[?i := vs ! ?i]), r3)" "past (length vb) r1 r3"
    by (auto simp: member_ready_def)
  have a3: "ahead (concat (map pair_bytes kvs')) r3" "r_depth r3 = d"
    using ahead_rest [OF a1(1) r3(2)] r3(2) a1(2) by (simp_all add: past_def)
  have act: "key_action (cbor_reader ro user) c ignored seen (mkr_text ?k) off r1 = Some (ma_decode ?i)" for off
    using rdy by (intro known_member) (simp_all add: member_ready_def)
  have ws: "have_types ts (ws[?i := vs ! ?i])"
    using Cons.prems(9) assms(3) rdy(1) by (intro have_types_update) (simp_all add: have_types_nth member_ready_def)
  have new: "\<forall>g\<in>set fs. member_ready ro user c ts members dec g \<and> \<not> seen[?i := True] ! idx g"
  proof
    fix g assume g: "g \<in> set fs"
    from Cons.prems(8) have "?i \<notin> idx ` set fs" by simp
    with g have "idx g \<noteq> ?i" by (metis image_eqI)
    with Cons.prems(6) g show "member_ready ro user c ts members dec g \<and> \<not> seen[?i := True] ! idx g" by simp
  qed
  have "c_remaining ?c = Some (of_nat (length fs))" "length fs < m" "length fs < 2 ^ 64"
    using Cons.prems(4,5) n by simp_all
  from Cons.IH [OF a3 this new kv(4) _ ws] Cons.prems(8) obtain r' where
    r': "struct_loop (cbor_reader ro user) m c ignored members ?c (ws[?i := vs ! ?i]) (seen[?i := True]) r3 =
        Some ((Inr (), (put_members ((!) vs) fs (ws[?i := vs ! ?i]), put_members (\<lambda>i. True) fs (seen[?i := True]))), r')"
      "past (length (concat (map pair_bytes kvs'))) (r3\<lparr>r_depth := d - 1\<rparr>) r'" by auto
  have "read_member_key (cbor_reader ro user) False r = (Inr (mkr_text ?k), r1)"
    by (simp add: read_member_key_def r1(1))
  with nx r1(2) r3 r' act assms(2) show ?case
    by (simp add: n kv(1) pair_bytes_def [of "(kb, vb)"] past_def)
qed

lemma nothing_missing:
  "\<forall>(f, t)\<in>set typed. seen ! idx f \<Longrightarrow> missing_members ops n c off st0 seen typed missing vs r = returns missing vs r"
  by (induction typed arbitrary: missing vs r) (auto simp: Let_def)

end
