(* ===== verification/Round_Trip.thy ===== *)
theory Round_Trip
  imports Write_Read
begin

text \<open>
  Encoding and decoding compose: what \<^verbatim>\<open>core/traverse.hpp\<close> writes of a value through \<^verbatim>\<open>cbor/write.hpp\<close>,
  \<^verbatim>\<open>core/build.hpp\<close> reads back through \<^verbatim>\<open>cbor/read.hpp\<close> as the same value, stopping right behind it: for each shape of a type, then by
  induction on the type, and at last through the entry points \<^verbatim>\<open>cbor::encode\<close> and \<^verbatim>\<open>cbor::decode\<close>.
\<close>

section \<open>The members of a class without integer keys\<close>

lemma field_at:
  assumes "wf_type (dt_class c ts vs0)" "i < length (build_fields c)"
  shows "idx (build_fields c ! i) = i"
proof -
  have "map idx (build_fields c) = [0..<length (build_fields c)]" using assms(1) by simp
  from arg_cong [OF this, of "\<lambda>xs. xs ! i"] assms(2) show ?thesis by simp
qed

lemma no_integer_keys:
  "\<forall>f\<in>set fs. ktr_integer_key tr f = None \<Longrightarrow> kb_entries kb = [] \<Longrightarrow> kb_entries (fold (key_step tr schema) fs kb) = []"
  by (induction fs arbitrary: kb) (simp_all add: key_step_def)

lemma plain_class_unkeyed:
  assumes "plain_class c"
  shows "\<not> kt_any (keys_of (cbor_reader ro user) c)"
proof -
  have "kb_entries (key_entries cbor_key_traits (build_fields c)) = []"
    unfolding key_entries_def using assms by (intro no_integer_keys) (auto simp: plain_class_def cbor_key_traits_def)
  then show ?thesis by (simp add: keys_of_def build_key_table_def Let_def empty_key_table_def kt_any_def)
qed

lemma find_members:
  assumes "i < length fs" "length ts = length fs" "\<forall>j<length fs. idx (fs ! j) = j"
  shows "find (\<lambda>(g, dec). idx g = i) (map (\<lambda>(f, u). (f, h f u)) (zip fs ts)) = Some (fs ! i, h (fs ! i) (ts ! i))"
  unfolding find_Some_iff using assms by (intro exI [of _ i]) (auto simp: split_beta)

text \<open>Every member's name leads to the member.\<close>

lemma plain_member_ready:
  assumes "wf_type (dt_class c ts vs0)" "plain_class c" "f \<in> set (build_fields c)"
  shows "member_ready ro user c ts (map (\<lambda>(f, u). (f, h f u)) (zip (build_fields c) ts)) (\<lambda>f. h f (ts ! idx f)) f"
proof -
  obtain i where i: "i < length (build_fields c)" "f = build_fields c ! i" using assms(3) by (auto simp: in_set_conv_nth)
  have at: "\<forall>j<length (build_fields c). idx (build_fields c ! j) = j" using field_at [OF assms(1)] by blast
  have len: "length ts = length (build_fields c)" using assms(1) by simp
  have s: "build_schema c ! i = fm_info f" "i < length (build_schema c)"
    using i by (simp_all add: build_schema_def build_fields_def)
  have "lookup_find (build_field_lookup (build_schema c)) (wire_name (fm_info f)) = Some i"
    using assms(2) s by (subst field_lookup_find) (simp_all add: plain_class_def wire_names_def)
  then have "find_text_member c (keys_of (cbor_reader ro user) c) (wire_name (fm_info f)) = Some i"
    using plain_class_unkeyed [OF assms(2)] by (simp add: find_text_member_def)
  moreover have "\<not> fi_skip_deserializing (fm_info f)" using assms(2,3) by (simp add: plain_class_def)
  ultimately show ?thesis
    using i at s len find_members [OF i(1) len at, of h] by (simp add: member_ready_def)
qed

text \<open>The members that are written are all members, each once.\<close>

lemma emitted_all:
  assumes "plain_class c" "length vs = length (build_fields c)"
    and "\<forall>f\<in>set (build_fields c). will_emit (cbor_engine wo codecs df) f (vs ! idx f)" "wf_type (dt_class c ts vs0)"
  shows "mset (emitted (cbor_engine wo codecs df) c vs) = mset (build_fields c)"
proof -
  let ?eng = "cbor_engine wo codecs df"
  have m: "mset (map ((!) (build_fields c)) (ft_member_order (eng_traits ?eng) (build_fields c))) = mset (build_fields c)"
    by (intro permuted_fields) (simp add: cbor_engine_def cbor_format_traits_def member_order_permutes)
  have "member_shown ?eng vs f" if f: "f \<in> set (build_fields c)" for f
  proof -
    have "idx f < length vs"
      using f field_at [OF assms(4)] assms(2) by (auto simp: in_set_conv_nth)
    then show ?thesis using f assms(1,3) by (simp add: member_shown_def access_def plain_class_def)
  qed
  moreover have "set (map ((!) (build_fields c)) (ft_member_order (eng_traits ?eng) (build_fields c))) = set (build_fields c)"
    using m by (rule mset_eq_setD)
  ultimately have "emitted ?eng c vs = map ((!) (build_fields c)) (ft_member_order (eng_traits ?eng) (build_fields c))"
    unfolding emitted_eq by (intro filter_True) auto
  with m show ?thesis by simp
qed


text \<open>What is written of an object: a map of all members under their names.\<close>

lemma length_pair_bytes: "kv \<in> set kvs \<Longrightarrow> length (fst kv) + length (snd kv) < length (map_octets kvs)"
  by (auto dest!: split_list simp: map_octets_def pair_bytes_def)

lemma length_map_octets: "(\<And>kv. kv \<in> set kvs \<Longrightarrow> fst kv \<noteq> []) \<Longrightarrow> length kvs < length (map_octets kvs)"
  using length_le_concat [of kvs pair_bytes] by (fastforce simp: map_octets_def pair_bytes_def)

lemma written_object:
  assumes "compatible wo ro" "plain_class c" "wf_type (dt_class c ts vs0)" "have_types ts vs"
    "\<forall>f\<in>set (build_fields c). will_emit (cbor_engine wo codecs df) f (vs ! idx f)"
    "written wo d (lower_struct (cbor_engine wo codecs df) c vs [] []) bs"
  shows "\<exists>fs kvs. bs = map_octets kvs \<and> d < o_max_depth ro \<and> mset fs = mset (build_fields c)
    \<and> list_all2 (\<lambda>f kv. fst kv = text_octets (wire_name (fm_info f))
        \<and> (o_validate_utf8 wo \<longrightarrow> validate_utf8 (wire_name (fm_info f)) = None)
        \<and> written wo (Suc d) (lower_field_value (cbor_engine wo codecs df) f (vs ! idx f)) (snd kv)) fs kvs"
proof -
  let ?eng = "cbor_engine wo codecs df" and ?fs = "emitted (cbor_engine wo codecs df) c vs"
  have len: "length vs = length (build_fields c)" using assms(3,4) by (simp add: have_types_nth)
  have ms: "mset ?fs = mset (build_fields c)" using emitted_all [OF assms(2) len assms(5,3)] .
  have "written wo d (map_option (a_map mf_ordered) (those (map (member_item ?eng vs) ?fs))) bs"
    using assms(2,6) by (simp add: lower_struct.simps member_item_def [abs_def] struct_item_def [abs_def] plain_class_def)
  from written_map [OF this assms(1), of map_ordered] obtain kvs where
    kvs: "bs = map_octets kvs" "d < o_max_depth ro" "list_all2 (\<lambda>f. entry_written wo (Suc d) (member_item ?eng vs f)) ?fs kvs"
    by auto
  have E: "fst kv = text_octets (wire_name (fm_info f)) \<and> (o_validate_utf8 wo \<longrightarrow> validate_utf8 (wire_name (fm_info f)) = None)
      \<and> written wo (Suc d) (lower_field_value ?eng f (vs ! idx f)) (snd kv)"
    if f: "f \<in> set ?fs" and e: "entry_written wo (Suc d) (member_item ?eng vs f) kv" for f kv
  proof -
    have b: "f \<in> set (build_fields c)" using f mset_eq_setD [OF ms] by blast
    then have "idx f < length vs" using field_at [OF assms(3)] len by (auto simp: in_set_conv_nth)
    moreover have "key_item ?eng f = c_prepared_name (wire_name (fm_info f))"
      using b assms(2) by (simp add: key_item_def cbor_engine_def cbor_format_traits_def plain_class_def)
    ultimately have m: "member_item ?eng vs f = map_option (Pair (c_prepared_name (wire_name (fm_info f)))) (lower_field_value ?eng f (vs ! idx f))"
      by (simp add: member_item_def access_def)
    then obtain x where x: "lower_field_value ?eng f (vs ! idx f) = Some x" using e by (auto simp: entry_written_def)
    with e m show ?thesis using text_key_written(2) [of wo "Suc d" "wire_name (fm_info f)" x kv] by simp
  qed
  have "list_all2 (\<lambda>f kv. fst kv = text_octets (wire_name (fm_info f)) \<and> (o_validate_utf8 wo \<longrightarrow> validate_utf8 (wire_name (fm_info f)) = None)
      \<and> written wo (Suc d) (lower_field_value ?eng f (vs ! idx f)) (snd kv)) ?fs kvs"
    by (rule list.rel_mono_strong [OF kvs(3)]) (rule E)
  with kvs(1,2) ms show ?thesis by blast
qed

text \<open>An object is restored when its members are.\<close>

lemma put_all:
  assumes "set fs = set (build_fields c)" "wf_type (dt_class c ts vs0)" "have_types ts vs" "have_types ts ws"
  shows "put_members ((!) vs) fs ws = vs"
proof (rule nth_equalityI)
  show "length (put_members ((!) vs) fs ws) = length vs" using assms(3,4) by (simp add: have_types_nth)
  fix i assume "i < length (put_members ((!) vs) fs ws)"
  then have i: "i < length ws" "i < length (build_fields c)" using assms(2,4) by (simp_all add: have_types_nth)
  then have "i \<in> idx ` set fs"
    using field_at [OF assms(2) i(2)] assms(1) by (metis image_eqI nth_mem)
  with i(1) show "put_members ((!) vs) fs ws ! i = vs ! i" by (intro put_members_nth)
qed

lemma all_seen:
  assumes "set fs = set (build_fields c)" "wf_type (dt_class c ts vs0)"
  shows "\<forall>(f, t)\<in>set (zip (build_fields c) ts). put_members (\<lambda>i. True) fs (replicate (length (build_schema c)) False) ! idx f"
proof clarify
  fix f t assume "(f, t) \<in> set (zip (build_fields c) ts)"
  then have f: "f \<in> set (build_fields c)" by (rule set_zip_leftD)
  then have "idx f < length (build_schema c)"
    using field_at [OF assms(2)] by (auto simp: in_set_conv_nth build_schema_def build_fields_def)
  with f assms(1) show "put_members (\<lambda>i. True) fs (replicate (length (build_schema c)) False) ! idx f"
    by (subst put_members_nth) auto
qed

lemma class_restores:
  assumes c: "compatible wo ro" "plain_class c" "wf_type (dt_class c ts vs0)" "have_types ts vs"
    and emit: "\<forall>f\<in>set (build_fields c). will_emit (cbor_engine wo codecs df) f (vs ! idx f)"
    and w: "written wo d (lower_struct (cbor_engine wo codecs df) c vs [] []) bs"
    and small: "length bs < n" "length bs < 2 ^ 64"
    and IH: "\<And>f b. f \<in> set (build_fields c) \<Longrightarrow> written wo (Suc d) (lower_field_value (cbor_engine wo codecs df) f (vs ! idx f)) b
      \<Longrightarrow> length b < length bs
      \<Longrightarrow> restores (Suc d) (has_type (ts ! idx f)) (decode_field_value (cbor_reader ro user) n f (ts ! idx f)) b (vs ! idx f)"
  shows "(\<exists>kvs. bs = map_octets kvs)
    \<and> restores d (has_type (dt_class c ts vs0)) (decode_class (cbor_reader ro user) n [] (dt_class c ts vs0)) bs (v_class c vs)"
proof -
  from written_object [OF c emit w] obtain fs kvs where kvs: "bs = map_octets kvs" "d < o_max_depth ro" "mset fs = mset (build_fields c)"
    "list_all2 (\<lambda>f kv. fst kv = text_octets (wire_name (fm_info f))
        \<and> (o_validate_utf8 wo \<longrightarrow> validate_utf8 (wire_name (fm_info f)) = None)
        \<and> written wo (Suc d) (lower_field_value (cbor_engine wo codecs df) f (vs ! idx f)) (snd kv)) fs kvs" by blast
  have nodet: "\<not> o_require_deterministic ro" using c(1) by (simp add: compatible_def)
  have fs: "set fs = set (build_fields c)" using kvs(3) by (rule mset_eq_setD)
  have len: "length kvs = length fs" using kvs(4) by (simp add: list_all2_lengthD)
  have "\<forall>kv\<in>set kvs. fst kv \<noteq> []"
  proof
    fix kv assume "kv \<in> set kvs"
    then obtain i where "i < length kvs" "kv = kvs ! i" by (auto simp: in_set_conv_nth)
    with list_all2_nthD2 [OF kvs(4) this(1)] show "fst kv \<noteq> []" by simp
  qed
  then have cnt: "length fs < length bs" using length_map_octets [of kvs] by (simp add: kvs(1) len)
  have dist: "distinct (map idx fs)"
  proof -
    have "mset (map idx fs) = mset (map idx (build_fields c))" using kvs(3) by simp
    also have "map idx (build_fields c) = [0..<length ts]" using c(3) by simp
    finally show ?thesis by (metis distinct_upt mset_eq_imp_distinct_iff)
  qed
  have parts: "list_all2 (\<lambda>f kv. key_ok ro (wire_name (fm_info f)) (fst kv)
      \<and> restores (Suc d) (has_type (ts ! idx f)) (decode_field_value (cbor_reader ro user) n f (ts ! idx f)) (snd kv) (vs ! idx f)) fs kvs"
  proof (rule list.rel_mono_strong [OF kvs(4)])
    fix f kv assume f: "f \<in> set fs" and kv: "kv \<in> set kvs" and p: "fst kv = text_octets (wire_name (fm_info f))
        \<and> (o_validate_utf8 wo \<longrightarrow> validate_utf8 (wire_name (fm_info f)) = None)
        \<and> written wo (Suc d) (lower_field_value (cbor_engine wo codecs df) f (vs ! idx f)) (snd kv)"
    have l: "length (fst kv) + length (snd kv) < length bs" using length_pair_bytes [OF kv] by (simp add: kvs(1))
    have "length (wire_name (fm_info f)) \<le> length (fst kv)" using p by (simp add: text_octets_def)
    then have "key_ok ro (wire_name (fm_info f)) (fst kv)"
      using l small(2) p c(1) by (simp add: key_ok_def compatible_def)
    moreover have "restores (Suc d) (has_type (ts ! idx f)) (decode_field_value (cbor_reader ro user) n f (ts ! idx f)) (snd kv) (vs ! idx f)"
      using f fs p l by (intro IH) auto
    ultimately show "key_ok ro (wire_name (fm_info f)) (fst kv)
      \<and> restores (Suc d) (has_type (ts ! idx f)) (decode_field_value (cbor_reader ro user) n f (ts ! idx f)) (snd kv) (vs ! idx f)" ..
  qed
  let ?dec = "\<lambda>f. decode_field_value (cbor_reader ro user) n f (ts ! idx f)"
  let ?members = "map (\<lambda>(f, u). (f, decode_field_value (cbor_reader ro user) n f u)) (zip (build_fields c) ts)"
  let ?seen = "replicate (length (build_schema c)) False"
  have ready: "\<forall>f\<in>set fs. member_ready ro user c ts ?members ?dec f \<and> \<not> ?seen ! idx f"
  proof
    fix f assume f: "f \<in> set fs"
    then have "idx f < length (build_schema c)"
      using fs field_at [OF c(3)] by (auto simp: in_set_conv_nth build_schema_def build_fields_def)
    then show "member_ready ro user c ts ?members ?dec f \<and> \<not> ?seen ! idx f"
      using plain_member_ready [OF c(3,2), where h = "decode_field_value (cbor_reader ro user) n"] f fs by simp
  qed
  have "restores d (has_type (dt_class c ts vs0)) (decode_class (cbor_reader ro user) n [] (dt_class c ts vs0)) bs (v_class c vs)"
  proof (rule restoresI)
    fix old r assume old: "has_type (dt_class c ts vs0) old" and a: "ahead bs r" and d: "r_depth r = d"
    from old obtain ws where ws: "old = v_class c ws" "have_types ts ws" by (auto simp: have_types_def split: cval.splits)
    from map_enter [OF a [unfolded kvs(1)] nodet] kvs(2) d obtain r1 cur where
      r1: "expect_map ro r = (Inr cur, r1)" "c_remaining cur = Some (of_nat (length fs))" "ahead (concat (map pair_bytes kvs)) r1"
        "past (length (make_head major_map (of_nat (length fs)))) (r\<lparr>r_depth := Suc d\<rparr>) r1" by (auto simp: len)
    have d1: "r_depth r1 = Suc d" using r1(4) by (simp add: past_def)
    have "length fs < n" "length fs < 2 ^ 64" using cnt small by simp_all
    from struct_loop_restores [OF nodet plain_class_unkeyed [OF c(2)] c(4) r1(3) d1 r1(2) this ready parts dist ws(2), of "[]"] obtain r' where
      r': "struct_loop (cbor_reader ro user) n c [] ?members cur ws ?seen r1 =
        Some ((Inr (), (put_members ((!) vs) fs ws, put_members (\<lambda>i. True) fs ?seen)), r')"
        "past (length (concat (map pair_bytes kvs))) (r1\<lparr>r_depth := d\<rparr>) r'" by auto
    have "\<not> ti_transparent (build_type_info c)" using c(2) by (simp add: plain_class_def)
    then have "decode_class (cbor_reader ro user) n [] (dt_class c ts vs0) old r = Some ((Inr (), v_class c vs), r')"
      using r1(1) r'(1) put_all [OF fs c(3,4) ws(2)]
      by (simp add: nothing_missing [OF all_seen [OF fs c(3)]] decode_class.simps class_of_def elems_of_def ws(1) decode_struct_def decode_object_def rewrap_def returns_def)
    moreover have "past (length bs) r r'"
      using r1(4) r'(2) d by (simp add: past_def kvs(1) map_octets_def len)
    ultimately show "\<exists>r'. decode_class (cbor_reader ro user) n [] (dt_class c ts vs0) old r = Some ((Inr (), v_class c vs), r')
      \<and> past (length bs) r r'" by blast
  qed
  with kvs(1) show ?thesis by blast
qed

section \<open>How an encoding begins\<close>

text \<open>With a head that is no tag, and null only where an optional may be.\<close>

definition opens :: "bool \<Rightarrow> bytes \<Rightarrow> bool" where
  "opens null bs \<longleftrightarrow> (\<exists>m a rest. bs = make_head m a @ rest \<and> m \<noteq> major_tag
     \<and> (m = major_simple \<longrightarrow> a = 20 \<or> a = 21 \<or> null \<and> a = 22))
   \<or> (\<exists>a arg. bs = float_octets a arg \<and> float_width_ok a arg)"

lemma opens_cases:
  assumes "opens null bs"
  obtains m a rest where "bs = make_head m a @ rest" "m \<noteq> major_tag" "m = major_simple \<longrightarrow> a = 20 \<or> a = 21 \<or> null \<and> a = 22"
  | a arg where "bs = float_octets a arg @ []" "float_width_ok a arg"
  using assms unfolding opens_def by auto

lemma opens_float: "float_width_ok a arg \<Longrightarrow> opens null (float_octets a arg)"
  by (auto simp: opens_def)

lemma opens_weaken: "opens False bs \<Longrightarrow> opens null bs"
  by (auto simp: opens_def)

lemma opens_nonempty: "opens null bs \<Longrightarrow> bs \<noteq> []"
  by (auto simp: opens_def float_octets_def)

lemma opensI:
  "m \<noteq> major_tag \<Longrightarrow> (m = major_simple \<Longrightarrow> a = 20 \<or> a = 21 \<or> null \<and> a = 22) \<Longrightarrow> opens null (make_head m a @ rest)"
  unfolding opens_def by (rule disjI1, rule exI [of _ m], rule exI [of _ a], rule exI [of _ rest]) blast

lemma opens_heads:
  "m \<noteq> major_tag \<Longrightarrow> m \<noteq> major_simple \<Longrightarrow> opens null (make_head m a @ rest)"
  "opens null (make_head major_simple (if b then 21 else 20))" "opens True (make_head major_simple 22)"
  using opensI [of m a null rest] opensI [of major_simple "if b then 21 else 20" null "[]"] opensI [of major_simple 22 True "[]"]
  by simp_all

lemma opens_shapes:
  "opens null (make_head major_uint u)" "opens null (if c then make_head major_uint u else make_head major_nint w)"
  "opens null (text_octets t)" "opens null (array_octets bss)" "opens null (map_octets kvs)"
  using opens_heads(1) [of major_uint null _ "[]"] opens_heads(1) [of major_nint null _ "[]"]
  by (auto simp: text_octets_def array_octets_def map_octets_def opens_heads(1))

lemma opens_peek:
  assumes "opens False bs" "ahead bs r"
  shows "peek opts r \<noteq> kind_null"
  using assms(1)
proof (cases rule: opens_cases)
  case (1 m a rest)
  have "head_ai 20 = 20" "head_ai 21 = 21" by (simp_all add: head_ai_def)
  with 1 peek_ahead [of m a rest r opts] assms(2) show ?thesis by (cases m) auto
next
  case (2 a arg)
  with peek_float [of a arg "[]" r opts] assms(2) show ?thesis by simp
qed

lemma opens_raw: "opens null bs \<Longrightarrow> ahead bs r \<Longrightarrow> \<exists>h. raw_head r = (Inr h, r) \<and> mt h \<noteq> major_tag"
  using raw_head_float [of _ _ "[]"] by (auto simp: raw_head_ahead float_head_def elim!: opens_cases)

lemma opens_range:
  assumes "opens null bs" "ahead bs r" "cbor_read_range opts t = Some f"
  shows "f old r = (Inr False, old, r)"
proof -
  obtain h where "raw_head r = (Inr h, r)" "mt h \<noteq> major_tag" using opens_raw [OF assms(1,2)] by blast
  then show ?thesis using assms(3) by (auto simp: cbor_read_range_def read_range_def split: option.splits)
qed

section \<open>Types\<close>

text \<open>What is written of any value of the type is read back as that value.\<close>

definition round_trips :: "writer Core_Traverse.engine \<Rightarrow> cbor_options \<Rightarrow> nat \<Rightarrow> dtype \<Rightarrow> (field_meta \<Rightarrow> cval \<Rightarrow> aitem option)
    \<Rightarrow> (field_meta \<Rightarrow> cval \<Rightarrow> creader \<Rightarrow> (cval, creader) outcome) \<Rightarrow> bool" where
  "round_trips eng wo n t low dec \<longleftrightarrow> (\<forall>F d v bs. plain_field F \<longrightarrow> has_type t v \<longrightarrow> regular (o_deterministic wo) eng t v \<longrightarrow> written wo d (low F v) bs \<longrightarrow>
     length bs < n \<longrightarrow> length bs < 2 ^ 64 \<longrightarrow> opens (optional_type t \<noteq> None) bs \<and> restores d (has_type t) (dec F) bs v)"

lemma round_tripsD:
  "round_trips eng wo n t low dec \<Longrightarrow> plain_field F \<Longrightarrow> has_type t v \<Longrightarrow> regular (o_deterministic wo) eng t v \<Longrightarrow> written wo d (low F v) bs \<Longrightarrow>
     length bs < n \<Longrightarrow> length bs < 2 ^ 64 \<Longrightarrow> opens (optional_type t \<noteq> None) bs \<and> restores d (has_type t) (dec F) bs v"
  by (simp add: round_trips_def)

lemma round_tripsI:
  "(\<And>F d v bs. plain_field F \<Longrightarrow> has_type t v \<Longrightarrow> regular (o_deterministic wo) eng t v \<Longrightarrow> written wo d (low F v) bs \<Longrightarrow>
     length bs < n \<Longrightarrow> length bs < 2 ^ 64 \<Longrightarrow> opens (optional_type t \<noteq> None) bs \<and> restores d (has_type t) (dec F) bs v)
   \<Longrightarrow> round_trips eng wo n t low dec"
  by (simp add: round_trips_def)

text \<open>The elements of an array.\<close>

lemma length_concat_member: "b \<in> set bss \<Longrightarrow> length b < length (array_octets bss)"
  by (auto dest!: split_list simp: array_octets_def)

lemma written_elements:
  assumes "written wo d (map_option (a_array h) (those (map g vs))) bs" "compatible wo ro" "cbor_array wo h = Some True"
    and "length bs < n" "length bs < 2 ^ 64"
    and "\<And>i b. i < length vs \<Longrightarrow> written wo (Suc d) (g (vs ! i)) b \<Longrightarrow> length b < length bs \<Longrightarrow>
      opens (null i) b \<and> restores (Suc d) (P i) (dec i) b (vs ! i)"
  shows "\<exists>bss. bs = array_octets bss \<and> d < o_max_depth ro \<and> length bss = length vs \<and> length vs < n \<and> length vs < 2 ^ 64
    \<and> (\<forall>i<length vs. bss ! i \<noteq> [] \<and> restores (Suc d) (P i) (dec i) (bss ! i) (vs ! i))"
proof -
  from written_array [OF assms(1-3)] obtain bss where bss: "bs = make_head major_array (of_nat (length vs)) @ concat bss"
    "d < o_max_depth ro" "list_all2 (\<lambda>v. written wo (Suc d) (g v)) vs bss" by blast
  have len: "length bss = length vs" using bss(3) by (simp add: list_all2_lengthD)
  have bs: "bs = array_octets bss" using bss(1) len by (simp add: array_octets_def)
  have el: "opens (null i) (bss ! i) \<and> restores (Suc d) (P i) (dec i) (bss ! i) (vs ! i)" if "i < length vs" for i
    using assms(6) [OF that] list_all2_nthD [OF bss(3) that] length_concat_member [of "bss ! i" bss] that len by (simp add: bs)
  have "length bss \<le> length (concat (map (\<lambda>b. b) bss))"
    using el opens_nonempty len by (intro length_le_concat) (fastforce simp: in_set_conv_nth)
  then have "length vs < length bs" using len bss(1) by simp
  with assms(4,5) el opens_nonempty bs len bss(2) show ?thesis by (intro exI [of _ bss]) fastforce
qed

subsection \<open>Each shape\<close>

text \<open>A value, the same behind the check for a codec, and a member with its tags and typed arrays.\<close>

abbreviation shape_rt where
  "shape_rt wo codecs df ro user n t \<equiv> round_trips (cbor_engine wo codecs df) wo n t
     (lower_shape (cbor_engine wo codecs df)) (\<lambda>F. decode_shape (cbor_reader ro user) n F t)"

abbreviation value_rt where
  "value_rt wo codecs df ro user n t \<equiv> round_trips (cbor_engine wo codecs df) wo n t
     (lower_value (cbor_engine wo codecs df)) (\<lambda>F. decode_value (cbor_reader ro user) n F t)"

abbreviation field_rt where
  "field_rt wo codecs df ro user n t \<equiv> round_trips (cbor_engine wo codecs df) wo n t
     (lower_field_value (cbor_engine wo codecs df)) (\<lambda>F. decode_field_value (cbor_reader ro user) n F t)"

lemma decode_leaves:
  "decode_shape ops n F dt_char = decode_char ops"
  "decode_shape ops n F (dt_uint b ty) = decode_uint ops F b ty"
  "decode_shape ops n F (dt_sint b ty) = decode_sint ops F b ty"
  "decode_shape ops n F (dt_real single) = decode_real ops single"
  "decode_shape ops n F (dt_enum e sg b ty) = decode_enum ops F e sg b ty"
  "decode_shape ops n F (dt_string view ty) = decode_string ops F view ty"
  "decode_shape ops n F (dt_span ty) = decode_span ops F ty"
  "ft_is_bytes (rd_traits ops) be (fm_annotations F) \<Longrightarrow> decode_shape ops n F (dt_byte_range be dest ty) = decode_octets ops F be dest"
  by (rule ext, rule ext, simp)+

lemma leaf_round_trips:
  assumes "compatible wo ro"
  shows "shape_rt wo codecs df ro user n dt_bool" "shape_rt wo codecs df ro user n dt_char"
    "shape_rt wo codecs df ro user n (dt_uint b ty)" "shape_rt wo codecs df ro user n (dt_sint b ty)"
    "shape_rt wo codecs df ro user n (dt_string view ty)"
proof -
  have nodet: "\<not> o_require_deterministic ro" and utf: "o_validate_utf8 ro \<longrightarrow> o_validate_utf8 wo"
    using assms by (simp_all add: compatible_def)
  note leaf = written_leaf [where eng = "cbor_engine wo codecs df"]
  show "shape_rt wo codecs df ro user n dt_bool"
  proof (rule round_tripsI)
    fix F d v bs assume v: "has_type dt_bool v" and p: "plain_field F" and w: "written wo d (lower_shape (cbor_engine wo codecs df) F v) bs"
    from v obtain x where x: "v = v_bool x" by (auto split: cval.splits)
    show "opens (optional_type dt_bool \<noteq> None) bs \<and> restores d (has_type dt_bool) (decode_shape (cbor_reader ro user) n F dt_bool) bs v"
      unfolding leaf(1) [OF w p x] x using boolean_restores [OF nodet] opens_heads(2) by blast
  qed
  show "shape_rt wo codecs df ro user n (dt_uint b ty)"
  proof (rule round_tripsI)
    fix F d v bs assume v: "has_type (dt_uint b ty) v" and p: "plain_field F" and w: "written wo d (lower_shape (cbor_engine wo codecs df) F v) bs"
    from v obtain u where u: "v = v_uint u" "unsigned_fits b u" by (auto split: cval.splits)
    show "opens (optional_type (dt_uint b ty) \<noteq> None) bs
        \<and> restores d (has_type (dt_uint b ty)) (decode_shape (cbor_reader ro user) n F (dt_uint b ty)) bs v"
      unfolding leaf(3) [OF w p u(1)] decode_leaves u(1) using uint_restores [OF nodet u(2)] opens_shapes(1) by blast
  qed
  show "shape_rt wo codecs df ro user n (dt_sint b ty)"
  proof (rule round_tripsI)
    fix F d v bs assume v: "has_type (dt_sint b ty) v" and p: "plain_field F" and w: "written wo d (lower_shape (cbor_engine wo codecs df) F v) bs"
    from v obtain i where i: "v = v_sint i" "signed_fits b i" by (auto split: cval.splits)
    from leaf(4) [OF w p i(1)] sint_restores [OF nodet i(2)]
    show "opens (optional_type (dt_sint b ty) \<noteq> None) bs
        \<and> restores d (has_type (dt_sint b ty)) (decode_shape (cbor_reader ro user) n F (dt_sint b ty)) bs v"
      by (simp add: i(1) opens_shapes(1,2) decode_leaves)
  qed
  show "shape_rt wo codecs df ro user n (dt_string view ty)"
  proof (rule round_tripsI)
    fix F d v bs assume v: "has_type (dt_string view ty) v" and p: "plain_field F"
      and w: "written wo d (lower_shape (cbor_engine wo codecs df) F v) bs" and l: "length bs < 2 ^ 64"
    from v obtain t where t: "v = v_string t" by (auto split: cval.splits)
    from leaf(5) [OF w p t] l utf have "bs = text_octets t" "length t < 2 ^ 64" "o_validate_utf8 ro \<longrightarrow> validate_utf8 t = None"
      by (auto simp: text_octets_def)
    with text_restores(1) [OF nodet this(2,3)]
    show "opens (optional_type (dt_string view ty) \<noteq> None) bs
        \<and> restores d (has_type (dt_string view ty)) (decode_shape (cbor_reader ro user) n F (dt_string view ty)) bs v"
      by (simp add: t opens_shapes(3) decode_leaves)
  qed
  show "shape_rt wo codecs df ro user n dt_char"
  proof (rule round_tripsI)
    fix F d v bs assume v: "has_type dt_char v" and p: "plain_field F"
      and w: "written wo d (lower_shape (cbor_engine wo codecs df) F v) bs" and l: "length bs < 2 ^ 64"
    from v obtain c where c: "v = v_char c" by (auto split: cval.splits)
    from leaf(2) [OF w p c] utf have "bs = text_octets [c]" "length [c] < 2 ^ 64" "o_validate_utf8 ro \<longrightarrow> validate_utf8 [c] = None"
      by auto
    with text_restores(2) [OF nodet this(2,3) refl]
    show "opens (optional_type dt_char \<noteq> None) bs \<and> restores d (has_type dt_char) (decode_shape (cbor_reader ro user) n F dt_char) bs v"
      by (simp add: c opens_shapes(3) decode_leaves)
  qed
qed

lemma real_round_trips:
  assumes "compatible wo ro"
  shows "shape_rt wo codecs df ro user n (dt_real single)"
proof (rule round_tripsI)
  fix F d v bs assume v: "has_type (dt_real single) v" and p: "plain_field F"
    and reg: "regular (o_deterministic wo) (cbor_engine wo codecs df) (dt_real single) v"
    and w: "written wo d (lower_shape (cbor_engine wo codecs df) F v) bs"
  from v reg obtain x where x: "v = v_real x" "\<not> is_nan x" "single \<longrightarrow> fits_single x" by (auto split: cval.splits)
  obtain a arg where a: "bs = float_octets a arg" "float_width_ok a arg" "float_value (float_head a arg) = x"
    using written_real [OF w [unfolded x(1)] p assms x(2)] by blast
  have "\<not> o_require_deterministic ro" using assms by (simp add: compatible_def)
  from real_restores [OF this a(2,3) x(2,3)] opens_float [OF a(2)]
  show "opens (optional_type (dt_real single) \<noteq> None) bs
      \<and> restores d (has_type (dt_real single)) (decode_shape (cbor_reader ro user) n F (dt_real single)) bs v"
    unfolding decode_leaves a(1) x(1) by blast
qed

lemma enum_round_trips:
  assumes "compatible wo ro" "plain_type (dt_enum e sg b ty)"
  shows "shape_rt wo codecs df ro user n (dt_enum e sg b ty)"
proof (rule round_tripsI)
  fix F d v bs assume v: "has_type (dt_enum e sg b ty) v" and p: "plain_field F"
    and reg: "regular (o_deterministic wo) (cbor_engine wo codecs df) (dt_enum e sg b ty) v"
    and w: "written wo d (lower_shape (cbor_engine wo codecs df) F v) bs"
  from v reg obtain i where i: "v = v_enum e sg i" "i \<in> ei_value ` set (build_enum_schema e)"
    "\<forall>x\<in>set (build_enum_schema e). ei_value x = i \<longrightarrow> \<not> ei_skipped x" by (auto split: cval.splits)
  have e: "enum_encodes_as_integer e [] True" "0 < b" "b \<le> 64"
    "\<forall>x\<in>set (build_enum_schema e). to_underlying sg b (ei_value x) = ei_value x" using assms(2) by simp_all
  have nodet: "\<not> o_require_deterministic ro" using assms(1) by (simp add: compatible_def)
  have "ft_enum_default_integer (eng_traits (cbor_engine wo codecs df))" by (simp add: cbor_engine_def cbor_format_traits_def)
  note bs = written_enum [OF w [unfolded i(1)] p e(1) this]
  have "opens (optional_type (dt_enum e sg b ty) \<noteq> None) bs"
    unfolding bs Let_def by (simp add: opens_shapes(1,2))
  moreover have "restores d (has_type (dt_enum e sg b ty)) (decode_enum (cbor_reader ro user) F e sg b ty) bs v"
    unfolding bs i(1) by (rule enum_restores [OF nodet plain_enum_integer [OF e(1) p] e(2-4) i(2,3)])
  ultimately show "opens (optional_type (dt_enum e sg b ty) \<noteq> None) bs
      \<and> restores d (has_type (dt_enum e sg b ty)) (decode_shape (cbor_reader ro user) n F (dt_enum e sg b ty)) bs v"
    by (simp add: decode_leaves)
qed

lemma octets_round_trips:
  assumes "compatible wo ro"
  shows "shape_rt wo codecs df ro user n (dt_span ty)" "shape_rt wo codecs df ro user n (dt_byte_range True dest ty)"
proof -
  have nodet: "\<not> o_require_deterministic ro" using assms by (simp add: compatible_def)
  have w: "bs = make_head major_bytes (of_nat (length b)) @ b"
    if "written wo d (lower_shape (cbor_engine wo codecs df) F (v_byte_range True b)) bs" "plain_field F" for F d b bs
    using that by (auto simp: written_def cbor_engine_def cbor_format_traits_def plain_field_def chunked_def split: if_splits)
  have o: "opens null (make_head major_bytes (of_nat (length b)) @ b)" for null b
    by (rule opens_heads) simp_all
  show "shape_rt wo codecs df ro user n (dt_span ty)"
  proof (rule round_tripsI)
    fix F d v bs assume v: "has_type (dt_span ty) v" and p: "plain_field F"
      and wr: "written wo d (lower_shape (cbor_engine wo codecs df) F v) bs" and l: "length bs < 2 ^ 64"
    from v obtain b where b: "v = v_byte_range True b" by (auto split: cval.splits)
    have bs: "bs = make_head major_bytes (of_nat (length b)) @ b" using w [OF wr [unfolded b] p] .
    then have "length b < 2 ^ 64" using l by simp
    from octets_restores(1) [OF nodet this] o bs
    show "opens (optional_type (dt_span ty) \<noteq> None) bs
        \<and> restores d (has_type (dt_span ty)) (decode_shape (cbor_reader ro user) n F (dt_span ty)) bs v"
      by (simp add: b decode_leaves)
  qed
  show "shape_rt wo codecs df ro user n (dt_byte_range True dest ty)"
  proof (rule round_tripsI)
    fix F d v bs assume v: "has_type (dt_byte_range True dest ty) v" and p: "plain_field F"
      and wr: "written wo d (lower_shape (cbor_engine wo codecs df) F v) bs" and l: "length bs < 2 ^ 64"
    from v obtain b where b: "v = v_byte_range True b" "case dest of bd_array k \<Rightarrow> length b = k | bd_vector \<Rightarrow> True"
      by (auto split: cval.splits)
    have bs: "bs = make_head major_bytes (of_nat (length b)) @ b" using w [OF wr [unfolded b(1)] p] .
    then have "length b < 2 ^ 64" using l by simp
    from octets_restores(2) [OF nodet this b(2)] o bs
    show "opens (optional_type (dt_byte_range True dest ty) \<noteq> None) bs
        \<and> restores d (has_type (dt_byte_range True dest ty)) (decode_shape (cbor_reader ro user) n F (dt_byte_range True dest ty)) bs v"
      by (simp add: b(1) decode_leaves cbor_format_traits_def)
  qed
qed

lemma sequence_round_trips:
  assumes "compatible wo ro" "plain_type (dt_sequence ct u)" "wf_type u" "value_rt wo codecs df ro user n u"
  shows "shape_rt wo codecs df ro user n (dt_sequence ct u)"
proof (rule round_tripsI)
  let ?eng = "cbor_engine wo codecs df"
  fix F d v bs assume v: "has_type (dt_sequence ct u) v" and p: "plain_field F" and reg: "regular (o_deterministic wo) ?eng (dt_sequence ct u) v"
    and w: "written wo d (lower_shape ?eng F v) bs" and l: "length bs < n" "length bs < 2 ^ 64"
  from v obtain vs where vs: "v = v_sequence (ct_sized ct) (ct_image ct vs) vs" "\<forall>w\<in>set vs. has_type u w" by (auto split: cval.splits)
  have nodet: "\<not> o_require_deterministic ro" using assms(1) by (simp add: compatible_def)
  have el: "opens (optional_type u \<noteq> None) b
      \<and> restores (Suc d) (\<lambda>w. True) (\<lambda>w. decode_value (cbor_reader ro user) n F u (initial_value u)) b (vs ! i)"
    if "i < length vs" "written wo (Suc d) (lower_value ?eng F (vs ! i)) b" "length b < length bs" for i b
    using round_tripsD [OF assms(4) p _ _ that(2)] that vs reg l initial_value_typed [OF assms(3)]
    by (simp add: restores_def)
  have h: "cbor_array wo (Some (fm_annotations F, True)) = Some True"
    using p by (simp add: chunked_def plain_field_def)
  have w': "written wo d (map_option (a_array (Some (fm_annotations F, True))) (those (map (lower_value ?eng F) vs))) bs"
    using w vs(1) assms(2) by simp
  from written_elements [OF w' assms(1) h l, where null = "\<lambda>i. optional_type u \<noteq> None" and P = "\<lambda>i w. True"
      and dec = "\<lambda>i w. decode_value (cbor_reader ro user) n F u (initial_value u)", OF el]
  obtain bss where bss: "bs = array_octets bss" "d < o_max_depth ro" "length bss = length vs" "length vs < n" "length vs < 2 ^ 64"
    "\<forall>i<length vs. bss ! i \<noteq> [] \<and> restores (Suc d) (\<lambda>w. True) (\<lambda>w. decode_value (cbor_reader ro user) n F u (initial_value u)) (bss ! i) (vs ! i)"
    by blast
  have app: "ct_append ct = (\<lambda>vs v. vs @ [v])" "ct_clears ct" using assms(2) by (auto intro!: ext)
  have "list_all2 (\<lambda>v b. b \<noteq> [] \<and> restores (Suc d) (\<lambda>w. True) (\<lambda>w. decode_value (cbor_reader ro user) n F u (initial_value u)) b v) vs bss"
    using bss(3,6) by (simp add: list_all2_conv_all_nth)
  note seq = sequence_restores [where user = user, OF nodet bss(2,4,5) this]
  have "restores d (has_type (dt_sequence ct u)) (decode_shape (cbor_reader ro user) n F (dt_sequence ct u)) bs v"
  proof (rule restoresI)
    fix old r assume a: "ahead bs r" and d: "r_depth r = d"
    from seq [where old = "elems_of old", OF a [unfolded bss(1)] d] app vs(1)
    show "\<exists>r'. decode_shape (cbor_reader ro user) n F (dt_sequence ct u) old r = Some ((Inr (), v), r') \<and> past (length bs) r r'"
      by (auto simp: rewrap_def returns_def bss(1))
  qed
  with bss(1) show "opens (optional_type (dt_sequence ct u) \<noteq> None) bs
      \<and> restores d (has_type (dt_sequence ct u)) (decode_shape (cbor_reader ro user) n F (dt_sequence ct u)) bs v"
    by (simp add: opens_shapes(4))
qed

text \<open>Arrays and tuples.\<close>

lemma places_round_trip:
  assumes "compatible wo ro" "length ts = length vs" "have_types ts vs"
    and "written wo d (map_option (a_array h) (those (map (lower_value (cbor_engine wo codecs df) F) vs))) bs" "cbor_array wo h = Some True"
    and "length bs < n" "length bs < 2 ^ 64" "plain_field F"
    and "\<And>t. t \<in> set ts \<Longrightarrow> value_rt wo codecs df ro user n t" "\<forall>i<length vs. regular (o_deterministic wo) (cbor_engine wo codecs df) (ts ! i) (vs ! i)"
  shows "opens null bs \<and> (\<forall>old r. have_types ts old \<longrightarrow> ahead bs r \<longrightarrow> r_depth r = d \<longrightarrow>
    (\<exists>r'. decode_positional (cbor_reader ro user) n (map (decode_value (cbor_reader ro user) n F) ts) old r = Some ((Inr (), vs), r')
      \<and> past (length bs) r r'))"
proof -
  let ?dec = "decode_value (cbor_reader ro user) n F"
  have nodet: "\<not> o_require_deterministic ro" using assms(1) by (simp add: compatible_def)
  have "opens (optional_type (ts ! i) \<noteq> None) b \<and> restores (Suc d) (has_type (ts ! i)) (?dec (ts ! i)) b (vs ! i)"
    if "i < length vs" "written wo (Suc d) (lower_value (cbor_engine wo codecs df) F (vs ! i)) b" "length b < length bs" for i b
    using round_tripsD [OF assms(9) assms(8) _ _ that(2), of "ts ! i"] that assms(2,3,6,7,10) by (simp add: have_types_nth)
  from written_elements [OF assms(4,1,5,6,7), where null = "\<lambda>i. optional_type (ts ! i) \<noteq> None" and P = "\<lambda>i. has_type (ts ! i)"
      and dec = "\<lambda>i. ?dec (ts ! i)", OF this]
  obtain bss where bss: "bs = array_octets bss" "d < o_max_depth ro" "length bss = length vs" "length vs < 2 ^ 64"
    "\<forall>i<length vs. bss ! i \<noteq> [] \<and> restores (Suc d) (has_type (ts ! i)) (?dec (ts ! i)) (bss ! i) (vs ! i)" by blast
  have "\<exists>r'. decode_positional (cbor_reader ro user) n (map ?dec ts) old r = Some ((Inr (), vs), r') \<and> past (length bs) r r'"
    if old: "have_types ts old" and a: "ahead bs r" and d: "r_depth r = d" for old r
  proof -
    have "list_all2 (\<lambda>P w. P w) (map has_type ts) old" using old by (simp add: list_all2_conv_all_nth have_types_nth)
    from positional_restores [OF nodet bss(2,4) _ this _ bss(3) _ a [unfolded bss(1)] d, of "map ?dec ts" user n] assms(2) bss(5)
    show ?thesis by (simp add: bss(1))
  qed
  then show ?thesis using bss(1) opens_shapes(4) by blast
qed

lemma tuple_round_trips:
  assumes "compatible wo ro" "\<And>t. t \<in> set ts \<Longrightarrow> value_rt wo codecs df ro user n t"
  shows "shape_rt wo codecs df ro user n (dt_tuple ts)"
proof (rule round_tripsI)
  let ?eng = "cbor_engine wo codecs df"
  fix F d v bs assume v: "has_type (dt_tuple ts) v" and p: "plain_field F" and reg: "regular (o_deterministic wo) ?eng (dt_tuple ts) v"
    and w: "written wo d (lower_shape ?eng F v) bs" and l: "length bs < n" "length bs < 2 ^ 64"
  from v obtain vs where vs: "v = v_tuple vs" "have_types ts vs" by (auto simp: have_types_def split: cval.splits)
  have len: "length ts = length vs" using vs(2) by (simp add: have_types_nth)
  have "\<forall>i<length vs. regular (o_deterministic wo) ?eng (ts ! i) (vs ! i)" using reg len by (force simp: vs(1) set_zip)
  from places_round_trip [OF assms(1) len vs(2) w [unfolded vs(1) lower_shape.simps] _ l p assms(2) this]
  have b: "opens False bs" "\<And>old r. have_types ts old \<Longrightarrow> ahead bs r \<Longrightarrow> r_depth r = d \<Longrightarrow>
    \<exists>r'. decode_positional (cbor_reader ro user) n (map (decode_value (cbor_reader ro user) n F) ts) old r = Some ((Inr (), vs), r')
      \<and> past (length bs) r r'" by auto
  have "restores d (has_type (dt_tuple ts)) (decode_shape (cbor_reader ro user) n F (dt_tuple ts)) bs v"
  proof (rule restoresI)
    fix old r assume old: "has_type (dt_tuple ts) old" and a: "ahead bs r" "r_depth r = d"
    from old obtain ws where ws: "old = v_tuple ws" "have_types ts ws" by (auto simp: have_types_def split: cval.splits)
    from b(2) [OF ws(2) a] show "\<exists>r'. decode_shape (cbor_reader ro user) n F (dt_tuple ts) old r = Some ((Inr (), v), r') \<and> past (length bs) r r'"
      by (auto simp: ws(1) vs(1) elems_of_def rewrap_def returns_def)
  qed
  with opens_weaken [OF b(1)] show "opens (optional_type (dt_tuple ts) \<noteq> None) bs
      \<and> restores d (has_type (dt_tuple ts)) (decode_shape (cbor_reader ro user) n F (dt_tuple ts)) bs v" by blast
qed

lemma array_round_trips:
  assumes "compatible wo ro" "value_rt wo codecs df ro user n u"
  shows "shape_rt wo codecs df ro user n (dt_array k im u)"
proof (rule round_tripsI)
  let ?eng = "cbor_engine wo codecs df" and ?ts = "replicate k u"
  fix F d v bs assume v: "has_type (dt_array k im u) v" and p: "plain_field F" and reg: "regular (o_deterministic wo) ?eng (dt_array k im u) v"
    and w: "written wo d (lower_shape ?eng F v) bs" and l: "length bs < n" "length bs < 2 ^ 64"
  from v obtain vs where vs: "v = v_sequence True (im vs) vs" "have_types ?ts vs" by (auto simp: have_types_replicate split: cval.splits)
  have len: "length ?ts = length vs" using vs(2) by (simp add: have_types_replicate)
  have h: "cbor_array wo (Some (fm_annotations F, True)) = Some True"
    using p by (simp add: chunked_def plain_field_def)
  have "\<forall>i<length vs. regular (o_deterministic wo) ?eng (?ts ! i) (vs ! i)" using reg len by (simp add: vs(1))
  from places_round_trip [OF assms(1) len vs(2) w [unfolded vs(1) lower_shape.simps] h l p _ this] assms(2)
  have b: "opens False bs" "\<And>old r. have_types ?ts old \<Longrightarrow> ahead bs r \<Longrightarrow> r_depth r = d \<Longrightarrow>
    \<exists>r'. decode_positional (cbor_reader ro user) n (map (decode_value (cbor_reader ro user) n F) ?ts) old r = Some ((Inr (), vs), r')
      \<and> past (length bs) r r'" by auto
  have "restores d (has_type (dt_array k im u)) (decode_shape (cbor_reader ro user) n F (dt_array k im u)) bs v"
  proof (rule restoresI)
    fix old r assume old: "has_type (dt_array k im u) old" and a: "ahead bs r" "r_depth r = d"
    from old obtain ws where ws: "old = v_sequence True (im ws) ws" "have_types ?ts ws"
      by (auto simp: have_types_replicate split: cval.splits)
    from b(2) [OF ws(2) a] show "\<exists>r'. decode_shape (cbor_reader ro user) n F (dt_array k im u) old r = Some ((Inr (), v), r')
        \<and> past (length bs) r r'"
      by (auto simp: ws(1) vs(1) elems_of_def rewrap_def returns_def)
  qed
  with opens_weaken [OF b(1)] show "opens (optional_type (dt_array k im u) \<noteq> None) bs
      \<and> restores d (has_type (dt_array k im u)) (decode_shape (cbor_reader ro user) n F (dt_array k im u)) bs v" by blast
qed

lemma map_round_trips:
  assumes "compatible wo ro" "plain_type (dt_map mc md kt u)" "wf_type (dt_map mc md kt u)" "value_rt wo codecs df ro user n u"
  shows "shape_rt wo codecs df ro user n (dt_map mc md kt u)"
proof (rule round_tripsI)
  let ?eng = "cbor_engine wo codecs df" and ?dec = "\<lambda>F. decode_value (cbor_reader ro user) n F u"
  fix F d v bs assume v: "has_type (dt_map mc md kt u) v" and p: "plain_field F" and reg: "regular (o_deterministic wo) ?eng (dt_map mc md kt u) v"
    and w: "written wo d (lower_shape ?eng F v) bs" and l: "length bs < n" "length bs < 2 ^ 64"
  from v obtain es where es: "v = v_map (mc_sized mc) es" "\<forall>e\<in>set es. key_has_type kt (fst e) \<and> has_type u (snd e)"
    by (cases v) (simp_all add: split_beta)
  from assms(2) obtain view where kt: "kt = mkt_string view" by (auto split: map_key_type.splits)
  have nodet: "\<not> o_require_deterministic ro" and utf: "o_validate_utf8 ro \<longrightarrow> o_validate_utf8 wo"
    using assms(1) by (simp_all add: compatible_def)
  have h: "cbor_form wo (mf_field (fm_annotations F) (mc_sized mc)) = Some map_sized"
    using p assms(2) by (simp add: chunked_def plain_field_def)
  from written_map [OF w [unfolded es(1) lower_shape.simps] assms(1) h] obtain es' kvs where
    kvs: "bs = map_octets kvs" "d < o_max_depth ro"
      "list_all2 (\<lambda>e. entry_written wo (Suc d) (map_option (Pair (key_call_of (fst e))) (lower_value ?eng F (snd e)))) es' kvs"
    and ms: "mset es' = mset es" "\<not> o_deterministic wo \<longrightarrow> es' = es" by auto
  have same: "set es' = set es" using ms(1) by (rule mset_eq_setD)
  have parts: "list_all2 (\<lambda>e kv. \<exists>k. fst e = mk_string k \<and> key_ok ro k (fst kv) \<and> restores (Suc d) (has_type u) (?dec F) (snd kv) (snd e)) es' kvs"
  proof (rule list.rel_mono_strong [OF kvs(3)])
    fix e kv assume e': "e \<in> set es'" and kv: "kv \<in> set kvs"
      and ew: "entry_written wo (Suc d) (map_option (Pair (key_call_of (fst e))) (lower_value ?eng F (snd e))) kv"
    have e: "e \<in> set es" using e' same by simp
    from e es(2) kt obtain k where k: "fst e = mk_string k" by (cases "fst e") auto
    obtain x where x: "lower_value ?eng F (snd e) = Some x" using ew by (auto simp: entry_written_def)
    from text_key_written(1) [of wo "Suc d" k x kv] ew k x
    have t: "fst kv = text_octets k" "o_validate_utf8 wo \<longrightarrow> validate_utf8 k = None" "written wo (Suc d) (lower_value ?eng F (snd e)) (snd kv)"
      by simp_all
    have len: "length (fst kv) + length (snd kv) < length bs" using length_pair_bytes [OF kv] by (simp add: kvs(1))
    have "key_ok ro k (fst kv)" using t(1,2) utf len l by (simp add: key_ok_def text_octets_def)
    moreover have "restores (Suc d) (has_type u) (?dec F) (snd kv) (snd e)"
      using round_tripsD [OF assms(4) p _ _ t(3)] e es reg len l by fastforce
    ultimately show "\<exists>k. fst e = mk_string k \<and> key_ok ro k (fst kv) \<and> restores (Suc d) (has_type u) (?dec F) (snd kv) (snd e)"
      using k by blast
  qed
  have "\<forall>kv\<in>set kvs. fst kv \<noteq> []"
  proof
    fix kv assume "kv \<in> set kvs"
    then obtain i where "i < length kvs" "kv = kvs ! i" by (auto simp: in_set_conv_nth)
    with list_all2_nthD2 [OF parts this(1)] show "fst kv \<noteq> []" by (auto simp: key_ok_def text_octets_def)
  qed
  then have "length es' < length bs" using length_map_octets [of kvs] list_all2_lengthD [OF parts] by (simp add: kvs(1))
  then have cnt: "length es' < n" "length es' < 2 ^ 64" using l by simp_all
  have mc: "\<And>es e. set (mc_insert mc es e) \<subseteq> insert e (set es)" using assms(3) by auto
  have clears: "mc_clears mc" and wu: "wf_type u" using assms(2,3) by simp_all
  have io: "distinct (map fst es)" "insert_all mc es' [] = es"
    using reg ms by (auto simp: es(1) in_order_def)
  have dist: "distinct (map fst es')"
    using mset_eq_imp_distinct_iff [of "map fst es'" "map fst es"] ms(1) io(1) by simp
  note m = map_restores [where user = user and F = F and md = md and view = view, OF nodet kvs(2) cnt initial_value_typed [OF wu] mc clears parts]
  have "restores d (has_type (dt_map mc md kt u)) (decode_shape (cbor_reader ro user) n F (dt_map mc md kt u)) bs v"
  proof (rule restoresI)
    fix old r assume a: "ahead bs r" and d: "r_depth r = d"
    from m [where old = "entries_of old", OF a [unfolded kvs(1)] d dist]
    show "\<exists>r'. decode_shape (cbor_reader ro user) n F (dt_map mc md kt u) old r = Some ((Inr (), v), r') \<and> past (length bs) r r'"
      by (auto simp: rewrap_def returns_def kvs(1) es(1) kt io(2))
  qed
  with kvs(1) show "opens (optional_type (dt_map mc md kt u) \<noteq> None) bs
      \<and> restores d (has_type (dt_map mc md kt u)) (decode_shape (cbor_reader ro user) n F (dt_map mc md kt u)) bs v"
    by (simp add: opens_shapes(5))
qed

text \<open>Optionals: null, or what is contained.\<close>

lemma written_null: "written wo d (Some (a_leaf c_null)) bs \<Longrightarrow> bs = make_head major_simple 22"
proof -
  have "make_head major_simple 22 = [0xF6]" by code_simp
  then show "written wo d (Some (a_leaf c_null)) bs \<Longrightarrow> bs = make_head major_simple 22" by (auto simp: written_def)
qed

lemma optional_restores:
  assumes "\<not> o_require_deterministic ro"
  shows "restores d P (decode_optional (cbor_reader ro user) v0 dec) (make_head major_simple 22) (v_optional None)"
    "opens False bs \<Longrightarrow> restores d Q dec bs w \<Longrightarrow> Q v0 \<Longrightarrow> restores d P (decode_optional (cbor_reader ro user) v0 dec) bs (v_optional (Some w))"
proof -
  show "restores d P (decode_optional (cbor_reader ro user) v0 dec) (make_head major_simple 22) (v_optional None)"
  proof (rule restoresI)
    fix old r assume a: "ahead (make_head major_simple 22) r"
    have "head_ai 22 = 22" by (simp add: head_ai_def)
    then have "peek ro r = kind_null" using peek_ahead [of major_simple 22 "[]" r ro] a by simp
    with readsD [OF expect_null_reads [OF assms] a]
    show "\<exists>r'. decode_optional (cbor_reader ro user) v0 dec old r = Some ((Inr (), v_optional None), r')
        \<and> past (length (make_head major_simple 22)) r r'"
      by (auto simp: decode_optional_def returns_def)
  qed
next
  assume b: "opens False bs" "restores d Q dec bs w" "Q v0"
  show "restores d P (decode_optional (cbor_reader ro user) v0 dec) bs (v_optional (Some w))"
  proof (rule restoresI)
    fix old r assume a: "ahead bs r" "r_depth r = d"
    from opens_peek [OF b(1) a(1)] restoresD [OF b(2,3) a]
    show "\<exists>r'. decode_optional (cbor_reader ro user) v0 dec old r = Some ((Inr (), v_optional (Some w)), r') \<and> past (length bs) r r'"
      by (auto simp: decode_optional_def rewrap_def returns_def)
  qed
qed

lemma optional_round_trips:
  assumes "compatible wo ro" "optional_type u = None" "wf_type u"
  shows "value_rt wo codecs df ro user n u \<Longrightarrow> shape_rt wo codecs df ro user n (dt_optional u)"
    "field_rt wo codecs df ro user n u \<Longrightarrow> field_rt wo codecs df ro user n (dt_optional u)"
proof -
  let ?eng = "cbor_engine wo codecs df"
  have nodet: "\<not> o_require_deterministic ro" using assms(1) by (simp add: compatible_def)
  have o: "optional_type (dt_optional u) \<noteq> None" by (simp add: optional_type_def)
  have step: "opens (optional_type (dt_optional u) \<noteq> None) bs
      \<and> restores d (has_type (dt_optional u)) (decode_optional (cbor_reader ro user) (initial_value u) dec) bs (v_optional x)"
    if w: "written wo d (case x of Some y \<Rightarrow> low y | None \<Rightarrow> Some (a_leaf c_null)) bs"
      and r: "\<And>y. x = Some y \<Longrightarrow> written wo d (low y) bs \<Longrightarrow> opens False bs \<and> restores d (has_type u) dec bs y" for d x bs low dec
  proof (cases x)
    case None
    with w have "bs = make_head major_simple 22" by (simp add: written_null)
    with None show ?thesis using optional_restores(1) [OF nodet] opens_heads(3) o by simp
  next
    case (Some y)
    with w r have b: "opens False bs" "restores d (has_type u) dec bs y" by simp_all
    from optional_restores(2) [OF nodet b initial_value_typed [OF assms(3)]] opens_weaken [OF b(1)] Some show ?thesis by simp
  qed
  show "shape_rt wo codecs df ro user n (dt_optional u)" if rt: "value_rt wo codecs df ro user n u"
  proof (rule round_tripsI)
    fix F d v bs assume v: "has_type (dt_optional u) v" and p: "plain_field F" and reg: "regular (o_deterministic wo) ?eng (dt_optional u) v"
      and w: "written wo d (lower_shape ?eng F v) bs" and l: "length bs < n" "length bs < 2 ^ 64"
    from v obtain x where x: "v = v_optional x" "\<And>y. x = Some y \<Longrightarrow> has_type u y"
      by (cases v) (simp_all split: option.splits)
    have "opens False bs \<and> restores d (has_type u) (decode_value (cbor_reader ro user) n F u) bs y"
      if "x = Some y" "written wo d (lower_value ?eng F y) bs" for y
      using round_tripsD [OF rt p x(2) _ that(2) l] that(1) reg assms(2) by (simp add: x(1))
    from step [OF _ this, where x = x and low = "lower_value ?eng F"] w
    have "opens (optional_type (dt_optional u) \<noteq> None) bs \<and> restores d (has_type (dt_optional u))
        (decode_optional (cbor_reader ro user) (initial_value u) (decode_value (cbor_reader ro user) n F u)) bs v"
      by (cases x) (simp_all add: x(1))
    moreover have "decode_shape (cbor_reader ro user) n F (dt_optional u)
        = decode_optional (cbor_reader ro user) (initial_value u) (decode_value (cbor_reader ro user) n F u)"
      by (rule ext, rule ext) simp
    ultimately show "opens (optional_type (dt_optional u) \<noteq> None) bs
        \<and> restores d (has_type (dt_optional u)) (decode_shape (cbor_reader ro user) n F (dt_optional u)) bs v" by simp
  qed
  show "field_rt wo codecs df ro user n (dt_optional u)" if rt: "field_rt wo codecs df ro user n u"
  proof (rule round_tripsI)
    fix F d v bs assume v: "has_type (dt_optional u) v" and p: "plain_field F" and reg: "regular (o_deterministic wo) ?eng (dt_optional u) v"
      and w: "written wo d (lower_field_value ?eng F v) bs" and l: "length bs < n" "length bs < 2 ^ 64"
    from v obtain x where x: "v = v_optional x" "\<And>y. x = Some y \<Longrightarrow> has_type u y"
      by (cases v) (simp_all split: option.splits)
    have "opens False bs \<and> restores d (has_type u) (decode_field_value (cbor_reader ro user) n F u) bs y"
      if "x = Some y" "written wo d (lower_field_value ?eng F y) bs" for y
      using round_tripsD [OF rt p x(2) _ that(2) l] that(1) reg assms(2) by (simp add: x(1))
    from step [OF _ this, where x = x and low = "lower_field_value ?eng F"] w
    have "opens (optional_type (dt_optional u) \<noteq> None) bs \<and> restores d (has_type (dt_optional u))
        (decode_optional (cbor_reader ro user) (initial_value u) (decode_field_value (cbor_reader ro user) n F u)) bs v"
      by (cases x) (simp_all add: x(1) lower_field_value.simps [of _ _ "v_optional _"] optional_of_def)
    moreover have "decode_field_value (cbor_reader ro user) n F (dt_optional u)
        = decode_optional (cbor_reader ro user) (initial_value u) (decode_field_value (cbor_reader ro user) n F u)"
      by (rule ext, rule ext, subst decode_field_value.simps) (simp add: optional_type_def)
    ultimately show "opens (optional_type (dt_optional u) \<noteq> None) bs
        \<and> restores d (has_type (dt_optional u)) (decode_field_value (cbor_reader ro user) n F (dt_optional u)) bs v" by simp
  qed
qed

lemma class_round_trips:
  assumes "compatible wo ro" "plain_class c" "wf_type (dt_class c ts vs0)" "\<And>t. t \<in> set ts \<Longrightarrow> field_rt wo codecs df ro user n t"
  shows "shape_rt wo codecs df ro user n (dt_class c ts vs0)"
proof (rule round_tripsI)
  let ?eng = "cbor_engine wo codecs df"
  fix F d v bs assume v: "has_type (dt_class c ts vs0) v" and reg: "regular (o_deterministic wo) ?eng (dt_class c ts vs0) v"
    and w: "written wo d (lower_shape ?eng F v) bs" and l: "length bs < n" "length bs < 2 ^ 64"
  from v obtain vs where vs: "v = v_class c vs" "have_types ts vs" by (auto simp: have_types_def split: cval.splits)
  have emit: "\<forall>f\<in>set (build_fields c). will_emit ?eng f (vs ! idx f)" using reg by (simp add: vs(1))
  have "restores (Suc d) (has_type (ts ! idx f)) (decode_field_value (cbor_reader ro user) n f (ts ! idx f)) b (vs ! idx f)"
    if f: "f \<in> set (build_fields c)" and b: "written wo (Suc d) (lower_field_value ?eng f (vs ! idx f)) b" "length b < length bs" for f b
  proof -
    have i: "idx f < length ts" using f field_at [OF assms(3)] assms(3) by (auto simp: in_set_conv_nth)
    then have "(ts ! idx f, vs ! idx f) \<in> set (zip ts vs)" using vs(2) by (force simp: set_zip have_types_nth)
    with reg have "regular (o_deterministic wo) ?eng (ts ! idx f) (vs ! idx f)" by (auto simp: vs(1))
    moreover have "plain_field f" using f assms(2) by (simp add: plain_class_def)
    moreover have "has_type (ts ! idx f) (vs ! idx f)" using i vs(2) by (simp add: have_types_nth)
    ultimately show ?thesis using round_tripsD [OF assms(4) [OF nth_mem [OF i]] _ _ _ b(1)] b(2) l by simp
  qed
  from class_restores [OF assms(1-3) vs(2) emit w [unfolded vs(1) lower_shape.simps] l this]
  have "opens False bs" "restores d (has_type (dt_class c ts vs0)) (decode_class (cbor_reader ro user) n [] (dt_class c ts vs0)) bs v"
    by (auto simp: opens_shapes(5) vs(1))
  moreover have "decode_shape (cbor_reader ro user) n F (dt_class c ts vs0) = decode_class (cbor_reader ro user) n [] (dt_class c ts vs0)"
    by (rule ext, rule ext) simp
  ultimately show "opens (optional_type (dt_class c ts vs0) \<noteq> None) bs
      \<and> restores d (has_type (dt_class c ts vs0)) (decode_shape (cbor_reader ro user) n F (dt_class c ts vs0)) bs v"
    by (simp add: opens_weaken)
qed

subsection \<open>Every plain type\<close>

lemma value_round_trips:
  assumes "shape_rt wo codecs df ro user n t"
  shows "value_rt wo codecs df ro user n t"
proof (rule round_tripsI)
  fix F d v bs assume v: "has_type t v" and p: "plain_field F" and reg: "regular (o_deterministic wo) (cbor_engine wo codecs df) t v"
    and w: "written wo d (lower_value (cbor_engine wo codecs df) F v) bs" and l: "length bs < n" "length bs < 2 ^ 64"
  have none: "fm_codec F = None" using p by (simp add: plain_field_def)
  have "decode_value (cbor_reader ro user) n F t = decode_shape (cbor_reader ro user) n F t"
    by (rule ext, rule ext) (simp add: decode_value.simps none)
  with round_tripsD [OF assms p v reg _ l] w
  show "opens (optional_type t \<noteq> None) bs \<and> restores d (has_type t) (decode_value (cbor_reader ro user) n F t) bs v"
    by (simp add: lower_value.simps none)
qed

text \<open>No tag is written or expected, and no typed array.\<close>

lemma untagged:
  assumes "plain_field F" "plain_type t" "has_type t v" "optional_type t = None"
  shows "value_tags (cbor_engine wo codecs df) F v = []" "destination_tags (cbor_reader ro user) F t = []"
    "lower_field_value (cbor_engine wo codecs df) F v = lower_value (cbor_engine wo codecs df) F v"
proof -
  have anns: "List.map_filter cbor_tag_of_ann (fm_annotations F) = []" "\<not> has_annotation ann_typed_array (fm_annotations F)"
    using assms(1) by (auto simp: plain_field_def expected_tags_def)
  have cls: "expected_tags (fm_annotations F) False (Some (type_annotations_of c)) = []" if "plain_class c" for c
    using that anns(1) by (auto simp: plain_class_def expected_tags_def split: if_splits)
  have none: "expected_tags (fm_annotations F) False None = []" using assms(1) by (simp add: plain_field_def)
  show tags: "value_tags (cbor_engine wo codecs df) F v = []"
    using assms(2-4) cls none
    by (cases t; cases v; auto simp: value_tags_def cbor_engine_def cbor_format_traits_def optional_type_def Let_def)
  show "destination_tags (cbor_reader ro user) F t = []"
    using assms(2) cls none by (cases t) (auto simp: destination_tags_def cbor_format_traits_def Let_def)
  have bulk: "\<not> ft_bulk_range (eng_traits (cbor_engine wo codecs df)) (fm_annotations F) b" for b
    using anns(2) by (simp add: cbor_engine_def cbor_format_traits_def)
  have untag: "map_option (tag_item []) x = x" for x by (cases x) (simp_all add: tag_item_def)
  have "optional_of v = None"
    using assms(2-4) by (cases t; cases v) (auto simp: optional_of_def optional_type_def)
  then show "lower_field_value (cbor_engine wo codecs df) F v = lower_value (cbor_engine wo codecs df) F v"
    by (subst lower_field_value.simps) (simp add: tags bulk untag)
qed

lemma field_round_trips:
  assumes "value_rt wo codecs df ro user n t" "plain_type t" "optional_type t = None"
  shows "field_rt wo codecs df ro user n t"
proof (rule round_tripsI)
  let ?ops = "cbor_reader ro user"
  fix F d v bs assume v: "has_type t v" and p: "plain_field F" and reg: "regular (o_deterministic wo) (cbor_engine wo codecs df) t v"
    and w: "written wo d (lower_field_value (cbor_engine wo codecs df) F v) bs" and l: "length bs < n" "length bs < 2 ^ 64"
  from round_tripsD [OF assms(1) p v reg _ l] w
  have b: "opens (optional_type t \<noteq> None) bs" "restores d (has_type t) (decode_value ?ops n F t) bs v"
    by (simp_all add: untagged(3) [OF p assms(2) v assms(3)])
  have "restores d (has_type t) (decode_field_value ?ops n F t) bs v"
  proof (rule restoresI)
    fix old r assume old: "has_type t old" and a: "ahead bs r" "r_depth r = d"
    have "decode_field_value ?ops n F t old r = decode_value ?ops n F t old r"
    proof (cases "cbor_read_range ro t")
      case (Some f)
      then show ?thesis using opens_range [OF b(1) a(1) Some, of old]
        by (subst decode_field_value.simps) (simp add: assms(3) untagged(2) [OF p assms(2) v assms(3)])
    qed (subst decode_field_value.simps, simp add: assms(3) untagged(2) [OF p assms(2) v assms(3)])
    with restoresD [OF b(2) old a] show "\<exists>r'. decode_field_value ?ops n F t old r = Some ((Inr (), v), r') \<and> past (length bs) r r'"
      by simp
  qed
  with b(1) show "opens (optional_type t \<noteq> None) bs \<and> restores d (has_type t) (decode_field_value ?ops n F t) bs v" ..
qed

lemma all_round_trip:
  assumes "compatible wo ro"
  shows "plain_type t \<Longrightarrow> wf_type t \<Longrightarrow> value_rt wo codecs df ro user n t \<and> field_rt wo codecs df ro user n t"
proof (induction t rule: measure_induct_rule [where f = size])
  case (less t)
  let ?v = "value_rt wo codecs df ro user n" and ?f = "field_rt wo codecs df ro user n"
  have IH: "?v u \<and> ?f u" if "size u < size t" "plain_type u" "wf_type u" for u
    using less.IH that by blast
  note leaf = leaf_round_trips [OF assms] octets_round_trips [OF assms] real_round_trips [OF assms]
  have "shape_rt wo codecs df ro user n t"
  proof (cases t)
    case (dt_optional u)
    with less.prems IH [of u] show ?thesis by (simp add: optional_round_trips(1) [OF assms])
  next
    case (dt_byte_range be dest d)
    with less.prems leaf(7) show ?thesis by simp
  next
    case (dt_enum e sg b d)
    show ?thesis unfolding dt_enum by (rule enum_round_trips [OF assms less.prems(1) [unfolded dt_enum]])
  next
    case (dt_map mc md kt u)
    have "?v u" using less.prems IH [of u] dt_map by simp
    with map_round_trips [OF assms less.prems(1,2) [unfolded dt_map]] show ?thesis unfolding dt_map .
  next
    case (dt_tuple ts)
    have "?v u" if "u \<in> set ts" for u
      using that less.prems IH [of u] size_list_member [of u ts size] by (simp add: dt_tuple)
    from tuple_round_trips [OF assms this] show ?thesis unfolding dt_tuple .
  next
    case (dt_array k im u)
    have "?v u" using less.prems IH [of u] dt_array by simp
    from array_round_trips [OF assms this] show ?thesis unfolding dt_array .
  next
    case (dt_sequence ct u)
    have "wf_type u" "?v u" using less.prems IH [of u] dt_sequence by simp_all
    with sequence_round_trips [OF assms less.prems(1) [unfolded dt_sequence]] show ?thesis unfolding dt_sequence .
  next
    case (dt_class c ts vs)
    have "?f u" if "u \<in> set ts" for u
      using that less.prems IH [of u] size_list_member [of u ts size] by (simp add: dt_class)
    from class_round_trips [OF assms _ less.prems(2) [unfolded dt_class] this] less.prems(1) show ?thesis
      unfolding dt_class by simp
  qed (use leaf less.prems in \<open>simp_all\<close>)
  then have v: "?v t" by (rule value_round_trips)
  have "?f t"
  proof (cases "optional_type t")
    case None
    with v less.prems show ?thesis by (intro field_round_trips)
  next
    case (Some u)
    then have t: "t = dt_optional u" by (auto simp: optional_type_def split: dtype.splits)
    with less.prems IH [of u] show ?thesis by (simp add: optional_round_trips(2) [OF assms])
  qed
  with v show ?case ..
qed

section \<open>Every value is written\<close>

text \<open>A value of a plain type has an item, and the item a CBOR form.\<close>

definition itemised :: "cbor_options \<Rightarrow> aitem option \<Rightarrow> bool" where
  "itemised wo x \<longleftrightarrow> (\<exists>i y. x = Some i \<and> cbor_item wo i = Some y)"

lemma those_the: "\<forall>x\<in>set xs. g x \<noteq> None \<Longrightarrow> those (map g xs) = Some (map (\<lambda>x. the (g x)) xs)"
  by (induction xs) auto

lemma itemised_array:
  assumes "\<forall>w\<in>set vs. itemised wo (g w)" "cbor_array wo h = Some b"
  shows "itemised wo (map_option (a_array h) (those (map g vs)))"
proof -
  have "those (map g vs) = Some (map (\<lambda>w. the (g w)) vs)"
    using assms(1) by (intro those_the) (auto simp: itemised_def)
  moreover have "those (map (\<lambda>w. cbor_item wo (the (g w))) vs) = Some (map (\<lambda>w. the (cbor_item wo (the (g w)))) vs)"
    using assms(1) by (intro those_the) (force simp: itemised_def)
  ultimately show ?thesis using assms(2) by (simp add: itemised_def comp_def)
qed

lemma itemised_map:
  assumes "\<forall>e\<in>set es. \<exists>k x. h e = Some (k, x) \<and> cbor_key wo k \<noteq> None \<and> itemised wo (Some x)" "cbor_form wo m = Some kd"
  shows "itemised wo (map_option (a_map m) (those (map h es)))"
proof -
  let ?c = "\<lambda>(k, x). pair_option (cbor_key wo k) (cbor_item wo x)"
  have "those (map h es) = Some (map (\<lambda>e. the (h e)) es)"
    using assms(1) by (intro those_the) auto
  moreover have "those (map (\<lambda>e. ?c (the (h e))) es) = Some (map (\<lambda>e. the (?c (the (h e)))) es)"
  proof (rule those_the, rule ballI)
    fix e assume "e \<in> set es"
    then obtain k x where "h e = Some (k, x)" "cbor_key wo k \<noteq> None" "itemised wo (Some x)" using assms(1) by blast
    then show "?c (the (h e)) \<noteq> None" by (auto simp: itemised_def pair_option_def)
  qed
  ultimately show ?thesis using assms(2) by (simp add: itemised_def comp_def)
qed

lemma member_itemised:
  assumes "plain_class c" "f \<in> set (build_fields c)" "idx f < length vs"
    and "itemised wo (lower_field_value (cbor_engine wo codecs df) f (vs ! idx f))"
  shows "\<exists>k x. member_item (cbor_engine wo codecs df) vs f = Some (k, x) \<and> cbor_key wo k \<noteq> None \<and> itemised wo (Some x)"
proof -
  have "key_item (cbor_engine wo codecs df) f = c_prepared_name (wire_name (fm_info f))" "validate_utf8 (wire_name (fm_info f)) = None"
    using assms(1,2) by (simp_all add: key_item_def cbor_engine_def cbor_format_traits_def plain_class_def)
  then show ?thesis using assms(3,4) by (auto simp: member_item_def access_def itemised_def check_utf8_def)
qed

lemma all_itemised:
  "plain_type t \<Longrightarrow> wf_type t \<Longrightarrow> plain_field F \<Longrightarrow> has_type t v \<Longrightarrow> regular (o_deterministic wo) (cbor_engine wo codecs df) t v \<Longrightarrow>
     itemised wo (lower_value (cbor_engine wo codecs df) F v) \<and> itemised wo (lower_field_value (cbor_engine wo codecs df) F v)"
proof (induction t arbitrary: F v rule: measure_induct_rule [where f = size])
  case (less t)
  let ?eng = "cbor_engine wo codecs df"
  have none: "fm_codec F = None" and ch: "\<not> chunked wo (fm_annotations F)"
    using less.prems(3) by (simp_all add: plain_field_def chunked_def)
  have val: "lower_value ?eng F w = lower_shape ?eng F w" for w by (simp add: lower_value.simps none)
  have h: "cbor_array wo (Some (fm_annotations F, b)) = Some b" for b using ch by simp
  have real: "find_annotation float_width_of_ann (fm_annotations F) = None" using less.prems(3) by (simp add: plain_field_def)
  have "itemised wo (lower_shape ?eng F v)"
  proof (cases t)
    case (dt_optional u)
    with less.prems less.IH [of u F] show ?thesis
      by (cases v) (auto simp: itemised_def split: option.splits)
  next
    case (dt_map mc md kt u)
    then obtain es where es: "v = v_map (mc_sized mc) es" "\<forall>e\<in>set es. key_has_type kt (fst e) \<and> has_type u (snd e)"
      using less.prems(4) by (cases v) (simp_all add: split_beta)
    obtain view where kt: "kt = mkt_string view" using less.prems(1) dt_map by (auto split: map_key_type.splits)
    have "\<exists>k x. map_option (Pair (key_call_of (fst e))) (lower_value ?eng F (snd e)) = Some (k, x) \<and> cbor_key wo k \<noteq> None
        \<and> itemised wo (Some x)" if e: "e \<in> set es" for e
    proof -
      have "itemised wo (lower_value ?eng F (snd e))"
        using less.prems less.IH [of u F "snd e"] e es dt_map by fastforce
      moreover obtain k where "fst e = mk_string k" using e es(2) kt by (cases "fst e") auto
      ultimately show ?thesis by (auto simp: itemised_def)
    qed
    then show ?thesis using itemised_map [of es _ wo "mf_field (fm_annotations F) (mc_sized mc)"] ch by (simp add: es(1))
  next
    case (dt_tuple ts)
    then obtain vs where vs: "v = v_tuple vs" "have_types ts vs" using less.prems(4) by (auto simp: have_types_def split: cval.splits)
    have "\<forall>w\<in>set vs. itemised wo (lower_value ?eng F w)"
    proof
      fix w assume "w \<in> set vs"
      then obtain i where i: "i < length ts" "w = vs ! i" using vs(2) by (auto simp: in_set_conv_nth have_types_nth)
      then have z: "(ts ! i, w) \<in> set (zip ts vs)" using vs(2) by (force simp: set_zip have_types_nth)
      with less.prems vs i show "itemised wo (lower_value ?eng F w)"
        using less.IH [of "ts ! i" F w] size_list_member [OF nth_mem [OF i(1)], of size] by (auto simp: dt_tuple have_types_nth)
    qed
    then show ?thesis by (simp add: vs(1) itemised_array)
  next
    case (dt_array k im u)
    with less.prems less.IH [of u F] h show ?thesis by (cases v) (auto intro!: itemised_array)
  next
    case (dt_sequence ct u)
    with less.prems less.IH [of u F] h show ?thesis by (cases v) (auto intro!: itemised_array)
  next
    case (dt_enum e sg b d)
    then obtain i where i: "v = v_enum e sg i" "\<forall>x\<in>set (build_enum_schema e). ei_value x = i \<longrightarrow> \<not> ei_skipped x"
      using less.prems(4,5) by (auto split: cval.splits)
    have "enum_encodes_as_integer e (fm_annotations F) True"
      using less.prems(1,3) by (intro plain_enum_integer) (simp_all add: dt_enum)
    then show ?thesis using i(2)
      by (auto simp: i(1) enum_item_def Let_def itemised_def cbor_engine_def cbor_format_traits_def list_ex_iff)
  next
    case (dt_class c ts vs0)
    then obtain vs where vs: "v = v_class c vs" "have_types ts vs" using less.prems(4) by (auto simp: have_types_def split: cval.splits)
    have c: "plain_class c" "wf_type (dt_class c ts vs0)" using less.prems(1,2) by (simp_all add: dt_class)
    have "\<exists>k x. member_item ?eng vs f = Some (k, x) \<and> cbor_key wo k \<noteq> None \<and> itemised wo (Some x)" if f: "f \<in> set (build_fields c)" for f
    proof (rule member_itemised [OF c(1) f])
      have i: "idx f < length ts" using f field_at [OF c(2)] c(2) by (auto simp: in_set_conv_nth)
      then show "idx f < length vs" using vs(2) by (simp add: have_types_nth)
      have z: "(ts ! idx f, vs ! idx f) \<in> set (zip ts vs)" using i vs(2) by (force simp: set_zip have_types_nth)
      have "plain_field f" using f c(1) by (simp add: plain_class_def)
      with less.prems vs i z show "itemised wo (lower_field_value ?eng f (vs ! idx f))"
        using less.IH [of "ts ! idx f" f "vs ! idx f"] size_list_member [OF nth_mem [OF i], of size] by (auto simp: dt_class have_types_nth)
    qed
    moreover have "set (emitted ?eng c vs) \<subseteq> set (build_fields c)"
      using mset_eq_setD [OF permuted_fields [OF cbor_order.permutes, of c wo codecs df]] by (auto simp: emitted_eq)
    ultimately have "itemised wo (map_option (a_map mf_ordered) (those (map (member_item ?eng vs) (emitted ?eng c vs))))"
      by (intro itemised_map [where kd = map_ordered]) auto
    then show ?thesis
      using c(1) by (simp add: vs(1) lower_struct.simps member_item_def [abs_def] struct_item_def [abs_def] plain_class_def)
  qed (use less.prems ch real in \<open>auto simp: itemised_def cbor_engine_def cbor_format_traits_def split: cval.splits\<close>)
  then have v: "itemised wo (lower_value ?eng F v)" by (simp add: val)
  moreover have "itemised wo (lower_field_value ?eng F v)"
  proof (cases "optional_type t")
    case None
    with v untagged(3) [OF less.prems(3,1,4)] show ?thesis by simp
  next
    case (Some u)
    then have t: "t = dt_optional u" by (auto simp: optional_type_def split: dtype.splits)
    with less.prems less.IH [of u F] show ?thesis
      by (cases v) (auto simp: itemised_def lower_field_value.simps [of _ _ "v_optional _"] optional_of_def split: option.splits)
  qed
  ultimately show ?case ..
qed

section \<open>Encode, then decode\<close>

lemma typed_object_ok: "plain_type t \<Longrightarrow> wf_type t \<Longrightarrow> has_type t v \<Longrightarrow> object_ok v"
proof (induction t arbitrary: v rule: measure_induct_rule [where f = size])
  case (less t)
  have all: "list_all object_ok vs" if "have_types ts vs" "\<And>u. u \<in> set ts \<Longrightarrow> size u < size t \<and> plain_type u \<and> wf_type u" for ts vs
    using that less.IH nth_mem by (fastforce simp: list_all_length have_types_nth)
  show ?case
  proof (cases t)
    case (dt_map mc md kt u)
    with less.prems less.IH [of u] show ?thesis by (cases v) (auto simp: list_all_iff)
  next
    case (dt_tuple ts)
    then have "size u < size t \<and> plain_type u \<and> wf_type u" if "u \<in> set ts" for u
      using that less.prems size_list_member [OF that, of size] by simp
    with less.prems(3) all [of ts] show ?thesis by (cases v) (auto simp: dt_tuple have_types_def)
  next
    case (dt_class c ts vs)
    then have "size u < size t \<and> plain_type u \<and> wf_type u" if "u \<in> set ts" for u
      using that less.prems size_list_member [OF that, of size] by simp
    with less.prems all [of ts] show ?thesis by (cases v) (auto simp: dt_class have_types_def plain_class_def)
  next
    case (dt_optional u)
    with less.prems less.IH [of u] show ?thesis by (cases v) (auto split: option.splits)
  next
    case (dt_array k im u)
    with less.prems less.IH [of u] show ?thesis by (cases v) (auto simp: list_all_iff)
  next
    case (dt_sequence ct u)
    with less.prems less.IH [of u] show ?thesis by (cases v) (auto simp: list_all_iff)
  qed (use less.prems in \<open>cases v; simp\<close>)+
qed

text \<open>The reader is past a self-describe tag before it decodes.\<close>

lemma start_ahead:
  assumes "opens null content" "bs = (if sd then [0xD9, 0xD9, 0xF7] else []) @ content"
  shows "ahead content (Cbor_Read.start (new_reader bs))"
    "r_pos (Cbor_Read.start (new_reader bs)) + length content = length bs" "r_depth (Cbor_Read.start (new_reader bs)) = 0"
    "r_in (Cbor_Read.start (new_reader bs)) = bs" "r_collected (Cbor_Read.start (new_reader bs)) = []"
proof -
  have tag: "make_head major_tag self_described = [0xD9, 0xD9, 0xF7]" by code_simp
  have n: "r_in (new_reader bs) = bs" "r_pos (new_reader bs) = 0" "r_pending (new_reader bs) = None"
    "r_depth (new_reader bs) = 0" "r_collected (new_reader bs) = []"
    by (simp_all add: new_reader_def)
  have a: "ahead bs (new_reader bs)" by (simp add: ahead_def n)
  have s: "Cbor_Read.start (new_reader bs) = (if sd then r_advance 3 (new_reader bs) else new_reader bs)"
  proof (cases sd)
    case True
    with a assms(2) have "ahead (make_head major_tag self_described @ content) (new_reader bs)" by (simp add: tag)
    from ahead_head [OF this] show ?thesis using True by (simp add: Cbor_Read.start_def Let_def tag numeral_3_eq_3)
  next
    case False
    with a assms(2) have c: "ahead content (new_reader bs)" by simp
    from assms(1) show ?thesis
    proof (cases rule: opens_cases)
      case (1 m v rest)
      with ahead_head [of m v rest "new_reader bs"] c False show ?thesis by (simp add: Cbor_Read.start_def Let_def)
    next
      case (2 x arg)
      with ahead_float [of x arg "[]" "new_reader bs"] c False show ?thesis by (simp add: Cbor_Read.start_def Let_def float_head_def)
    qed
  qed
  show "ahead content (Cbor_Read.start (new_reader bs))" "r_pos (Cbor_Read.start (new_reader bs)) + length content = length bs"
    "r_depth (Cbor_Read.start (new_reader bs)) = 0" "r_in (Cbor_Read.start (new_reader bs)) = bs"
    "r_collected (Cbor_Read.start (new_reader bs)) = []"
    unfolding s by (cases sd; simp add: ahead_def r_advance_def n; simp add: assms(2))+
qed

text \<open>The octets of a value are those of its item.\<close>

lemma cbor_encode_item:
  assumes "object_ok v" "lower_field_value (cbor_engine wo codecs df) no_field v = Some x" "cbor_item wo x = Some y" "det_options wo v = wo"
  shows "cbor_encode wo codecs df v = Inr bs \<longleftrightarrow> (\<exists>content. enc wo 0 y = Inr content
    \<and> bs = (if o_self_describe wo \<or> has_annotation ann_self_describe (class_annotations v) then [0xD9, 0xD9, 0xF7] else []) @ content)"
proof -
  let ?r = "cbor_encode wo codecs df v"
  have r: "strip_path ?r = strip_path (case enc wo 0 y of Inl e \<Rightarrow> Inl e
      | Inr content \<Rightarrow> Inr ((if o_self_describe wo \<or> has_annotation ann_self_describe (class_annotations v) then [0xD9, 0xD9, 0xF7] else []) @ content))"
    using cbor_append_item [of v wo codecs df x y "[]", unfolded assms(4) List.append.simps(1), OF assms(1-3)]
    unfolding cbor_encode_def .
  show ?thesis
  proof (cases "enc wo 0 y")
    case (Inl e)
    then have "isl (strip_path ?r)" using r by simp
    then show ?thesis using Inl by (cases ?r) simp_all
  next
    case (Inr content)
    with r show ?thesis by auto
  qed
qed

text \<open>C4. What \<^verbatim>\<open>cbor::encode\<close> writes of a value, \<^verbatim>\<open>cbor::decode\<close> into a default-constructed object reads back as that value,
  through the two engines, the sink and the source, with nothing left over, under deterministic encoding or not, with or
  without the self-describe tag. The types are those of \<open>plain_type\<close>: booleans, characters, integers, reals, enums that CBOR
  writes as integers, strings, octets, optionals not directly in an optional, tuples, fixed arrays, sequences one can size,
  clear and append to, maps of that kind with string keys, and classes with a usable schema that are neither transparent nor
  tagged and whose members have text keys and no codec, tag, typed array, indefinite length, pinned float width, text enum
  or skipping. The value (\<open>regular\<close>) has all its members written, reals that are not NaNs and exact in their type,
  enumerators that are declared and not skipped, and maps with distinct keys that come out the same inserted in the order
  written (any order where the writer sorts, as for \<^verbatim>\<open>std::map\<close>). The options (\<open>compatible\<close>): definite lengths and floats of
  preferred or double width in writing; in reading no determinism required, a depth limit at least as high, UTF-8 checked
  only if in writing. The type is well formed, the class of the value is not declared deterministic, and the output is
  shorter than \<open>2 ^ 64\<close> octets.\<close>

theorem cbor_round_trip:
  assumes "plain_type t" "wf_type t" "has_type t v" "regular (o_deterministic wo) (cbor_engine wo codecs is_default) t v" "compatible wo ro"
    "\<not> has_annotation ann_deterministic (class_annotations v)"
    "cbor_encode wo codecs is_default v = Inr bs" "length bs < 2 ^ 64"
  shows "cbor_decode user ro t False tname bs = Inr v"
proof -
  let ?eng = "cbor_engine wo codecs is_default"
  have F: "plain_field no_field"
    by (simp add: plain_field_def no_field_def has_annotation_def expected_tags_def)
  have det: "det_options wo v = wo" using assms(6) by (simp add: det_options_def with_type_determinism_encode_def)
  obtain x y where x: "lower_field_value ?eng no_field v = Some x" "cbor_item wo x = Some y"
    using all_itemised [OF assms(1,2) F assms(3,4)] by (auto simp: itemised_def)
  define sd where "sd \<longleftrightarrow> o_self_describe wo \<or> has_annotation ann_self_describe (class_annotations v)"
  from assms(7) obtain content where content: "enc wo 0 y = Inr content" "bs = (if sd then [0xD9, 0xD9, 0xF7] else []) @ content"
    unfolding cbor_encode_item [OF typed_object_ok [OF assms(1-3)] x det] sd_def by blast
  have "written wo 0 (lower_field_value ?eng no_field v) content" using x content(1) by (simp add: written_def)
  moreover have "length content < Suc (length bs)" "length content < 2 ^ 64" using content(2) assms(8) by simp_all
  ultimately have b: "opens (optional_type t \<noteq> None) content"
    "restores 0 (has_type t) (decode_field_value (cbor_reader ro user) (Suc (length bs)) no_field t) content v"
    using round_tripsD [OF conjunct2 [OF all_round_trip [OF assms(5,1,2)]] F assms(3,4)] by blast+
  note st = start_ahead [OF b(1) content(2)]
  from restoresD [OF b(2) initial_value_typed [OF assms(2)] st(1,3)] obtain r' where
    r': "decode_field_value (cbor_reader ro user) (Suc (length bs)) no_field t (initial_value t) (Cbor_Read.start (new_reader bs)) = Some ((Inr (), v), r')"
      "past (length content) (Cbor_Read.start (new_reader bs)) r'" by blast
  then have "run_engine (cbor_decode_engine user t) ro (initial_value t) bs = ((Inr (), v), r')"
    using st(4) by (simp add: run_engine_def cbor_decode_engine_def decode_root_def r_size_def returns_def past_def take_pending_def st(5))
  moreover have "r_pos r' = length (r_in r')" "r_collected r' = []" using r'(2) st by (simp_all add: past_def)
  ultimately show ?thesis
    by (simp add: cbor_decode_def decode_def decode_into_def with_type_determinism_def finish_def r_size_def)
qed

text \<open>A container that keeps its entries sorted by their keys, as \<^verbatim>\<open>std::map\<close> does, takes them in any order.\<close>

lemma sorted_in_order:
  assumes "mc_insert mc = (\<lambda>es e. insort_key (rank \<circ> fst) e es)" "sorted (map (rank \<circ> fst) es)" "distinct (map (rank \<circ> fst) es)"
  shows "in_order sorting mc es"
proof -
  have "insert_all mc es' [] = es" if "mset es' = mset es" for es'
  proof -
    have "insert_all mc es' [] = sort_key (rank \<circ> fst) (rev es')"
      by (simp add: insert_all_def assms(1) sort_key_def foldr_conv_fold)
    also have "\<dots> = es"
    proof (rule sort_key_inj_key_eq)
      show "inj_on (rank \<circ> fst) (set (rev es'))"
        using assms(3) mset_eq_setD [OF that] by (simp add: distinct_map)
    qed (use that assms(2) in simp_all)
    finally show ?thesis .
  qed
  moreover have "distinct (map fst es)" using assms(3) by (simp add: distinct_map inj_on_def)
  ultimately show ?thesis by (simp add: in_order_def)
qed

fun key_rank :: "map_key_val \<Rightarrow> bytes" where
  "key_rank (mk_string k) = bytes_of_string k"
| "key_rank _ = []"

definition sorted_map :: map_container where
  "sorted_map = \<lparr>mc_sized = True, mc_clears = True, mc_unique = True, mc_insert = (\<lambda>es e. insort_key (key_rank \<circ> fst) e es)\<rparr>"

text \<open>An object with a sequence, an optional, a number and a map whose entries are not written in the order it keeps.\<close>

definition sample :: rclass where
  "sample = RClass ''Sample'' [] [] [] [] [RMember (Some ''xs'') [] (rt_other ''std::vector<int>'') False,
     RMember (Some ''note'') [] (rt_optional_like ''std::optional<std::string>'') False,
     RMember (Some ''id'') [] (rt_other ''std::uint64_t'') False,
     RMember (Some ''m'') [] (rt_other ''std::map<std::string, bool>'') False]"

definition sample_type :: dtype where
  "sample_type = dt_class sample [dt_sequence plain_vector (dt_sint 32 ''int''), dt_optional (dt_string False ''std::string''),
     dt_uint 64 ''std::uint64_t'', dt_map sorted_map ''std::map<std::string, bool>'' (mkt_string False) dt_bool]
     [v_sequence True None [], v_optional None, v_uint 0, v_map True []]"

definition sample_value :: cval where
  "sample_value = v_class sample [v_sequence True None [v_sint (- 1)], v_optional (Some (v_string ''ok'')), v_uint 7,
     v_map True [(mk_string ''ab'', v_bool True), (mk_string ''b'', v_bool False)]]"

lemma sample_plain: "plain_class sample"
proof -
  have "length (concat (map wire_names (build_schema sample))) = 4" by code_simp
  then have "length (concat (map wire_names (build_schema sample))) < 2 ^ 32" by simp
  moreover have "ti_ok (build_type_info sample) \<and> \<not> ti_transparent (build_type_info sample)
     \<and> expected_tags [] False (Some (type_annotations_of sample)) = []" by code_simp
  moreover have "\<forall>f\<in>set (build_fields sample). plain_field f \<and> cbor_integer_key f = None \<and> validate_utf8 (wire_name (fm_info f)) = None
          \<and> \<not> fi_skip_serializing (fm_info f) \<and> \<not> fi_skip_deserializing (fm_info f)" by code_simp
  ultimately show ?thesis unfolding plain_class_def by blast
qed

lemma sample_fits:
  "plain_type sample_type" "wf_type sample_type" "has_type sample_type sample_value"
  "regular sorting (cbor_engine opts no_codec never_default) sample_type sample_value"
proof -
  have fields: "length (build_fields sample) = Suc (Suc (Suc (Suc 0)))"
    "map (\<lambda>f. member_index (fm_info f)) (build_fields sample) = [0, 1, 2, 3]"
    "\<forall>f\<in>set (build_fields sample). \<not> has_flag (flags (fm_info f)) flag_skip_if_null \<and> \<not> has_flag (flags (fm_info f)) flag_skip_if_default"
    by code_simp+
  have nums: "unsigned_fits 64 7" "unsigned_fits 64 0" "signed_fits 32 (- 1)"
    by (simp_all add: unsigned_fits_def signed_fits_def)
  show "plain_type sample_type" by (simp add: sample_type_def sample_plain plain_vector_def sorted_map_def optional_type_def)
  show "wf_type sample_type"
    by (auto simp: sample_type_def plain_vector_def sorted_map_def fields(1,2) have_types_def nums upt_rec set_insort_key)
  show "has_type sample_type sample_value"
    by (simp add: sample_type_def sample_value_def plain_vector_def sorted_map_def nums)
  have "map (key_rank \<circ> fst) [(mk_string ''ab'', v_bool True), (mk_string ''b'', v_bool False)] = [[0x61, 0x62], [0x62]]" by code_simp
  then have m: "in_order sorting sorted_map [(mk_string ''ab'', v_bool True), (mk_string ''b'', v_bool False)]"
    by (intro sorted_in_order [where rank = key_rank]) (simp_all only: , simp_all add: sorted_map_def)
  have "\<forall>f\<in>set (build_fields sample). will_emit (cbor_engine opts no_codec never_default) f m" for m
    using fields(3) by (simp add: will_emit_def)
  with m show "regular sorting (cbor_engine opts no_codec never_default) sample_type sample_value"
    by (simp add: sample_type_def sample_value_def)
qed

theorem cbor_round_trip_witness:
  "cbor_decode (null_codecs default_options) default_options sample_type False ''Sample''
     [0xA4, 0x61, 0x6D, 0xA2, 0x61, 0x62, 0xF4, 0x62, 0x61, 0x62, 0xF5, 0x62, 0x69, 0x64, 0x07, 0x62, 0x78, 0x73, 0x81, 0x20,
      0x64, 0x6E, 0x6F, 0x74, 0x65, 0x62, 0x6F, 0x6B] = Inr sample_value"
proof -
  have c: "compatible default_options default_options" by (simp add: compatible_def default_options_def)
  let ?eng = "cbor_engine default_options no_codec never_default"
  let ?y = "CMap map_ordered [(CText ''m'', CMap map_sized [(CText ''ab'', CBool True), (CText ''b'', CBool False)]),
     (CText ''id'', CUint 7), (CText ''xs'', CArray True [CNint 0]), (CText ''note'', CText ''ok'')]"
  have y: "map_option (cbor_item default_options) (lower_field_value ?eng no_field sample_value) = Some (Some ?y)" by code_simp
  then obtain x where x: "lower_field_value ?eng no_field sample_value = Some x" "cbor_item default_options x = Some ?y" by auto
  have d: "\<not> has_annotation ann_deterministic (class_annotations sample_value)" "det_options default_options sample_value = default_options"
    "\<not> (o_self_describe default_options \<or> has_annotation ann_self_describe (class_annotations sample_value))" by code_simp+
  have "enc default_options 0 ?y = Inr [0xA4, 0x61, 0x6D, 0xA2, 0x61, 0x62, 0xF4, 0x62, 0x61, 0x62, 0xF5, 0x62, 0x69, 0x64, 0x07,
     0x62, 0x78, 0x73, 0x81, 0x20, 0x64, 0x6E, 0x6F, 0x74, 0x65, 0x62, 0x6F, 0x6B]" by code_simp
  with cbor_encode_item [OF typed_object_ok [OF sample_fits(1-3)] x d(2)] d(3)
  have "cbor_encode default_options no_codec never_default sample_value = Inr [0xA4, 0x61, 0x6D, 0xA2, 0x61, 0x62, 0xF4, 0x62, 0x61, 0x62, 0xF5,
     0x62, 0x69, 0x64, 0x07, 0x62, 0x78, 0x73, 0x81, 0x20, 0x64, 0x6E, 0x6F, 0x74, 0x65, 0x62, 0x6F, 0x6B]" by simp
  from cbor_round_trip [OF sample_fits c d(1) this] show ?thesis by simp
qed

end
