(* ===== verification/Build_Findings.thy ===== *)
theory Build_Findings
  imports Decode_Types Encode_Formats
begin

text \<open>
  Inputs on which \<^verbatim>\<open>core/build.hpp\<close> does not do what encoding, its comments or the documentation lead one to expect,
  each evaluated on the model.
\<close>

section \<open>A variant of a class with integer keys\<close>

text \<open>The first pass over an internally tagged variant reads every key as text, so an alternative with integer keys
  is written but never read.\<close>

definition circle :: rclass where
  "circle = RClass ''circle'' [ann_integer_keys] [] [] [] [RMember (Some ''radius'') [] (rt_other ''std::uint8_t'') False]"

definition drawing :: rclass where
  "drawing = RClass ''drawing'' [] [] [] [] [RMember (Some ''shape'') [ann_tag ''type''] (rt_other ''std::variant<circle>'') False]"

definition drawing_type :: dtype where
  "drawing_type = dt_class drawing [dt_variant ''shape'' [(''circle'', dt_class circle [dt_uint 8 ''std::uint8_t''] [v_uint 0])]]
     [v_variant (Some (''circle'', v_class circle [v_uint 0]))]"

definition drawing_octets :: bytes where
  "drawing_octets = [0xA1, 0x65, 0x73, 0x68, 0x61, 0x70, 0x65, 0xA2, 0x01, 0x05, 0x64, 0x74, 0x79, 0x70, 0x65, 0x66,
     0x63, 0x69, 0x72, 0x63, 0x6C, 0x65]"

lemma integer_keyed_alternative_encodes:
  "cbor_encode default_options no_codec never_default (v_class drawing [v_variant (Some (''circle'', v_class circle [v_uint 5]))])
   = Inr drawing_octets"
  by code_simp

lemma integer_keyed_alternative_undecodable:
  "case cbor_decode (null_codecs default_options) default_options drawing_type False ''drawing'' drawing_octets of
     Inl e \<Rightarrow> code e = type_mismatch \<and> offset e = 8 | Inr v \<Rightarrow> False"
  by code_simp

section \<open>Integer keys above INT64\_MAX\<close>

definition bit_map :: map_container where
  "bit_map = \<lparr>mc_sized = True, mc_clears = True, mc_unique = True, mc_insert = (\<lambda>es e. es @ [e])\<rparr>"

text \<open>The largest unsigned key, repeated, is reported as -1.\<close>

lemma duplicate_unsigned_key_negative:
  "case cbor_decode (null_codecs default_options) (default_options\<lparr>o_duplicates := duplicate_error\<rparr>)
      (dt_map bit_map ''std::map<std::uint64_t, bool>'' (mkt_unsigned 64 ''std::uint64_t'') dt_bool) False []
      [0xA2, 0x1B, 0xFF, 0xFF, 0xFF, 0xFF, 0xFF, 0xFF, 0xFF, 0xFF, 0xF5, 0x1B, 0xFF, 0xFF, 0xFF, 0xFF, 0xFF, 0xFF, 0xFF, 0xFF, 0xF5] of
     Inl e \<Rightarrow> code e = duplicate_key \<and> detail e = ''-1'' | Inr v \<Rightarrow> False"
  by code_simp

text \<open>In collect mode the unknown keys 5 and 6 are both reported, but 2 ^ 63 ends the decoding, and what follows it is
  not looked at.\<close>

definition strict :: rclass where
  "strict = RClass ''strict'' [ann_integer_keys, ann_deny_unknown_fields] [] [] [] [RMember (Some ''id'') [] (rt_optional_like ''std::optional<bool>'') False]"

definition strict_type :: dtype where
  "strict_type = dt_class strict [dt_optional dt_bool] [v_optional None]"

lemma huge_key_ends_collecting:
  "map detail (snd (decode_all (cbor_decode_engine (null_codecs default_options) strict_type) default_options False ''strict''
      (initial_value strict_type) [0xA2, 0x05, 0xF5, 0x06, 0xF5])) = [''5'', ''6'']"
  "map detail (snd (decode_all (cbor_decode_engine (null_codecs default_options) strict_type) default_options False ''strict''
      (initial_value strict_type) [0xA2, 0x1B, 0x80, 0, 0, 0, 0, 0, 0, 0, 0xF5, 0x06, 0xF5])) = [''9223372036854775808'']"
  by code_simp+

end
