(* ===== verification/Spec2Isabelle.thy ===== *)
theory Spec2Isabelle
  imports Vcodec_Prelude Vcodec_Error Vcodec_Lower Vcodec_Float
    Cbor_Head Cbor_Options Cbor_Write Cbor_Encode Cbor_Read Cbor_Validate
    Core_Model Fixed_String Json_Escape Vcodec_Decimal Json_Number Json_Write Json_Read Json_Round_Trip
    Core_Annotations Core_Schema Core_Lookup Core_Keys Render_Text Cbor_Render Json_Render
    Core_Traverse Traverse_Model Traverse_Paths Encode_Formats
    Core_Build Build_Laws Decode_Cbor Decode_Json Build_Types Decode_Types
    Read_Back Write_Read Round_Trip Build_Findings
begin

text \<open>
  Verification of \<^verbatim>\<open>vcodec\<close>, a header-only C++26 library (\<^verbatim>\<open>src/include/vcodec\<close>) that encodes structs to JSON and CBOR and
  decodes them back, by compile-time reflection.

  \<^bold>\<open>The program.\<close> A \<^emph>\<open>sink\<close> (\<^verbatim>\<open>cbor/write.hpp\<close>, \<^verbatim>\<open>json/write.hpp\<close>) receives calls, one per scalar, key and container bracket, and
  appends the wire form to a buffer. A \<^emph>\<open>source\<close> (\<^verbatim>\<open>cbor/read.hpp\<close>, \<^verbatim>\<open>json/read.hpp\<close>) answers \<^verbatim>\<open>expect_\<close> calls over an input buffer,
  walks containers by cursors, validates and skips whole items, and reports structured errors (\<^verbatim>\<open>error.hpp\<close>) with the
  path of the failing member. Between them \<^verbatim>\<open>core/\<close> turns a class into a table of fields (\<^verbatim>\<open>schema.hpp\<close>, driven by
  the annotations of \<^verbatim>\<open>annotations.hpp\<close>), finds fields by name (\<^verbatim>\<open>lookup.hpp\<close>) or integer key (\<^verbatim>\<open>keys.hpp\<close>), walks values into
  a sink (\<^verbatim>\<open>traverse.hpp\<close>) and builds values from a source (\<^verbatim>\<open>build.hpp\<close>). \<^verbatim>\<open>core/lower.hpp\<close> holds what both formats share: base64, hex, UTF-8, half and single floats.

  \<^bold>\<open>Conventions.\<close> A \<^verbatim>\<open>std::uint64_t\<close> is a \<open>64 word\<close>, a \<^verbatim>\<open>std::byte\<close> an \<open>8 word\<close>, a \<^verbatim>\<open>std::string\<close> a list of 8-bit \<open>char\<close>s; a size or
  position in a buffer is a \<open>nat\<close>, since the buffer is in memory. A \<^verbatim>\<open>double\<close> is its 64-bit pattern. \<^verbatim>\<open>result<T>\<close> is \<open>error + 'a\<close>
  and a thrown \<^verbatim>\<open>encode_error\<close> is the left summand of \<open>'a encoded\<close>; state is a record, passed and returned. A template's
  \<^verbatim>\<open>options\<close> argument is an ordinary argument, what reflection reports of a class is a value of \<open>rclass\<close>, and compile-time
  evaluation is evaluation. Loops are recursion; those that are not structural have termination proofs over the
  octets left in the input, the length of a table or the size of a value. Fuel is used in two places. The loops of
  \<^verbatim>\<open>build.hpp\<close> run on a reader that is a parameter, so \<open>Core_Build\<close> gives each a number of rounds and ends in \<open>None\<close> when
  they are used up; one round more than the input has octets is enough, for both readers and either error mode, where positions can
  be packed, custom codecs consume input and no integer-key look-up overflows (\<open>cbor_decode_returns\<close>,
  \<open>json_decode_returns\<close>). The search for the shortest decimal of a double has twenty rounds
  and ends with the exact decimal.

  \<^bold>\<open>Theories, by layer.\<close>
  \<^item> \<open>Vcodec_Prelude\<close>: machine types, decimal text, lexicographic octets, big-endian groups, \<open>codec_simps\<close>.
  \<^item> \<open>Vcodec_Error\<close>: codes, the error record and its builders, the bounded path, \<open>encode_error\<close>, the terse renderer. Path
    unwinding keeps the innermost 16 steps, root first.
  \<^item> \<open>Vcodec_Lower\<close>, \<open>Vcodec_Float\<close>: \<^verbatim>\<open>core/lower.hpp\<close>. Round trips of the text encodings, UTF-8 validation against the
    RFC 3629 grammar, exactness and rounding of the float conversions.
  \<^item> \<open>Cbor_Head\<close>, \<open>Cbor_Options\<close>, \<open>Cbor_Write\<close>: heads, options, the sink with its stack of frames and buffered canonical
    maps. \<open>Cbor_Encode\<close>: the recursive reference encoder \<open>enc\<close> on data items, the proof that the sink refines it call by
    call (\<open>refines\<close>), the order and duplicate laws of canonical maps, and the invariant of the stack.
  \<^item> \<open>Cbor_Read\<close>, \<open>Cbor_Validate\<close>: the source, and the proof that the iterative validator with its explicit stack of
    levels decides a recursive grammar of items, accepts every well-formed item within its limits and is bounded by the input.
  \<^item> \<open>Core_Model\<close>: the data model, and what the core asks of a reader that looks ahead, as the locales \<open>rewindable\<close> and
    \<open>validating\<close>, which both readers interpret.
  \<^item> \<open>Fixed_String\<close>, \<open>Json_Escape\<close>, \<open>Vcodec_Decimal\<close>, \<open>Json_Number\<close>: the bounded builder, escaping and prepared keys,
    shortest decimal text of doubles (\<^verbatim>\<open>std::to_chars\<close>, \<^verbatim>\<open>std::from_chars\<close>), the number scanner, which accepts by longest
    match exactly the RFC 8259 grammar.
  \<^item> \<open>Json_Write\<close>, \<open>Json_Read\<close>, \<open>Json_Round_Trip\<close>: the JSON sink with its reference printer \<open>jtext\<close>, the JSON source, and
    scalar round trips through both.
  \<^item> \<open>Core_Annotations\<close>, \<open>Core_Schema\<close>, \<open>Core_Lookup\<close>, \<open>Core_Keys\<close>: annotations and identifier case, the walk over bases
    and members with its checks, the hash table with its seed search, edit distance, integer keys, member order. A
    usable schema is unambiguous, and every table finds exactly the field it should.
  \<^item> \<open>Core_Traverse\<close>: the encode engine, as written, on any sink; a sink may have the hooks \<^verbatim>\<open>write_range\<close> and
    \<^verbatim>\<open>write_prepared\<close> (\<open>eng_range_hook\<close>, \<open>eng_prepared\<close>). \<open>Traverse_Model\<close>: the item a value stands for (\<open>lower_value\<close>,
    without counts, paths or errors) and the proofs by induction over it, in the locale \<open>member_ordering\<close>.
    \<open>Traverse_Paths\<close>: the steps of an encoding, each with the path of the value that makes it, and where a failure is, in the
    locale \<open>pathless_sink\<close>. \<open>Encode_Formats\<close> interprets both locales on the two engines, composes engine, sink and reference
    encoder end to end, and evaluates a sink with the hook (\<open>prepared_hook_called\<close>).
  \<^item> \<open>Core_Build\<close>: the decode engine, as written, on any reader: destinations by their type (\<open>dtype\<close>), the reader concept as
    a record of operations (\<open>reader_ops\<close>), and one definition per function of \<^verbatim>\<open>build.hpp\<close>, each with the destination as
    it stands after a failure. \<open>Build_Laws\<close> states what a reader has to do for decoding to end, as the locale
    \<open>progressing\<close>, and proves that every decoder returns and consumes input; \<open>Decode_Cbor\<close> and \<open>Decode_Json\<close> assemble the
    two readers' operations, interpret \<open>progressing\<close> on them and define the entry points on values.
  \<^item> \<open>Build_Types\<close>, \<open>Decode_Types\<close>: the values of a type, and that decoding leaves a value of the destination's type, on
    success and on failure, in both formats and through typed arrays.
  \<^item> \<open>Read_Back\<close>, \<open>Write_Read\<close>, \<open>Round_Trip\<close>: \<open>cbor::decode\<close> after \<open>cbor::encode\<close>. The reader's operations undo the
    writer's heads and strings; the loops over arrays, maps and objects restore their elements; by induction on the type
    and through both entry points, what is encoded is decoded as the same value, reals and enums included. \<open>Build_Findings\<close> evaluates three inputs on
    which the decode engine departs from what encoding and its other branches do.
  \<^item> \<open>Render_Text\<close>, \<open>Cbor_Render\<close>, \<open>Json_Render\<close>: the multi-line error reports, whose windows and excerpts stay inside the
    input. The carets of the hex window stand under the octet at the offset; those of the JSON excerpt are counted in octets,
    so that they stand under the character behind ASCII and too far right behind longer sequences
    (\<open>excerpt_caret_off_column\<close>).

  \<^bold>\<open>Parameters.\<close> Code outside the repository is an argument: a custom codec is the calls it makes and what it throws,
  or a function on the reader, and an insertion into a container a function on its elements;
  \<^verbatim>\<open>operator==\<close> on a member and its default is a predicate. \<^verbatim>\<open>std::stable_sort\<close> is \<open>sort_key\<close>; \<^verbatim>\<open>std::to_chars\<close> is the
  shortest decimal that reads back, and \<^verbatim>\<open>std::from_chars\<close> the nearest double, ties to even.

  \<^bold>\<open>Bounds.\<close> \<^verbatim>\<open>max_depth\<close> (256 by default) bounds nesting of both sinks and readers; a path keeps 16 steps; a fixed string
  drops what exceeds its capacity (256 or 512 for messages); a class path has 8 elements; counts of a map are doubled in
  64 bits as the source does. Integer-key subtraction that leaves \<^verbatim>\<open>std::int64_t\<close> is a value \<open>key_undefined\<close> of the model.

  \<^verbatim>\<open>save\<close> packs a position into 48 bits and a depth into 16, so what rewinds is stated for buffers below \<open>2 ^ 48\<close> octets.
  The round trip leaves out variants, optionals of optionals, which collapse on the wire, enums written as text, integer
  keys, tags and members that may be left out of the output: a variant of a class with integer keys does not come back
  (\<open>Build_Findings\<close>).

  \<^bold>\<open>Not modelled.\<close> \<^verbatim>\<open>core/diagnose.hpp\<close>, the concepts, the API overload sets, \<^verbatim>\<open>intern\<close> and the display names of types are
  compile-time or glue: what they reject is a hypothesis (\<open>object_ok\<close>, \<open>wf_type\<close>), what they name is an input. The time
  codecs of \<^verbatim>\<open>cbor/tags.hpp\<close> are custom codecs to the engines, hence parameters. The bench, fuzz, test and example
  programs are clients of the library.
\<close>

end
